(* ===== verification/Prelude.thy ===== *)
theory Prelude
  imports Main "HOL-Library.Word" "HOL-Library.Monad_Syntax"
begin

text \<open>
  Shared vocabulary of the ByteOS development: the machine-integer types of the C sources,
  the ways in which kernel code can stop (a panic, an access the hardware or the
  undefined-behaviour sanitizer of the default debug build rejects), and the generic
  facts on lists, aligned numbers and bit operations that the component theories share.
\<close>

unbundle bit_operations_syntax

type_synonym u8 = "8 word"
type_synonym u16 = "16 word"
type_synonym u32 = "32 word"
type_synonym u64 = "64 word"

text \<open>Memory read and written byte by byte.\<close>

type_synonym byte_mem = "u64 \<Rightarrow> u8"

text \<open>
  A kernel operation either returns (\<open>Inr\<close>) or stops the machine (\<open>Inl\<close>): \<open>Panic\<close> is the
  \<^verbatim>\<open>panic\<close>/\<^verbatim>\<open>kassert\<close> family of \<^verbatim>\<open>include/libk.h\<close>, the others are accesses that the sanitizer
  handlers of \<^verbatim>\<open>libk/ubsan.c\<close> turn into a panic.
\<close>

datatype fault = Panic | Out_of_bounds | Null_access | Shift_out_of_bounds

type_synonym 'a outcome = "fault + 'a"

text \<open>Sequencing of two steps: a step that stops the machine ends the sequence.\<close>

fun obind :: "'a outcome \<Rightarrow> ('a \<Rightarrow> 'b outcome) \<Rightarrow> 'b outcome" where
  "obind (Inl e) f = Inl e"
| "obind (Inr x) f = f x"

lemma obind_Inr: "obind m f = Inr y \<longleftrightarrow> (\<exists>x. m = Inr x \<and> f x = Inr y)"
  by (cases m) auto

lemma obind_Inl: "obind m f = Inl e \<longleftrightarrow> m = Inl e \<or> (\<exists>x. m = Inr x \<and> f x = Inl e)"
  by (cases m) auto

text \<open>Sequencing of steps that may also not end.\<close>

fun rbind :: "'a outcome option \<Rightarrow> ('a \<Rightarrow> 'b outcome option) \<Rightarrow> 'b outcome option" where
  "rbind None f = None"
| "rbind (Some (Inl e)) f = Some (Inl e)"
| "rbind (Some (Inr x)) f = f x"

lemma rbind_Inr: "rbind m f = Some (Inr y) \<longleftrightarrow> (\<exists>x. m = Some (Inr x) \<and> f x = Some (Inr y))"
  by (cases "(m, f)" rule: rbind.cases) auto

lemma rbind_assoc: "rbind (rbind m f) g = rbind m (\<lambda>x. rbind (f x) g)"
  by (cases "(m, f)" rule: rbind.cases) auto

text \<open>A step that cannot stop the machine but may not end.\<close>

definition waits :: "'a option \<Rightarrow> 'a outcome option" where
  "waits m = map_option Inr m"

lemma waits_simps [simp]: "waits None = None" "waits (Some x) = Some (Inr x)"
  by (simp_all add: waits_def)

section \<open>Arithmetic without wrap-around\<close>

named_theorems nowrap

lemma unat_of_nat_u64 [nowrap]: "n < 2 ^ 64 \<Longrightarrow> unat (of_nat n :: u64) = n"
  by (simp add: unat_of_nat)

lemma unat_add_u64 [nowrap]:
  "unat a + unat b < 2 ^ 64 \<Longrightarrow> unat (a + b :: u64) = unat a + unat b"
  by (simp add: unat_word_ariths)

lemma unat_mult_u64 [nowrap]:
  "unat a * unat b < 2 ^ 64 \<Longrightarrow> unat (a * b :: u64) = unat a * unat b"
  by (simp add: unat_word_ariths)

lemma unat_sub_u64 [nowrap]: "b \<le> a \<Longrightarrow> unat (a - b :: u64) = unat a - unat b"
  by (simp add: unat_sub_if' word_le_nat_alt)

lemma unat_u64_lt [simp]: "unat (a :: u64) < 18446744073709551616"
  using unsigned_less [where w = a and ?'a = nat] by simp

section \<open>Division with a small remainder\<close>

lemma add_within:
  assumes "x mod m + y < (m :: nat)"
  shows "(x + y) mod m = x mod m + y" "(x + y) div m = x div m"
proof -
  have y: "y < m" using assms by linarith
  have "(x + y) mod m = (x mod m + y) mod m" by (simp add: mod_add_left_eq)
  then show "(x + y) mod m = x mod m + y" using assms by simp
  show "(x + y) div m = x div m" using assms y by (simp add: div_add1_eq [of x y])
qed

lemma sub_multiple_div: "(x - m * k) div m = x div m - (k :: nat)"
proof (cases "m = 0")
  case False
  show ?thesis
  proof (cases "m * k \<le> x")
    case True
    then obtain y where "x = m * k + y" using le_Suc_ex by blast
    then show ?thesis using False by simp
  next
    case F: False
    then have "x div m < k" by (simp add: less_mult_imp_div_less mult.commute)
    then show ?thesis using F by simp
  qed
qed simp

end
