(* ===== verification/Util.thy ===== *)
theory Util
  imports Prelude
begin

text \<open>
  \<^verbatim>\<open>include/util.h\<close>, \<^verbatim>\<open>include/limits.h\<close> and the address conversions of \<^verbatim>\<open>include/addr.h\<close>: the
  rounding macros at 64 bits, the fixed layout of the kernel address space, and the maps
  between physical addresses, linear-map addresses and entries of \<^verbatim>\<open>page_data\<close>.  A
  \<^verbatim>\<open>struct page *\<close> is the index of its entry (\<open>None\<close> for \<^verbatim>\<open>NULL\<close>).
\<close>

section \<open>Fields in memory\<close>

text \<open>A field of a structure that firmware or the boot loader has stored, least significant byte first.\<close>

definition read_u16 :: "byte_mem \<Rightarrow> u64 \<Rightarrow> u16" where
  "read_u16 m p = ucast (m p) OR push_bit 8 (ucast (m (p + 1)))"

definition read_u32 :: "byte_mem \<Rightarrow> u64 \<Rightarrow> u32" where
  "read_u32 m p = ucast (read_u16 m p) OR push_bit 16 (ucast (read_u16 m (p + 2)))"

definition read_u64 :: "byte_mem \<Rightarrow> u64 \<Rightarrow> u64" where
  "read_u64 m p = ucast (read_u32 m p) OR push_bit 32 (ucast (read_u32 m (p + 4)))"

section \<open>Rounding macros\<close>

definition ALIGNUP :: "u64 \<Rightarrow> u64 \<Rightarrow> u64" where
  "ALIGNUP val align = (val + (align - 1)) AND (- align)"

definition ALIGNDOWN :: "u64 \<Rightarrow> u64 \<Rightarrow> u64" where
  "ALIGNDOWN val align = val AND NOT (align - 1)"

definition DIV_ROUND_UP :: "u64 \<Rightarrow> u64 \<Rightarrow> u64" where
  "DIV_ROUND_UP val d = (val + d - 1) div d"

definition ISALIGN_POW2 :: "u64 \<Rightarrow> u64 \<Rightarrow> bool" where
  "ISALIGN_POW2 val align \<longleftrightarrow> val AND (align - 1) = 0"

section \<open>Limits and the kernel address space\<close>

definition MAX_CORES :: nat where "MAX_CORES = 20"
definition MAX_ORDER :: nat where "MAX_ORDER = 12"
definition PAGE_SIZE :: u64 where "PAGE_SIZE = 0x1000"
definition KERNEL_TEXT_BASE :: u64 where "KERNEL_TEXT_BASE = 0xFFFFFFFF80000000"
definition KERNEL_PHYS_MAP_END :: u64 where "KERNEL_PHYS_MAP_END = 0x1000000"
definition KERNEL_LOGICAL_BASE :: u64 where "KERNEL_LOGICAL_BASE = 0xFFFF800000000000"

section \<open>Address conversions\<close>

definition virt_to_phys :: "u64 \<Rightarrow> u64" where
  "virt_to_phys v = (if v = 0 then 0 else v - KERNEL_LOGICAL_BASE)"

definition phys_to_virt :: "u64 \<Rightarrow> u64" where
  "phys_to_virt p = (if p = 0 then 0 else p + KERNEL_LOGICAL_BASE)"

definition kern_to_phys :: "u64 \<Rightarrow> u64" where
  "kern_to_phys k = (if k = 0 then 0 else k - KERNEL_TEXT_BASE)"

definition phys_to_kern :: "u64 \<Rightarrow> u64" where
  "phys_to_kern p = (if p = 0 then 0 else p + KERNEL_TEXT_BASE)"

definition phys_to_page :: "u64 \<Rightarrow> nat option" where
  "phys_to_page p = (if p = 0 then None else Some (unat (p div PAGE_SIZE)))"

definition page_to_phys :: "nat option \<Rightarrow> u64" where
  "page_to_phys pg = (case pg of None \<Rightarrow> 0 | Some i \<Rightarrow> of_nat i * PAGE_SIZE)"

definition virt_to_page :: "u64 \<Rightarrow> nat option" where
  "virt_to_page v = phys_to_page (virt_to_phys v)"

definition page_to_virt :: "nat option \<Rightarrow> u64" where
  "page_to_virt pg = phys_to_virt (page_to_phys pg)"

section \<open>What the macros compute\<close>

lemma unat_and_minus_exp: "unat ((w::u64) AND - (2 ^ n)) = unat w div 2 ^ n * 2 ^ n"
proof -
  have "w AND - (2 ^ n) = push_bit n (drop_bit n w)"
    by (rule bit_eqI) (auto simp: minus_exp_eq_not_mask bit_simps)
  moreover have "unat w div 2 ^ n * 2 ^ n < 2 ^ 64"
    by (rule order.strict_trans1 [OF div_times_less_eq_dividend])
      (use unsigned_less [where w = w and ?'a = nat] in simp)
  moreover have "take_bit 64 (unat w) = unat w"
    using unsigned_less [where w = w and ?'a = nat] by (intro take_bit_nat_eq_self) simp
  then have "unat (push_bit n (drop_bit n w)) = take_bit 64 (push_bit n (drop_bit n (unat w)))"
    by (simp only: unsigned_push_bit_eq unsigned_drop_bit_eq) simp
  ultimately show ?thesis
    by (simp only: push_bit_eq_mult drop_bit_eq_div take_bit_eq_mod mod_less)
qed

lemma unat_exp:
  assumes "n < 64"
  shows "unat ((2::u64) ^ n) = 2 ^ n"
proof -
  have "unat (of_nat (2 ^ n) :: u64) = 2 ^ n mod 2 ^ 64"
    by (simp only: unat_of_nat) simp
  moreover have "(2::nat) ^ n < 2 ^ 64"
    using assms by (intro power_strict_increasing) auto
  ultimately show ?thesis by (simp only: mod_less of_nat_power of_nat_numeral)
qed

lemma unat_ALIGNUP:
  assumes "unat v + 2 ^ n - 1 < 2 ^ 64" and "n < 64"
  shows "unat (ALIGNUP v (2 ^ n)) = (unat v + 2 ^ n - 1) div 2 ^ n * 2 ^ n"
proof -
  have "unat (v + (2 ^ n - 1)) = unat v + 2 ^ n - 1"
    using assms by (simp add: unat_word_ariths unat_sub_if_size unat_exp)
  then show ?thesis
    by (simp add: ALIGNUP_def unat_and_minus_exp)
qed

section \<open>The linear map\<close>

lemma virt_to_phys_to_virt:
  assumes "unat p < 2 ^ 47"
  shows "virt_to_phys (phys_to_virt p) = p"
proof (cases "p = 0")
  case True
  then show ?thesis by (simp add: virt_to_phys_def phys_to_virt_def)
next
  case False
  have "p + KERNEL_LOGICAL_BASE \<noteq> 0"
  proof
    assume "p + KERNEL_LOGICAL_BASE = 0"
    then have "p = - KERNEL_LOGICAL_BASE" by (simp add: eq_neg_iff_add_eq_0)
    then have "unat p = 2 ^ 47" by (simp add: KERNEL_LOGICAL_BASE_def)
    with assms show False by simp
  qed
  with False show ?thesis by (simp add: virt_to_phys_def phys_to_virt_def)
qed

lemma phys_to_page_eq:
  assumes "unat p < 2 ^ 47" "p \<noteq> 0"
  shows "virt_to_page (phys_to_virt p) = Some (unat p div 4096)"
  using assms
  by (simp add: virt_to_page_def virt_to_phys_to_virt phys_to_page_def PAGE_SIZE_def unat_div_distrib)

end
