(* ===== verification/Mmap.thy ===== *)
theory Mmap
  imports Util
begin

text \<open>
  The boot-time memory map of \<^verbatim>\<open>kernel/mm/mmap.c\<close>: two sorted arrays of regions, from which
  pages are handed out before the page allocator exists.  A \<^verbatim>\<open>struct mmap_type\<close> is the list of
  its first \<^verbatim>\<open>count\<close> regions.
\<close>

section \<open>Regions\<close>

datatype mmap_region_flags = MMAP_NONE | MMAP_NOMAP

record mmap_region =
  rg_base :: u64
  rg_len :: u64
  rg_flags :: mmap_region_flags

record mmap =
  highest_mapped :: u64
  available :: "mmap_region list"
  reserved :: "mmap_region list"

definition MMAP_MAX_REGIONS :: nat where "MMAP_MAX_REGIONS = 128"
definition MMAP_ALLOC_PA :: u32 where "MMAP_ALLOC_PA = 1"

definition WITHIN :: "u64 \<Rightarrow> u64 \<Rightarrow> u64 \<Rightarrow> bool" where
  "WITHIN x y len \<longleftrightarrow> x \<le> y \<and> x + len > y"

section \<open>Editing a region array\<close>

definition mmap_delete_region :: "mmap_region list \<Rightarrow> nat \<Rightarrow> mmap_region list outcome" where
  "mmap_delete_region rs i =
     (if i < length rs then Inr (take i rs @ drop (Suc i) rs) else Inl Panic)"

text \<open>The \<^verbatim>\<open>kassert_dbg\<close> at the end of the loop body fails.\<close>

definition overlap_assert :: "u64 \<Rightarrow> u64 \<Rightarrow> mmap_region \<Rightarrow> bool" where
  "overlap_assert addr len rg \<longleftrightarrow>
     WITHIN addr (rg_base rg) len \<or> WITHIN (rg_base rg) addr (rg_len rg)"

text \<open>
  The loop of \<^verbatim>\<open>mmap_insert_region\<close> at index \<open>i\<close>.  The branch for a region that starts where the
  new one ends updates the region and, having no \<^verbatim>\<open>return\<close>, goes on with the next index.
\<close>

function mmap_insert_loop ::
  "u64 \<Rightarrow> u64 \<Rightarrow> mmap_region_flags \<Rightarrow> nat \<Rightarrow> mmap_region list \<Rightarrow> mmap_region list outcome"
where
  "mmap_insert_loop addr len flags i rs =
     (if i < length rs then
        (if addr + len = rg_base (rs ! i) then
           (if overlap_assert addr len (rs ! i) then Inl Panic
            else mmap_insert_loop addr len flags (Suc i)
                   (rs[i := (rs ! i)\<lparr>rg_base := addr, rg_len := rg_len (rs ! i) + len\<rparr>]))
         else if addr + len < rg_base (rs ! i) then
           (if length rs = MMAP_MAX_REGIONS then Inl Panic
            else Inr (take i rs @ \<lparr>rg_base = addr, rg_len = len, rg_flags = flags\<rparr> # drop i rs))
         else if rg_base (rs ! i) + rg_len (rs ! i) = addr then
           (let rs1 = rs[i := (rs ! i)\<lparr>rg_len := rg_len (rs ! i) + len\<rparr>] in
            if i < length rs1 - 1 \<and> addr + len = rg_base (rs1 ! Suc i) then
              (let rs2 = rs1[i := (rs1 ! i)\<lparr>rg_len := rg_len (rs1 ! i) + rg_len (rs1 ! Suc i)\<rparr>]
               in mmap_delete_region rs2 (Suc i))
            else Inr rs1)
         else if overlap_assert addr len (rs ! i) then Inl Panic
         else mmap_insert_loop addr len flags (Suc i) rs)
      else if length rs = MMAP_MAX_REGIONS then Inl Panic
      else Inr (rs @ [\<lparr>rg_base = addr, rg_len = len, rg_flags = flags\<rparr>]))"
  by pat_completeness auto
termination
  by (relation "measure (\<lambda>(addr, len, flags, i, rs). length rs - i)") auto

declare mmap_insert_loop.simps [simp del]

definition mmap_insert_region ::
  "mmap_region list \<Rightarrow> u64 \<Rightarrow> u64 \<Rightarrow> mmap_region_flags \<Rightarrow> mmap_region list outcome"
where
  "mmap_insert_region rs addr len flags =
     (if \<not> length rs \<le> MMAP_MAX_REGIONS then Inl Panic
      else if len = 0 then Inr rs
      else mmap_insert_loop addr len flags 0 rs)"

section \<open>Early allocation\<close>

text \<open>
  \<^verbatim>\<open>mmap_alloc_low\<close> keeps a pointer to slot \<open>i\<close> of the available array across its edits and reads
  the flags through it afterwards: the region that has moved into the slot, or the old content
  when the slot is past the end of the shortened array.
\<close>

definition slot_flags :: "mmap_region list \<Rightarrow> nat \<Rightarrow> mmap_region \<Rightarrow> mmap_region_flags" where
  "slot_flags rs i old = (if i < length rs then rg_flags (rs ! i) else rg_flags old)"

definition mmap_take ::
  "mmap \<Rightarrow> nat \<Rightarrow> u64 \<Rightarrow> u64 \<Rightarrow> u64 \<Rightarrow> bool \<Rightarrow> (mmap_region \<times> mmap) outcome"
where
  "mmap_take m i n effective_base available_bytes pa =
     (let rg = available m ! i;
          remaining = available_bytes - n;
          new_base = effective_base + n;
          old_rg = \<lparr>rg_base = effective_base, rg_len = n, rg_flags = rg_flags rg\<rparr>
      in obind (mmap_delete_region (available m) i) (\<lambda>av1.
         obind (if pa
                then mmap_insert_region av1 (rg_base rg) (effective_base - rg_base rg)
                       (slot_flags av1 i rg)
                else Inr av1) (\<lambda>av2.
         obind (mmap_insert_region (reserved m) effective_base n (rg_flags rg)) (\<lambda>rv.
         obind (if remaining > 0
                then mmap_insert_region av2 new_base remaining (slot_flags av2 i rg)
                else Inr av2) (\<lambda>av3.
         if effective_base > 0 \<and> n > 0
         then Inr (old_rg, m\<lparr>available := av3, reserved := rv\<rparr>)
         else Inl Panic)))))"

function mmap_alloc_loop :: "mmap \<Rightarrow> u64 \<Rightarrow> u32 \<Rightarrow> nat \<Rightarrow> (mmap_region \<times> mmap) outcome" where
  "mmap_alloc_loop m n alloc_flags i =
     (if i < length (available m) then
        (let rg = available m ! i;
             pa = (alloc_flags AND MMAP_ALLOC_PA \<noteq> 0);
             effective_base = (if pa then ALIGNUP (rg_base rg) PAGE_SIZE else rg_base rg);
             effective_len = (if pa then rg_len rg - (effective_base - rg_base rg) else rg_len rg);
             available_bytes = min (highest_mapped m - effective_base) effective_len
         in if rg_base rg \<ge> highest_mapped m then Inl Panic
            else if n \<le> available_bytes then mmap_take m i n effective_base available_bytes pa
            else mmap_alloc_loop m n alloc_flags (Suc i))
      else Inl Panic)"
  by pat_completeness auto
termination
  by (relation "measure (\<lambda>(m, n, alloc_flags, i). length (available m) - i)") auto

declare mmap_alloc_loop.simps [simp del]

definition mmap_alloc_low :: "mmap \<Rightarrow> u64 \<Rightarrow> u32 \<Rightarrow> (mmap_region \<times> mmap) outcome" where
  "mmap_alloc_low m n alloc_flags = mmap_alloc_loop m n alloc_flags 0"

section \<open>Reading the boot loader's map\<close>

text \<open>
  The Multiboot information is read in memory at the address the boot loader has passed: tags that follow each
  other at multiples of 8, the memory-map tag with its entries behind its first 16 bytes, and \<^verbatim>\<open>entry_size\<close> bytes
  from one entry to the next.  The structures are not packed, and the sanitizer stops an access to one at an address
  that is not a multiple of 8.  Neither walk is bounded by the size of the information, so both are partial functions.
  The physical end of the kernel image (the linker symbol \<^verbatim>\<open>_kernel_end_phys\<close>) is a parameter.
\<close>

record multiboot_mmap_entry =
  me_addr :: u64
  me_len :: u64
  me_type :: u32

definition MULTIBOOT_TAG_TYPE_END :: u32 where "MULTIBOOT_TAG_TYPE_END = 0"
definition MULTIBOOT_TAG_TYPE_MMAP :: u32 where "MULTIBOOT_TAG_TYPE_MMAP = 6"
definition MULTIBOOT_MEMORY_AVAILABLE :: u32 where "MULTIBOOT_MEMORY_AVAILABLE = 1"

definition tag_type :: "byte_mem \<Rightarrow> u64 \<Rightarrow> u32" where "tag_type mem p = read_u32 mem p"
definition tag_size :: "byte_mem \<Rightarrow> u64 \<Rightarrow> u32" where "tag_size mem p = read_u32 mem (p + 4)"
definition tag_entry_size :: "byte_mem \<Rightarrow> u64 \<Rightarrow> u32" where "tag_entry_size mem p = read_u32 mem (p + 8)"

definition entry_at :: "byte_mem \<Rightarrow> u64 \<Rightarrow> multiboot_mmap_entry" where
  "entry_at mem a = \<lparr>me_addr = read_u64 mem a, me_len = read_u64 mem (a + 8), me_type = read_u32 mem (a + 16)\<rparr>"

partial_function (option) find_mmap_tag :: "byte_mem \<Rightarrow> u64 \<Rightarrow> u64 outcome option" where
  "find_mmap_tag mem p =
     (if p AND 7 \<noteq> 0 then Some (Inl Panic)
      else if tag_type mem p \<noteq> MULTIBOOT_TAG_TYPE_END \<and> tag_type mem p \<noteq> MULTIBOOT_TAG_TYPE_MMAP
      then find_mmap_tag mem (ALIGNUP (p + ucast (tag_size mem p)) 8)
      else Some (Inr p))"

text \<open>The body of the loop over the entries.\<close>

definition mmap_add_entry :: "u64 \<Rightarrow> mmap \<Rightarrow> multiboot_mmap_entry \<Rightarrow> mmap outcome" where
  "mmap_add_entry kern_end m e =
     (if me_type e = MULTIBOOT_MEMORY_AVAILABLE then
        (if me_addr e + me_len e < kern_end then
           obind (mmap_insert_region (reserved m) (me_addr e) (me_len e) MMAP_NONE)
             (\<lambda>rv. Inr (m\<lparr>reserved := rv\<rparr>))
         else if me_addr e < kern_end then
           obind (mmap_insert_region (reserved m) (me_addr e) (kern_end - me_addr e) MMAP_NONE)
             (\<lambda>rv. obind (mmap_insert_region (available m) kern_end
                            (me_len e - (kern_end - me_addr e)) MMAP_NONE)
               (\<lambda>av. Inr (m\<lparr>reserved := rv, available := av\<rparr>)))
         else
           obind (mmap_insert_region (available m) (me_addr e) (me_len e) MMAP_NONE)
             (\<lambda>av. Inr (m\<lparr>available := av\<rparr>)))
      else
        obind (mmap_insert_region (reserved m) (me_addr e) (me_len e) MMAP_NONE)
          (\<lambda>rv. Inr (m\<lparr>reserved := rv\<rparr>)))"

partial_function (option) mmap_add_entries ::
  "byte_mem \<Rightarrow> u64 \<Rightarrow> u32 \<Rightarrow> u64 \<Rightarrow> u64 \<Rightarrow> mmap \<Rightarrow> mmap outcome option"
where
  "mmap_add_entries mem kern_end entry_size stop a m =
     (if a < stop then
        (if a AND 7 \<noteq> 0 then Some (Inl Panic)
         else case mmap_add_entry kern_end m (entry_at mem a) of
           Inl e \<Rightarrow> Some (Inl e)
         | Inr m' \<Rightarrow> mmap_add_entries mem kern_end entry_size stop (a + ucast entry_size) m')
      else Some (Inr m))"

definition mmap_init :: "u64 \<Rightarrow> byte_mem \<Rightarrow> u64 \<Rightarrow> mmap outcome option" where
  "mmap_init kern_end mem mboot =
     rbind (find_mmap_tag mem (mboot + 8)) (\<lambda>p.
     if tag_type mem p \<noteq> MULTIBOOT_TAG_TYPE_MMAP then Some (Inl Panic)
     else rbind (mmap_add_entries mem kern_end (tag_entry_size mem p) (p + ucast (tag_size mem p)) (p + 16)
              \<lparr>highest_mapped = 0, available = [], reserved = []\<rparr>)
       (\<lambda>m. Some (Inr (m\<lparr>highest_mapped := KERNEL_PHYS_MAP_END\<rparr>))))"

end
