(* ===== verification/Linked.thy ===== *)
theory Linked
  imports Prelude
begin

text \<open>
  The intrusive lists of \<^verbatim>\<open>include/ds/linked.h\<close> and the hash buckets of \<^verbatim>\<open>include/ds/hash.h\<close>.
  A heap gives every object of type \<open>'p\<close> its embedded \<^verbatim>\<open>struct dlist_node\<close>; a pointer to an
  object is \<open>Some\<close> of it and \<^verbatim>\<open>NULL\<close> is \<open>None\<close> (the \<^verbatim>\<open>container_of\<close> macros map \<^verbatim>\<open>NULL\<close> to
  \<^verbatim>\<open>NULL\<close>).  \<open>dseg h p xs\<close> says that following \<^verbatim>\<open>next\<close> from \<open>p\<close> visits exactly \<open>xs\<close> and that
  every element but the first points back to its predecessor; the \<^verbatim>\<open>prev\<close> of the first one is
  left open because the page allocator pops list heads without clearing it.
\<close>

section \<open>Operations\<close>

record 'p dlist_node =
  dnext :: "'p option"
  dprev :: "'p option"

type_synonym 'p dheap = "'p \<Rightarrow> 'p dlist_node"

definition dlist_get_next :: "'p dheap \<Rightarrow> 'p \<Rightarrow> 'p option" where
  "dlist_get_next h p = dnext (h p)"

definition dlist_get_prev :: "'p dheap \<Rightarrow> 'p \<Rightarrow> 'p option" where
  "dlist_get_prev h p = dprev (h p)"

definition dlist_set_next :: "'p dheap \<Rightarrow> 'p \<Rightarrow> 'p option \<Rightarrow> 'p dheap" where
  "dlist_set_next h p nx =
     (let h1 = h(p := (h p)\<lparr>dnext := nx\<rparr>)
      in case nx of None \<Rightarrow> h1 | Some n \<Rightarrow> h1(n := (h1 n)\<lparr>dprev := Some p\<rparr>))"

definition dlist_set_prev :: "'p dheap \<Rightarrow> 'p \<Rightarrow> 'p option \<Rightarrow> 'p dheap" where
  "dlist_set_prev h p pr =
     (let h1 = h(p := (h p)\<lparr>dprev := pr\<rparr>)
      in case pr of None \<Rightarrow> h1 | Some n \<Rightarrow> h1(n := (h1 n)\<lparr>dnext := Some p\<rparr>))"

text \<open>\<^verbatim>\<open>struct hlist_bucket\<close> is its \<^verbatim>\<open>head\<close> pointer; both operations return bucket and heap.\<close>

definition hlist_add :: "'p option \<Rightarrow> 'p dheap \<Rightarrow> 'p \<Rightarrow> 'p option \<times> 'p dheap" where
  "hlist_add bucket h node =
     (let h1 = h(node := (h node)\<lparr>dprev := None\<rparr>);
          h2 = h1(node := (h1 node)\<lparr>dnext := bucket\<rparr>);
          h3 = (case bucket of None \<Rightarrow> h2 | Some f \<Rightarrow> h2(f := (h2 f)\<lparr>dprev := Some node\<rparr>))
      in (Some node, h3))"

definition hlist_remove :: "'p option \<Rightarrow> 'p dheap \<Rightarrow> 'p \<Rightarrow> 'p option \<times> 'p dheap" where
  "hlist_remove bucket h node =
     (let (bucket1, h1) =
        (case dprev (h node) of
           None \<Rightarrow> (dnext (h node), h)
         | Some pr \<Rightarrow> (bucket, h(pr := (h pr)\<lparr>dnext := dnext (h node)\<rparr>)));
          h2 = (case dnext (h1 node) of
                  None \<Rightarrow> h1
                | Some nx \<Rightarrow> h1(nx := (h1 nx)\<lparr>dprev := dprev (h1 node)\<rparr>))
      in (bucket1, h2))"

lemmas dlist_defs = dlist_get_next_def dlist_get_prev_def dlist_set_next_def dlist_set_prev_def

section \<open>List segments\<close>

fun dseg :: "'p dheap \<Rightarrow> 'p option \<Rightarrow> 'p list \<Rightarrow> bool" where
  "dseg h p [] \<longleftrightarrow> p = None"
| "dseg h p [x] \<longleftrightarrow> p = Some x \<and> dnext (h x) = None"
| "dseg h p (x # y # zs) \<longleftrightarrow> p = Some x \<and> dprev (h y) = Some x \<and> dseg h (dnext (h x)) (y # zs)"

lemma dseg_head: "dseg h p (x # xs) \<Longrightarrow> p = Some x"
  by (cases xs) auto

lemma dseg_Some: "dseg h (Some x) xs \<Longrightarrow> \<exists>ys. xs = x # ys"
  by (cases "(h, Some x, xs)" rule: dseg.cases) auto

lemma dseg_None [simp]: "dseg h None xs \<longleftrightarrow> xs = []"
  by (cases "(h, None :: 'a option, xs)" rule: dseg.cases) auto

lemma dseg_tail: "dseg h p (x # xs) \<Longrightarrow> dseg h (dnext (h x)) xs"
  by (cases xs) auto

lemma dseg_unique: "dseg h p xs \<Longrightarrow> dseg h p ys \<Longrightarrow> xs = ys"
proof (induction xs arbitrary: p ys)
  case Nil
  then show ?case by simp
next
  case (Cons x xs)
  from Cons.prems(1) have p: "p = Some x" by (rule dseg_head)
  with Cons.prems(2) have "dseg h (Some x) ys" by simp
  then obtain zs where ys: "ys = x # zs" by (auto dest: dseg_Some)
  from Cons.prems have "dseg h (dnext (h x)) xs" and "dseg h (dnext (h x)) zs"
    unfolding ys by (auto dest: dseg_tail)
  then have "xs = zs" by (rule Cons.IH)
  then show ?case unfolding ys by simp
qed

lemma dseg_suffix: "dseg h p (as @ x # bs) \<Longrightarrow> dseg h (Some x) (x # bs)"
proof (induction as arbitrary: p)
  case Nil
  then show ?case using dseg_head by fastforce
next
  case (Cons a as)
  then show ?case by (auto dest: dseg_tail)
qed

lemma dseg_distinct: "dseg h p xs \<Longrightarrow> distinct xs"
proof (induction xs arbitrary: p)
  case Nil
  then show ?case by simp
next
  case (Cons x xs)
  have "x \<notin> set xs"
  proof
    assume "x \<in> set xs"
    then obtain as bs where xs: "xs = as @ x # bs" by (auto simp: in_set_conv_decomp)
    from Cons.prems have 1: "dseg h (Some x) (x # xs)" using dseg_head by fastforce
    from Cons.prems have "dseg h p ((x # as) @ x # bs)" unfolding xs by simp
    then have 2: "dseg h (Some x) (x # bs)" by (rule dseg_suffix)
    from dseg_unique [OF 1 2] xs show False by simp
  qed
  with Cons show ?case by (auto dest: dseg_tail)
qed

lemma dseg_cong:
  assumes "\<And>x. x \<in> set xs \<Longrightarrow> dnext (h' x) = dnext (h x)"
    and "\<And>x. x \<in> set (tl xs) \<Longrightarrow> dprev (h' x) = dprev (h x)"
  shows "dseg h' p xs = dseg h p xs"
  using assms by (induction h p xs rule: dseg.induct) auto

lemma dseg_links:
  assumes "dseg h p (as @ b # cs)"
  shows "as \<noteq> [] \<Longrightarrow> dprev (h b) = Some (last as)"
    and "dnext (h b) = (case cs of [] \<Rightarrow> None | c # _ \<Rightarrow> Some c)"
proof -
  show "dprev (h b) = Some (last as)" if "as \<noteq> []"
    using assms that
  proof (induction as arbitrary: p)
    case Nil
    then show ?case by simp
  next
    case (Cons a as)
    then show ?case by (cases as) (auto dest: dseg_tail)
  qed
  from dseg_suffix [OF assms] show "dnext (h b) = (case cs of [] \<Rightarrow> None | c # _ \<Rightarrow> Some c)"
    by (cases cs) (auto dest: dseg_head)
qed

subsection \<open>Pushing, popping and unlinking\<close>

lemma dseg_push:
  assumes "dseg h p xs" and "x \<notin> set xs"
  shows "dseg (dlist_set_next h x p) (Some x) (x # xs)"
proof (cases xs)
  case Nil
  with assms show ?thesis by (simp add: dlist_set_next_def Let_def)
next
  case (Cons y ys)
  then have p: "p = Some y" using assms(1) dseg_head by fast
  have "distinct xs" using assms(1) by (rule dseg_distinct)
  then have "dseg (dlist_set_next h x p) p xs = dseg h p xs"
    using assms(2) Cons p by (intro dseg_cong) (auto simp: dlist_set_next_def Let_def)
  with assms p Cons show ?thesis by (auto simp: dlist_set_next_def Let_def)
qed

lemma dseg_frame:
  assumes "\<And>x. x \<in> set xs \<Longrightarrow> h' x = h x"
  shows "dseg h' p xs = dseg h p xs"
  using assms by (intro dseg_cong) (cases xs; auto)+

definition dlist_unlink :: "'p dheap \<Rightarrow> 'p \<Rightarrow> 'p dheap" where
  "dlist_unlink h b =
     (let pr = dlist_get_prev h b;
          nx = dlist_get_next h b;
          h1 = (case pr of None \<Rightarrow> h | Some q \<Rightarrow> dlist_set_next h q nx)
      in case nx of None \<Rightarrow> h1 | Some n \<Rightarrow> dlist_set_prev h1 n pr)"

lemma dlist_unlink_other:
  assumes "dseg h p (as @ b # cs)" and "as \<noteq> []" and "x \<noteq> last as" and "cs = [] \<or> x \<noteq> hd cs"
  shows "dlist_unlink h b x = h x"
  using assms dseg_links [OF assms(1)]
  by (cases cs) (auto simp: dlist_unlink_def dlist_defs Let_def)

lemma dseg_unlink_pair: "dseg h p (a # b # cs) \<Longrightarrow> dseg (dlist_unlink h b) p (a # cs)"
proof -
  assume A: "dseg h p (a # b # cs)"
  have dist: "distinct (a # b # cs)" using A by (rule dseg_distinct)
  from A have L: "dseg h p ([a] @ b # cs)" by simp
  note lk = dseg_links [OF L, simplified]
  show ?thesis
  proof (cases cs)
    case Nil
    with A dist lk show ?thesis by (auto simp: dlist_unlink_def dlist_defs Let_def)
  next
    case (Cons c ds)
    have "dseg h (Some c) (c # ds)" using dseg_suffix [of h p "[a, b]" c ds] A Cons by simp
    then have "dseg (dlist_unlink h b) (Some c) (c # ds)"
      using dist Cons lk
      by (subst dseg_cong [where h = h]) (auto simp: dlist_unlink_def dlist_defs Let_def)
    with A dist lk Cons show ?thesis
      by (auto simp: dlist_unlink_def dlist_defs Let_def)
  qed
qed

lemma dseg_unlink:
  assumes "dseg h p (as @ b # cs)" and "as \<noteq> []"
  shows "dseg (dlist_unlink h b) p (as @ cs)"
  using assms
proof (induction as arbitrary: p)
  case Nil
  then show ?case by simp
next
  case (Cons a as)
  show ?case
  proof (cases as)
    case Nil
    with Cons.prems show ?thesis by (simp add: dseg_unlink_pair)
  next
    case (Cons a' as')
    have dist: "distinct ((a # as) @ b # cs)" using Cons.prems(1) by (rule dseg_distinct)
    have same: "dlist_unlink h b a = h a"
      using Cons.prems(1) dist Cons by (intro dlist_unlink_other [OF Cons.prems(1)]) (cases cs; auto)+
    have tl: "dseg (dlist_unlink h b) (dnext (h a)) (as @ cs)"
      using Cons.prems Cons by (intro Cons.IH) (auto dest: dseg_tail)
    have "dprev (dlist_unlink h b a') = dprev (h a')"
    proof (cases "as' = []")
      case True
      then show ?thesis using dseg_links [OF Cons.prems(1)] dist Cons
        by (cases cs) (auto simp: dlist_unlink_def dlist_defs Let_def)
    next
      case False
      then have "dlist_unlink h b a' = h a'"
        using dist Cons by (intro dlist_unlink_other [OF Cons.prems(1)]) (cases cs; auto)+
      then show ?thesis by simp
    qed
    with Cons.prems(1) same tl Cons show ?thesis by auto
  qed
qed

end
