(* ===== verification/Pmm.thy ===== *)
theory Pmm
  imports Mmap Linked
begin

text \<open>
  The physical page allocator of \<^verbatim>\<open>kernel/mm/pmm.c\<close>: a buddy allocator over zones.  The array
  \<^verbatim>\<open>page_data\<close> of \<^verbatim>\<open>struct page\<close> is split into its fields, each a function of the page frame
  number, and a \<^verbatim>\<open>struct zone\<close> is a record with its twelve list heads.  The linked list of zones
  is a HOL list in list order.  Every \<^verbatim>\<open>kassert\<close> and \<^verbatim>\<open>kassert_dbg\<close> is a branch that panics; the
  accesses that the array-bounds and shift checks of the debug build stop are branches too.
  Orders and page counts are naturals: their values stay far below the width of the C types.
\<close>

section \<open>State\<close>

record page_array =
  page_list :: "nat dheap"
  page_order :: "nat \<Rightarrow> u8"
  page_refcount :: "nat \<Rightarrow> u32"

record zone =
  pa_start :: u64
  zone_len :: u64
  free_lists :: "nat option list"

record pmm =
  page_data :: page_array
  zone_list :: "zone list"

definition sizeof_zone :: u64 where "sizeof_zone = 120"
definition GFP_CAN_FAIL :: u32 where "GFP_CAN_FAIL = 1"

section \<open>Building a zone\<close>

definition calc_available_pages :: "mmap_region \<Rightarrow> u64 outcome" where
  "calc_available_pages rg =
     (let effective_start = ALIGNUP (rg_base rg + sizeof_zone) PAGE_SIZE;
          effective_len = rg_len rg - (effective_start - (rg_base rg + sizeof_zone))
      in if effective_len \<le> rg_len rg then Inr (effective_len div PAGE_SIZE) else Inl Panic)"

fun max_order_loop :: "u64 \<Rightarrow> u64 \<Rightarrow> nat \<Rightarrow> nat" where
  "max_order_loop start_pfn end_pfn 0 = 0"
| "max_order_loop start_pfn end_pfn (Suc rv) =
     (if start_pfn + 2 ^ Suc rv > end_pfn then max_order_loop start_pfn end_pfn rv
      else if ISALIGN_POW2 start_pfn (2 ^ Suc rv) then Suc rv
      else max_order_loop start_pfn end_pfn rv)"

definition get_max_order :: "u64 \<Rightarrow> u64 \<Rightarrow> nat outcome" where
  "get_max_order start end_addr =
     (let rv = max_order_loop (start div PAGE_SIZE) (end_addr div PAGE_SIZE) (MAX_ORDER - 1)
      in if rv < MAX_ORDER then Inr rv else Inl Panic)"

text \<open>Putting a page in front of the free list of its order: lines 78--80, and 231--233.\<close>

definition push_block :: "nat \<Rightarrow> nat \<Rightarrow> zone \<Rightarrow> page_array \<Rightarrow> zone \<times> page_array" where
  "push_block page order z pd =
     (z\<lparr>free_lists := (free_lists z)[order := Some page]\<rparr>,
      pd\<lparr>page_order := (page_order pd)(page := of_nat order),
         page_list := dlist_set_next (page_list pd) page (free_lists z ! order)\<rparr>)"

text \<open>
  The loop of \<^verbatim>\<open>init_zone\<close>.  The number of pages inserted is a natural; it never exceeds
  \<open>avail_pages\<close> by more than one block, which is below \<open>2 ^ 52\<close>.
\<close>

function populate_zone ::
  "nat \<Rightarrow> nat \<Rightarrow> zone \<Rightarrow> page_array \<Rightarrow> (nat \<times> zone \<times> page_array) outcome"
where
  "populate_zone avail_pages pages_inserted z pd =
     (if pages_inserted < avail_pages then
        (case get_max_order (pa_start z + of_nat pages_inserted * PAGE_SIZE)
                            (pa_start z + of_nat avail_pages * PAGE_SIZE) of
           Inl e \<Rightarrow> Inl e
         | Inr highest_order \<Rightarrow>
             (case virt_to_page (phys_to_virt (pa_start z + PAGE_SIZE * of_nat pages_inserted)) of
                None \<Rightarrow> Inl Null_access
              | Some inserted \<Rightarrow>
                  (if page_to_phys (Some inserted) + PAGE_SIZE * 2 ^ highest_order
                        \<le> pa_start z + zone_len z
                   then populate_zone avail_pages (pages_inserted + 2 ^ highest_order)
                          (fst (push_block inserted highest_order z pd))
                          (snd (push_block inserted highest_order z pd))
                   else Inl Panic)))
      else Inr (pages_inserted, z, pd))"
  by pat_completeness auto
termination
  by (relation "measure (\<lambda>(avail_pages, pages_inserted, z, pd). avail_pages - pages_inserted)")
    (auto intro!: diff_less_mono2 simp: less_add_same_cancel1)

declare populate_zone.simps [simp del]

definition init_zone :: "mmap_region \<Rightarrow> page_array \<Rightarrow> (zone option \<times> page_array) outcome" where
  "init_zone rg pd =
     obind (calc_available_pages rg) (\<lambda>avail_pages.
       if avail_pages = 0 then Inr (None, pd)
       else
         (let z = \<lparr>pa_start = ALIGNUP (rg_base rg + sizeof_zone) PAGE_SIZE,
                   zone_len = avail_pages * PAGE_SIZE,
                   free_lists = replicate MAX_ORDER None\<rparr>
          in obind (populate_zone (unat avail_pages) 0 z pd) (\<lambda>(pages_inserted, z', pd').
               if pages_inserted = unat avail_pages then Inr (Some z', pd') else Inl Panic)))"

text \<open>The second loop of \<^verbatim>\<open>pmm_init\<close>: zones are appended in the order of the regions.\<close>

fun init_zones :: "mmap_region list \<Rightarrow> pmm \<Rightarrow> pmm outcome" where
  "init_zones [] st = Inr st"
| "init_zones (rg # rgs) st =
     obind (init_zone rg (page_data st)) (\<lambda>(tmp, pd).
       init_zones rgs
         (case tmp of
            None \<Rightarrow> st\<lparr>page_data := pd\<rparr>
          | Some z \<Rightarrow> st\<lparr>page_data := pd, zone_list := zone_list st @ [z]\<rparr>))"

section \<open>Allocation\<close>

definition page_buddy :: "nat \<Rightarrow> nat \<Rightarrow> nat" where
  "page_buddy page order = page XOR 2 ^ order"

function scan_order :: "zone \<Rightarrow> nat \<Rightarrow> nat" where
  "scan_order z free_order =
     (if free_order < MAX_ORDER
      then if free_lists z ! free_order \<noteq> None then free_order else scan_order z (Suc free_order)
      else MAX_ORDER)"
  by pat_completeness auto
termination
  by (relation "measure (\<lambda>(z, free_order). MAX_ORDER - free_order)") auto

declare scan_order.simps [simp del]

definition split_block :: "nat \<Rightarrow> nat \<Rightarrow> zone \<Rightarrow> page_array \<Rightarrow> zone \<times> page_array" where
  "split_block removed free_order z pd =
     (let buddy = page_buddy removed (free_order - 1);
          ord = (page_order pd)(buddy := of_nat (free_order - 1), removed := of_nat (free_order - 1));
          fl1 = (free_lists z)[free_order := dlist_get_next (page_list pd) removed];
          l1 = dlist_set_next (page_list pd) removed (Some buddy);
          l2 = dlist_set_next l1 buddy (fl1 ! (free_order - 1));
          fl2 = fl1[free_order - 1 := Some removed]
      in (z\<lparr>free_lists := fl2\<rparr>, pd\<lparr>page_order := ord, page_list := l2\<rparr>))"

function zone_split :: "nat \<Rightarrow> nat \<Rightarrow> zone \<Rightarrow> page_array \<Rightarrow> (zone \<times> page_array) outcome" where
  "zone_split order free_order z pd =
     (if free_order > order then
        (case free_lists z ! free_order of
           None \<Rightarrow> Inl Null_access
         | Some removed \<Rightarrow>
             zone_split order (free_order - 1)
               (fst (split_block removed free_order z pd))
               (snd (split_block removed free_order z pd)))
      else Inr (z, pd))"
  by pat_completeness auto
termination
  by (relation "measure (\<lambda>(order, free_order, z, pd). free_order)") auto

declare zone_split.simps [simp del]

definition take_block :: "nat \<Rightarrow> zone \<Rightarrow> page_array \<Rightarrow> (nat option \<times> zone \<times> page_array) outcome" where
  "take_block order z pd =
     (case free_lists z ! order of
        None \<Rightarrow> Inl Null_access
      | Some head \<Rightarrow>
          if page_order pd head = of_nat order then
            (let fl = (free_lists z)[order := dlist_get_next (page_list pd) head];
                 l1 = dlist_set_next (page_list pd) head None;
                 l2 = dlist_set_prev l1 head None
             in Inr (Some head, z\<lparr>free_lists := fl\<rparr>, pd\<lparr>page_list := l2\<rparr>))
          else Inl Panic)"

definition zone_alloc_order ::
  "zone \<Rightarrow> page_array \<Rightarrow> nat \<Rightarrow> (nat option \<times> zone \<times> page_array) outcome"
where
  "zone_alloc_order z pd order =
     (if \<not> order < MAX_ORDER then Inl Out_of_bounds
      else if free_lists z ! order = None then
        (let free_order = scan_order z (order + 1) in
         if free_order = MAX_ORDER then Inr (None, z, pd)
         else obind (zone_split order free_order z pd) (\<lambda>(z', pd'). take_block order z' pd'))
      else take_block order z pd)"

fun alloc_from_zones ::
  "zone list \<Rightarrow> page_array \<Rightarrow> nat \<Rightarrow> (nat option \<times> zone list \<times> page_array) outcome"
where
  "alloc_from_zones [] pd order = Inr (None, [], pd)"
| "alloc_from_zones (z # zs) pd order =
     obind (zone_alloc_order z pd order) (\<lambda>(rv, z', pd').
       case rv of
         Some p \<Rightarrow> Inr (Some p, z' # zs, pd')
       | None \<Rightarrow> obind (alloc_from_zones zs pd' order)
                   (\<lambda>(rv', zs', pd''). Inr (rv', z' # zs', pd'')))"

definition pmm_alloc_order :: "pmm \<Rightarrow> nat \<Rightarrow> u32 \<Rightarrow> (nat option \<times> pmm) outcome" where
  "pmm_alloc_order st order alloc_flags =
     (if \<not> order < MAX_ORDER then Inl Panic
      else obind (alloc_from_zones (zone_list st) (page_data st) order) (\<lambda>(rv, zs, pd).
        if rv \<noteq> None then Inr (rv, st\<lparr>page_data := pd, zone_list := zs\<rparr>)
        else if alloc_flags AND GFP_CAN_FAIL = 0 then Inl Panic
        else Inr (None, st\<lparr>page_data := pd, zone_list := zs\<rparr>)))"

section \<open>Freeing\<close>

text \<open>The zone found is its position in the list.\<close>

fun page_to_zone :: "zone list \<Rightarrow> nat \<Rightarrow> nat option" where
  "page_to_zone [] page = None"
| "page_to_zone (z # zs) page =
     (if page_to_phys (Some page) \<ge> pa_start z \<and> page_to_phys (Some page) < pa_start z + zone_len z
      then Some 0 else map_option Suc (page_to_zone zs page))"

definition is_page_free :: "page_array \<Rightarrow> zone \<Rightarrow> nat \<Rightarrow> bool" where
  "is_page_free pd z page =
     (if dlist_get_next (page_list pd) page = None \<and> dlist_get_prev (page_list pd) page = None
      then False
      else \<not> (\<exists>i < MAX_ORDER. free_lists z ! i = Some page))"

text \<open>
  \<^verbatim>\<open>__pmm_free_order\<close>.  The shift \<^verbatim>\<open>1 << order\<close> of an \<^verbatim>\<open>int\<close> is checked, which bounds the recursion;
  the list head array is indexed only when the block is inserted.
\<close>

function free_order_rec :: "nat \<Rightarrow> nat \<Rightarrow> zone \<Rightarrow> page_array \<Rightarrow> (zone \<times> page_array) outcome" where
  "free_order_rec page order z pd =
     (if \<not> order < 31 then Inl Shift_out_of_bounds
      else if is_page_free pd z (page_buddy page order)
              \<and> page_order pd (page_buddy page order) = of_nat order then
        free_order_rec (min (page_buddy page order) page) (order + 1) z
          (pd\<lparr>page_list := dlist_unlink (page_list pd) (page_buddy page order)\<rparr>)
      else if order < MAX_ORDER then Inr (push_block page order z pd)
      else Inl Out_of_bounds)"
  by pat_completeness auto
termination
  by (relation "measure (\<lambda>(page, order, z, pd). 31 - order)") auto

declare free_order_rec.simps [simp del]

definition pmm_free_order :: "pmm \<Rightarrow> nat option \<Rightarrow> nat \<Rightarrow> pmm outcome" where
  "pmm_free_order st page_ptr order =
     (case page_ptr of
        None \<Rightarrow> Inl Panic
      | Some page \<Rightarrow>
          if \<not> order < MAX_ORDER then Inl Panic
          else if dlist_get_next (page_list (page_data st)) page \<noteq> None then Inl Panic
          else if dlist_get_prev (page_list (page_data st)) page \<noteq> None then Inl Panic
          else
            (case page_to_zone (zone_list st) page of
               None \<Rightarrow> Inl Panic
             | Some i \<Rightarrow>
                 obind (free_order_rec page order (zone_list st ! i) (page_data st)) (\<lambda>(z, pd).
                   Inr (st\<lparr>page_data := pd, zone_list := (zone_list st)[i := z]\<rparr>))))"

end
