(* ===== verification/Buddy.thy ===== *)
theory Buddy
  imports Pmm
begin

text \<open>
  The geometry of buddy blocks.  A block is a pair of its first page and its order; a tiling of
  a family of page ranges is a set of aligned, pairwise disjoint blocks that covers exactly the
  ranges.  Splitting a block and merging two buddies keep a tiling, and the buddy of a block of
  a tiling is always the first page of a block that is not larger.
\<close>

section \<open>Aligned blocks\<close>

type_synonym block = "nat \<times> nat"

definition block_pages :: "block \<Rightarrow> nat set" where
  "block_pages b = {fst b ..< fst b + 2 ^ snd b}"

lemma block_pages_head [simp]: "p \<in> block_pages (p, k)"
  by (simp add: block_pages_def)

lemma block_pages_last: "p + 2 ^ k - 1 \<in> block_pages (p, k)"
proof -
  have "(0::nat) < 2 ^ k" by simp
  then have "p \<le> p + 2 ^ k - 1" "p + 2 ^ k - 1 < p + 2 ^ k" by linarith+
  then show ?thesis by (simp only: block_pages_def fst_conv snd_conv atLeastLessThan_iff)
qed

lemma block_pages_zero [simp]: "block_pages (p, 0) = {p}"
  by (auto simp: block_pages_def)

lemma finite_block_pages [simp]: "finite (block_pages b)"
  by (simp add: block_pages_def)

lemma card_block_pages [simp]: "card (block_pages (p, k)) = 2 ^ k"
  by (simp add: block_pages_def)

lemma block_pages_aligned:
  assumes "2 ^ k dvd p"
  shows "x \<in> block_pages (p, k) \<longleftrightarrow> x div 2 ^ k = p div 2 ^ k"
proof -
  from assms obtain a where p: "p = 2 ^ k * a" by blast
  have "x \<in> block_pages (p, k) \<longleftrightarrow> 2 ^ k * a \<le> x \<and> x < 2 ^ k * Suc a"
    by (simp add: block_pages_def p algebra_simps)
  also have "\<dots> \<longleftrightarrow> x div 2 ^ k = a"
  proof
    assume "2 ^ k * a \<le> x \<and> x < 2 ^ k * Suc a"
    then show "x div 2 ^ k = a" by (intro div_nat_eqI) auto
  next
    assume "x div 2 ^ k = a"
    then have x: "x = 2 ^ k * a + x mod 2 ^ k" by auto
    have "x mod 2 ^ k < 2 ^ k" by simp
    then show "2 ^ k * a \<le> x \<and> x < 2 ^ k * Suc a"
      by (subst x, subst (2) x) simp
  qed
  finally show ?thesis by (simp add: p)
qed

lemma div_exp_le:
  fixes x :: nat
  assumes "k \<le> m"
  shows "x div 2 ^ m = x div 2 ^ k div 2 ^ (m - k)"
  using assms by (simp add: div_mult2_eq [symmetric] power_add [symmetric])

lemma block_nested:
  assumes "2 ^ k dvd p" "2 ^ m dvd q" "k \<le> m" "x \<in> block_pages (p, k)" "x \<in> block_pages (q, m)"
  shows "block_pages (p, k) \<subseteq> block_pages (q, m)"
  using assms by (auto simp: block_pages_aligned div_exp_le [OF \<open>k \<le> m\<close>])

lemma block_head_unique:
  assumes "2 ^ k dvd p" "2 ^ m dvd q" "m \<le> k" "p \<in> block_pages (q, m)"
  shows "q = p"
proof -
  have "2 ^ m dvd p" using assms(1,3) by (rule dvd_trans [OF le_imp_power_dvd, rotated])
  moreover from assms have "p div 2 ^ m = q div 2 ^ m" by (simp add: block_pages_aligned)
  ultimately show ?thesis using assms(2) by (metis dvd_div_mult_self)
qed

section \<open>Buddies\<close>

lemma odd_div_ge: "odd ((p::nat) div 2 ^ k) \<Longrightarrow> 2 ^ k \<le> p"
  by (metis div_less dvd_0_right not_le)

lemma page_buddy_invol: "page_buddy (page_buddy p k) k = p"
  by (simp add: page_buddy_def xor.assoc)

lemma page_buddy_eq:
  "page_buddy p k = (if odd (p div 2 ^ k) then p - 2 ^ k else p + 2 ^ k)"
proof -
  have up: "page_buddy q k = q + 2 ^ k" if "even (q div 2 ^ k)" for q
  proof -
    have "page_buddy q k = flip_bit k q"
      by (simp add: page_buddy_def flip_bit_eq_xor push_bit_eq_mult)
    with that show ?thesis by (simp add: flip_bit_eq_if set_bit_eq bit_iff_odd)
  qed
  have "page_buddy p k = p - 2 ^ k" if odd: "odd (p div 2 ^ k)"
  proof -
    from odd have le: "2 ^ k \<le> p" by (rule odd_div_ge)
    with odd have "even ((p - 2 ^ k) div 2 ^ k)" by (simp add: le_div_geq)
    from up [OF this] le have "page_buddy (p - 2 ^ k) k = p" by simp
    then show ?thesis using page_buddy_invol [of "p - 2 ^ k" k] by simp
  qed
  with up show ?thesis by simp
qed

lemma page_buddy_aligned: "2 ^ k dvd p \<Longrightarrow> 2 ^ k dvd page_buddy p k"
  by (auto simp: page_buddy_eq dest: odd_div_ge)

lemma page_buddy_neq: "page_buddy p k \<noteq> p"
proof -
  have "(0::nat) < 2 ^ k" by simp
  then have "2 ^ k \<le> p \<Longrightarrow> p - 2 ^ k \<noteq> p" by linarith
  then show ?thesis using odd_div_ge [of p k] by (auto simp: page_buddy_eq)
qed

lemma page_buddy_div:
  "page_buddy p k div 2 ^ k = (if odd (p div 2 ^ k) then p div 2 ^ k - 1 else p div 2 ^ k + 1)"
proof (cases "odd (p div 2 ^ k)")
  case True
  then have "p div 2 ^ k = Suc ((p - 2 ^ k) div 2 ^ k)"
    by (intro le_div_geq odd_div_ge) auto
  then have "(p - 2 ^ k) div 2 ^ k = p div 2 ^ k - 1" by linarith
  with True show ?thesis by (simp only: page_buddy_eq if_True not_False_eq_True)
next
  case False
  then show ?thesis by (simp add: page_buddy_eq div_add_self2)
qed

lemma page_buddy_same_parent: "page_buddy p k div 2 ^ Suc k = p div 2 ^ Suc k"
proof -
  have "x div 2 ^ Suc k = (x div 2 ^ k) div 2" for x :: nat
    by (simp add: div_mult2_eq [symmetric] mult.commute)
  then show ?thesis
    by (auto simp: page_buddy_div elim!: oddE)
qed

definition parent_page :: "nat \<Rightarrow> nat \<Rightarrow> nat" where
  "parent_page p k = min (page_buddy p k) p"

lemma parent_page_eq:
  assumes "2 ^ k dvd p"
  shows "parent_page p k = p div 2 ^ Suc k * 2 ^ Suc k"
proof -
  from assms obtain a where p: "p = 2 ^ k * a" by blast
  then show ?thesis
    by (cases "odd a") (auto simp: parent_page_def page_buddy_eq elim!: oddE evenE)
qed

lemma parent_page_aligned: "2 ^ k dvd p \<Longrightarrow> 2 ^ Suc k dvd parent_page p k"
  by (simp add: parent_page_eq)

lemma parent_pages:
  assumes "2 ^ k dvd p"
  shows "block_pages (parent_page p k, Suc k) = block_pages (p, k) \<union> block_pages (page_buddy p k, k)"
  using assms by (auto simp: parent_page_def block_pages_def page_buddy_eq dest: odd_div_ge)

lemma buddy_disjoint: "2 ^ k dvd p \<Longrightarrow> block_pages (p, k) \<inter> block_pages (page_buddy p k, k) = {}"
  using odd_div_ge [of p k] by (auto simp: block_pages_def page_buddy_eq)

lemma split_parent:
  assumes "2 ^ Suc k dvd p"
  shows "parent_page p k = p"
proof -
  from assms have "2 ^ k dvd p" by (auto dest: dvd_mult_right)
  with assms show ?thesis by (simp add: parent_page_eq)
qed

section \<open>Tilings\<close>

definition tiling :: "nat set set \<Rightarrow> block set \<Rightarrow> bool" where
  "tiling R T \<longleftrightarrow>
     (\<forall>b \<in> T. 2 ^ snd b dvd fst b \<and> (\<exists>Z \<in> R. block_pages b \<subseteq> Z)) \<and>
     (\<forall>b \<in> T. \<forall>c \<in> T. b \<noteq> c \<longrightarrow> block_pages b \<inter> block_pages c = {}) \<and>
     \<Union> (block_pages ` T) = \<Union> R"

text \<open>No page of one range is followed by a page of another one.\<close>

definition gapped :: "nat set set \<Rightarrow> bool" where
  "gapped R \<longleftrightarrow> (\<forall>Y \<in> R. \<forall>Z \<in> R. \<forall>y \<in> Y. Suc y \<in> Z \<longrightarrow> Y = Z)"

lemma tiling_aligned: "tiling R T \<Longrightarrow> (p, k) \<in> T \<Longrightarrow> 2 ^ k dvd p"
  by (force simp: tiling_def)

lemma tiling_range: "tiling R T \<Longrightarrow> (p, k) \<in> T \<Longrightarrow> \<exists>Z \<in> R. block_pages (p, k) \<subseteq> Z"
  by (force simp: tiling_def)

lemma tiling_disjoint:
  "tiling R T \<Longrightarrow> b \<in> T \<Longrightarrow> c \<in> T \<Longrightarrow> b \<noteq> c \<Longrightarrow> block_pages b \<inter> block_pages c = {}"
  by (auto simp: tiling_def)

lemma tiling_overlap: "tiling R T \<Longrightarrow> b \<in> T \<Longrightarrow> c \<in> T \<Longrightarrow> x \<in> block_pages b \<Longrightarrow> x \<in> block_pages c \<Longrightarrow> b = c"
  using tiling_disjoint by blast

lemma tiling_order_unique: "tiling R T \<Longrightarrow> (p, k) \<in> T \<Longrightarrow> (p, m) \<in> T \<Longrightarrow> k = m"
  using tiling_overlap [of R T "(p, k)" "(p, m)" p] by simp

lemma tiling_cover: "tiling R T \<Longrightarrow> x \<in> \<Union> R \<Longrightarrow> \<exists>b \<in> T. x \<in> block_pages b"
  by (auto simp: tiling_def)

text \<open>Replacing blocks by others with the same pages.\<close>

lemma tiling_exchange:
  assumes T: "tiling R (Old \<union> Rest)" and "Old \<inter> Rest = {}"
    and "\<And>b. b \<in> New \<Longrightarrow> 2 ^ snd b dvd fst b \<and> (\<exists>Z \<in> R. block_pages b \<subseteq> Z)"
    and "\<And>b c. b \<in> New \<Longrightarrow> c \<in> New \<Longrightarrow> b \<noteq> c \<Longrightarrow> block_pages b \<inter> block_pages c = {}"
    and pages: "\<Union> (block_pages ` New) = \<Union> (block_pages ` Old)"
  shows "tiling R (New \<union> Rest)"
proof -
  have cross: "block_pages b \<inter> block_pages c = {}" if "b \<in> New" "c \<in> Rest" for b c
  proof -
    have "block_pages b \<subseteq> \<Union> (block_pages ` Old)" using that(1) pages by blast
    moreover have "block_pages a \<inter> block_pages c = {}" if "a \<in> Old" for a
      using tiling_disjoint [OF T, of a c] that \<open>c \<in> Rest\<close> assms(2) by blast
    ultimately show ?thesis by blast
  qed
  have cover: "\<Union> (block_pages ` (New \<union> Rest)) = \<Union> R"
    using T pages by (simp add: tiling_def)
  have "block_pages b \<inter> block_pages c = {}"
    if "b \<in> New \<union> Rest" "c \<in> New \<union> Rest" "b \<noteq> c" for b c
  proof (cases "b \<in> New"; cases "c \<in> New")
    assume "b \<in> New" "c \<in> New"
    then show ?thesis using assms(4) that(3) by blast
  next
    assume "b \<in> New" "c \<notin> New"
    then show ?thesis using cross that by blast
  next
    assume "b \<notin> New" "c \<in> New"
    then show ?thesis using cross [of c b] that by blast
  next
    assume "b \<notin> New" "c \<notin> New"
    then show ?thesis using tiling_disjoint [OF T] that by blast
  qed
  moreover have "2 ^ snd b dvd fst b \<and> (\<exists>Z \<in> R. block_pages b \<subseteq> Z)" if "b \<in> New \<union> Rest" for b
  proof (cases "b \<in> New")
    case False
    then have "b \<in> Old \<union> Rest" using that by simp
    then show ?thesis using T unfolding tiling_def by blast
  qed (rule assms(3))
  ultimately show ?thesis using cover by (simp add: tiling_def)
qed

lemma tiling_split:
  assumes T: "tiling R (insert (p, Suc k) Rest)" and "(p, Suc k) \<notin> Rest"
  shows "tiling R (insert (p, k) (insert (page_buddy p k, k) Rest))"
proof -
  have al: "2 ^ Suc k dvd p" using T by (rule tiling_aligned) simp
  then have alk: "2 ^ k dvd p" by (auto dest: dvd_mult_right)
  have pages: "block_pages (p, Suc k) = block_pages (p, k) \<union> block_pages (page_buddy p k, k)"
    using parent_pages [OF alk] split_parent [OF al] by simp
  obtain Z where Z: "Z \<in> R" "block_pages (p, Suc k) \<subseteq> Z"
    using tiling_range [OF T, of p "Suc k"] by auto
  have "tiling R ({(p, k), (page_buddy p k, k)} \<union> Rest)"
  proof (rule tiling_exchange [where Old = "{(p, Suc k)}"])
    show "tiling R ({(p, Suc k)} \<union> Rest)" using T by simp
    show "{(p, Suc k)} \<inter> Rest = {}" using assms(2) by simp
    show "\<Union> (block_pages ` {(p, k), (page_buddy p k, k)}) = \<Union> (block_pages ` {(p, Suc k)})"
      using pages by simp
    show "2 ^ snd b dvd fst b \<and> (\<exists>Z \<in> R. block_pages b \<subseteq> Z)"
      if "b \<in> {(p, k), (page_buddy p k, k)}" for b
      using that alk page_buddy_aligned [OF alk] Z pages by auto
    show "block_pages b \<inter> block_pages c = {}"
      if "b \<in> {(p, k), (page_buddy p k, k)}" "c \<in> {(p, k), (page_buddy p k, k)}" "b \<noteq> c" for b c
      using that buddy_disjoint [OF alk] by auto
  qed
  then show ?thesis by simp
qed

lemma tiling_merge:
  assumes T: "tiling R (insert (p, k) (insert (page_buddy p k, k) Rest))"
    and "(p, k) \<notin> Rest" "(page_buddy p k, k) \<notin> Rest" and gap: "gapped R"
  shows "tiling R (insert (parent_page p k, Suc k) Rest)"
proof -
  have alk: "2 ^ k dvd p" using T by (rule tiling_aligned) simp
  obtain Y where Y: "Y \<in> R" "block_pages (p, k) \<subseteq> Y"
    using tiling_range [OF T, of p k] by auto
  obtain Z where Z: "Z \<in> R" "block_pages (page_buddy p k, k) \<subseteq> Z"
    using tiling_range [OF T, of "page_buddy p k" k] by auto
  have "Y = Z"
  proof (cases "odd (p div 2 ^ k)")
    case True
    then have le: "2 ^ k \<le> p" "page_buddy p k = p - 2 ^ k" by (auto simp: page_buddy_eq odd_div_ge)
    have pos: "(0::nat) < 2 ^ k" by simp
    have "p - 1 \<in> block_pages (page_buddy p k, k)"
      using block_pages_last [of "page_buddy p k" k] le by simp
    moreover have "Suc (p - 1) = p" using pos le(1) by linarith
    ultimately have "\<exists>z \<in> Z. Suc z \<in> Y" using Y(2) Z(2) block_pages_head by (metis subsetD)
    then show ?thesis using gap Y(1) Z(1) by (metis gapped_def)
  next
    case False
    then have eq: "page_buddy p k = p + 2 ^ k" by (simp add: page_buddy_eq)
    have nx: "Suc (p + 2 ^ k - 1) = page_buddy p k" using eq by simp
    have "p + 2 ^ k - 1 \<in> Y" using Y(2) block_pages_last by blast
    moreover have "Suc (p + 2 ^ k - 1) \<in> Z" unfolding nx using Z(2) block_pages_head by blast
    ultimately have "\<exists>y \<in> Y. Suc y \<in> Z" by blast
    then show ?thesis using gap Y(1) Z(1) by (metis gapped_def)
  qed
  have "tiling R ({(parent_page p k, Suc k)} \<union> Rest)"
  proof (rule tiling_exchange [where Old = "{(p, k), (page_buddy p k, k)}"])
    show "tiling R ({(p, k), (page_buddy p k, k)} \<union> Rest)" using T by simp
    show "{(p, k), (page_buddy p k, k)} \<inter> Rest = {}" using assms(2,3) by simp
    show "\<Union> (block_pages ` {(parent_page p k, Suc k)}) = \<Union> (block_pages ` {(p, k), (page_buddy p k, k)})"
      using parent_pages [OF alk] by simp
    show "2 ^ snd b dvd fst b \<and> (\<exists>Z \<in> R. block_pages b \<subseteq> Z)"
      if "b \<in> {(parent_page p k, Suc k)}" for b
      using that parent_page_aligned [OF alk] parent_pages [OF alk] Y Z \<open>Y = Z\<close>
      by (auto simp del: power_Suc)
  qed simp
  then show ?thesis by simp
qed

lemma tiling_buddy:
  assumes T: "tiling R T" and b: "(p, k) \<in> T" and x: "page_buddy p k \<in> \<Union> R"
  shows "\<exists>m \<le> k. (page_buddy p k, m) \<in> T"
proof -
  obtain q m where qm: "(q, m) \<in> T" "page_buddy p k \<in> block_pages (q, m)"
    using tiling_cover [OF T x] by auto
  have al: "2 ^ k dvd p" "2 ^ m dvd q" using tiling_aligned [OF T] b qm by auto
  have "m \<le> k"
  proof (rule ccontr)
    assume "\<not> m \<le> k"
    then have le: "Suc k \<le> m" by simp
    have "p div 2 ^ m = page_buddy p k div 2 ^ m"
      by (simp only: div_exp_le [OF le] page_buddy_same_parent)
    then have "p \<in> block_pages (q, m)" using qm(2) al(2) by (simp add: block_pages_aligned)
    then have "(p, k) = (q, m)" using tiling_overlap [OF T b qm(1), of p] by simp
    with le show False by simp
  qed
  moreover have "q = page_buddy p k"
    using block_head_unique [OF page_buddy_aligned [OF al(1)] al(2) \<open>m \<le> k\<close> qm(2)] .
  ultimately show ?thesis using qm by auto
qed

end
