(* ===== verification/Pmm_Lists.thy ===== *)
theory Pmm_Lists
  imports Buddy
begin

text \<open>
  The free lists of the page allocator.  \<open>lists_ok zs pd FL\<close> says that the heads and the links in
  \<^verbatim>\<open>page_data\<close> represent the lists \<open>FL i k\<close> (zone \<open>i\<close>, order \<open>k\<close>), that every listed page carries
  its order and starts a block inside its zone, and that no page is on two lists.  The lemmas
  show what pushing, popping, unlinking and splitting do to the represented lists.
\<close>

section \<open>Zones\<close>

definition zone_pages :: "zone \<Rightarrow> nat set" where
  "zone_pages z =
     {unat (pa_start z) div 4096 ..< (unat (pa_start z) + unat (zone_len z)) div 4096}"

definition wf_zone :: "zone \<Rightarrow> bool" where
  "wf_zone z \<longleftrightarrow>
     length (free_lists z) = MAX_ORDER \<and> 4096 dvd unat (pa_start z) \<and> 4096 dvd unat (zone_len z) \<and>
     unat (pa_start z) + unat (zone_len z) < 2 ^ 64"

definition zones_ok :: "zone list \<Rightarrow> bool" where
  "zones_ok zs \<longleftrightarrow>
     (\<forall>z \<in> set zs. wf_zone z) \<and>
     (\<forall>i < length zs. \<forall>j < length zs. i \<noteq> j \<longrightarrow> zone_pages (zs ! i) \<inter> zone_pages (zs ! j) = {}) \<and>
     gapped (zone_pages ` set zs)"

text \<open>The operations change nothing of a zone but its list heads.\<close>

definition same_zone :: "zone \<Rightarrow> zone \<Rightarrow> bool" where
  "same_zone z z' \<longleftrightarrow>
     pa_start z' = pa_start z \<and> zone_len z' = zone_len z \<and>
     length (free_lists z') = length (free_lists z)"

lemma same_zone_refl [simp]: "same_zone z z"
  by (simp add: same_zone_def)

lemma same_zone_trans: "same_zone a b \<Longrightarrow> same_zone b c \<Longrightarrow> same_zone a c"
  by (simp add: same_zone_def)

lemma same_zone_pages: "same_zone z z' \<Longrightarrow> zone_pages z' = zone_pages z"
  by (simp add: same_zone_def zone_pages_def)

lemma same_zone_wf: "same_zone z z' \<Longrightarrow> wf_zone z' = wf_zone z"
  by (simp add: same_zone_def wf_zone_def)

lemma same_zone_heads [simp]: "same_zone z (z\<lparr>free_lists := (free_lists z)[k := v]\<rparr>)"
  by (simp add: same_zone_def)

lemma same_zone_push [simp]: "same_zone z (fst (push_block x k z pd))"
  by (simp add: push_block_def)

lemma zone_pages_update:
  assumes "same_zone (zs ! i) z" "i < length zs"
  shows "zone_pages (zs[i := z] ! j) = zone_pages (zs ! j)"
  using assms same_zone_pages by (cases "i = j") auto

lemma zone_pages_set_update:
  assumes "same_zone (zs ! i) z" "i < length zs"
  shows "zone_pages ` set (zs[i := z]) = zone_pages ` set zs"
proof -
  have "map zone_pages (zs[i := z]) = map zone_pages zs"
    using assms same_zone_pages by (simp add: map_update list_update_same_conv)
  then show ?thesis by (metis list.set_map)
qed

lemma zones_ok_update:
  assumes "zones_ok zs" "same_zone (zs ! i) z" "i < length zs"
  shows "zones_ok (zs[i := z])"
proof -
  have wf: "\<forall>y \<in> set (zs[i := z]). wf_zone y"
    using assms same_zone_wf [OF assms(2)] set_update_subset_insert [of zs i z]
    by (auto simp: zones_ok_def)
  have gap: "gapped (zone_pages ` set (zs[i := z]))"
    using assms(1) unfolding zone_pages_set_update [OF assms(2,3)] zones_ok_def by blast
  show ?thesis
    unfolding zones_ok_def zone_pages_update [OF assms(2,3)] length_list_update
    using wf gap assms(1) by (auto simp: zones_ok_def)
qed

lemma zones_ok_length: "zones_ok zs \<Longrightarrow> i < length zs \<Longrightarrow> length (free_lists (zs ! i)) = MAX_ORDER"
  by (simp add: zones_ok_def wf_zone_def)

lemma zones_ok_unique:
  "zones_ok zs \<Longrightarrow> i < length zs \<Longrightarrow> j < length zs \<Longrightarrow>
     p \<in> zone_pages (zs ! i) \<Longrightarrow> p \<in> zone_pages (zs ! j) \<Longrightarrow> i = j"
  unfolding zones_ok_def by blast

section \<open>Represented lists\<close>

type_synonym flists = "nat \<Rightarrow> nat \<Rightarrow> nat list"

definition set_list :: "flists \<Rightarrow> nat \<Rightarrow> nat \<Rightarrow> nat list \<Rightarrow> flists" where
  "set_list FL i k xs = FL(i := (FL i)(k := xs))"

lemma set_list_apply [simp]: "set_list FL i k xs j m = (if j = i \<and> m = k then xs else FL j m)"
  by (simp add: set_list_def)

lemma set_list_twice [simp]: "set_list (set_list FL i k xs) i k ys = set_list FL i k ys"
  by (auto simp: set_list_def)

definition lists_ok :: "zone list \<Rightarrow> page_array \<Rightarrow> flists \<Rightarrow> bool" where
  "lists_ok zs pd FL \<longleftrightarrow>
     (\<forall>i < length zs. \<forall>k < MAX_ORDER. dseg (page_list pd) (free_lists (zs ! i) ! k) (FL i k)) \<and>
     (\<forall>i < length zs. \<forall>k < MAX_ORDER. \<forall>p \<in> set (FL i k).
        page_order pd p = of_nat k \<and> block_pages (p, k) \<subseteq> zone_pages (zs ! i)) \<and>
     (\<forall>i < length zs. \<forall>k < MAX_ORDER. \<forall>j < length zs. \<forall>m < MAX_ORDER.
        (i, k) \<noteq> (j, m) \<longrightarrow> set (FL i k) \<inter> set (FL j m) = {})"

definition listed :: "zone list \<Rightarrow> flists \<Rightarrow> nat \<Rightarrow> bool" where
  "listed zs FL x \<longleftrightarrow> (\<exists>i < length zs. \<exists>k < MAX_ORDER. x \<in> set (FL i k))"

definition free_blocks :: "zone list \<Rightarrow> flists \<Rightarrow> block set" where
  "free_blocks zs FL = {(p, k). k < MAX_ORDER \<and> (\<exists>i < length zs. p \<in> set (FL i k))}"

lemma lists_ok_seg:
  "lists_ok zs pd FL \<Longrightarrow> i < length zs \<Longrightarrow> k < MAX_ORDER \<Longrightarrow>
     dseg (page_list pd) (free_lists (zs ! i) ! k) (FL i k)"
  by (simp add: lists_ok_def)

lemma lists_ok_page:
  "lists_ok zs pd FL \<Longrightarrow> i < length zs \<Longrightarrow> k < MAX_ORDER \<Longrightarrow> p \<in> set (FL i k) \<Longrightarrow>
     page_order pd p = of_nat k \<and> block_pages (p, k) \<subseteq> zone_pages (zs ! i)"
  by (simp add: lists_ok_def)

lemma lists_ok_unique:
  "lists_ok zs pd FL \<Longrightarrow> i < length zs \<Longrightarrow> k < MAX_ORDER \<Longrightarrow> j < length zs \<Longrightarrow> m < MAX_ORDER \<Longrightarrow>
     x \<in> set (FL i k) \<Longrightarrow> x \<in> set (FL j m) \<Longrightarrow> i = j \<and> k = m"
  unfolding lists_ok_def by blast

lemma lists_okI:
  assumes "\<And>i k. i < length zs \<Longrightarrow> k < MAX_ORDER \<Longrightarrow> dseg (page_list pd) (free_lists (zs ! i) ! k) (FL i k)"
    and "\<And>i k p. i < length zs \<Longrightarrow> k < MAX_ORDER \<Longrightarrow> p \<in> set (FL i k) \<Longrightarrow>
           page_order pd p = of_nat k \<and> block_pages (p, k) \<subseteq> zone_pages (zs ! i)"
    and "\<And>i k j m x. i < length zs \<Longrightarrow> k < MAX_ORDER \<Longrightarrow> j < length zs \<Longrightarrow> m < MAX_ORDER \<Longrightarrow>
           x \<in> set (FL i k) \<Longrightarrow> x \<in> set (FL j m) \<Longrightarrow> i = j \<and> k = m"
  shows "lists_ok zs pd FL"
  using assms unfolding lists_ok_def by blast

lemma lists_ok_head:
  "lists_ok zs pd FL \<Longrightarrow> i < length zs \<Longrightarrow> k < MAX_ORDER \<Longrightarrow>
     free_lists (zs ! i) ! k = (case FL i k of [] \<Rightarrow> None | x # xs \<Rightarrow> Some x)"
  using lists_ok_seg [of zs pd FL i k] by (auto split: list.split dest: dseg_head)

section \<open>List operations\<close>

lemma lists_push:
  assumes ok: "lists_ok zs pd FL" and i: "i < length zs" and k: "k < MAX_ORDER"
    and len: "length (free_lists (zs ! i)) = MAX_ORDER"
    and new: "\<not> listed zs FL x" and blk: "block_pages (x, k) \<subseteq> zone_pages (zs ! i)"
  shows "lists_ok (zs[i := fst (push_block x k (zs ! i) pd)]) (snd (push_block x k (zs ! i) pd))
           (set_list FL i k (x # FL i k))"
proof (rule lists_okI)
  let ?h = "page_list pd" and ?hd = "free_lists (zs ! i) ! k"
  have notin: "x \<notin> set (FL j m)" if "j < length zs" "m < MAX_ORDER" for j m
    using new that by (auto simp: listed_def)
  have seg: "dseg ?h ?hd (FL i k)" by (rule lists_ok_seg [OF ok i k])
  fix j m
  assume "j < length (zs[i := fst (push_block x k (zs ! i) pd)])" and m: "m < MAX_ORDER"
  then have j: "j < length zs" by simp
  show "dseg (page_list (snd (push_block x k (zs ! i) pd)))
          (free_lists (zs[i := fst (push_block x k (zs ! i) pd)] ! j) ! m)
          (set_list FL i k (x # FL i k) j m)"
  proof (cases "j = i \<and> m = k")
    case True
    then show ?thesis using dseg_push [OF seg notin [OF i k]] i k len by (simp add: push_block_def)
  next
    case False
    have "dlist_set_next ?h x ?hd y = ?h y" if "y \<in> set (FL j m)" for y
    proof -
      have "y \<notin> set (FL i k)" using lists_ok_unique [OF ok j m i k that] False by blast
      moreover have "?hd \<noteq> Some y \<or> y \<in> set (FL i k)" using seg by (cases "FL i k") (auto dest: dseg_head)
      moreover have "x \<noteq> y" using notin [OF j m] that by blast
      ultimately show ?thesis by (auto simp: dlist_set_next_def Let_def split: option.split)
    qed
    then have "dseg (dlist_set_next ?h x ?hd) (free_lists (zs ! j) ! m) (FL j m)"
      by (rule dseg_frame [THEN iffD2, OF _ lists_ok_seg [OF ok j m]])
    then show ?thesis using False i j len k m
      by (cases "j = i") (auto simp: push_block_def)
  qed
  show "page_order (snd (push_block x k (zs ! i) pd)) p = of_nat m \<and>
        block_pages (p, m) \<subseteq> zone_pages (zs[i := fst (push_block x k (zs ! i) pd)] ! j)"
    if "p \<in> set (set_list FL i k (x # FL i k) j m)" for p
    using that notin [OF j m] lists_ok_page [OF ok j m, of p] blk
    unfolding zone_pages_update [OF same_zone_push i]
    by (auto simp: push_block_def split: if_splits)
  show "j = j' \<and> m = m'"
    if "j' < length (zs[i := fst (push_block x k (zs ! i) pd)])" "m' < MAX_ORDER"
      "y \<in> set (set_list FL i k (x # FL i k) j m)"
      "y \<in> set (set_list FL i k (x # FL i k) j' m')" for j' m' y
    using that lists_ok_unique [OF ok j m, of j' m' y] notin [OF j m] notin [of j' m']
    by (auto split: if_splits)
qed

lemma lists_pop:
  assumes ok: "lists_ok zs pd FL" and i: "i < length zs" and k: "k < MAX_ORDER"
    and len: "length (free_lists (zs ! i)) = MAX_ORDER" and hd: "FL i k = x # xs"
  shows "lists_ok (zs[i := (zs ! i)\<lparr>free_lists :=
             (free_lists (zs ! i))[k := dlist_get_next (page_list pd) x]\<rparr>]) pd (set_list FL i k xs)"
    (is "lists_ok (zs[i := ?z]) _ _")
proof (rule lists_okI)
  have sz: "same_zone (zs ! i) ?z" by simp
  fix j m
  assume "j < length (zs[i := ?z])" and m: "m < MAX_ORDER"
  then have j: "j < length zs" by simp
  have sub: "set (set_list FL i k xs j m) \<subseteq> set (FL j m)" for j m using hd by auto
  show "dseg (page_list pd) (free_lists (zs[i := ?z] ! j) ! m) (set_list FL i k xs j m)"
    using dseg_tail [of "page_list pd" "free_lists (zs ! i) ! k" x xs] lists_ok_seg [OF ok i k]
      lists_ok_seg [OF ok j m] i k len hd
    by (cases "j = i"; cases "m = k") (auto simp: dlist_get_next_def)
  show "page_order pd p = of_nat m \<and> block_pages (p, m) \<subseteq> zone_pages (zs[i := ?z] ! j)"
    if "p \<in> set (set_list FL i k xs j m)" for p
    unfolding zone_pages_update [OF sz i] using lists_ok_page [OF ok j m, of p] that sub by blast
  show "j = j' \<and> m = m'"
    if "j' < length (zs[i := ?z])" "m' < MAX_ORDER" "y \<in> set (set_list FL i k xs j m)"
      "y \<in> set (set_list FL i k xs j' m')" for j' m' y
    using that lists_ok_unique [OF ok j m, of j' m' y] sub by auto
qed

text \<open>Pages on no list may change freely.\<close>

lemma lists_frame:
  assumes ok: "lists_ok zs pd FL"
    and "\<And>x. listed zs FL x \<Longrightarrow> page_list pd' x = page_list pd x \<and> page_order pd' x = page_order pd x"
  shows "lists_ok zs pd' FL"
proof (rule lists_okI)
  have L: "listed zs FL x" if "i < length zs" "k < MAX_ORDER" "x \<in> set (FL i k)" for i k x
    using that by (auto simp: listed_def)
  fix i k
  assume i: "i < length zs" and k: "k < MAX_ORDER"
  show "dseg (page_list pd') (free_lists (zs ! i) ! k) (FL i k)"
    using assms(2) L [OF i k] by (intro dseg_frame [THEN iffD2, OF _ lists_ok_seg [OF ok i k]]) blast
  show "page_order pd' p = of_nat k \<and> block_pages (p, k) \<subseteq> zone_pages (zs ! i)"
    if "p \<in> set (FL i k)" for p
    using lists_ok_page [OF ok i k that] assms(2) L [OF i k that] by simp
qed (rule lists_ok_unique [OF ok])

lemma lists_unlink:
  assumes ok: "lists_ok zs pd FL" and i: "i < length zs" and k: "k < MAX_ORDER"
    and mid: "FL i k = as @ b # cs" "as \<noteq> []"
  shows "lists_ok zs (pd\<lparr>page_list := dlist_unlink (page_list pd) b\<rparr>) (set_list FL i k (as @ cs))"
proof (rule lists_okI)
  have seg: "dseg (page_list pd) (free_lists (zs ! i) ! k) (as @ b # cs)"
    using lists_ok_seg [OF ok i k] mid by simp
  fix j m
  assume j: "j < length zs" and m: "m < MAX_ORDER"
  have sub: "set (set_list FL i k (as @ cs) j m) \<subseteq> set (FL j m)" for j m using mid by auto
  show "dseg (page_list (pd\<lparr>page_list := dlist_unlink (page_list pd) b\<rparr>)) (free_lists (zs ! j) ! m)
          (set_list FL i k (as @ cs) j m)"
  proof (cases "j = i \<and> m = k")
    case True
    then show ?thesis using dseg_unlink [OF seg mid(2)] by simp
  next
    case False
    have "dlist_unlink (page_list pd) b y = page_list pd y" if "y \<in> set (FL j m)" for y
    proof (rule dlist_unlink_other [OF seg mid(2)])
      have "y \<notin> set (FL i k)" using lists_ok_unique [OF ok j m i k that] False by blast
      then show "y \<noteq> last as" and "cs = [] \<or> y \<noteq> hd cs" using mid by auto
    qed
    then have "dseg (dlist_unlink (page_list pd) b) (free_lists (zs ! j) ! m) (FL j m)"
      by (rule dseg_frame [THEN iffD2, OF _ lists_ok_seg [OF ok j m]])
    then show ?thesis using False by auto
  qed
  show "page_order (pd\<lparr>page_list := dlist_unlink (page_list pd) b\<rparr>) p = of_nat m \<and>
        block_pages (p, m) \<subseteq> zone_pages (zs ! j)"
    if "p \<in> set (set_list FL i k (as @ cs) j m)" for p
    using lists_ok_page [OF ok j m, of p] that sub by auto
  show "j = j' \<and> m = m'"
    if "j' < length zs" "m' < MAX_ORDER" "y \<in> set (set_list FL i k (as @ cs) j m)"
      "y \<in> set (set_list FL i k (as @ cs) j' m')" for j' m' y
    using that lists_ok_unique [OF ok j m, of j' m' y] sub by blast
qed

end
