(* ===== verification/Pmm_Inv.thy ===== *)
theory Pmm_Inv
  imports Pmm_Lists
begin

text \<open>
  The invariant of the page allocator and its preservation.  \<open>pmm_inv st A\<close> says that the free
  lists are well formed and that the free blocks together with the allocated blocks \<open>A\<close> tile
  exactly the pages of the zones; allocation moves a block from the free lists to \<open>A\<close>, freeing
  moves it back.
\<close>

section \<open>Invariant\<close>

definition unlinked :: "page_array \<Rightarrow> nat \<Rightarrow> bool" where
  "unlinked pd p \<longleftrightarrow> dnext (page_list pd p) = None \<and> dprev (page_list pd p) = None"

definition pmm_parts :: "zone list \<Rightarrow> page_array \<Rightarrow> flists \<Rightarrow> block set \<Rightarrow> bool" where
  "pmm_parts zs pd FL B \<longleftrightarrow>
     zones_ok zs \<and> lists_ok zs pd FL \<and>
     tiling (zone_pages ` set zs) (B \<union> free_blocks zs FL) \<and> B \<inter> free_blocks zs FL = {}"

abbreviation all_pages :: "zone list \<Rightarrow> nat set" where
  "all_pages zs \<equiv> \<Union> (zone_pages ` set zs)"

definition pmm_inv :: "pmm \<Rightarrow> block set \<Rightarrow> bool" where
  "pmm_inv st A \<longleftrightarrow>
     (\<exists>FL. pmm_parts (zone_list st) (page_data st) FL A) \<and>
     (\<forall>b \<in> A. snd b < MAX_ORDER \<and> unlinked (page_data st) (fst b)) \<and>
     (\<forall>p. p \<notin> all_pages (zone_list st) \<longrightarrow> unlinked (page_data st) p)"

text \<open>An operation leaves the entries of held blocks and of pages outside the zones alone.\<close>

definition held_kept :: "zone list \<Rightarrow> block set \<Rightarrow> page_array \<Rightarrow> page_array \<Rightarrow> bool" where
  "held_kept zs B pd pd' \<longleftrightarrow>
     page_refcount pd' = page_refcount pd \<and>
     (\<forall>x. x \<notin> all_pages zs \<or> x \<in> \<Union> (block_pages ` B) \<longrightarrow> page_list pd' x = page_list pd x)"

lemma held_kept_refl [simp]: "held_kept zs B pd pd"
  by (simp add: held_kept_def)

lemma held_kept_trans: "held_kept zs B a b \<Longrightarrow> held_kept zs B b c \<Longrightarrow> held_kept zs B a c"
  by (simp add: held_kept_def)

lemma held_kept_unlinked:
  "held_kept zs B pd pd' \<Longrightarrow> p \<notin> all_pages zs \<or> (\<exists>k. (p, k) \<in> B) \<Longrightarrow> unlinked pd' p = unlinked pd p"
  using block_pages_head unfolding held_kept_def unlinked_def by (metis UN_I)

lemma free_blocks_length [simp]: "free_blocks (zs[i := z]) FL = free_blocks zs FL"
  by (simp add: free_blocks_def)

lemma free_blocks_push:
  "i < length zs \<Longrightarrow> k < MAX_ORDER \<Longrightarrow>
     free_blocks zs (set_list FL i k (x # FL i k)) = insert (x, k) (free_blocks zs FL)"
  by (auto simp: free_blocks_def split: if_splits)

lemma free_blocks_drop:
  assumes "lists_ok zs pd FL" "i < length zs" "k < MAX_ORDER" "FL i k = as @ b # cs"
  shows "free_blocks zs (set_list FL i k (as @ cs)) = free_blocks zs FL - {(b, k)}"
proof -
  have "distinct (as @ b # cs)"
    using dseg_distinct [OF lists_ok_seg [OF assms(1-3)]] assms(4) by simp
  then have nb: "b \<notin> set (as @ cs)" by simp
  have un: "j = i" if "j < length zs" "b \<in> set (FL j k)" for j
    using lists_ok_unique [OF assms(1) that(1) assms(3) assms(2,3) that(2)] assms(4) by simp
  have mem: "q \<in> set (set_list FL i k (as @ cs) j m) \<longleftrightarrow> q \<in> set (FL j m) \<and> (q, m) \<noteq> (b, k)"
    if "j < length zs" for q j m
  proof (cases "j = i \<and> m = k")
    case True
    then show ?thesis using nb assms(4) by auto
  next
    case False
    then show ?thesis using un that by auto
  qed
  show ?thesis unfolding free_blocks_def using mem by blast
qed

lemma listed_free: "listed zs FL x \<longleftrightarrow> (\<exists>k. (x, k) \<in> free_blocks zs FL)"
  by (auto simp: listed_def free_blocks_def)

lemma free_page:
  assumes "pmm_parts zs pd FL B" "b \<in> free_blocks zs FL" "x \<in> block_pages b"
  shows "x \<in> all_pages zs" and "x \<notin> \<Union> (block_pages ` B)"
proof -
  have T: "tiling (zone_pages ` set zs) (B \<union> free_blocks zs FL)" and dis: "B \<inter> free_blocks zs FL = {}"
    using assms(1) by (auto simp: pmm_parts_def)
  have "\<Union> (block_pages ` (B \<union> free_blocks zs FL)) = all_pages zs"
    using T unfolding tiling_def by blast
  then show "x \<in> all_pages zs" using assms(2,3) by blast
  show "x \<notin> \<Union> (block_pages ` B)"
  proof
    assume "x \<in> \<Union> (block_pages ` B)"
    then obtain c where "c \<in> B" "x \<in> block_pages c" by blast
    then have "c = b" using tiling_overlap [OF T, of c b x] assms(2,3) by blast
    then show False using dis \<open>c \<in> B\<close> assms(2) by blast
  qed
qed

lemma free_page_block:
  assumes "pmm_parts zs pd FL B" "i < length zs" "k < MAX_ORDER" "p \<in> set (FL i k)"
  shows "p \<in> all_pages zs" and "p \<notin> \<Union> (block_pages ` B)"
  using free_page [OF assms(1), of "(p, k)" p] assms(2-4) by (auto simp: free_blocks_def)

lemma parts_not_listed:
  assumes "pmm_parts zs pd FL B" "(p, k) \<in> B"
  shows "\<not> listed zs FL p"
  using free_page(2) [OF assms(1)] assms(2) block_pages_head unfolding listed_free by blast

section \<open>Moving blocks between the lists and the held set\<close>

lemma parts_push:
  assumes P: "pmm_parts zs pd FL (insert (x, k) B)" and "(x, k) \<notin> B"
    and i: "i < length zs" and k: "k < MAX_ORDER" and blk: "block_pages (x, k) \<subseteq> zone_pages (zs ! i)"
  shows "pmm_parts (zs[i := fst (push_block x k (zs ! i) pd)]) (snd (push_block x k (zs ! i) pd))
           (set_list FL i k (x # FL i k)) B"
    and "held_kept zs B pd (snd (push_block x k (zs ! i) pd))"
proof -
  have zok: "zones_ok zs" and ok: "lists_ok zs pd FL" using P by (auto simp: pmm_parts_def)
  have len: "length (free_lists (zs ! i)) = MAX_ORDER" by (rule zones_ok_length [OF zok i])
  have new: "\<not> listed zs FL x" using parts_not_listed [OF P, of x k] by simp
  have T: "tiling (zone_pages ` set zs) (insert (x, k) B \<union> free_blocks zs FL)"
    and dis: "insert (x, k) B \<inter> free_blocks zs FL = {}"
    using P by (auto simp: pmm_parts_def)
  have "tiling (zone_pages ` set zs) (B \<union> insert (x, k) (free_blocks zs FL))"
    using T by simp
  moreover have "B \<inter> insert (x, k) (free_blocks zs FL) = {}"
    using dis assms(2) by blast
  ultimately show "pmm_parts (zs[i := fst (push_block x k (zs ! i) pd)]) (snd (push_block x k (zs ! i) pd))
           (set_list FL i k (x # FL i k)) B"
    using lists_push [OF ok i k len new blk] zones_ok_update [OF zok same_zone_push i]
    unfolding pmm_parts_def zone_pages_set_update [OF same_zone_push i] free_blocks_length
      free_blocks_push [OF i k] by blast
  have xin: "x \<in> all_pages zs" using nth_mem [OF i] subsetD [OF blk block_pages_head] by (rule UN_I)
  have xB: "x \<notin> \<Union> (block_pages ` B)"
  proof
    assume "x \<in> \<Union> (block_pages ` B)"
    then obtain c where c: "c \<in> B" "x \<in> block_pages c" by blast
    then have "c = (x, k)" using tiling_overlap [OF T, of c "(x, k)" x] by simp
    then show False using c assms(2) by simp
  qed
  have "page_list (snd (push_block x k (zs ! i) pd)) y = page_list pd y"
    if y: "y \<notin> all_pages zs \<or> y \<in> \<Union> (block_pages ` B)" for y
  proof -
    have "y \<noteq> x" using y xin xB by blast
    moreover have "free_lists (zs ! i) ! k \<noteq> Some y"
    proof
      assume "free_lists (zs ! i) ! k = Some y"
      then have "y \<in> set (FL i k)"
        using lists_ok_head [OF ok i k] by (auto split: list.splits)
      then show False using free_page_block [OF P i k] y by blast
    qed
    ultimately show ?thesis
      by (auto simp: push_block_def dlist_set_next_def Let_def split: option.split)
  qed
  then show "held_kept zs B pd (snd (push_block x k (zs ! i) pd))"
    by (simp add: held_kept_def push_block_def)
qed

lemma parts_pop:
  assumes P: "pmm_parts zs pd FL B" and i: "i < length zs" and k: "k < MAX_ORDER"
    and hd: "FL i k = x # xs"
  shows "pmm_parts (zs[i := (zs ! i)\<lparr>free_lists :=
             (free_lists (zs ! i))[k := dlist_get_next (page_list pd) x]\<rparr>]) pd
           (set_list FL i k xs) (insert (x, k) B)"
    and "(x, k) \<notin> B" and "block_pages (x, k) \<subseteq> zone_pages (zs ! i)"
proof -
  let ?z = "(zs ! i)\<lparr>free_lists := (free_lists (zs ! i))[k := dlist_get_next (page_list pd) x]\<rparr>"
  have zok: "zones_ok zs" and ok: "lists_ok zs pd FL" using P by (auto simp: pmm_parts_def)
  have len: "length (free_lists (zs ! i)) = MAX_ORDER" by (rule zones_ok_length [OF zok i])
  have sz: "same_zone (zs ! i) ?z" by simp
  have xF: "(x, k) \<in> free_blocks zs FL" using i k hd by (auto simp: free_blocks_def)
  have fb: "free_blocks zs (set_list FL i k xs) = free_blocks zs FL - {(x, k)}"
    using free_blocks_drop [OF ok i k, of "[]" x xs] hd by simp
  have T: "tiling (zone_pages ` set zs) (B \<union> free_blocks zs FL)" and dis: "B \<inter> free_blocks zs FL = {}"
    using P by (auto simp: pmm_parts_def)
  have eq: "insert (x, k) B \<union> (free_blocks zs FL - {(x, k)}) = B \<union> free_blocks zs FL"
    using xF by blast
  show "(x, k) \<notin> B" using dis xF by blast
  have "insert (x, k) B \<inter> (free_blocks zs FL - {(x, k)}) = {}" using dis by blast
  then show "pmm_parts (zs[i := ?z]) pd (set_list FL i k xs) (insert (x, k) B)"
    using lists_pop [OF ok i k len hd] zones_ok_update [OF zok sz i] T
    unfolding pmm_parts_def zone_pages_set_update [OF sz i] free_blocks_length fb eq by blast
  show "block_pages (x, k) \<subseteq> zone_pages (zs ! i)"
    using lists_ok_page [OF ok i k, of x] hd by simp
qed

section \<open>Splitting\<close>

text \<open>One round of the splitting loop pops a block and pushes its two halves.\<close>

lemma split_block_eq:
  assumes len: "length (free_lists z) = MAX_ORDER" and k: "Suc k < MAX_ORDER"
    and old: "free_lists z ! k \<noteq> Some r" "free_lists z ! k \<noteq> Some (page_buddy r k)"
    and z1: "z1 = z\<lparr>free_lists := (free_lists z)[Suc k := dlist_get_next (page_list pd) r]\<rparr>"
  shows "split_block r (Suc k) z pd =
           push_block r k (fst (push_block (page_buddy r k) k z1 pd))
                          (snd (push_block (page_buddy r k) k z1 pd))"
proof -
  let ?b = "page_buddy r k" and ?h = "page_list pd" and ?o = "free_lists z ! k"
  have "dlist_set_next (dlist_set_next ?h r (Some ?b)) ?b ?o =
        dlist_set_next (dlist_set_next ?h ?b ?o) r (Some ?b)"
    using old page_buddy_neq [of r k]
    by (auto simp: dlist_set_next_def Let_def fun_eq_iff split: option.split)
  then show ?thesis
    using len k by (simp add: split_block_def push_block_def z1 Let_def)
qed

lemma held_kept_update:
  "same_zone (zs ! i) z \<Longrightarrow> i < length zs \<Longrightarrow> held_kept (zs[i := z]) B pd pd' = held_kept zs B pd pd'"
  by (simp only: held_kept_def zone_pages_set_update)

lemma held_kept_mono: "held_kept zs (insert b B) pd pd' \<Longrightarrow> held_kept zs B pd pd'"
  by (simp add: held_kept_def)

lemma parts_halve:
  assumes P: "pmm_parts zs pd FL (insert (r, Suc k) B)" and r: "(r, Suc k) \<notin> B"
  shows "pmm_parts zs pd FL (insert (page_buddy r k, k) (insert (r, k) B))"
    and "(r, k) \<notin> B" and "(page_buddy r k, k) \<notin> insert (r, k) B"
    and "block_pages (r, Suc k) = block_pages (r, k) \<union> block_pages (page_buddy r k, k)"
proof -
  let ?b = "page_buddy r k" and ?F = "free_blocks zs FL"
  have T: "tiling (zone_pages ` set zs) (insert (r, Suc k) (B \<union> ?F))"
    and rnew: "(r, Suc k) \<notin> B \<union> ?F"
    using P r by (auto simp: pmm_parts_def)
  have al: "2 ^ Suc k dvd r" using tiling_aligned [OF T] by blast
  then have alk: "2 ^ k dvd r" by (auto dest: dvd_mult_right)
  show pages: "block_pages (r, Suc k) = block_pages (r, k) \<union> block_pages (?b, k)"
    using parent_pages [OF alk] split_parent [OF al] by simp
  then have fresh: "(r, k) \<notin> B \<union> ?F" "(?b, k) \<notin> B \<union> ?F"
    using tiling_overlap [OF T, of "(r, Suc k)" "(r, k)" r]
      tiling_overlap [OF T, of "(r, Suc k)" "(?b, k)" ?b] by auto
  then show "(r, k) \<notin> B" and "(?b, k) \<notin> insert (r, k) B"
    using page_buddy_neq [of r k] by auto
  have "tiling (zone_pages ` set zs) (insert (?b, k) (insert (r, k) B) \<union> ?F)"
    using tiling_split [OF T rnew] by (simp add: insert_commute)
  then show "pmm_parts zs pd FL (insert (?b, k) (insert (r, k) B))"
    using P fresh by (auto simp: pmm_parts_def)
qed

lemma parts_split:
  assumes P: "pmm_parts zs pd FL B" and i: "i < length zs" and k: "Suc k < MAX_ORDER"
    and hd: "FL i (Suc k) = r # xs"
  shows "pmm_parts (zs[i := fst (split_block r (Suc k) (zs ! i) pd)])
           (snd (split_block r (Suc k) (zs ! i) pd))
           (set_list (set_list FL i (Suc k) xs) i k (r # page_buddy r k # FL i k)) B" (is ?parts)
    and "held_kept zs B pd (snd (split_block r (Suc k) (zs ! i) pd))" (is ?kept)
    and "same_zone (zs ! i) (fst (split_block r (Suc k) (zs ! i) pd))" (is ?same)
proof -
  let ?b = "page_buddy r k"
  define z1 where "z1 = (zs ! i)\<lparr>free_lists := (free_lists (zs ! i))[Suc k := dlist_get_next (page_list pd) r]\<rparr>"
  define z2 where "z2 = fst (push_block ?b k z1 pd)"
  define pd2 where "pd2 = snd (push_block ?b k z1 pd)"
  have k': "k < MAX_ORDER" using k by simp
  have i1: "i < length (zs[i := z])" "zs[i := z] ! i = z" for z using i by auto
  have s1: "same_zone (zs ! i) z1" and s2: "same_zone z1 z2"
    and s3: "same_zone z2 (fst (push_block r k z2 pd2))"
    by (simp_all add: z1_def z2_def)
  have s12: "same_zone (zs ! i) z2" using s1 s2 by (rule same_zone_trans)
  note pop = parts_pop [OF P i k hd, folded z1_def]
  note halves = parts_halve [OF pop(1,2)]
  have blk: "block_pages (?b, k) \<subseteq> zone_pages z1" "block_pages (r, k) \<subseteq> zone_pages z2"
    using pop(3) halves(4) same_zone_pages [OF s1] same_zone_pages [OF s12] by auto
  note push1 = parts_push [OF halves(1,3) i1(1) k', unfolded i1(2) list_update_overwrite,
      OF blk(1), folded z2_def pd2_def]
  note push2 = parts_push [OF push1(1) halves(2) i1(1) k', unfolded i1(2) list_update_overwrite,
      OF blk(2)]
  have head: "free_lists (zs ! i) ! k \<noteq> Some q" if q: "q \<in> block_pages (r, Suc k)" for q
  proof
    assume "free_lists (zs ! i) ! k = Some q"
    then have "q \<in> set (FL i k)"
      using P lists_ok_head [OF _ i k', of pd FL] by (auto simp: pmm_parts_def split: list.splits)
    then have "(q, k) \<in> free_blocks (zs[i := z1]) (set_list FL i (Suc k) xs)"
      using i k' by (auto simp: free_blocks_def)
    from free_page(2) [OF pop(1) this, of q] q show False by simp
  qed
  have eq: "split_block r (Suc k) (zs ! i) pd = push_block r k z2 pd2"
    using P head halves(4) zones_ok_length [OF _ i] unfolding z2_def pd2_def
    by (intro split_block_eq [OF _ k _ _ z1_def]) (auto simp: pmm_parts_def)
  show ?parts unfolding eq using push2(1) by simp
  show ?same unfolding eq using s12 s3 by (rule same_zone_trans)
  have "held_kept zs B pd pd2"
    using push1(2) unfolding held_kept_update [OF s1 i] by (rule held_kept_mono)
  then show ?kept unfolding eq
    using push2(2) unfolding held_kept_update [OF s12 i] by (rule held_kept_trans)
qed

section \<open>Allocation from one zone\<close>

definition exhausted :: "zone \<Rightarrow> nat \<Rightarrow> bool" where
  "exhausted z k \<longleftrightarrow> (\<forall>m. k \<le> m \<longrightarrow> m < MAX_ORDER \<longrightarrow> free_lists z ! m = None)"

lemma exhausted_Suc: "exhausted z (Suc k) \<Longrightarrow> free_lists z ! k = None \<Longrightarrow> exhausted z k"
  unfolding exhausted_def by (metis le_antisym not_less_eq_eq)

lemma scan_order_spec:
  "fo \<le> MAX_ORDER \<Longrightarrow>
     fo \<le> scan_order z fo \<and> scan_order z fo \<le> MAX_ORDER \<and>
     (scan_order z fo < MAX_ORDER \<longrightarrow> free_lists z ! scan_order z fo \<noteq> None) \<and>
     (scan_order z fo = MAX_ORDER \<longrightarrow> exhausted z fo)"
proof (induction z fo rule: scan_order.induct)
  case (1 z fo)
  show ?case
  proof (cases "fo < MAX_ORDER \<and> free_lists z ! fo = None")
    case True
    then have eq: "scan_order z fo = scan_order z (Suc fo)" by (simp add: scan_order.simps [of z fo])
    have "exhausted z (Suc fo) \<Longrightarrow> exhausted z fo"
      using True exhausted_Suc by blast
    then show ?thesis using 1 True unfolding eq by auto
  next
    case False
    then show ?thesis using 1(2) by (auto simp: scan_order.simps [of z fo] exhausted_def)
  qed
qed

lemma zone_split_ok:
  assumes "pmm_parts zs pd FL B" "i < length zs" "order \<le> fo" "fo < MAX_ORDER" "FL i fo \<noteq> []"
  shows "\<exists>z' pd' FL'. zone_split order fo (zs ! i) pd = Inr (z', pd') \<and> same_zone (zs ! i) z' \<and>
           pmm_parts (zs[i := z']) pd' FL' B \<and> held_kept zs B pd pd' \<and> FL' i order \<noteq> []"
  using assms
proof (induction fo arbitrary: zs pd FL)
  case 0
  then show ?case by (intro exI [of _ "zs ! i"]) (auto simp: zone_split.simps)
next
  case (Suc k)
  show ?case
  proof (cases "order = Suc k")
    case True
    with Suc.prems show ?thesis by (intro exI [of _ "zs ! i"]) (auto simp: zone_split.simps)
  next
    case False
    obtain r xs where hd: "FL i (Suc k) = r # xs" using Suc.prems(5) by (cases "FL i (Suc k)") auto
    let ?s = "split_block r (Suc k) (zs ! i) pd"
    note split = parts_split [OF Suc.prems(1,2,4) hd]
    have i: "i < length (zs[i := fst ?s])" using Suc.prems(2) by simp
    have "\<exists>z' pd' FL'. zone_split order k (zs[i := fst ?s] ! i) (snd ?s) = Inr (z', pd') \<and>
           same_zone (zs[i := fst ?s] ! i) z' \<and> pmm_parts (zs[i := fst ?s, i := z']) pd' FL' B \<and>
           held_kept (zs[i := fst ?s]) B (snd ?s) pd' \<and> FL' i order \<noteq> []"
      using Suc.prems False by (intro Suc.IH [OF split(1) i]) auto
    then obtain z' pd' FL' where IH: "zone_split order k (fst ?s) (snd ?s) = Inr (z', pd')"
      "same_zone (fst ?s) z'" "pmm_parts (zs[i := z']) pd' FL' B"
      "held_kept zs B (snd ?s) pd'" "FL' i order \<noteq> []"
      using Suc.prems(2) held_kept_update [OF split(3) Suc.prems(2)] by auto
    have "free_lists (zs ! i) ! Suc k = Some r"
      using Suc.prems(1,2,4) lists_ok_head [of zs pd FL i "Suc k"] hd by (simp add: pmm_parts_def)
    then have "zone_split order (Suc k) (zs ! i) pd = Inr (z', pd')"
      using IH(1) False Suc.prems(3) by (simp add: zone_split.simps [of order "Suc k"])
    then show ?thesis
      using IH same_zone_trans [OF split(3) IH(2)] held_kept_trans [OF split(2) IH(4)] by blast
  qed
qed

lemma take_block_ok:
  assumes P: "pmm_parts zs pd FL B" and i: "i < length zs" and k: "k < MAX_ORDER"
    and ne: "FL i k \<noteq> []"
  shows "\<exists>x z' pd' FL'. take_block k (zs ! i) pd = Inr (Some x, z', pd') \<and> same_zone (zs ! i) z' \<and>
           pmm_parts (zs[i := z']) pd' FL' (insert (x, k) B) \<and> held_kept zs B pd pd' \<and>
           (x, k) \<notin> B \<and> unlinked pd' x"
proof -
  obtain x xs where hd: "FL i k = x # xs" using ne by (cases "FL i k") auto
  note pop = parts_pop [OF P i k hd]
  have ok: "lists_ok zs pd FL" using P by (simp add: pmm_parts_def)
  define z' where "z' = (zs ! i)\<lparr>free_lists := (free_lists (zs ! i))[k := dlist_get_next (page_list pd) x]\<rparr>"
  define pd' where "pd' = pd\<lparr>page_list := dlist_set_prev (dlist_set_next (page_list pd) x None) x None\<rparr>"
  have "page_order pd x = of_nat k" using lists_ok_page [OF ok i k, of x] hd by simp
  then have tk: "take_block k (zs ! i) pd = Inr (Some x, z', pd')"
    using lists_ok_head [OF ok i k] hd by (simp add: take_block_def Let_def z'_def pd'_def)
  have other: "page_list pd' y = page_list pd y" if "y \<noteq> x" for y
    using that by (simp add: pd'_def dlist_defs Let_def)
  have un: "unlinked pd' x" by (simp add: unlinked_def pd'_def dlist_defs Let_def)
  let ?FL = "set_list FL i k xs"
  have nl: "\<not> listed (zs[i := z']) ?FL x"
    using parts_not_listed [OF pop(1), of x k] unfolding z'_def by simp
  have "lists_ok (zs[i := z']) pd ?FL" using pop(1) unfolding z'_def by (simp add: pmm_parts_def)
  then have "lists_ok (zs[i := z']) pd' ?FL"
  proof (rule lists_frame)
    fix y
    assume "listed (zs[i := z']) ?FL y"
    then have "y \<noteq> x" using nl by metis
    then show "page_list pd' y = page_list pd y \<and> page_order pd' y = page_order pd y"
      by (simp add: other) (simp add: pd'_def)
  qed
  then have parts: "pmm_parts (zs[i := z']) pd' ?FL (insert (x, k) B)"
    using pop(1) unfolding z'_def by (simp add: pmm_parts_def)
  have xh: "x \<in> all_pages zs" "x \<notin> \<Union> (block_pages ` B)"
    using free_page_block [OF P i k, of x] hd by auto
  have "held_kept zs B pd pd'" unfolding held_kept_def
  proof (intro conjI allI impI)
    fix y
    assume "y \<notin> all_pages zs \<or> y \<in> \<Union> (block_pages ` B)"
    then have "y \<noteq> x" using xh by metis
    then show "page_list pd' y = page_list pd y" by (rule other)
  qed (simp add: pd'_def)
  then show ?thesis using tk un parts pop(2) by (auto simp: z'_def)
qed

lemma zone_alloc_order_ok:
  assumes P: "pmm_parts zs pd FL B" and i: "i < length zs" and k: "k < MAX_ORDER"
  shows "(exhausted (zs ! i) k \<and> zone_alloc_order (zs ! i) pd k = Inr (None, zs ! i, pd)) \<or>
         (\<exists>x z' pd' FL'. zone_alloc_order (zs ! i) pd k = Inr (Some x, z', pd') \<and> same_zone (zs ! i) z' \<and>
            pmm_parts (zs[i := z']) pd' FL' (insert (x, k) B) \<and> held_kept zs B pd pd' \<and>
            (x, k) \<notin> B \<and> unlinked pd' x)"
proof (cases "free_lists (zs ! i) ! k = None")
  case False
  then have "FL i k \<noteq> []"
    using P lists_ok_head [OF _ i k, of pd FL] by (auto simp: pmm_parts_def split: list.splits)
  moreover have "zone_alloc_order (zs ! i) pd k = take_block k (zs ! i) pd"
    using False k by (auto simp: zone_alloc_order_def)
  ultimately show ?thesis using take_block_ok [OF P i k] by simp
next
  case True
  let ?fo = "scan_order (zs ! i) (k + 1)"
  have scan: "k < ?fo" "?fo \<le> MAX_ORDER" "?fo < MAX_ORDER \<Longrightarrow> free_lists (zs ! i) ! ?fo \<noteq> None"
    "?fo = MAX_ORDER \<Longrightarrow> exhausted (zs ! i) (k + 1)"
    using scan_order_spec [of "k + 1" "zs ! i"] k by auto
  show ?thesis
  proof (cases "?fo = MAX_ORDER")
    case full: True
    then have "exhausted (zs ! i) k"
      using scan(4) True exhausted_Suc by simp
    then show ?thesis using full True k by (simp add: zone_alloc_order_def)
  next
    case False
    then have fo: "?fo < MAX_ORDER" using scan(2) by simp
    then have "FL i ?fo \<noteq> []"
      using P scan(3) lists_ok_head [OF _ i fo, of pd FL] by (auto simp: pmm_parts_def)
    then obtain z1 pd1 FL1 where s: "zone_split k ?fo (zs ! i) pd = Inr (z1, pd1)" "same_zone (zs ! i) z1"
      "pmm_parts (zs[i := z1]) pd1 FL1 B" "held_kept zs B pd pd1" "FL1 i k \<noteq> []"
      using zone_split_ok [OF P i _ fo, of k] scan(1) by auto
    have i1: "i < length (zs[i := z1])" using i by simp
    from take_block_ok [OF s(3) i1 k s(5)] obtain x z' pd' FL' where
      t: "take_block k z1 pd1 = Inr (Some x, z', pd')" "same_zone z1 z'"
      "pmm_parts (zs[i := z']) pd' FL' (insert (x, k) B)" "held_kept (zs[i := z1]) B pd1 pd'"
      "(x, k) \<notin> B" "unlinked pd' x"
      using i by auto
    have kept: "held_kept zs B pd pd'"
      using s(4) t(4) unfolding held_kept_update [OF s(2) i] by (rule held_kept_trans)
    have "zone_alloc_order (zs ! i) pd k = Inr (Some x, z', pd')"
      using True False k s(1) t(1) by (simp add: zone_alloc_order_def)
    then show ?thesis using t kept same_zone_trans [OF s(2) t(2)] by blast
  qed
qed

section \<open>Allocation over all zones\<close>

lemma alloc_from_zones_cases:
  assumes "\<And>z. z \<in> set zs \<Longrightarrow>
             (Q z \<and> zone_alloc_order z pd k = Inr (None, z, pd)) \<or>
             (\<exists>x z' pd'. zone_alloc_order z pd k = Inr (Some x, z', pd'))"
  shows "((\<forall>z \<in> set zs. Q z) \<and> alloc_from_zones zs pd k = Inr (None, zs, pd)) \<or>
         (\<exists>i x z' pd'. i < length zs \<and> zone_alloc_order (zs ! i) pd k = Inr (Some x, z', pd') \<and>
            alloc_from_zones zs pd k = Inr (Some x, zs[i := z'], pd'))"
  using assms
proof (induction zs)
  case Nil
  then show ?case by simp
next
  case (Cons z zs)
  show ?case
  proof (cases "\<exists>x z' pd'. zone_alloc_order z pd k = Inr (Some x, z', pd')")
    case True
    then show ?thesis by - (rule disjI2, rule exI [of _ 0], auto)
  next
    case False
    then have z: "Q z" "zone_alloc_order z pd k = Inr (None, z, pd)" using Cons.prems [of z] by auto
    from Cons.IH Cons.prems consider
      "\<forall>z \<in> set zs. Q z" "alloc_from_zones zs pd k = Inr (None, zs, pd)"
      | i x z' pd' where "i < length zs" "zone_alloc_order (zs ! i) pd k = Inr (Some x, z', pd')"
        "alloc_from_zones zs pd k = Inr (Some x, zs[i := z'], pd')"
      by (meson list.set_intros(2))
    then show ?thesis
    proof cases
      case 1
      then show ?thesis using z by simp
    next
      case 2
      then show ?thesis using z by - (rule disjI2, rule exI [of _ "Suc i"], auto)
    qed
  qed
qed

lemma pmm_inv_intro:
  assumes parts: "pmm_parts (zs[i := z]) pd' FL' A'" and z: "same_zone (zs ! i) z" and i: "i < length zs"
    and kept: "held_kept zs A pd pd'"
    and old: "\<And>b. b \<in> A \<Longrightarrow> snd b < MAX_ORDER \<and> unlinked pd (fst b)"
      "\<And>p. p \<notin> all_pages zs \<Longrightarrow> unlinked pd p"
    and new: "\<And>b. b \<in> A' \<Longrightarrow> b \<notin> A \<Longrightarrow> snd b < MAX_ORDER \<and> unlinked pd' (fst b)"
    and st: "page_data st = pd'" "zone_list st = zs[i := z]"
  shows "pmm_inv st A'"
  unfolding pmm_inv_def st zone_pages_set_update [OF z i]
proof (intro conjI ballI allI impI)
  show "\<exists>FL. pmm_parts (zs[i := z]) pd' FL A'" using parts by blast
  show "snd b < MAX_ORDER" "unlinked pd' (fst b)" if "b \<in> A'" for b
    using new [OF that] old(1) [of b] held_kept_unlinked [OF kept, of "fst b"] by (cases b; fastforce)+
  show "unlinked pd' p" if "p \<notin> all_pages zs" for p
    using old(2) [OF that] held_kept_unlinked [OF kept, of p] that by blast
qed

section \<open>Freeing into one zone\<close>

text \<open>
  What the test of \<^verbatim>\<open>__pmm_free_order\<close> on the buddy finds: a free block of the same order in the
  same zone, not at the head of its list.
\<close>

lemma free_buddy:
  assumes P: "pmm_parts zs pd FL (insert (p, k) B)" and pB: "(p, k) \<notin> B"
    and i: "i < length zs" and blk: "block_pages (p, k) \<subseteq> zone_pages (zs ! i)" and k: "k \<le> MAX_ORDER"
    and un: "\<And>b. b \<in> B \<Longrightarrow> unlinked pd (fst b)" "\<And>q. q \<notin> all_pages zs \<Longrightarrow> unlinked pd q"
    and free: "is_page_free pd (zs ! i) (page_buddy p k)"
    and ord: "page_order pd (page_buddy p k) = of_nat k"
  shows "k < MAX_ORDER \<and> (\<exists>as cs. FL i k = as @ page_buddy p k # cs \<and> as \<noteq> [])"
proof -
  let ?b = "page_buddy p k" and ?F = "free_blocks zs FL" and ?R = "zone_pages ` set zs"
  have zok: "zones_ok zs" and ok: "lists_ok zs pd FL" and T: "tiling ?R (insert (p, k) B \<union> ?F)"
    using P by (auto simp: pmm_parts_def)
  have linked: "\<not> unlinked pd ?b"
    using free by (auto simp: is_page_free_def unlinked_def dlist_defs split: if_splits)
  then have "?b \<in> \<Union> ?R" using un(2) by blast
  then obtain m where m: "m \<le> k" "(?b, m) \<in> insert (p, k) B \<union> ?F"
    using tiling_buddy [OF T, of p k] by auto
  then have "(?b, m) \<in> ?F" using linked un(1) page_buddy_neq [of p k] by fastforce
  then obtain j where j: "j < length zs" "m < MAX_ORDER" "?b \<in> set (FL j m)"
    by (auto simp: free_blocks_def)
  have pg: "page_order pd ?b = of_nat m" "block_pages (?b, m) \<subseteq> zone_pages (zs ! j)"
    using lists_ok_page [OF ok j] by auto
  have "m = k"
  proof -
    have "(of_nat m :: u8) = of_nat k" using pg(1) ord by simp
    then show ?thesis using m(1) k by (simp add: word_of_nat_eq_iff take_bit_nat_eq_self MAX_ORDER_def)
  qed
  have "insert (p, k) (insert (?b, k) (B \<union> ?F - {(p, k), (?b, k)})) = insert (p, k) B \<union> ?F"
    using m(2) \<open>m = k\<close> by blast
  then have T': "tiling ?R (insert (p, k) (insert (?b, k) (B \<union> ?F - {(p, k), (?b, k)})))"
    using T by simp
  have "gapped ?R" using zok by (simp add: zones_ok_def)
  then have "tiling ?R (insert (parent_page p k, Suc k) (B \<union> ?F - {(p, k), (?b, k)}))"
    by (intro tiling_merge [OF T']) auto
  from tiling_range [OF this, of "parent_page p k" "Suc k"]
  obtain Z where Z: "Z \<in> ?R" "block_pages (parent_page p k, Suc k) \<subseteq> Z"
    by blast
  then obtain l where l: "l < length zs" "Z = zone_pages (zs ! l)" by (auto simp: in_set_conv_nth)
  have al: "2 ^ k dvd p" using tiling_aligned [OF T, of p k] by simp
  have "p \<in> Z" "?b \<in> Z" using Z(2) parent_pages [OF al] by auto
  moreover have "p \<in> zone_pages (zs ! i)" "?b \<in> zone_pages (zs ! j)"
    using blk pg(2) block_pages_head by auto
  ultimately have "l = i" "l = j" using zok l i j(1) by (auto simp: zones_ok_def)
  then have mem: "?b \<in> set (FL i k)" using j(3) \<open>m = k\<close> by simp
  have "free_lists (zs ! i) ! k \<noteq> Some ?b" using free j(2) \<open>m = k\<close> by (auto simp: is_page_free_def split: if_splits)
  then have "FL i k = [] \<or> hd (FL i k) \<noteq> ?b"
    using lists_ok_head [OF ok i, of k] j(2) \<open>m = k\<close> by (auto split: list.splits)
  with mem have "\<exists>as cs. FL i k = as @ ?b # cs \<and> as \<noteq> []"
    by (metis split_list append_Nil list.sel(1) empty_iff list.set(1))
  then show ?thesis using j(2) \<open>m = k\<close> by simp
qed

lemma parts_merge:
  assumes P: "pmm_parts zs pd FL (insert (p, k) B)" and pB: "(p, k) \<notin> B"
    and i: "i < length zs" and k: "k < MAX_ORDER"
    and mid: "FL i k = as @ page_buddy p k # cs" "as \<noteq> []"
  shows "pmm_parts zs (pd\<lparr>page_list := dlist_unlink (page_list pd) (page_buddy p k)\<rparr>)
           (set_list FL i k (as @ cs)) (insert (parent_page p k, Suc k) B)" (is "pmm_parts zs ?pd ?FL _")
    and "(parent_page p k, Suc k) \<notin> B"
    and "held_kept zs B pd (pd\<lparr>page_list := dlist_unlink (page_list pd) (page_buddy p k)\<rparr>)"
proof -
  let ?b = "page_buddy p k" and ?F = "free_blocks zs FL" and ?R = "zone_pages ` set zs"
  have zok: "zones_ok zs" and ok: "lists_ok zs pd FL" and T: "tiling ?R (insert (p, k) B \<union> ?F)"
    and dis: "insert (p, k) B \<inter> ?F = {}"
    using P by (auto simp: pmm_parts_def)
  have bF: "(?b, k) \<in> ?F" using i k mid by (auto simp: free_blocks_def)
  have fb: "free_blocks zs ?FL = ?F - {(?b, k)}" by (rule free_blocks_drop [OF ok i k mid(1)])
  let ?Rest = "B \<union> (?F - {(?b, k)})"
  have "insert (p, k) (insert (?b, k) ?Rest) = insert (p, k) B \<union> ?F" using bF by blast
  then have T1: "tiling ?R (insert (p, k) (insert (?b, k) ?Rest))" using T by simp
  have nin: "(p, k) \<notin> ?Rest" "(?b, k) \<notin> ?Rest" using pB dis bF by auto
  have T2: "tiling ?R (insert (parent_page p k, Suc k) ?Rest)"
    using tiling_merge [OF T1 nin] zok by (simp add: zones_ok_def)
  have al: "2 ^ k dvd p" using tiling_aligned [OF T, of p k] by simp
  have pnew: "(parent_page p k, Suc k) \<notin> insert (p, k) B \<union> ?F"
  proof
    assume "(parent_page p k, Suc k) \<in> insert (p, k) B \<union> ?F"
    then have "(parent_page p k, Suc k) = (p, k)"
      using tiling_overlap [OF T, of "(parent_page p k, Suc k)" "(p, k)" p] parent_pages [OF al] by simp
    then show False by simp
  qed
  then show "(parent_page p k, Suc k) \<notin> B" by blast
  have "insert (parent_page p k, Suc k) B \<inter> (?F - {(?b, k)}) = {}" using pnew dis by blast
  then show "pmm_parts zs ?pd ?FL (insert (parent_page p k, Suc k) B)"
    unfolding pmm_parts_def fb using zok lists_unlink [OF ok i k mid] T2 by simp
  have seg: "dseg (page_list pd) (free_lists (zs ! i) ! k) (as @ ?b # cs)"
    using lists_ok_seg [OF ok i k] mid by simp
  have "dlist_unlink (page_list pd) ?b y = page_list pd y"
    if "y \<notin> all_pages zs \<or> y \<in> \<Union> (block_pages ` B)" for y
  proof (rule dlist_unlink_other [OF seg mid(2)])
    have "y \<notin> set (FL i k)" using free_page_block [OF P i k, of y] that by auto
    then show "y \<noteq> last as" and "cs = [] \<or> y \<noteq> hd cs" using mid by auto
  qed
  then show "held_kept zs B pd ?pd" by (simp add: held_kept_def)
qed

text \<open>The superblock of order \<^const>\<open>MAX_ORDER\<close> around a block is free apart from that block.\<close>

definition superblock_free :: "zone \<Rightarrow> block \<Rightarrow> block set \<Rightarrow> bool" where
  "superblock_free z b B \<longleftrightarrow>
     (\<exists>q. 2 ^ MAX_ORDER dvd q \<and> block_pages b \<subseteq> block_pages (q, MAX_ORDER) \<and>
          block_pages (q, MAX_ORDER) \<subseteq> zone_pages z \<and>
          (\<forall>c \<in> B. block_pages c \<inter> block_pages (q, MAX_ORDER) = {}))"

lemma superblock_mono:
  "superblock_free z c B \<Longrightarrow> block_pages b \<subseteq> block_pages c \<Longrightarrow> superblock_free z b B"
  unfolding superblock_free_def by (meson order_trans)

text \<open>
  Freeing on the lists of one zone.  A block is merged with its buddy as long as the buddy is
  in the list of its order behind the head; it ends at the head of a list, or is larger than
  any list holds.
\<close>

function merge_free :: "nat \<Rightarrow> nat \<Rightarrow> (nat \<Rightarrow> nat list) \<Rightarrow> (nat \<Rightarrow> nat list) option" where
  "merge_free p k L =
     (if \<not> k < MAX_ORDER then None
      else if page_buddy p k \<in> set (tl (L k))
      then merge_free (parent_page p k) (Suc k) (L(k := remove1 (page_buddy p k) (L k)))
      else Some (L(k := p # L k)))"
  by pat_completeness auto
termination by (relation "measure (\<lambda>(p, k, L). MAX_ORDER - k)") auto

declare merge_free.simps [simp del]

text \<open>Conversely to \<open>free_buddy\<close>, the test recognises every buddy behind the head of its list.\<close>

lemma buddy_recognised:
  assumes ok: "lists_ok zs pd FL" and i: "i < length zs" and k: "k < MAX_ORDER" and b: "b \<in> set (tl (FL i k))"
  shows "is_page_free pd (zs ! i) b \<and> page_order pd b = of_nat k"
proof -
  obtain x xs where xs: "FL i k = x # xs" using b by (cases "FL i k") auto
  then obtain as cs where "xs = as @ b # cs" using b by (auto dest: split_list)
  then have FL: "FL i k = (x # as) @ b # cs" using xs by simp
  note seg = lists_ok_seg [OF ok i k, unfolded FL]
  have linked: "dprev (page_list pd b) \<noteq> None" using dseg_links(1) [OF seg] by simp
  have "b \<noteq> x" using dseg_distinct [OF seg] by auto
  have "free_lists (zs ! i) ! m \<noteq> Some b" if m: "m < MAX_ORDER" for m
  proof
    assume h: "free_lists (zs ! i) ! m = Some b"
    then have "b \<in> set (FL i m)" using lists_ok_head [OF ok i m] by (auto split: list.splits)
    moreover have "b \<in> set (FL i k)" using FL by simp
    ultimately have "m = k" using lists_ok_unique [OF ok i m i k] by blast
    then show False using h lists_ok_head [OF ok i k] FL \<open>b \<noteq> x\<close> by simp
  qed
  then show ?thesis
    using linked lists_ok_page [OF ok i k, of b] FL by (auto simp: is_page_free_def dlist_defs)
qed

lemma free_order_rec_ok:
  assumes "pmm_parts zs pd FL (insert (p, k) B)" "(p, k) \<notin> B"
    and "i < length zs" "block_pages (p, k) \<subseteq> zone_pages (zs ! i)" "k \<le> MAX_ORDER"
    and "\<And>b. b \<in> B \<Longrightarrow> unlinked pd (fst b)" "\<And>q. q \<notin> all_pages zs \<Longrightarrow> unlinked pd q"
  shows "(\<exists>z' pd' L. free_order_rec p k (zs ! i) pd = Inr (z', pd') \<and> same_zone (zs ! i) z' \<and>
            merge_free p k (FL i) = Some L \<and> pmm_parts (zs[i := z']) pd' (FL(i := L)) B \<and> held_kept zs B pd pd') \<or>
         (free_order_rec p k (zs ! i) pd = Inl Out_of_bounds \<and> merge_free p k (FL i) = None \<and>
            superblock_free (zs ! i) (p, k) B)"
  using assms
proof (induction "MAX_ORDER - k" arbitrary: p k pd FL rule: less_induct)
  case less
  let ?b = "page_buddy p k" and ?z = "zs ! i"
  note P = less.prems(1)
  have lt: "k < 31" using less.prems(5) by (simp add: MAX_ORDER_def)
  have al: "2 ^ k dvd p" and T: "tiling (zone_pages ` set zs) (insert (p, k) B \<union> free_blocks zs FL)"
    using P tiling_aligned [of _ "insert (p, k) B \<union> free_blocks zs FL" p k] by (auto simp: pmm_parts_def)
  show ?case
  proof (cases "is_page_free pd ?z ?b \<and> page_order pd ?b = of_nat k")
    case True
    then obtain as cs where k: "k < MAX_ORDER" and mid: "FL i k = as @ ?b # cs" "as \<noteq> []"
      using free_buddy [OF P less.prems(2-7)] by blast
    let ?pd = "pd\<lparr>page_list := dlist_unlink (page_list pd) ?b\<rparr>" and ?q = "parent_page p k"
    note M = parts_merge [OF P less.prems(2,3) k mid]
    have rec: "free_order_rec p k ?z pd = free_order_rec ?q (Suc k) ?z ?pd"
      using True lt by (simp add: free_order_rec.simps [of p k] parent_page_def)
    have mem: "(?b, k) \<in> free_blocks zs FL" using mid less.prems(3) k by (auto simp: free_blocks_def)
    have bz: "block_pages (?b, k) \<subseteq> zone_pages ?z"
      using P lists_ok_page [OF _ less.prems(3) k, of pd FL ?b] mid by (simp add: pmm_parts_def)
    have qz: "block_pages (?q, Suc k) \<subseteq> zone_pages ?z"
      using less.prems(4) bz parent_pages [OF al] by simp
    have un: "unlinked ?pd (fst b)" if "b \<in> B" for b
      using held_kept_unlinked [OF M(3), of "fst b"] less.prems(6) [OF that] that by (cases b) auto
    have un': "unlinked ?pd q" if "q \<notin> all_pages zs" for q
      using held_kept_unlinked [OF M(3), of q] less.prems(7) [OF that] that by blast
    have dec: "MAX_ORDER - Suc k < MAX_ORDER - k" using k by simp
    have kle: "Suc k \<le> MAX_ORDER" using k by simp
    have sub: "block_pages (p, k) \<subseteq> block_pages (?q, Suc k)" using parent_pages [OF al] by simp
    have "distinct (FL i k)" using P lists_ok_seg [of zs pd FL i k] less.prems(3) k dseg_distinct by (auto simp: pmm_parts_def)
    then have "?b \<in> set (tl (FL i k))" "remove1 ?b (FL i k) = as @ cs" using mid by (auto simp: remove1_append)
    then have mrg: "merge_free p k (FL i) = merge_free ?q (Suc k) (set_list FL i k (as @ cs) i)"
      using k by (simp add: merge_free.simps [of p k] set_list_def)
    have upd: "(set_list FL i k (as @ cs))(i := L) = FL(i := L)" for L by (simp add: set_list_def)
    from less.hyps [OF dec M(1,2) less.prems(3) qz kle un un']
    show ?thesis unfolding rec mrg upd using held_kept_trans [OF M(3)] superblock_mono [OF _ sub] by blast
  next
    case False
    show ?thesis
    proof (cases "k < MAX_ORDER")
      case k: True
      have "free_order_rec p k ?z pd = Inr (push_block p k ?z pd)"
        using False k lt by (auto simp: free_order_rec.simps [of p k])
      then have "free_order_rec p k ?z pd = Inr (fst (push_block p k ?z pd), snd (push_block p k ?z pd))"
        by simp
      moreover have "merge_free p k (FL i) = Some ((FL i)(k := p # FL i k))"
        using False k P buddy_recognised [of zs pd FL i k ?b] less.prems(3)
        by (auto simp: merge_free.simps [of p k] pmm_parts_def)
      moreover have "set_list FL i k (p # FL i k) = FL(i := (FL i)(k := p # FL i k))" by (simp add: set_list_def)
      ultimately show ?thesis
        using parts_push [OF P less.prems(2,3) k less.prems(4)] same_zone_push by metis
    next
      case k: False
      then have kM: "k = MAX_ORDER" using less.prems(5) by simp
      have "free_order_rec p k ?z pd = Inl Out_of_bounds"
        using False k lt by (auto simp: free_order_rec.simps [of p k])
      moreover have "block_pages c \<inter> block_pages (p, k) = {}" if "c \<in> B" for c
        using tiling_disjoint [OF T, of c "(p, k)"] that less.prems(2) by blast
      then have "superblock_free ?z (p, k) B"
        using al less.prems(4) unfolding superblock_free_def kM by blast
      ultimately show ?thesis using k by (simp add: merge_free.simps [of p k])
    qed
  qed
qed

lemma free_rec_overflow:
  assumes P: "pmm_parts zs pd FL (insert (p, k) B)" and pB: "(p, k) \<notin> B" and k: "Suc k = MAX_ORDER"
    and i: "i < length zs" "block_pages (p, k) \<subseteq> zone_pages (zs ! i)"
    and un: "\<And>b. b \<in> B \<Longrightarrow> unlinked pd (fst b)" "\<And>q. q \<notin> all_pages zs \<Longrightarrow> unlinked pd q"
    and bud: "is_page_free pd (zs ! i) (page_buddy p k)" "page_order pd (page_buddy p k) = of_nat k"
  shows "free_order_rec p k (zs ! i) pd = Inl Out_of_bounds"
proof -
  let ?b = "page_buddy p k" and ?q = "parent_page p k"
  let ?pd = "pd\<lparr>page_list := dlist_unlink (page_list pd) (page_buddy p k)\<rparr>"
  have kM: "k < MAX_ORDER" using k by simp
  have "k < MAX_ORDER \<and> (\<exists>as cs. FL i k = as @ ?b # cs \<and> as \<noteq> [])"
    using kM by (intro free_buddy [OF P pB i _ _ _ bud]) (auto intro: un)
  then obtain as cs where mid: "FL i k = as @ ?b # cs" "as \<noteq> []" by blast
  note M = parts_merge [OF P pB i(1) kM mid, unfolded k]
  have un1: "unlinked ?pd (fst b)" if "b \<in> B" for b
    using un(1) [OF that] held_kept_unlinked [OF M(3), of "fst b"] that by (cases b) auto
  have un2: "unlinked ?pd q" if "q \<notin> all_pages zs" for q
    using un(2) [OF that] held_kept_unlinked [OF M(3), of q] that by blast
  have al: "2 ^ k dvd p"
    using P tiling_aligned [of "zone_pages ` set zs" "insert (p, k) B \<union> free_blocks zs FL" p k]
    by (simp add: pmm_parts_def)
  have "block_pages (?b, k) \<subseteq> zone_pages (zs ! i)"
    using P mid lists_ok_page [of zs pd FL i k ?b] i(1) kM by (simp add: pmm_parts_def)
  then have qz: "block_pages (?q, MAX_ORDER) \<subseteq> zone_pages (zs ! i)"
    using i(2) parent_pages [OF al] unfolding k by simp
  have "\<not> (is_page_free ?pd (zs ! i) (page_buddy ?q MAX_ORDER) \<and>
           page_order ?pd (page_buddy ?q MAX_ORDER) = of_nat MAX_ORDER)"
    using free_buddy [OF M(1,2) i(1) qz order_refl un1 un2] by auto
  then have "free_order_rec ?q MAX_ORDER (zs ! i) ?pd = Inl Out_of_bounds"
    by (subst free_order_rec.simps) (auto simp: MAX_ORDER_def)
  moreover have "k < 31" using k by (simp add: MAX_ORDER_def)
  then have "free_order_rec p k (zs ! i) pd = free_order_rec ?q (Suc k) (zs ! i) ?pd"
    using bud by (subst free_order_rec.simps) (simp add: parent_page_def)
  ultimately show ?thesis using k by simp
qed

section \<open>Finding the zone of a page\<close>

lemma unat_page_to_phys:
  assumes "p * 4096 < 2 ^ 64"
  shows "unat (page_to_phys (Some p)) = p * 4096"
proof -
  have "unat (of_nat (p * 4096) :: u64) = p * 4096"
    using assms by (rule unat_of_nat_u64)
  then show ?thesis by (simp add: page_to_phys_def PAGE_SIZE_def)
qed

lemma zone_pages_phys:
  assumes "wf_zone z"
  shows "p \<in> zone_pages z \<longleftrightarrow> unat (pa_start z) \<le> p * 4096 \<and> p * 4096 < unat (pa_start z) + unat (zone_len z)"
proof -
  obtain a where a: "unat (pa_start z) = 4096 * a" using assms by (auto simp: wf_zone_def)
  obtain l where l: "unat (zone_len z) = 4096 * l" using assms by (auto simp: wf_zone_def)
  have "(4096 * a + 4096 * l) div 4096 = a + l" by (metis add_mult_distrib2 nonzero_mult_div_cancel_left zero_neq_numeral)
  then show ?thesis by (auto simp: zone_pages_def a l)
qed

lemma page_in_zone:
  assumes wf: "wf_zone z" and p: "p * 4096 < 2 ^ 64"
  shows "page_to_phys (Some p) \<ge> pa_start z \<and> page_to_phys (Some p) < pa_start z + zone_len z \<longleftrightarrow>
           p \<in> zone_pages z"
proof -
  have "unat (pa_start z + zone_len z) = unat (pa_start z) + unat (zone_len z)"
    using wf by (simp add: wf_zone_def unat_add_u64)
  then show ?thesis
    using unat_page_to_phys [OF p] by (simp add: zone_pages_phys [OF wf] word_le_nat_alt word_less_nat_alt)
qed

lemma page_to_zone_ok:
  assumes "zones_ok zs" "i < length zs" "p \<in> zone_pages (zs ! i)"
  shows "page_to_zone zs p = Some i"
proof -
  have "wf_zone (zs ! i)" using assms(1,2) by (simp add: zones_ok_def)
  then have "p * 4096 < unat (pa_start (zs ! i)) + unat (zone_len (zs ! i))"
    and "unat (pa_start (zs ! i)) + unat (zone_len (zs ! i)) < 2 ^ 64"
    using assms(3) zone_pages_phys [of "zs ! i" p] by (auto simp: wf_zone_def)
  then have "p * 4096 < 2 ^ 64" by linarith
  moreover have "\<forall>z \<in> set zs. wf_zone z" using assms(1) by (simp add: zones_ok_def)
  moreover have "p \<notin> zone_pages (zs ! j)" if "j < i" for j
    using zones_ok_unique [OF assms(1,2) _ assms(3), of j] assms(2) that by auto
  ultimately show ?thesis using assms(2,3)
  proof (induction zs arbitrary: i)
    case Nil
    then show ?case by simp
  next
    case (Cons z zs)
    have wf: "wf_zone z" using Cons.prems(2) by simp
    note here = page_in_zone [OF wf Cons.prems(1)]
    show ?case
    proof (cases i)
      case 0
      then show ?thesis using here Cons.prems(5) by simp
    next
      case (Suc j)
      have "p \<notin> zone_pages z" using Cons.prems(3) [of 0] Suc by simp
      moreover have "page_to_zone zs p = Some j"
      proof (rule Cons.IH)
        show "p \<notin> zone_pages (zs ! l)" if "l < j" for l
          using Cons.prems(3) [of "Suc l"] that Suc by simp
      qed (use Cons.prems Suc in auto)
      ultimately show ?thesis using here Suc by simp
    qed
  qed
qed

lemma held_zone:
  assumes inv: "pmm_inv st A" and A: "(p, k) \<in> A"
  shows "\<exists>i < length (zone_list st). block_pages (p, k) \<subseteq> zone_pages (zone_list st ! i) \<and>
           page_to_zone (zone_list st) p = Some i"
proof -
  obtain FL where P: "pmm_parts (zone_list st) (page_data st) FL A" using inv by (auto simp: pmm_inv_def)
  have "\<exists>Z \<in> zone_pages ` set (zone_list st). block_pages (p, k) \<subseteq> Z"
    using P A tiling_range [of "zone_pages ` set (zone_list st)" "A \<union> free_blocks (zone_list st) FL" p k] by (simp add: pmm_parts_def)
  then obtain i where i: "i < length (zone_list st)" "block_pages (p, k) \<subseteq> zone_pages (zone_list st ! i)"
    by (auto simp: in_set_conv_nth)
  moreover have "page_to_zone (zone_list st) p = Some i"
    using P i by (intro page_to_zone_ok) (auto simp: pmm_parts_def)
  ultimately show ?thesis by blast
qed

end
