(* ===== verification/Pmm_Init.thy ===== *)
theory Pmm_Init
  imports Pmm_Inv
begin

text \<open>
  Building the zones at boot establishes the invariant of the page allocator.  While a zone is
  populated, its pages that are not yet on a list are held as blocks of order 0.
\<close>

section \<open>The order of the next block\<close>

lemma ISALIGN_POW2_iff: "ISALIGN_POW2 v (2 ^ r) \<longleftrightarrow> 2 ^ r dvd unat v"
proof -
  have "ISALIGN_POW2 v (2 ^ r) \<longleftrightarrow> take_bit r v = 0"
    by (simp add: ISALIGN_POW2_def take_bit_eq_mask mask_eq_exp_minus_1)
  also have "\<dots> \<longleftrightarrow> unat (take_bit r v) = 0" by (simp only: unsigned_eq_0_iff)
  also have "\<dots> \<longleftrightarrow> 2 ^ r dvd unat v"
    by (subst unsigned_take_bit_eq) (simp only: take_bit_eq_mod dvd_eq_mod_eq_0)
  finally show ?thesis .
qed

lemma max_order_loop_spec:
  assumes "unat s + 2 ^ n < 2 ^ 64" "n < 64"
  shows "max_order_loop s e n \<le> n \<and>
         (max_order_loop s e n = 0 \<or>
          unat s + 2 ^ max_order_loop s e n \<le> unat e \<and> 2 ^ max_order_loop s e n dvd unat s)"
  using assms
proof (induction n)
  case 0
  then show ?case by simp
next
  case (Suc n)
  have n: "unat s + 2 ^ n < 2 ^ 64" using Suc.prems(1) by simp
  have "unat (2 ^ Suc n :: u64) = 2 ^ Suc n" using Suc.prems(2) by (rule unat_exp)
  then have "unat (s + 2 ^ Suc n) = unat s + 2 ^ Suc n"
    using Suc.prems(1) by (subst unat_add_u64) simp_all
  then have "s + 2 ^ Suc n > e \<longleftrightarrow> unat s + 2 ^ Suc n > unat e"
    by (simp only: word_less_nat_alt)
  then show ?case
    using Suc.IH [OF n] Suc.prems(2) ISALIGN_POW2_iff [of s "Suc n"]
    by (auto simp del: power_Suc)
qed

lemma get_max_order_ok:
  assumes "unat s < 2 ^ 63" "unat s div 4096 < unat e div 4096"
  shows "\<exists>r. get_max_order s e = Inr r \<and> r < MAX_ORDER \<and>
           unat s div 4096 + 2 ^ r \<le> unat e div 4096 \<and> 2 ^ r dvd unat s div 4096"
proof -
  let ?r = "max_order_loop (s div PAGE_SIZE) (e div PAGE_SIZE) (MAX_ORDER - 1)"
  have s: "unat (s div PAGE_SIZE) = unat s div 4096" and e: "unat (e div PAGE_SIZE) = unat e div 4096"
    by (simp_all add: PAGE_SIZE_def unat_div_distrib)
  have "unat (s div PAGE_SIZE) + 2 ^ (MAX_ORDER - 1) < 2 ^ 64"
    using assms(1) unfolding s MAX_ORDER_def by simp
  then have "?r \<le> MAX_ORDER - 1 \<and> (?r = 0 \<or> unat s div 4096 + 2 ^ ?r \<le> unat e div 4096 \<and> 2 ^ ?r dvd unat s div 4096)"
    using max_order_loop_spec [of "s div PAGE_SIZE" "MAX_ORDER - 1" "e div PAGE_SIZE"]
    unfolding s e by (simp add: MAX_ORDER_def)
  moreover have "?r < MAX_ORDER" using calculation by (simp add: MAX_ORDER_def)
  ultimately show ?thesis
    using assms(2) by (intro exI [of _ ?r]) (auto simp: get_max_order_def Let_def)
qed

section \<open>Populating a zone\<close>

definition singles :: "nat set \<Rightarrow> block set" where
  "singles S = (\<lambda>p. (p, 0)) ` S"

lemma pages_singles [simp]: "\<Union> (block_pages ` singles S) = S"
  by (auto simp: singles_def)

lemma singles_iff [simp]: "(p, k) \<in> singles S \<longleftrightarrow> p \<in> S \<and> k = 0"
  by (auto simp: singles_def)

text \<open>Single pages that make up an aligned block inside one range can be held as that block.\<close>

lemma parts_collect:
  assumes P: "pmm_parts zs pd FL (singles S)" and sub: "block_pages (p, k) \<subseteq> S"
    and al: "2 ^ k dvd p" and i: "i < length zs" and blk: "block_pages (p, k) \<subseteq> zone_pages (zs ! i)"
  shows "pmm_parts zs pd FL (insert (p, k) (singles (S - block_pages (p, k))))"
    and "(p, k) \<notin> singles (S - block_pages (p, k))"
proof -
  let ?F = "free_blocks zs FL" and ?R = "zone_pages ` set zs" and ?b = "block_pages (p, k)"
  have T: "tiling ?R (singles S \<union> ?F)" and dF: "singles S \<inter> ?F = {}"
    using P by (auto simp: pmm_parts_def)
  have S: "singles S = singles ?b \<union> singles (S - ?b)" using sub by auto
  let ?Rest = "singles (S - ?b) \<union> ?F"
  have T1: "tiling ?R (singles ?b \<union> ?Rest)" using T unfolding S by (simp add: Un_assoc)
  have d1: "singles ?b \<inter> ?Rest = {}" using dF unfolding S by auto
  have Z: "zone_pages (zs ! i) \<in> ?R" using i by simp
  have T2: "tiling ?R ({(p, k)} \<union> ?Rest)"
    using al blk Z by (intro tiling_exchange [OF T1 d1]) auto
  have new: "(p, k) \<notin> ?Rest"
  proof
    assume rest: "(p, k) \<in> ?Rest"
    have mem: "(p, 0) \<in> singles ?b" by simp
    then have eq: "(p, 0) = (p, k)"
      using tiling_overlap [OF T1, of "(p, 0)" "(p, k)" p] rest by simp
    have "(p, 0) \<notin> ?Rest" using d1 mem by blast
    then show False using rest unfolding eq by contradiction
  qed
  then show "(p, k) \<notin> singles (S - ?b)" by blast
  have "insert (p, k) (singles (S - ?b)) \<inter> ?F = {}" using new dF unfolding S by auto
  then show "pmm_parts zs pd FL (insert (p, k) (singles (S - ?b)))"
    using P T2 by (simp add: pmm_parts_def)
qed

text \<open>The machine arithmetic of one round of the loop.\<close>

lemma populate_step:
  assumes wf: "wf_zone z" and a: "unat (pa_start z) = 4096 * f" and n: "unat (zone_len z) = 4096 * n"
    and lim: "4096 * (f + n) < 2 ^ 47" and f: "0 < f" and j: "j < n"
  shows "\<exists>r. r < MAX_ORDER \<and> j + 2 ^ r \<le> n \<and> 2 ^ r dvd f + j \<and>
           populate_zone n j z pd =
             populate_zone n (j + 2 ^ r) (fst (push_block (f + j) r z pd)) (snd (push_block (f + j) r z pd))"
proof -
  let ?s = "pa_start z + of_nat j * PAGE_SIZE" and ?e = "pa_start z + of_nat n * PAGE_SIZE"
  have mul: "unat (of_nat m * PAGE_SIZE :: u64) = m * 4096" if "m \<le> n" for m
    using that lim unat_page_to_phys [of m] by (simp add: page_to_phys_def)
  have s: "unat ?s = 4096 * (f + j)" using lim j mul [of j] a by (subst unat_add_u64) auto
  have e: "unat ?e = 4096 * (f + n)" using lim mul [of n] a by (subst unat_add_u64) auto
  have div: "4096 * m div 4096 = m" for m :: nat by simp
  obtain r where r: "get_max_order ?s ?e = Inr r" "r < MAX_ORDER" "f + j + 2 ^ r \<le> f + n" "2 ^ r dvd f + j"
    using get_max_order_ok [of ?s ?e] s e j lim unfolding s e div by auto
  have "?s \<noteq> 0" using s f by (metis add_is_0 less_irrefl mult_is_0 unat_0 zero_neq_numeral)
  then have page: "virt_to_page (phys_to_virt ?s) = Some (f + j)"
    using phys_to_page_eq [of ?s] s lim j unfolding s div by simp
  have pow: "unat (PAGE_SIZE * 2 ^ r) = 4096 * 2 ^ r"
  proof -
    have "r < 64" using r(2) by (simp add: MAX_ORDER_def)
    moreover have "4096 * 2 ^ r < (2 ^ 64 :: nat)" using r(3) lim by simp
    ultimately show ?thesis by (subst unat_mult_u64) (simp_all add: unat_exp PAGE_SIZE_def)
  qed
  have ph: "unat (page_to_phys (Some (f + j))) = (f + j) * 4096"
    using lim j by (intro unat_page_to_phys) simp
  have "page_to_phys (Some (f + j)) + PAGE_SIZE * 2 ^ r \<le> pa_start z + zone_len z"
    unfolding word_le_nat_alt using ph pow a n lim r(3)
    by (subst (1 2) unat_add_u64) auto
  then have "populate_zone n j z pd =
      populate_zone n (j + 2 ^ r) (fst (push_block (f + j) r z pd)) (snd (push_block (f + j) r z pd))"
    using j r(1) page by (simp add: populate_zone.simps [of n j] mult.commute [of PAGE_SIZE])
  with r show ?thesis by auto
qed

lemma populate_zone_ok:
  assumes "pmm_parts zs pd FL (singles {f + j ..< f + n})" "i < length zs"
    and "unat (pa_start (zs ! i)) = 4096 * f" "unat (zone_len (zs ! i)) = 4096 * n"
    and "4096 * (f + n) < 2 ^ 47" "0 < f" "j \<le> n"
  shows "\<exists>z' pd' FL'. populate_zone n j (zs ! i) pd = Inr (n, z', pd') \<and> same_zone (zs ! i) z' \<and>
           pmm_parts (zs[i := z']) pd' FL' {} \<and> held_kept zs {} pd pd'"
  using assms
proof (induction "n - j" arbitrary: zs pd FL j rule: less_induct)
  case less
  show ?case
  proof (cases "j < n")
    case False
    then have "j = n" using less.prems(7) by simp
    then show ?thesis using less.prems(1)
      by (intro exI [of _ "zs ! i"]) (auto simp: populate_zone.simps singles_def)
  next
    case j: True
    let ?z = "zs ! i" and ?p = "f + j"
    have wf: "wf_zone ?z" using less.prems(1,2) by (simp add: pmm_parts_def zones_ok_def)
    obtain r where r: "r < MAX_ORDER" "j + 2 ^ r \<le> n" "2 ^ r dvd ?p"
      "populate_zone n j ?z pd =
        populate_zone n (j + 2 ^ r) (fst (push_block ?p r ?z pd)) (snd (push_block ?p r ?z pd))"
      using populate_step [OF wf less.prems(3-6) j, of pd] by auto
    let ?z1 = "fst (push_block ?p r ?z pd)" and ?pd1 = "snd (push_block ?p r ?z pd)"
    have bp: "block_pages (?p, r) = {?p ..< ?p + 2 ^ r}" by (simp add: block_pages_def)
    have zp: "zone_pages ?z = {f ..< f + n}"
      using less.prems(3,4) by (simp add: zone_pages_def)
    have blk: "block_pages (?p, r) \<subseteq> zone_pages ?z" and sub: "block_pages (?p, r) \<subseteq> {f + j ..< f + n}"
      using r(2) unfolding bp zp by auto
    have rest: "{f + j ..< f + n} - block_pages (?p, r) = {f + (j + 2 ^ r) ..< f + n}"
      using r(2) unfolding bp by auto
    note C = parts_collect [OF less.prems(1) sub r(3) less.prems(2) blk, unfolded rest]
    note Q = parts_push [OF C less.prems(2) r(1) blk]
    have dec: "n - (j + 2 ^ r) < n - j" using j by (intro diff_less_mono2) auto
    have "\<exists>z' pd' FL'. populate_zone n (j + 2 ^ r) (zs[i := ?z1] ! i) ?pd1 = Inr (n, z', pd') \<and>
        same_zone (zs[i := ?z1] ! i) z' \<and> pmm_parts (zs[i := ?z1, i := z']) pd' FL' {} \<and>
        held_kept (zs[i := ?z1]) {} ?pd1 pd'"
      using less.prems(2-6) r(2) j same_zone_push [of ?z ?p r pd]
      by (intro less.hyps [OF dec Q(1)]) (auto simp: same_zone_def)
    then obtain z' pd' FL' where IH: "populate_zone n (j + 2 ^ r) ?z1 ?pd1 = Inr (n, z', pd')"
      "same_zone ?z1 z'" "pmm_parts (zs[i := z']) pd' FL' {}" "held_kept zs {} ?pd1 pd'"
      using less.prems(2) held_kept_update [OF same_zone_push less.prems(2)] by auto
    have "held_kept zs {} pd ?pd1" using Q(2) by (simp add: held_kept_def)
    then show ?thesis
      using IH r(4) same_zone_trans [OF same_zone_push IH(2)] held_kept_trans [OF _ IH(4)] by auto
  qed
qed

section \<open>Adding a zone\<close>

abbreviation zone_end :: "zone \<Rightarrow> nat" where
  "zone_end z \<equiv> unat (pa_start z) + unat (zone_len z)"

lemma zones_ok_append:
  assumes ok: "zones_ok zs" and wf: "wf_zone z"
    and above: "\<And>y. y \<in> set zs \<Longrightarrow> zone_end y < unat (pa_start z)"
  shows "zones_ok (zs @ [z])" and "all_pages zs \<inter> zone_pages z = {}"
proof -
  have wfs: "wf_zone y" if "y \<in> set zs" for y using ok that by (simp add: zones_ok_def)
  have low: "Suc p < q" if "y \<in> set zs" "p \<in> zone_pages y" "q \<in> zone_pages z" for p q y
  proof -
    have pq: "p * 4096 < zone_end y" "unat (pa_start z) \<le> q * 4096"
      using that zone_pages_phys [OF wfs, of y p] zone_pages_phys [OF wf, of q] by auto
    have "4096 dvd zone_end y" using wfs [OF that(1)] by (simp add: wf_zone_def)
    then obtain e where e: "zone_end y = 4096 * e" by blast
    have "p < e" using pq(1) unfolding e by simp
    moreover have "4096 * e < q * 4096" using pq(2) above [OF that(1)] unfolding e by linarith
    ultimately show ?thesis by simp
  qed
  show dis: "all_pages zs \<inter> zone_pages z = {}" using low by fastforce
  have gap: "gapped (zone_pages ` set (zs @ [z]))"
    unfolding gapped_def
  proof (intro ballI impI)
    fix Y Z p
    assume Y: "Y \<in> zone_pages ` set (zs @ [z])" and Z: "Z \<in> zone_pages ` set (zs @ [z])"
      and p: "p \<in> Y" "Suc p \<in> Z"
    have no1: "\<not> (Y \<in> zone_pages ` set zs \<and> Z = zone_pages z)" using low p by blast
    have no2: "\<not> (Z \<in> zone_pages ` set zs \<and> Y = zone_pages z)" using low p by fastforce
    show "Y = Z"
    proof (cases "Y \<in> zone_pages ` set zs \<and> Z \<in> zone_pages ` set zs")
      case True
      then show ?thesis using ok p unfolding zones_ok_def gapped_def by blast
    next
      case False
      then show ?thesis using Y Z no1 no2 by auto
    qed
  qed
  have "zone_pages ((zs @ [z]) ! i) \<inter> zone_pages ((zs @ [z]) ! j) = {}"
    if "i < length (zs @ [z])" "j < length (zs @ [z])" "i \<noteq> j" for i j
  proof -
    have "zone_pages y \<inter> zone_pages z = {}" if "y \<in> set zs" for y using dis that by blast
    then have "zone_pages (zs ! l) \<inter> zone_pages z = {}" if "l < length zs" for l
      using that by simp
    moreover have "zone_pages (zs ! i) \<inter> zone_pages (zs ! j) = {}" if "i < length zs" "j < length zs"
      using ok that \<open>i \<noteq> j\<close> by (simp add: zones_ok_def)
    ultimately show ?thesis using that
      by (cases "i < length zs"; cases "j < length zs") (auto simp: nth_append Int_commute)
  qed
  then show "zones_ok (zs @ [z])" using gap wf wfs by (auto simp: zones_ok_def)
qed

lemma parts_append:
  assumes P: "pmm_parts zs pd FL {}" and wf: "wf_zone z"
    and above: "\<And>y. y \<in> set zs \<Longrightarrow> zone_end y < unat (pa_start z)"
    and new: "free_lists z = replicate MAX_ORDER None"
  shows "pmm_parts (zs @ [z]) pd (FL(length zs := \<lambda>_. [])) (singles (zone_pages z))"
proof -
  let ?FL = "FL(length zs := \<lambda>_. [])" and ?F = "free_blocks zs FL"
  have zok: "zones_ok zs" and ok: "lists_ok zs pd FL" and T: "tiling (zone_pages ` set zs) ?F"
    using P by (auto simp: pmm_parts_def)
  note app = zones_ok_append [OF zok wf above]
  have "(\<exists>i < length (zs @ [z]). p \<in> set (?FL i k)) \<longleftrightarrow> (\<exists>i < length zs. p \<in> set (FL i k))" for p k
    by (simp add: Ex_less_Suc less_not_refl2 cong: conj_cong)
  then have fb: "free_blocks (zs @ [z]) ?FL = ?F" by (simp add: free_blocks_def)
  have "lists_ok (zs @ [z]) pd ?FL"
    using ok new unfolding lists_ok_def
    by (auto simp: nth_append less_Suc_eq)
  moreover have cover: "\<Union> (block_pages ` ?F) = all_pages zs" using T unfolding tiling_def by blast
  have dis: "block_pages b \<inter> zone_pages z = {}" if "b \<in> ?F" for b using cover app(2) that by blast
  have "tiling (zone_pages ` set (zs @ [z])) (singles (zone_pages z) \<union> ?F)"
    unfolding tiling_def
  proof (intro conjI ballI impI)
    show "2 ^ snd b dvd fst b" "\<exists>Z \<in> zone_pages ` set (zs @ [z]). block_pages b \<subseteq> Z"
      if "b \<in> singles (zone_pages z) \<union> ?F" for b
      using that T unfolding tiling_def by (auto simp: singles_def)
    show "block_pages b \<inter> block_pages c = {}"
      if "b \<in> singles (zone_pages z) \<union> ?F" "c \<in> singles (zone_pages z) \<union> ?F" "b \<noteq> c" for b c
      using that dis [of b] dis [of c] tiling_disjoint [OF T, of b c] by (auto simp: singles_def)
    show "\<Union> (block_pages ` (singles (zone_pages z) \<union> ?F)) = all_pages (zs @ [z])"
      using cover by (simp add: image_Un Un_commute)
  qed
  moreover have "singles (zone_pages z) \<inter> ?F = {}"
    using dis by (force simp: singles_def)
  ultimately show ?thesis using app(1) by (simp add: pmm_parts_def fb)
qed

section \<open>The regions of the memory map\<close>

text \<open>
  A region as the boot code expects it: at least a page long and in the lower half of the
  address space.  The pages of its zone are the ones between the end of the zone header, rounded
  up, and the end of the region plus the size of the header, rounded down.
\<close>

definition region_ok :: "mmap_region \<Rightarrow> bool" where
  "region_ok rg \<longleftrightarrow> 4096 \<le> unat (rg_len rg) \<and> unat (rg_base rg) + unat (rg_len rg) + 4215 < 2 ^ 47"

definition region_first :: "mmap_region \<Rightarrow> nat" where
  "region_first rg = (unat (rg_base rg) + 120 + 4095) div 4096"

definition region_count :: "mmap_region \<Rightarrow> nat" where
  "region_count rg = (unat (rg_base rg) + 120 + unat (rg_len rg)) div 4096 - region_first rg"

definition region_pages :: "mmap_region \<Rightarrow> nat set" where
  "region_pages rg = {region_first rg ..< region_first rg + region_count rg}"

lemma region_bounds:
  assumes "region_ok rg"
  shows "unat (rg_base rg) + 120 \<le> 4096 * region_first rg"
    and "4096 * region_first rg \<le> unat (rg_base rg) + 120 + 4095" and "0 < region_first rg"
    and "4096 * (region_first rg + region_count rg) \<le> unat (rg_base rg) + 120 + unat (rg_len rg)"
  using assms by (auto simp: region_ok_def region_first_def region_count_def)

lemma zone_start_ok:
  assumes "region_ok rg"
  shows "unat (ALIGNUP (rg_base rg + sizeof_zone) PAGE_SIZE) = 4096 * region_first rg"
proof -
  have base: "unat (rg_base rg + sizeof_zone) = unat (rg_base rg) + 120"
    using assms by (subst unat_add_u64) (auto simp: region_ok_def sizeof_zone_def)
  have ps: "PAGE_SIZE = 2 ^ 12" by (simp add: PAGE_SIZE_def)
  show ?thesis unfolding ps
    by (subst unat_ALIGNUP) (use assms in \<open>auto simp: base region_ok_def region_first_def\<close>)
qed

lemma calc_available_pages_ok:
  assumes "region_ok rg"
  shows "\<exists>w. calc_available_pages rg = Inr w \<and> unat w = region_count rg"
proof -
  let ?s = "ALIGNUP (rg_base rg + sizeof_zone) PAGE_SIZE"
  let ?l = "rg_len rg - (?s - (rg_base rg + sizeof_zone))"
  note B = region_bounds [OF assms]
  have base: "unat (rg_base rg + sizeof_zone) = unat (rg_base rg) + 120"
    using assms by (subst unat_add_u64) (auto simp: region_ok_def sizeof_zone_def)
  have pad: "unat (?s - (rg_base rg + sizeof_zone)) = 4096 * region_first rg - (unat (rg_base rg) + 120)"
    using B(1) zone_start_ok [OF assms] base by (subst unat_sub_u64) (auto simp: word_le_nat_alt)
  have le: "?s - (rg_base rg + sizeof_zone) \<le> rg_len rg"
    using B(2) assms unfolding word_le_nat_alt pad region_ok_def by linarith
  then have len: "unat ?l = unat (rg_len rg) - (4096 * region_first rg - (unat (rg_base rg) + 120))"
    using pad by (subst unat_sub_u64) auto
  have "?l \<le> rg_len rg" unfolding word_le_nat_alt len by linarith
  moreover have "unat (?l div PAGE_SIZE) = unat ?l div 4096" by (simp add: PAGE_SIZE_def unat_div_distrib)
  moreover have "unat ?l div 4096 = region_count rg"
    using B(1,2) assms unfolding len region_count_def region_ok_def by linarith
  ultimately show ?thesis by (auto simp: calc_available_pages_def Let_def)
qed

lemma init_zone_ok:
  assumes inv: "pmm_inv st {}" and rg: "region_ok rg"
    and above: "\<And>y. y \<in> set (zone_list st) \<Longrightarrow> zone_end y < 4096 * region_first rg"
  shows "\<exists>tmp pd'. init_zone rg (page_data st) = Inr (tmp, pd') \<and>
           (case tmp of
              None \<Rightarrow> region_count rg = 0 \<and> pd' = page_data st
            | Some z \<Rightarrow> zone_end z = 4096 * (region_first rg + region_count rg) \<and>
                zone_pages z = region_pages rg \<and> page_refcount pd' = page_refcount (page_data st) \<and>
                pmm_inv (st\<lparr>page_data := pd', zone_list := zone_list st @ [z]\<rparr>) {})"
proof -
  let ?zs = "zone_list st" and ?pd = "page_data st" and ?f = "region_first rg" and ?n = "region_count rg"
  note B = region_bounds [OF rg]
  obtain w where w: "calc_available_pages rg = Inr w" "unat w = ?n"
    using calc_available_pages_ok [OF rg] by auto
  show ?thesis
  proof (cases "w = 0")
    case True
    then show ?thesis using w by (auto simp: init_zone_def)
  next
    case False
    define z where "z = \<lparr>pa_start = ALIGNUP (rg_base rg + sizeof_zone) PAGE_SIZE,
      zone_len = w * PAGE_SIZE, free_lists = replicate MAX_ORDER None\<rparr>"
    have lim: "4096 * (?f + ?n) < 2 ^ 47" using B(4) rg by (simp add: region_ok_def)
    have a: "unat (pa_start z) = 4096 * ?f" using zone_start_ok [OF rg] by (simp add: z_def)
    have l: "unat (zone_len z) = 4096 * ?n"
      unfolding z_def using w(2) lim by simp (subst unat_mult_u64, auto simp: PAGE_SIZE_def)
    have wf: "wf_zone z" using a l lim by (simp add: wf_zone_def z_def)
    have zp: "zone_pages z = {?f ..< ?f + ?n}" using a l by (simp add: zone_pages_def)
    obtain FL where P: "pmm_parts ?zs ?pd FL {}" using inv by (auto simp: pmm_inv_def)
    have "pmm_parts (?zs @ [z]) ?pd (FL(length ?zs := \<lambda>_. [])) (singles (zone_pages z))"
      using above a by (intro parts_append [OF P wf]) (auto simp: z_def)
    then have P0: "pmm_parts (?zs @ [z]) ?pd (FL(length ?zs := \<lambda>_. [])) (singles {?f + 0 ..< ?f + ?n})"
      by (simp add: zp)
    obtain z' pd' FL' where q: "populate_zone ?n 0 z ?pd = Inr (?n, z', pd')" "same_zone z z'"
      "pmm_parts (?zs @ [z']) pd' FL' {}" "held_kept (?zs @ [z]) {} ?pd pd'"
      using populate_zone_ok [OF P0, of "length ?zs"] a l lim B(3) by auto
    have "all_pages (?zs @ [z']) = all_pages (?zs @ [z])" using same_zone_pages [OF q(2)] by simp
    then have "pmm_inv (st\<lparr>page_data := pd', zone_list := ?zs @ [z']\<rparr>) {}"
      using q(3,4) inv held_kept_unlinked [OF q(4)] unfolding pmm_inv_def by auto
    moreover have "init_zone rg ?pd = Inr (Some z', pd')"
      using w q(1) False by (simp add: init_zone_def z_def Let_def)
    ultimately show ?thesis
      using q(2,4) same_zone_pages [OF q(2)] zp a l
      by (auto simp: region_pages_def same_zone_def held_kept_def)
  qed
qed

definition regions_apart :: "mmap_region list \<Rightarrow> bool" where
  "regions_apart rgs \<longleftrightarrow>
     sorted_wrt (\<lambda>a b. unat (rg_base a) + unat (rg_len a) < unat (rg_base b)) rgs"

lemma init_zones_ok:
  assumes "pmm_inv st {}" "\<And>rg. rg \<in> set rgs \<Longrightarrow> region_ok rg" "regions_apart rgs"
    and "\<And>y rg. y \<in> set (zone_list st) \<Longrightarrow> rg \<in> set rgs \<Longrightarrow> zone_end y < 4096 * region_first rg"
  shows "\<exists>st'. init_zones rgs st = Inr st' \<and> pmm_inv st' {} \<and>
           page_refcount (page_data st') = page_refcount (page_data st) \<and>
           all_pages (zone_list st') = all_pages (zone_list st) \<union> (\<Union>rg \<in> set rgs. region_pages rg)"
  using assms
proof (induction rgs arbitrary: st)
  case Nil
  then show ?case by simp
next
  case (Cons rg rgs)
  have rg: "region_ok rg" using Cons.prems(2) by simp
  have apart: "regions_apart rgs"
    and far: "unat (rg_base rg) + unat (rg_len rg) < unat (rg_base r)" if "r \<in> set rgs" for r
    using Cons.prems(3) that by (auto simp: regions_apart_def)
  obtain tmp pd' where t: "init_zone rg (page_data st) = Inr (tmp, pd')"
    "case tmp of None \<Rightarrow> region_count rg = 0 \<and> pd' = page_data st
     | Some z \<Rightarrow> zone_end z = 4096 * (region_first rg + region_count rg) \<and>
         zone_pages z = region_pages rg \<and> page_refcount pd' = page_refcount (page_data st) \<and>
         pmm_inv (st\<lparr>page_data := pd', zone_list := zone_list st @ [z]\<rparr>) {}"
    using init_zone_ok [OF Cons.prems(1) rg] Cons.prems(4) by auto
  let ?st = "case tmp of None \<Rightarrow> st\<lparr>page_data := pd'\<rparr>
             | Some z \<Rightarrow> st\<lparr>page_data := pd', zone_list := zone_list st @ [z]\<rparr>"
  have inv: "pmm_inv ?st {}" and rc: "page_refcount (page_data ?st) = page_refcount (page_data st)"
    and pages: "all_pages (zone_list ?st) = all_pages (zone_list st) \<union> region_pages rg"
    using t(2) Cons.prems(1) by (auto simp: region_pages_def pmm_inv_def split: option.splits)
  have "zone_end y < 4096 * region_first r" if "y \<in> set (zone_list ?st)" "r \<in> set rgs" for y r
  proof (cases "y \<in> set (zone_list st)")
    case True
    then show ?thesis using Cons.prems(4) that(2) by simp
  next
    case False
    then have "zone_end y = 4096 * (region_first rg + region_count rg)"
      using that(1) t(2) by (auto split: option.splits)
    then show ?thesis
      using region_bounds(4) [OF rg] region_bounds(1) [OF Cons.prems(2), of r] far [OF that(2)] that(2)
      by simp
  qed
  then have "\<exists>st'. init_zones rgs ?st = Inr st' \<and> pmm_inv st' {} \<and>
      page_refcount (page_data st') = page_refcount (page_data ?st) \<and>
      all_pages (zone_list st') = all_pages (zone_list ?st) \<union> (\<Union>rg \<in> set rgs. region_pages rg)"
    using Cons.prems(2,3) by (intro Cons.IH [OF inv]) (auto simp: regions_apart_def)
  then show ?case using t(1) rc pages by (auto simp: Un_assoc)
qed

definition empty_pmm :: "(nat \<Rightarrow> u8) \<Rightarrow> (nat \<Rightarrow> u32) \<Rightarrow> pmm" where
  "empty_pmm ord rc =
     \<lparr>page_data = \<lparr>page_list = \<lambda>_. \<lparr>dnext = None, dprev = None\<rparr>, page_order = ord, page_refcount = rc\<rparr>,
      zone_list = []\<rparr>"

lemma empty_pmm_inv: "pmm_inv (empty_pmm ord rc) {}"
  by (auto simp: pmm_inv_def pmm_parts_def empty_pmm_def zones_ok_def lists_ok_def tiling_def
      free_blocks_def gapped_def unlinked_def)

lemma populate_zone_same: "populate_zone n j z pd = Inr (m, z', pd') \<Longrightarrow> same_zone z z'"
proof (induction n j z pd rule: populate_zone.induct)
  case (1 n j z pd)
  show ?case
  proof (cases "j < n")
    case False
    then show ?thesis using 1(2) by (simp add: populate_zone.simps [of n j])
  next
    case True
    then show ?thesis
      using 1 same_zone_trans [OF same_zone_push]
      by (fastforce simp: populate_zone.simps [of n j] split: sum.splits option.splits if_splits)
  qed
qed

lemma init_zone_end:
  assumes rg: "region_ok rg" and z: "init_zone rg pd = Inr (Some z, pd')"
  shows "zone_end z = 4096 * ((unat (rg_base rg) + unat (rg_len rg) + 120) div 4096)"
proof -
  obtain w where w: "calc_available_pages rg = Inr w" "unat w = region_count rg"
    using calc_available_pages_ok [OF rg] by auto
  have wz: "w \<noteq> 0" using z w(1) by (auto simp: init_zone_def)
  let ?z = "\<lparr>pa_start = ALIGNUP (rg_base rg + sizeof_zone) PAGE_SIZE,
      zone_len = w * PAGE_SIZE, free_lists = replicate MAX_ORDER None\<rparr>"
  obtain m where "populate_zone (unat w) 0 ?z pd = Inr (m, z, pd')"
    using z w(1) wz by (auto simp: init_zone_def Let_def obind_Inr split: if_splits)
  from populate_zone_same [OF this] have "pa_start z = pa_start ?z" "zone_len z = zone_len ?z"
    by (auto simp: same_zone_def)
  moreover have "unat (w * PAGE_SIZE) = region_count rg * 4096"
    using w(2) region_bounds(4) [OF rg] rg
    by (subst unat_mult_u64) (auto simp: PAGE_SIZE_def region_ok_def)
  moreover have "0 < region_count rg" using wz w(2) by (simp add: unat_gt_0 flip: w(2))
  then have "region_first rg + region_count rg = (unat (rg_base rg) + unat (rg_len rg) + 120) div 4096"
    by (simp add: region_count_def add.commute add.left_commute)
  ultimately show ?thesis using zone_start_ok [OF rg] by (simp add: algebra_simps)
qed

end
