(* ===== verification/Pmm_Correct.thy ===== *)
theory Pmm_Correct
  imports Pmm_Init
begin

text \<open>
  The properties of the page allocator, and its interface to the rest of the memory manager: the
  locale \<open>frame_allocator\<close> states what clients rely on, its lemmas hold for every history of
  requests, and the allocator of \<^verbatim>\<open>kernel/mm/pmm.c\<close> is an instance.
\<close>

section \<open>One call\<close>

lemma pmm_alloc_order_spec:
  assumes inv: "pmm_inv st A" and k: "k < MAX_ORDER"
  shows "(alloc_from_zones (zone_list st) (page_data st) k = Inr (None, zone_list st, page_data st) \<and>
            (\<forall>z \<in> set (zone_list st). exhausted z k)) \<or>
         (\<exists>p st'. pmm_alloc_order st k flags = Inr (Some p, st') \<and> pmm_inv st' (insert (p, k) A) \<and>
            (p, k) \<notin> A \<and> all_pages (zone_list st') = all_pages (zone_list st) \<and>
            page_refcount (page_data st') = page_refcount (page_data st))"
proof -
  let ?zs = "zone_list st" and ?pd = "page_data st"
  obtain FL where P: "pmm_parts ?zs ?pd FL A" using inv by (auto simp: pmm_inv_def)
  have step: "(exhausted z k \<and> zone_alloc_order z ?pd k = Inr (None, z, ?pd)) \<or>
      (\<exists>x z' pd'. zone_alloc_order z ?pd k = Inr (Some x, z', pd'))" if z: "z \<in> set ?zs" for z
    using zone_alloc_order_ok [OF P _ k] z by (metis in_set_conv_nth)
  from alloc_from_zones_cases [of ?zs "\<lambda>z. exhausted z k", OF step, simplified] show ?thesis
  proof (elim disjE conjE exE)
    fix i x z' pd'
    assume i: "i < length ?zs" and za: "zone_alloc_order (?zs ! i) ?pd k = Inr (Some x, z', pd')"
      and al: "alloc_from_zones ?zs ?pd k = Inr (Some x, ?zs[i := z'], pd')"
    obtain FL' where q: "same_zone (?zs ! i) z'" "pmm_parts (?zs[i := z']) pd' FL' (insert (x, k) A)"
      "held_kept ?zs A ?pd pd'" "(x, k) \<notin> A" "unlinked pd' x"
      using zone_alloc_order_ok [OF P i k] za by auto
    let ?st = "st\<lparr>page_data := pd', zone_list := ?zs[i := z']\<rparr>"
    have "pmm_inv ?st (insert (x, k) A)"
      using inv q(5) k by (intro pmm_inv_intro [OF q(2,1) i q(3)]) (auto simp: pmm_inv_def)
    moreover have "pmm_alloc_order st k flags = Inr (Some x, ?st)"
      using al k by (simp add: pmm_alloc_order_def)
    moreover have "all_pages (zone_list ?st) = all_pages ?zs"
      by (simp add: zone_pages_set_update [OF q(1) i])
    ultimately show ?thesis using q(3,4) by (auto simp: held_kept_def)
  qed blast
qed

text \<open>The free lists of a state: what following \<^verbatim>\<open>next\<close> from the head of each list visits.\<close>

definition free_lists_of :: "pmm \<Rightarrow> flists \<Rightarrow> bool" where
  "free_lists_of st FL \<longleftrightarrow> (\<forall>i < length (zone_list st). \<forall>k < MAX_ORDER.
     dseg (page_list (page_data st)) (free_lists (zone_list st ! i) ! k) (FL i k))"

lemma free_lists_parts:
  assumes "pmm_parts (zone_list st) (page_data st) FL B" and "free_lists_of st FL'"
  shows "pmm_parts (zone_list st) (page_data st) FL' B"
proof -
  let ?zs = "zone_list st"
  have ok: "lists_ok ?zs (page_data st) FL" using assms(1) by (simp add: pmm_parts_def)
  have e: "FL' i k = FL i k" if "i < length ?zs" "k < MAX_ORDER" for i k
    using assms(2) that dseg_unique [OF _ lists_ok_seg [OF ok that]] by (auto simp: free_lists_of_def)
  then have "free_blocks ?zs FL' = free_blocks ?zs FL" by (auto simp: free_blocks_def)
  moreover have "lists_ok ?zs (page_data st) FL'" using ok e unfolding lists_ok_def by simp
  ultimately show ?thesis using assms(1) by (simp add: pmm_parts_def)
qed

lemma pmm_inv_lists: "pmm_inv st A \<Longrightarrow> \<exists>FL. free_lists_of st FL"
  by (auto simp: pmm_inv_def pmm_parts_def free_lists_of_def dest: lists_ok_seg)

lemma pmm_free_order_spec:
  assumes inv: "pmm_inv st A" and A: "(p, k) \<in> A" and FL: "free_lists_of st FL"
  shows "\<exists>i < length (zone_list st). p \<in> zone_pages (zone_list st ! i) \<and>
    (case merge_free p k (FL i) of
       Some L \<Rightarrow> \<exists>st'. pmm_free_order st (Some p) k = Inr st' \<and> pmm_inv st' (A - {(p, k)}) \<and> free_lists_of st' (FL(i := L)) \<and>
         all_pages (zone_list st') = all_pages (zone_list st) \<and> page_refcount (page_data st') = page_refcount (page_data st)
     | None \<Rightarrow> pmm_free_order st (Some p) k = Inl Out_of_bounds \<and> superblock_free (zone_list st ! i) (p, k) (A - {(p, k)}))"
proof -
  let ?zs = "zone_list st" and ?pd = "page_data st" and ?B = "A - {(p, k)}"
  have P: "pmm_parts ?zs ?pd FL A" using inv free_lists_parts [OF _ FL] by (auto simp: pmm_inv_def)
  have k: "k < MAX_ORDER" and up: "unlinked ?pd p" using inv A by (auto simp: pmm_inv_def)
  obtain i where i: "i < length ?zs" "block_pages (p, k) \<subseteq> zone_pages (?zs ! i)"
    and ptz: "page_to_zone ?zs p = Some i"
    using held_zone [OF inv A] by blast
  have free: "pmm_free_order st (Some p) k =
      obind (free_order_rec p k (?zs ! i) ?pd) (\<lambda>(z, pd). Inr (st\<lparr>page_data := pd, zone_list := ?zs[i := z]\<rparr>))"
    using k up ptz by (simp add: pmm_free_order_def unlinked_def dlist_defs)
  have P': "pmm_parts ?zs ?pd FL (insert (p, k) ?B)" using P A by (simp add: insert_absorb)
  have pz: "p \<in> zone_pages (?zs ! i)" using i(2) block_pages_head by blast
  have "(\<exists>z' pd' L. free_order_rec p k (?zs ! i) ?pd = Inr (z', pd') \<and> same_zone (?zs ! i) z' \<and>
          merge_free p k (FL i) = Some L \<and> pmm_parts (?zs[i := z']) pd' (FL(i := L)) ?B \<and> held_kept ?zs ?B ?pd pd') \<or>
       (free_order_rec p k (?zs ! i) ?pd = Inl Out_of_bounds \<and> merge_free p k (FL i) = None \<and> superblock_free (?zs ! i) (p, k) ?B)"
    using inv k by (intro free_order_rec_ok [OF P' _ i]) (auto simp: pmm_inv_def)
  then show ?thesis
  proof (elim disjE conjE exE)
    fix z' pd' L
    assume q: "free_order_rec p k (?zs ! i) ?pd = Inr (z', pd')" "same_zone (?zs ! i) z'" "merge_free p k (FL i) = Some L"
      "pmm_parts (?zs[i := z']) pd' (FL(i := L)) ?B" "held_kept ?zs ?B ?pd pd'"
    let ?st = "st\<lparr>page_data := pd', zone_list := ?zs[i := z']\<rparr>"
    have "pmm_inv ?st ?B"
      using inv by (intro pmm_inv_intro [OF q(4,2) i(1) q(5)]) (auto simp: pmm_inv_def)
    moreover have "all_pages (zone_list ?st) = all_pages ?zs"
      by (simp add: zone_pages_set_update [OF q(2) i(1)])
    moreover have "free_lists_of ?st (FL(i := L))"
      using q(4) lists_ok_seg [of "?zs[i := z']" pd' "FL(i := L)"] by (simp add: pmm_parts_def free_lists_of_def)
    ultimately show ?thesis using q free i(1) pz by (auto simp: held_kept_def)
  next
    assume "free_order_rec p k (?zs ! i) ?pd = Inl Out_of_bounds" "merge_free p k (FL i) = None" "superblock_free (?zs ! i) (p, k) ?B"
    then show ?thesis using free i(1) pz by auto
  qed
qed

lemma pmm_free_order_cases:
  assumes "pmm_inv st A" and "(p, k) \<in> A"
  shows "(\<exists>st'. pmm_free_order st (Some p) k = Inr st' \<and> pmm_inv st' (A - {(p, k)}) \<and>
            all_pages (zone_list st') = all_pages (zone_list st) \<and>
            page_refcount (page_data st') = page_refcount (page_data st)) \<or>
         pmm_free_order st (Some p) k = Inl Out_of_bounds"
proof -
  obtain FL where "free_lists_of st FL" using pmm_inv_lists [OF assms(1)] by blast
  from pmm_free_order_spec [OF assms this] show ?thesis by (auto split: option.splits)
qed

lemma pmm_inv_disjoint:
  assumes "pmm_inv st A" "b \<in> A" "c \<in> A" "b \<noteq> c"
  shows "block_pages b \<inter> block_pages c = {}"
  using assms tiling_disjoint unfolding pmm_inv_def pmm_parts_def by blast

lemma pmm_inv_inside: "pmm_inv st A \<Longrightarrow> b \<in> A \<Longrightarrow> block_pages b \<subseteq> all_pages (zone_list st)"
  unfolding pmm_inv_def pmm_parts_def tiling_def by blast

lemma pmm_inv_aligned: "pmm_inv st A \<Longrightarrow> b \<in> A \<Longrightarrow> 2 ^ snd b dvd fst b"
  unfolding pmm_inv_def pmm_parts_def tiling_def by blast

section \<open>Histories of requests\<close>

datatype request = Alloc nat | Free nat nat

text \<open>
  A client that frees only blocks it holds.  The state is paired with the set of blocks handed
  out; a request for a block that is not held is skipped.
\<close>

fun run_requests ::
  "('s \<Rightarrow> nat \<Rightarrow> (nat option \<times> 's) outcome) \<Rightarrow> ('s \<Rightarrow> nat option \<Rightarrow> nat \<Rightarrow> 's outcome) \<Rightarrow>
   request list \<Rightarrow> 's \<Rightarrow> block set \<Rightarrow> ('s \<times> block set) outcome"
where
  "run_requests al fr [] s A = Inr (s, A)"
| "run_requests al fr (Alloc k # rs) s A =
     obind (al s k) (\<lambda>(rv, s'). case rv of
         None \<Rightarrow> run_requests al fr rs s' A
       | Some p \<Rightarrow> run_requests al fr rs s' (insert (p, k) A))"
| "run_requests al fr (Free p k # rs) s A =
     (if (p, k) \<in> A
      then obind (fr s (Some p) k) (\<lambda>s'. run_requests al fr rs s' (A - {(p, k)}))
      else run_requests al fr rs s A)"

locale frame_allocator =
  fixes alloc :: "'s \<Rightarrow> nat \<Rightarrow> (nat option \<times> 's) outcome"
    and free :: "'s \<Rightarrow> nat option \<Rightarrow> nat \<Rightarrow> 's outcome"
    and ok :: "'s \<Rightarrow> block set \<Rightarrow> bool"
    and extent :: "'s \<Rightarrow> nat set"
    and max_order :: nat
  assumes alloc_ok: "ok s A \<Longrightarrow> k < max_order \<Longrightarrow>
      \<exists>rv s'. alloc s k = Inr (rv, s') \<and> extent s' = extent s \<and>
        (case rv of None \<Rightarrow> ok s' A | Some p \<Rightarrow> (p, k) \<notin> A \<and> ok s' (insert (p, k) A))"
    and free_ok: "ok s A \<Longrightarrow> (p, k) \<in> A \<Longrightarrow>
      free s (Some p) k = Inl Out_of_bounds \<or>
      (\<exists>s'. free s (Some p) k = Inr s' \<and> ok s' (A - {(p, k)}) \<and> extent s' = extent s)"
    and disjoint: "ok s A \<Longrightarrow> b \<in> A \<Longrightarrow> c \<in> A \<Longrightarrow> b \<noteq> c \<Longrightarrow> block_pages b \<inter> block_pages c = {}"
    and inside: "ok s A \<Longrightarrow> b \<in> A \<Longrightarrow> block_pages b \<subseteq> extent s"
begin

lemma run_ok:
  assumes "ok s A" "\<And>k. Alloc k \<in> set rs \<Longrightarrow> k < max_order"
  shows "run_requests alloc free rs s A = Inl Out_of_bounds \<or>
         (\<exists>s' A'. run_requests alloc free rs s A = Inr (s', A') \<and> ok s' A' \<and> extent s' = extent s)"
  using assms
proof (induction rs arbitrary: s A)
  case Nil
  then show ?case by simp
next
  case (Cons r rs)
  have rs: "\<And>k. Alloc k \<in> set rs \<Longrightarrow> k < max_order" using Cons.prems(2) by simp
  show ?case
  proof (cases r)
    case (Alloc k)
    then have "k < max_order" using Cons.prems(2) by simp
    from alloc_ok [OF Cons.prems(1) this] obtain rv s' where s': "alloc s k = Inr (rv, s')"
      "extent s' = extent s" "case rv of None \<Rightarrow> ok s' A | Some p \<Rightarrow> (p, k) \<notin> A \<and> ok s' (insert (p, k) A)"
      by blast
    show ?thesis
    proof (cases rv)
      case None
      then show ?thesis using s' Alloc Cons.IH [of s' A, OF _ rs] by simp
    next
      case (Some p)
      then show ?thesis using s' Alloc Cons.IH [of s' "insert (p, k) A", OF _ rs] by simp
    qed
  next
    case (Free p k)
    show ?thesis
    proof (cases "(p, k) \<in> A")
      case True
      from free_ok [OF Cons.prems(1) True] show ?thesis
      proof (elim disjE exE conjE)
        fix s'
        assume s': "free s (Some p) k = Inr s'" "ok s' (A - {(p, k)})" "extent s' = extent s"
        from Cons.IH [OF s'(2) rs] s' True Free show ?thesis by simp
      qed (simp add: Free True)
    next
      case False
      then show ?thesis using Free Cons.IH [OF Cons.prems(1) rs] by simp
    qed
  qed
qed

lemma held_pages_bound:
  assumes "ok s A" "finite (extent s)"
  shows "finite A" and "(\<Sum>b \<in> A. 2 ^ snd b) \<le> card (extent s)"
proof -
  have sub: "\<Union> (block_pages ` A) \<subseteq> extent s" using inside [OF assms(1)] by blast
  have "inj_on fst A"
  proof (rule inj_onI)
    fix b c
    assume bc: "b \<in> A" "c \<in> A" "fst b = fst c"
    have "fst b \<in> block_pages b" "fst b \<in> block_pages c"
      unfolding bc(3) by (simp_all add: block_pages_def bc(3))
    then show "b = c" using disjoint [OF assms(1) bc(1,2)] by blast
  qed
  moreover have "fst ` A \<subseteq> extent s" using sub block_pages_head by fastforce
  ultimately show fin: "finite A" using assms(2) by (meson finite_imageD finite_subset)
  have "card (\<Union> (block_pages ` A)) = (\<Sum>b \<in> A. card (block_pages b))"
    using fin disjoint [OF assms(1)] by (intro card_UN_disjoint) auto
  also have "\<dots> = (\<Sum>b \<in> A. 2 ^ snd b)" by (intro sum.cong) auto
  finally show "(\<Sum>b \<in> A. 2 ^ snd b) \<le> card (extent s)" using card_mono [OF assms(2) sub] by simp
qed

end

interpretation pmm: frame_allocator "\<lambda>st k. pmm_alloc_order st k GFP_CAN_FAIL" pmm_free_order pmm_inv
  "\<lambda>st. all_pages (zone_list st)" MAX_ORDER
proof
  fix s A k
  assume inv: "pmm_inv s A" and k: "k < MAX_ORDER"
  have "alloc_from_zones (zone_list s) (page_data s) k = Inr (None, zone_list s, page_data s) \<Longrightarrow>
      pmm_alloc_order s k GFP_CAN_FAIL = Inr (None, s)"
    using k by (simp add: pmm_alloc_order_def GFP_CAN_FAIL_def)
  then show "\<exists>rv s'. pmm_alloc_order s k GFP_CAN_FAIL = Inr (rv, s') \<and>
      all_pages (zone_list s') = all_pages (zone_list s) \<and>
      (case rv of None \<Rightarrow> pmm_inv s' A | Some p \<Rightarrow> (p, k) \<notin> A \<and> pmm_inv s' (insert (p, k) A))"
    using pmm_alloc_order_spec [OF inv k, of GFP_CAN_FAIL] inv by fastforce
next
  fix s A p k
  assume "pmm_inv s A" "(p, k) \<in> A"
  from pmm_free_order_cases [OF this]
  show "pmm_free_order s (Some p) k = Inl Out_of_bounds \<or>
      (\<exists>s'. pmm_free_order s (Some p) k = Inr s' \<and> pmm_inv s' (A - {(p, k)}) \<and>
         all_pages (zone_list s') = all_pages (zone_list s))"
    by blast
qed (rule pmm_inv_disjoint pmm_inv_inside; assumption)+

section \<open>Concrete boots\<close>

text \<open>A region of four pages, and one whose zone holds three blocks of the highest order.\<close>

definition small_boot :: "pmm outcome" where
  "small_boot = init_zones [\<lparr>rg_base = 0x100000, rg_len = 0x4000, rg_flags = MMAP_NONE\<rparr>]
     (empty_pmm (\<lambda>_. 0) (\<lambda>_. 0))"

definition large_boot :: "pmm outcome" where
  "large_boot = init_zones [\<lparr>rg_base = 0xFFF000, rg_len = 0x1801000, rg_flags = MMAP_NONE\<rparr>]
     (empty_pmm (\<lambda>_. 0) (\<lambda>_. 0))"

lemma boot_inv:
  "\<exists>st. small_boot = Inr st \<and> pmm_inv st {}" "\<exists>st. large_boot = Inr st \<and> pmm_inv st {}"
  using init_zones_ok [OF empty_pmm_inv, of "[\<lparr>rg_base = 0x100000, rg_len = 0x4000, rg_flags = MMAP_NONE\<rparr>]" "\<lambda>_. 0" "\<lambda>_. 0"]
    init_zones_ok [OF empty_pmm_inv, of "[\<lparr>rg_base = 0xFFF000, rg_len = 0x1801000, rg_flags = MMAP_NONE\<rparr>]" "\<lambda>_. 0" "\<lambda>_. 0"]
  by (auto simp: small_boot_def large_boot_def region_ok_def regions_apart_def empty_pmm_def)

lemma max_order_loop_numeral:
  "max_order_loop s e (numeral k) =
     (if s + 2 ^ numeral k > e then max_order_loop s e (pred_numeral k)
      else if ISALIGN_POW2 s (2 ^ numeral k) then numeral k
      else max_order_loop s e (pred_numeral k))"
  by (simp add: numeral_eq_Suc)

lemmas boot_eval =
  small_boot_def large_boot_def empty_pmm_def init_zone_def calc_available_pages_def
  populate_zone.simps get_max_order_def max_order_loop_numeral push_block_def ISALIGN_POW2_def
  ALIGNUP_def PAGE_SIZE_def sizeof_zone_def MAX_ORDER_def KERNEL_LOGICAL_BASE_def Let_def
  virt_to_page_def virt_to_phys_def phys_to_virt_def phys_to_page_def page_to_phys_def

lemmas call_eval =
  pmm_alloc_order_def zone_alloc_order_def scan_order.simps zone_split.simps split_block_def
  take_block_def pmm_free_order_def free_order_rec.simps is_page_free_def page_buddy_def
  dlist_defs GFP_CAN_FAIL_def

fun result_page :: "(nat option \<times> pmm) outcome \<Rightarrow> nat option" where
  "result_page (Inr (p, st)) = p"
| "result_page (Inl e) = None"

lemma result_page_Some: "result_page r = Some p \<longleftrightarrow> (\<exists>st. r = Inr (Some p, st))"
  by (cases r rule: result_page.cases) auto

section \<open>Properties\<close>



lemma fresh_pair: "\<exists>st st'. small_boot = Inr st \<and> pmm_alloc_order st 1 0 = Inr (Some 258, st')"
proof -
  obtain st where st: "small_boot = Inr st" using boot_inv(1) by blast
  have "result_page (obind small_boot (\<lambda>st. pmm_alloc_order st 1 0)) = Some 258"
    by (simp add: boot_eval) (simp add: boot_eval call_eval)
  then show ?thesis unfolding st obind.simps result_page_Some by blast
qed

text \<open>
  C1. \<^verbatim>\<open>pmm_alloc_order\<close>: from a state that satisfies the invariant, the call returns an aligned
  block inside the zones that overlaps no allocated block, and the invariant holds with that
  block allocated; it fails, by panic or with \<^verbatim>\<open>NULL\<close> as the flags say, only when no zone has a
  free block of the order or above, and then the state is unchanged.
\<close>

theorem pmm_alloc_order_correct:
  assumes "pmm_inv st A" and "k < MAX_ORDER"
  shows "case pmm_alloc_order st k flags of
           Inl e \<Rightarrow> e = Panic \<and> flags AND GFP_CAN_FAIL = 0 \<and> (\<forall>z \<in> set (zone_list st). exhausted z k)
         | Inr (None, st') \<Rightarrow>
             st' = st \<and> flags AND GFP_CAN_FAIL \<noteq> 0 \<and> (\<forall>z \<in> set (zone_list st). exhausted z k)
         | Inr (Some p, st') \<Rightarrow>
             pmm_inv st' (insert (p, k) A) \<and> 2 ^ k dvd p \<and>
             block_pages (p, k) \<subseteq> all_pages (zone_list st) \<and>
             (\<forall>b \<in> A. block_pages b \<inter> block_pages (p, k) = {})"
  using pmm_alloc_order_spec [OF assms, of flags]
proof (elim disjE exE conjE)
  fix p st'
  assume r: "pmm_alloc_order st k flags = Inr (Some p, st')" "pmm_inv st' (insert (p, k) A)" "(p, k) \<notin> A"
    "all_pages (zone_list st') = all_pages (zone_list st)"
  have "block_pages b \<inter> block_pages (p, k) = {}" if "b \<in> A" for b
    using pmm_inv_disjoint [OF r(2), of b "(p, k)"] r(3) that by blast
  then show ?thesis
    using r pmm_inv_inside [OF r(2), of "(p, k)"] pmm_inv_aligned [OF r(2), of "(p, k)"] by simp
next
  assume "alloc_from_zones (zone_list st) (page_data st) k = Inr (None, zone_list st, page_data st)"
    and "\<forall>z \<in> set (zone_list st). exhausted z k"
  then show ?thesis using assms(2) by (simp add: pmm_alloc_order_def)
qed

theorem pmm_alloc_order_correct_witness:
  "\<exists>st st'. small_boot = Inr st \<and> pmm_alloc_order st 1 0 = Inr (Some 258, st') \<and> pmm_inv st' {(258, 1)}"
proof -
  obtain st where st: "small_boot = Inr st" "pmm_inv st {}" using boot_inv(1) by blast
  then obtain st' where "pmm_alloc_order st 1 0 = Inr (Some 258, st')" using fresh_pair st(1) by (metis Inr_inject)
  then show ?thesis
    using st pmm_alloc_order_correct [OF st(2), of 1 0] by (auto simp: MAX_ORDER_def)
qed

text \<open>
  C2. \<^verbatim>\<open>pmm_free_order\<close> on an allocated block: the free lists of the zone of the block become exactly what
  merging gives, and all others stay as they are.  The block is merged with its buddy, and the result
  with its own buddy, as long as the buddy is in the list of its order behind the head; a free buddy
  at the head of its list is not recognised as free.  The merged block becomes the head of the list of
  its order, the invariant holds without the freed block, and the zones keep their pages.  The call
  fails only when merging goes beyond the highest order, in an access past the array of list heads;
  the aligned superblock of order \<^const>\<open>MAX_ORDER\<close> around the block then lies in one zone and holds no other
  allocated page.
\<close>

theorem pmm_free_order_correct:
  assumes "pmm_inv st A" and "(p, k) \<in> A" and "free_lists_of st FL"
  shows "\<exists>i < length (zone_list st). p \<in> zone_pages (zone_list st ! i) \<and>
    (case merge_free p k (FL i) of
       Some L \<Rightarrow> \<exists>st'. pmm_free_order st (Some p) k = Inr st' \<and> pmm_inv st' (A - {(p, k)}) \<and>
         free_lists_of st' (FL(i := L)) \<and> all_pages (zone_list st') = all_pages (zone_list st)
     | None \<Rightarrow> pmm_free_order st (Some p) k = Inl Out_of_bounds \<and> superblock_free (zone_list st ! i) (p, k) (A - {(p, k)}))"
proof -
  obtain i where i: "i < length (zone_list st)" "p \<in> zone_pages (zone_list st ! i)"
    and c: "case merge_free p k (FL i) of
       Some L \<Rightarrow> \<exists>st'. pmm_free_order st (Some p) k = Inr st' \<and> pmm_inv st' (A - {(p, k)}) \<and> free_lists_of st' (FL(i := L)) \<and>
         all_pages (zone_list st') = all_pages (zone_list st) \<and> page_refcount (page_data st') = page_refcount (page_data st)
     | None \<Rightarrow> pmm_free_order st (Some p) k = Inl Out_of_bounds \<and> superblock_free (zone_list st ! i) (p, k) (A - {(p, k)})"
    using pmm_free_order_spec [OF assms] by blast
  then show ?thesis by (intro exI [of _ i]) (auto split: option.splits)
qed

theorem pmm_free_order_correct_witness:
  "\<exists>st st' st''. small_boot = Inr st \<and> pmm_alloc_order st 0 0 = Inr (Some 257, st') \<and>
     pmm_free_order st' (Some 257) 0 = Inr st'' \<and> pmm_inv st'' {}"
proof -
  obtain st where st: "small_boot = Inr st" "pmm_inv st {}" using boot_inv(1) by blast
  have "result_page (obind small_boot (\<lambda>st. pmm_alloc_order st 0 0)) = Some 257"
    by (simp add: boot_eval) (simp add: boot_eval call_eval)
  then obtain st' where al: "pmm_alloc_order st 0 0 = Inr (Some 257, st')"
    unfolding st(1) obind.simps result_page_Some by blast
  then have inv: "pmm_inv st' {(257, 0)}"
    using pmm_alloc_order_spec [OF st(2), of 0 0] by (auto simp: MAX_ORDER_def pmm_alloc_order_def)
  have "\<not> isl (obind small_boot (\<lambda>st. obind (pmm_alloc_order st 0 0) (\<lambda>(p, st'). pmm_free_order st' p 0)))"
    by (simp add: boot_eval) (simp add: boot_eval call_eval)
  then have "\<not> isl (pmm_free_order st' (Some 257) 0)" unfolding st(1) obind.simps al prod.case .
  then obtain st'' where "pmm_free_order st' (Some 257) 0 = Inr st''"
    by (cases "pmm_free_order st' (Some 257) 0") auto
  moreover obtain FL where "free_lists_of st' FL" using pmm_inv_lists [OF inv] by blast
  from pmm_free_order_correct [OF inv _ this, of 257 0]
  have "(\<exists>s. pmm_free_order st' (Some 257) 0 = Inr s \<and> pmm_inv s {}) \<or> pmm_free_order st' (Some 257) 0 = Inl Out_of_bounds"
    by (auto split: option.splits)
  ultimately show ?thesis using st(1) al by auto
qed

text \<open>
  C9. No double allocation over any history: however a client that frees only what it holds
  interleaves \<^verbatim>\<open>pmm_alloc_order\<close> and \<^verbatim>\<open>pmm_free_order\<close> after boot, the blocks it holds are pairwise
  disjoint, lie in the zones, and together are not larger than them.
\<close>

theorem pmm_history_safe:
  assumes "pmm_inv st {}" and "\<forall>k. Alloc k \<in> set rs \<longrightarrow> k < MAX_ORDER"
    and "run_requests (\<lambda>st k. pmm_alloc_order st k GFP_CAN_FAIL) pmm_free_order rs st {} = Inr (st', A)"
  shows "(\<forall>b \<in> A. \<forall>c \<in> A. b \<noteq> c \<longrightarrow> block_pages b \<inter> block_pages c = {}) \<and>
         (\<forall>b \<in> A. block_pages b \<subseteq> all_pages (zone_list st)) \<and>
         (\<Sum>b \<in> A. 2 ^ snd b) \<le> card (all_pages (zone_list st))"
proof -
  have inv: "pmm_inv st' A" and ext: "all_pages (zone_list st') = all_pages (zone_list st)"
    using pmm.run_ok [OF assms(1), of rs] assms(2,3) by auto
  have "finite (all_pages (zone_list st'))" by (auto simp: zone_pages_def)
  from pmm.held_pages_bound(2) [OF inv this] show ?thesis
    unfolding ext using pmm.disjoint [OF inv] pmm.inside [OF inv] unfolding ext by blast
qed

fun result_blocks :: "(pmm \<times> block set) outcome \<Rightarrow> block set option" where
  "result_blocks (Inr (st, A)) = Some A"
| "result_blocks (Inl e) = None"

lemma result_blocks_Some: "result_blocks r = Some A \<longleftrightarrow> (\<exists>st. r = Inr (st, A))"
  by (cases r rule: result_blocks.cases) auto

theorem pmm_history_safe_witness:
  "\<exists>st st'. small_boot = Inr st \<and>
     run_requests (\<lambda>st k. pmm_alloc_order st k GFP_CAN_FAIL) pmm_free_order
       [Alloc 0, Alloc 0, Free 257 0, Alloc 0] st {} = Inr (st', {(257, 0), (258, 0)}) \<and>
     block_pages (257, 0) \<inter> block_pages (258, 0) = {}"
proof -
  let ?run = "\<lambda>st. run_requests (\<lambda>st k. pmm_alloc_order st k GFP_CAN_FAIL) pmm_free_order
       [Alloc 0, Alloc 0, Free 257 0, Alloc 0] st {}"
  obtain st where st: "small_boot = Inr st" "pmm_inv st {}" using boot_inv(1) by blast
  have "result_blocks (obind small_boot ?run) = Some {(257, 0), (258, 0)}"
    by (simp add: boot_eval) (auto simp: boot_eval call_eval)
  then obtain st' where run: "?run st = Inr (st', {(257, 0), (258, 0)})"
    unfolding st(1) obind.simps result_blocks_Some by blast
  then show ?thesis using st(1) pmm_history_safe [OF st(2) _ run] by (auto simp: MAX_ORDER_def)
qed

text \<open>
  The missing bound in \<^verbatim>\<open>__pmm_free_order\<close>: freeing a block of the highest order whose buddy is
  free, and not the head of its list, merges the two into a block of order \<^const>\<open>MAX_ORDER\<close>
  and indexes the list heads out of bounds.
\<close>

lemma pmm_free_overflow:
  assumes inv: "pmm_inv st A" and A: "(p, MAX_ORDER - 1) \<in> A"
    and z: "page_to_zone (zone_list st) p = Some i"
    and buddy: "is_page_free (page_data st) (zone_list st ! i) (page_buddy p (MAX_ORDER - 1))"
      "page_order (page_data st) (page_buddy p (MAX_ORDER - 1)) = of_nat (MAX_ORDER - 1)"
  shows "pmm_free_order st (Some p) (MAX_ORDER - 1) = Inl Out_of_bounds"
proof -
  let ?zs = "zone_list st" and ?pd = "page_data st" and ?k = "MAX_ORDER - 1" and ?B = "A - {(p, MAX_ORDER - 1)}"
  obtain FL where P: "pmm_parts ?zs ?pd FL A" using inv by (auto simp: pmm_inv_def)
  have P': "pmm_parts ?zs ?pd FL (insert (p, ?k) ?B)" using P A by (simp add: insert_absorb)
  have i: "i < length ?zs" "block_pages (p, ?k) \<subseteq> zone_pages (?zs ! i)"
    using held_zone [OF inv A] z by auto
  have "free_order_rec p ?k (?zs ! i) ?pd = Inl Out_of_bounds"
    using inv by (intro free_rec_overflow [OF P' _ _ i _ _ buddy]) (auto simp: pmm_inv_def MAX_ORDER_def)
  moreover have "unlinked ?pd p" using inv A by (auto simp: pmm_inv_def)
  ultimately show ?thesis using z by (simp add: pmm_free_order_def unlinked_def dlist_defs MAX_ORDER_def)
qed

lemma pmm_free_overflow_example:
  "\<exists>st st'. large_boot = Inr st \<and>
     run_requests (\<lambda>st k. pmm_alloc_order st k GFP_CAN_FAIL) pmm_free_order
       [Alloc 11, Alloc 11, Free 8192 11] st {} = Inr (st', {(6144, 11)}) \<and>
     pmm_free_order st' (Some 6144) 11 = Inl Out_of_bounds"
proof -
  let ?run = "\<lambda>st. run_requests (\<lambda>st k. pmm_alloc_order st k GFP_CAN_FAIL) pmm_free_order
       [Alloc 11, Alloc 11, Free 8192 11] st {}"
  let ?chk = "\<lambda>st. page_to_zone (zone_list st) 6144 = Some 0 \<and>
      is_page_free (page_data st) (zone_list st ! 0) (page_buddy 6144 11) \<and>
      page_order (page_data st) (page_buddy 6144 11) = 11"
  obtain st where st: "large_boot = Inr st" "pmm_inv st {}" using boot_inv(2) by blast
  have "result_blocks (obind large_boot ?run) = Some {(6144, 11)}"
    by (simp add: boot_eval) (auto simp: boot_eval call_eval)
  then obtain st' where run: "?run st = Inr (st', {(6144, 11)})"
    unfolding st(1) obind.simps result_blocks_Some by blast
  have "obind (obind large_boot ?run) (\<lambda>(st, A). Inr (?chk st)) = Inr True"
    by (simp add: boot_eval) (simp add: boot_eval call_eval nth_list_update)
  then have chk: "?chk st'" unfolding st(1) obind.simps run prod.case by simp
  have inv: "pmm_inv st' {(6144, 11)}"
    using pmm.run_ok [OF st(2), of "[Alloc 11, Alloc 11, Free 8192 11]"] run by (simp add: MAX_ORDER_def)
  have "pmm_free_order st' (Some 6144) 11 = Inl Out_of_bounds"
    using chk pmm_free_overflow [OF inv, of 6144 0] by (simp add: MAX_ORDER_def)
  with st(1) run show ?thesis by blast
qed

text \<open>
  The zone built from a region ends at the end of the region plus the size of the zone
  header, rounded down to a page: it reaches past the region, by at most the 120 bytes of the
  header, exactly when the region ends in the last 120 bytes of a page.
\<close>

lemma init_zone_overrun:
  assumes "region_ok rg" and "init_zone rg pd = Inr (Some z, pd')"
  shows "zone_end z \<le> unat (rg_base rg) + unat (rg_len rg) + 120 \<and>
         (zone_end z > unat (rg_base rg) + unat (rg_len rg) \<longleftrightarrow>
          (unat (rg_base rg) + unat (rg_len rg)) mod 4096 \<ge> 3976)"
proof -
  define x where "x = unat (rg_base rg) + unat (rg_len rg)"
  define q r e where "q = x div 4096" and "r = x mod 4096" and "e = (x + 120) div 4096"
  have x: "x = 4096 * q + r" "r < 4096" by (simp_all add: q_def r_def)
  have e: "4096 * e \<le> x + 120" "x + 120 < 4096 * e + 4096"
    unfolding e_def using dividend_less_times_div [of 4096 "x + 120"] by simp_all
  have "4096 * e > x \<longleftrightarrow> r \<ge> 3976"
  proof (cases "e \<le> q")
    case True
    then have "\<not> x < 4096 * e" "\<not> 3976 \<le> r" using x e by linarith+
    then show ?thesis by simp
  next
    case False
    then have "q + 1 \<le> e" by simp
    then have "x < 4096 * e" "3976 \<le> r" using x e by linarith+
    then show ?thesis by simp
  qed
  with e(1) have "4096 * e \<le> x + 120 \<and> (4096 * e > x \<longleftrightarrow> r \<ge> 3976)" by blast
  then show ?thesis unfolding init_zone_end [OF assms] e_def r_def x_def by simp
qed

lemma init_zone_overrun_example:
  "\<exists>z pd. init_zone \<lparr>rg_base = 0x100000, rg_len = 0x4FA0, rg_flags = MMAP_NONE\<rparr>
            (page_data (empty_pmm (\<lambda>_. 0) (\<lambda>_. 0))) = Inr (Some z, pd) \<and> zone_end z > 0x104FA0"
proof -
  let ?rg = "\<lparr>rg_base = 0x100000, rg_len = 0x4FA0, rg_flags = MMAP_NONE\<rparr>"
  let ?pd = "page_data (empty_pmm (\<lambda>_. 0) (\<lambda>_. 0))"
  have ok: "region_ok ?rg" by (simp add: region_ok_def)
  obtain z pd where z: "init_zone ?rg ?pd = Inr (Some z, pd)"
    by (simp add: boot_eval)
  then show ?thesis using init_zone_overrun [OF ok z] by auto
qed

end
