(* ===== verification/Mmap_Correct.thy ===== *)
theory Mmap_Correct
  imports Mmap
begin

text \<open>
  The memory map keeps its arrays sorted, disjoint and coalesced: \<open>spaced\<close>.  Insertion is
  compared with its structural description \<open>place\<close>; allocation takes its range out of one
  available region.
\<close>

section \<open>Sets of bytes\<close>

definition rg_end :: "mmap_region \<Rightarrow> nat" where
  "rg_end r = unat (rg_base r) + unat (rg_len r)"

definition rg_span :: "mmap_region \<Rightarrow> nat set" where
  "rg_span r = {unat (rg_base r) ..< rg_end r}"

definition covered :: "mmap_region list \<Rightarrow> nat set" where
  "covered rs = (\<Union>r \<in> set rs. rg_span r)"

fun spaced :: "mmap_region list \<Rightarrow> bool" where
  "spaced [] \<longleftrightarrow> True"
| "spaced (r # rs) \<longleftrightarrow> 0 < rg_len r \<and> rg_end r < 2 ^ 64 \<and> (\<forall>s \<in> set rs. rg_end r < unat (rg_base s)) \<and> spaced rs"

lemma covered_simps [simp]:
  "covered [] = {}" "covered (r # rs) = rg_span r \<union> covered rs" "covered (rs @ ss) = covered rs \<union> covered ss"
  by (auto simp: covered_def)

lemma spaced_append:
  "spaced (rs @ ss) \<longleftrightarrow> spaced rs \<and> spaced ss \<and> (\<forall>r \<in> set rs. \<forall>s \<in> set ss. rg_end r < unat (rg_base s))"
  by (induction rs) auto

lemma spaced_member: "spaced rs \<Longrightarrow> r \<in> set rs \<Longrightarrow> 0 < unat (rg_len r) \<and> rg_end r < 2 ^ 64"
  by (induction rs) (auto simp: unat_gt_0)

lemma len_pos: "0 < (w::u64) \<longleftrightarrow> 0 < unat w"
  by (simp add: word_less_nat_alt)

section \<open>Insertion\<close>

definition new_region :: "u64 \<Rightarrow> u64 \<Rightarrow> mmap_region_flags \<Rightarrow> mmap_region" where
  "new_region addr len flags = \<lparr>rg_base = addr, rg_len = len, rg_flags = flags\<rparr>"

text \<open>The range to insert does not touch the byte before a region unless it also touches one from above.\<close>

definition insertable :: "mmap_region list \<Rightarrow> u64 \<Rightarrow> u64 \<Rightarrow> bool" where
  "insertable rs addr len \<longleftrightarrow>
     0 < len \<and> unat addr + unat len < 2 ^ 64 \<and>
     {unat addr ..< unat addr + unat len} \<inter> covered rs = {} \<and>
     ((\<exists>r \<in> set rs. unat (rg_base r) = unat addr + unat len) \<longrightarrow> (\<exists>r \<in> set rs. rg_end r = unat addr))"

fun place :: "u64 \<Rightarrow> u64 \<Rightarrow> mmap_region_flags \<Rightarrow> mmap_region list \<Rightarrow> mmap_region list" where
  "place addr len flags [] = [new_region addr len flags]"
| "place addr len flags (r # rs) =
     (if unat addr < unat (rg_base r) then new_region addr len flags # r # rs
      else if rg_end r = unat addr then
        (case rs of
           [] \<Rightarrow> [r\<lparr>rg_len := rg_len r + len\<rparr>]
         | s # ss \<Rightarrow>
            if unat (rg_base s) = unat addr + unat len
            then r\<lparr>rg_len := rg_len r + len + rg_len s\<rparr> # ss
            else r\<lparr>rg_len := rg_len r + len\<rparr> # rs)
      else r # place addr len flags rs)"

lemma apart_cases:
  assumes "{a ..< a + l} \<inter> rg_span r = {}" "0 < l" "0 < unat (rg_len r)"
  shows "a + l \<le> unat (rg_base r) \<or> rg_end r \<le> a"
proof (rule ccontr)
  assume "\<not> ?thesis"
  then have "max a (unat (rg_base r)) \<in> {a ..< a + l} \<inter> rg_span r"
    using assms(2,3) by (auto simp: rg_span_def rg_end_def max_def)
  then show False using assms(1) by blast
qed

lemma span_apart:
  "a + l \<le> unat (rg_base r) \<or> rg_end r \<le> a \<Longrightarrow> {a ..< a + l} \<inter> rg_span r = {}"
  by (auto simp: rg_span_def)

lemma no_overlap_assert:
  assumes "rg_end r \<le> unat addr" "rg_end r < 2 ^ 64" "0 < unat (rg_len r)"
  shows "\<not> overlap_assert addr len r"
  using assms by (auto simp: overlap_assert_def WITHIN_def word_le_nat_alt word_less_nat_alt nowrap rg_end_def)

lemma insert_loop_place:
  assumes "spaced (ps @ qs)" "insertable (ps @ qs) addr len"
    and "\<forall>p \<in> set ps. rg_end p < unat addr"
  shows "mmap_insert_loop addr len flags (length ps) (ps @ qs) =
    (if length (ps @ qs) = MMAP_MAX_REGIONS \<and> length qs < length (place addr len flags qs) then Inl Panic
     else Inr (ps @ place addr len flags qs))"
  using assms
proof (induction qs arbitrary: ps)
  case Nil
  then show ?case by (simp add: mmap_insert_loop.simps new_region_def)
next
  case (Cons r qs)
  let ?a = "unat addr" and ?l = "unat len"
  have I: "0 < ?l" "?a + ?l < 2 ^ 64" "{?a ..< ?a + ?l} \<inter> rg_span r = {}"
    using Cons.prems(2) by (auto simp: insertable_def len_pos)
  have r: "0 < unat (rg_len r)" "rg_end r < 2 ^ 64" "spaced qs" "\<forall>s \<in> set qs. rg_end r < unat (rg_base s)"
    using Cons.prems(1) by (auto simp: spaced_append len_pos)
  have w: "unat (addr + len) = ?a + ?l" "unat (rg_base r + rg_len r) = rg_end r"
    using I(2) r(2) by (simp_all add: nowrap rg_end_def)
  have eq: "addr + len = x \<longleftrightarrow> ?a + ?l = unat x" "rg_base r + rg_len r = y \<longleftrightarrow> rg_end r = unat y" for x y
    using w by (metis unsigned_word_eqI)+
  have lt: "addr + len < x \<longleftrightarrow> ?a + ?l < unat x" for x using w(1) by (simp add: word_less_nat_alt)
  note step = mmap_insert_loop.simps [of addr len flags "length ps" "ps @ r # qs"]
  consider "?a + ?l \<le> unat (rg_base r)" | "rg_end r = ?a" | "rg_end r < ?a"
    using apart_cases [OF I(3) I(1) r(1)] by linarith
  then show ?case
  proof cases
    case 1
    have "?a + ?l \<noteq> unat (rg_base r)"
    proof
      assume e: "?a + ?l = unat (rg_base r)"
      then obtain s where "s \<in> set (ps @ r # qs)" "rg_end s = ?a"
        using Cons.prems(2) by (auto simp: insertable_def)
      then consider "s \<in> set ps" | "s = r" | "s \<in> set qs" by auto
      then show False
        using Cons.prems(3) \<open>rg_end s = ?a\<close> r(1,4) e by cases (auto simp: rg_end_def)
    qed
    then show ?thesis using 1 I(1) unfolding step
      by (simp add: eq lt new_region_def)
  next
    case 2
    then have b: "unat (rg_base r) \<le> ?a" by (simp add: rg_end_def)
    show ?thesis
    proof (cases qs)
      case Nil
      then show ?thesis using 2 b I(1) unfolding step by (simp add: eq lt)
    next
      case (Cons s ss)
      then show ?thesis using 2 b I(1) unfolding step
        by (simp add: eq lt mmap_delete_region_def nth_append list_update_append add.assoc)
    qed
  next
    case 3
    then have b: "unat (rg_base r) < ?a" by (simp add: rg_end_def)
    have "mmap_insert_loop addr len flags (length ps) (ps @ r # qs) =
        mmap_insert_loop addr len flags (length (ps @ [r])) ((ps @ [r]) @ qs)"
      using 3 b no_overlap_assert [of r addr len] r(1,2) unfolding step by (simp add: eq lt)
    also have "\<dots> = (if length ((ps @ [r]) @ qs) = MMAP_MAX_REGIONS \<and> length qs < length (place addr len flags qs) then Inl Panic
        else Inr ((ps @ [r]) @ place addr len flags qs))"
      using Cons.prems 3 by (intro Cons.IH) auto
    finally show ?thesis using 3 b by simp
  qed
qed

lemma insertable_tail:
  assumes "insertable (r # rs) addr len" "rg_end r \<noteq> unat addr"
  shows "insertable rs addr len"
  using assms by (auto simp: insertable_def)

lemma insertable_strict:
  assumes "insertable (r # rs) addr len" "spaced (r # rs)" "unat addr < unat (rg_base r)"
  shows "unat addr + unat len < unat (rg_base r)"
proof -
  have "{unat addr ..< unat addr + unat len} \<inter> rg_span r = {}" "0 < unat len" "0 < unat (rg_len r)"
    using assms(1,2) by (auto simp: insertable_def len_pos)
  then have "unat addr + unat len \<le> unat (rg_base r)"
    using apart_cases [of "unat addr" "unat len" r] assms(3) by (auto simp: rg_end_def)
  moreover have "unat addr + unat len \<noteq> unat (rg_base r)"
  proof
    assume "unat addr + unat len = unat (rg_base r)"
    then obtain s where "s \<in> set (r # rs)" "rg_end s = unat addr"
      using assms(1) by (auto simp: insertable_def)
    then show False using assms(2,3) by (auto simp: rg_end_def)
  qed
  ultimately show ?thesis by simp
qed

lemma place_base: "rg_base ` set (place addr len flags rs) \<subseteq> insert addr (rg_base ` set rs)"
proof (induction rs)
  case (Cons r rs)
  show ?case
  proof (cases "unat addr < unat (rg_base r) \<or> rg_end r = unat addr")
    case True
    then show ?thesis by (cases rs) (auto simp: new_region_def)
  next
    case False
    then have "place addr len flags (r # rs) = r # place addr len flags rs" by simp
    then show ?thesis using Cons by (simp only: list.set image_insert) blast
  qed
qed (simp add: new_region_def)

text \<open>A region that grows at its end by \<open>m\<close> bytes.\<close>

lemma grow_span:
  assumes "unat (rg_base r) + unat (rg_len r) + unat m < 2 ^ 64"
  shows "rg_end (r\<lparr>rg_len := rg_len r + m\<rparr>) = rg_end r + unat m"
    and "rg_span (r\<lparr>rg_len := rg_len r + m\<rparr>) = rg_span r \<union> {rg_end r ..< rg_end r + unat m}"
proof -
  show e: "rg_end (r\<lparr>rg_len := rg_len r + m\<rparr>) = rg_end r + unat m"
    using assms by (simp add: rg_end_def nowrap)
  show "rg_span (r\<lparr>rg_len := rg_len r + m\<rparr>) = rg_span r \<union> {rg_end r ..< rg_end r + unat m}"
    unfolding rg_span_def e by (auto simp: rg_end_def)
qed

lemma merge_ok:
  assumes sp: "spaced (r # rs)" and ins: "insertable (r # rs) addr len" and e: "rg_end r = unat addr"
  shows "spaced (place addr len flags (r # rs)) \<and>
         covered (place addr len flags (r # rs)) = covered (r # rs) \<union> {unat addr ..< unat addr + unat len}"
proof -
  let ?a = "unat addr" and ?l = "unat len" and ?r1 = "r\<lparr>rg_len := rg_len r + len\<rparr>"
  have I: "0 < ?l" "?a + ?l < 2 ^ 64" "{?a ..< ?a + ?l} \<inter> covered rs = {}"
    using ins by (auto simp: insertable_def len_pos)
  have base: "\<not> ?a < unat (rg_base r)" using e by (simp add: rg_end_def)
  have b: "unat (rg_base r) + unat (rg_len r) + ?l < 2 ^ 64" using e I(2) by (simp add: rg_end_def)
  have g1: "rg_end ?r1 = ?a + ?l" "rg_span ?r1 = rg_span r \<union> {?a ..< ?a + ?l}"
    using grow_span [OF b] e by simp_all
  have p1: "0 < rg_len ?r1" using b I(1) by (simp add: len_pos nowrap)
  show ?thesis
  proof (cases rs)
    case Nil
    then show ?thesis using base e g1 p1 I(2) by auto
  next
    case (Cons s ss)
    have s: "rg_end s < 2 ^ 64" "\<forall>u \<in> set ss. rg_end s < unat (rg_base u)" "spaced ss" "0 < unat (rg_len s)"
      "?a < unat (rg_base s)" using sp Cons e by (auto simp: len_pos)
    show ?thesis
    proof (cases "unat (rg_base s) = ?a + ?l")
      case True
      have b2: "unat (rg_base ?r1) + unat (rg_len ?r1) + unat (rg_len s) < 2 ^ 64"
        using True s(1) g1(1) by (simp add: rg_end_def)
      have g2: "rg_end (r\<lparr>rg_len := rg_len r + len + rg_len s\<rparr>) = rg_end s"
        "rg_span (r\<lparr>rg_len := rg_len r + len + rg_len s\<rparr>) = rg_span r \<union> {?a ..< ?a + ?l} \<union> rg_span s"
        using grow_span [OF b2] g1 True by (simp_all add: rg_end_def [of s] rg_span_def [of s])
      have "0 < rg_len r + len + rg_len s" using b2 s(4) by (simp add: len_pos nowrap)
      then show ?thesis using base e True Cons s(1-3) g2 by auto
    next
      case False
      have "{?a ..< ?a + ?l} \<inter> rg_span s = {}" using I(3) Cons by auto
      then have "?a + ?l < unat (rg_base s)"
        using apart_cases [of ?a ?l s] I(1) s(4,5) False by (auto simp: rg_end_def)
      then show ?thesis using base e False Cons s g1 p1 I(2) by (auto simp: rg_end_def len_pos)
    qed
  qed
qed

lemma place_ok:
  assumes "spaced rs" "insertable rs addr len"
  shows "spaced (place addr len flags rs) \<and>
         covered (place addr len flags rs) = covered rs \<union> {unat addr ..< unat addr + unat len}"
  using assms
proof (induction rs)
  case Nil
  then show ?case by (auto simp: new_region_def rg_end_def rg_span_def insertable_def)
next
  case (Cons r rs)
  let ?a = "unat addr" and ?l = "unat len" and ?n = "new_region addr len flags"
  have I: "0 < len" "0 < ?l" "?a + ?l < 2 ^ 64" "{?a ..< ?a + ?l} \<inter> rg_span r = {}"
    using Cons.prems(2) by (auto simp: insertable_def len_pos)
  have r: "0 < rg_len r" "rg_end r < 2 ^ 64" "spaced rs" "\<forall>s \<in> set rs. rg_end r < unat (rg_base s)"
    using Cons.prems(1) by auto
  consider "?a < unat (rg_base r)" | "rg_end r = ?a" | "unat (rg_base r) \<le> ?a" "rg_end r \<noteq> ?a" by linarith
  then show ?case
  proof cases
    case 1
    have "rg_end ?n = ?a + ?l" "rg_span ?n = {?a ..< ?a + ?l}" "rg_len ?n = len"
      by (auto simp: new_region_def rg_end_def rg_span_def)
    then show ?thesis
      using 1 r I insertable_strict [OF Cons.prems(2,1) 1] by (auto simp: rg_end_def)
  next
    case 2
    show ?thesis by (rule merge_ok [OF Cons.prems 2])
  next
    case 3
    have "rg_end r < ?a" using apart_cases [OF I(4) I(2)] r(1) 3 I(2) by (auto simp: len_pos)
    moreover have "spaced (place addr len flags rs)"
      "covered (place addr len flags rs) = covered rs \<union> {?a ..< ?a + ?l}"
      using Cons.IH r(3) insertable_tail [OF Cons.prems(2) 3(2)] by auto
    ultimately show ?thesis using 3 r place_base [of addr len flags rs] by auto
  qed
qed

lemma place_length: "length (place addr len flags rs) \<le> Suc (length rs)"
  by (induction rs) (auto split: list.splits)

lemma insert_any:
  assumes "spaced rs" "len = 0 \<or> insertable rs addr len" "length rs \<le> MMAP_MAX_REGIONS"
  shows "mmap_insert_region rs addr len flags = Inl Panic \<and> length rs = MMAP_MAX_REGIONS \<or>
    (\<exists>rs'. mmap_insert_region rs addr len flags = Inr rs' \<and> spaced rs' \<and>
       covered rs' = covered rs \<union> {unat addr ..< unat addr + unat len} \<and>
       length rs' \<le> min MMAP_MAX_REGIONS (Suc (length rs)) \<and> rg_base ` set rs' \<subseteq> insert addr (rg_base ` set rs))"
proof (cases "len = 0")
  case True
  then show ?thesis using assms by (auto simp: mmap_insert_region_def)
next
  case False
  then have ins: "insertable rs addr len" using assms(2) by simp
  have "mmap_insert_region rs addr len flags =
      (if length rs = MMAP_MAX_REGIONS \<and> length rs < length (place addr len flags rs) then Inl Panic
       else Inr (place addr len flags rs))"
    using insert_loop_place [of "[]" rs addr len flags] assms(1,3) ins False
    by (simp add: mmap_insert_region_def)
  then show ?thesis
    using place_ok [OF assms(1) ins, of flags] place_length [of addr len flags rs] place_base [of addr len flags rs] assms(3)
    by auto
qed

lemma insert_ok:
  assumes "spaced rs" "len = 0 \<or> insertable rs addr len" "length rs < MMAP_MAX_REGIONS"
  shows "\<exists>rs'. mmap_insert_region rs addr len flags = Inr rs' \<and> spaced rs' \<and>
           covered rs' = covered rs \<union> {unat addr ..< unat addr + unat len} \<and>
           length rs' \<le> Suc (length rs) \<and> rg_base ` set rs' \<subseteq> insert addr (rg_base ` set rs)"
  using insert_any [OF assms(1,2)] assms(3) by auto

section \<open>Allocation\<close>

definition alloc_start :: "u32 \<Rightarrow> mmap_region \<Rightarrow> u64" where
  "alloc_start alloc_flags r =
     (if alloc_flags AND MMAP_ALLOC_PA \<noteq> 0 then ALIGNUP (rg_base r) PAGE_SIZE else rg_base r)"

definition fits :: "mmap \<Rightarrow> u64 \<Rightarrow> u32 \<Rightarrow> mmap_region \<Rightarrow> bool" where
  "fits m n alloc_flags r \<longleftrightarrow>
     rg_base r < highest_mapped m \<and>
     unat (alloc_start alloc_flags r) + unat n \<le> min (unat (highest_mapped m)) (rg_end r)"

text \<open>The start of an allocation in a region does not lie behind the region or the mapped memory.\<close>

definition reaches_page :: "mmap \<Rightarrow> u32 \<Rightarrow> mmap_region \<Rightarrow> bool" where
  "reaches_page m alloc_flags r \<longleftrightarrow>
     unat (rg_base r) \<le> unat (alloc_start alloc_flags r) \<and>
     unat (alloc_start alloc_flags r) \<le> min (unat (highest_mapped m)) (rg_end r)"

lemma alignup_page:
  assumes "rg_base r < highest_mapped m" "4096 dvd unat (highest_mapped m)"
  shows "unat (rg_base r) \<le> unat (alloc_start alloc_flags r)"
    "unat (alloc_start alloc_flags r) \<le> unat (highest_mapped m)"
    "unat (alloc_start alloc_flags r) < unat (rg_base r) + 4096"
    "alloc_flags AND MMAP_ALLOC_PA \<noteq> 0 \<Longrightarrow> 4096 dvd unat (alloc_start alloc_flags r)"
proof -
  let ?b = "unat (rg_base r)" and ?h = "unat (highest_mapped m)"
  have lt: "?b < ?h" using assms(1) by (simp add: word_less_nat_alt)
  obtain k where k: "?h = 4096 * k" using assms(2) by blast
  have "?b + 4095 < 2 ^ 64"
  proof -
    have "4096 * k < 4096 * 2 ^ 52" using k unat_u64_lt [of "highest_mapped m"] by simp
    then have "k < 2 ^ 52" by linarith
    then have "4096 * k \<le> 2 ^ 64 - 4096" by simp
    then show ?thesis using lt k by simp
  qed
  then have al: "unat (ALIGNUP (rg_base r) PAGE_SIZE) = (?b + 4095) div 4096 * 4096"
    using unat_ALIGNUP [of "rg_base r" 12] by (simp add: PAGE_SIZE_def)
  show "?b \<le> unat (alloc_start alloc_flags r)" "unat (alloc_start alloc_flags r) \<le> ?h"
    "unat (alloc_start alloc_flags r) < ?b + 4096"
    "alloc_flags AND MMAP_ALLOC_PA \<noteq> 0 \<Longrightarrow> 4096 dvd unat (alloc_start alloc_flags r)"
    using lt k by (auto simp: alloc_start_def al)
qed

text \<open>Regions around a hole between \<open>lo\<close> and \<open>hi\<close>.\<close>

definition around :: "mmap_region list \<Rightarrow> nat \<Rightarrow> nat \<Rightarrow> bool" where
  "around rs lo hi \<longleftrightarrow> (\<forall>s \<in> set rs. rg_end s < lo \<or> hi < unat (rg_base s))"

lemma around_insertable:
  assumes "around rs lo hi" "lo \<le> unat addr" "unat addr + unat len \<le> hi" "hi < 2 ^ 64" "0 < len"
  shows "insertable rs addr len"
  using assms by (fastforce simp: insertable_def around_def covered_def rg_span_def rg_end_def)

lemma spaced_delete:
  assumes "spaced (ps @ r # qs)"
  shows "spaced (ps @ qs)" "around (ps @ qs) (unat (rg_base r)) (rg_end r)"
    "covered (ps @ qs) = covered (ps @ r # qs) - rg_span r"
proof -
  show sp: "spaced (ps @ qs)" using assms by (auto simp: spaced_append)
  show ar: "around (ps @ qs) (unat (rg_base r)) (rg_end r)"
    using assms by (auto simp: spaced_append around_def)
  have "rg_span s \<inter> rg_span r = {}" if "s \<in> set (ps @ qs)" for s
  proof -
    have "rg_end s < unat (rg_base r) \<or> rg_end r < unat (rg_base s)" using ar that unfolding around_def by blast
    then show ?thesis by (auto simp: rg_span_def)
  qed
  then show "covered (ps @ qs) = covered (ps @ r # qs) - rg_span r" by (fastforce simp: covered_def)
qed

text \<open>The first part of the split: the region goes, the bytes below the allocation come back.\<close>

lemma take_padding:
  assumes av: "spaced (ps @ r # qs)" "length (ps @ r # qs) < MMAP_MAX_REGIONS"
    and eb: "unat (rg_base r) \<le> unat eb" "unat eb \<le> rg_end r" "pa \<or> eb = rg_base r"
  shows "\<exists>av2. (if pa then mmap_insert_region (ps @ qs) (rg_base r) (eb - rg_base r) flags else Inr (ps @ qs)) = Inr av2 \<and>
           spaced av2 \<and> covered av2 = covered (ps @ qs) \<union> {unat (rg_base r) ..< unat eb} \<and>
           length av2 < MMAP_MAX_REGIONS \<and> rg_base ` set av2 \<subseteq> insert (rg_base r) (rg_base ` set (ps @ qs))"
proof (cases pa)
  case True
  note d = spaced_delete [OF av(1)]
  have "rg_end r < 2 ^ 64" using spaced_member [OF av(1), of r] by simp
  moreover have pad: "unat (eb - rg_base r) = unat eb - unat (rg_base r)" using eb(1) by (simp add: nowrap word_le_nat_alt)
  ultimately have "eb - rg_base r = 0 \<or> insertable (ps @ qs) (rg_base r) (eb - rg_base r)"
    using around_insertable [OF d(2), of "rg_base r" "eb - rg_base r"] eb(1,2)
    by (cases "eb - rg_base r = 0") (simp_all add: word_gt_0)
  moreover have "length (ps @ qs) < MMAP_MAX_REGIONS" using av(2) by simp
  ultimately show ?thesis
    using insert_ok [OF d(1), of "eb - rg_base r" "rg_base r" flags] pad eb(1) av(2) True by auto
next
  case False
  then show ?thesis using eb(3) spaced_delete(1) [OF av(1)] av(2) by auto
qed

text \<open>The last part: the bytes above the allocation come back.\<close>

lemma take_rest:
  assumes av: "spaced (ps @ r # qs)" "rg_end r < 2 ^ 64"
    and av2: "spaced av2" "covered av2 = covered (ps @ qs) \<union> {unat (rg_base r) ..< e}" "length av2 < MMAP_MAX_REGIONS"
      "rg_base ` set av2 \<subseteq> insert (rg_base r) (rg_base ` set (ps @ qs))"
    and new: "unat (rg_base r) \<le> e" "e < unat new" "unat new + unat rest \<le> rg_end r"
  shows "\<exists>av3. (if rest > 0 then mmap_insert_region av2 new rest flags else Inr av2) = Inr av3 \<and>
           spaced av3 \<and> covered av3 = covered av2 \<union> {unat new ..< unat new + unat rest}"
proof (cases "rest > 0")
  case True
  note d = spaced_delete [OF av(1)]
  have ins: "insertable (ps @ qs) new rest" using d(2) new av(2) True by (auto intro: around_insertable)
  have "unat (rg_base s) \<noteq> unat new + unat rest" if "s \<in> set av2" for s
  proof -
    have "rg_base s = rg_base r \<or> (\<exists>u \<in> set (ps @ qs). rg_base s = rg_base u)" using av2(4) that by blast
    then show ?thesis
    proof
      assume "\<exists>u \<in> set (ps @ qs). rg_base s = rg_base u"
      then obtain u where u: "u \<in> set (ps @ qs)" "rg_base s = rg_base u" by blast
      have "rg_end u < unat (rg_base r) \<or> rg_end r < unat (rg_base u)" using d(2) u(1) unfolding around_def by blast
      then show ?thesis using u(2) new by (auto simp: rg_end_def)
    qed (use new in auto)
  qed
  then have "insertable av2 new rest" using ins new av2(2) by (auto simp: insertable_def)
  then show ?thesis using insert_ok [OF av2(1) _ av2(3), of rest new flags] True by auto
qed (use av2 in \<open>simp add: len_pos\<close>)

lemma carve:
  fixes C :: "nat set"
  assumes "C \<inter> {b ..< h} = {}" "b \<le> e" "e + n \<le> t" "t \<le> h"
  shows "C \<union> {b ..< e} \<union> {e + n ..< t} = C \<union> {b ..< h} - {e ..< e + n} - {t ..< h}"
  using assms by auto

lemma mmap_take_ok:
  assumes av: "available m = ps @ r # qs" "spaced (available m)" "length (available m) < MMAP_MAX_REGIONS"
    and rv: "spaced (reserved m)" "length (reserved m) < MMAP_MAX_REGIONS" "insertable (reserved m) eb n"
    and eb: "unat (rg_base r) \<le> unat eb" "0 < eb" "pa \<or> eb = rg_base r" and n: "0 < n"
    and top: "unat eb + unat bytes \<le> rg_end r" "unat n \<le> unat bytes"
  shows "\<exists>m'. mmap_take m (length ps) n eb bytes pa = Inr (new_region eb n (rg_flags r), m') \<and>
           highest_mapped m' = highest_mapped m \<and> spaced (available m') \<and> spaced (reserved m') \<and>
           covered (available m') =
             covered (available m) - {unat eb ..< unat eb + unat n} - {unat eb + unat bytes ..< rg_end r} \<and>
           covered (reserved m') = covered (reserved m) \<union> {unat eb ..< unat eb + unat n}"
proof -
  let ?b = "unat (rg_base r)" and ?e = "unat eb" and ?n = "unat n" and ?flags = "slot_flags (ps @ qs) (length ps) r"
  have sp: "spaced (ps @ r # qs)" and len: "length (ps @ r # qs) < MMAP_MAX_REGIONS" using av by simp_all
  have re: "rg_end r < 2 ^ 64" using spaced_member [OF sp, of r] by simp
  have n0: "0 < ?n" using n by (simp add: len_pos)
  obtain av2 where a2: "(if pa then mmap_insert_region (ps @ qs) (rg_base r) (eb - rg_base r) ?flags else Inr (ps @ qs)) = Inr av2"
    "spaced av2" "covered av2 = covered (ps @ qs) \<union> {?b ..< ?e}" "length av2 < MMAP_MAX_REGIONS"
    "rg_base ` set av2 \<subseteq> insert (rg_base r) (rg_base ` set (ps @ qs))"
    using take_padding [OF sp len eb(1) _ eb(3), of ?flags] top by auto
  have w: "unat (eb + n) = ?e + ?n" "unat (bytes - n) = unat bytes - ?n" using top re by (simp_all add: nowrap word_le_nat_alt)
  let ?rest = "bytes - n" and ?flags2 = "slot_flags av2 (length ps) r"
  obtain av3 where a3: "(if ?rest > 0 then mmap_insert_region av2 (eb + n) ?rest ?flags2 else Inr av2) = Inr av3"
    "spaced av3" "covered av3 = covered av2 \<union> {?e + ?n ..< ?e + unat bytes}"
    using take_rest [OF sp re a2(2-5) eb(1), of "eb + n" ?rest ?flags2] w n0 top by auto
  obtain rv' where r3: "mmap_insert_region (reserved m) eb n (rg_flags r) = Inr rv'" "spaced rv'"
    "covered rv' = covered (reserved m) \<union> {?e ..< ?e + ?n}"
    using insert_ok [OF rv(1) disjI2 [OF rv(3)] rv(2), of "rg_flags r"] by auto
  have "mmap_take m (length ps) n eb bytes pa = Inr (new_region eb n (rg_flags r), m\<lparr>available := av3, reserved := rv'\<rparr>)"
    using a2(1) a3(1) r3(1) eb(2) n unfolding mmap_take_def
    by (simp add: Let_def av(1) mmap_delete_region_def new_region_def del: if_split)
  moreover have "covered av3 = covered (available m) - {?e ..< ?e + ?n} - {?e + unat bytes ..< rg_end r}"
  proof -
    have "covered (available m) = covered (ps @ qs) \<union> rg_span r" using av(1) by auto
    moreover have "covered (ps @ qs) \<inter> rg_span r = {}" using spaced_delete(3) [OF sp] by auto
    ultimately show ?thesis
      unfolding a3(3) a2(3) rg_span_def using eb(1) top by (simp only: carve)
  qed
  ultimately show ?thesis using a3(2) r3(2,3) by auto
qed

definition usable_bytes :: "mmap \<Rightarrow> u32 \<Rightarrow> mmap_region \<Rightarrow> u64" where
  "usable_bytes m flags r =
     min (highest_mapped m - alloc_start flags r) (rg_len r - (alloc_start flags r - rg_base r))"

text \<open>The outcome of an allocation from region \<open>r\<close>.\<close>

definition taken_from :: "mmap \<Rightarrow> u64 \<Rightarrow> u32 \<Rightarrow> mmap_region \<Rightarrow> (mmap_region \<times> mmap) outcome \<Rightarrow> bool" where
  "taken_from m n flags r out \<longleftrightarrow>
     (\<exists>m'. out = Inr (new_region (alloc_start flags r) n (rg_flags r), m') \<and>
      highest_mapped m' = highest_mapped m \<and> spaced (available m') \<and> spaced (reserved m') \<and>
      covered (available m') = covered (available m)
        - {unat (alloc_start flags r) ..< unat (alloc_start flags r) + unat n}
        - {min (unat (highest_mapped m)) (rg_end r) ..< rg_end r} \<and>
      covered (reserved m') = covered (reserved m) \<union> {unat (alloc_start flags r) ..< unat (alloc_start flags r) + unat n})"

lemma alloc_loop_step:
  assumes "available m = ps @ r # qs"
  shows "mmap_alloc_loop m n flags (length ps) =
    (if rg_base r \<ge> highest_mapped m then Inl Panic
     else if n \<le> usable_bytes m flags r
     then mmap_take m (length ps) n (alloc_start flags r) (usable_bytes m flags r) (flags AND MMAP_ALLOC_PA \<noteq> 0)
     else mmap_alloc_loop m n flags (length (ps @ [r])))"
  by (subst mmap_alloc_loop.simps) (auto simp: assms Let_def alloc_start_def usable_bytes_def)

lemma usable_bytes_eq:
  assumes "reaches_page m flags r" "rg_end r < 2 ^ 64"
  shows "unat (usable_bytes m flags r) = min (unat (highest_mapped m)) (rg_end r) - unat (alloc_start flags r)"
proof -
  let ?eb = "alloc_start flags r"
  have r: "unat (rg_base r) \<le> unat ?eb" "unat ?eb \<le> unat (highest_mapped m)" "unat ?eb \<le> rg_end r"
    using assms(1) by (auto simp: reaches_page_def)
  have 1: "unat (highest_mapped m - ?eb) = unat (highest_mapped m) - unat ?eb"
    using r by (simp add: nowrap word_le_nat_alt)
  have 2: "unat (?eb - rg_base r) = unat ?eb - unat (rg_base r)" using r by (simp add: nowrap word_le_nat_alt)
  then have "?eb - rg_base r \<le> rg_len r" using r by (simp add: word_le_nat_alt rg_end_def)
  then have 3: "unat (rg_len r - (?eb - rg_base r)) = rg_end r - unat ?eb"
    using 2 r by (simp add: nowrap rg_end_def)
  show ?thesis unfolding usable_bytes_def min_def word_le_nat_alt using 1 3 r by auto
qed

lemma alloc_loop_ok:
  assumes av: "available m = ps @ qs" "spaced (available m)" "length (available m) < MMAP_MAX_REGIONS"
    and rv: "spaced (reserved m)" "length (reserved m) < MMAP_MAX_REGIONS" and n: "0 < n"
    and ok: "\<forall>r \<in> set qs. 0 < rg_base r \<and> (rg_base r < highest_mapped m \<longrightarrow> reaches_page m flags r)"
    and ins: "\<forall>r \<in> set qs. fits m n flags r \<longrightarrow> insertable (reserved m) (alloc_start flags r) n"
  shows "if \<forall>r \<in> set qs. \<not> fits m n flags r then mmap_alloc_loop m n flags (length ps) = Inl Panic
    else \<exists>r \<in> set qs. fits m n flags r \<and> taken_from m n flags r (mmap_alloc_loop m n flags (length ps))"
  using av(1) ok ins
proof (induction qs arbitrary: ps)
  case Nil
  then show ?case by (simp add: mmap_alloc_loop.simps)
next
  case (Cons r qs)
  let ?h = "highest_mapped m" and ?eb = "alloc_start flags r" and ?bytes = "usable_bytes m flags r"
  have sp: "spaced (ps @ r # qs)" using av(2) Cons.prems(1) by simp
  have re: "rg_end r < 2 ^ 64" using spaced_member [OF sp, of r] by simp
  note step = alloc_loop_step [OF Cons.prems(1), of n flags]
  consider "rg_base r \<ge> ?h" | "rg_base r < ?h" "fits m n flags r" | "rg_base r < ?h" "\<not> fits m n flags r"
    by fastforce
  then show ?case
  proof cases
    case 1
    have "\<not> fits m n flags s" if "s \<in> set (r # qs)" for s
      using 1 sp that by (auto simp: fits_def spaced_append rg_end_def word_less_nat_alt word_le_nat_alt)
    then show ?thesis using 1 step by simp
  next
    case 2
    then have rp: "reaches_page m flags r" using Cons.prems(2) by auto
    note u = usable_bytes_eq [OF rp re]
    have b: "unat (rg_base r) \<le> unat ?eb" "unat ?eb + unat ?bytes = min (unat ?h) (rg_end r)"
      "unat n \<le> unat ?bytes" using rp 2(2) u by (auto simp: reaches_page_def fits_def)
    have e0: "0 < ?eb" using b(1) Cons.prems(2) by (auto simp: len_pos)
    have "(flags AND MMAP_ALLOC_PA \<noteq> 0) \<or> ?eb = rg_base r" by (simp add: alloc_start_def)
    moreover have "insertable (reserved m) ?eb n" using Cons.prems(3) 2(2) by auto
    moreover have "mmap_alloc_loop m n flags (length ps) =
        mmap_take m (length ps) n ?eb ?bytes (flags AND MMAP_ALLOC_PA \<noteq> 0)"
      using step 2(1) b(3) by (simp add: word_le_nat_alt word_less_nat_alt)
    ultimately show ?thesis
      using mmap_take_ok [OF Cons.prems(1) av(2,3) rv _ b(1) e0 _ n _ b(3), of "flags AND MMAP_ALLOC_PA \<noteq> 0"]
        b(2) 2(2) by (auto simp: taken_from_def)
  next
    case 3
    then have "reaches_page m flags r" using Cons.prems(2) by auto
    then have "\<not> n \<le> ?bytes"
      using usable_bytes_eq [OF _ re] 3 by (auto simp: reaches_page_def fits_def word_le_nat_alt)
    then have "mmap_alloc_loop m n flags (length ps) = mmap_alloc_loop m n flags (length (ps @ [r]))"
      using step 3(1) by (auto simp: not_le)
    moreover note Cons.IH [of "ps @ [r]"]
    ultimately show ?thesis using Cons.prems 3(2) by (auto split: if_splits)
  qed
qed

section \<open>The boot loader's map\<close>

definition entry_end :: "multiboot_mmap_entry \<Rightarrow> nat" where
  "entry_end e = unat (me_addr e) + unat (me_len e)"

definition entry_span :: "multiboot_mmap_entry \<Rightarrow> nat set" where
  "entry_span e = {unat (me_addr e) ..< entry_end e}"

text \<open>The boot loader lists disjoint ranges in ascending order.\<close>

definition ascending :: "multiboot_mmap_entry list \<Rightarrow> bool" where
  "ascending es \<longleftrightarrow> sorted_wrt (\<lambda>e f. entry_end e \<le> unat (me_addr f)) es \<and> (\<forall>e \<in> set es. entry_end e < 2 ^ 64)"

text \<open>What the kernel may use: the available entries above the end of its image.\<close>

definition usable :: "u64 \<Rightarrow> multiboot_mmap_entry list \<Rightarrow> nat set" where
  "usable kern_end es =
     (\<Union>e \<in> {e \<in> set es. me_type e = MULTIBOOT_MEMORY_AVAILABLE}. entry_span e) \<inter> {unat kern_end ..}"

definition below :: "mmap_region list \<Rightarrow> nat \<Rightarrow> bool" where
  "below rs b \<longleftrightarrow> (\<forall>r \<in> set rs. rg_end r \<le> b)"

lemma below_covered: "spaced rs \<Longrightarrow> below rs b \<longleftrightarrow> covered rs \<subseteq> {..<b}"
proof (induction rs)
  case (Cons r rs)
  have "rg_end r \<le> b \<longleftrightarrow> rg_span r \<subseteq> {..<b}"
    using Cons.prems by (auto simp: rg_span_def rg_end_def len_pos lessThan_atLeast0)
  then show ?case using Cons by (auto simp: below_def)
qed (simp add: below_def)

lemma insert_above:
  assumes "spaced rs" "below rs (unat addr)" "length rs \<le> MMAP_MAX_REGIONS" "unat addr + unat len < 2 ^ 64"
  shows "mmap_insert_region rs addr len flags = Inl Panic \<and> length rs = MMAP_MAX_REGIONS \<or>
    (\<exists>rs'. mmap_insert_region rs addr len flags = Inr rs' \<and> spaced rs' \<and>
       covered rs' = covered rs \<union> {unat addr ..< unat addr + unat len} \<and> length rs' \<le> min MMAP_MAX_REGIONS (Suc (length rs)))"
proof -
  have "len = 0 \<or> insertable rs addr len"
  proof (cases "len = 0")
    case False
    have "unat (rg_base r) \<noteq> unat addr + unat len" if "r \<in> set rs" for r
      using assms(2) that spaced_member [OF assms(1) that] by (auto simp: below_def rg_end_def)
    moreover have "{unat addr ..< unat addr + unat len} \<inter> covered rs = {}"
      using assms(2) below_covered [OF assms(1)] by auto
    ultimately show ?thesis using False assms(4) by (auto simp: insertable_def word_gt_0)
  qed simp
  then show ?thesis using insert_any [OF assms(1) _ assms(3), of len addr flags] by blast
qed

lemma entry_ok:
  assumes sp: "spaced (available m)" "spaced (reserved m)"
    and bel: "covered (available m) \<subseteq> {unat kern_end ..< unat (me_addr e)}" "covered (reserved m) \<subseteq> {..<unat (me_addr e)}"
    and len: "length (available m) \<le> MMAP_MAX_REGIONS" "length (reserved m) \<le> MMAP_MAX_REGIONS"
    and e: "entry_end e < 2 ^ 64"
  shows "mmap_add_entry kern_end m e = Inl Panic \<and> (length (available m) = MMAP_MAX_REGIONS \<or> length (reserved m) = MMAP_MAX_REGIONS) \<or>
    (\<exists>m'. mmap_add_entry kern_end m e = Inr m' \<and>
     spaced (available m') \<and> spaced (reserved m') \<and>
     length (available m') \<le> min MMAP_MAX_REGIONS (Suc (length (available m))) \<and>
     length (reserved m') \<le> min MMAP_MAX_REGIONS (Suc (length (reserved m))) \<and>
     covered (available m') = covered (available m) \<union> usable kern_end [e] \<and>
     covered (reserved m') = covered (reserved m) \<union> (entry_span e - usable kern_end [e]))"
proof -
  let ?a = "me_addr e" and ?l = "me_len e"
  have bl: "below (available m) (unat ?a)" "below (reserved m) (unat ?a)"
    using bel below_covered sp by (auto simp: below_covered)
  note av = insert_above [OF sp(1) bl(1) len(1), of ?l MMAP_NONE]
  note rv = insert_above [OF sp(2) bl(2) len(2), of ?l MMAP_NONE]
  have w: "?a + ?l < kern_end \<longleftrightarrow> entry_end e < unat kern_end" "?a < kern_end \<longleftrightarrow> unat ?a < unat kern_end"
    using e by (simp_all add: word_less_nat_alt nowrap entry_end_def)
  consider "me_type e \<noteq> MULTIBOOT_MEMORY_AVAILABLE \<or> entry_end e < unat kern_end"
    | "me_type e = MULTIBOOT_MEMORY_AVAILABLE" "unat kern_end \<le> unat ?a" "unat kern_end \<le> entry_end e"
    | "me_type e = MULTIBOOT_MEMORY_AVAILABLE" "unat ?a < unat kern_end" "unat kern_end \<le> entry_end e"
    by (force simp: entry_end_def)
  then show ?thesis
  proof cases
    case 1
    then have "usable kern_end [e] = {}" by (auto simp: usable_def entry_span_def)
    then show ?thesis using 1 rv e sp w len by (auto simp: entry_end_def entry_span_def mmap_add_entry_def)
  next
    case 2
    then have "usable kern_end [e] = entry_span e" by (auto simp: usable_def entry_span_def)
    then show ?thesis using 2 av e sp w len by (auto simp: entry_end_def entry_span_def mmap_add_entry_def)
  next
    case 3
    have us: "usable kern_end [e] = {unat kern_end ..< entry_end e}" using 3 by (auto simp: usable_def entry_span_def)
    have d: "unat (kern_end - ?a) = unat kern_end - unat ?a" using 3(2) by (simp add: nowrap word_le_nat_alt)
    then have d2: "unat (?l - (kern_end - ?a)) = entry_end e - unat kern_end"
      using 3 by (simp add: nowrap word_le_nat_alt entry_end_def)
    have none: "covered (available m) = {}" using bel(1) 3(2) by auto
    then have "below (available m) (unat kern_end)" by (simp add: below_covered [OF sp(1)])
    note av' = insert_above [OF sp(1) this len(1), of "?l - (kern_end - ?a)" MMAP_NONE, unfolded d2]
    note rv' = insert_above [OF sp(2) bl(2) len(2), of "kern_end - ?a" MMAP_NONE, unfolded d]
    have run: "mmap_add_entry kern_end m e = obind (mmap_insert_region (reserved m) ?a (kern_end - ?a) MMAP_NONE)
        (\<lambda>rv. obind (mmap_insert_region (available m) kern_end (?l - (kern_end - ?a)) MMAP_NONE)
          (\<lambda>av. Inr (m\<lparr>reserved := rv, available := av\<rparr>)))"
      using 3 w by (simp add: mmap_add_entry_def)
    have top: "unat ?a + (unat kern_end - unat ?a) < 2 ^ 64" "unat kern_end + (entry_end e - unat kern_end) < 2 ^ 64"
      and span: "entry_span e - usable kern_end [e] = {unat ?a ..< unat kern_end}" using 3 e us by (auto simp: entry_span_def)
    from rv' [OF top(1)] show ?thesis
    proof (elim disjE exE conjE)
      fix rv1
      assume r: "mmap_insert_region (reserved m) ?a (kern_end - ?a) MMAP_NONE = Inr rv1" "spaced rv1"
        "covered rv1 = covered (reserved m) \<union> {unat ?a ..< unat ?a + (unat kern_end - unat ?a)}"
        "length rv1 \<le> min MMAP_MAX_REGIONS (Suc (length (reserved m)))"
      from av' [OF top(2)] show ?thesis
        by (elim disjE exE conjE) (use run r us span none 3(2,3) in auto)
    qed (use run in simp)
  qed
qed

lemma usable_Cons: "usable kern_end (e # es) = usable kern_end [e] \<union> usable kern_end es"
  by (auto simp: usable_def)

lemma usable_single:
  "usable kern_end [e] =
     (if me_type e = MULTIBOOT_MEMORY_AVAILABLE then {max (unat (me_addr e)) (unat kern_end) ..< entry_end e} else {})"
  by (auto simp: usable_def entry_span_def)

lemma usable_span: "usable kern_end [e] \<subseteq> entry_span e \<inter> {unat kern_end ..}"
  by (auto simp: usable_def)

fun add_all :: "u64 \<Rightarrow> mmap \<Rightarrow> multiboot_mmap_entry list \<Rightarrow> mmap outcome" where
  "add_all kern_end m [] = Inr m"
| "add_all kern_end m (e # es) = obind (mmap_add_entry kern_end m e) (\<lambda>m. add_all kern_end m es)"

lemma entries_ok:
  assumes "ascending es" "spaced (available m)" "spaced (reserved m)"
    and "\<forall>e \<in> set es. covered (available m) \<subseteq> {unat kern_end ..< unat (me_addr e)} \<and> covered (reserved m) \<subseteq> {..<unat (me_addr e)}"
    and "length (available m) \<le> min k MMAP_MAX_REGIONS" "length (reserved m) \<le> min k MMAP_MAX_REGIONS"
  shows "add_all kern_end m es = Inl Panic \<and> MMAP_MAX_REGIONS < k + length es \<or>
    (\<exists>m'. add_all kern_end m es = Inr m' \<and> spaced (available m') \<and> spaced (reserved m') \<and>
     covered (available m') = covered (available m) \<union> usable kern_end es \<and>
     covered (reserved m') = covered (reserved m) \<union> ((\<Union>e \<in> set es. entry_span e) - usable kern_end es))"
  using assms
proof (induction es arbitrary: m k)
  case Nil
  then show ?case by (simp add: usable_def)
next
  case (Cons e es)
  have asc: "ascending es" "entry_end e < 2 ^ 64" "\<forall>f \<in> set es. entry_end e \<le> unat (me_addr f)"
    using Cons.prems(1) by (auto simp: ascending_def)
  from entry_ok [OF Cons.prems(2,3) _ _ _ _ asc(2), of kern_end] Cons.prems(4-6)
  consider "mmap_add_entry kern_end m e = Inl Panic" "length (available m) = MMAP_MAX_REGIONS \<or> length (reserved m) = MMAP_MAX_REGIONS"
    | m1 where "mmap_add_entry kern_end m e = Inr m1" "spaced (available m1)" "spaced (reserved m1)"
      "length (available m1) \<le> min (Suc k) MMAP_MAX_REGIONS" "length (reserved m1) \<le> min (Suc k) MMAP_MAX_REGIONS"
      "covered (available m1) = covered (available m) \<union> usable kern_end [e]"
      "covered (reserved m1) = covered (reserved m) \<union> (entry_span e - usable kern_end [e])"
    by (auto simp: min_le_iff_disj)
  then show ?case
  proof cases
    case 1
    then have "MMAP_MAX_REGIONS \<le> k" using Cons.prems(5,6) by auto
    then show ?thesis using 1(1) by simp
  next
    case m1: 2
    have bel: "covered (available m1) \<subseteq> {unat kern_end ..< unat (me_addr f)} \<and> covered (reserved m1) \<subseteq> {..<unat (me_addr f)}"
      if "f \<in> set es" for f
    proof -
      have "entry_end e \<le> unat (me_addr f)" using asc(3) that by blast
      moreover have "covered (available m) \<subseteq> {unat kern_end ..< unat (me_addr f)}" "covered (reserved m) \<subseteq> {..<unat (me_addr f)}"
        using Cons.prems(4) that by auto
      moreover have "usable kern_end [e] \<subseteq> {unat kern_end ..< entry_end e}"
        using usable_span [of kern_end e] by (fastforce simp: entry_span_def)
      ultimately show ?thesis unfolding m1(6,7) by (fastforce simp: entry_span_def)
    qed
    have sep: "entry_span e \<inter> usable kern_end es = {}" "usable kern_end [e] \<inter> (\<Union>f \<in> set es. entry_span f) = {}"
      using asc(3) usable_span [of kern_end e] by (fastforce simp: usable_def entry_span_def)+
    have cov: "covered (reserved m1) \<union> ((\<Union>f \<in> set es. entry_span f) - usable kern_end es) =
        covered (reserved m) \<union> ((\<Union>f \<in> set (e # es). entry_span f) - usable kern_end (e # es))"
      unfolding m1(7) usable_Cons [of kern_end e es] using sep by (fastforce simp: set_eq_iff disjoint_iff)
    from Cons.IH [OF asc(1) m1(2,3) _ m1(4,5)] bel show ?thesis
      unfolding cov m1(6) using m1(1) unfolding usable_Cons [of kern_end e es] by (simp add: Un_assoc)
  qed
qed

text \<open>The tags from one address to the first that ends the walk, and the entries of a tag from one address on.\<close>

inductive tag_chain :: "byte_mem \<Rightarrow> u64 \<Rightarrow> u64 \<Rightarrow> bool" for mem where
  chain_stop: "p AND 7 = 0 \<Longrightarrow> tag_type mem p = MULTIBOOT_TAG_TYPE_END \<or> tag_type mem p = MULTIBOOT_TAG_TYPE_MMAP \<Longrightarrow> tag_chain mem p p"
| chain_tag: "p AND 7 = 0 \<Longrightarrow> tag_type mem p \<noteq> MULTIBOOT_TAG_TYPE_END \<Longrightarrow> tag_type mem p \<noteq> MULTIBOOT_TAG_TYPE_MMAP \<Longrightarrow>
    tag_chain mem (ALIGNUP (p + ucast (tag_size mem p)) 8) q \<Longrightarrow> tag_chain mem p q"

inductive entry_chain :: "byte_mem \<Rightarrow> u32 \<Rightarrow> u64 \<Rightarrow> u64 \<Rightarrow> multiboot_mmap_entry list \<Rightarrow> bool" for mem entry_size stop where
  chain_over: "\<not> a < stop \<Longrightarrow> entry_chain mem entry_size stop a []"
| chain_next: "a < stop \<Longrightarrow> a AND 7 = 0 \<Longrightarrow> entry_chain mem entry_size stop (a + ucast entry_size) es \<Longrightarrow>
    entry_chain mem entry_size stop a (entry_at mem a # es)"

lemma find_tag_chain: "tag_chain mem p q \<Longrightarrow> find_mmap_tag mem p = Some (Inr q)"
  by (induction rule: tag_chain.induct; subst find_mmap_tag.simps) auto

lemma tag_chain_end: "tag_chain mem p q \<Longrightarrow> tag_type mem q = MULTIBOOT_TAG_TYPE_END \<or> tag_type mem q = MULTIBOOT_TAG_TYPE_MMAP"
  by (induction rule: tag_chain.induct) auto

lemma add_entries_chain:
  "entry_chain mem entry_size stop a es \<Longrightarrow> mmap_add_entries mem kern_end entry_size stop a m = Some (add_all kern_end m es)"
proof (induction arbitrary: m rule: entry_chain.induct)
  case (chain_over a)
  then show ?case by (subst mmap_add_entries.simps) simp
next
  case (chain_next a es)
  then show ?case by (subst mmap_add_entries.simps) (auto split: sum.split)
qed

section \<open>Properties\<close>

text \<open>
  \<^verbatim>\<open>mmap_insert_region\<close> on a sorted, disjoint and coalesced array with room returns and keeps it
  so, and the bytes it describes grow by exactly the inserted range, provided the range is
  disjoint from the regions and does not end where a region begins unless it also begins
  where one ends.
\<close>

lemma mmap_insert_region_correct:
  assumes "spaced rs" and "insertable rs addr len" and "length rs < MMAP_MAX_REGIONS"
  shows "\<exists>rs'. mmap_insert_region rs addr len flags = Inr rs' \<and> spaced rs' \<and>
           covered rs' = covered rs \<union> {unat addr ..< unat addr + unat len} \<and> length rs' \<le> Suc (length rs)"
  using insert_ok [of rs len addr flags] assms by blast

lemma mmap_insert_region_correct_example:
  "\<exists>rs'. mmap_insert_region [new_region 0x1000 0x1000 MMAP_NONE, new_region 0x3000 0x1000 MMAP_NONE] 0x2000 0x1000 MMAP_NONE = Inr rs' \<and>
     covered rs' = {0x1000 ..< 0x4000}"
proof -
  let ?rs = "[new_region 0x1000 0x1000 MMAP_NONE, new_region 0x3000 0x1000 MMAP_NONE]"
  have "spaced ?rs" "insertable ?rs 0x2000 0x1000" "length ?rs < MMAP_MAX_REGIONS"
    by (auto simp: new_region_def rg_end_def insertable_def covered_def rg_span_def MMAP_MAX_REGIONS_def)
  then obtain rs' where "mmap_insert_region ?rs 0x2000 0x1000 MMAP_NONE = Inr rs'"
    "covered rs' = covered ?rs \<union> {0x2000 ..< 0x3000}"
    using mmap_insert_region_correct [of ?rs "0x2000" "0x1000" MMAP_NONE] by auto
  moreover have "covered ?rs \<union> {0x2000 ..< 0x3000} = {0x1000 ..< 0x4000}"
    by (auto simp: new_region_def rg_span_def rg_end_def)
  ultimately show ?thesis by blast
qed

text \<open>
  C33. \<^verbatim>\<open>mmap_init\<close> reads the boot loader's memory map.  Let the tags of the Multiboot information, each at the next
  multiple of 8 behind the one before it, lead to the tag that ends the walk.  If that is the end tag the call panics.
  Otherwise it is the memory map; let its entries, one entry size apart, lead to the end of the tag at addresses that
  are multiples of 8, and let them be disjoint and ascending without passing the end of the address space.  Then the
  call panics, which it does only on more than 128 entries, for want of room in one of the arrays of regions; or it returns, the
  available regions describe exactly the bytes of the available entries above the end of the kernel
  image and the reserved regions all other bytes of the entries, and both arrays are sorted,
  disjoint and coalesced.
\<close>

theorem mmap_init_correct:
  assumes "tag_chain mem (mboot + 8) p"
    and "tag_type mem p = MULTIBOOT_TAG_TYPE_MMAP \<longrightarrow>
      entry_chain mem (tag_entry_size mem p) (p + ucast (tag_size mem p)) (p + 16) es \<and> ascending es"
  shows "if tag_type mem p = MULTIBOOT_TAG_TYPE_END then mmap_init kern_end mem mboot = Some (Inl Panic)
    else mmap_init kern_end mem mboot = Some (Inl Panic) \<and> MMAP_MAX_REGIONS < length es \<or>
      (\<exists>m. mmap_init kern_end mem mboot = Some (Inr m) \<and> highest_mapped m = KERNEL_PHYS_MAP_END \<and>
         spaced (available m) \<and> spaced (reserved m) \<and> covered (available m) = usable kern_end es \<and>
         covered (reserved m) = (\<Union>e \<in> set es. entry_span e) - usable kern_end es)"
proof -
  let ?m = "\<lparr>highest_mapped = 0, available = [], reserved = []\<rparr>"
  have tag: "find_mmap_tag mem (mboot + 8) = Some (Inr p)" by (rule find_tag_chain [OF assms(1)])
  consider "tag_type mem p = MULTIBOOT_TAG_TYPE_END" | "tag_type mem p = MULTIBOOT_TAG_TYPE_MMAP"
    using tag_chain_end [OF assms(1)] by blast
  then show ?thesis
  proof cases
    case 1
    then show ?thesis using tag by (simp add: mmap_init_def MULTIBOOT_TAG_TYPE_END_def MULTIBOOT_TAG_TYPE_MMAP_def)
  next
    case 2
    then have es: "ascending es" "mmap_init kern_end mem mboot =
        rbind (Some (add_all kern_end ?m es)) (\<lambda>m. Some (Inr (m\<lparr>highest_mapped := KERNEL_PHYS_MAP_END\<rparr>)))"
      using tag assms(2) add_entries_chain by (auto simp: mmap_init_def)
    from entries_ok [OF es(1), of ?m kern_end 0] show ?thesis
      using 2 es(2) by (auto simp: MULTIBOOT_TAG_TYPE_END_def MULTIBOOT_TAG_TYPE_MMAP_def)
  qed
qed

text \<open>
  The information at address 0x8000: a tag of 10 bytes, so that the next one starts 16 bytes behind it, and a
  memory map with entries of 24 bytes.
\<close>

definition ex_mboot :: byte_mem where
  "ex_mboot a =
     (if a = 0x8008 then 1 else if a = 0x800C then 10
      else if a = 0x8018 then 6 else if a = 0x801C then 64 else if a = 0x8020 then 24
      else if a = 0x8031 then 0xFC else if a = 0x8032 then 9 else if a = 0x8038 then 1
      else if a = 0x8042 then 0x10 else if a = 0x804A then 0xF0 else if a = 0x804B then 7 else if a = 0x8050 then 1
      else 0)"

theorem mmap_init_correct_witness:
  "\<exists>m. mmap_init 0x200000 ex_mboot 0x8000 = Some (Inr m) \<and> covered (available m) = {0x200000 ..< 0x8000000}"
proof -
  let ?es = "[\<lparr>me_addr = 0, me_len = 0x9FC00, me_type = 1\<rparr>, \<lparr>me_addr = 0x100000, me_len = 0x7F00000, me_type = 1\<rparr>]"
  note rd = tag_type_def tag_size_def tag_entry_size_def entry_at_def read_u64_def read_u32_def read_u16_def ex_mboot_def
  have t: "tag_type ex_mboot 0x8008 = 1" "tag_size ex_mboot 0x8008 = 10" "tag_type ex_mboot 0x8018 = 6"
    "tag_size ex_mboot 0x8018 = 64" "tag_entry_size ex_mboot 0x8018 = 24" by (simp_all add: rd)
  have e: "entry_at ex_mboot 0x8028 = ?es ! 0" "entry_at ex_mboot 0x8040 = ?es ! 1" by (simp_all add: rd)
  have "tag_chain ex_mboot 0x8018 0x8018"
    by (rule chain_stop) (simp_all add: t MULTIBOOT_TAG_TYPE_END_def MULTIBOOT_TAG_TYPE_MMAP_def)
  then have "tag_chain ex_mboot 0x8008 0x8018"
    using chain_tag [of "0x8008" ex_mboot "0x8018"] by (simp add: t MULTIBOOT_TAG_TYPE_END_def MULTIBOOT_TAG_TYPE_MMAP_def ALIGNUP_def)
  moreover have "entry_chain ex_mboot 24 0x8058 0x8058 []" by (rule chain_over) simp
  then have "entry_chain ex_mboot 24 0x8058 0x8040 [?es ! 1]" using chain_next [of "0x8040" "0x8058" ex_mboot 24] e(2) by simp
  then have "entry_chain ex_mboot 24 0x8058 0x8028 ?es" using chain_next [of "0x8028" "0x8058" ex_mboot 24] e(1) by simp
  moreover have "ascending ?es" "\<not> MMAP_MAX_REGIONS < length ?es" by (simp_all add: ascending_def entry_end_def MMAP_MAX_REGIONS_def)
  moreover have "usable 0x200000 ?es = {0x200000 ..< 0x8000000}"
    by (simp add: usable_Cons [of _ _ "[_]"] usable_single entry_end_def MULTIBOOT_MEMORY_AVAILABLE_def)
  ultimately show ?thesis
    using mmap_init_correct [of ex_mboot "0x8000" "0x8018" ?es "0x200000"] t by (auto simp: MULTIBOOT_TAG_TYPE_END_def)
qed

text \<open>
  \<^verbatim>\<open>mmap_alloc_low\<close> on disjoint, sorted and coalesced arrays with room for one more region each, no available region
  at address zero, and a mapped limit at a page boundary.  Provided that no region ends before the
  start of the allocation in it, and that no reserved region begins where the allocation ends (the lemmas below show
  what happens otherwise), the call panics if no available region can hold the request below the mapped limit.
  Otherwise it takes the request from such a region, from its first page boundary when a page
  is asked for: the bytes leave the available regions and join the reserved ones, and both
  arrays stay sorted, disjoint and coalesced.  The bytes of the region above the mapped limit
  leave the available regions too, without becoming reserved.
\<close>

lemma mmap_alloc_low_correct:
  assumes "spaced (available m)" and "length (available m) < MMAP_MAX_REGIONS"
    and "spaced (reserved m)" and "length (reserved m) < MMAP_MAX_REGIONS"
    and "0 < n" and "4096 dvd unat (highest_mapped m)"
    and apart: "covered (available m) \<inter> covered (reserved m) = {}"
    and page: "\<forall>r \<in> set (available m). 0 < rg_base r \<and> unat (alloc_start flags r) \<le> rg_end r"
    and below: "\<forall>r \<in> set (available m). \<forall>s \<in> set (reserved m). unat (rg_base s) \<noteq> unat (alloc_start flags r) + unat n"
  shows "if \<forall>r \<in> set (available m). \<not> fits m n flags r then mmap_alloc_low m n flags = Inl Panic
    else \<exists>r \<in> set (available m). fits m n flags r \<and> taken_from m n flags r (mmap_alloc_low m n flags)"
proof -
  have ok: "\<forall>r \<in> set (available m). 0 < rg_base r \<and> (rg_base r < highest_mapped m \<longrightarrow> reaches_page m flags r)"
    using page alignup_page [OF _ assms(6)] by (auto simp: reaches_page_def)
  moreover have "\<forall>r \<in> set (available m). fits m n flags r \<longrightarrow> insertable (reserved m) (alloc_start flags r) n"
  proof (intro ballI impI)
    fix r
    assume r: "r \<in> set (available m)" "fits m n flags r"
    have "unat (rg_base r) \<le> unat (alloc_start flags r)" "unat (alloc_start flags r) + unat n \<le> rg_end r"
      using alignup_page(1) [OF _ assms(6)] r(2) by (auto simp: fits_def)
    then have "{unat (alloc_start flags r) ..< unat (alloc_start flags r) + unat n} \<subseteq> covered (available m)"
      "unat (alloc_start flags r) + unat n < 2 ^ 64"
      using r(1) spaced_member [OF assms(1) r(1)] by (force simp: covered_def rg_span_def)+
    then show "insertable (reserved m) (alloc_start flags r) n"
      using apart below r(1) assms(5) by (auto simp: insertable_def)
  qed
  ultimately show ?thesis
    unfolding mmap_alloc_low_def
    using alloc_loop_ok [of m "[]" "available m" n flags, unfolded list.size append.simps] assms(1-5) by blast
qed

definition ex_region :: mmap_region where
  "ex_region = new_region 0x200800 0x7DFF800 MMAP_NONE"

definition ex_map :: mmap where
  "ex_map = \<lparr>highest_mapped = 0x1000000, available = [ex_region], reserved = [new_region 0x1000 0x1FF000 MMAP_NONE]\<rparr>"

lemma mmap_alloc_low_correct_example:
  "\<exists>m'. mmap_alloc_low ex_map 0x1000 MMAP_ALLOC_PA = Inr (new_region 0x201000 0x1000 MMAP_NONE, m') \<and>
     covered (available m') = {0x200800 ..< 0x8000000} - {0x201000 ..< 0x202000} - {0x1000000 ..< 0x8000000}"
proof -
  have a: "alloc_start MMAP_ALLOC_PA ex_region = 0x201000"
    by (simp add: alloc_start_def ex_region_def new_region_def MMAP_ALLOC_PA_def ALIGNUP_def PAGE_SIZE_def)
  have e: "rg_base ex_region = 0x200800" "rg_end ex_region = 0x8000000" "rg_flags ex_region = MMAP_NONE" "rg_len ex_region = 0x7DFF800"
    by (simp_all add: ex_region_def new_region_def rg_end_def)
  have f: "fits ex_map 0x1000 MMAP_ALLOC_PA ex_region" by (simp add: fits_def a e ex_map_def)
  have "spaced (available ex_map)" "length (available ex_map) < MMAP_MAX_REGIONS" "spaced (reserved ex_map)"
    "length (reserved ex_map) < MMAP_MAX_REGIONS" "(0::u64) < 0x1000" "4096 dvd unat (highest_mapped ex_map)"
    by (simp_all add: ex_map_def e new_region_def rg_end_def MMAP_MAX_REGIONS_def)
  moreover have "covered (available ex_map) \<inter> covered (reserved ex_map) = {}"
    by (auto simp: ex_map_def rg_span_def e rg_end_def new_region_def)
  moreover have "\<forall>r \<in> set (available ex_map). 0 < rg_base r \<and> unat (alloc_start MMAP_ALLOC_PA r) \<le> rg_end r"
    by (simp add: ex_map_def a e)
  moreover have "\<forall>r \<in> set (available ex_map). \<forall>s \<in> set (reserved ex_map).
      unat (rg_base s) \<noteq> unat (alloc_start MMAP_ALLOC_PA r) + unat (0x1000 :: u64)"
    by (simp add: ex_map_def a new_region_def)
  ultimately have "taken_from ex_map 0x1000 MMAP_ALLOC_PA ex_region (mmap_alloc_low ex_map 0x1000 MMAP_ALLOC_PA)"
    using mmap_alloc_low_correct [of ex_map "0x1000" MMAP_ALLOC_PA] f by (simp add: ex_map_def)
  then show ?thesis by (auto simp: taken_from_def a e rg_span_def ex_map_def)
qed

section \<open>Where the map goes wrong\<close>

lemma insert_loop_skip:
  assumes "\<forall>p \<in> set ps. rg_end p < unat addr \<and> 0 < unat (rg_len p)" "unat addr + unat len < 2 ^ 64"
  shows "mmap_insert_loop addr len flags (length os) (os @ ps @ qs) =
         mmap_insert_loop addr len flags (length (os @ ps)) (os @ ps @ qs)"
  using assms(1)
proof (induction ps arbitrary: os)
  case (Cons p ps)
  have p: "rg_end p < unat addr" "0 < unat (rg_len p)" "rg_end p < 2 ^ 64"
    using Cons.prems unat_u64_lt [of addr] by (auto simp del: unat_u64_lt)
  have w: "unat (addr + len) = unat addr + unat len" "unat (rg_base p + rg_len p) = rg_end p"
    using assms(2) p(3) by (simp_all add: nowrap rg_end_def)
  then have ne: "addr + len \<noteq> rg_base p" "\<not> addr + len < rg_base p" "rg_base p + rg_len p \<noteq> addr"
    using p by (auto simp: word_less_nat_alt rg_end_def)
  have "mmap_insert_loop addr len flags (length os) (os @ (p # ps) @ qs) =
        mmap_insert_loop addr len flags (length (os @ [p])) ((os @ [p]) @ ps @ qs)"
    using ne no_overlap_assert [of p addr len] p
    by (subst mmap_insert_loop.simps) (simp add: nth_append)
  also have "\<dots> = mmap_insert_loop addr len flags (length ((os @ [p]) @ ps)) ((os @ [p]) @ ps @ qs)"
    using Cons.prems by (intro Cons.IH) auto
  finally show ?case by simp
qed simp

text \<open>
  Inserting a range that ends where a region begins, with no region ending where it begins,
  enlarges that region and then inserts the range a second time behind it: the array
  describes every inserted byte twice.
\<close>

lemma mmap_insert_region_twice:
  assumes "spaced (ps @ r # qs)" and "0 < len" and "unat addr + unat len = unat (rg_base r)"
    and "\<forall>p \<in> set ps. rg_end p < unat addr" and "length (ps @ r # qs) < MMAP_MAX_REGIONS"
  shows "mmap_insert_region (ps @ r # qs) addr len flags =
           Inr (ps @ r\<lparr>rg_base := addr, rg_len := rg_len r + len\<rparr> # new_region addr len flags # qs)"
proof -
  let ?rs = "ps @ r # qs" and ?r = "r\<lparr>rg_base := addr, rg_len := rg_len r + len\<rparr>"
  have r: "rg_end r < 2 ^ 64" "0 < unat (rg_len r)" "\<forall>s \<in> set qs. rg_end r < unat (rg_base s)"
    "\<forall>p \<in> set ps. 0 < unat (rg_len p)"
    using assms(1) spaced_member [OF assms(1), of r] spaced_member [OF assms(1)] by (auto simp: spaced_append)
  have w: "addr + len = rg_base r"
    using assms(3) unat_u64_lt [of "rg_base r"] by (simp add: word_unat_eq_iff nowrap del: unat_u64_lt)
  have over: "\<not> overlap_assert addr len r"
    using w assms(2,3) by (auto simp: overlap_assert_def WITHIN_def word_le_nat_alt len_pos)
  have "mmap_insert_loop addr len flags 0 ?rs = mmap_insert_loop addr len flags (length ps) ?rs"
    using insert_loop_skip [of ps addr len flags "[]" "r # qs"] assms(3,4) r(4) by simp
  also have "\<dots> = mmap_insert_loop addr len flags (Suc (length ps)) (ps @ ?r # qs)"
    using w over by (subst mmap_insert_loop.simps) simp
  also have "\<dots> = Inr (ps @ ?r # new_region addr len flags # qs)"
  proof (cases qs)
    case Nil
    then show ?thesis using assms(5) by (subst mmap_insert_loop.simps) (simp add: new_region_def)
  next
    case (Cons s ss)
    then have "rg_base r < rg_base s" "rg_base r \<noteq> rg_base s"
      using r(2,3) by (auto simp: rg_end_def word_less_nat_alt)
    then show ?thesis using assms(5) Cons w
      by (subst mmap_insert_loop.simps) (simp add: new_region_def nth_append)
  qed
  finally show ?thesis using assms(2,5) by (simp add: mmap_insert_region_def)
qed

lemma mmap_insert_region_twice_example:
  "mmap_insert_region [new_region 0x2000 0x1000 MMAP_NONE] 0x1000 0x1000 MMAP_NONE =
     Inr [new_region 0x1000 0x2000 MMAP_NONE, new_region 0x1000 0x1000 MMAP_NONE]"
  using mmap_insert_region_twice [of "[]" "new_region 0x2000 0x1000 MMAP_NONE" "[]" "0x1000" "0x1000" MMAP_NONE]
  by (simp add: new_region_def rg_end_def MMAP_MAX_REGIONS_def)

text \<open>
  A page request on a map whose region ends before its first page boundary is answered with
  bytes outside every available region, since the subtraction of the padding wraps around;
  afterwards all memory from the region up to the mapped limit counts as available.
\<close>

lemma mmap_alloc_low_outside:
  assumes "0 < rg_base r" and "rg_base r < h" and "4096 dvd unat h" and "0 < n"
    and "rg_end r < unat (ALIGNUP (rg_base r) PAGE_SIZE)" and "unat (ALIGNUP (rg_base r) PAGE_SIZE) + unat n \<le> unat h"
  shows "\<exists>rg m'. mmap_alloc_low \<lparr>highest_mapped = h, available = [r], reserved = []\<rparr> n MMAP_ALLOC_PA = Inr (rg, m') \<and>
           rg_span rg \<inter> rg_span r = {} \<and> unat (rg_len rg) = unat n \<and>
           covered (available m') = {unat (rg_base r) ..< unat h} - rg_span rg"
proof -
  let ?m = "\<lparr>highest_mapped = h, available = [r], reserved = []\<rparr>"
  define eb where "eb = ALIGNUP (rg_base r) PAGE_SIZE"
  let ?b = "unat (rg_base r)" and ?e = "unat eb" and ?h = "unat h" and ?n = "unat n"
  have st: "alloc_start MMAP_ALLOC_PA r = eb" by (simp add: alloc_start_def MMAP_ALLOC_PA_def eb_def)
  have al: "?b \<le> ?e" "?e \<le> ?h" "?e < ?b + 4096"
    using alignup_page [of r ?m MMAP_ALLOC_PA] assms(2,3) st by auto
  have e: "?b + unat (rg_len r) < ?e" "?e + ?n \<le> ?h" "0 < ?n"
    using assms(4-6) by (auto simp: eb_def rg_end_def len_pos)
  have pad: "unat (eb - rg_base r) = ?e - ?b" using al by (simp add: nowrap word_le_nat_alt)
  have he: "unat (h - eb) = ?h - ?e" using al by (simp add: nowrap word_le_nat_alt)
  have "unat (rg_len r - (eb - rg_base r)) = 18446744073709551616 + unat (rg_len r) - (?e - ?b)"
    using e(1) pad by (auto simp: unat_sub_if' word_le_nat_alt)
  then have "unat (h - eb) \<le> unat (rg_len r - (eb - rg_base r))" using he al e(1) unat_u64_lt [of h] by linarith
  then have us: "usable_bytes ?m MMAP_ALLOC_PA r = h - eb" by (simp add: usable_bytes_def st min_def word_le_nat_alt)
  have h: "?h < 18446744073709551616" "?e < 18446744073709551616" by simp_all
  have rest: "unat (h - eb - n) = ?h - ?e - ?n" "unat (eb + n) = ?e + ?n"
    using e he le_less_trans [OF e(2) h(1)] by (simp_all add: nowrap word_le_nat_alt)
  have "insertable [] (rg_base r) (eb - rg_base r)"
    using pad al e(1) by (auto simp: insertable_def len_pos)
  then obtain av2 where a2: "mmap_insert_region [] (rg_base r) (eb - rg_base r) (rg_flags r) = Inr av2" "spaced av2"
    "covered av2 = {?b ..< ?e}" "rg_base ` set av2 \<subseteq> {rg_base r}" "length av2 < MMAP_MAX_REGIONS"
    using insert_ok [of "[]" "eb - rg_base r" "rg_base r" "rg_flags r"] pad al
    by (auto simp: MMAP_MAX_REGIONS_def)
  have "insertable av2 (eb + n) (h - eb - n)" if "h - eb - n > 0"
    using that a2(3,4) rest e al by (auto simp: insertable_def)
  then obtain av3 where a3: "(if h - eb - n > 0 then mmap_insert_region av2 (eb + n) (h - eb - n) (slot_flags av2 0 r) else Inr av2) = Inr av3"
    "covered av3 = {?b ..< ?e} \<union> {?e + ?n ..< ?h}"
    using insert_ok [OF a2(2) _ a2(5), of "h - eb - n" "eb + n" "slot_flags av2 0 r"] rest e a2(3)
    by (cases "h - eb - n > 0") (auto simp: len_pos)
  have rv: "mmap_insert_region [] eb n (rg_flags r) = Inr [new_region eb n (rg_flags r)]"
    using assms(4) by (simp add: mmap_insert_region_def mmap_insert_loop.simps new_region_def MMAP_MAX_REGIONS_def)
  have fit: "n \<le> h - eb" "\<not> h \<le> rg_base r" using e he assms(2) by (auto simp: word_le_nat_alt word_less_nat_alt)
  have "mmap_alloc_low ?m n MMAP_ALLOC_PA = mmap_take ?m 0 n eb (h - eb) True"
    unfolding mmap_alloc_low_def using alloc_loop_step [of ?m "[]" r "[]" n MMAP_ALLOC_PA] fit us st
    by (simp add: MMAP_ALLOC_PA_def)
  also have "\<dots> = Inr (new_region eb n (rg_flags r), ?m\<lparr>available := av3, reserved := [new_region eb n (rg_flags r)]\<rparr>)"
  proof -
    have "0 < eb" using e(1) by (simp add: len_pos)
    then show ?thesis using a2(1) a3(1) rv assms(4)
      by (simp add: mmap_take_def mmap_delete_region_def Let_def slot_flags_def [of "[]"] new_region_def del: if_split)
  qed
  finally have "mmap_alloc_low ?m n MMAP_ALLOC_PA = \<dots>" .
  moreover have sp: "rg_span (new_region eb n (rg_flags r)) = {?e ..< ?e + ?n}"
    by (simp add: rg_span_def new_region_def rg_end_def)
  moreover have "{?e ..< ?e + ?n} \<inter> rg_span r = {}" using e(1) by (simp add: rg_span_def rg_end_def)
  moreover have "covered av3 = {?b ..< ?h} - {?e ..< ?e + ?n}"
    using carve [of "{}" ?b ?h ?e ?n ?h] a3(2) al e(2) by simp
  ultimately show ?thesis by (simp add: new_region_def)
qed

lemma mmap_alloc_low_outside_example:
  "\<exists>rg m'. mmap_alloc_low \<lparr>highest_mapped = 0x1000000, available = [new_region 0x200100 0x200 MMAP_NONE], reserved = []\<rparr>
       0x1000 MMAP_ALLOC_PA = Inr (rg, m') \<and> covered (available m') = {0x200100 ..< 0x1000000} - rg_span rg"
  using mmap_alloc_low_outside [of "new_region 0x200100 0x200 MMAP_NONE" "0x1000000" "0x1000"]
  by (auto simp: new_region_def rg_end_def ALIGNUP_def PAGE_SIZE_def)

end
