(* ===== verification/Rbtree.thy ===== *)
theory Rbtree
  imports Prelude
begin

text \<open>
  The red-black tree of \<^verbatim>\<open>include/ds/rbtree.h\<close> and \<^verbatim>\<open>libk/ds/rbtree.c\<close>.  A node is addressed by its
  machine address, \<^verbatim>\<open>NULL\<close> is \<open>0\<close>, and \<^verbatim>\<open>parent_color\<close> packs the parent pointer with the colour in
  bit 0 as in the source.  An operation returns \<open>None\<close> when it would dereference \<^verbatim>\<open>NULL\<close> or not
  return; the loops are partial functions.
\<close>

section \<open>Nodes and accessors\<close>

record rb_node =
  parent_color :: u64
  left_ptr :: u64
  right_ptr :: u64

record rbtree =
  nodes :: "u64 \<Rightarrow> rb_node"
  root :: u64
  most_left :: u64

definition RB_PARENT_MASK :: u64 where "RB_PARENT_MASK = NOT 1"
definition RB_COLOR_MASK :: u64 where "RB_COLOR_MASK = NOT RB_PARENT_MASK"
definition RB_RED :: u64 where "RB_RED = 0"
definition RB_BLACK :: u64 where "RB_BLACK = 1"

definition deref :: "rbtree \<Rightarrow> u64 \<Rightarrow> rb_node option" where
  "deref tree p = (if p = 0 then None else Some (nodes tree p))"

definition update_node :: "rbtree \<Rightarrow> u64 \<Rightarrow> (rb_node \<Rightarrow> rb_node) \<Rightarrow> rbtree option" where
  "update_node tree p f =
     (if p = 0 then None else Some (tree\<lparr>nodes := (nodes tree)(p := f (nodes tree p))\<rparr>))"

definition get_left :: "rbtree \<Rightarrow> u64 \<Rightarrow> u64 option" where
  "get_left tree p = do { n \<leftarrow> deref tree p; Some (left_ptr n) }"

definition get_right :: "rbtree \<Rightarrow> u64 \<Rightarrow> u64 option" where
  "get_right tree p = do { n \<leftarrow> deref tree p; Some (right_ptr n) }"

definition set_left :: "rbtree \<Rightarrow> u64 \<Rightarrow> u64 \<Rightarrow> rbtree option" where
  "set_left tree p v = update_node tree p (\<lambda>n. n\<lparr>left_ptr := v\<rparr>)"

definition set_right :: "rbtree \<Rightarrow> u64 \<Rightarrow> u64 \<Rightarrow> rbtree option" where
  "set_right tree p v = update_node tree p (\<lambda>n. n\<lparr>right_ptr := v\<rparr>)"

definition rb_parent :: "rbtree \<Rightarrow> u64 \<Rightarrow> u64 option" where
  "rb_parent tree node = do { n \<leftarrow> deref tree node; Some (parent_color n AND RB_PARENT_MASK) }"

definition rb_color :: "rbtree \<Rightarrow> u64 \<Rightarrow> u64" where
  "rb_color tree node =
     (if node \<noteq> 0 then parent_color (nodes tree node) AND RB_COLOR_MASK else RB_BLACK)"

definition rb_grandparent :: "rbtree \<Rightarrow> u64 \<Rightarrow> u64 option" where
  "rb_grandparent tree node = do {
     parent \<leftarrow> rb_parent tree node;
     if parent = 0 then Some 0 else rb_parent tree parent }"

definition rb_sibling :: "rbtree \<Rightarrow> u64 \<Rightarrow> u64 option" where
  "rb_sibling tree node = do {
     parent \<leftarrow> rb_parent tree node;
     if parent = 0 then Some 0
     else do {
       l \<leftarrow> get_left tree parent;
       if node = l then get_right tree parent else get_left tree parent } }"

definition rb_uncle :: "rbtree \<Rightarrow> u64 \<Rightarrow> u64 option" where
  "rb_uncle tree node = do {
     parent \<leftarrow> rb_parent tree node;
     grandparent \<leftarrow> rb_grandparent tree node;
     if grandparent = 0 then Some 0 else rb_sibling tree parent }"

definition rb_set_color :: "rbtree \<Rightarrow> u64 \<Rightarrow> u64 \<Rightarrow> rbtree option" where
  "rb_set_color tree node color =
     (if color = 1 then update_node tree node (\<lambda>n. n\<lparr>parent_color := parent_color n OR 1\<rparr>)
      else if color = 0 then update_node tree node (\<lambda>n. n\<lparr>parent_color := parent_color n AND NOT 1\<rparr>)
      else Some tree)"

definition rb_set_parent :: "rbtree \<Rightarrow> u64 \<Rightarrow> u64 \<Rightarrow> rbtree option" where
  "rb_set_parent tree node parent =
     update_node tree node (\<lambda>n. n\<lparr>parent_color := parent OR rb_color tree node\<rparr>)"

text \<open>The target of \<^verbatim>\<open>struct rb_node **link\<close>: the root of the tree or a child field of a node.\<close>

datatype link = Root_link | Left_link u64 | Right_link u64

definition rb_link_node :: "rbtree \<Rightarrow> u64 \<Rightarrow> u64 \<Rightarrow> link \<Rightarrow> rbtree option" where
  "rb_link_node tree node parent link = do {
     t1 \<leftarrow> rb_set_parent tree node parent;
     t2 \<leftarrow> rb_set_color t1 node RB_RED;
     t3 \<leftarrow> set_right t2 node 0;
     t4 \<leftarrow> set_left t3 node 0;
     (case link of
        Root_link \<Rightarrow> Some (t4\<lparr>root := node\<rparr>)
      | Left_link p \<Rightarrow> set_left t4 p node
      | Right_link p \<Rightarrow> set_right t4 p node) }"

section \<open>Walking\<close>

partial_function (option) descend_left :: "rbtree \<Rightarrow> u64 \<Rightarrow> u64 option" where
  "descend_left tree node = do {
     l \<leftarrow> get_left tree node;
     if l \<noteq> 0 then descend_left tree l else Some node }"

partial_function (option) descend_right :: "rbtree \<Rightarrow> u64 \<Rightarrow> u64 option" where
  "descend_right tree node = do {
     r \<leftarrow> get_right tree node;
     if r \<noteq> 0 then descend_right tree r else Some node }"

definition rb_first_cached :: "rbtree \<Rightarrow> u64" where
  "rb_first_cached tree = most_left tree"

definition rb_first_uncached :: "rbtree \<Rightarrow> u64 option" where
  "rb_first_uncached tree = (if root tree = 0 then Some 0 else descend_left tree (root tree))"

partial_function (option) rb_next_up :: "rbtree \<Rightarrow> u64 \<Rightarrow> u64 option" where
  "rb_next_up tree node = do {
     parent \<leftarrow> rb_parent tree node;
     if parent = 0 then Some parent
     else do {
       r \<leftarrow> get_right tree parent;
       if node = r then rb_next_up tree parent else Some parent } }"

definition rb_next :: "rbtree \<Rightarrow> u64 \<Rightarrow> u64 option" where
  "rb_next tree node =
     (if node = 0 then Some 0
      else do {
        r \<leftarrow> get_right tree node;
        if r \<noteq> 0 then descend_left tree r else rb_next_up tree node })"

section \<open>Rotations\<close>

definition replace_child :: "rbtree \<Rightarrow> u64 \<Rightarrow> u64 \<Rightarrow> rbtree option" where
  "replace_child tree x y = do {
     xp \<leftarrow> rb_parent tree x;
     if xp = 0 then Some (tree\<lparr>root := y\<rparr>)
     else do {
       l \<leftarrow> get_left tree xp;
       if x = l then set_left tree xp y else set_right tree xp y } }"

definition rotate_right :: "rbtree \<Rightarrow> u64 \<Rightarrow> rbtree option" where
  "rotate_right tree x = do {
     y \<leftarrow> get_left tree x;
     yright \<leftarrow> get_right tree y;
     t1 \<leftarrow> set_left tree x yright;
     t2 \<leftarrow> (if yright \<noteq> 0 then rb_set_parent t1 yright x else Some t1);
     xp \<leftarrow> rb_parent t2 x;
     t3 \<leftarrow> rb_set_parent t2 y xp;
     t4 \<leftarrow> replace_child t3 x y;
     t5 \<leftarrow> set_right t4 y x;
     rb_set_parent t5 x y }"

definition rotate_left :: "rbtree \<Rightarrow> u64 \<Rightarrow> rbtree option" where
  "rotate_left tree x = do {
     y \<leftarrow> get_right tree x;
     yleft \<leftarrow> get_left tree y;
     t1 \<leftarrow> set_right tree x yleft;
     t2 \<leftarrow> (if yleft \<noteq> 0 then rb_set_parent t1 yleft x else Some t1);
     xp \<leftarrow> rb_parent t2 x;
     t3 \<leftarrow> rb_set_parent t2 y xp;
     t4 \<leftarrow> replace_child t3 x y;
     t5 \<leftarrow> set_left t4 y x;
     rb_set_parent t5 x y }"

section \<open>Insertion\<close>

definition insert_case1 :: "rbtree \<Rightarrow> u64 \<Rightarrow> rbtree option" where
  "insert_case1 tree node = do {
     t1 \<leftarrow> rb_set_color tree node RB_BLACK;
     Some (t1\<lparr>root := node\<rparr>) }"

definition insert_case2 :: "rbtree \<Rightarrow> u64 \<Rightarrow> rbtree option" where
  "insert_case2 tree node = Some tree"

definition insert_case3 :: "rbtree \<Rightarrow> u64 \<Rightarrow> (rbtree \<times> u64) option" where
  "insert_case3 tree node = do {
     parent \<leftarrow> rb_parent tree node;
     t1 \<leftarrow> rb_set_color tree parent RB_BLACK;
     uncle \<leftarrow> rb_uncle t1 node;
     t2 \<leftarrow> rb_set_color t1 uncle RB_BLACK;
     g \<leftarrow> rb_grandparent t2 node;
     t3 \<leftarrow> rb_set_color t2 g RB_RED;
     g' \<leftarrow> rb_grandparent t3 node;
     Some (t3, g') }"

definition insert_case4_inner :: "rbtree \<Rightarrow> u64 \<Rightarrow> (rbtree \<times> u64) option" where
  "insert_case4_inner tree node = do {
     parent \<leftarrow> rb_parent tree node;
     grandparent \<leftarrow> rb_grandparent tree node;
     gl \<leftarrow> get_left tree grandparent;
     glr \<leftarrow> (if gl \<noteq> 0 then get_right tree gl else Some 0);
     if gl \<noteq> 0 \<and> node = glr then do {
       t1 \<leftarrow> rotate_left tree parent;
       node' \<leftarrow> get_left t1 node;
       Some (t1, node') }
     else do {
       gr \<leftarrow> get_right tree grandparent;
       grl \<leftarrow> (if gr \<noteq> 0 then get_left tree gr else Some 0);
       if gr \<noteq> 0 \<and> node = grl then do {
         t1 \<leftarrow> rotate_right tree parent;
         node' \<leftarrow> get_right t1 node;
         Some (t1, node') }
       else Some (tree, node) } }"

definition insert_case4_outer :: "rbtree \<Rightarrow> u64 \<Rightarrow> rbtree option" where
  "insert_case4_outer tree node = do {
     parent \<leftarrow> rb_parent tree node;
     grandparent \<leftarrow> rb_grandparent tree node;
     pl \<leftarrow> get_left tree parent;
     t1 \<leftarrow> (if node = pl then rotate_right tree grandparent else rotate_left tree grandparent);
     t2 \<leftarrow> rb_set_color t1 parent RB_BLACK;
     rb_set_color t2 grandparent RB_RED }"

definition insert_case4 :: "rbtree \<Rightarrow> u64 \<Rightarrow> rbtree option" where
  "insert_case4 tree node = do {
     (t1, node') \<leftarrow> insert_case4_inner tree node;
     insert_case4_outer t1 node' }"

partial_function (option) rb_insert_loop :: "rbtree \<Rightarrow> u64 \<Rightarrow> rbtree option" where
  "rb_insert_loop tree node = do {
     parent \<leftarrow> rb_parent tree node;
     if parent = 0 then insert_case1 tree node
     else if rb_color tree parent = RB_BLACK then insert_case2 tree node
     else do {
       uncle \<leftarrow> rb_uncle tree node;
       if rb_color tree uncle = RB_RED then do {
         (t1, g) \<leftarrow> insert_case3 tree node;
         rb_insert_loop t1 g }
       else insert_case4 tree node } }"

definition rb_insert :: "rbtree \<Rightarrow> u64 \<Rightarrow> bool \<Rightarrow> rbtree option" where
  "rb_insert tree node is_most_left =
     (if node = 0 then Some tree
      else do {
        t1 \<leftarrow> rb_insert_loop tree node;
        l \<leftarrow> get_left t1 node;
        if is_most_left \<and> l = 0 then Some (t1\<lparr>most_left := node\<rparr>) else Some t1 })"

section \<open>Removal\<close>

definition rb_swap :: "rbtree \<Rightarrow> u64 \<Rightarrow> u64 \<Rightarrow> rbtree option" where
  "rb_swap tree x y = do {
     left \<leftarrow> get_left tree x;
     right \<leftarrow> get_right tree x;
     parent \<leftarrow> rb_parent tree x;
     t1 \<leftarrow> rb_set_parent tree y parent;
     t2 \<leftarrow> (if parent \<noteq> 0 then do {
              pl \<leftarrow> get_left t1 parent;
              if pl = x then set_left t1 parent y else set_right t1 parent y }
            else if root t1 = x then Some (t1\<lparr>root := y\<rparr>) else Some t1);
     t3 \<leftarrow> set_right t2 y right;
     t4 \<leftarrow> (if right \<noteq> 0 then rb_set_parent t3 right y else Some t3);
     t5 \<leftarrow> set_right t4 x 0;
     t6 \<leftarrow> set_left t5 y left;
     t7 \<leftarrow> (if left \<noteq> 0 then rb_set_parent t6 left y else Some t6);
     t8 \<leftarrow> set_left t7 x 0;
     t9 \<leftarrow> rb_set_color t8 y (rb_color t8 x);
     rb_set_parent t9 x 0 }"

definition rb_replace :: "rbtree \<Rightarrow> u64 \<Rightarrow> u64 \<Rightarrow> rbtree option" where
  "rb_replace tree victim target = do {
     v \<leftarrow> deref tree victim;
     t1 \<leftarrow> update_node tree target (\<lambda>_. v);
     l \<leftarrow> get_left t1 target;
     t2 \<leftarrow> (if l \<noteq> 0 then rb_set_parent t1 l target else Some t1);
     r \<leftarrow> get_right t2 target;
     t3 \<leftarrow> (if r \<noteq> 0 then rb_set_parent t2 r target else Some t2);
     Some (if victim = root t3 then t3\<lparr>root := target\<rparr> else t3) }"

definition erase_parent_link :: "rbtree \<Rightarrow> u64 \<Rightarrow> u64 \<Rightarrow> rbtree option" where
  "erase_parent_link tree node replacement = do {
     parent \<leftarrow> rb_parent tree node;
     if parent = 0 then Some (tree\<lparr>root := replacement\<rparr>)
     else do {
       l \<leftarrow> get_left tree parent;
       if l = node then set_left tree parent replacement
       else do {
         r \<leftarrow> get_right tree parent;
         if r = node then set_right tree parent replacement else Some tree } } }"

definition black_or_null :: "rbtree \<Rightarrow> u64 \<Rightarrow> bool" where
  "black_or_null tree p \<longleftrightarrow> p = 0 \<or> rb_color tree p = RB_BLACK"

definition sibling_of :: "rbtree \<Rightarrow> u64 \<Rightarrow> bool \<Rightarrow> u64 option" where
  "sibling_of tree xp is_left = (if is_left then get_right tree xp else get_left tree xp)"

text \<open>Case 1: a red sibling.\<close>

definition erase_case1 :: "rbtree \<Rightarrow> u64 \<Rightarrow> bool \<Rightarrow> u64 \<Rightarrow> (rbtree \<times> u64) option" where
  "erase_case1 tree xp is_left w =
     (if w \<noteq> 0 \<and> rb_color tree w = RB_RED then do {
        t1 \<leftarrow> rb_set_color tree w RB_BLACK;
        t2 \<leftarrow> rb_set_color t1 xp RB_RED;
        t3 \<leftarrow> (if is_left then rotate_left t2 xp else rotate_right t2 xp);
        w' \<leftarrow> sibling_of t3 xp is_left;
        Some (t3, w') }
      else Some (tree, w))"

text \<open>Cases 3a and 3b: the far nephew is black.\<close>

definition erase_case3 ::
  "rbtree \<Rightarrow> u64 \<Rightarrow> bool \<Rightarrow> u64 \<Rightarrow> u64 \<Rightarrow> u64 \<Rightarrow> (rbtree \<times> u64) option"
where
  "erase_case3 tree xp is_left w wleft wright =
     (if is_left \<and> black_or_null tree wright then do {
        t1 \<leftarrow> rb_set_color tree w RB_RED;
        t2 \<leftarrow> (if wleft \<noteq> 0 then rb_set_color t1 wleft RB_BLACK else Some t1);
        t3 \<leftarrow> rotate_right t2 w;
        w' \<leftarrow> get_right t3 xp;
        Some (t3, w') }
      else if \<not> is_left \<and> black_or_null tree wleft then do {
        t1 \<leftarrow> rb_set_color tree w RB_RED;
        t2 \<leftarrow> (if wright \<noteq> 0 then rb_set_color t1 wright RB_BLACK else Some t1);
        t3 \<leftarrow> rotate_left t2 w;
        w' \<leftarrow> get_left t3 xp;
        Some (t3, w') }
      else Some (tree, w))"

definition erase_case4 :: "rbtree \<Rightarrow> u64 \<Rightarrow> bool \<Rightarrow> u64 \<Rightarrow> rbtree option" where
  "erase_case4 tree xp is_left w = do {
     wleft \<leftarrow> get_left tree w;
     wright \<leftarrow> get_right tree w;
     t1 \<leftarrow> rb_set_color tree w (rb_color tree xp);
     t2 \<leftarrow> rb_set_color t1 xp RB_BLACK;
     if is_left \<and> wright \<noteq> 0 then do {
       t3 \<leftarrow> rb_set_color t2 wright RB_BLACK;
       rotate_left t3 xp }
     else if \<not> is_left \<and> wleft \<noteq> 0 then do {
       t3 \<leftarrow> rb_set_color t2 wleft RB_BLACK;
       rotate_right t3 xp }
     else Some t2 }"

text \<open>Case 2: both nephews are black; the next iteration is one level up.\<close>

definition erase_case2 :: "rbtree \<Rightarrow> u64 \<Rightarrow> u64 \<Rightarrow> (rbtree \<times> u64 \<times> u64 \<times> bool) option" where
  "erase_case2 tree xp w = do {
     t1 \<leftarrow> (if w \<noteq> 0 then rb_set_color tree w RB_RED else Some tree);
     xp' \<leftarrow> rb_parent t1 xp;
     l \<leftarrow> (if xp' \<noteq> 0 then get_left t1 xp' else Some 0);
     Some (t1, xp, xp', xp' \<noteq> 0 \<and> xp = l) }"

text \<open>One iteration: the tree and the values of \<^verbatim>\<open>x\<close>, \<^verbatim>\<open>xp\<close> and \<^verbatim>\<open>is_left\<close> after it.\<close>

definition erase_round :: "rbtree \<Rightarrow> u64 \<Rightarrow> bool \<Rightarrow> (rbtree \<times> u64 \<times> u64 \<times> bool) option" where
  "erase_round tree xp is_left = do {
     w0 \<leftarrow> sibling_of tree xp is_left;
     (t1, w) \<leftarrow> erase_case1 tree xp is_left w0;
     wleft \<leftarrow> (if w \<noteq> 0 then get_left t1 w else Some 0);
     wright \<leftarrow> (if w \<noteq> 0 then get_right t1 w else Some 0);
     if black_or_null t1 wleft \<and> black_or_null t1 wright then erase_case2 t1 xp w
     else do {
       (t2, w') \<leftarrow> erase_case3 t1 xp is_left w wleft wright;
       t3 \<leftarrow> erase_case4 t2 xp is_left w';
       Some (t3, root t3, xp, is_left) } }"

partial_function (option) erase_rebalance_loop ::
  "rbtree \<Rightarrow> u64 \<Rightarrow> u64 \<Rightarrow> bool \<Rightarrow> (rbtree \<times> u64) option"
where
  "erase_rebalance_loop tree x xp is_left =
     (if x \<noteq> root tree \<and> black_or_null tree x then do {
        (t1, x', xp', is_left') \<leftarrow> erase_round tree xp is_left;
        erase_rebalance_loop t1 x' xp' is_left' }
      else Some (tree, x))"

definition erase_rebalance :: "rbtree \<Rightarrow> u64 \<Rightarrow> u64 \<Rightarrow> bool \<Rightarrow> rbtree option" where
  "erase_rebalance tree node parent node_is_left = do {
     (t1, x) \<leftarrow> erase_rebalance_loop tree node parent node_is_left;
     if x \<noteq> 0 then rb_set_color t1 x RB_BLACK else Some t1 }"

text \<open>Unlinking \<open>y\<close>, which has at most one child \<open>x\<close>: the new tree, the parent of \<open>x\<close> and its side.\<close>

definition splice_out :: "rbtree \<Rightarrow> u64 \<Rightarrow> u64 \<Rightarrow> (rbtree \<times> u64 \<times> bool) option" where
  "splice_out tree y x = do {
     yp \<leftarrow> rb_parent tree y;
     t1 \<leftarrow> (if x \<noteq> 0 then rb_set_parent tree x yp else Some tree);
     xp \<leftarrow> (if x \<noteq> 0 then rb_parent t1 x else rb_parent t1 y);
     yp' \<leftarrow> rb_parent t1 y;
     if yp' = 0 then Some (t1\<lparr>root := x\<rparr>, 0, False)
     else do {
       l \<leftarrow> get_left t1 yp';
       if y = l then do { t2 \<leftarrow> set_left t1 yp' x; Some (t2, xp, True) }
       else do { t2 \<leftarrow> set_right t1 yp' x; Some (t2, xp, False) } } }"

definition erase_victim :: "rbtree \<Rightarrow> u64 \<Rightarrow> u64 option" where
  "erase_victim tree node = do {
     l \<leftarrow> get_left tree node;
     r \<leftarrow> get_right tree node;
     if l \<noteq> 0 \<and> r \<noteq> 0 then descend_right tree l else Some node }"

text \<open>
  The first half of \<^verbatim>\<open>rb_erase\<close>: the tree with the node unlinked, the values of \<^verbatim>\<open>x\<close>, \<^verbatim>\<open>xp\<close> and
  \<^verbatim>\<open>is_left\<close>, and the colour that went missing.
\<close>

definition erase_unlink :: "rbtree \<Rightarrow> u64 \<Rightarrow> (rbtree \<times> u64 \<times> u64 \<times> bool \<times> u64) option" where
  "erase_unlink tree node = do {
     y \<leftarrow> erase_victim tree node;
     yl \<leftarrow> get_left tree y;
     yr \<leftarrow> get_right tree y;
     let x = (if yl \<noteq> 0 then yl else yr);
     (t1, xp, is_left) \<leftarrow> splice_out tree y x;
     let y_color = rb_color t1 y;
     t2 \<leftarrow> (if y \<noteq> node then rb_swap t1 node y else Some t1);
     Some (t2, x, if y \<noteq> node \<and> xp = node then y else xp, is_left, y_color) }"

definition rb_erase :: "rbtree \<Rightarrow> u64 \<Rightarrow> rbtree option" where
  "rb_erase tree node =
     (if node = 0 then Some tree
      else do {
        t0 \<leftarrow> (if node = most_left tree
               then do { nx \<leftarrow> rb_next tree node; Some (tree\<lparr>most_left := nx\<rparr>) }
               else Some tree);
        (t2, x, xp, is_left, y_color) \<leftarrow> erase_unlink t0 node;
        t3 \<leftarrow> (if y_color = RB_BLACK then erase_rebalance t2 x xp is_left else Some t2);
        t4 \<leftarrow> set_left t3 node 0;
        t5 \<leftarrow> set_right t4 node 0;
        rb_set_parent t5 node 0 })"

end
