(* ===== verification/Rbtree_Rep.thy ===== *)
theory Rbtree_Rep
  imports Rbtree
begin

text \<open>
  What a heap of nodes represents.  \<open>rtree\<close> is the tree of addresses and colours; a position in a
  tree is a subtree together with the list of frames on the way to the root.  \<open>focus st t fs\<close>
  says that the heap represents the tree obtained by plugging \<open>t\<close> into \<open>fs\<close>; the lemmas give the
  effect of recolouring and rotating at the focus.
\<close>

section \<open>Trees and contexts\<close>

datatype color = Red | Black

datatype rtree = Lf | Nd rtree color u64 rtree

datatype side = SL | SR

datatype frame = Fr side color u64 rtree

fun cbit :: "color \<Rightarrow> u64" where
  "cbit Red = 0"
| "cbit Black = 1"

fun pt :: "rtree \<Rightarrow> u64" where
  "pt Lf = 0"
| "pt (Nd l c a r) = a"

fun addrs :: "rtree \<Rightarrow> u64 list" where
  "addrs Lf = []"
| "addrs (Nd l c a r) = addrs l @ a # addrs r"

fun plug1 :: "rtree \<Rightarrow> frame \<Rightarrow> rtree" where
  "plug1 t (Fr SL c a s) = Nd t c a s"
| "plug1 t (Fr SR c a s) = Nd s c a t"

fun plug :: "rtree \<Rightarrow> frame list \<Rightarrow> rtree" where
  "plug t [] = t"
| "plug t (f # fs) = plug (plug1 t f) fs"

text \<open>The addresses before and after the hole of a context, in order.\<close>

fun lctx :: "frame list \<Rightarrow> u64 list" where
  "lctx [] = []"
| "lctx (Fr SL c a s # fs) = lctx fs"
| "lctx (Fr SR c a s # fs) = lctx fs @ addrs s @ [a]"

fun rctx :: "frame list \<Rightarrow> u64 list" where
  "rctx [] = []"
| "rctx (Fr SL c a s # fs) = a # addrs s @ rctx fs"
| "rctx (Fr SR c a s # fs) = rctx fs"

fun par :: "frame list \<Rightarrow> u64" where
  "par [] = 0"
| "par (Fr d c a s # fs) = a"

fun croot :: "u64 \<Rightarrow> frame list \<Rightarrow> u64" where
  "croot p [] = p"
| "croot p (Fr d c a s # fs) = croot a fs"

lemma addrs_plug: "addrs (plug t fs) = lctx fs @ addrs t @ rctx fs"
  by (induction fs arbitrary: t rule: lctx.induct) auto

lemma plug_append: "plug t (fs @ gs) = plug (plug t fs) gs"
  by (induction fs arbitrary: t) auto

section \<open>Node records\<close>

definition aligned :: "u64 \<Rightarrow> bool" where
  "aligned p \<longleftrightarrow> p AND 1 = 0"

definition pack :: "u64 \<Rightarrow> color \<Rightarrow> u64" where
  "pack p c = p OR cbit c"

definition cell :: "u64 \<Rightarrow> color \<Rightarrow> u64 \<Rightarrow> u64 \<Rightarrow> rb_node" where
  "cell p c l r = \<lparr>parent_color = pack p c, left_ptr = l, right_ptr = r\<rparr>"

lemma aligned_0 [simp]: "aligned 0"
  by (simp add: aligned_def)

lemma bit_cbit: "bit (cbit c) n \<longleftrightarrow> c = Black \<and> n = 0"
  by (cases c) (auto simp: bit_1_iff)

lemma aligned_bit: "aligned p \<longleftrightarrow> \<not> bit p 0"
  by (simp add: aligned_def and_one_eq odd_iff_mod_2_eq_one bit_0 even_iff_mod_2_eq_zero)

lemma pack_parent: "aligned p \<Longrightarrow> pack p c AND RB_PARENT_MASK = p"
  by (rule bit_eqI) (auto simp: pack_def RB_PARENT_MASK_def bit_simps bit_cbit aligned_bit intro!: gr0I)

lemma pack_color: "aligned p \<Longrightarrow> pack p c AND RB_COLOR_MASK = cbit c"
  by (rule bit_eqI)
    (auto simp: pack_def RB_COLOR_MASK_def RB_PARENT_MASK_def bit_simps bit_cbit aligned_bit intro!: gr0I)

lemma pack_set: "aligned p \<Longrightarrow> pack p c OR 1 = pack p Black" "aligned p \<Longrightarrow> pack p c AND NOT 1 = pack p Red"
  by (rule bit_eqI, auto simp: pack_def bit_simps bit_cbit aligned_bit intro!: gr0I)+

lemma pack_clear: "aligned p \<Longrightarrow> pack p c AND - 2 = pack p Red"
  using pack_set(2) [of p c] by simp

lemma cbit_eq [simp]: "cbit c = cbit d \<longleftrightarrow> c = d"
  by (cases c; cases d) auto

lemma RB_RED_cbit: "RB_RED = cbit Red" and RB_BLACK_cbit: "RB_BLACK = cbit Black"
  by (simp_all add: RB_RED_def RB_BLACK_def)

lemma cell_sel [simp]:
  "left_ptr (cell p c l r) = l" "right_ptr (cell p c l r) = r" "parent_color (cell p c l r) = pack p c"
  by (simp_all add: cell_def)

lemma cell_upd [simp]:
  "(cell p c l r)\<lparr>left_ptr := v\<rparr> = cell p c v r" "(cell p c l r)\<lparr>right_ptr := v\<rparr> = cell p c l v"
  "(cell p c l r)\<lparr>parent_color := q OR cbit d\<rparr> = cell q d l r"
  by (simp_all add: cell_def pack_def)

lemma nodes_update_id [simp]: "nodes (st\<lparr>nodes := h\<rparr>) = h" "root (st\<lparr>nodes := h\<rparr>) = root st"
  "most_left (st\<lparr>nodes := h\<rparr>) = most_left st"
  by simp_all

named_theorems acc

lemma get_left_cell [acc]: "nodes st a = cell p c l r \<Longrightarrow> a \<noteq> 0 \<Longrightarrow> get_left st a = Some l"
  by (simp add: get_left_def deref_def)

lemma get_right_cell [acc]: "nodes st a = cell p c l r \<Longrightarrow> a \<noteq> 0 \<Longrightarrow> get_right st a = Some r"
  by (simp add: get_right_def deref_def)

lemma rb_parent_cell [acc]:
  "nodes st a = cell p c l r \<Longrightarrow> a \<noteq> 0 \<Longrightarrow> aligned p \<Longrightarrow> rb_parent st a = Some p"
  by (simp add: rb_parent_def deref_def pack_parent)

lemma rb_color_cell [acc]:
  "nodes st a = cell p c l r \<Longrightarrow> a \<noteq> 0 \<Longrightarrow> aligned p \<Longrightarrow> rb_color st a = cbit c"
  by (simp add: rb_color_def pack_color)

lemma rb_color_0 [acc]: "rb_color st 0 = cbit Black"
  by (simp add: rb_color_def RB_BLACK_def)

lemma set_left_cell [acc]:
  "nodes st a = cell p c l r \<Longrightarrow> a \<noteq> 0 \<Longrightarrow>
     set_left st a v = Some (st\<lparr>nodes := (nodes st)(a := cell p c v r)\<rparr>)"
  by (simp add: set_left_def update_node_def)

lemma set_right_cell [acc]:
  "nodes st a = cell p c l r \<Longrightarrow> a \<noteq> 0 \<Longrightarrow>
     set_right st a v = Some (st\<lparr>nodes := (nodes st)(a := cell p c l v)\<rparr>)"
  by (simp add: set_right_def update_node_def)

lemma rb_set_parent_cell [acc]:
  "nodes st a = cell p c l r \<Longrightarrow> a \<noteq> 0 \<Longrightarrow> aligned p \<Longrightarrow>
     rb_set_parent st a q = Some (st\<lparr>nodes := (nodes st)(a := cell q c l r)\<rparr>)"
  by (simp add: rb_set_parent_def update_node_def rb_color_cell)

lemma rb_set_color_cell [acc]:
  "nodes st a = cell p c l r \<Longrightarrow> a \<noteq> 0 \<Longrightarrow> aligned p \<Longrightarrow>
     rb_set_color st a (cbit d) = Some (st\<lparr>nodes := (nodes st)(a := cell p d l r)\<rparr>)"
  by (cases d) (simp_all add: rb_set_color_def update_node_def pack_set(1) pack_clear cell_def)

section \<open>Representation\<close>

fun rep :: "(u64 \<Rightarrow> rb_node) \<Rightarrow> u64 \<Rightarrow> rtree \<Rightarrow> bool" where
  "rep h p Lf \<longleftrightarrow> True"
| "rep h p (Nd l c a r) \<longleftrightarrow>
     a \<noteq> 0 \<and> aligned a \<and> aligned p \<and> h a = cell p c (pt l) (pt r) \<and> rep h a l \<and> rep h a r"

fun crep :: "(u64 \<Rightarrow> rb_node) \<Rightarrow> u64 \<Rightarrow> frame list \<Rightarrow> bool" where
  "crep h p [] \<longleftrightarrow> True"
| "crep h p (Fr d c a s # fs) \<longleftrightarrow>
     a \<noteq> 0 \<and> aligned a \<and> aligned (par fs) \<and>
     h a = cell (par fs) c (if d = SL then p else pt s) (if d = SL then pt s else p) \<and>
     rep h a s \<and> crep h a fs"

definition focus :: "rbtree \<Rightarrow> rtree \<Rightarrow> frame list \<Rightarrow> bool" where
  "focus st t fs \<longleftrightarrow>
     rep (nodes st) (par fs) t \<and> crep (nodes st) (pt t) fs \<and> root st = croot (pt t) fs \<and>
     distinct (lctx fs @ addrs t @ rctx fs)"

abbreviation holds :: "rbtree \<Rightarrow> rtree \<Rightarrow> bool" where
  "holds st t \<equiv> focus st t []"

lemma focus_up: "focus st (plug1 t f) fs = focus st t (f # fs)"
  by (cases "(t, f)" rule: plug1.cases) (auto simp: focus_def)

lemma focus_plug: "focus st (plug t gs) fs = focus st t (gs @ fs)"
  by (induction gs arbitrary: t) (auto simp: focus_up)

lemma holds_plug: "holds st (plug t fs) = focus st t fs"
  using focus_plug [of st t fs "[]"] by simp

lemma pt_addrs: "pt t = 0 \<or> pt t \<in> set (addrs t)"
  by (cases t) auto

lemma rep_upd [simp]: "a \<notin> set (addrs t) \<Longrightarrow> rep (h(a := n)) p t = rep h p t"
  by (induction t arbitrary: p) auto

lemma crep_upd [simp]:
  "a \<notin> set (lctx fs) \<Longrightarrow> a \<notin> set (rctx fs) \<Longrightarrow> crep (h(a := n)) p fs = crep h p fs"
  by (induction fs arbitrary: p rule: lctx.induct) auto

lemma rep_pt0: "rep h p t \<Longrightarrow> pt t = 0 \<longleftrightarrow> t = Lf"
  by (cases t) auto

lemma crep_par: "crep h p fs \<Longrightarrow> aligned (par fs)"
  by (cases fs rule: par.cases) auto

lemma crep_par_0: "crep h p fs \<Longrightarrow> par fs = 0 \<longleftrightarrow> fs = []"
  by (cases fs rule: par.cases) auto

section \<open>Operations at the focus\<close>

text \<open>Only nodes of the tree change, and the cached leftmost pointer does not.\<close>

definition within :: "u64 set \<Rightarrow> rbtree \<Rightarrow> rbtree \<Rightarrow> bool" where
  "within S st st' \<longleftrightarrow> most_left st' = most_left st \<and> (\<forall>a. a \<notin> S \<longrightarrow> nodes st' a = nodes st a)"

lemma within_refl [simp]: "within S st st"
  by (simp add: within_def)

lemma within_trans: "within S a b \<Longrightarrow> within S b c \<Longrightarrow> within S a c"
  by (simp add: within_def)

definition tree_set :: "rtree \<Rightarrow> frame list \<Rightarrow> u64 set" where
  "tree_set t fs = set (lctx fs) \<union> set (addrs t) \<union> set (rctx fs)"

lemma tree_set_up: "tree_set (plug1 t f) fs = tree_set t (f # fs)"
  by (cases "(t, f)" rule: plug1.cases) (auto simp: tree_set_def)

lemma focus_cell:
  assumes "focus st (Nd l c a r) fs"
  shows "a \<noteq> 0" "aligned a" "aligned (par fs)" "nodes st a = cell (par fs) c (pt l) (pt r)"
  using assms by (auto simp: focus_def)

lemma set_color_focus:
  assumes "focus st (Nd l c a r) fs"
  shows "\<exists>st'. rb_set_color st a (cbit d) = Some st' \<and> focus st' (Nd l d a r) fs \<and>
           within (tree_set (Nd l c a r) fs) st st'"
  using assms rb_set_color_cell [of st a "par fs" c "pt l" "pt r" d]
  by (auto simp: focus_def within_def tree_set_def)

lemma rotate_left_focus:
  assumes "focus st (Nd A cx x (Nd B cy y C)) fs"
  shows "\<exists>st'. rotate_left st x = Some st' \<and> focus st' (Nd (Nd A cx x B) cy y C) fs \<and>
           within (tree_set (Nd A cx x (Nd B cy y C)) fs) st st'"
proof (cases fs rule: lctx.cases)
  case 1
  then show ?thesis using assms
    by (cases B) (auto simp: rotate_left_def replace_child_def acc focus_def within_def tree_set_def)
next
  case (2 d a s fs')
  then show ?thesis using assms
    by (cases B) (auto simp: rotate_left_def replace_child_def acc focus_def within_def tree_set_def)
next
  case (3 d a s fs')
  then show ?thesis using assms pt_addrs [of s]
    by (cases B) (auto simp: rotate_left_def replace_child_def acc focus_def within_def tree_set_def)
qed

lemma rotate_right_focus:
  assumes "focus st (Nd (Nd A cy y B) cx x C) fs"
  shows "\<exists>st'. rotate_right st x = Some st' \<and> focus st' (Nd A cy y (Nd B cx x C)) fs \<and>
           within (tree_set (Nd (Nd A cy y B) cx x C) fs) st st'"
proof (cases fs rule: lctx.cases)
  case 1
  then show ?thesis using assms
    by (cases B) (auto simp: rotate_right_def replace_child_def acc focus_def within_def tree_set_def)
next
  case (2 d a s fs')
  then show ?thesis using assms
    by (cases B) (auto simp: rotate_right_def replace_child_def acc focus_def within_def tree_set_def)
next
  case (3 d a s fs')
  then show ?thesis using assms pt_addrs [of s]
    by (cases B) (auto simp: rotate_right_def replace_child_def acc focus_def within_def tree_set_def)
qed

text \<open>
  \<open>at S st0 st t fs\<close>: the state \<open>st\<close>, reached from \<open>st0\<close> by changing nodes of \<open>S\<close> only, represents \<open>t\<close>
  plugged into \<open>fs\<close>, and \<open>S\<close> is the set of nodes of that tree.
\<close>

definition at :: "u64 set \<Rightarrow> rbtree \<Rightarrow> rbtree \<Rightarrow> rtree \<Rightarrow> frame list \<Rightarrow> bool" where
  "at S st0 st t fs \<longleftrightarrow> focus st t fs \<and> tree_set t fs = S \<and> within S st0 st"

lemma at_focus: "at S st0 st t fs \<Longrightarrow> focus st t fs"
  by (simp add: at_def)

lemma at_start: "focus st t fs \<Longrightarrow> at (tree_set t fs) st st t fs"
  by (simp add: at_def)

lemma at_up: "at S st0 st (plug1 t f) fs = at S st0 st t (f # fs)"
  by (simp add: at_def focus_up tree_set_up)

lemmas at_down_left = at_up [of _ _ _ _ "Fr SL _ _ _", simplified]
lemmas at_down_right = at_up [of _ _ _ _ "Fr SR _ _ _", simplified]

lemmas go_left = at_down_left [THEN iffD1] and go_right = at_down_right [THEN iffD1]
lemmas from_left = at_down_left [THEN iffD2] and from_right = at_down_right [THEN iffD2]

lemma at_plug: "at S st0 st (plug t gs) fs = at S st0 st t (gs @ fs)"
  by (induction gs arbitrary: t) (auto simp: at_up)

lemma at_step:
  assumes "at S st0 st t fs" "focus st' t' fs" "within (tree_set t fs) st st'" "set (addrs t') = set (addrs t)"
  shows "at S st0 st' t' fs"
  using assms by (auto simp: at_def tree_set_def intro: within_trans)

lemma at_color:
  assumes "at S st0 st (Nd l c a r) fs"
  shows "\<exists>st'. rb_set_color st a (cbit d) = Some st' \<and> at S st0 st' (Nd l d a r) fs"
  using set_color_focus [OF at_focus [OF assms]] at_step [OF assms] by fastforce

text \<open>Recolouring the node of a frame, and the root of its other subtree.\<close>

lemma at_color_frame:
  assumes "at S st0 st t (Fr d c p s # fs)"
  shows "\<exists>st'. rb_set_color st p (cbit c') = Some st' \<and> at S st0 st' t (Fr d c' p s # fs)"
proof (cases d)
  case SL
  then show ?thesis using at_color [of S st0 st t c p s fs c'] assms at_down_left by simp
next
  case SR
  then show ?thesis using at_color [of S st0 st s c p t fs c'] assms at_down_right by simp
qed

lemma at_color_sibling:
  assumes "at S st0 st t (Fr d c p (Nd l cs q r) # fs)"
  shows "\<exists>st'. rb_set_color st q (cbit c') = Some st' \<and> at S st0 st' t (Fr d c p (Nd l c' q r) # fs)"
proof (cases d)
  case SL
  then have "at S st0 st (Nd l cs q r) (Fr SR c p t # fs)"
    using assms at_down_left at_down_right by metis
  from at_color [OF this, of c'] show ?thesis using SL at_down_left at_down_right by metis
next
  case SR
  then have "at S st0 st (Nd l cs q r) (Fr SL c p t # fs)"
    using assms at_down_left at_down_right by metis
  from at_color [OF this, of c'] show ?thesis using SR at_down_left at_down_right by metis
qed

lemma at_rotate_left:
  assumes "at S st0 st (Nd A cx x (Nd B cy y C)) fs"
  shows "\<exists>st'. rotate_left st x = Some st' \<and> at S st0 st' (Nd (Nd A cx x B) cy y C) fs"
proof -
  obtain st' where "rotate_left st x = Some st'" "focus st' (Nd (Nd A cx x B) cy y C) fs"
    "within (tree_set (Nd A cx x (Nd B cy y C)) fs) st st'"
    using rotate_left_focus [OF at_focus [OF assms]] by blast
  then show ?thesis using at_step [OF assms, of st' "Nd (Nd A cx x B) cy y C"] by simp
qed

lemma at_rotate_right:
  assumes "at S st0 st (Nd (Nd A cy y B) cx x C) fs"
  shows "\<exists>st'. rotate_right st x = Some st' \<and> at S st0 st' (Nd A cy y (Nd B cx x C)) fs"
proof -
  obtain st' where "rotate_right st x = Some st'" "focus st' (Nd A cy y (Nd B cx x C)) fs"
    "within (tree_set (Nd (Nd A cy y B) cx x C) fs) st st'"
    using rotate_right_focus [OF at_focus [OF assms]] by blast
  then show ?thesis using at_step [OF assms, of st' "Nd A cy y (Nd B cx x C)"] by simp
qed

lemma frame_cell:
  assumes "focus st t (Fr d c p s # fs)"
  shows "p \<noteq> 0" "aligned p" "aligned (par fs)"
    and "nodes st p = cell (par fs) c (if d = SL then pt t else pt s) (if d = SL then pt s else pt t)"
  using assms by (auto simp: focus_def)

lemma frame_neq:
  assumes "focus st (Nd l c a r) (Fr d cp p s # fs)"
  shows "a \<noteq> p" "pt s \<noteq> a"
  using assms pt_addrs [of s] by (cases d; auto simp: focus_def)+

lemma parent_focus:
  assumes "focus st (Nd l c a r) (Fr d cp p s # fs)"
  shows "rb_parent st a = Some p" "p \<noteq> 0" "rb_color st p = cbit cp"
  using focus_cell [OF assms] frame_cell [OF assms] by (simp_all add: acc)

section \<open>Red-black trees\<close>

fun black :: "rtree \<Rightarrow> bool" where
  "black Lf \<longleftrightarrow> True"
| "black (Nd l c a r) \<longleftrightarrow> c = Black"

lemma rb_color_pt:
  assumes "rep (nodes st) q t"
  shows "rb_color st (pt t) = cbit (if black t then Black else Red)"
  using assms color.exhaust by (cases t) (auto simp: acc)

text \<open>\<open>rbt t n\<close>: no red node has a red child and every path has \<open>n\<close> black nodes.\<close>

fun rbt :: "rtree \<Rightarrow> nat \<Rightarrow> bool" where
  "rbt Lf n \<longleftrightarrow> n = 0"
| "rbt (Nd l Black a r) n \<longleftrightarrow> 0 < n \<and> rbt l (n - 1) \<and> rbt r (n - 1)"
| "rbt (Nd l Red a r) n \<longleftrightarrow> black l \<and> black r \<and> rbt l n \<and> rbt r n"

definition redblack :: "rtree \<Rightarrow> bool" where
  "redblack t \<longleftrightarrow> black t \<and> (\<exists>n. rbt t n)"

fun top_black :: "frame list \<Rightarrow> bool" where
  "top_black [] \<longleftrightarrow> False"
| "top_black (Fr d c a s # fs) \<longleftrightarrow> c = Black"

text \<open>A context that becomes a red-black tree when a tree of black height \<open>n\<close> is plugged in.\<close>

fun crb :: "frame list \<Rightarrow> nat \<Rightarrow> bool" where
  "crb [] n \<longleftrightarrow> True"
| "crb (Fr d Black a s # fs) n \<longleftrightarrow> rbt s n \<and> crb fs (Suc n)"
| "crb (Fr d Red a s # fs) n \<longleftrightarrow> black s \<and> rbt s n \<and> top_black fs \<and> crb fs n"

lemma plug_redblack:
  "rbt t n \<Longrightarrow> crb fs n \<Longrightarrow> black t \<or> top_black fs \<Longrightarrow> redblack (plug t fs)"
proof (induction fs arbitrary: t n)
  case Nil
  then show ?case by (auto simp: redblack_def)
next
  case (Cons f fs)
  obtain d c a s where f: "f = Fr d c a s" by (cases f)
  show ?case
  proof (cases c)
    case Red
    then show ?thesis using Cons.prems Cons.IH [of "plug1 t f" n] f by (cases d) auto
  next
    case Black
    then show ?thesis using Cons.prems Cons.IH [of "plug1 t f" "Suc n"] f by (cases d) auto
  qed
qed

lemma redblack_plug:
  assumes "redblack (plug t fs)"
  shows "\<exists>n. rbt t n \<and> crb fs n \<and> (black t \<or> top_black fs)"
  using assms
proof (induction fs arbitrary: t)
  case Nil
  then show ?case by (auto simp: redblack_def)
next
  case (Cons f fs)
  obtain d c a s where f: "f = Fr d c a s" by (cases f)
  obtain n where n: "rbt (plug1 t f) n" "crb fs n" "black (plug1 t f) \<or> top_black fs"
    using Cons by fastforce
  show ?case
  proof (cases c)
    case Red
    then show ?thesis using n f by (cases d) auto
  next
    case Black
    then show ?thesis using n f by (cases d) (auto intro: exI [of _ "n - 1"])
  qed
qed

end
