(* ===== verification/Rbtree_Insert.thy ===== *)
theory Rbtree_Insert
  imports Rbtree_Rep
begin

text \<open>
  Insertion into the red-black tree: linking a leaf and rebalancing return, keep the in-order
  sequence with the new node at its place, and give a red-black tree again.
\<close>

section \<open>The cases of the loop\<close>

lemmas rel_defs = rb_uncle_def rb_grandparent_def rb_sibling_def RB_RED_cbit RB_BLACK_cbit

text \<open>The relatives of a node two levels below the top of its context.\<close>

lemma relatives:
  assumes "focus st (Nd l c a r) (Fr d cp p s # Fr e cg g u # fs)"
  shows "rb_parent st a = Some p" "rb_grandparent st a = Some g"
    and "get_left st p = Some (if d = SL then a else pt s)" "get_right st p = Some (if d = SL then pt s else a)"
    and "get_left st g = Some (if e = SL then p else pt u)" "get_right st g = Some (if e = SL then pt u else p)"
    and "rb_uncle st a = Some (pt u)" "rb_color st p = cbit cp" "p \<noteq> 0" "g \<noteq> 0" "pt s \<noteq> a" "pt u \<noteq> p"
proof -
  note a = focus_cell [OF assms] and p = frame_cell [OF assms] and na = frame_neq [OF assms]
  obtain l' r' where P: "focus st (Nd l' cp p r') (Fr e cg g u # fs)"
    using assms by (cases d) (auto simp flip: focus_up)
  note g = frame_cell [OF P] and np = frame_neq [OF P]
  show "rb_parent st a = Some p" "rb_grandparent st a = Some g" "p \<noteq> 0" "g \<noteq> 0" "pt s \<noteq> a" "pt u \<noteq> p"
    "rb_color st p = cbit cp"
    using a p g na np by (simp_all add: acc rb_grandparent_def)
  show "get_left st p = Some (if d = SL then a else pt s)" "get_right st p = Some (if d = SL then pt s else a)"
    using p by (simp_all add: acc)
  show "get_left st g = Some (if e = SL then p else pt u)" "get_right st g = Some (if e = SL then pt u else p)"
    using g by (simp_all add: acc)
  then show "rb_uncle st a = Some (pt u)"
    using a p g np by (auto simp add: acc rb_uncle_def rb_grandparent_def rb_sibling_def)
qed

lemma at_case3:
  assumes "at S st0 st (Nd l c a r) (Fr d cp p s # Fr e cg g (Nd ul cu u ur) # fs)"
  shows "\<exists>st'. insert_case3 st a = Some (st', g) \<and>
           at S st0 st' (Nd l c a r) (Fr d Black p s # Fr e Red g (Nd ul Black u ur) # fs)"
proof -
  note r0 = relatives [OF at_focus [OF assms]]
  obtain t1 where t1: "rb_set_color st p RB_BLACK = Some t1"
    "at S st0 t1 (Nd l c a r) (Fr d Black p s # Fr e cg g (Nd ul cu u ur) # fs)"
    using at_color_frame [OF assms, of Black] unfolding RB_BLACK_cbit by blast
  note r1 = relatives [OF at_focus [OF t1(2)]]
  obtain t2 where t2: "rb_set_color t1 u RB_BLACK = Some t2"
    "at S st0 t2 (Nd l c a r) (Fr d Black p s # Fr e cg g (Nd ul Black u ur) # fs)"
    using at_color_sibling [OF t1(2) [folded at_up [of _ _ _ _ "Fr d _ _ _"]], of Black]
    unfolding RB_BLACK_cbit at_up by blast
  note r2 = relatives [OF at_focus [OF t2(2)]]
  obtain t3 where t3: "rb_set_color t2 g RB_RED = Some t3"
    "at S st0 t3 (Nd l c a r) (Fr d Black p s # Fr e Red g (Nd ul Black u ur) # fs)"
    using at_color_frame [OF t2(2) [folded at_up [of _ _ _ _ "Fr d _ _ _"]], of Red]
    unfolding RB_RED_cbit at_up by blast
  note r3 = relatives [OF at_focus [OF t3(2)]]
  show ?thesis using t1(1) t2(1) t3 r0 r1 r2 r3 by (auto simp: insert_case3_def)
qed

lemma at_case4_outer_left:
  assumes "at S st0 st (Nd (Nd (Nd A Red x B) Red p C) Black g U) fs"
  shows "\<exists>st'. insert_case4_outer st x = Some st' \<and>
           at S st0 st' (Nd (Nd A Red x B) Black p (Nd C Red g U)) fs"
proof -
  have x: "focus st (Nd A Red x B) (Fr SL Red p C # Fr SL Black g U # fs)"
    using at_focus [OF assms] by (simp flip: focus_up)
  obtain t1 where t1: "rotate_right st g = Some t1"
    "at S st0 t1 (Nd (Nd A Red x B) Red p (Nd C Black g U)) fs"
    using at_rotate_right [OF assms] by blast
  obtain t2 where t2: "rb_set_color t1 p RB_BLACK = Some t2"
    "at S st0 t2 (Nd (Nd A Red x B) Black p (Nd C Black g U)) fs"
    using at_color [OF t1(2), of Black] unfolding RB_BLACK_cbit by blast
  obtain t3 where "rb_set_color t2 g RB_RED = Some t3"
    "at S st0 t3 (Nd (Nd A Red x B) Black p (Nd C Red g U)) fs"
    using at_color [OF go_right [OF t2(2)], of Red] from_right unfolding RB_RED_cbit by blast
  then show ?thesis using t1(1) t2(1) relatives [OF x] by (simp add: insert_case4_outer_def)
qed

lemma at_case4_outer_right:
  assumes "at S st0 st (Nd U Black g (Nd C Red p (Nd A Red x B))) fs"
  shows "\<exists>st'. insert_case4_outer st x = Some st' \<and>
           at S st0 st' (Nd (Nd U Red g C) Black p (Nd A Red x B)) fs"
proof -
  have x: "focus st (Nd A Red x B) (Fr SR Red p C # Fr SR Black g U # fs)"
    using at_focus [OF assms] by (simp flip: focus_up)
  obtain t1 where t1: "rotate_left st g = Some t1"
    "at S st0 t1 (Nd (Nd U Black g C) Red p (Nd A Red x B)) fs"
    using at_rotate_left [OF assms] by blast
  obtain t2 where t2: "rb_set_color t1 p RB_BLACK = Some t2"
    "at S st0 t2 (Nd (Nd U Black g C) Black p (Nd A Red x B)) fs"
    using at_color [OF t1(2), of Black] unfolding RB_BLACK_cbit by blast
  obtain t3 where "rb_set_color t2 g RB_RED = Some t3"
    "at S st0 t3 (Nd (Nd U Red g C) Black p (Nd A Red x B)) fs"
    using at_color [OF go_left [OF t2(2)], of Red] from_left unfolding RB_RED_cbit by blast
  then show ?thesis using t1(1) t2(1) relatives [OF x] by (simp add: insert_case4_outer_def)
qed

lemma uncle_children:
  assumes "focus st (Nd l c a r) (Fr d cp p s # Fr e cg g u # fs)" "pt u \<noteq> 0"
  shows "\<exists>x y. get_left st (pt u) = Some x \<and> get_right st (pt u) = Some y \<and> x \<noteq> a \<and> y \<noteq> a"
proof -
  obtain ul cu ua ur where u: "u = Nd ul cu ua ur" using assms(2) by (cases u) auto
  have a0: "a \<noteq> 0" using focus_cell [OF assms(1)] by simp
  have "rep (nodes st) g u" and dis: "a \<notin> set (addrs u)"
    using assms(1) by (cases d; cases e; auto simp: focus_def)+
  then have "nodes st ua = cell g cu (pt ul) (pt ur)" "ua \<noteq> 0" using u by auto
  moreover have "pt ul \<noteq> a" "pt ur \<noteq> a" using dis u a0 pt_addrs [of ul] pt_addrs [of ur] by auto
  ultimately show ?thesis using u by (simp add: acc)
qed

lemma at_case4_inner:
  assumes "at S st0 st (Nd l Red a r) (Fr d Red p s # Fr e cg g u # fs)"
  shows "\<exists>st' x A B C. insert_case4_inner st a = Some (st', x) \<and>
           at S st0 st' (Nd A Red x B) (Fr e Red (if d = e then p else a) C # Fr e cg g u # fs) \<and>
           addrs (plug1 (Nd A Red x B) (Fr e Red (if d = e then p else a) C)) =
             addrs (plug1 (Nd l Red a r) (Fr d Red p s)) \<and> {A, B, C} = {l, r, s}"
proof -
  note F = at_focus [OF assms]
  note R = relatives [OF F]
  have uc: "pt u \<noteq> 0 \<Longrightarrow> \<exists>x y. get_left st (pt u) = Some x \<and> get_right st (pt u) = Some y \<and> x \<noteq> a \<and> y \<noteq> a"
    by (rule uncle_children [OF F])
  have na: "a \<noteq> 0" using focus_cell [OF F] by simp
  show ?thesis
  proof (cases "d = e")
    case True
    have "insert_case4_inner st a = Some (st, a)"
      using R uc True by (cases e; cases "pt u = 0") (auto simp: insert_case4_inner_def)
    then show ?thesis using True assms by fastforce
  next
    case False
    show ?thesis
    proof (cases e)
      case SL
      then have d: "d = SR" using False by (cases d) auto
      have "at S st0 st (Nd s Red p (Nd l Red a r)) (Fr SL cg g u # fs)"
        using assms SL d by (simp add: from_right)
      from at_rotate_left [OF this] obtain t1 where t1: "rotate_left st p = Some t1"
        "at S st0 t1 (Nd (Nd s Red p l) Red a r) (Fr SL cg g u # fs)" by blast
      then have "get_left t1 a = Some p" using focus_cell [OF at_focus [OF t1(2)]] by (simp add: acc)
      then have "insert_case4_inner st a = Some (t1, p)"
        using R t1(1) SL d by (simp add: insert_case4_inner_def)
      then show ?thesis using SL d go_left [OF t1(2)] by (fastforce intro!: exI)
    next
      case SR
      then have d: "d = SL" using False by (cases d) auto
      have "at S st0 st (Nd (Nd l Red a r) Red p s) (Fr SR cg g u # fs)"
        using assms SR d by (simp add: from_left)
      from at_rotate_right [OF this] obtain t1 where t1: "rotate_right st p = Some t1"
        "at S st0 t1 (Nd l Red a (Nd r Red p s)) (Fr SR cg g u # fs)" by blast
      then have "get_right t1 a = Some p" using focus_cell [OF at_focus [OF t1(2)]] by (simp add: acc)
      then have "insert_case4_inner st a = Some (t1, p)"
        using R t1(1) SR d uc by (cases "pt u = 0") (auto simp: insert_case4_inner_def)
      then show ?thesis using SR d go_right [OF t1(2)] by (fastforce intro!: exI)
    qed
  qed
qed

lemma at_case4:
  assumes at: "at S st0 st (Nd l Red a r) (Fr d Red p s # Fr e Black g u # fs)"
    and rb: "rbt l n" "rbt r n" "rbt s n" "rbt u n" "black l" "black r" "black s" "black u"
  shows "\<exists>st' t. insert_case4 st a = Some st' \<and> at S st0 st' t fs \<and> rbt t (Suc n) \<and> black t \<and>
           addrs t = addrs (plug1 (plug1 (Nd l Red a r) (Fr d Red p s)) (Fr e Black g u))"
proof -
  let ?q = "if d = e then p else a"
  obtain t1 x A B C where t1: "insert_case4_inner st a = Some (t1, x)"
    "at S st0 t1 (Nd A Red x B) (Fr e Red ?q C # Fr e Black g u # fs)"
    "addrs (plug1 (Nd A Red x B) (Fr e Red ?q C)) = addrs (plug1 (Nd l Red a r) (Fr d Red p s))"
    "{A, B, C} = {l, r, s}"
    using at_case4_inner [OF at] by blast
  have "\<forall>X \<in> {A, B, C}. rbt X n \<and> black X" unfolding t1(4) using rb by simp
  then have ABC: "rbt A n" "rbt B n" "rbt C n" "black A" "black B" "black C" by simp_all
  show ?thesis
  proof (cases e)
    case SL
    have "at S st0 t1 (Nd (Nd (Nd A Red x B) Red ?q C) Black g u) fs"
      using t1(2) SL by (simp add: from_left)
    from at_case4_outer_left [OF this] obtain t2 where "insert_case4_outer t1 x = Some t2"
      "at S st0 t2 (Nd (Nd A Red x B) Black ?q (Nd C Red g u)) fs" by blast
    then show ?thesis using t1(1,3) ABC rb SL
      by (intro exI [of _ t2] exI [of _ "Nd (Nd A Red x B) Black ?q (Nd C Red g u)"])
        (auto simp: insert_case4_def simp del: append_assoc simp flip: append_assoc)
  next
    case SR
    have "at S st0 t1 (Nd u Black g (Nd C Red ?q (Nd A Red x B))) fs"
      using t1(2) SR by (simp add: from_right)
    from at_case4_outer_right [OF this] obtain t2 where "insert_case4_outer t1 x = Some t2"
      "at S st0 t2 (Nd (Nd u Red g C) Black ?q (Nd A Red x B)) fs" by blast
    then show ?thesis using t1(1,3) ABC rb SR
      by (intro exI [of _ t2] exI [of _ "Nd (Nd u Red g C) Black ?q (Nd A Red x B)"])
        (auto simp: insert_case4_def)
  qed
qed

section \<open>The loop\<close>

lemma root_self: "root st = x \<Longrightarrow> st\<lparr>root := x\<rparr> = st"
  by (cases st) simp

lemma uncle_color:
  assumes "focus st t (f # Fr e cg g u # fs)"
  shows "rb_color st (pt u) = cbit (if black u then Black else Red)"
proof -
  have "rep (nodes st) g u"
    using assms by (cases f; cases e; auto simp: focus_def)
  then show ?thesis by (rule rb_color_pt)
qed

lemma insert_loop_ok:
  assumes "at S st0 st (Nd l Red a r) fs" "rbt (Nd l Red a r) n" "crb fs n"
  shows "\<exists>st' T. rb_insert_loop st a = Some st' \<and> at S st0 st' T [] \<and> redblack T \<and>
           addrs T = addrs (plug (Nd l Red a r) fs)"
  using assms
proof (induction "length fs" arbitrary: st l a r fs n rule: less_induct)
  case less
  note at = less.prems(1) and F = at_focus [OF less.prems(1)]
  note rb = less.prems(2)
  show ?case
  proof (cases fs)
    case Nil
    obtain t1 where t1: "rb_set_color st a RB_BLACK = Some t1" "at S st0 t1 (Nd l Black a r) []"
      using at_color [OF at, of Black] Nil unfolding RB_BLACK_cbit by blast
    have "root t1 = a" using at_focus [OF t1(2)] by (simp add: focus_def)
    moreover have "rb_parent st a = Some 0" using focus_cell [OF F] Nil by (simp add: acc)
    ultimately have "rb_insert_loop st a = Some t1"
      using t1(1) by (simp add: rb_insert_loop.simps insert_case1_def root_self)
    moreover have "redblack (Nd l Black a r)"
      using rb by (auto simp: redblack_def intro: exI [of _ "Suc n"])
    ultimately show ?thesis using t1(2) Nil by fastforce
  next
    case (Cons f fs')
    obtain d c p s where f: "f = Fr d c p s" by (cases f)
    note P = parent_focus [OF F [unfolded Cons f]]
    show ?thesis
    proof (cases c)
      case Black
      then have "rb_insert_loop st a = Some st"
        using P by (simp add: rb_insert_loop.simps insert_case2_def RB_BLACK_cbit)
      moreover have "redblack (plug (Nd l Red a r) fs)"
        using rb less.prems(3) Cons f Black by (intro plug_redblack [of _ n]) auto
      ultimately show ?thesis using at at_plug [of S st0 st "Nd l Red a r" fs "[]"] by auto
    next
      case Red
      then obtain e g u gs where fs: "fs = Fr d Red p s # Fr e Black g u # gs"
        using less.prems(3) Cons f by (cases fs' rule: par.cases) auto
      have c: "black s" "rbt s n" "rbt u n" "crb gs (Suc n)" using less.prems(3) fs by auto
      note R = relatives [OF F [unfolded fs]]
      show ?thesis
      proof (cases "black u")
        case True
        then have "rb_insert_loop st a = insert_case4 st a"
          using P R uncle_color [OF F [unfolded fs]] Red
          by (simp add: rb_insert_loop.simps [of st a] RB_BLACK_cbit RB_RED_cbit del: cbit.simps)
        moreover obtain st' t where t: "insert_case4 st a = Some st'" "at S st0 st' t gs" "rbt t (Suc n)"
          "black t" "addrs t = addrs (plug1 (plug1 (Nd l Red a r) (Fr d Red p s)) (Fr e Black g u))"
          using at_case4 [OF at [unfolded fs], of n] rb c True by auto
        ultimately show ?thesis
          using plug_redblack [OF t(3) c(4)] at_plug [of S st0 st' t gs "[]"] fs
          by (auto simp: addrs_plug)
      next
        case False
        then obtain ul ua ur where u: "u = Nd ul Red ua ur" by (cases u) (use color.exhaust in auto)
        obtain t1 where t1: "insert_case3 st a = Some (t1, g)"
          "at S st0 t1 (Nd l Red a r) (Fr d Black p s # Fr e Red g (Nd ul Black ua ur) # gs)"
          using at_case3 [OF at [unfolded fs u]] by blast
        have step: "rb_insert_loop st a = rb_insert_loop t1 g"
          using P R uncle_color [OF F [unfolded fs]] Red False t1(1)
          by (simp add: rb_insert_loop.simps [of st a] RB_BLACK_cbit RB_RED_cbit del: cbit.simps)
        let ?P = "plug1 (Nd l Red a r) (Fr d Black p s)" and ?U = "Nd ul Black ua ur"
        obtain l' r' where lr: "plug1 ?P (Fr e Red g ?U) = Nd l' Red g r'" "{l', r'} = {?P, ?U}"
          by (cases e) auto
        have "rbt ?P (Suc n)" "rbt ?U (Suc n)" "black ?P" using rb c u by (cases d; auto)+
        then have "\<forall>X \<in> {l', r'}. rbt X (Suc n) \<and> black X" unfolding lr(2) by simp
        then have rb': "rbt (Nd l' Red g r') (Suc n)" by simp
        have "\<exists>st' T. rb_insert_loop t1 g = Some st' \<and> at S st0 st' T [] \<and> redblack T \<and>
            addrs T = addrs (plug (Nd l' Red g r') gs)"
          using t1(2) fs by (intro less.hyps [OF _ _ rb' c(4)]) (simp_all add: at_up flip: lr(1))
        moreover have "addrs (plug (Nd l' Red g r') gs) = addrs (plug (Nd l Red a r) fs)"
          unfolding lr(1) [symmetric] fs u by (cases d; cases e) (simp_all add: addrs_plug)
        ultimately show ?thesis unfolding step by simp
      qed
    qed
  qed
qed

section \<open>Linking and inserting a node\<close>

lemma rb_node_overwrite:
  "(m :: rb_node)\<lparr>parent_color := a, right_ptr := b, left_ptr := c\<rparr> =
     \<lparr>parent_color = a, left_ptr = c, right_ptr = b\<rparr>"
  "(m :: rb_node)\<lparr>parent_color := a, left_ptr := c, right_ptr := b\<rparr> =
     \<lparr>parent_color = a, left_ptr = c, right_ptr = b\<rparr>"
  by (cases m; simp)+

text \<open>A new node is linked below the node on top of the context of an empty subtree.\<close>

fun link_of :: "frame list \<Rightarrow> link" where
  "link_of [] = Root_link"
| "link_of (Fr SL c p s # fs) = Left_link p"
| "link_of (Fr SR c p s # fs) = Right_link p"

lemma rb_link_node_ok:
  assumes F: "focus st Lf fs" and n: "n \<noteq> 0" "aligned n" "n \<notin> tree_set Lf fs"
  shows "\<exists>st'. rb_link_node st n (par fs) (link_of fs) = Some st' \<and> focus st' (Nd Lf Red n Lf) fs \<and>
           within (insert n (tree_set Lf fs)) st st'"
proof -
  have al: "aligned (par fs)" using F crep_par by (auto simp: focus_def)
  define pc where "pc = (par fs OR rb_color st n) AND NOT 1"
  have "pc = pack (par fs) Red"
  proof -
    have "\<exists>c. rb_color st n = cbit c"
    proof -
      have "parent_color (nodes st n) AND RB_COLOR_MASK \<in> {0, 1}"
        using even_iff_mod_2_eq_zero [of "parent_color (nodes st n)"]
          odd_iff_mod_2_eq_one [of "parent_color (nodes st n)"]
        by (auto simp: RB_COLOR_MASK_def RB_PARENT_MASK_def and_one_eq)
      then show ?thesis using n(1) by (metis cbit.simps empty_iff insert_iff rb_color_def)
    qed
    then show ?thesis using pack_set(2) [OF al] by (auto simp: pc_def pack_def)
  qed
  then have link: "rb_link_node st n (par fs) lk =
      (case lk of Root_link \<Rightarrow> Some (st\<lparr>nodes := (nodes st)(n := cell (par fs) Red 0 0), root := n\<rparr>)
       | Left_link p \<Rightarrow> set_left (st\<lparr>nodes := (nodes st)(n := cell (par fs) Red 0 0)\<rparr>) p n
       | Right_link p \<Rightarrow> set_right (st\<lparr>nodes := (nodes st)(n := cell (par fs) Red 0 0)\<rparr>) p n)" for lk
    using n(1)
    by (simp add: rb_link_node_def rb_set_parent_def update_node_def rb_set_color_def RB_RED_def
        set_left_def set_right_def pc_def cell_def rb_node_overwrite split: link.split)
  show ?thesis
    by (cases fs rule: lctx.cases)
      (use F n al link in \<open>auto simp: focus_def within_def tree_set_def acc\<close>)
qed

lemma first_left:
  assumes "holds st T" "addrs T = a # xs"
  shows "get_left st a = Some 0"
proof -
  have "\<exists>p c r. nodes st a = cell p c 0 r \<and> a \<noteq> 0"
    if "rep (nodes st) q t" "addrs t = a # ys" for q t ys
    using that
  proof (induction t arbitrary: q ys)
    case Lf
    then show ?case by simp
  next
    case (Nd l c b r)
    show ?case
    proof (cases "l = Lf")
      case True
      then show ?thesis using Nd.prems by auto
    next
      case False
      then have "addrs l \<noteq> []" by (cases l) auto
      then have "\<exists>zs. addrs l = a # zs" using Nd.prems(2) by (cases "addrs l") auto
      then show ?thesis using Nd.IH(1) [of b] Nd.prems(1) by auto
    qed
  qed
  from this [of 0 T xs] obtain p c r where "nodes st a = cell p c 0 r" "a \<noteq> 0"
    using assms by (auto simp: focus_def)
  then show ?thesis by (simp add: acc)
qed

lemma rb_insert_ok:
  assumes F: "focus st Lf fs" and rb: "redblack (plug Lf fs)" and n: "n \<noteq> 0" "aligned n" "n \<notin> tree_set Lf fs"
    and ml: "ml \<Longrightarrow> lctx fs = []"
  shows "\<exists>st1 st' T. rb_link_node st n (par fs) (link_of fs) = Some st1 \<and> rb_insert st1 n ml = Some st' \<and>
           holds st' T \<and> redblack T \<and> addrs T = lctx fs @ n # rctx fs \<and>
           most_left st' = (if ml then n else most_left st) \<and>
           (\<forall>a. a \<notin> insert n (tree_set Lf fs) \<longrightarrow> nodes st' a = nodes st a)"
proof -
  obtain st1 where s1: "rb_link_node st n (par fs) (link_of fs) = Some st1" "focus st1 (Nd Lf Red n Lf) fs"
    "within (insert n (tree_set Lf fs)) st st1"
    using rb_link_node_ok [OF F n] by blast
  have crb: "crb fs 0" using redblack_plug [OF rb] by auto
  have S: "tree_set (Nd Lf Red n Lf) fs = insert n (tree_set Lf fs)" by (auto simp: tree_set_def)
  have at1: "at (insert n (tree_set Lf fs)) st1 st1 (Nd Lf Red n Lf) fs"
    using at_start [OF s1(2)] S by simp
  obtain st2 T where s2: "rb_insert_loop st1 n = Some st2" "at (insert n (tree_set Lf fs)) st1 st2 T []"
    "redblack T" "addrs T = lctx fs @ n # rctx fs"
    using insert_loop_ok [OF at1, of 0] crb by (auto simp: addrs_plug)
  have h2: "holds st2 T" using at_focus [OF s2(2)] .
  have "n \<in> set (addrs T)" using s2(4) by simp
  then have "\<exists>l. get_left st2 n = Some l" using n(1) by (simp add: get_left_def deref_def)
  then obtain l where l: "get_left st2 n = Some l" "ml \<Longrightarrow> l = 0"
    using first_left [OF h2, of n "rctx fs"] s2(4) ml by auto
  let ?st = "if ml then st2\<lparr>most_left := n\<rparr> else st2"
  have "rb_insert st1 n ml = Some ?st" using n(1) s2(1) l by (auto simp: rb_insert_def)
  moreover have "holds ?st T" using h2 by (simp add: focus_def)
  moreover have "most_left ?st = (if ml then n else most_left st)"
    using s1(3) s2(2) by (auto simp: at_def within_def)
  moreover have "nodes ?st a = nodes st a" if "a \<notin> insert n (tree_set Lf fs)" for a
    using s1(3) s2(2) that by (auto simp: at_def within_def)
  ultimately show ?thesis using s1(1) s2(3,4) by blast
qed

end
