(* ===== verification/Rbtree_Erase.thy ===== *)
theory Rbtree_Erase
  imports Rbtree_Insert
begin

text \<open>
  Removal from the red-black tree.  Rebalancing after a black node has been unlinked returns, keeps
  the in-order sequence and restores the red-black properties; removing a node returns a
  red-black tree without it and keeps the cached leftmost pointer right.
\<close>

section \<open>One round of rebalancing\<close>

lemma sibling_focus:
  assumes "focus st t (Fr d c xp w # gs)"
  shows "sibling_of st xp (d = SL) = Some (pt w)" "rep (nodes st) xp w" "xp \<noteq> 0"
  using frame_cell [OF assms] assms by (cases d; auto simp: sibling_of_def acc focus_def)+

lemma black_or_null_pt: "rep (nodes st) q t \<Longrightarrow> black_or_null st (pt t) = black t"
  by (cases t) (auto simp: black_or_null_def RB_BLACK_cbit acc simp del: cbit.simps)

lemma at_erase_case1:
  assumes at: "at S st0 st t (Fr d Black xp (Nd wl Red wa wr) # gs)"
  shows "\<exists>st'. erase_case1 st xp (d = SL) wa = Some (st', pt (if d = SL then wl else wr)) \<and>
           at S st0 st' t (Fr d Red xp (if d = SL then wl else wr) #
                           Fr d Black wa (if d = SL then wr else wl) # gs)"
proof -
  note F = at_focus [OF at]
  have w: "wa \<noteq> 0" "rb_color st wa = RB_RED"
    using sibling_focus(2) [OF F] by (auto simp: acc RB_RED_cbit)
  obtain t1 where t1: "rb_set_color st wa RB_BLACK = Some t1"
    "at S st0 t1 t (Fr d Black xp (Nd wl Black wa wr) # gs)"
    using at_color_sibling [OF at, of Black] unfolding RB_BLACK_cbit by blast
  obtain t2 where t2: "rb_set_color t1 xp RB_RED = Some t2"
    "at S st0 t2 t (Fr d Red xp (Nd wl Black wa wr) # gs)"
    using at_color_frame [OF t1(2), of Red] unfolding RB_RED_cbit by blast
  show ?thesis
  proof (cases d)
    case SL
    obtain t3 where t3: "rotate_left t2 xp = Some t3" "at S st0 t3 (Nd (Nd t Red xp wl) Black wa wr) gs"
      using at_rotate_left [OF from_left [OF t2(2) [unfolded SL]]] by blast
    note at3 = go_left [OF go_left [OF t3(2)]]
    have "erase_case1 st xp True wa = Some (t3, pt wl)"
      using w t1(1) t2(1) t3(1) sibling_focus(1) [OF at_focus [OF at3]] by (simp add: erase_case1_def)
    then show ?thesis using at3 SL by simp
  next
    case SR
    obtain t3 where t3: "rotate_right t2 xp = Some t3" "at S st0 t3 (Nd wl Black wa (Nd wr Red xp t)) gs"
      using at_rotate_right [OF from_right [OF t2(2) [unfolded SR]]] by blast
    note at3 = go_right [OF go_right [OF t3(2)]]
    have "erase_case1 st xp False wa = Some (t3, pt wr)"
      using w t1(1) t2(1) t3(1) sibling_focus(1) [OF at_focus [OF at3]] by (simp add: erase_case1_def)
    then show ?thesis using at3 SR by simp
  qed
qed

fun top_left :: "frame list \<Rightarrow> bool" where
  "top_left [] \<longleftrightarrow> False"
| "top_left (Fr d c a s # fs) \<longleftrightarrow> d = SL"

lemma at_erase_case2:
  assumes at: "at S st0 st t (Fr d c xp (Nd wl cw wa wr) # gs)"
  shows "\<exists>st'. erase_case2 st xp wa = Some (st', xp, par gs, top_left gs) \<and>
           at S st0 st' t (Fr d c xp (Nd wl Red wa wr) # gs)"
proof -
  have wa: "wa \<noteq> 0" using sibling_focus(2) [OF at_focus [OF at]] by simp
  obtain t1 where t1: "rb_set_color st wa RB_RED = Some t1" "at S st0 t1 t (Fr d c xp (Nd wl Red wa wr) # gs)"
    using at_color_sibling [OF at, of Red] unfolding RB_RED_cbit by blast
  obtain l r where X: "focus t1 (Nd l c xp r) gs"
    using at_focus [OF t1(2)] by (cases d) (auto simp flip: focus_up)
  have p: "rb_parent t1 xp = Some (par gs)" using focus_cell [OF X] by (simp add: acc)
  have "erase_case2 st xp wa = Some (t1, xp, par gs, top_left gs)"
  proof (cases gs)
    case Nil
    then show ?thesis using wa t1(1) p by (simp add: erase_case2_def)
  next
    case (Cons f gs')
    obtain e cg g u where f: "f = Fr e cg g u" by (cases f)
    note G = frame_cell [OF X [unfolded Cons f]] frame_neq [OF X [unfolded Cons f]]
    then show ?thesis using wa t1(1) p Cons f by (cases e) (auto simp: erase_case2_def acc)
  qed
  then show ?thesis using t1(2) by blast
qed

text \<open>After case 3 the far nephew is red.\<close>

lemma at_erase_case3:
  assumes at: "at S st0 st t (Fr d c xp (Nd wl Black wa wr) # gs)"
    and rb: "rbt wl n" "rbt wr n" "\<not> (black wl \<and> black wr)"
  shows "\<exists>st' A w B. erase_case3 st xp (d = SL) wa (pt wl) (pt wr) = Some (st', w) \<and>
           at S st0 st' t (Fr d c xp (Nd A Black w B) # gs) \<and> rbt A n \<and> rbt B n \<and>
           \<not> black (if d = SL then B else A) \<and> addrs (Nd A Black w B) = addrs (Nd wl Black wa wr)"
proof -
  note F = at_focus [OF at]
  have r: "rep (nodes st) wa wl" "rep (nodes st) wa wr" using sibling_focus(2) [OF F] by auto
  note bn = black_or_null_pt [OF r(1)] black_or_null_pt [OF r(2)]
  show ?thesis
  proof (cases "black (if d = SL then wr else wl)")
    case False
    then have "erase_case3 st xp (d = SL) wa (pt wl) (pt wr) = Some (st, wa)"
      using bn by (cases d) (auto simp: erase_case3_def)
    then show ?thesis using at rb False by fastforce
  next
    case True
    obtain t1 where t1: "rb_set_color st wa RB_RED = Some t1" "at S st0 t1 t (Fr d c xp (Nd wl Red wa wr) # gs)"
      using at_color_sibling [OF at, of Red] unfolding RB_RED_cbit by blast
    show ?thesis
    proof (cases d)
      case SL
      then obtain a b e where wl: "wl = Nd a Red b e" using rb(3) True by (cases wl) (use color.exhaust in auto)
      have b0: "b \<noteq> 0" using r(1) wl by simp
      have w1: "at S st0 t1 (Nd wl Red wa wr) (Fr SR c xp t # gs)"
        using t1(2) SL by (metis from_left go_right)
      obtain t2 where t2: "rb_set_color t1 b RB_BLACK = Some t2" "at S st0 t2 (Nd (Nd a Black b e) Red wa wr) (Fr SR c xp t # gs)"
        using at_color [OF go_left [OF w1 [unfolded wl]], of Black] from_left unfolding RB_BLACK_cbit by blast
      obtain t3 where t3: "rotate_right t2 wa = Some t3" "at S st0 t3 (Nd a Black b (Nd e Red wa wr)) (Fr SR c xp t # gs)"
        using at_rotate_right [OF t2(2)] by blast
      then have at3: "at S st0 t3 t (Fr SL c xp (Nd a Black b (Nd e Red wa wr)) # gs)"
        by (metis from_right go_left)
      have "get_right t3 xp = Some b" using sibling_focus(1) [OF at_focus [OF at3]] by (simp add: sibling_of_def)
      then have "erase_case3 st xp True wa (pt wl) (pt wr) = Some (t3, b)"
        using t1(1) t2(1) t3(1) bn True SL wl b0 by (simp add: erase_case3_def)
      then show ?thesis using at3 rb wl SL True by (intro exI conjI) (assumption | simp)+
    next
      case SR
      then obtain a b e where wr: "wr = Nd a Red b e" using rb(3) True by (cases wr) (use color.exhaust in auto)
      have b0: "b \<noteq> 0" using r(2) wr by simp
      have w1: "at S st0 t1 (Nd wl Red wa wr) (Fr SL c xp t # gs)"
        using t1(2) SR by (metis from_right go_left)
      obtain t2 where t2: "rb_set_color t1 b RB_BLACK = Some t2" "at S st0 t2 (Nd wl Red wa (Nd a Black b e)) (Fr SL c xp t # gs)"
        using at_color [OF go_right [OF w1 [unfolded wr]], of Black] from_right unfolding RB_BLACK_cbit by blast
      obtain t3 where t3: "rotate_left t2 wa = Some t3" "at S st0 t3 (Nd (Nd wl Red wa a) Black b e) (Fr SL c xp t # gs)"
        using at_rotate_left [OF t2(2)] by blast
      then have at3: "at S st0 t3 t (Fr SR c xp (Nd (Nd wl Red wa a) Black b e) # gs)"
        by (metis from_left go_right)
      have "get_left t3 xp = Some b" using sibling_focus(1) [OF at_focus [OF at3]] by (simp add: sibling_of_def)
      then have "erase_case3 st xp False wa (pt wl) (pt wr) = Some (t3, b)"
        using t1(1) t2(1) t3(1) bn True SR wr b0 by (simp add: erase_case3_def)
      then show ?thesis using at3 rb wr SR True by (intro exI conjI) (assumption | simp)+
    qed
  qed
qed

lemma at_erase_case4:
  assumes at: "at S st0 st t (Fr d c xp (Nd A Black w B) # gs)"
    and rb: "rbt A n" "rbt B n" "\<not> black (if d = SL then B else A)" "rbt t n" "black t"
    and ctx: "crb (Fr d c xp (Nd A Black w B) # gs) (Suc n)"
  shows "\<exists>st' t' m. erase_case4 st xp (d = SL) w = Some st' \<and> at S st0 st' t' gs \<and> rbt t' m \<and>
           crb gs m \<and> (black t' \<or> top_black gs) \<and>
           addrs t' = addrs (plug1 t (Fr d c xp (Nd A Black w B)))"
proof -
  note F = at_focus [OF at]
  have w: "w \<noteq> 0" "get_left st w = Some (pt A)" "get_right st w = Some (pt B)"
    using sibling_focus(2) [OF F] by (simp_all add: acc)
  have xc: "rb_color st xp = cbit c" using frame_cell [OF F] by (simp add: acc)
  obtain t1 where t1: "rb_set_color st w (cbit c) = Some t1" "at S st0 t1 t (Fr d c xp (Nd A c w B) # gs)"
    using at_color_sibling [OF at, of c] by blast
  obtain t2 where t2: "rb_set_color t1 xp RB_BLACK = Some t2" "at S st0 t2 t (Fr d Black xp (Nd A c w B) # gs)"
    using at_color_frame [OF t1(2), of Black] unfolding RB_BLACK_cbit by blast
  show ?thesis
  proof (cases d)
    case SL
    then obtain x y z where B: "B = Nd x Red y z" using rb(3) by (cases B) (use color.exhaust in auto)
    then have y0: "pt B \<noteq> 0" using sibling_focus(2) [OF F] by simp
    have "at S st0 t2 B (Fr SR c w A # Fr SR Black xp t # gs)"
      using t2(2) SL by (metis from_left go_right)
    then obtain t3 where t3: "rb_set_color t2 y RB_BLACK = Some t3"
      "at S st0 t3 (Nd x Black y z) (Fr SR c w A # Fr SR Black xp t # gs)"
      using B at_color [of S st0 t2 x Red y z _ Black] unfolding RB_BLACK_cbit by blast
    obtain t4 where t4: "rotate_left t3 xp = Some t4" "at S st0 t4 (Nd (Nd t Black xp A) c w (Nd x Black y z)) gs"
      using at_rotate_left [OF from_right [OF from_right [OF t3(2)]]] by blast
    have "erase_case4 st xp True w = Some t4"
      using w xc t1(1) t2(1) t3(1) t4(1) y0 B by (simp add: erase_case4_def)
    then show ?thesis using t4(2) rb ctx B SL
      by (intro exI [of _ t4] exI [of _ "Nd (Nd t Black xp A) c w (Nd x Black y z)"]
          exI [of _ "if c = Black then Suc (Suc n) else Suc n"]) (cases c; simp)
  next
    case SR
    then obtain x y z where A: "A = Nd x Red y z" using rb(3) by (cases A) (use color.exhaust in auto)
    then have y0: "pt A \<noteq> 0" using sibling_focus(2) [OF F] by simp
    have "at S st0 t2 A (Fr SL c w B # Fr SL Black xp t # gs)"
      using t2(2) SR by (metis from_right go_left)
    then obtain t3 where t3: "rb_set_color t2 y RB_BLACK = Some t3"
      "at S st0 t3 (Nd x Black y z) (Fr SL c w B # Fr SL Black xp t # gs)"
      using A at_color [of S st0 t2 x Red y z _ Black] unfolding RB_BLACK_cbit by blast
    obtain t4 where t4: "rotate_right t3 xp = Some t4" "at S st0 t4 (Nd (Nd x Black y z) c w (Nd B Black xp t)) gs"
      using at_rotate_right [OF from_left [OF from_left [OF t3(2)]]] by blast
    have "erase_case4 st xp False w = Some t4"
      using w xc t1(1) t2(1) t3(1) t4(1) y0 A by (simp add: erase_case4_def)
    then show ?thesis using t4(2) rb ctx A SR
      by (intro exI [of _ t4] exI [of _ "Nd (Nd x Black y z) c w (Nd B Black xp t)"]
          exI [of _ "if c = Black then Suc (Suc n) else Suc n"]) (cases c; simp)
  qed
qed

text \<open>
  A round below a black sibling: either the deficit moves up with the focus, or the tree is
  balanced and the loop ends at the root.
\<close>

definition tail_round :: "rbtree \<Rightarrow> u64 \<Rightarrow> bool \<Rightarrow> u64 \<Rightarrow> (rbtree \<times> u64 \<times> u64 \<times> bool) option" where
  "tail_round t1 xp is_left w = do {
     wleft \<leftarrow> (if w \<noteq> 0 then get_left t1 w else Some 0);
     wright \<leftarrow> (if w \<noteq> 0 then get_right t1 w else Some 0);
     if black_or_null t1 wleft \<and> black_or_null t1 wright then erase_case2 t1 xp w
     else do {
       (t2, w') \<leftarrow> erase_case3 t1 xp is_left w wleft wright;
       t3 \<leftarrow> erase_case4 t2 xp is_left w';
       Some (t3, root t3, xp, is_left) } }"

lemma erase_round_tail:
  "erase_round tree xp is_left = do {
     w0 \<leftarrow> sibling_of tree xp is_left;
     (t1, w) \<leftarrow> erase_case1 tree xp is_left w0;
     tail_round t1 xp is_left w }"
  by (simp add: erase_round_def tail_round_def)

lemma at_tail_round:
  assumes at: "at S st0 st t (Fr d c xp w # gs)" and t: "rbt t n" "black t"
    and w: "black w" and ctx: "crb (Fr d c xp w # gs) (Suc n)"
  shows "(\<exists>st' wl wa wr. w = Nd wl Black wa wr \<and> black wl \<and> black wr \<and>
            tail_round st xp (d = SL) (pt w) = Some (st', xp, par gs, top_left gs) \<and>
            at S st0 st' t (Fr d c xp (Nd wl Red wa wr) # gs)) \<or>
         (\<exists>st' t' m. tail_round st xp (d = SL) (pt w) = Some (st', root st', xp, d = SL) \<and>
            at S st0 st' t' gs \<and> rbt t' m \<and> crb gs m \<and> (black t' \<or> top_black gs) \<and>
            addrs t' = addrs (plug1 t (Fr d c xp w)))"
proof -
  have "rbt w (Suc n)" using ctx by (cases c) auto
  then obtain wl wa wr where W: "w = Nd wl Black wa wr" and rb: "rbt wl n" "rbt wr n"
    using w by (cases w) (auto)
  note at' = at [unfolded W]
  note F = at_focus [OF at']
  have r: "rep (nodes st) xp w" using sibling_focus(2) [OF at_focus [OF at]] .
  then have wa: "wa \<noteq> 0" "get_left st wa = Some (pt wl)" "get_right st wa = Some (pt wr)"
    using W by (simp_all add: acc)
  have bn: "black_or_null st (pt wl) = black wl" "black_or_null st (pt wr) = black wr"
    using r W black_or_null_pt [of st wa] by auto
  show ?thesis
  proof (cases "black wl \<and> black wr")
    case True
    then have "tail_round st xp (d = SL) (pt w) = erase_case2 st xp wa"
      using wa bn W by (simp add: tail_round_def)
    then show ?thesis using at_erase_case2 [OF at'] True W by auto
  next
    case False
    obtain t2 A v B where t2: "erase_case3 st xp (d = SL) wa (pt wl) (pt wr) = Some (t2, v)"
      "at S st0 t2 t (Fr d c xp (Nd A Black v B) # gs)" "rbt A n" "rbt B n"
      "\<not> black (if d = SL then B else A)" "addrs (Nd A Black v B) = addrs w"
      using at_erase_case3 [OF at' rb False] W by blast
    have "crb (Fr d c xp (Nd A Black v B) # gs) (Suc n)" using ctx t2(3,4) W by (cases c) auto
    then obtain t3 t' m where t3: "erase_case4 t2 xp (d = SL) v = Some t3" "at S st0 t3 t' gs" "rbt t' m"
      "crb gs m" "black t' \<or> top_black gs" "addrs t' = addrs (plug1 t (Fr d c xp (Nd A Black v B)))"
      using at_erase_case4 [OF t2(2-5) t] by blast
    have "tail_round st xp (d = SL) (pt w) = Some (t3, root t3, xp, d = SL)"
      using wa bn W False t2(1) t3(1) by (auto simp: tail_round_def)
    moreover have "addrs t' = addrs (plug1 t (Fr d c xp w))" using t3(6) t2(6) by (cases d) auto
    ultimately show ?thesis using t3(2-5) by blast
  qed
qed

section \<open>The loop\<close>

fun blacken :: "rtree \<Rightarrow> rtree" where
  "blacken Lf = Lf"
| "blacken (Nd l c a r) = Nd l Black a r"

lemma blacken_simps [simp]: "black (blacken t)" "addrs (blacken t) = addrs t" "pt (blacken t) = pt t"
  by (cases t; simp)+

lemma blacken_id: "black t \<Longrightarrow> blacken t = t"
  by (cases t) auto

lemma focus_root:
  assumes "focus st t (f # fs)"
  shows "pt t \<noteq> root st"
proof -
  have "croot p fs = p \<or> croot p fs \<in> set (lctx fs) \<union> set (rctx fs)" for p fs
    by (induction fs arbitrary: p rule: lctx.induct) auto
  moreover obtain d c a s where f: "f = Fr d c a s" by (cases f)
  ultimately have "root st = a \<or> root st \<in> set (lctx fs) \<union> set (rctx fs)"
    using assms by (auto simp: focus_def)
  moreover have "0 \<notin> set (lctx fs) \<union> set (rctx fs)" if "crep h p fs" for h p
  proof -
    have "0 \<notin> set (addrs t)" if "rep h q t" for q t using that by (induction t arbitrary: q) auto
    then show ?thesis using that by (induction fs arbitrary: p rule: lctx.induct) auto
  qed
  then have "0 \<notin> set (lctx fs) \<union> set (rctx fs)" "a \<noteq> 0" using assms f by (auto simp: focus_def)
  moreover have "set (addrs t) \<inter> ({a} \<union> set (lctx fs) \<union> set (rctx fs)) = {}"
    using assms f by (cases d) (auto simp: focus_def)
  ultimately show ?thesis using pt_addrs [of t] by (metis Int_iff UnI1 UnI2 Un_iff empty_iff insertI1 insert_iff)
qed

lemma loop_exit:
  "pt t = root st \<or> (rep (nodes st) q t \<and> \<not> black t) \<Longrightarrow>
     erase_rebalance_loop st (pt t) xp il = Some (st, pt t)"
  by (auto simp: erase_rebalance_loop.simps black_or_null_pt)

text \<open>What the loop leaves: recolouring the node it ends at to black gives a red-black tree.\<close>

definition rebalanced :: "u64 set \<Rightarrow> rbtree \<Rightarrow> u64 list \<Rightarrow> (rbtree \<times> u64) option \<Rightarrow> bool" where
  "rebalanced S st0 xs res \<longleftrightarrow>
     (\<exists>st' t fs m. res = Some (st', pt t) \<and> at S st0 st' t fs \<and> rbt (blacken t) m \<and> crb fs m \<and>
        addrs (plug t fs) = xs)"

lemma rebalanced_red:
  assumes at: "at S st0 st t fs" and t: "\<not> black t" "rbt (blacken t) (Suc n)" "crb fs (Suc n)"
  shows "rebalanced S st0 (addrs (plug t fs)) (erase_rebalance_loop st (pt t) xp il)"
proof -
  have "rep (nodes st) (par fs) t" using at by (simp add: at_def focus_def)
  then have "erase_rebalance_loop st (pt t) xp il = Some (st, pt t)"
    using t(1) by (intro loop_exit) blast
  then show ?thesis using at t unfolding rebalanced_def by blast
qed

lemma rebalanced_root:
  assumes at: "at S st0 st t fs" and t: "rbt t m" "crb fs m" "black t \<or> top_black fs"
  shows "rebalanced S st0 (addrs (plug t fs)) (erase_rebalance_loop st (root st) xp il)"
proof -
  have at': "at S st0 st (plug t fs) []" using at by (simp add: at_plug)
  then have r: "pt (plug t fs) = root st" by (simp add: at_def focus_def)
  have "redblack (plug t fs)" using plug_redblack [OF t] .
  then obtain n where n: "rbt (blacken (plug t fs)) n" by (auto simp: redblack_def blacken_id)
  have "erase_rebalance_loop st (root st) xp il = Some (st, pt (plug t fs))"
    using loop_exit [of "plug t fs" st 0 xp il] r by simp
  then show ?thesis unfolding rebalanced_def
    using at' n by (intro exI [of _ st] exI [of _ "plug t fs"] exI [of _ "[]"] exI [of _ n]) simp
qed

lemma tail_rebalanced:
  assumes at: "at S st0 st t (Fr d c xp v # hs)" and t: "rbt t n" "black t"
    and v: "black v" and ctx: "crb (Fr d c xp v # hs) (Suc n)"
    and up: "\<And>st2 u. c = Black \<Longrightarrow> at S st0 st2 u hs \<Longrightarrow> rbt u (Suc n) \<Longrightarrow> black u \<Longrightarrow> crb hs (Suc (Suc n)) \<Longrightarrow>
      rebalanced S st0 (addrs (plug u hs)) (erase_rebalance_loop st2 (pt u) (par hs) (top_left hs))"
  shows "rebalanced S st0 (addrs (plug t (Fr d c xp v # hs)))
    (do { (t1, x', xp', il') \<leftarrow> tail_round st xp (d = SL) (pt v); erase_rebalance_loop t1 x' xp' il' })"
  using at_tail_round [OF at t v ctx]
proof (rule disjE)
  assume "\<exists>st' wl wa wr. v = Nd wl Black wa wr \<and> black wl \<and> black wr \<and>
      tail_round st xp (d = SL) (pt v) = Some (st', xp, par hs, top_left hs) \<and>
      at S st0 st' t (Fr d c xp (Nd wl Red wa wr) # hs)"
  then obtain st2 vl va vr where V: "v = Nd vl Black va vr" "black vl" "black vr"
    and tr: "tail_round st xp (d = SL) (pt v) = Some (st2, xp, par hs, top_left hs)"
    and at2: "at S st0 st2 t (Fr d c xp (Nd vl Red va vr) # hs)" by blast
  let ?u = "plug1 t (Fr d c xp (Nd vl Red va vr))"
  have at3: "at S st0 st2 ?u hs" using at2 by (simp add: at_up)
  have pu: "pt ?u = xp" by (cases d) simp_all
  have eq: "addrs (plug ?u hs) = addrs (plug t (Fr d c xp v # hs))"
    using V by (cases d) (simp_all add: addrs_plug)
  have "rebalanced S st0 (addrs (plug ?u hs)) (erase_rebalance_loop st2 (pt ?u) (par hs) (top_left hs))"
  proof (cases c)
    case Red
    then show ?thesis using ctx V t by (intro rebalanced_red [OF at3, of n]) (cases d; simp)+
  next
    case Black
    then show ?thesis using ctx V t by (intro up [OF _ at3]) (cases d; simp)+
  qed
  then show ?thesis using tr pu eq by simp
next
  assume "\<exists>st' t' m. tail_round st xp (d = SL) (pt v) = Some (st', root st', xp, d = SL) \<and>
      at S st0 st' t' hs \<and> rbt t' m \<and> crb hs m \<and> (black t' \<or> top_black hs) \<and>
      addrs t' = addrs (plug1 t (Fr d c xp v))"
  then obtain st2 t' m where tr: "tail_round st xp (d = SL) (pt v) = Some (st2, root st2, xp, d = SL)"
    and R: "at S st0 st2 t' hs" "rbt t' m" "crb hs m" "black t' \<or> top_black hs"
    and ad: "addrs t' = addrs (plug1 t (Fr d c xp v))" by blast
  have "addrs (plug t' hs) = addrs (plug t (Fr d c xp v # hs))" using ad by (simp add: addrs_plug)
  then show ?thesis using tr rebalanced_root [OF R, of xp "d = SL"] by simp
qed

lemma rebalance_loop_ok:
  assumes "at S st0 st t fs" "rbt t n" "black t" "crb fs (Suc n)"
  shows "rebalanced S st0 (addrs (plug t fs)) (erase_rebalance_loop st (pt t) (par fs) (top_left fs))"
  using assms
proof (induction "length fs" arbitrary: st t fs n rule: less_induct)
  case less
  note at = less.prems(1)
  note F = at_focus [OF at]
  show ?case
  proof (cases fs)
    case Nil
    then have "pt t = root st" using F by (simp add: focus_def)
    then show ?thesis
      using rebalanced_root [OF at less.prems(2), of "par fs" "top_left fs"] Nil less.prems(3) by simp
  next
    case (Cons f gs)
    obtain d c xp w where f: "f = Fr d c xp w" by (cases f)
    note at1 = at [unfolded Cons f] and ctx = less.prems(4) [unfolded Cons f]
    have go: "erase_rebalance_loop st (pt t) (par fs) (top_left fs) = do {
        (t1, x', xp', il') \<leftarrow> erase_round st xp (d = SL);
        erase_rebalance_loop t1 x' xp' il' }"
      using F focus_root [OF F [unfolded Cons]] less.prems(3) black_or_null_pt [of st "par fs" t] Cons f
      by (simp add: erase_rebalance_loop.simps [of st "pt t"] focus_def)
    note W = sibling_focus [OF at_focus [OF at1]]
    have tail: "rebalanced S st0 (addrs (plug t (Fr e cx xp v # hs)))
        (do { (t1, x', xp', il') \<leftarrow> tail_round st1 xp (e = SL) (pt v); erase_rebalance_loop t1 x' xp' il' })"
      if "at S st0 st1 t (Fr e cx xp v # hs)" "black v" "crb (Fr e cx xp v # hs) (Suc n)"
        and len: "cx = Red \<or> length hs < length fs" for st1 e cx v hs
      using tail_rebalanced [OF that(1) less.prems(2,3) that(2,3)] len
        less.hyps [of hs _ _ "Suc n"] by auto
    show ?thesis
    proof (cases "black w")
      case True
      then have "erase_case1 st xp (d = SL) (pt w) = Some (st, pt w)"
        using rb_color_pt [OF W(2)] by (simp add: erase_case1_def RB_RED_def)
      then have "erase_round st xp (d = SL) = tail_round st xp (d = SL) (pt w)"
        using W(1) by (simp add: erase_round_tail)
      then show ?thesis using tail [OF at1 True ctx] go Cons f by simp
    next
      case False
      then obtain wl wa wr where w: "w = Nd wl Red wa wr" by (cases w) (use color.exhaust in auto)
      then have c: "c = Black" using ctx by (cases c) auto
      let ?v = "if d = SL then wl else wr" and ?v' = "if d = SL then wr else wl"
      obtain t1 where t1: "erase_case1 st xp (d = SL) wa = Some (t1, pt ?v)"
        "at S st0 t1 t (Fr d Red xp ?v # Fr d Black wa ?v' # gs)"
        using at_erase_case1 [OF at1 [unfolded c w]] by blast
      have "erase_round st xp (d = SL) = tail_round t1 xp (d = SL) (pt ?v)"
        using W(1) t1(1) w by (simp add: erase_round_tail)
      moreover have "addrs (plug t (Fr d Red xp ?v # Fr d Black wa ?v' # gs)) = addrs (plug t fs)"
        using Cons f w by (cases d) (simp_all add: addrs_plug)
      moreover have "black ?v" "crb (Fr d Red xp ?v # Fr d Black wa ?v' # gs) (Suc n)"
        using ctx w c by (cases d; simp)+
      ultimately show ?thesis using tail [OF t1(2)] go by simp
    qed
  qed
qed

lemma erase_rebalance_ok:
  assumes at: "at S st0 st t fs" and t: "rbt t n" "crb fs (Suc n)"
  shows "\<exists>st' T. erase_rebalance st (pt t) (par fs) (top_left fs) = Some st' \<and> at S st0 st' T [] \<and>
           redblack T \<and> addrs T = addrs (plug t fs)"
proof -
  have "rebalanced S st0 (addrs (plug t fs)) (erase_rebalance_loop st (pt t) (par fs) (top_left fs))"
  proof (cases "black t")
    case True
    then show ?thesis using rebalance_loop_ok [OF at t(1) _ t(2)] by simp
  next
    case False
    then obtain l a r where "t = Nd l Red a r" by (cases t) (use color.exhaust in auto)
    then have "rbt (blacken t) (Suc n)" using t(1) by simp
    with False show ?thesis using rebalanced_red [OF at _ _ t(2)] by simp
  qed
  then obtain st1 u gs m where r: "erase_rebalance_loop st (pt t) (par fs) (top_left fs) = Some (st1, pt u)"
    "at S st0 st1 u gs" "rbt (blacken u) m" "crb gs m" "addrs (plug u gs) = addrs (plug t fs)"
    unfolding rebalanced_def by auto
  have "\<exists>st2. (if pt u \<noteq> 0 then rb_set_color st1 (pt u) RB_BLACK else Some st1) = Some st2 \<and>
          at S st0 st2 (blacken u) gs"
  proof (cases u)
    case Lf
    then show ?thesis using r(2) by simp
  next
    case (Nd l c a r)
    then show ?thesis
      using at_color [OF r(2) [unfolded Nd], of Black] focus_cell(1) [OF at_focus [OF r(2) [unfolded Nd]]]
      unfolding RB_BLACK_cbit by simp
  qed
  then obtain st2 where s2: "(if pt u \<noteq> 0 then rb_set_color st1 (pt u) RB_BLACK else Some st1) = Some st2"
    "at S st0 st2 (blacken u) gs" by blast
  have "redblack (plug (blacken u) gs)" using plug_redblack [OF r(3,4)] by simp
  moreover have "addrs (plug (blacken u) gs) = addrs (plug t fs)" using r(5) by (simp add: addrs_plug)
  moreover have "at S st0 st2 (plug (blacken u) gs) []" using s2(2) by (simp add: at_plug)
  ultimately show ?thesis using r(1) s2(1) by (auto simp: erase_rebalance_def)
qed

end
