(* ===== verification/Rbtree_Remove.thy ===== *)
theory Rbtree_Remove
  imports Rbtree_Erase
begin

text \<open>
  The rest of removal: walking to neighbours, unlinking a node with at most one child, putting
  the predecessor in the place of a node with two children, and the cached leftmost pointer.
\<close>

section \<open>Walking\<close>

lemma descend_left_ok:
  "rep (nodes st) q t \<Longrightarrow> t \<noteq> Lf \<Longrightarrow> descend_left st (pt t) = Some (hd (addrs t))"
proof (induction t arbitrary: q)
  case Lf
  then show ?case by simp
next
  case (Nd l c a r)
  have l: "rep (nodes st) a l" and g: "get_left st a = Some (pt l)" using Nd.prems by (auto simp: acc)
  show ?case
  proof (cases "l = Lf")
    case True
    then show ?thesis using g by (simp add: descend_left.simps [of st a])
  next
    case False
    then have "addrs l \<noteq> []" by (cases l) auto
    then show ?thesis using g Nd.IH(1) [OF l False] rep_pt0 [OF l] False
      by (simp add: descend_left.simps [of st a])
  qed
qed

lemma descend_right_ok:
  "rep (nodes st) q t \<Longrightarrow> t \<noteq> Lf \<Longrightarrow> descend_right st (pt t) = Some (last (addrs t))"
proof (induction t arbitrary: q)
  case Lf
  then show ?case by simp
next
  case (Nd l c a r)
  have r: "rep (nodes st) a r" and g: "get_right st a = Some (pt r)" using Nd.prems by (auto simp: acc)
  show ?case
  proof (cases "r = Lf")
    case True
    then show ?thesis using g by (simp add: descend_right.simps [of st a])
  next
    case False
    then have "addrs r \<noteq> []" by (cases r) auto
    then show ?thesis using g Nd.IH(2) [OF r False] rep_pt0 [OF r] False
      by (simp add: descend_right.simps [of st a])
  qed
qed

definition first_of :: "u64 list \<Rightarrow> u64" where
  "first_of xs = (case xs of [] \<Rightarrow> 0 | x # _ \<Rightarrow> x)"

lemma first_of_simps [simp]: "first_of [] = 0" "first_of (x # xs) = x"
  by (simp_all add: first_of_def)

lemma first_of_append: "first_of (xs @ ys) = (if xs = [] then first_of ys else hd xs)"
  by (cases xs) auto

lemma rb_next_up_ok:
  "focus st (Nd l c a r) fs \<Longrightarrow> rb_next_up st a = Some (first_of (rctx fs))"
proof (induction fs arbitrary: l c a r rule: rctx.induct)
  case 1
  then show ?case using focus_cell [OF 1] by (simp add: rb_next_up.simps [of st a] acc)
next
  case (2 cp p s fs)
  note P = parent_focus [OF 2(2)] and C = frame_cell [OF 2(2)] and N = frame_neq [OF 2(2)]
  then show ?case by (simp add: rb_next_up.simps [of st a] acc)
next
  case (3 cp p s fs)
  note P = parent_focus [OF 3(2)] and C = frame_cell [OF 3(2)]
  have "focus st (Nd s cp p (Nd l c a r)) fs" using 3(2) by (simp flip: focus_up)
  from 3(1) [OF this] show ?case using P C by (simp add: rb_next_up.simps [of st a] acc)
qed

lemma rb_next_ok:
  assumes F: "focus st (Nd l c a r) fs"
  shows "rb_next st a = Some (first_of (addrs r @ rctx fs))"
proof -
  have r: "rep (nodes st) a r" using F by (simp add: focus_def)
  have g: "a \<noteq> 0" "get_right st a = Some (pt r)" using focus_cell [OF F] by (simp_all add: acc)
  show ?thesis
  proof (cases "r = Lf")
    case True
    then show ?thesis using g rb_next_up_ok [OF F] by (simp add: rb_next_def)
  next
    case False
    then have "addrs r \<noteq> []" by (cases r) auto
    then show ?thesis using g descend_left_ok [OF r False] rep_pt0 [OF r] False
      by (simp add: rb_next_def first_of_append)
  qed
qed

lemma rb_first_uncached_ok:
  assumes "holds st T"
  shows "rb_first_uncached st = Some (first_of (addrs T))"
proof (cases "T = Lf")
  case True
  then show ?thesis using assms by (simp add: rb_first_uncached_def focus_def)
next
  case False
  then have "addrs T \<noteq> []" by (cases T) auto
  moreover have "rep (nodes st) 0 T" "root st = pt T" using assms by (auto simp: focus_def)
  ultimately show ?thesis
    using descend_left_ok [of st 0 T] rep_pt0 [of _ 0 T] False
    by (auto simp: rb_first_uncached_def first_of_def split: list.split)
qed

section \<open>Positions in a tree\<close>

lemma find_position:
  assumes "a \<in> set (addrs T)"
  shows "\<exists>l c r fs. T = plug (Nd l c a r) fs"
  using assms
proof (induction T)
  case Lf
  then show ?case by simp
next
  case (Nd l c b r)
  then consider "a \<in> set (addrs l)" | "a = b" | "a \<in> set (addrs r)" by auto
  then show ?case
  proof cases
    case 1
    then obtain l' c' r' fs where "l = plug (Nd l' c' a r') fs" using Nd.IH(1) by blast
    then have "Nd l c b r = plug (Nd l' c' a r') (fs @ [Fr SL c b r])" by (simp add: plug_append)
    then show ?thesis by blast
  next
    case 2
    then have "Nd l c b r = plug (Nd l c a r) []" by simp
    then show ?thesis by blast
  next
    case 3
    then obtain l' c' r' fs where "r = plug (Nd l' c' a r') fs" using Nd.IH(2) by blast
    then have "Nd l c b r = plug (Nd l' c' a r') (fs @ [Fr SR c b l])" by (simp add: plug_append)
    then show ?thesis by blast
  qed
qed

lemma last_position:
  assumes "t \<noteq> Lf"
  shows "\<exists>l c fs. t = plug (Nd l c (last (addrs t)) Lf) fs \<and> rctx fs = []"
  using assms
proof (induction t)
  case Lf
  then show ?case by simp
next
  case (Nd l c a r)
  show ?case
  proof (cases "r = Lf")
    case True
    then show ?thesis by (intro exI [of _ l] exI [of _ c] exI [of _ "[]"]) simp
  next
    case False
    then have ne: "addrs r \<noteq> []" by (cases r) auto
    obtain l' c' fs where r: "r = plug (Nd l' c' (last (addrs r)) Lf) fs" "rctx fs = []"
      using Nd.IH(2) [OF False] by blast
    have "rctx (fs @ [Fr SR c a l]) = []" using r(2) by (induction fs rule: rctx.induct) auto
    moreover have "Nd l c a r = plug (Nd l' c' (last (addrs r)) Lf) (fs @ [Fr SR c a l])"
      by (simp add: plug_append flip: r(1))
    ultimately show ?thesis using ne by (metis addrs.simps(2) last_ConsR last_appendR list.distinct(1))
  qed
qed

section \<open>Unlinking and swapping\<close>

lemma splice_out_ok:
  assumes F: "focus st (Nd l c y r) fs" and one: "l = Lf \<or> r = Lf"
    and u: "u = (if l = Lf then r else l)"
  shows "\<exists>st'. splice_out st y (pt u) = Some (st', par fs, top_left fs) \<and> focus st' u fs \<and>
           nodes st' y = nodes st y \<and> within (tree_set u fs) st st'"
proof -
  have uy: "pt u \<noteq> y" using F u pt_addrs [of l] pt_addrs [of r] by (auto simp: focus_def)
  have ru: "rep (nodes st) y u" using F u by (simp add: focus_def)
  have F': "crep (nodes st) y fs" "root st = croot y fs" "distinct (lctx fs @ addrs u @ rctx fs)"
    "y \<notin> set (addrs u) \<union> set (lctx fs) \<union> set (rctx fs)" "y \<noteq> 0" "aligned (par fs)"
    "nodes st y = cell (par fs) c (pt l) (pt r)"
    using F u one by (auto simp: focus_def)
  show ?thesis
  proof (cases fs rule: lctx.cases)
    case 1
    then show ?thesis using F' ru uy
      by (cases u) (auto simp: splice_out_def acc focus_def within_def tree_set_def)
  next
    case (2 d a s fs')
    then show ?thesis using F' ru uy
      by (cases u) (auto simp: splice_out_def acc focus_def within_def tree_set_def)
  next
    case (3 d a s fs')
    have "pt s \<noteq> y" using F'(4,5) 3 pt_addrs [of s] by auto
    then show ?thesis using F' ru uy 3
      by (cases u) (auto simp: splice_out_def acc focus_def within_def tree_set_def)
  qed
qed

lemma rb_swap_ok:
  assumes F: "focus st (Nd L c x R) fs" and R: "R = Nd rl rc ra rr"
    and y: "y \<notin> tree_set (Nd L c x R) fs" "y \<noteq> 0" "aligned y" "nodes st y = cell q cy a b" "aligned q"
  shows "\<exists>st'. rb_swap st x y = Some st' \<and> focus st' (Nd L c y R) fs \<and>
           within (insert y (tree_set (Nd L c x R) fs)) st st'"
proof (cases fs rule: lctx.cases)
  case 1
  then show ?thesis using F y unfolding R
    by (cases L) (auto simp: rb_swap_def acc focus_def within_def tree_set_def)
next
  case (2 d e s fs')
  then show ?thesis using F y unfolding R
    by (cases L) (auto simp: rb_swap_def acc focus_def within_def tree_set_def)
next
  case (3 d e s fs')
  have "pt s \<noteq> x" using F 3 pt_addrs [of s] by (auto simp: focus_def)
  then show ?thesis using F y 3 unfolding R
    by (cases L) (auto simp: rb_swap_def acc focus_def within_def tree_set_def)
qed

text \<open>
  What the first half of \<^verbatim>\<open>rb_erase\<close> leaves: the rest of the tree, one black node short below the
  context \<open>gs\<close> when the unlinked colour is black.
\<close>

definition unlinked_at :: "rbtree \<Rightarrow> u64 list \<Rightarrow> color \<Rightarrow> rtree \<Rightarrow> frame list \<Rightarrow> bool" where
  "unlinked_at st xs cy u gs \<longleftrightarrow>
     focus st u gs \<and> addrs (plug u gs) = xs \<and>
     (\<exists>n. rbt u n \<and> (if cy = Black then crb gs (Suc n) else crb gs n \<and> black u))"

lemma erase_unlink_leaf:
  assumes F: "focus st (Nd l c a r) fs" and rb: "rbt (Nd l c a r) m" "crb fs m" and one: "l = Lf \<or> r = Lf"
  shows "\<exists>st' u. erase_unlink st a = Some (st', pt u, par fs, top_left fs, cbit c) \<and>
           unlinked_at st' (lctx fs @ addrs l @ addrs r @ rctx fs) c u fs \<and>
           within (tree_set (Nd l c a r) fs) st st'"
proof -
  let ?u = "if l = Lf then r else l"
  obtain st' where s: "splice_out st a (pt ?u) = Some (st', par fs, top_left fs)" "focus st' ?u fs"
    "nodes st' a = nodes st a" "within (tree_set ?u fs) st st'"
    using splice_out_ok [OF F one refl] by blast
  note C = focus_cell [OF F]
  have lr: "rep (nodes st) a l" "rep (nodes st) a r" using F by (auto simp: focus_def)
  have v: "erase_victim st a = Some a" "get_left st a = Some (pt l)" "get_right st a = Some (pt r)"
    using C one by (auto simp: erase_victim_def acc)
  have x: "(if pt l \<noteq> 0 then pt l else pt r) = pt ?u" using rep_pt0 [OF lr(1)] by simp
  have "rb_color st' a = cbit c" using C s(3) by (simp add: acc)
  then have "erase_unlink st a = Some (st', pt ?u, par fs, top_left fs, cbit c)"
    using v x s(1) by (simp add: erase_unlink_def Let_def)
  moreover have "\<exists>n. rbt ?u n \<and> (if c = Black then crb fs (Suc n) else crb fs n \<and> black ?u)"
  proof (cases c)
    case Red
    then show ?thesis using rb by (intro exI [of _ m]) auto
  next
    case Black
    then show ?thesis using rb by (intro exI [of _ "m - 1"]) auto
  qed
  moreover have "addrs (plug ?u fs) = lctx fs @ addrs l @ addrs r @ rctx fs"
    using one by (auto simp: addrs_plug)
  moreover have "within (tree_set (Nd l c a r) fs) st st'"
    using s(4) one by (auto simp: within_def tree_set_def split: if_splits)
  ultimately show ?thesis using s(2) unfolding unlinked_at_def by blast
qed

lemma par_append: "par (gs @ f # fs) = (if gs = [] then par (f # fs) else par gs)"
  by (cases gs rule: par.cases) auto

lemma crb_rename: "crb (gs @ Fr d c a s # fs) n = crb (gs @ Fr d c b s # fs) n"
proof -
  have "top_black (hs @ Fr d c a s # fs) = top_black (hs @ Fr d c b s # fs)" for hs
    by (cases hs rule: top_black.cases) auto
  then show ?thesis
  proof (induction gs arbitrary: n)
    case Nil
    then show ?case by (cases c) auto
  next
    case (Cons f gs)
    obtain d' c' a' s' where "f = Fr d' c' a' s'" by (cases f)
    then show ?case using Cons by (cases c') auto
  qed
qed

lemma lctx_append: "lctx (gs @ fs) = lctx fs @ lctx gs" and rctx_append: "rctx (gs @ fs) = rctx gs @ rctx fs"
  by (induction gs rule: lctx.induct; simp)+

lemma top_left_append: "top_left (gs @ Fr d c a s # fs) = (if gs = [] then d = SL else top_left gs)"
  by (cases gs rule: top_left.cases) auto

lemma focus_inner: "focus st t (gs @ Fr SL c a r # fs) = focus st (Nd (plug t gs) c a r) fs"
  using focus_plug [of st t gs "Fr SL c a r # fs"] focus_up [of st "plug t gs" "Fr SL c a r" fs] by simp

lemma erase_unlink_inner:
  assumes F: "focus st (Nd l c a r) fs" and rb: "redblack (plug (Nd l c a r) fs)"
    and two: "l \<noteq> Lf" "r \<noteq> Lf"
  shows "\<exists>st' cy u gs. erase_unlink st a = Some (st', pt u, par gs, top_left gs, cbit cy) \<and>
           unlinked_at st' (lctx fs @ addrs l @ addrs r @ rctx fs) cy u gs \<and>
           within (tree_set (Nd l c a r) fs) st st'"
proof -
  define y where "y = last (addrs l)"
  obtain yl cy gs where l: "l = plug (Nd yl cy y Lf) gs" and sp: "rctx gs = []"
    using last_position [OF two(1)] unfolding y_def by blast
  have Tl: "plug (Nd l c a r) fs = plug (Nd yl cy y Lf) (gs @ Fr SL c a r # fs)"
    by (simp add: l plug_append)
  let ?C = "\<lambda>b. gs @ Fr SL c b r # fs"
  have Y: "focus st (Nd yl cy y Lf) (?C a)"
    using F by (simp add: focus_inner l)
  obtain n where n: "rbt (Nd yl cy y Lf) n" "crb (?C a) n"
    using redblack_plug [OF rb [unfolded Tl]] by blast
  obtain t1 where t1: "splice_out st y (pt yl) = Some (t1, par (?C a), top_left (?C a))"
    "focus t1 yl (?C a)" "nodes t1 y = nodes st y" "within (tree_set yl (?C a)) st t1"
    using splice_out_ok [OF Y, of yl] by auto
  note C = focus_cell [OF F] and CY = focus_cell [OF Y]
  have lr: "rep (nodes st) a l" "rep (nodes st) a r" using F by (auto simp: focus_def)
  have v: "erase_victim st a = Some y" using C rep_pt0 [OF lr(1)] rep_pt0 [OF lr(2)] two
      descend_right_ok [OF lr(1) two(1)] by (simp add: erase_victim_def acc y_def)
  have dis: "y \<notin> tree_set yl (?C a)" "y \<noteq> a" "a \<notin> set (lctx gs)"
    using Y by (auto simp: focus_def tree_set_def lctx_append rctx_append)
  have F1: "focus t1 (Nd (plug yl gs) c a r) fs" using t1(2) by (simp add: focus_inner)
  have S1: "tree_set (Nd (plug yl gs) c a r) fs = tree_set yl (?C a)"
    by (auto simp: tree_set_def addrs_plug lctx_append rctx_append)
  obtain rl rc ra rr where r: "r = Nd rl rc ra rr" using two(2) by (cases r) auto
  obtain t2 where t2: "rb_swap t1 a y = Some t2" "focus t2 (Nd (plug yl gs) c y r) fs"
    "within (insert y (tree_set (Nd (plug yl gs) c a r) fs)) t1 t2"
    using rb_swap_ok [OF F1 r, of y "par (?C a)" cy "pt yl" 0] dis(1) CY t1(3) unfolding S1 by auto
  have F2: "focus t2 yl (?C y)" using t2(2) by (simp add: focus_inner)
  have col: "rb_color t1 y = cbit cy" using CY t1(3) by (simp add: acc)
  have pa: "(if par (?C a) = a then y else par (?C a)) = par (?C y)"
  proof (cases gs)
    case (Cons f gs')
    obtain d' c' a' s' where f: "f = Fr d' c' a' s'" by (cases f)
    have "a' \<noteq> a" using Y Cons f by (cases d') (auto simp: focus_def lctx_append rctx_append)
    then show ?thesis using Cons f by simp
  qed simp
  have "get_left st y = Some (pt yl)" "get_right st y = Some 0" using CY by (simp_all add: acc)
  moreover have "(if pt yl \<noteq> 0 then pt yl else 0) = pt yl" by simp
  ultimately have "erase_unlink st a = Some (t2, pt yl, par (?C y), top_left (?C y), cbit cy)"
    using v t1(1) t2(1) col dis(2) pa by (simp add: erase_unlink_def Let_def top_left_append)
  moreover have "\<exists>n. rbt yl n \<and> (if cy = Black then crb (?C y) (Suc n) else crb (?C y) n \<and> black yl)"
    using n crb_rename [of gs SL c a r fs _ y]
    by (intro exI [of _ "if cy = Black then n - 1 else n"]) (cases cy; auto simp: le_Suc_eq)
  moreover have "addrs (plug yl (?C y)) = lctx fs @ addrs l @ addrs r @ rctx fs"
    using sp by (simp add: addrs_plug lctx_append rctx_append l)
  moreover have "within (tree_set (Nd l c a r) fs) st t2"
  proof -
    have "tree_set (Nd l c a r) fs = insert y (tree_set yl (?C a))"
      using sp by (auto simp: tree_set_def l addrs_plug lctx_append rctx_append)
    then show ?thesis using t1(4) t2(3) unfolding S1 by (auto simp: within_def)
  qed
  ultimately show ?thesis using F2 unfolding unlinked_at_def by blast
qed

section \<open>Removing a node\<close>

definition cached_first :: "rbtree \<Rightarrow> rtree \<Rightarrow> bool" where
  "cached_first st T \<longleftrightarrow> most_left st = first_of (addrs T)"

lemma erase_unlink_ok:
  assumes F: "focus st (Nd l c a r) fs" and rb: "redblack (plug (Nd l c a r) fs)"
  shows "\<exists>st' cy u gs. erase_unlink st a = Some (st', pt u, par gs, top_left gs, cbit cy) \<and>
           unlinked_at st' (lctx fs @ addrs l @ addrs r @ rctx fs) cy u gs \<and>
           within (tree_set (Nd l c a r) fs) st st'"
proof (cases "l = Lf \<or> r = Lf")
  case True
  obtain m where "rbt (Nd l c a r) m" "crb fs m" using redblack_plug [OF rb] by blast
  from erase_unlink_leaf [OF F this True] show ?thesis by blast
next
  case False
  then show ?thesis using erase_unlink_inner [OF F rb] by blast
qed

lemma unlinked_rebalance:
  assumes U: "unlinked_at st xs cy u gs"
  shows "\<exists>st' T. (if cbit cy = RB_BLACK then erase_rebalance st (pt u) (par gs) (top_left gs) else Some st) = Some st' \<and>
           holds st' T \<and> redblack T \<and> addrs T = xs \<and> within (set xs) st st'"
proof -
  obtain n where n: "rbt u n" "if cy = Black then crb gs (Suc n) else crb gs n \<and> black u"
    and F: "focus st u gs" and xs: "addrs (plug u gs) = xs" using U by (auto simp: unlinked_at_def)
  have S: "tree_set u gs = set xs" using xs by (auto simp: tree_set_def addrs_plug)
  have at: "at (set xs) st st u gs" using at_start [OF F] S by simp
  show ?thesis
  proof (cases cy)
    case Black
    then obtain st' T where "erase_rebalance st (pt u) (par gs) (top_left gs) = Some st'"
      "at (set xs) st st' T []" "redblack T" "addrs T = xs"
      using erase_rebalance_ok [OF at n(1)] n(2) xs by auto
    then show ?thesis using Black by (auto simp: at_def RB_BLACK_def)
  next
    case Red
    have "holds st (plug u gs)" using F by (simp add: holds_plug)
    moreover have "redblack (plug u gs)" using plug_redblack [OF n(1)] n(2) Red by simp
    ultimately show ?thesis using xs Red by (auto simp: RB_BLACK_def)
  qed
qed

lemma holds_frame: "holds st T \<Longrightarrow> a \<notin> set (addrs T) \<Longrightarrow> holds (st\<lparr>nodes := (nodes st)(a := n)\<rparr>) T"
  by (simp add: focus_def)

lemma clear_node:
  assumes "a \<noteq> 0" "holds st T" "a \<notin> set (addrs T)"
  shows "\<exists>st'. (do { t4 \<leftarrow> set_left st a 0; t5 \<leftarrow> set_right t4 a 0; rb_set_parent t5 a 0 }) = Some st' \<and>
           holds st' T \<and> within {a} st st'"
  using assms
  by (auto simp: set_left_def set_right_def rb_set_parent_def update_node_def within_def intro: holds_frame)

lemma focus_most_left: "focus (st\<lparr>most_left := m\<rparr>) t fs = focus st t fs"
  by (simp add: focus_def)

lemma rb_erase_ok:
  assumes H: "holds st T" and rb: "redblack T" and a: "a \<in> set (addrs T)" and ml: "cached_first st T"
  shows "\<exists>st' T'. rb_erase st a = Some st' \<and> holds st' T' \<and> redblack T' \<and>
           addrs T' = remove1 a (addrs T) \<and> cached_first st' T' \<and>
           (\<forall>b. b \<notin> set (addrs T) \<longrightarrow> nodes st' b = nodes st b)"
proof -
  obtain l c r fs where T: "T = plug (Nd l c a r) fs" using find_position [OF a] by blast
  have F: "focus st (Nd l c a r) fs" using H T by (simp add: holds_plug)
  note C = focus_cell [OF F]
  let ?xs = "lctx fs @ addrs l @ addrs r @ rctx fs"
  have adT: "addrs T = lctx fs @ addrs l @ a # addrs r @ rctx fs" by (simp add: T addrs_plug)
  have dist: "distinct (addrs T)" using H by (simp add: focus_def)
  have rem: "remove1 a (addrs T) = ?xs" using dist unfolding adT by (simp add: remove1_append)
  define t0 where "t0 = (if a = most_left st then st\<lparr>most_left := first_of (addrs r @ rctx fs)\<rparr> else st)"
  have t0: "(if a = most_left st then do { nx \<leftarrow> rb_next st a; Some (st\<lparr>most_left := nx\<rparr>) } else Some st) = Some t0"
    using rb_next_ok [OF F] by (cases "a = most_left st") (auto simp: t0_def)
  have ml0: "most_left t0 = first_of ?xs"
  proof (cases "lctx fs @ addrs l")
    case Nil
    then show ?thesis using ml adT by (simp add: t0_def cached_first_def)
  next
    case (Cons b bs)
    have eq: "lctx fs @ addrs l @ zs = b # bs @ zs" for zs using Cons by (metis append_Cons append_assoc)
    have "b \<noteq> a" using dist unfolding adT eq by auto
    then show ?thesis using ml unfolding t0_def cached_first_def adT eq by simp
  qed
  have F0: "focus t0 (Nd l c a r) fs" using F by (auto simp: t0_def focus_most_left)
  obtain t2 cy u gs where t2: "erase_unlink t0 a = Some (t2, pt u, par gs, top_left gs, cbit cy)"
    "unlinked_at t2 ?xs cy u gs" "within (tree_set (Nd l c a r) fs) t0 t2"
    using erase_unlink_ok [OF F0 rb [unfolded T]] by blast
  obtain t3 T' where t3: "(if cbit cy = RB_BLACK then erase_rebalance t2 (pt u) (par gs) (top_left gs) else Some t2) = Some t3"
    "holds t3 T'" "redblack T'" "addrs T' = ?xs" "within (set ?xs) t2 t3"
    using unlinked_rebalance [OF t2(2)] by blast
  have "a \<notin> set (addrs T')" using dist unfolding t3(4) adT by auto
  then obtain t6 where t6: "(do { t4 \<leftarrow> set_left t3 a 0; t5 \<leftarrow> set_right t4 a 0; rb_set_parent t5 a 0 }) = Some t6"
    "holds t6 T'" "within {a} t3 t6"
    using clear_node [OF C(1) t3(2)] by blast
  have "rb_erase st a = Some t6"
    using C(1) t0 t2(1) t3(1) t6(1) by (simp add: rb_erase_def)
  moreover have "cached_first t6 T'"
    using ml0 t2(3) t3(4,5) t6(3) by (simp add: cached_first_def within_def)
  moreover have "nodes t6 b = nodes st b" if "b \<notin> set (addrs T)" for b
  proof -
    have "b \<notin> tree_set (Nd l c a r) fs" "b \<notin> set ?xs" "b \<noteq> a" using that by (auto simp: adT tree_set_def)
    then show ?thesis using t2(3) t3(5) t6(3) by (simp add: within_def t0_def)
  qed
  ultimately show ?thesis using t3(3,4) t6(2) rem by auto
qed

end
