(* ===== verification/Runq.thy ===== *)
theory Runq
  imports Rbtree_Remove
begin

text \<open>
  The run queue of \<^verbatim>\<open>kernel/proc/runq.c\<close>: a red-black tree of tasks keyed by their virtual run
  time.  A task is identified with the address of its embedded node; the fields of all tasks
  are functions of that address, shared by the queues of all processors.  The properties
  relate every operation to the sequence of queued tasks in tree order.
\<close>

section \<open>State\<close>

datatype task_state =
    TASK_S_NOT_STARTED | TASK_S_RUNNABLE | TASK_S_WAITING | TASK_S_SLEEPING | TASK_S_ZOMBIE | TASK_S_DEAD

record task_mem =
  rb_nodes :: "u64 \<Rightarrow> rb_node"
  vruntime :: "u64 \<Rightarrow> u64"
  task_st :: "u64 \<Rightarrow> task_state"

record runq =
  rq_root :: u64
  rq_most_left :: u64
  num_threads :: u64
  idle :: u64

definition rq_tree :: "task_mem \<Rightarrow> runq \<Rightarrow> rbtree" where
  "rq_tree mem rq = \<lparr>nodes = rb_nodes mem, root = rq_root rq, most_left = rq_most_left rq\<rparr>"

definition put_tree :: "task_mem \<Rightarrow> runq \<Rightarrow> rbtree \<Rightarrow> task_mem \<times> runq" where
  "put_tree mem rq tree =
     (mem\<lparr>rb_nodes := nodes tree\<rparr>, rq\<lparr>rq_root := root tree, rq_most_left := most_left tree\<rparr>)"

section \<open>Operations\<close>

definition min_vruntime :: "task_mem \<Rightarrow> runq \<Rightarrow> u64" where
  "min_vruntime mem rq = (if rq_most_left rq = 0 then 0 else vruntime mem (rq_most_left rq))"

fun read_link :: "rbtree \<Rightarrow> link \<Rightarrow> u64 option" where
  "read_link tree Root_link = Some (root tree)"
| "read_link tree (Left_link p) = get_left tree p"
| "read_link tree (Right_link p) = get_right tree p"

partial_function (option) find_link ::
  "rbtree \<Rightarrow> (u64 \<Rightarrow> u64) \<Rightarrow> u64 \<Rightarrow> u64 \<Rightarrow> link \<Rightarrow> (u64 \<times> link) option"
where
  "find_link tree key k parent link = do {
     cur \<leftarrow> read_link tree link;
     if cur = 0 then Some (parent, link)
     else if k < key cur then find_link tree key k cur (Left_link cur)
     else find_link tree key k cur (Right_link cur) }"

definition tree_insert :: "task_mem \<Rightarrow> runq \<Rightarrow> u64 \<Rightarrow> (task_mem \<times> runq) option" where
  "tree_insert mem rq t = do {
     let first = rb_first_cached (rq_tree mem rq);
     (parent, link) \<leftarrow> find_link (rq_tree mem rq) (vruntime mem) (vruntime mem t) 0 Root_link;
     tree1 \<leftarrow> rb_link_node (rq_tree mem rq) t parent link;
     tree2 \<leftarrow> rb_insert tree1 t (first = 0 \<or> vruntime mem t < vruntime mem first);
     let (mem', rq') = put_tree mem rq tree2;
     Some (mem', rq'\<lparr>num_threads := num_threads rq' + 1\<rparr>) }"

definition tree_remove :: "task_mem \<Rightarrow> runq \<Rightarrow> u64 \<Rightarrow> (task_mem \<times> runq) option" where
  "tree_remove mem rq t = do {
     tree1 \<leftarrow> rb_erase (rq_tree mem rq) t;
     let (mem', rq') = put_tree mem rq tree1;
     Some (mem', rq'\<lparr>num_threads := num_threads rq' - 1\<rparr>) }"

definition runq_add :: "task_mem \<Rightarrow> runq \<Rightarrow> u64 \<Rightarrow> (task_mem \<times> runq) option" where
  "runq_add mem rq t =
     (let mem1 = (if task_st mem t \<noteq> TASK_S_RUNNABLE
                  then mem\<lparr>vruntime := (vruntime mem)(t := min_vruntime mem rq)\<rparr> else mem)
      in tree_insert mem1 rq t)"

definition runq_next :: "task_mem \<Rightarrow> runq \<Rightarrow> (u64 \<times> task_mem \<times> runq) option" where
  "runq_next mem rq = do {
     let node = rb_first_cached (rq_tree mem rq);
     (mem', rq') \<leftarrow> (if node \<noteq> 0 then tree_remove mem rq node else Some (mem, rq));
     Some (if node = 0 then idle rq' else node, mem', rq') }"

definition runq_remove :: "task_mem \<Rightarrow> runq \<Rightarrow> u64 \<Rightarrow> (task_mem \<times> runq) option" where
  "runq_remove mem rq t = tree_remove mem rq t"

text \<open>The loop of \<^verbatim>\<open>runq_balance_pull\<close> over the processors, from number \<open>i\<close> on.\<close>

function balance_from :: "task_mem \<Rightarrow> runq list \<Rightarrow> nat \<Rightarrow> nat \<Rightarrow> (task_mem \<times> runq list) option" where
  "balance_from mem rqs this i =
     (if i < length rqs then
        (if i \<noteq> this \<and> num_threads (rqs ! i) > 0 then do {
           let pulled = rb_first_cached (rq_tree mem (rqs ! i));
           (mem1, other) \<leftarrow> (if pulled = 0 then None else tree_remove mem (rqs ! i) pulled);
           (mem2, rq) \<leftarrow> tree_insert mem1 (rqs ! this) pulled;
           Some (mem2, rqs[i := other, this := rq]) }
         else balance_from mem rqs this (Suc i))
      else Some (mem, rqs))"
  by pat_completeness auto
termination
  by (relation "measure (\<lambda>(mem, rqs, this, i). length rqs - i)") auto

declare balance_from.simps [simp del]

definition runq_balance_pull :: "task_mem \<Rightarrow> runq list \<Rightarrow> nat \<Rightarrow> (task_mem \<times> runq list) option" where
  "runq_balance_pull mem rqs this = balance_from mem rqs this 0"

section \<open>Searching for the place of a task\<close>

lemma link_of_read: "focus st t fs \<Longrightarrow> read_link st (link_of fs) = Some (pt t)"
proof (cases fs rule: lctx.cases)
  case 1
  then show "focus st t fs \<Longrightarrow> ?thesis" by (simp add: focus_def)
next
  case (2 c a s fs')
  then show "focus st t fs \<Longrightarrow> ?thesis" using frame_cell [of st t SL c a s fs'] by (simp add: acc)
next
  case (3 c a s fs')
  then show "focus st t fs \<Longrightarrow> ?thesis" using frame_cell [of st t SR c a s fs'] by (simp add: acc)
qed

lemma find_link_ok:
  assumes "focus st t fs" "sorted (map key (addrs t))"
    and "\<forall>y \<in> set (lctx fs). \<not> k < key y" "\<forall>y \<in> set (rctx fs). k < key y"
  shows "\<exists>gs. find_link st key k (par fs) (link_of fs) = Some (par gs, link_of gs) \<and> focus st Lf gs \<and>
           plug Lf gs = plug t fs \<and>
           (\<forall>y \<in> set (lctx gs). \<not> k < key y) \<and> (\<forall>y \<in> set (rctx gs). k < key y)"
  using assms
proof (induction t arbitrary: fs)
  case Lf
  then show ?case using link_of_read [OF Lf(1)] by (auto simp: find_link.simps)
next
  case (Nd l c a r)
  have a0: "a \<noteq> 0" using focus_cell [OF Nd.prems(1)] by simp
  note rd = link_of_read [OF Nd.prems(1)]
  show ?case
  proof (cases "k < key a")
    case True
    have F: "focus st l (Fr SL c a r # fs)" using Nd.prems(1) by (simp flip: focus_up)
    have "\<forall>y \<in> set (addrs r). k < key y" using Nd.prems(2) True by (auto simp: sorted_append)
    then have "\<exists>gs. find_link st key k a (Left_link a) = Some (par gs, link_of gs) \<and> focus st Lf gs \<and>
        plug Lf gs = plug l (Fr SL c a r # fs) \<and>
        (\<forall>y \<in> set (lctx gs). \<not> k < key y) \<and> (\<forall>y \<in> set (rctx gs). k < key y)"
      using Nd.IH(1) [OF F] Nd.prems(2-4) True by (auto simp: sorted_append)
    then show ?thesis using rd a0 True by (simp add: find_link.simps [of st key k "par fs"])
  next
    case False
    have F: "focus st r (Fr SR c a l # fs)" using Nd.prems(1) by (simp flip: focus_up)
    have "\<forall>y \<in> set (addrs l). \<not> k < key y" using Nd.prems(2) False by (fastforce simp: sorted_append)
    then have "\<exists>gs. find_link st key k a (Right_link a) = Some (par gs, link_of gs) \<and> focus st Lf gs \<and>
        plug Lf gs = plug r (Fr SR c a l # fs) \<and>
        (\<forall>y \<in> set (lctx gs). \<not> k < key y) \<and> (\<forall>y \<in> set (rctx gs). k < key y)"
      using Nd.IH(2) [OF F] Nd.prems(2-4) False by (auto simp: sorted_append)
    then show ?thesis using rd a0 False by (simp add: find_link.simps [of st key k "par fs"])
  qed
qed

section \<open>What a queue holds\<close>

definition task_addr :: "u64 \<Rightarrow> bool" where
  "task_addr t \<longleftrightarrow> t \<noteq> 0 \<and> aligned t"

text \<open>\<open>queued mem rq xs\<close>: the tree of the queue is a red-black tree whose in-order sequence is \<open>xs\<close>.\<close>

definition queued :: "task_mem \<Rightarrow> runq \<Rightarrow> u64 list \<Rightarrow> bool" where
  "queued mem rq xs \<longleftrightarrow>
     (\<exists>T. holds (rq_tree mem rq) T \<and> redblack T \<and> addrs T = xs \<and> cached_first (rq_tree mem rq) T) \<and>
     sorted (map (vruntime mem) xs) \<and> num_threads rq = of_nat (length xs)"

text \<open>The place of a task: behind every task whose key is not larger.\<close>

definition enqueue :: "(u64 \<Rightarrow> u64) \<Rightarrow> u64 \<Rightarrow> u64 list \<Rightarrow> u64 list" where
  "enqueue key t xs =
     takeWhile (\<lambda>y. \<not> key t < key y) xs @ t # dropWhile (\<lambda>y. \<not> key t < key y) xs"

lemma set_enqueue [simp]: "set (enqueue key t xs) = insert t (set xs)"
  unfolding enqueue_def by (simp, metis set_append takeWhile_dropWhile_id)

lemma length_enqueue [simp]: "length (enqueue key t xs) = Suc (length xs)"
  unfolding enqueue_def by (simp, metis length_append takeWhile_dropWhile_id)

lemma takeWhile_split:
  assumes "\<forall>y \<in> set as. P y" "\<forall>y \<in> set bs. \<not> P y"
  shows "takeWhile P (as @ bs) = as \<and> dropWhile P (as @ bs) = bs"
  using assms by (induction as) (cases bs; auto)+

lemma sorted_enqueue:
  assumes "sorted (map key xs)"
  shows "sorted (map key (enqueue key t xs))"
proof -
  let ?P = "\<lambda>y. \<not> key t < key y"
  have d: "\<forall>y \<in> set (dropWhile ?P xs). key t < key y"
  proof (cases "dropWhile ?P xs")
    case (Cons z zs)
    then have "key t < key z" using hd_dropWhile [of ?P xs] by simp
    moreover have "sorted (map key (z # zs))"
      using assms sorted_wrt_drop unfolding Cons [symmetric] dropWhile_eq_drop drop_map [symmetric] by blast
    ultimately show ?thesis using Cons by auto
  next
    case Nil
    then show ?thesis by (metis empty_iff list.set(1))
  qed
  define A B where "A = takeWhile ?P xs" and "B = dropWhile ?P xs"
  have "sorted (map key (A @ B))" using assms by (simp add: A_def B_def)
  moreover have "\<forall>y \<in> set A. key y \<le> key t" by (auto simp: A_def dest: set_takeWhileD)
  moreover have "\<forall>y \<in> set B. key t \<le> key y" using d unfolding B_def by (meson less_imp_le)
  ultimately have "sorted (map key (A @ t # B))" by (auto simp: sorted_append)
  then show ?thesis unfolding enqueue_def A_def B_def .
qed

lemma queued_frame:
  assumes "queued mem rq xs" "\<forall>a \<in> set xs. rb_nodes mem' a = rb_nodes mem a \<and> vruntime mem' a = vruntime mem a"
  shows "queued mem' rq xs"
proof -
  have rp: "rep h' q t" if "rep h q t" "\<forall>a \<in> set (addrs t). h' a = h a" for h h' q t
    using that by (induction t arbitrary: q) auto
  have key: "map (vruntime mem') xs = map (vruntime mem) xs" using assms(2) by simp
  obtain T where T: "holds (rq_tree mem rq) T" "redblack T" "addrs T = xs" "cached_first (rq_tree mem rq) T"
    using assms(1) by (auto simp: queued_def)
  have "rep (rb_nodes mem') 0 T"
  proof (rule rp)
    show "rep (rb_nodes mem) 0 T" using T(1) by (simp add: focus_def rq_tree_def)
    show "\<forall>a \<in> set (addrs T). rb_nodes mem' a = rb_nodes mem a" using T(3) assms(2) by simp
  qed
  then have "holds (rq_tree mem' rq) T" "cached_first (rq_tree mem' rq) T"
    using T(1,4) by (auto simp: focus_def rq_tree_def cached_first_def)
  then show ?thesis using assms(1) T(2,3) unfolding queued_def key by blast
qed

lemma queued_first:
  assumes "queued mem rq xs"
  shows "rb_first_cached (rq_tree mem rq) = first_of xs" "distinct xs" "\<forall>a \<in> set xs. task_addr a"
proof -
  obtain T where T: "holds (rq_tree mem rq) T" "addrs T = xs" "cached_first (rq_tree mem rq) T"
    using assms by (auto simp: queued_def)
  then show "rb_first_cached (rq_tree mem rq) = first_of xs" "distinct xs"
    by (auto simp: rb_first_cached_def cached_first_def focus_def)
  have "\<forall>a \<in> set (addrs t). task_addr a" if "rep h q t" for h q t
    using that by (induction t arbitrary: q) (auto simp: task_addr_def)
  then show "\<forall>a \<in> set xs. task_addr a" using T by (auto simp: focus_def)
qed

lemma first_of_in: "xs \<noteq> [] \<Longrightarrow> first_of xs \<in> set xs"
  by (cases xs) auto

lemma queued_first_0: "queued mem rq xs \<Longrightarrow> first_of xs = 0 \<longleftrightarrow> xs = []"
  using queued_first(3) [of mem rq xs] first_of_in [of xs] by (auto simp: task_addr_def)

section \<open>The operations on the sequence of tasks\<close>

lemma tree_insert_ok:
  assumes Q: "queued mem rq xs" and t: "task_addr t" "t \<notin> set xs"
  shows "\<exists>mem' rq'. tree_insert mem rq t = Some (mem', rq') \<and> queued mem' rq' (enqueue (vruntime mem) t xs) \<and>
           vruntime mem' = vruntime mem \<and> task_st mem' = task_st mem \<and> idle rq' = idle rq \<and>
           (\<forall>a. a \<notin> insert t (set xs) \<longrightarrow> rb_nodes mem' a = rb_nodes mem a)"
proof -
  let ?st = "rq_tree mem rq" and ?key = "vruntime mem" and ?k = "vruntime mem t"
  obtain T where T: "holds ?st T" "redblack T" "addrs T = xs" "cached_first ?st T"
    and so: "sorted (map ?key xs)" and len: "num_threads rq = of_nat (length xs)"
    using Q by (auto simp: queued_def)
  obtain fs where fs: "find_link ?st ?key ?k 0 Root_link = Some (par fs, link_of fs)" "focus ?st Lf fs"
    "plug Lf fs = T" "\<forall>y \<in> set (lctx fs). \<not> ?k < ?key y" "\<forall>y \<in> set (rctx fs). ?k < ?key y"
    using find_link_ok [OF T(1), of ?key ?k] so T(3) by auto
  have xs: "lctx fs @ rctx fs = xs" using addrs_plug [of Lf fs] fs(3) T(3) by simp
  have sp: "enqueue ?key t xs = lctx fs @ t # rctx fs"
    using takeWhile_split [of "lctx fs" "\<lambda>y. \<not> ?k < ?key y" "rctx fs"] fs(4,5)
    unfolding xs enqueue_def by simp
  let ?ml = "first_of xs = 0 \<or> ?k < ?key (first_of xs)"
  have ml: "?ml \<longleftrightarrow> lctx fs = []"
  proof (cases "lctx fs")
    case Nil
    then show ?thesis using fs(5) xs by (cases xs) auto
  next
    case (Cons b bs)
    then have "first_of xs = b" "xs \<noteq> []" using xs by auto
    then show ?thesis using queued_first_0 [OF Q] fs(4) Cons by simp
  qed
  have S: "tree_set Lf fs = set xs" by (auto simp: tree_set_def simp flip: xs)
  obtain st1 st2 T2 where I: "rb_link_node ?st t (par fs) (link_of fs) = Some st1"
    "rb_insert st1 t ?ml = Some st2" "holds st2 T2" "redblack T2" "addrs T2 = lctx fs @ t # rctx fs"
    "most_left st2 = (if ?ml then t else most_left ?st)"
    "\<forall>a. a \<notin> insert t (set xs) \<longrightarrow> nodes st2 a = nodes ?st a"
    using rb_insert_ok [OF fs(2), of t ?ml] T(2) fs(3) t ml S by (auto simp: task_addr_def)
  define mem' where "mem' = mem\<lparr>rb_nodes := nodes st2\<rparr>"
  define rq' where "rq' = rq\<lparr>rq_root := root st2, rq_most_left := most_left st2, num_threads := num_threads rq + 1\<rparr>"
  have st2: "rq_tree mem' rq' = st2" by (simp add: rq_tree_def mem'_def rq'_def)
  have "tree_insert mem rq t = Some (mem', rq')"
    using fs(1) I(1,2) queued_first(1) [OF Q]
    by (simp add: tree_insert_def put_tree_def mem'_def rq'_def Let_def)
  moreover have "cached_first st2 T2"
  proof (cases "lctx fs")
    case Nil
    then show ?thesis using I(5,6) ml by (auto simp: cached_first_def)
  next
    case (Cons b bs)
    then have "first_of xs = b" using xs by (metis append_Cons first_of_simps(2))
    then show ?thesis using I(5,6) ml T(3,4) Cons by (simp add: cached_first_def)
  qed
  moreover have "num_threads rq' = of_nat (length (enqueue ?key t xs))"
    using len by (simp add: rq'_def)
  moreover have "sorted (map (vruntime mem') (enqueue ?key t xs))"
    using sorted_enqueue [OF so, of t] by (simp add: mem'_def)
  ultimately have "queued mem' rq' (enqueue ?key t xs)"
    unfolding queued_def st2 using I(3-5) sp by auto
  moreover note \<open>tree_insert mem rq t = Some (mem', rq')\<close>
  ultimately show ?thesis using I(7) by (auto simp: mem'_def rq'_def rq_tree_def)
qed

lemma tree_remove_ok:
  assumes Q: "queued mem rq xs" and t: "t \<in> set xs"
  shows "\<exists>mem' rq'. tree_remove mem rq t = Some (mem', rq') \<and> queued mem' rq' (remove1 t xs) \<and>
           vruntime mem' = vruntime mem \<and> task_st mem' = task_st mem \<and> idle rq' = idle rq \<and>
           (\<forall>a. a \<notin> set xs \<longrightarrow> rb_nodes mem' a = rb_nodes mem a)"
proof -
  let ?st = "rq_tree mem rq"
  obtain T where T: "holds ?st T" "redblack T" "addrs T = xs" "cached_first ?st T"
    and so: "sorted (map (vruntime mem) xs)" and len: "num_threads rq = of_nat (length xs)"
    using Q by (auto simp: queued_def)
  obtain st2 T2 where E: "rb_erase ?st t = Some st2" "holds st2 T2" "redblack T2" "addrs T2 = remove1 t xs"
    "cached_first st2 T2" "\<forall>b. b \<notin> set xs \<longrightarrow> nodes st2 b = nodes ?st b"
    using rb_erase_ok [OF T(1,2) _ T(4), of t] t T(3) by auto
  define mem' where "mem' = mem\<lparr>rb_nodes := nodes st2\<rparr>"
  define rq' where "rq' = rq\<lparr>rq_root := root st2, rq_most_left := most_left st2, num_threads := num_threads rq - 1\<rparr>"
  have st2: "rq_tree mem' rq' = st2" by (simp add: rq_tree_def mem'_def rq'_def)
  have "tree_remove mem rq t = Some (mem', rq')"
    using E(1) by (simp add: tree_remove_def put_tree_def mem'_def rq'_def)
  moreover have "sorted (map (vruntime mem) (remove1 t xs))"
    using so by (rule sorted_map_remove1)
  moreover have "length xs = Suc (length (remove1 t xs))"
    using t by (simp add: length_remove1 Suc_pred [OF length_pos_if_in_set])
  then have "num_threads rq' = of_nat (length (remove1 t xs))" using len by (simp add: rq'_def)
  ultimately have "queued mem' rq' (remove1 t xs)"
    unfolding queued_def st2 using E(2-5) by (auto simp: mem'_def)
  moreover note \<open>tree_remove mem rq t = Some (mem', rq')\<close>
  ultimately show ?thesis using E(6) by (auto simp: mem'_def rq'_def rq_tree_def)
qed

end
