(* ===== verification/Rbtree_Correct.thy ===== *)
theory Rbtree_Correct
  imports Rbtree_Remove
begin

text \<open>
  The properties of the red-black tree: insertion and removal return and change the in-order
  sequence by exactly the node, the walk to the successor is right, the height is logarithmic,
  and what \<^verbatim>\<open>rb_replace\<close> leaves behind.
\<close>

section \<open>Height\<close>

fun height :: "rtree \<Rightarrow> nat" where
  "height Lf = 0"
| "height (Nd l c a r) = Suc (max (height l) (height r))"

lemma rbt_height: "rbt t n \<Longrightarrow> height t \<le> 2 * n + (if black t then 0 else 1)"
proof (induction t arbitrary: n)
  case Lf
  then show ?case by simp
next
  case (Nd l c a r)
  show ?case
  proof (cases c)
    case Red
    then show ?thesis using Nd.prems Nd.IH(1) [of n] Nd.IH(2) [of n] by auto
  next
    case Black
    then have "height l \<le> 2 * (n - 1) + 1" "height r \<le> 2 * (n - 1) + 1" "0 < n"
      using Nd.prems Nd.IH(1) [of "n - 1"] Nd.IH(2) [of "n - 1"] by (auto split: if_splits)
    then show ?thesis using Black by simp
  qed
qed

lemma rbt_size: "rbt t n \<Longrightarrow> 2 ^ n \<le> Suc (length (addrs t))"
proof (induction t arbitrary: n)
  case Lf
  then show ?case by simp
next
  case (Nd l c a r)
  show ?case
  proof (cases c)
    case Red
    then show ?thesis using Nd.prems Nd.IH(1) [of n] by simp
  next
    case Black
    then obtain m where "n = Suc m" "rbt l m" "rbt r m" using Nd.prems by (cases n) auto
    then show ?thesis using Nd.IH(1) [of m] Nd.IH(2) [of m] by simp
  qed
qed

fun climb :: "rbtree \<Rightarrow> nat \<Rightarrow> u64 \<Rightarrow> u64 option" where
  "climb st 0 a = Some a"
| "climb st (Suc k) a = do { p \<leftarrow> rb_parent st a; climb st k p }"

lemma climb_to_root: "focus st (Nd l c a r) fs \<Longrightarrow> climb st (Suc (length fs)) a = Some 0"
proof (induction fs arbitrary: l c a r)
  case Nil
  then show ?case using focus_cell [OF Nil] by (simp add: acc)
next
  case (Cons f fs)
  obtain d cp p s where f: "f = Fr d cp p s" by (cases f)
  have "\<exists>l' c' r'. plug1 (Nd l c a r) f = Nd l' c' p r'" by (cases d) (auto simp: f)
  then have "climb st (Suc (length fs)) p = Some 0"
    using Cons.IH Cons.prems unfolding focus_up [symmetric] by metis
  moreover have "rb_parent st a = Some p" using focus_cell [OF Cons.prems] f by (simp add: acc)
  ultimately show ?case by (simp del: climb.simps(2) add: climb.simps(2) [of st "Suc (length fs)" a])
qed

lemma height_plug: "height t + length fs \<le> height (plug t fs)"
proof (induction fs arbitrary: t)
  case (Cons f fs)
  have "Suc (height t) \<le> height (plug1 t f)" by (cases "(t, f)" rule: plug1.cases) auto
  then show ?case using Cons [of "plug1 t f"] by simp
qed simp

section \<open>Properties\<close>

text \<open>A tree of one node, and one of three, for the examples.\<close>

definition ex_leaf :: rbtree where
  "ex_leaf = \<lparr>nodes = (\<lambda>_. cell 0 Red 0 0)(16 := cell 0 Black 0 0), root = 16, most_left = 16\<rparr>"

lemma ex_leaf_holds: "holds ex_leaf (Nd Lf Black 16 Lf)" "redblack (Nd Lf Black 16 Lf)"
  "cached_first ex_leaf (Nd Lf Black 16 Lf)"
  by (auto simp: ex_leaf_def focus_def aligned_def redblack_def cached_first_def)

definition ex_three :: rbtree where
  "ex_three = \<lparr>nodes = (\<lambda>_. cell 0 Red 0 0)(16 := cell 0 Black 8 24, 8 := cell 16 Red 0 0, 24 := cell 16 Red 0 0),
     root = 16, most_left = 8\<rparr>"

lemma ex_three_holds: "holds ex_three (Nd (Nd Lf Red 8 Lf) Black 16 (Nd Lf Red 24 Lf))"
  "redblack (Nd (Nd Lf Red 8 Lf) Black 16 (Nd Lf Red 24 Lf))"
  "cached_first ex_three (Nd (Nd Lf Red 8 Lf) Black 16 (Nd Lf Red 24 Lf))"
  by (auto simp: ex_three_def focus_def aligned_def redblack_def cached_first_def)

text \<open>
  C10. \<^verbatim>\<open>rb_link_node\<close> followed by \<^verbatim>\<open>rb_insert\<close>, at any empty place of a red-black tree: both return,
  the result is a red-black tree whose in-order sequence is the old one with the new node at
  that place, the cached leftmost pointer is set exactly when the flag says so, and no node
  outside the tree is touched.
\<close>

theorem rb_insert_correct:
  assumes "holds st (plug Lf fs)" and "redblack (plug Lf fs)"
    and "n \<noteq> 0" and "aligned n" and "n \<notin> set (addrs (plug Lf fs))" and "ml \<longrightarrow> lctx fs = []"
  shows "\<exists>st1 st' T. rb_link_node st n (par fs) (link_of fs) = Some st1 \<and> rb_insert st1 n ml = Some st' \<and>
           holds st' T \<and> redblack T \<and> addrs T = lctx fs @ n # rctx fs \<and>
           most_left st' = (if ml then n else most_left st) \<and>
           (\<forall>a. a \<notin> insert n (set (addrs (plug Lf fs))) \<longrightarrow> nodes st' a = nodes st a)"
proof -
  have "tree_set Lf fs = set (addrs (plug Lf fs))" by (simp add: tree_set_def addrs_plug)
  then show ?thesis using rb_insert_ok [of st fs n ml] assms by (simp add: holds_plug)
qed

theorem rb_insert_correct_witness:
  "\<exists>st1 st' T. rb_link_node ex_leaf 8 16 (Left_link 16) = Some st1 \<and> rb_insert st1 8 True = Some st' \<and>
     holds st' T \<and> redblack T \<and> addrs T = [8, 16] \<and> most_left st' = 8"
  using rb_insert_correct [of ex_leaf "[Fr SL Black 16 Lf]" 8 True] ex_leaf_holds
  by (auto simp: aligned_def)

text \<open>
  C3. \<^verbatim>\<open>rb_erase\<close> of a node of a red-black tree returns; the result is a red-black tree whose
  in-order sequence is the old one without the node, the cached leftmost pointer is the first
  node of it again, and no node outside the old tree is touched.
\<close>

theorem rb_erase_correct:
  assumes "holds st T" and "redblack T" and "a \<in> set (addrs T)" and "cached_first st T"
  shows "\<exists>st' T'. rb_erase st a = Some st' \<and> holds st' T' \<and> redblack T' \<and>
           addrs T' = remove1 a (addrs T) \<and> cached_first st' T' \<and>
           (\<forall>b. b \<notin> set (addrs T) \<longrightarrow> nodes st' b = nodes st b)"
  by (rule rb_erase_ok [OF assms])

theorem rb_erase_correct_witness:
  "\<exists>st' T'. rb_erase ex_three 16 = Some st' \<and> holds st' T' \<and> redblack T' \<and> addrs T' = [8, 24] \<and> most_left st' = 8"
  using rb_erase_correct [OF ex_three_holds(1,2) _ ex_three_holds(3), of 16]
  by (auto simp: cached_first_def)

text \<open>
  \<^verbatim>\<open>rb_next\<close> returns the successor of a node in the in-order sequence, or \<^verbatim>\<open>NULL\<close> for the last
  node, and \<^verbatim>\<open>rb_first_uncached\<close> returns the first node.
\<close>

lemma rb_next_correct:
  assumes "holds st T" and "addrs T = xs @ a # ys"
  shows "rb_next st a = Some (first_of ys) \<and> rb_first_uncached st = Some (first_of (addrs T))"
proof -
  obtain l c r fs where T: "T = plug (Nd l c a r) fs" using find_position [of a T] assms(2) by auto
  have F: "focus st (Nd l c a r) fs" using assms(1) T by (simp add: holds_plug)
  have "(lctx fs @ addrs l) @ a # addrs r @ rctx fs = xs @ a # ys" using assms(2) T by (simp add: addrs_plug)
  moreover have "distinct (xs @ a # ys)" using assms by (simp add: focus_def)
  then have "a \<notin> set xs" "a \<notin> set ys" by auto
  ultimately have "addrs r @ rctx fs = ys"
    by (metis append_Cons_eq_iff append_assoc)
  then show ?thesis using rb_next_ok [OF F] rb_first_uncached_ok [OF assms(1)] by simp
qed

lemma rb_next_correct_example: "rb_next ex_three 16 = Some 24 \<and> rb_first_uncached ex_three = Some 8"
  using rb_next_correct [OF ex_three_holds(1), of "[8]" 16 "[24]"] by simp

text \<open>
  A red-black tree is balanced: following \<^verbatim>\<open>rb_parent\<close> from any node of it reaches the \<^verbatim>\<open>NULL\<close>
  above the root after \<open>k\<close> steps with \<open>2 ^ ((k + 1) div 2) \<le> n + 1\<close> for a tree of \<open>n\<close> nodes, so
  the loops that walk between the root and a node take logarithmically many steps.
\<close>

lemma redblack_balanced:
  assumes "holds st T" and "redblack T" and "a \<in> set (addrs T)"
  shows "\<exists>k. climb st k a = Some 0 \<and> 2 ^ ((k + 1) div 2) \<le> Suc (length (addrs T))"
proof -
  obtain n where n: "rbt T n" "black T" using assms(2) by (auto simp: redblack_def)
  obtain l c r fs where T: "T = plug (Nd l c a r) fs" using find_position [OF assms(3)] by auto
  have "climb st (Suc (length fs)) a = Some 0"
    using climb_to_root assms(1) unfolding T holds_plug by blast
  moreover have "Suc (length fs) \<le> height T" using height_plug [of "Nd l c a r" fs] T by simp
  then have "(Suc (length fs) + 1) div 2 \<le> n" using rbt_height [OF n(1)] n(2) by simp
  then have "(2::nat) ^ ((Suc (length fs) + 1) div 2) \<le> 2 ^ n" by (intro power_increasing) auto
  then have "2 ^ ((Suc (length fs) + 1) div 2) \<le> Suc (length (addrs T))"
    using rbt_size [OF n(1)] by (rule order_trans)
  ultimately show ?thesis by blast
qed

lemma redblack_balanced_example: "\<exists>k. climb ex_three k 24 = Some 0 \<and> 2 ^ ((k + 1) div 2) \<le> (4::nat)"
  using redblack_balanced [OF ex_three_holds(1,2), of 24] by (simp add: eval_nat_numeral)

text \<open>
  \<^verbatim>\<open>rb_replace\<close> does not relink the parent of the node it replaces: for a node that is not the
  root, the child pointer of its parent still leads to the old node afterwards, so the
  replacement is not reachable from the root.
\<close>

lemma rb_replace_not_linked:
  assumes "focus st (Nd l c a r) (Fr d cp p s # fs)" and "b \<noteq> 0" and "b \<notin> set (addrs (plug (Nd l c a r) (Fr d cp p s # fs)))"
  shows "\<exists>st'. rb_replace st a b = Some st' \<and>
           (if d = SL then get_left st' p else get_right st' p) = Some a \<and> root st' = root st"
proof -
  note C = focus_cell [OF assms(1)] and P = frame_cell [OF assms(1)]
  have F: "rep (nodes st) a l" "rep (nodes st) a r" using assms(1) by (auto simp: focus_def)
  have bn: "b \<notin> set (addrs l)" "b \<notin> set (addrs r)" "b \<noteq> a" "b \<noteq> p" "p \<notin> set (addrs l)" "p \<notin> set (addrs r)"
    "set (addrs l) \<inter> set (addrs r) = {}"
    using assms by (cases d; auto simp: addrs_plug focus_def)+
  have ra: "root st \<noteq> a" using focus_root [OF assms(1)] by simp
  show ?thesis
    by (cases l; cases r; cases d)
      (use C P F bn assms(2) ra in \<open>auto simp: rb_replace_def deref_def update_node_def acc\<close>)
qed

lemma rb_replace_not_linked_example:
  "\<exists>st'. rb_replace ex_three 8 32 = Some st' \<and> get_left st' 16 = Some 8"
  using rb_replace_not_linked [of ex_three Lf Red 8 Lf SL Black 16 "Nd Lf Red 24 Lf" "[]" 32]
    ex_three_holds(1)
  by (auto simp flip: focus_up)

end
