(* ===== verification/Runq_Correct.thy ===== *)
theory Runq_Correct
  imports Runq Rbtree_Correct "HOL-Library.Multiset"
begin

text \<open>
  The properties of the run queue.  The locale \<open>ready_queue\<close> is what the scheduler relies on when
  it picks tasks; the queue of \<^verbatim>\<open>kernel/proc/runq.c\<close> is an instance.  Balancing between
  processors is stated over all queues, which share the memory of the tasks.
\<close>

section \<open>Picking in order\<close>

fun drain :: "('q \<Rightarrow> ('t \<times> 'q) option) \<Rightarrow> nat \<Rightarrow> 'q \<Rightarrow> ('t list \<times> 'q) option" where
  "drain pick 0 q = Some ([], q)"
| "drain pick (Suc n) q = do {
     (x, q') \<leftarrow> pick q;
     (xs, q'') \<leftarrow> drain pick n q';
     Some (x # xs, q'') }"

locale ready_queue =
  fixes tasks :: "'q \<Rightarrow> 't list \<Rightarrow> bool"
    and pick :: "'q \<Rightarrow> ('t \<times> 'q) option"
    and key :: "'q \<Rightarrow> 't \<Rightarrow> 'k :: linorder"
  assumes pick_first: "tasks q (x # xs) \<Longrightarrow> \<exists>q'. pick q = Some (x, q') \<and> tasks q' xs \<and> key q' = key q"
    and in_order: "tasks q xs \<Longrightarrow> sorted (map (key q) xs)"
begin

lemma drain_all: "tasks q xs \<Longrightarrow> \<exists>q'. drain pick (length xs) q = Some (xs, q') \<and> tasks q' [] \<and> key q' = key q"
proof (induction xs arbitrary: q)
  case Nil
  then show ?case by simp
next
  case (Cons x xs)
  obtain q1 where q1: "pick q = Some (x, q1)" "tasks q1 xs" "key q1 = key q"
    using pick_first [OF Cons.prems] by blast
  from Cons.IH [OF q1(2)] obtain q2 where "drain pick (length xs) q1 = Some (xs, q2)" "tasks q2 []" "key q2 = key q1"
    by blast
  then show ?case using q1 by simp
qed

lemma drain_sorted: "tasks q xs \<Longrightarrow> \<exists>ys q'. drain pick (length xs) q = Some (ys, q') \<and> sorted (map (key q) ys)"
  using drain_all in_order by blast

end

lemma remove_head:
  assumes "queued mem rq (x # xs)"
  shows "\<exists>mem' rq'. tree_remove mem rq x = Some (mem', rq') \<and> queued mem' rq' xs \<and>
           vruntime mem' = vruntime mem \<and> task_st mem' = task_st mem \<and> idle rq' = idle rq \<and>
           (\<forall>a. a \<notin> set (x # xs) \<longrightarrow> rb_nodes mem' a = rb_nodes mem a)"
  using tree_remove_ok [OF assms, of x] by simp

lemma runq_next_first:
  assumes Q: "queued mem rq (x # xs)"
  shows "\<exists>mem' rq'. runq_next mem rq = Some (x, mem', rq') \<and> queued mem' rq' xs \<and>
           vruntime mem' = vruntime mem \<and> task_st mem' = task_st mem \<and> idle rq' = idle rq \<and>
           (\<forall>a. a \<notin> set (x # xs) \<longrightarrow> rb_nodes mem' a = rb_nodes mem a)"
proof -
  obtain mem' rq' where r: "tree_remove mem rq x = Some (mem', rq')" "queued mem' rq' xs"
    "vruntime mem' = vruntime mem" "task_st mem' = task_st mem" "idle rq' = idle rq"
    "\<forall>a. a \<notin> set (x # xs) \<longrightarrow> rb_nodes mem' a = rb_nodes mem a"
    using remove_head [OF Q] by (elim exE conjE) (rule that)
  have "x \<noteq> 0" using queued_first(3) [OF Q] by (simp add: task_addr_def)
  then have "runq_next mem rq = Some (x, mem', rq')"
    using r(1) queued_first(1) [OF Q] by (simp add: runq_next_def)
  then show ?thesis using r by blast
qed

interpretation rqs: ready_queue "\<lambda>(mem, rq). queued mem rq" "\<lambda>(mem, rq). runq_next mem rq" "\<lambda>(mem, rq). vruntime mem"
proof
  fix q :: "task_mem \<times> runq" and x xs
  assume "(case q of (mem, rq) \<Rightarrow> queued mem rq) (x # xs)"
  then show "\<exists>q'. (case q of (mem, rq) \<Rightarrow> runq_next mem rq) = Some (x, q') \<and>
      (case q' of (mem, rq) \<Rightarrow> queued mem rq) xs \<and>
      (case q' of (mem, rq) \<Rightarrow> vruntime mem) = (case q of (mem, rq) \<Rightarrow> vruntime mem)"
    using runq_next_first by (fastforce split: prod.splits)
next
  fix q :: "task_mem \<times> runq" and xs
  assume "(case q of (mem, rq) \<Rightarrow> queued mem rq) xs"
  then show "sorted (map (case q of (mem, rq) \<Rightarrow> vruntime mem) xs)"
    by (auto simp: queued_def split: prod.splits)
qed

section \<open>All queues\<close>

text \<open>The queues of all processors hold disjoint sets of tasks.\<close>

definition queues :: "task_mem \<Rightarrow> runq list \<Rightarrow> u64 list list \<Rightarrow> bool" where
  "queues mem rqs qs \<longleftrightarrow>
     length qs = length rqs \<and> (\<forall>i < length rqs. queued mem (rqs ! i) (qs ! i)) \<and>
     (\<forall>i < length rqs. \<forall>j < length rqs. i \<noteq> j \<longrightarrow> set (qs ! i) \<inter> set (qs ! j) = {})"

lemma distinct_u64_length:
  assumes "distinct (xs :: u64 list)" "0 \<notin> set xs"
  shows "length xs < 2 ^ 64"
proof -
  have "unat ` set xs \<subseteq> {1 ..< 2 ^ 64}"
  proof
    fix n
    assume "n \<in> unat ` set xs"
    then obtain x where x: "x \<in> set xs" "n = unat x" by blast
    then have "x \<noteq> 0" using assms(2) by auto
    then show "n \<in> {1 ..< 2 ^ 64}" using x(2) unat_u64_lt [of x] by (simp add: Suc_leI unat_gt_0)
  qed
  then have "card (unat ` set xs) \<le> card {1 ..< 2 ^ 64 :: nat}" by (intro card_mono) auto
  moreover have "card (unat ` set xs) = length xs"
    using assms(1) by (metis card_image distinct_card inj_onI unsigned_word_eqI)
  ultimately show ?thesis by simp
qed

lemma queued_nonempty:
  assumes "queued mem rq xs"
  shows "num_threads rq > 0 \<longleftrightarrow> xs \<noteq> []"
proof -
  have "length xs < 2 ^ 64"
    using queued_first(2,3) [OF assms] by (intro distinct_u64_length) (auto simp: task_addr_def)
  then have "unat (of_nat (length xs) :: u64) = length xs" by (rule unat_of_nat_u64)
  then show ?thesis using assms by (simp add: queued_def word_less_nat_alt)
qed

lemma queues_move:
  assumes Q: "queues mem rqs qs" and ij: "i < length rqs" "j < length rqs" "i \<noteq> j"
    and x: "qs ! i = x # xs"
  shows "\<exists>mem1 other mem2 rq. tree_remove mem (rqs ! i) x = Some (mem1, other) \<and>
           tree_insert mem1 (rqs ! j) x = Some (mem2, rq) \<and>
           queues mem2 (rqs[i := other, j := rq]) (qs[i := xs, j := enqueue (vruntime mem) x (qs ! j)]) \<and>
           vruntime mem2 = vruntime mem"
proof -
  have qi: "queued mem (rqs ! i) (x # xs)" and qj: "queued mem (rqs ! j) (qs ! j)"
    using Q ij x by (auto simp: queues_def)
  have dis: "set (qs ! a) \<inter> set (qs ! b) = {}" if "a < length rqs" "b < length rqs" "a \<noteq> b" for a b
    using Q that by (simp add: queues_def)
  obtain mem1 other where r: "tree_remove mem (rqs ! i) x = Some (mem1, other)" "queued mem1 other xs"
    "vruntime mem1 = vruntime mem" "\<forall>a. a \<notin> set (x # xs) \<longrightarrow> rb_nodes mem1 a = rb_nodes mem a"
    using remove_head [OF qi] by (elim exE conjE) (rule that)
  have keep1: "queued mem1 (rqs ! k) (qs ! k)" if k: "k < length rqs" "k \<noteq> i" for k
  proof (rule queued_frame [of mem])
    show "queued mem (rqs ! k) (qs ! k)" using Q k(1) by (simp add: queues_def)
    have "set (qs ! k) \<inter> set (x # xs) = {}" using dis [of k i] k ij(1) x by simp
    then show "\<forall>a \<in> set (qs ! k). rb_nodes mem1 a = rb_nodes mem a \<and> vruntime mem1 a = vruntime mem a"
      using r(3,4) by (metis disjoint_iff)
  qed
  have tx: "task_addr x" using queued_first(3) [OF qi] by simp
  have xj: "x \<notin> set (qs ! j)" using dis [of i j] ij x by auto
  obtain mem2 rq where s: "tree_insert mem1 (rqs ! j) x = Some (mem2, rq)"
    "queued mem2 rq (enqueue (vruntime mem) x (qs ! j))" "vruntime mem2 = vruntime mem"
    "\<forall>a. a \<notin> insert x (set (qs ! j)) \<longrightarrow> rb_nodes mem2 a = rb_nodes mem1 a"
    using tree_insert_ok [OF keep1 [OF ij(2) ij(3) [symmetric]] tx xj] unfolding r(3)
    by (elim exE conjE) (rule that)
  have xxs: "x \<notin> set xs" using queued_first(2) [OF qi] by simp
  have other2: "queued mem2 other xs"
  proof (rule queued_frame [of mem1])
    have "insert x (set (qs ! j)) \<inter> set xs = {}" using dis [of i j] ij x xxs by auto
    then show "\<forall>a \<in> set xs. rb_nodes mem2 a = rb_nodes mem1 a \<and> vruntime mem2 a = vruntime mem1 a"
      using r(3) s(3,4) by (metis disjoint_iff)
  qed (rule r(2))
  have keep2: "queued mem2 (rqs ! k) (qs ! k)" if k: "k < length rqs" "k \<noteq> i" "k \<noteq> j" for k
  proof (rule queued_frame [of mem1])
    have "insert x (set (qs ! j)) \<inter> set (qs ! k) = {}"
      using dis [of k j] dis [of k i] k ij x by auto
    then show "\<forall>a \<in> set (qs ! k). rb_nodes mem2 a = rb_nodes mem1 a \<and> vruntime mem2 a = vruntime mem1 a"
      using r(3) s(3,4) by (metis disjoint_iff)
  qed (rule keep1 [OF k(1,2)])
  let ?qs = "qs[i := xs, j := enqueue (vruntime mem) x (qs ! j)]"
  have len: "length qs = length rqs" using Q by (simp add: queues_def)
  have "queued mem2 (rqs[i := other, j := rq] ! k) (?qs ! k)" if "k < length rqs" for k
    using that ij len other2 s(2) keep2 [of k] by (auto simp: nth_list_update)
  moreover have "set (?qs ! a) \<inter> set (?qs ! b) = {}" if "a < length rqs" "b < length rqs" "a \<noteq> b" for a b
    using that ij len x xxs dis [of a b] dis [of a i] dis [of b i] dis [of a j] dis [of b j] dis [of i j]
    by (auto simp: nth_list_update)
  ultimately have "queues mem2 (rqs[i := other, j := rq]) ?qs" using len by (auto simp: queues_def)
  then show ?thesis using r(1) s(1,3) by blast
qed

lemma mset_enqueue: "mset (enqueue key t xs) = add_mset t (mset xs)"
  unfolding enqueue_def by (simp, metis mset_append takeWhile_dropWhile_id)

lemma balance_from_ok:
  assumes Q: "queues mem rqs qs" and cpu: "this < length rqs" and k: "k < length rqs" "i \<le> k" "k \<noteq> this"
    and first: "\<forall>m. i \<le> m \<and> m < k \<and> m \<noteq> this \<longrightarrow> qs ! m = []" and x: "qs ! k = x # xs"
  shows "\<exists>mem' rqs'. balance_from mem rqs this i = Some (mem', rqs') \<and>
           queues mem' rqs' (qs[k := xs, this := enqueue (vruntime mem) x (qs ! this)]) \<and> vruntime mem' = vruntime mem"
  using k(2) first
proof (induction "k - i" arbitrary: i)
  case 0
  then have i: "i = k" by simp
  obtain mem1 other mem2 rq where m: "tree_remove mem (rqs ! k) x = Some (mem1, other)"
    "tree_insert mem1 (rqs ! this) x = Some (mem2, rq)"
    "queues mem2 (rqs[k := other, this := rq]) (qs[k := xs, this := enqueue (vruntime mem) x (qs ! this)])"
    "vruntime mem2 = vruntime mem"
    using queues_move [OF Q k(1) cpu k(3) x] by blast
  have qk: "queued mem (rqs ! k) (x # xs)" using Q k(1) x by (auto simp: queues_def)
  have "x \<noteq> 0" using queued_first(3) [OF qk] by (simp add: task_addr_def)
  then show ?case
    using m queued_nonempty [OF qk] queued_first(1) [OF qk] k(1,3) i
    by (simp add: balance_from.simps [of mem rqs this])
next
  case (Suc n)
  then have "i < k" by linarith
  then have "i = this \<or> \<not> num_threads (rqs ! i) > 0"
    using Suc.prems(2) Q k(1) queued_nonempty [of mem "rqs ! i" "qs ! i"] by (auto simp: queues_def)
  then have "balance_from mem rqs this i = balance_from mem rqs this (Suc i)"
    using \<open>i < k\<close> k(1) by (subst balance_from.simps) auto
  moreover have "n = k - Suc i" "Suc i \<le> k" using Suc.hyps(2) \<open>i < k\<close> by linarith+
  moreover have "\<forall>m. Suc i \<le> m \<and> m < k \<and> m \<noteq> this \<longrightarrow> qs ! m = []" using Suc.prems(2) by auto
  ultimately show ?case using Suc.hyps(1) [of "Suc i"] by (simp only:)
qed

lemma balance_from_idle:
  assumes Q: "queues mem rqs qs" and none: "\<forall>m < length rqs. m \<noteq> this \<longrightarrow> qs ! m = []"
  shows "balance_from mem rqs this i = Some (mem, rqs)"
proof (induction "length rqs - i" arbitrary: i)
  case 0
  then show ?case by (subst balance_from.simps) simp
next
  case (Suc n)
  then have i: "i < length rqs" by linarith
  then have "i = this \<or> \<not> num_threads (rqs ! i) > 0"
    using none Q queued_nonempty [of mem "rqs ! i" "qs ! i"] by (auto simp: queues_def)
  then show ?case using Suc i by (subst balance_from.simps) auto
qed

lemma mset_concat_update:
  assumes "k < length qs" "j < length qs" "k \<noteq> j" "qs ! k = x # xs" "mset ys = add_mset x (mset (qs ! j))"
  shows "mset (concat (qs[k := xs, j := ys])) = mset (concat qs)"
proof -
  have sum: "mset (concat zs) = (\<Sum>i<length zs. mset (zs ! i))" for zs :: "'a list list"
    by (simp add: mset_concat sum_list_sum_nth atLeast0LessThan)
  let ?zs = "qs[k := xs, j := ys]" and ?R = "{..<length qs} - {k} - {j}"
  have split: "(\<Sum>i<length qs. f i) = f k + (f j + (\<Sum>i\<in>?R. f i))" for f :: "nat \<Rightarrow> 'a multiset"
    using assms(1-3) by (simp add: sum.remove [of _ k] sum.remove [of _ j])
  have "(\<Sum>i\<in>?R. mset (?zs ! i)) = (\<Sum>i\<in>?R. mset (qs ! i))" by (rule sum.cong) auto
  then show ?thesis using assms by (simp add: sum split)
qed

section \<open>The properties\<close>

definition ex_mem :: task_mem where
  "ex_mem = \<lparr>rb_nodes = \<lambda>a. \<lparr>parent_color = 0, left_ptr = 0, right_ptr = 0\<rparr>,
             vruntime = (\<lambda>a. if a = 16 then 5 else if a = 32 then 3 else 0),
             task_st = (\<lambda>a. if a = 64 then TASK_S_NOT_STARTED else TASK_S_RUNNABLE)\<rparr>"

definition ex_rq :: runq where
  "ex_rq = \<lparr>rq_root = 0, rq_most_left = 0, num_threads = 0, idle = 128\<rparr>"

lemma ex_rq_empty: "queued ex_mem ex_rq []"
  unfolding queued_def
proof (intro conjI exI [of _ Lf])
  show "holds (rq_tree ex_mem ex_rq) Lf" by (simp add: focus_def rq_tree_def ex_rq_def)
  show "redblack Lf" by (auto simp: redblack_def)
  show "cached_first (rq_tree ex_mem ex_rq) Lf" by (simp add: cached_first_def rq_tree_def ex_rq_def)
qed (simp_all add: ex_rq_def)

lemma runq_add_cases:
  assumes Q: "queued mem rq xs" and t: "task_addr t" "t \<notin> set xs"
  defines "keys \<equiv> if task_st mem t = TASK_S_RUNNABLE then vruntime mem else (vruntime mem)(t := min_vruntime mem rq)"
  shows "\<exists>mem' rq'. runq_add mem rq t = Some (mem', rq') \<and> queued mem' rq' (enqueue keys t xs) \<and>
           vruntime mem' = keys \<and> task_st mem' = task_st mem \<and> idle rq' = idle rq \<and>
           (\<forall>a. a \<notin> insert t (set xs) \<longrightarrow> rb_nodes mem' a = rb_nodes mem a)"
proof -
  let ?mem = "mem\<lparr>vruntime := keys\<rparr>"
  have "\<forall>a \<in> set xs. keys a = vruntime mem a" using t(2) by (simp add: keys_def)
  then have "queued ?mem rq xs" using Q by (simp add: queued_frame [of mem])
  note I = tree_insert_ok [OF this t]
  have "runq_add mem rq t = tree_insert ?mem rq t"
    by (simp add: runq_add_def keys_def)
  then show ?thesis using I by simp
qed

text \<open>The queue of the examples: tasks 16 and 32 with virtual run times 5 and 3.\<close>

definition two_tasks :: "(task_mem \<times> runq) option" where
  "two_tasks = do { (mem, rq) \<leftarrow> runq_add ex_mem ex_rq 16; runq_add mem rq 32 }"

lemma two_tasks_queued:
  "\<exists>mem rq. two_tasks = Some (mem, rq) \<and> queued mem rq [32, 16] \<and> vruntime mem = vruntime ex_mem \<and>
     task_st mem = task_st ex_mem \<and> idle rq = 128"
proof -
  have a: "task_addr 16" "task_addr 32" by (simp_all add: task_addr_def aligned_def)
  obtain mem1 rq1 where 1: "runq_add ex_mem ex_rq 16 = Some (mem1, rq1)" "queued mem1 rq1 [16]"
    "vruntime mem1 = vruntime ex_mem" "task_st mem1 = task_st ex_mem" "idle rq1 = 128"
    using runq_add_cases [OF ex_rq_empty a(1)] by (auto simp: enqueue_def ex_mem_def ex_rq_def)
  obtain mem2 rq2 where 2: "runq_add mem1 rq1 32 = Some (mem2, rq2)" "queued mem2 rq2 [32, 16]"
    "vruntime mem2 = vruntime ex_mem" "task_st mem2 = task_st ex_mem" "idle rq2 = 128"
    using runq_add_cases [OF 1(2) a(2)] 1(3-5) by (auto simp: enqueue_def ex_mem_def)
  show ?thesis using 1(1) 2 by (simp add: two_tasks_def)
qed

text \<open>
  \<^verbatim>\<open>runq_add\<close> of a task that is not in the queue returns and puts it behind exactly those
  tasks whose virtual run time is not larger; a task that was not runnable first gets the
  smallest virtual run time of the queue.  The queue stays a red-black tree in key order with
  the cached first task and the thread count right, and no other task is touched.
\<close>

lemma runq_add_correct:
  assumes "queued mem rq xs" and "task_addr t" and "t \<notin> set xs"
  defines "keys \<equiv> if task_st mem t = TASK_S_RUNNABLE then vruntime mem else (vruntime mem)(t := min_vruntime mem rq)"
  shows "\<exists>mem' rq'. runq_add mem rq t = Some (mem', rq') \<and> queued mem' rq' (enqueue keys t xs) \<and>
           vruntime mem' = keys \<and> task_st mem' = task_st mem \<and> idle rq' = idle rq \<and>
           (\<forall>a. a \<notin> insert t (set xs) \<longrightarrow> rb_nodes mem' a = rb_nodes mem a)"
  unfolding keys_def by (rule runq_add_cases [OF assms(1-3)])

lemma runq_add_correct_example:
  "\<exists>mem rq mem' rq'. two_tasks = Some (mem, rq) \<and> runq_add mem rq 64 = Some (mem', rq') \<and>
     queued mem' rq' [32, 64, 16] \<and> vruntime mem' 64 = 3"
proof -
  obtain mem rq where q: "two_tasks = Some (mem, rq)" "queued mem rq [32, 16]"
    "vruntime mem = vruntime ex_mem" "task_st mem = task_st ex_mem"
    using two_tasks_queued by blast
  have a: "task_addr 64" by (simp add: task_addr_def aligned_def)
  have m: "min_vruntime mem rq = 3"
    using queued_first(1) [OF q(2)] q(3)
    by (simp add: min_vruntime_def rb_first_cached_def rq_tree_def ex_mem_def)
  have "\<exists>mem' rq'. runq_add mem rq 64 = Some (mem', rq') \<and> queued mem' rq' [32, 64, 16] \<and> vruntime mem' 64 = 3"
    using runq_add_correct [OF q(2) a] q(3,4) m by (auto simp: enqueue_def ex_mem_def)
  then show ?thesis using q(1) by blast
qed

text \<open>
  \<^verbatim>\<open>runq_next\<close> returns the first task of a queue that has one: no queued task has a smaller
  virtual run time, and exactly that task leaves the queue.  On an empty queue it returns the
  idle task and changes nothing.
\<close>

lemma runq_next_correct:
  assumes "queued mem rq xs"
  shows "case xs of
           [] \<Rightarrow> runq_next mem rq = Some (idle rq, mem, rq)
         | x # rest \<Rightarrow> \<exists>mem' rq'. runq_next mem rq = Some (x, mem', rq') \<and> queued mem' rq' rest \<and>
             (\<forall>y \<in> set xs. vruntime mem x \<le> vruntime mem y) \<and>
             vruntime mem' = vruntime mem \<and> task_st mem' = task_st mem \<and> idle rq' = idle rq"
proof (cases xs)
  case Nil
  then show ?thesis using queued_first(1) [OF assms] by (simp add: runq_next_def)
next
  case (Cons x rest)
  have "\<forall>y \<in> set xs. vruntime mem x \<le> vruntime mem y" using assms Cons by (auto simp: queued_def)
  then show ?thesis using runq_next_first [of mem rq x rest] assms Cons by auto
qed

lemma runq_next_correct_example:
  "\<exists>mem rq mem' rq'. two_tasks = Some (mem, rq) \<and> runq_next mem rq = Some (32, mem', rq') \<and> queued mem' rq' [16]"
proof -
  obtain mem rq where q: "two_tasks = Some (mem, rq)" "queued mem rq [32, 16]"
    using two_tasks_queued by blast
  show ?thesis unfolding q(1) using runq_next_correct [OF q(2)] by auto
qed

text \<open>
  \<^verbatim>\<open>runq_remove\<close> of a queued task returns and takes out exactly that task; the others keep
  their order.
\<close>

lemma runq_remove_correct:
  assumes "queued mem rq xs" and "t \<in> set xs"
  shows "\<exists>mem' rq'. runq_remove mem rq t = Some (mem', rq') \<and> queued mem' rq' (remove1 t xs) \<and>
           vruntime mem' = vruntime mem \<and> task_st mem' = task_st mem \<and> idle rq' = idle rq \<and>
           (\<forall>a. a \<notin> set xs \<longrightarrow> rb_nodes mem' a = rb_nodes mem a)"
  unfolding runq_remove_def by (rule tree_remove_ok [OF assms])

lemma runq_remove_correct_example:
  "\<exists>mem rq mem' rq'. two_tasks = Some (mem, rq) \<and> runq_remove mem rq 16 = Some (mem', rq') \<and> queued mem' rq' [32]"
proof -
  obtain mem rq where q: "two_tasks = Some (mem, rq)" "queued mem rq [32, 16]"
    using two_tasks_queued by blast
  show ?thesis unfolding q(1) using runq_remove_correct [OF q(2), of 16] by auto
qed

text \<open>
  C14. Picking repeatedly empties the queue in order: as many calls of \<^verbatim>\<open>runq_next\<close> as there are
  queued tasks all return, hand out every queued task once, in the order of their virtual run
  times, and leave the queue empty.
\<close>

theorem runq_drains_in_order:
  assumes "queued mem rq xs"
  shows "\<exists>mem' rq'. drain (\<lambda>(mem, rq). runq_next mem rq) (length xs) (mem, rq) = Some (xs, mem', rq') \<and>
           queued mem' rq' [] \<and> sorted (map (vruntime mem) xs) \<and> distinct xs"
  using rqs.drain_all [of "(mem, rq)" xs] rqs.in_order [of "(mem, rq)" xs] queued_first(2) [OF assms] assms
  by (auto split: prod.splits)

theorem runq_drains_in_order_witness:
  "\<exists>mem rq mem' rq'. two_tasks = Some (mem, rq) \<and>
     drain (\<lambda>(mem, rq). runq_next mem rq) 2 (mem, rq) = Some ([32, 16], mem', rq') \<and> queued mem' rq' []"
proof -
  obtain mem rq where q: "two_tasks = Some (mem, rq)" "queued mem rq [32, 16]"
    using two_tasks_queued by blast
  show ?thesis unfolding q(1) using runq_drains_in_order [OF q(2)] by (auto simp: numeral_2_eq_2)
qed

text \<open>
  C11. \<^verbatim>\<open>runq_balance_pull\<close> returns.  If another processor has queued tasks, the first task of the
  first such processor moves to the place its virtual run time gives it in the queue of this
  processor and nothing else changes queue; otherwise nothing changes.  No task is lost or
  duplicated.
\<close>

theorem runq_balance_pull_correct:
  assumes "queues mem rqs qs" and "this < length rqs"
  shows "\<exists>mem' rqs' qs'. runq_balance_pull mem rqs this = Some (mem', rqs') \<and> queues mem' rqs' qs' \<and>
           mset (concat qs') = mset (concat qs) \<and> vruntime mem' = vruntime mem \<and>
           (if \<forall>m < length rqs. m \<noteq> this \<longrightarrow> qs ! m = [] then mem' = mem \<and> rqs' = rqs \<and> qs' = qs
            else \<exists>k x xs. k < length rqs \<and> k \<noteq> this \<and> qs ! k = x # xs \<and>
              (\<forall>m < k. m \<noteq> this \<longrightarrow> qs ! m = []) \<and>
              qs' = qs[k := xs, this := enqueue (vruntime mem) x (qs ! this)])"
proof (cases "\<forall>m < length rqs. m \<noteq> this \<longrightarrow> qs ! m = []")
  case True
  then show ?thesis using balance_from_idle [OF assms(1) True] assms(1) by (simp add: runq_balance_pull_def)
next
  case False
  define k where "k = (LEAST m. m < length rqs \<and> m \<noteq> this \<and> qs ! m \<noteq> [])"
  have k: "k < length rqs" "k \<noteq> this" "qs ! k \<noteq> []"
    using LeastI_ex [of "\<lambda>m. m < length rqs \<and> m \<noteq> this \<and> qs ! m \<noteq> []"] False by (auto simp: k_def)
  have first: "qs ! m = []" if "m < k" "m \<noteq> this" for m
    using not_less_Least [of m "\<lambda>m. m < length rqs \<and> m \<noteq> this \<and> qs ! m \<noteq> []"] that k(1) by (auto simp: k_def)
  obtain x xs where x: "qs ! k = x # xs" using k(3) by (cases "qs ! k") auto
  have len: "length qs = length rqs" using assms(1) by (simp add: queues_def)
  obtain mem' rqs' where b: "balance_from mem rqs this 0 = Some (mem', rqs')"
    "queues mem' rqs' (qs[k := xs, this := enqueue (vruntime mem) x (qs ! this)])" "vruntime mem' = vruntime mem"
    using balance_from_ok [OF assms k(1) _ k(2) _ x, of 0] first by auto
  have "mset (concat (qs[k := xs, this := enqueue (vruntime mem) x (qs ! this)])) = mset (concat qs)"
    using k(1,2) assms(2) len x by (intro mset_concat_update [of k _ this x]) (auto simp: mset_enqueue)
  then show ?thesis
    unfolding if_not_P [OF False] runq_balance_pull_def using b k(1,2) x first by blast
qed

theorem runq_balance_pull_correct_witness:
  "\<exists>mem rq mem' rqs'. two_tasks = Some (mem, rq) \<and> runq_balance_pull mem [rq, ex_rq] 1 = Some (mem', rqs') \<and>
     queues mem' rqs' [[16], [32]]"
proof -
  obtain mem rq where q: "two_tasks = Some (mem, rq)" "queued mem rq [32, 16]"
    using two_tasks_queued by blast
  have "queued mem ex_rq []" by (rule queued_frame [OF ex_rq_empty]) simp
  then have Q: "queues mem [rq, ex_rq] [[32, 16], []]" using q(2) by (auto simp: queues_def less_Suc_eq nth_Cons')
  have len: "(1::nat) < length [rq, ex_rq]" by simp
  have "\<exists>mem' rqs'. runq_balance_pull mem [rq, ex_rq] 1 = Some (mem', rqs') \<and> queues mem' rqs' [[16], [32]]"
    using runq_balance_pull_correct [OF Q len] by (auto simp: less_Suc_eq enqueue_def split: if_splits)
  then show ?thesis using q(1) by blast
qed

end
