(* ===== verification/Slob.thy ===== *)
theory Slob
  imports Pmm_Correct "HOL-Library.Monad_Syntax"
begin

text \<open>
  The kernel heap of \<^verbatim>\<open>kernel/mm/slob.c\<close>: a first-fit list of blocks inside pages of the page
  allocator.  Memory is a map from 8-byte aligned addresses to 64-bit words; a
  \<^verbatim>\<open>struct slob_header\<close> at \<open>h\<close> is the pair of words at \<open>h\<close> (the next header) and \<open>h + 8\<close> (the
  size in units).  Walking the list is a partial function, since a corrupted list can be
  cyclic; the result of an allocation is \<open>None\<close> when the walk does not end.
\<close>

section \<open>State\<close>

record slob =
  heap_words :: "u64 \<Rightarrow> u64"
  slob_head :: u64
  slob_pmm :: pmm

definition UNIT :: u64 where "UNIT = 16"
definition BIGALLOC :: u64 where "BIGALLOC = PAGE_SIZE - UNIT"

definition blk_next :: "slob \<Rightarrow> u64 \<Rightarrow> u64" where
  "blk_next s b = heap_words s b"

definition blk_units :: "slob \<Rightarrow> u64 \<Rightarrow> u64" where
  "blk_units s b = heap_words s (b + 8)"

definition set_blk_next :: "slob \<Rightarrow> u64 \<Rightarrow> u64 \<Rightarrow> slob" where
  "set_blk_next s b v = s\<lparr>heap_words := (heap_words s)(b := v)\<rparr>"

definition set_blk_units :: "slob \<Rightarrow> u64 \<Rightarrow> u64 \<Rightarrow> slob" where
  "set_blk_units s b v = s\<lparr>heap_words := (heap_words s)(b + 8 := v)\<rparr>"

text \<open>\<^verbatim>\<open>memset(p, 0xBB, n)\<close> at an 8-byte aligned \<open>p\<close>; the last word may be filled in part.\<close>

definition poison :: "slob \<Rightarrow> u64 \<Rightarrow> u64 \<Rightarrow> slob" where
  "poison s p n = s\<lparr>heap_words := (\<lambda>a.
     if a - p < n then
       (let m = mask (8 * unat (n - (a - p)))
        in (heap_words s a AND NOT m) OR (0xBBBBBBBBBBBBBBBB AND m))
     else heap_words s a)\<rparr>"

section \<open>Operations\<close>

definition morecore :: "slob \<Rightarrow> slob outcome" where
  "morecore s =
     obind (pmm_alloc_order (slob_pmm s) 0 0) (\<lambda>(pg, pmm').
       let hd = page_to_virt pg in
       if hd = 0 then Inl Null_access
       else let s1 = set_blk_units (s\<lparr>slob_pmm := pmm'\<rparr>) hd ((PAGE_SIZE - UNIT) div UNIT);
                s2 = set_blk_next s1 hd (slob_head s1)
            in Inr (s2\<lparr>slob_head := hd\<rparr>))"

text \<open>The walk over the list, with the previous block (0 for none).\<close>

datatype found = Exact u64 u64 | Larger u64 u64 | Not_found

partial_function (option) slob_search :: "slob \<Rightarrow> u64 \<Rightarrow> u64 \<Rightarrow> u64 \<Rightarrow> found option" where
  "slob_search s units prev block =
     (if block = 0 then Some Not_found
      else if blk_units s block = units then Some (Exact prev block)
      else if blk_units s block > units then Some (Larger prev block)
      else slob_search s units block (blk_next s block))"

definition take_exact :: "slob \<Rightarrow> u64 \<Rightarrow> u64 \<Rightarrow> slob" where
  "take_exact s prev block =
     (if prev = 0 then s\<lparr>slob_head := block\<rparr>
      else set_blk_next s prev (blk_next s block))"

definition take_larger :: "slob \<Rightarrow> u64 \<Rightarrow> u64 \<Rightarrow> u64 \<Rightarrow> slob" where
  "take_larger s units prev block =
     (let new_block = block + (units + 1) * UNIT;
          s1 = set_blk_units s new_block (blk_units s block - units - 1);
          s2 = set_blk_units s1 block units;
          s3 = set_blk_next s2 new_block (blk_next s2 block)
      in if prev = 0 then s3\<lparr>slob_head := new_block\<rparr> else set_blk_next s3 prev new_block)"

partial_function (option) slob_alloc_loop :: "slob \<Rightarrow> u64 \<Rightarrow> (u64 \<times> slob) outcome option" where
  "slob_alloc_loop s units = do {
     r \<leftarrow> slob_search s units 0 (slob_head s);
     (case r of
        Exact prev block \<Rightarrow> Some (Inr (block + UNIT, take_exact s prev block))
      | Larger prev block \<Rightarrow> Some (Inr (block + UNIT, take_larger s units prev block))
      | Not_found \<Rightarrow>
         (case morecore s of
            Inl e \<Rightarrow> Some (Inl e)
          | Inr s' \<Rightarrow> slob_alloc_loop s' units)) }"

definition slob_alloc :: "slob \<Rightarrow> u64 \<Rightarrow> (u64 \<times> slob) outcome option" where
  "slob_alloc s bytes =
     (if bytes < BIGALLOC then slob_alloc_loop s (DIV_ROUND_UP bytes UNIT) else Some (Inl Panic))"

definition slob_free :: "slob \<Rightarrow> u64 \<Rightarrow> slob outcome" where
  "slob_free s p =
     (if ISALIGN_POW2 p PAGE_SIZE then Inl Panic
      else let header = p - UNIT;
               s1 = (set_blk_next s header (slob_head s))\<lparr>slob_head := header\<rparr>
           in Inr (poison s1 p (blk_units s1 header * UNIT)))"

definition kmalloc :: "slob \<Rightarrow> u64 \<Rightarrow> (u64 \<times> slob) outcome option" where
  "kmalloc s n = do {
     r \<leftarrow> slob_alloc s n;
     Some (obind r (\<lambda>(p, s'). Inr (p, poison s' p n))) }"

definition kfree :: "slob \<Rightarrow> u64 \<Rightarrow> slob outcome" where
  "kfree s p = slob_free s p"

section \<open>Blocks\<close>

abbreviation units_of :: "slob \<Rightarrow> u64 \<Rightarrow> nat" where
  "units_of s h \<equiv> unat (blk_units s h)"

text \<open>The bytes of a block, header included.\<close>

definition blk :: "slob \<Rightarrow> u64 \<Rightarrow> nat set" where
  "blk s h = {unat h ..< unat h + 16 * (units_of s h + 1)}"

fun chain :: "(u64 \<Rightarrow> u64) \<Rightarrow> u64 \<Rightarrow> u64 list \<Rightarrow> bool" where
  "chain w p [] \<longleftrightarrow> p = 0"
| "chain w p (x # xs) \<longleftrightarrow> p = x \<and> x \<noteq> 0 \<and> chain w (w x) xs"

lemma chain_frame: "\<forall>x \<in> set xs. w' x = w x \<Longrightarrow> chain w' p xs = chain w p xs"
  by (induction xs arbitrary: p) auto

lemma chain_nonzero: "chain w p xs \<Longrightarrow> 0 \<notin> set xs"
  by (induction xs arbitrary: p) auto

lemma chain_append:
  "chain w p (xs @ y # ys) \<Longrightarrow> chain w y (y # ys) \<and> y \<noteq> 0 \<and> chain w (w y) ys"
  by (induction xs arbitrary: p) auto

definition prev_of :: "u64 list \<Rightarrow> u64" where
  "prev_of xs = (if xs = [] then 0 else last xs)"

text \<open>Redirecting the predecessor of a suffix.\<close>

lemma chain_redirect:
  assumes "chain w p (xs @ ys)" "distinct xs" "xs \<noteq> []" "chain w q zs" "set xs \<inter> set zs = {}"
  shows "chain (w(last xs := q)) p (xs @ zs)"
  using assms
proof (induction xs arbitrary: p)
  case (Cons x xs)
  show ?case
  proof (cases "xs = []")
    case True
    moreover have "chain (w(x := q)) q zs" using Cons.prems(4,5) by (subst chain_frame [of _ _ w]) auto
    ultimately show ?thesis using Cons.prems(1) by (simp add: fun_upd_def)
  next
    case False
    then have "last xs \<in> set xs" by simp
    then have "last xs \<noteq> x" using Cons.prems(2) by auto
    then show ?thesis using Cons.IH [of "w x"] Cons.prems False by auto
  qed
qed simp

definition block_ok :: "block set \<Rightarrow> slob \<Rightarrow> u64 \<Rightarrow> bool" where
  "block_ok B s h \<longleftrightarrow>
     16 dvd unat h \<and> unat h mod 4096 + 16 * (units_of s h + 1) \<le> 4096 \<and>
     unat KERNEL_LOGICAL_BASE \<le> unat h \<and> ((unat h - unat KERNEL_LOGICAL_BASE) div 4096, 0) \<in> B"

text \<open>
  \<open>slob_inv s fs A B\<close>: the list runs through the free blocks \<open>fs\<close>; the free and the allocated
  blocks \<open>A\<close> are disjoint and each lies in one page; these pages are among the blocks \<open>B\<close> the
  page allocator has handed out.
\<close>

definition slob_inv :: "slob \<Rightarrow> u64 list \<Rightarrow> u64 set \<Rightarrow> block set \<Rightarrow> bool" where
  "slob_inv s fs A B \<longleftrightarrow>
     chain (heap_words s) (slob_head s) fs \<and> distinct fs \<and> set fs \<inter> A = {} \<and>
     (\<forall>h \<in> set fs \<union> A. block_ok B s h) \<and>
     (\<forall>h \<in> set fs \<union> A. \<forall>k \<in> set fs \<union> A. h \<noteq> k \<longrightarrow> blk s h \<inter> blk s k = {}) \<and>
     pmm_inv (slob_pmm s) B \<and> all_pages (zone_list (slob_pmm s)) \<subseteq> {1 ..< 2 ^ 35}"

lemma slob_invD:
  assumes "slob_inv s fs A B"
  shows "chain (heap_words s) (slob_head s) fs" "distinct fs" "set fs \<inter> A = {}"
    "h \<in> set fs \<union> A \<Longrightarrow> block_ok B s h"
    "h \<in> set fs \<union> A \<Longrightarrow> k \<in> set fs \<union> A \<Longrightarrow> h \<noteq> k \<Longrightarrow> blk s h \<inter> blk s k = {}"
    "pmm_inv (slob_pmm s) B" "all_pages (zone_list (slob_pmm s)) \<subseteq> {1 ..< 2 ^ 35}"
  using assms unfolding slob_inv_def by (elim conjE; simp)+

lemma slob_invI:
  assumes "chain (heap_words s) (slob_head s) fs" "distinct fs" "set fs \<inter> A = {}"
    "\<And>h. h \<in> set fs \<union> A \<Longrightarrow> block_ok B s h"
    "\<And>h k. h \<in> set fs \<union> A \<Longrightarrow> k \<in> set fs \<union> A \<Longrightarrow> h \<noteq> k \<Longrightarrow> blk s h \<inter> blk s k = {}"
    "pmm_inv (slob_pmm s) B" "all_pages (zone_list (slob_pmm s)) \<subseteq> {1 ..< 2 ^ 35}"
  shows "slob_inv s fs A B"
  using assms unfolding slob_inv_def by (intro conjI ballI impI)

section \<open>The parts of an allocation\<close>

lemma slob_search_ok:
  assumes "chain (heap_words s) p fs"
  shows "(\<exists>as b cs. fs = as @ b # cs \<and> (\<forall>a \<in> set as. blk_units s a < u) \<and>
            (blk_units s b = u \<and> slob_search s u q p = Some (Exact (if as = [] then q else last as) b) \<or>
             u < blk_units s b \<and> slob_search s u q p = Some (Larger (if as = [] then q else last as) b))) \<or>
         (\<forall>a \<in> set fs. blk_units s a < u) \<and> slob_search s u q p = Some Not_found"
  using assms
proof (induction fs arbitrary: p q)
  case Nil
  then show ?case by (simp add: slob_search.simps)
next
  case (Cons x fs)
  then have x: "p = x" "x \<noteq> 0" "chain (heap_words s) (heap_words s x) fs" by auto
  note step = slob_search.simps [of s u q p]
  consider "blk_units s x = u" | "u < blk_units s x" | "blk_units s x < u" by fastforce
  then show ?case
  proof cases
    case 1
    then show ?thesis using x step by (intro disjI1 exI [of _ "[]"]) auto
  next
    case 2
    then show ?thesis using x step by (intro disjI1 exI [of _ "[]"]) auto
  next
    case 3
    then have s: "slob_search s u q p = slob_search s u x (heap_words s x)"
      using x step by (auto simp: blk_next_def)
    from Cons.IH [OF x(3), of x] show ?thesis
    proof (elim disjE exE conjE)
      fix as b cs
      assume "fs = as @ b # cs" "\<forall>a \<in> set as. blk_units s a < u" "blk_units s b = u"
        "slob_search s u x (heap_words s x) = Some (Exact (if as = [] then x else last as) b)"
      then show ?thesis using s 3 by (intro disjI1 exI [of _ "x # as"] exI [of _ b] exI [of _ cs]) auto
    next
      fix as b cs
      assume "fs = as @ b # cs" "\<forall>a \<in> set as. blk_units s a < u" "u < blk_units s b"
        "slob_search s u x (heap_words s x) = Some (Larger (if as = [] then x else last as) b)"
      then show ?thesis using s 3 by (intro disjI1 exI [of _ "x # as"] exI [of _ b] exI [of _ cs]) auto
    next
      assume "\<forall>a \<in> set fs. blk_units s a < u" "slob_search s u x (heap_words s x) = Some Not_found"
      then show ?thesis using s 3 by simp
    qed
  qed
qed

text \<open>Addresses inside a block do not wrap around.\<close>

lemma block_offset:
  assumes "block_ok B s h" "unat x < 16 * (units_of s h + 1)"
  shows "unat (h + x) = unat h + unat x" "unat h + 16 * (units_of s h + 1) \<le> 2 ^ 64"
proof -
  have m: "unat h mod 4096 + 16 * (units_of s h + 1) \<le> 4096" using assms(1) by (simp add: block_ok_def)
  have lt: "unat h < 2 ^ 64" using unat_u64_lt [of h] by simp
  have "unat h = 4096 * (unat h div 4096) + unat h mod 4096" by simp
  moreover have "unat h div 4096 < 2 ^ 52" using lt by (simp add: less_mult_imp_div_less)
  then have "4096 * (unat h div 4096) + 4096 \<le> 2 ^ 64" by simp
  ultimately show le: "unat h + 16 * (units_of s h + 1) \<le> 2 ^ 64" using m by linarith
  then show "unat (h + x) = unat h + unat x" using assms(2) by (intro unat_add_u64) linarith
qed

lemma blk_head: "unat h \<in> blk s h"
  by (simp add: blk_def)

lemma blk_second:
  assumes "block_ok B s h"
  shows "unat (h + 8) = unat h + 8" "unat (h + 8) \<in> blk s h"
proof -
  show "unat (h + 8) = unat h + 8" using block_offset(1) [OF assms, of 8] by simp
  then show "unat (h + 8) \<in> blk s h" by (simp add: blk_def)
qed

text \<open>The blocks that a change of memory leaves alone.\<close>

lemma kept_units:
  assumes "block_ok B s h" "\<forall>a. unat a \<in> blk s h \<longrightarrow> heap_words s' a = heap_words s a"
  shows "blk_units s' h = blk_units s h" "blk s' h = blk s h" "block_ok B s' h"
proof -
  show u: "blk_units s' h = blk_units s h" using assms blk_second(2) [OF assms(1)] by (simp add: blk_units_def)
  then show "blk s' h = blk s h" "block_ok B s' h" using assms(1) by (simp_all add: blk_def block_ok_def)
qed

lemma header_apart:
  assumes "blk s h \<inter> blk s k = {}" "block_ok B s h" "block_ok B s k"
  shows "unat h \<notin> blk s k" "unat (h + 8) \<notin> blk s k" "h \<noteq> k" "h + 8 \<noteq> k" "h \<noteq> k + 8"
  using assms(1) blk_head [of h s] blk_head [of k s] blk_second(2) [OF assms(2)] blk_second(2) [OF assms(3)]
  by auto

text \<open>Splitting a block: the numbers.\<close>

lemma split_numbers:
  assumes ok: "block_ok B s b" and u: "u < blk_units s b"
  defines "nb \<equiv> b + (u + 1) * UNIT"
  shows "unat nb = unat b + 16 * (unat u + 1)" "unat (blk_units s b - u - 1) = units_of s b - unat u - 1"
    "unat nb mod 4096 = unat b mod 4096 + 16 * (unat u + 1)"
    "(unat nb - unat KERNEL_LOGICAL_BASE) div 4096 = (unat b - unat KERNEL_LOGICAL_BASE) div 4096"
proof -
  have lt: "unat u < units_of s b" using u by (simp add: word_less_nat_alt)
  have m: "unat b mod 4096 + 16 * (units_of s b + 1) \<le> 4096" and base: "unat KERNEL_LOGICAL_BASE \<le> unat b"
    using ok by (simp_all add: block_ok_def)
  have u1: "unat (u + 1) = unat u + 1" using m lt by (simp add: unat_add_u64)
  then have off: "unat ((u + 1) * UNIT) = 16 * (unat u + 1)" 
    using m lt unat_mult_u64 [of "u + 1" UNIT] by (simp add: UNIT_def del: distrib_right_numeral)
  show nb: "unat nb = unat b + 16 * (unat u + 1)"
    unfolding nb_def using block_offset(1) [OF ok, of "(u + 1) * UNIT"] off lt by simp
  show "unat (blk_units s b - u - 1) = units_of s b - unat u - 1"
    using lt by (simp add: nowrap word_le_nat_alt unat_sub_u64)
  have small: "unat b mod 4096 + 16 * (unat u + 1) < 4096" using m lt by simp
  then show "unat nb mod 4096 = unat b mod 4096 + 16 * (unat u + 1)" unfolding nb by (rule add_within)
  have K: "unat KERNEL_LOGICAL_BASE = 4096 * 0xFFFF800000000" by (simp add: KERNEL_LOGICAL_BASE_def)
  show "(unat nb - unat KERNEL_LOGICAL_BASE) div 4096 = (unat b - unat KERNEL_LOGICAL_BASE) div 4096"
    unfolding K sub_multiple_div nb add_within(2) [OF small] ..
qed

text \<open>A memory whose only changed words lie in block \<open>b\<close> or are the link of block \<open>p\<close>.\<close>

lemma others_kept:
  fixes s s' :: slob
  assumes inv: "slob_inv s fs A B" and b: "b \<in> set fs" and p: "p = 0 \<or> p \<in> set fs"
    and w: "\<forall>a. unat a \<notin> blk s b \<and> a \<noteq> p \<longrightarrow> heap_words s' a = heap_words s a"
    and h: "h \<in> set fs \<union> A" "h \<noteq> b"
  shows "blk_units s' h = blk_units s h" "blk s' h = blk s h" "block_ok B s' h"
    "h \<noteq> p \<Longrightarrow> \<forall>a. unat a \<in> blk s h \<longrightarrow> heap_words s' a = heap_words s a"
proof -
  have ok: "block_ok B s h" by (rule slob_invD(4) [OF inv h(1)])
  have hb: "blk s h \<inter> blk s b = {}" using slob_invD(5) [OF inv h(1), of b] b h(2) by simp
  have keep: "heap_words s' a = heap_words s a" if "h \<noteq> p" "unat a \<in> blk s h" for a
  proof -
    have "a \<noteq> p"
    proof (cases "p = 0")
      case True
      have "0 < unat h" using ok by (simp add: block_ok_def KERNEL_LOGICAL_BASE_def)
      then show ?thesis using that True by (auto simp: blk_def)
    next
      case False
      then have "blk s h \<inter> blk s p = {}" using slob_invD(5) [OF inv h(1), of p] p that(1) by simp
      then show ?thesis using blk_head [of p s] that(2) by auto
    qed
    then show ?thesis using w hb that(2) by blast
  qed
  show u: "blk_units s' h = blk_units s h"
  proof (cases "h = p")
    case True
    have "unat (h + 8) \<notin> blk s b" using hb blk_second(2) [OF ok] by blast
    moreover have "h + 8 \<noteq> p" using True by simp
    ultimately show ?thesis using w by (simp add: blk_units_def)
  next
    case False
    then show ?thesis using keep blk_second(2) [OF ok] by (auto simp: blk_units_def)
  qed
  then show "blk s' h = blk s h" "block_ok B s' h" using ok by (simp_all add: blk_def block_ok_def)
  show "h \<noteq> p \<Longrightarrow> \<forall>a. unat a \<in> blk s h \<longrightarrow> heap_words s' a = heap_words s a" using keep by blast
qed

lemma prev_of_member:
  assumes inv: "slob_inv s (as @ b # cs) A B"
  shows "prev_of as = 0 \<or> prev_of as \<in> set (as @ b # cs)" "prev_of as = 0 \<longleftrightarrow> as = []"
    "unat (prev_of as) \<notin> blk s b" "prev_of as \<noteq> b" "prev_of as \<notin> A"
proof -
  have nz: "0 \<notin> set (as @ b # cs)" by (rule chain_nonzero [OF slob_invD(1) [OF inv]])
  have ok: "block_ok B s b" using slob_invD(4) [OF inv] by simp
  have zero: "0 \<notin> A" "0 \<notin> blk s b"
    using slob_invD(4) [OF inv, of 0] ok by (auto simp: block_ok_def KERNEL_LOGICAL_BASE_def blk_def)
  show "prev_of as = 0 \<or> prev_of as \<in> set (as @ b # cs)" by (simp add: prev_of_def)
  show "prev_of as = 0 \<longleftrightarrow> as = []" using nz by (cases as rule: rev_cases) (auto simp: prev_of_def)
  have d: "distinct (as @ b # cs)" by (rule slob_invD(2) [OF inv])
  show ne: "prev_of as \<noteq> b" using d nz by (cases as rule: rev_cases) (auto simp: prev_of_def)
  show "unat (prev_of as) \<notin> blk s b"
  proof (cases "as = []")
    case False
    then have "prev_of as \<in> set as" by (simp add: prev_of_def)
    then have "blk s (prev_of as) \<inter> blk s b = {}" using slob_invD(5) [OF inv, of "prev_of as" b] ne by simp
    then show ?thesis using blk_head [of "prev_of as" s] by blast
  qed (use zero in \<open>simp add: prev_of_def\<close>)
  show "prev_of as \<notin> A"
    using slob_invD(3) [OF inv] zero by (cases as rule: rev_cases) (auto simp: prev_of_def)
qed

lemma allocated_kept:
  fixes s s' :: slob
  assumes inv: "slob_inv s (as @ b # cs) A B"
    and w: "\<forall>a. unat a \<notin> blk s b \<and> a \<noteq> prev_of as \<longrightarrow> heap_words s' a = heap_words s a"
  shows "\<forall>a. unat a \<in> (\<Union>h \<in> A. blk s h) \<longrightarrow> heap_words s' a = heap_words s a"
proof (intro allI impI)
  fix a :: u64
  assume "unat a \<in> (\<Union>h \<in> A. blk s h)"
  then obtain h where h: "h \<in> A" "unat a \<in> blk s h" by blast
  then have "h \<noteq> b" "h \<noteq> prev_of as" using slob_invD(3) [OF inv] prev_of_member(5) [OF inv] by auto
  then show "heap_words s' a = heap_words s a"
    using others_kept(4) [OF inv _ prev_of_member(1) [OF inv] w, of h] h by simp
qed

lemma take_exact_ok:
  assumes inv: "slob_inv s (as @ b # cs) A B" and ne: "as \<noteq> []"
  defines "s' \<equiv> take_exact s (prev_of as) b"
  shows "slob_inv s' (as @ cs) (insert b A) B" "blk_units s' b = blk_units s b"
    "\<forall>a. unat a \<in> (\<Union>h \<in> A. blk s h) \<longrightarrow> heap_words s' a = heap_words s a" "slob_pmm s' = slob_pmm s"
proof -
  let ?fs = "as @ b # cs" and ?p = "prev_of as"
  note i = slob_invD [OF inv] and p = prev_of_member [OF inv]
  have s': "heap_words s' = (heap_words s)(?p := heap_words s b)" "slob_head s' = slob_head s" "slob_pmm s' = slob_pmm s"
    using p(2) ne by (simp_all add: s'_def take_exact_def set_blk_next_def blk_next_def)
  have w: "\<forall>a. unat a \<notin> blk s b \<and> a \<noteq> ?p \<longrightarrow> heap_words s' a = heap_words s a" by (simp add: s'(1))
  note k = others_kept [OF inv _ p(1) w]
  have bu: "blk_units s' b = blk_units s b"
    using p(3) blk_second(2) [OF i(4), of b] s'(1) by (auto simp: blk_units_def)
  then have same: "blk s' h = blk s h \<and> block_ok B s' h" if "h \<in> set ?fs \<union> A" for h
    using k [of h] i(4) [OF that] that by (cases "h = b") (auto simp: blk_def block_ok_def)
  have "chain (heap_words s') (slob_head s') (as @ cs)"
    unfolding s' using chain_redirect [OF i(1) _ ne, of "heap_words s b" cs] chain_append [OF i(1)] i(2) ne
    by (auto simp: prev_of_def)
  moreover have "distinct (as @ cs)" "set (as @ cs) \<inter> insert b A = {}" using i(2,3) by auto
  ultimately show "slob_inv s' (as @ cs) (insert b A) B"
    unfolding slob_inv_def s'(3) using same i(5-7) by simp
  show "blk_units s' b = blk_units s b" by (rule bu)
  show "\<forall>a. unat a \<in> (\<Union>h \<in> A. blk s h) \<longrightarrow> heap_words s' a = heap_words s a"
    by (rule allocated_kept [OF inv w])
  show "slob_pmm s' = slob_pmm s" by (rule s'(3))
qed

lemma take_larger_ok:
  assumes inv: "slob_inv s (as @ b # cs) A B" and u: "u < blk_units s b"
  defines "s' \<equiv> take_larger s u (prev_of as) b" and "nb \<equiv> b + (u + 1) * UNIT"
  shows "slob_inv s' (as @ nb # cs) (insert b A) B" "blk_units s' b = u"
    "\<forall>a. unat a \<in> (\<Union>h \<in> A. blk s h) \<longrightarrow> heap_words s' a = heap_words s a" "slob_pmm s' = slob_pmm s"
proof -
  let ?fs = "as @ b # cs" and ?p = "prev_of as" and ?w = "heap_words s"
  note i = slob_invD [OF inv] and p = prev_of_member [OF inv]
  have ok: "block_ok B s b" using i(4) by simp
  note N = split_numbers [OF ok u, folded nb_def]
  have lt: "unat u < units_of s b" using u by (simp add: word_less_nat_alt)
  have fit: "unat b mod 4096 + 16 * (units_of s b + 1) \<le> 4096" using ok by (simp add: block_ok_def)
  have b8: "unat (b + 8) = unat b + 8" by (rule blk_second(1) [OF ok])
  have n8: "unat (nb + 8) = unat nb + 8" 
    using block_offset(2) [OF ok, of 0] N(1) lt unat_add_u64 [of nb 8] by simp
  have inb: "unat nb \<in> blk s b" "unat (nb + 8) \<in> blk s b" "unat (b + 8) \<in> blk s b" "unat b \<in> blk s b"
    using N(1) n8 b8 lt by (simp_all add: blk_def)
  have ne: "b \<noteq> nb" "b \<noteq> nb + 8" "b + 8 \<noteq> nb" "b + 8 \<noteq> nb + 8" using N(1) n8 b8 by auto
  have ip: "nb \<noteq> ?p" "nb + 8 \<noteq> ?p" "b + 8 \<noteq> ?p" "b \<noteq> ?p" using p(3) inb by auto
  define w3 where "w3 = ?w(nb + 8 := blk_units s b - u - 1, b + 8 := u, nb := ?w b)"
  have s': "heap_words s' = (if as = [] then w3 else w3(?p := nb))"
    "slob_head s' = (if as = [] then nb else slob_head s)" "slob_pmm s' = slob_pmm s"
    using p(2) ne by (auto simp: s'_def take_larger_def Let_def set_blk_units_def set_blk_next_def blk_next_def
        blk_units_def w3_def nb_def [symmetric])
  have w: "\<forall>a. unat a \<notin> blk s b \<and> a \<noteq> ?p \<longrightarrow> heap_words s' a = ?w a"
    using inb by (auto simp: s'(1) w3_def)
  note k = others_kept [OF inv _ p(1) w]
  show bu: "blk_units s' b = u" using ne ip by (simp add: blk_units_def s'(1) w3_def)
  have nu: "blk_units s' nb = blk_units s b - u - 1" using ne ip by (simp add: blk_units_def s'(1) w3_def)
  have head: "unat x \<notin> blk s b" if "x \<in> set ?fs \<union> A" "x \<noteq> b" for x
    using i(5) [OF that(1), of b] that blk_head [of x s] by auto
  have new: "nb \<notin> set ?fs \<union> A" using head [of nb] inb(1) ne(1) by auto
  have bb: "blk s' b \<union> blk s' nb \<subseteq> blk s b" "blk s' b \<inter> blk s' nb = {}"
    using N(1,2) lt by (auto simp: blk_def bu nu)
  obtain d where d: "units_of s b = unat u + 1 + d" using less_imp_Suc_add [OF lt] by auto
  have nb: "16 dvd unat nb" "unat KERNEL_LOGICAL_BASE \<le> unat nb" using ok N(1) by (simp_all add: block_ok_def)
  have okb: "block_ok B s' b" "block_ok B s' nb"
    unfolding block_ok_def bu nu N(2-4) using ok d fit nb by (simp_all add: block_ok_def)
  have "chain w3 (slob_head s) ?fs"
    using i(1) head inb ne by (subst chain_frame [of _ _ ?w]) (auto simp: w3_def)
  moreover from this have "chain w3 (?w b) cs" using chain_append [of w3 _ as b cs] ne by (auto simp: w3_def)
  then have c: "chain w3 nb (nb # cs)" using N(1) by (auto simp: w3_def)
  ultimately have ch: "chain (heap_words s') (slob_head s') (as @ nb # cs)"
    using chain_redirect [of w3 "slob_head s" as "b # cs" nb "nb # cs"] i(2) new
    by (auto simp: s'(1,2) prev_of_def)
  have di: "distinct (as @ nb # cs)" "set (as @ nb # cs) \<inter> insert b A = {}" using i(2,3) new ne(1) by auto
  have other: "blk s' h = blk s h" "block_ok B s' h" "blk s h \<inter> blk s b = {}" if "h \<in> set as \<union> set cs \<union> A" for h
  proof -
    have h: "h \<in> set ?fs \<union> A" "h \<noteq> b" using that i(2,3) by auto
    show "blk s' h = blk s h" "block_ok B s' h" using k(2,3) [of h] h by auto
    show "blk s h \<inter> blk s b = {}" using i(5) [OF h(1), of b] h(2) by simp
  qed
  have sep: "blk s' h \<inter> blk s' x = {}" if "h \<in> set as \<union> set cs \<union> A" "x = b \<or> x = nb" for h x
    using other(1,3) [OF that(1)] bb(1) that(2) by auto
  have "blk s' h \<inter> blk s' x = {}"
    if "h \<in> set (as @ nb # cs) \<union> insert b A" "x \<in> set (as @ nb # cs) \<union> insert b A" "h \<noteq> x" for h x
  proof -
    have "h \<in> set as \<union> set cs \<union> A \<or> h = b \<or> h = nb" "x \<in> set as \<union> set cs \<union> A \<or> x = b \<or> x = nb" using that by auto
    then show ?thesis
      using sep [of h x] sep [of x h] other(1) [of h] other(1) [of x] i(5) [of h x] bb(2) that(3) by auto
  qed
  moreover have "block_ok B s' h" if "h \<in> set (as @ nb # cs) \<union> insert b A" for h
    using that other(2) [of h] okb by auto
  ultimately show "slob_inv s' (as @ nb # cs) (insert b A) B"
    unfolding slob_inv_def s'(3) using ch di i(6,7) by blast
  show "\<forall>a. unat a \<in> (\<Union>h \<in> A. blk s h) \<longrightarrow> heap_words s' a = heap_words s a"
    by (rule allocated_kept [OF inv w])
  show "slob_pmm s' = slob_pmm s" by (rule s'(3))
qed

section \<open>Fresh pages\<close>

definition page_bytes :: "nat \<Rightarrow> nat set" where
  "page_bytes p = {unat KERNEL_LOGICAL_BASE + 4096 * p ..< unat KERNEL_LOGICAL_BASE + 4096 * p + 4096}"

lemma page_bytes_disjoint: "p \<noteq> q \<Longrightarrow> page_bytes p \<inter> page_bytes q = {}"
  by (auto simp: page_bytes_def)

lemma blk_in_page:
  assumes "block_ok B s h"
  shows "blk s h \<subseteq> page_bytes ((unat h - unat KERNEL_LOGICAL_BASE) div 4096)"
proof -
  let ?K = "0xFFFF800000000 :: nat"
  have K: "unat KERNEL_LOGICAL_BASE = 4096 * ?K" by (simp add: KERNEL_LOGICAL_BASE_def)
  have ok: "unat h mod 4096 + 16 * (units_of s h + 1) \<le> 4096" "4096 * ?K \<le> unat h"
    using assms by (simp_all add: block_ok_def KERNEL_LOGICAL_BASE_def)
  define r where "r = unat h mod 4096"
  have "?K \<le> unat h div 4096" using ok(2) by (simp add: less_eq_div_iff_mult_less_eq)
  then obtain q where q: "unat h div 4096 = ?K + q" using le_Suc_ex by blast
  then have "unat h = 4096 * (?K + q) + r" by (simp add: r_def flip: q)
  then show ?thesis
    using ok(1) unfolding blk_def page_bytes_def K sub_multiple_div q r_def [symmetric] by simp
qed

lemma page_to_virt_eq:
  assumes "0 < p" "p < 2 ^ 35"
  shows "unat (page_to_virt (Some p)) = unat KERNEL_LOGICAL_BASE + 4096 * p"
proof -
  have "unat (of_nat p * PAGE_SIZE) = 4096 * p"
    using assms unat_mult_u64 [of "of_nat p" PAGE_SIZE] unat_of_nat_u64 [of p] by (simp add: PAGE_SIZE_def)
  then show ?thesis
    using assms unat_add_u64 [of "of_nat p * PAGE_SIZE" KERNEL_LOGICAL_BASE]
    by (auto simp: page_to_virt_def page_to_phys_def phys_to_virt_def KERNEL_LOGICAL_BASE_def)
qed

lemma add_page_ok:
  fixes s :: slob
  assumes inv: "slob_inv s fs A B" and p: "0 < p" "p < 2 ^ 35" "(p, 0) \<notin> B"
    and pmm: "pmm_inv pmm' (insert (p, 0) B)" "all_pages (zone_list pmm') = all_pages (zone_list (slob_pmm s))"
  defines "pg \<equiv> page_to_virt (Some p)"
  defines "s' \<equiv> s\<lparr>heap_words := (heap_words s)(pg + 8 := 255, pg := slob_head s), slob_pmm := pmm', slob_head := pg\<rparr>"
  shows "slob_inv s' (pg # fs) A (insert (p, 0) B)" "blk_units s' pg = 255"
    "\<forall>a. unat a \<in> (\<Union>h \<in> A. blk s h) \<longrightarrow> heap_words s' a = heap_words s a"
proof -
  note i = slob_invD [OF inv]
  have h: "unat pg = unat KERNEL_LOGICAL_BASE + 4096 * p" unfolding pg_def by (rule page_to_virt_eq [OF p(1,2)])
  have hz: "pg \<noteq> 0" using h by (auto simp: KERNEL_LOGICAL_BASE_def)
  show u: "blk_units s' pg = 255" by (simp add: blk_units_def s'_def)
  have h8: "unat (pg + 8) = unat pg + 8" using h p unat_add_u64 [of pg 8] by (simp add: KERNEL_LOGICAL_BASE_def)
  have page: "blk s' pg = page_bytes p" "unat pg \<in> page_bytes p" "unat (pg + 8) \<in> page_bytes p"
    using h h8 by (simp_all add: blk_def page_bytes_def u)
  have okh: "block_ok (insert (p, 0) B) s' pg"
    using h by (simp add: block_ok_def u) (simp add: KERNEL_LOGICAL_BASE_def)
  have old: "blk s h \<inter> page_bytes p = {}" if "h \<in> set fs \<union> A" for h
  proof -
    have "((unat h - unat KERNEL_LOGICAL_BASE) div 4096, 0) \<in> B" using i(4) [OF that] by (simp add: block_ok_def)
    then have "(unat h - unat KERNEL_LOGICAL_BASE) div 4096 \<noteq> p" using p(3) by auto
    then show ?thesis using blk_in_page [OF i(4) [OF that]] page_bytes_disjoint by blast
  qed
  have w: "heap_words s' a = heap_words s a" if "unat a \<notin> page_bytes p" for a
    using that page(2,3) by (auto simp: s'_def)
  have keep: "blk s' h = blk s h \<and> block_ok B s' h" if "h \<in> set fs \<union> A" for h
    using kept_units [OF i(4) [OF that], of s'] w old [OF that] by blast
  have ne: "pg \<notin> set fs \<union> A" using old [of pg] page(2) blk_head [of pg s] by blast
  show "slob_inv s' (pg # fs) A (insert (p, 0) B)"
  proof (rule slob_invI)
    have "heap_words s' x = heap_words s x" if "x \<in> set fs" for x
      using w old [of x] that blk_head [of x s] by blast
    then have "chain (heap_words s') (slob_head s) fs" using i(1) by (subst chain_frame [of _ _ "heap_words s"]) auto
    then show "chain (heap_words s') (slob_head s') (pg # fs)" using hz by (simp add: s'_def)
    show "block_ok (insert (p, 0) B) s' h" if "h \<in> set (pg # fs) \<union> A" for h
      using that okh keep [of h] by (auto simp: block_ok_def)
    show "blk s' h \<inter> blk s' k = {}" if "h \<in> set (pg # fs) \<union> A" "k \<in> set (pg # fs) \<union> A" "h \<noteq> k" for h k
      using that page(1) keep [of h] keep [of k] old [of h] old [of k] i(5) [of h k] by auto
  qed (use i(2,3,7) ne pmm in \<open>simp_all add: s'_def\<close>)
  show "\<forall>a. unat a \<in> (\<Union>h \<in> A. blk s h) \<longrightarrow> heap_words s' a = heap_words s a"
  proof (intro allI impI)
    fix a :: u64
    assume "unat a \<in> (\<Union>h \<in> A. blk s h)"
    then obtain h where "h \<in> A" "unat a \<in> blk s h" by (rule UN_E)
    then show "heap_words s' a = heap_words s a" using w [of a] old [of h] by blast
  qed
qed

lemma morecore_ok:
  assumes inv: "slob_inv s fs A B"
  shows "morecore s = Inl Panic \<and> (\<forall>z \<in> set (zone_list (slob_pmm s)). exhausted z 0) \<or>
    (\<exists>s' pg p. morecore s = Inr s' \<and> slob_inv s' (pg # fs) A (insert (p, 0) B) \<and> blk_units s' pg = 255 \<and>
       (\<forall>a. unat a \<in> (\<Union>h \<in> A. blk s h) \<longrightarrow> heap_words s' a = heap_words s a))"
proof -
  note i = slob_invD [OF inv]
  have "0 < MAX_ORDER" by (simp add: MAX_ORDER_def)
  from pmm_alloc_order_spec [OF i(6) this, of 0] show ?thesis
  proof (elim disjE exE conjE)
    assume "alloc_from_zones (zone_list (slob_pmm s)) (page_data (slob_pmm s)) 0 =
        Inr (None, zone_list (slob_pmm s), page_data (slob_pmm s))" "\<forall>z \<in> set (zone_list (slob_pmm s)). exhausted z 0"
    then show ?thesis by (simp add: morecore_def pmm_alloc_order_def GFP_CAN_FAIL_def MAX_ORDER_def)
  next
    fix p pmm'
    assume al: "pmm_alloc_order (slob_pmm s) 0 0 = Inr (Some p, pmm')" "pmm_inv pmm' (insert (p, 0) B)" "(p, 0) \<notin> B"
      "all_pages (zone_list pmm') = all_pages (zone_list (slob_pmm s))"
    have p: "0 < p" "p < 2 ^ 35"
      using pmm_inv_inside [OF al(2), of "(p, 0)"] al(4) i(7) by (auto simp: block_pages_def)
    have "page_to_virt (Some p) \<noteq> 0" using page_to_virt_eq [OF p] by (auto simp: KERNEL_LOGICAL_BASE_def)
    then have "morecore s = Inr (s\<lparr>heap_words := (heap_words s)(page_to_virt (Some p) + 8 := 255, page_to_virt (Some p) := slob_head s),
        slob_pmm := pmm', slob_head := page_to_virt (Some p)\<rparr>)"
      using al(1) by (simp add: morecore_def Let_def set_blk_units_def set_blk_next_def PAGE_SIZE_def UNIT_def)
    then show ?thesis using add_page_ok [OF inv p al(3,2,4)] by blast
  qed
qed

end
