(* ===== verification/Slob_Correct.thy ===== *)
theory Slob_Correct
  imports Slob
begin

text \<open>
  The properties of the kernel heap: an allocation returns a block of the requested size that
  is disjoint from all others and leaves their contents alone, a free gives the block back,
  and the exact-match branch at the head of the list hands out a block without removing it.
\<close>

section \<open>Allocation\<close>

definition allocated ::
  "slob \<Rightarrow> u64 set \<Rightarrow> block set \<Rightarrow> u64 \<Rightarrow> u64 \<Rightarrow> slob \<Rightarrow> bool"
where
  "allocated s A B u h s' \<longleftrightarrow>
     h \<notin> A \<and> blk_units s' h = u \<and> (\<exists>fs' B'. B \<subseteq> B' \<and> slob_inv s' fs' (insert h A) B') \<and>
     (\<forall>a. unat a \<in> (\<Union>k \<in> A. blk s k) \<longrightarrow> heap_words s' a = heap_words s a)"

lemma loop_fits:
  assumes inv: "slob_inv s fs A B" and head: "fs \<noteq> [] \<longrightarrow> blk_units s (hd fs) \<noteq> u"
    and fit: "\<exists>b \<in> set fs. u \<le> blk_units s b"
  shows "\<exists>h s'. slob_alloc_loop s u = Some (Inr (h + UNIT, s')) \<and> allocated s A B u h s'"
proof -
  note i = slob_invD [OF inv]
  from slob_search_ok [OF i(1), of u 0] show ?thesis
  proof (elim disjE exE conjE)
    fix as b cs
    assume f: "fs = as @ b # cs" "blk_units s b = u" and
      r: "slob_search s u 0 (slob_head s) = Some (Exact (if as = [] then 0 else last as) b)"
    have ne: "as \<noteq> []" using head f by (cases as) auto
    have "slob_alloc_loop s u = Some (Inr (b + UNIT, take_exact s (prev_of as) b))"
      using r by (simp add: slob_alloc_loop.simps prev_of_def)
    moreover have "b \<notin> A" using i(3) f(1) by auto
    ultimately show ?thesis
      using take_exact_ok [OF inv [unfolded f(1)] ne] f(2) unfolding allocated_def by blast
  next
    fix as b cs
    assume f: "fs = as @ b # cs" "u < blk_units s b" and
      r: "slob_search s u 0 (slob_head s) = Some (Larger (if as = [] then 0 else last as) b)"
    have "slob_alloc_loop s u = Some (Inr (b + UNIT, take_larger s u (prev_of as) b))"
      using r by (simp add: slob_alloc_loop.simps prev_of_def)
    moreover have "b \<notin> A" using i(3) f(1) by auto
    ultimately show ?thesis
      using take_larger_ok [OF inv [unfolded f(1)] f(2)] unfolding allocated_def by blast
  next
    assume "\<forall>a \<in> set fs. blk_units s a < u"
    then show ?thesis using fit by fastforce
  qed
qed

lemma loop_ok:
  assumes inv: "slob_inv s fs A B" and head: "fs \<noteq> [] \<longrightarrow> blk_units s (hd fs) \<noteq> u" and u: "u < 255"
  shows "slob_alloc_loop s u = Some (Inl Panic) \<and>
      (\<forall>b \<in> set fs. blk_units s b < u) \<and> (\<forall>z \<in> set (zone_list (slob_pmm s)). exhausted z 0) \<or>
    (\<exists>h s'. slob_alloc_loop s u = Some (Inr (h + UNIT, s')) \<and> allocated s A B u h s')"
proof (cases "\<exists>b \<in> set fs. u \<le> blk_units s b")
  case True
  then show ?thesis using loop_fits [OF inv head] by blast
next
  case False
  then have "slob_search s u 0 (slob_head s) = Some Not_found"
    using slob_search_ok [OF slob_invD(1) [OF inv], of u 0] by fastforce
  then have L: "slob_alloc_loop s u = (case morecore s of Inl e \<Rightarrow> Some (Inl e) | Inr s' \<Rightarrow> slob_alloc_loop s' u)"
    by (simp add: slob_alloc_loop.simps [of s u])
  from morecore_ok [OF inv] show ?thesis
  proof (elim disjE exE conjE)
    fix s1 pg p
    assume m: "morecore s = Inr s1" "slob_inv s1 (pg # fs) A (insert (p, 0) B)" "blk_units s1 pg = 255"
      "\<forall>a. unat a \<in> (\<Union>h \<in> A. blk s h) \<longrightarrow> heap_words s1 a = heap_words s a"
    have hd: "pg # fs \<noteq> [] \<longrightarrow> blk_units s1 (hd (pg # fs)) \<noteq> u" and fit: "\<exists>b \<in> set (pg # fs). u \<le> blk_units s1 b"
      using m(3) u by (auto simp: less_imp_le)
    obtain h s2 where h: "slob_alloc_loop s1 u = Some (Inr (h + UNIT, s2))" "allocated s1 A (insert (p, 0) B) u h s2"
      using loop_fits [OF m(2) hd fit] by blast
    have "blk s1 k = blk s k" if "k \<in> A" for k
      using kept_units(2) [OF slob_invD(4) [OF inv], of k s1] that m(4) by blast
    then have "allocated s A B u h s2" using h(2) m(4) unfolding allocated_def by auto
    then show ?thesis using L m(1) h(1) by simp
  qed (use L False in \<open>simp add: not_le\<close>)
qed

section \<open>Filling\<close>

lemma poison_kept:
  fixes s :: slob
  assumes ok: "block_ok B s h" and n: "unat n \<le> 16 * units_of s h"
  shows "unat a \<notin> {unat h + 16 ..< unat h + 16 * (units_of s h + 1)} \<Longrightarrow>
    heap_words (poison s (h + UNIT) n) a = heap_words s a"
proof -
  assume a: "unat a \<notin> {unat h + 16 ..< unat h + 16 * (units_of s h + 1)}"
  have "\<not> a - (h + UNIT) < n"
  proof
    assume lt: "a - (h + UNIT) < n"
    then have d: "unat (a - (h + UNIT)) < 16 * units_of s h" using n by (simp add: word_less_nat_alt)
    then have x: "unat (16 + (a - (h + UNIT))) = 16 + unat (a - (h + UNIT))"
      using block_offset(2) [OF ok, of 0] unat_add_u64 [of 16 "a - (h + UNIT)"] by simp
    have "unat (h + (16 + (a - (h + UNIT)))) = unat h + unat (16 + (a - (h + UNIT)))"
      using x d by (intro block_offset(1) [OF ok]) simp
    then have "unat a = unat h + 16 + unat (a - (h + UNIT))" using x by (simp add: UNIT_def algebra_simps)
    then show False using a d by simp
  qed
  then show ?thesis by (simp add: poison_def)
qed

lemma poison_inv:
  assumes inv: "slob_inv s fs A B" and h: "h \<in> set fs \<union> A" and n: "unat n \<le> 16 * units_of s h"
  shows "slob_inv (poison s (h + UNIT) n) fs A B" "blk_units (poison s (h + UNIT) n) k = blk_units s k \<or> k \<notin> set fs \<union> A"
    "\<forall>a. unat a \<notin> blk s h \<longrightarrow> heap_words (poison s (h + UNIT) n) a = heap_words s a"
proof -
  let ?s = "poison s (h + UNIT) n"
  note i = slob_invD [OF inv]
  have ok: "block_ok B s h" by (rule i(4) [OF h])
  note keep = poison_kept [OF ok n]
  show fr: "\<forall>a. unat a \<notin> blk s h \<longrightarrow> heap_words ?s a = heap_words s a"
    using keep by (auto simp: blk_def)
  have hh: "heap_words ?s x = heap_words s x" "heap_words ?s (x + 8) = heap_words s (x + 8)" if "x \<in> set fs \<union> A" for x
  proof -
    have "unat x \<notin> {unat h + 16 ..< unat h + 16 * (units_of s h + 1)} \<and> unat (x + 8) \<notin> {unat h + 16 ..< unat h + 16 * (units_of s h + 1)}"
    proof (cases "x = h")
      case True
      then show ?thesis using blk_second(1) [OF ok] by simp
    next
      case False
      then have "blk s x \<inter> blk s h = {}" by (rule i(5) [OF that h])
      then show ?thesis using blk_head [of x s] blk_second(2) [OF i(4) [OF that]] by (auto simp: blk_def [of s h])
    qed
    then show "heap_words ?s x = heap_words s x" "heap_words ?s (x + 8) = heap_words s (x + 8)" using keep by blast+
  qed
  then have same: "blk_units ?s x = blk_units s x" "blk ?s x = blk s x" "block_ok B ?s x" if "x \<in> set fs \<union> A" for x
    using i(4) [OF that] that by (simp_all add: blk_units_def blk_def block_ok_def)
  then show "blk_units ?s k = blk_units s k \<or> k \<notin> set fs \<union> A" by blast
  have st: "slob_head ?s = slob_head s" "slob_pmm ?s = slob_pmm s" by (simp_all add: poison_def)
  show "slob_inv ?s fs A B"
  proof (rule slob_invI)
    show "chain (heap_words ?s) (slob_head ?s) fs"
      unfolding st using i(1) hh(1) by (subst chain_frame [of _ _ "heap_words s"]) auto
  qed (use i(2,3,5,6,7) same st in auto)
qed

section \<open>Boot\<close>

definition fresh_slob :: "pmm \<Rightarrow> slob" where
  "fresh_slob pmm = \<lparr>heap_words = (\<lambda>_. 0), slob_head = 0, slob_pmm = pmm\<rparr>"

lemma fresh_slob_inv: "\<exists>st. small_boot = Inr st \<and> slob_inv (fresh_slob st) [] {} {}"
proof -
  let ?rg = "\<lparr>rg_base = 0x100000, rg_len = 0x4000, rg_flags = MMAP_NONE\<rparr>"
  obtain st where st: "small_boot = Inr st" "pmm_inv st {}" "all_pages (zone_list st) = region_pages ?rg"
    using init_zones_ok [OF empty_pmm_inv, of "[?rg]" "\<lambda>_. 0" "\<lambda>_. 0"]
    by (auto simp: small_boot_def region_ok_def regions_apart_def empty_pmm_def)
  have "region_pages ?rg \<subseteq> {1 ..< 2 ^ 35}" by (auto simp: region_pages_def region_first_def region_count_def)
  then show ?thesis using st by (auto simp: slob_inv_def fresh_slob_def)
qed

lemma fresh_page: "\<exists>st st'. small_boot = Inr st \<and> pmm_alloc_order st 0 0 = Inr (Some 257, st')"
proof -
  obtain st where st: "small_boot = Inr st" using boot_inv(1) by blast
  have "result_page (obind small_boot (\<lambda>st. pmm_alloc_order st 0 0)) = Some 257"
    by (simp add: boot_eval) (simp add: boot_eval call_eval)
  then show ?thesis unfolding st obind.simps result_page_Some by blast
qed

section \<open>Properties\<close>

lemma round_units: "unat n \<le> 4080 \<Longrightarrow> unat (DIV_ROUND_UP n UNIT) = (unat n + 15) div 16"
proof -
  assume n: "unat n \<le> 4080"
  have "n + 16 - 1 = n + 15" by simp
  moreover have "unat (15 + n) = unat n + 15" using n unat_add_u64 [of 15 n] by simp
  ultimately show ?thesis by (simp add: DIV_ROUND_UP_def UNIT_def unat_div_distrib)
qed

lemma kmalloc_ok:
  assumes inv: "slob_inv s fs A B" and n: "unat n \<le> 4064"
    and head: "fs \<noteq> [] \<longrightarrow> blk_units s (hd fs) \<noteq> DIV_ROUND_UP n UNIT"
  shows "kmalloc s n = Some (Inl Panic) \<and>
      (\<forall>b \<in> set fs. blk_units s b < DIV_ROUND_UP n UNIT) \<and> (\<forall>z \<in> set (zone_list (slob_pmm s)). exhausted z 0) \<or>
    (\<exists>h s'. kmalloc s n = Some (Inr (h + UNIT, s')) \<and> unat n \<le> 16 * units_of s' h \<and>
       allocated s A B (DIV_ROUND_UP n UNIT) h s')"
proof -
  let ?u = "DIV_ROUND_UP n UNIT"
  have u: "unat ?u = (unat n + 15) div 16" using n by (intro round_units) simp
  have "?u < 255" "n < BIGALLOC"
    using n u by (simp_all add: word_less_nat_alt BIGALLOC_def PAGE_SIZE_def UNIT_def)
  then have al: "slob_alloc s n = slob_alloc_loop s ?u" by (simp add: slob_alloc_def)
  from loop_ok [OF inv head \<open>?u < 255\<close>] show ?thesis
  proof (elim disjE exE conjE)
    fix h s1
    assume r: "slob_alloc_loop s ?u = Some (Inr (h + UNIT, s1))" "allocated s A B ?u h s1"
    obtain fs' B' where a: "h \<notin> A" "blk_units s1 h = ?u" "B \<subseteq> B'" "slob_inv s1 fs' (insert h A) B'"
      "\<forall>a. unat a \<in> (\<Union>k \<in> A. blk s k) \<longrightarrow> heap_words s1 a = heap_words s a"
      using r(2) by (auto simp: allocated_def)
    have len: "unat n \<le> 16 * units_of s1 h" using u a(2) by simp
    let ?s = "poison s1 (h + UNIT) n"
    note p = poison_inv [OF a(4) _ len]
    have keep: "heap_words ?s a = heap_words s a" if "unat a \<in> blk s k" "k \<in> A" for a k
    proof -
      have "heap_words s1 a = heap_words s a" using a(5) that by blast
      moreover have "blk s1 k = blk s k"
        using kept_units(2) [OF slob_invD(4) [OF inv], of k s1] a(5) that(2) by blast
      then have "unat a \<notin> blk s1 h" using slob_invD(5) [OF a(4), of k h] that a(1) by auto
      ultimately show ?thesis using p(3) by simp
    qed
    have "blk_units ?s h = ?u" using p(2) [of h] a(2) by simp
    then have "allocated s A B ?u h ?s" unfolding allocated_def using a(1,3) p(1) keep by blast
    then show ?thesis using r(1) al len \<open>blk_units ?s h = ?u\<close> a(2) by (simp add: kmalloc_def)
  qed (simp add: kmalloc_def al)
qed

text \<open>
  C13. \<^verbatim>\<open>kmalloc\<close> of at most 4064 bytes returns, unless the first free block has exactly the
  requested size: either every free block is too small, every zone of the page allocator is exhausted, and the kernel
  panics, or the result points behind the header of a new block that is large enough, lies in one page of
  the page allocator and is disjoint from every allocated block; the words of the allocated
  blocks keep their values.
\<close>

theorem kmalloc_correct:
  assumes "slob_inv s fs A B" and "unat n \<le> 4064"
    and "fs \<noteq> [] \<longrightarrow> blk_units s (hd fs) \<noteq> DIV_ROUND_UP n UNIT"
  shows "kmalloc s n = Some (Inl Panic) \<and>
      (\<forall>b \<in> set fs. blk_units s b < DIV_ROUND_UP n UNIT) \<and> (\<forall>z \<in> set (zone_list (slob_pmm s)). exhausted z 0) \<or>
    (\<exists>h s' fs' B'. kmalloc s n = Some (Inr (h + UNIT, s')) \<and> h \<notin> A \<and> slob_inv s' fs' (insert h A) B' \<and>
       unat n \<le> 16 * units_of s' h \<and> (\<forall>k \<in> A. blk s' k = blk s k \<and> blk s' h \<inter> blk s k = {}) \<and>
       (\<forall>a. unat a \<in> (\<Union>k \<in> A. blk s k) \<longrightarrow> heap_words s' a = heap_words s a))"
  using kmalloc_ok [OF assms]
proof (elim disjE exE conjE)
  fix h s'
  assume r: "kmalloc s n = Some (Inr (h + UNIT, s'))" "unat n \<le> 16 * units_of s' h"
    "allocated s A B (DIV_ROUND_UP n UNIT) h s'"
  obtain fs' B' where a: "h \<notin> A" "slob_inv s' fs' (insert h A) B'"
    "\<forall>a. unat a \<in> (\<Union>k \<in> A. blk s k) \<longrightarrow> heap_words s' a = heap_words s a"
    using r(3) by (auto simp: allocated_def)
  have "blk s' k = blk s k \<and> blk s' h \<inter> blk s k = {}" if "k \<in> A" for k
  proof -
    have "blk s' k = blk s k" using kept_units(2) [OF slob_invD(4) [OF assms(1)], of k s'] a(3) that by blast
    then show ?thesis using slob_invD(5) [OF a(2), of h k] a(1) that by auto
  qed
  then show ?thesis using r(1,2) a by blast
qed simp_all

lemma first_kmalloc:
  "\<exists>st s' fs B. small_boot = Inr st \<and> kmalloc (fresh_slob st) 24 = Some (Inr (page_to_virt (Some 257) + UNIT, s')) \<and>
     slob_inv s' fs {page_to_virt (Some 257)} B \<and> blk_units s' (page_to_virt (Some 257)) = 2"
proof -
  obtain st st' where st: "small_boot = Inr st" "pmm_alloc_order st 0 0 = Inr (Some 257, st')" using fresh_page by blast
  let ?pg = "page_to_virt (Some 257)"
  have pg: "?pg = 0xFFFF800000101000"
    by (simp add: page_to_virt_def page_to_phys_def phys_to_virt_def PAGE_SIZE_def KERNEL_LOGICAL_BASE_def)
  have inv: "slob_inv (fresh_slob st) [] {} {}" using fresh_slob_inv unfolding st(1) by simp
  define s1 where "s1 = \<lparr>heap_words = (\<lambda>_. 0)(?pg + 8 := 255, ?pg := 0), slob_head = ?pg, slob_pmm = st'\<rparr>"
  have m: "morecore (fresh_slob st) = Inr s1"
    using st(2) pg by (simp add: morecore_def fresh_slob_def set_blk_units_def set_blk_next_def s1_def PAGE_SIZE_def UNIT_def)
  have u: "DIV_ROUND_UP 24 UNIT = 2" and "24 < BIGALLOC"
    by (simp_all add: DIV_ROUND_UP_def UNIT_def BIGALLOC_def PAGE_SIZE_def)
  have "slob_search (fresh_slob st) 2 0 0 = Some Not_found" by (simp add: slob_search.simps)
  then have "slob_alloc_loop (fresh_slob st) 2 = slob_alloc_loop s1 2"
    using m by (subst slob_alloc_loop.simps) (simp add: fresh_slob_def)
  moreover have "slob_search s1 2 0 ?pg = Some (Larger 0 ?pg)"
    using pg by (simp add: slob_search.simps blk_units_def s1_def)
  then have "slob_alloc_loop s1 2 = Some (Inr (?pg + UNIT, take_larger s1 2 0 ?pg))"
    by (subst slob_alloc_loop.simps) (simp add: s1_def)
  ultimately have k: "kmalloc (fresh_slob st) 24 = Some (Inr (?pg + UNIT, poison (take_larger s1 2 0 ?pg) (?pg + UNIT) 24))"
    using \<open>24 < BIGALLOC\<close> by (simp add: kmalloc_def slob_alloc_def u)
  moreover from kmalloc_ok [OF inv, of 24] k have "\<exists>s'. kmalloc (fresh_slob st) 24 = Some (Inr (?pg + UNIT, s')) \<and>
      allocated (fresh_slob st) {} {} 2 ?pg s'" by (auto simp: u)
  ultimately show ?thesis using st(1) by (auto simp: allocated_def)
qed

theorem kmalloc_correct_witness:
  "\<exists>st s' h fs B. small_boot = Inr st \<and> kmalloc (fresh_slob st) 24 = Some (Inr (h + UNIT, s')) \<and>
     slob_inv s' fs {h} B \<and> 24 \<le> 16 * units_of s' h"
proof -
  obtain st where st: "small_boot = Inr st" "slob_inv (fresh_slob st) [] {} {}" using fresh_slob_inv by blast
  have "kmalloc (fresh_slob st) 24 \<noteq> Some (Inl Panic)" using first_kmalloc unfolding st(1) by auto
  then show ?thesis unfolding st(1) using kmalloc_correct [OF st(2), of 24] by auto
qed

lemma payload_aligned:
  assumes ok: "block_ok B s h"
  shows "ISALIGN_POW2 (h + UNIT) PAGE_SIZE \<longleftrightarrow> unat h mod 4096 = 4080"
proof -
  have "unat ((h + UNIT) AND mask 12) = unat (h + UNIT) mod 4096"
    by (simp add: take_bit_eq_mask [symmetric] take_bit_eq_mod unat_mod_distrib)
  also have "\<dots> = (unat h + 16) mod 4096"
    by (simp add: UNIT_def unat_word_ariths mod_mod_cancel)
  finally have "unat ((h + UNIT) AND mask 12) = 0 \<longleftrightarrow> (unat h mod 4096 + 16) mod 4096 = 0" by (simp add: mod_add_left_eq)
  also have "\<dots> \<longleftrightarrow> unat h mod 4096 = 4080"
  proof (cases "unat h mod 4096 + 16 < 4096")
    case False
    moreover have "unat h mod 4096 + 16 \<le> 4096" using ok by (simp add: block_ok_def)
    ultimately have "unat h mod 4096 + 16 = 4096" by linarith
    then show ?thesis by simp
  qed simp
  moreover have "mask 12 = (PAGE_SIZE - 1 :: u64)" by (simp add: mask_eq_exp_minus_1 PAGE_SIZE_def)
  ultimately show ?thesis by (simp add: ISALIGN_POW2_def unat_eq_0)
qed

lemma kfree_ok:
  assumes inv: "slob_inv s fs A B" and h: "h \<in> A" and u: "unat h mod 4096 \<noteq> 4080"
  shows "\<exists>s'. kfree s (h + UNIT) = Inr s' \<and> slob_inv s' (h # fs) (A - {h}) B \<and> slob_head s' = h \<and>
    blk_units s' h = blk_units s h \<and> (\<forall>a. unat a \<notin> blk s h \<longrightarrow> heap_words s' a = heap_words s a)"
proof -
  note i = slob_invD [OF inv]
  have ok: "block_ok B s h" using i(4) h by blast
  have hz: "h \<noteq> 0" using ok by (auto simp: block_ok_def KERNEL_LOGICAL_BASE_def)
  have nf: "h \<notin> set fs" using i(3) h by blast
  define s1 where "s1 = (set_blk_next s h (slob_head s))\<lparr>slob_head := h\<rparr>"
  have s1: "heap_words s1 = (heap_words s)(h := slob_head s)" "slob_head s1 = h" "slob_pmm s1 = slob_pmm s"
    by (simp_all add: s1_def set_blk_next_def)
  have apart: "h \<noteq> x + 8" if "x \<in> set fs \<union> A" for x
    using header_apart(5) [of s h x B] i(4,5) [of x] i(5) [of h x] that ok h by (cases "x = h") auto
  have un: "blk_units s1 x = blk_units s x" if "x \<in> set fs \<union> A" for x
    using apart [OF that] by (simp add: blk_units_def s1(1))
  have same: "blk s1 x = blk s x" "block_ok B s1 x" if "x \<in> set fs \<union> A" for x
    using un [OF that] i(4) [OF that] by (simp_all add: blk_def block_ok_def)
  have inv1: "slob_inv s1 (h # fs) (A - {h}) B"
  proof (rule slob_invI)
    show "chain (heap_words s1) (slob_head s1) (h # fs)"
      using i(1) hz nf chain_frame [of fs "(heap_words s)(h := slob_head s)" "heap_words s"] by (auto simp: s1)
    have S: "set (h # fs) \<union> (A - {h}) = set fs \<union> A" using h by auto
    show "block_ok B s1 x" if "x \<in> set (h # fs) \<union> (A - {h})" for x using that unfolding S by (rule same(2))
    show "blk s1 x \<inter> blk s1 y = {}" if "x \<in> set (h # fs) \<union> (A - {h})" "y \<in> set (h # fs) \<union> (A - {h})" "x \<noteq> y" for x y
      using that unfolding S by (simp add: same(1) i(5))
  qed (use i(2,3,6,7) nf s1(3) in auto)
  have len: "unat (blk_units s1 h * UNIT) \<le> 16 * units_of s1 h"
    using ok un [of h] h unat_mult_u64 [of "blk_units s h" UNIT] by (simp add: UNIT_def block_ok_def mult.commute)
  note p = poison_inv [OF inv1 _ len]
  let ?s = "poison s1 (h + UNIT) (blk_units s1 h * UNIT)"
  have "kfree s (h + UNIT) = Inr ?s"
    using payload_aligned [OF ok] u by (simp add: kfree_def slob_free_def s1_def Let_def)
  moreover have "slob_head ?s = h" by (simp add: poison_def s1(2))
  moreover have "blk_units ?s h = blk_units s h" using p(2) [of h] un [of h] h by simp
  moreover have "\<forall>a. unat a \<notin> blk s h \<longrightarrow> heap_words ?s a = heap_words s a"
    using p(3) same(1) [of h] h blk_head [of h s] by (auto simp: s1(1))
  ultimately show ?thesis using p(1) by auto
qed

text \<open>
  C38. \<^verbatim>\<open>kfree\<close> of an allocated block returns unless the header of the block is the last unit of its page, which
  only a block without payload can have (\<^verbatim>\<open>kmalloc\<close> of zero bytes): the block becomes the first free block, and the
  words of all other blocks keep their values.  In that one case the pointer is aligned to a page and the call panics.
\<close>

theorem kfree_correct:
  assumes "slob_inv s fs A B" and "h \<in> A"
  shows "if unat h mod 4096 = 4080 then units_of s h = 0 \<and> kfree s (h + UNIT) = Inl Panic
    else \<exists>s'. kfree s (h + UNIT) = Inr s' \<and> slob_inv s' (h # fs) (A - {h}) B \<and>
      (\<forall>a. unat a \<notin> blk s h \<longrightarrow> heap_words s' a = heap_words s a)"
proof -
  have ok: "block_ok B s h" using slob_invD(4) [OF assms(1)] assms(2) by blast
  then have "units_of s h = 0" if "unat h mod 4096 = 4080" using that by (simp add: block_ok_def)
  then show ?thesis using kfree_ok [OF assms] payload_aligned [OF ok] by (auto simp: kfree_def slob_free_def)
qed

theorem kfree_correct_witness:
  "\<exists>st s s' fs B. small_boot = Inr st \<and> kmalloc (fresh_slob st) 24 = Some (Inr (page_to_virt (Some 257) + UNIT, s)) \<and>
     kfree s (page_to_virt (Some 257) + UNIT) = Inr s' \<and> slob_inv s' (page_to_virt (Some 257) # fs) {} B"
proof -
  obtain st s fs B where k: "small_boot = Inr st" "kmalloc (fresh_slob st) 24 = Some (Inr (page_to_virt (Some 257) + UNIT, s))"
    "slob_inv s fs {page_to_virt (Some 257)} B" "blk_units s (page_to_virt (Some 257)) = 2" using first_kmalloc by blast
  moreover have "unat (page_to_virt (Some 257)) mod 4096 \<noteq> 4080"
    by (simp add: page_to_virt_def page_to_phys_def phys_to_virt_def PAGE_SIZE_def KERNEL_LOGICAL_BASE_def)
  ultimately show ?thesis using kfree_correct [OF k(3), of "page_to_virt (Some 257)"] unfolding k(1) by auto
qed

lemma kmalloc_head:
  assumes "slob_inv s (h # fs) A B" and "blk_units s h = DIV_ROUND_UP n UNIT" and "n < BIGALLOC"
  shows "kmalloc s n = Some (Inr (h + UNIT, poison s (h + UNIT) n))"
proof -
  have h: "slob_head s = h" "h \<noteq> 0" using slob_invD(1) [OF assms(1)] by simp_all
  then have "slob_search s (DIV_ROUND_UP n UNIT) 0 (slob_head s) = Some (Exact 0 h)"
    using assms(2) by (simp add: slob_search.simps)
  moreover have "take_exact s 0 h = s" using h by (simp add: take_exact_def)
  ultimately show ?thesis
    using assms(3) by (simp add: kmalloc_def slob_alloc_def slob_alloc_loop.simps)
qed

text \<open>
  The exact-match branch of \<^verbatim>\<open>slob_alloc\<close> at the head of the list leaves the block in the list:
  after a block is freed, two calls of \<^verbatim>\<open>kmalloc\<close> for its size both return its address.
\<close>

lemma kmalloc_same_block_twice:
  assumes "slob_inv s fs A B" and "h \<in> A" and "0 < n" and "n < BIGALLOC" and "blk_units s h = DIV_ROUND_UP n UNIT"
  shows "\<exists>s1 s2 s3. kfree s (h + UNIT) = Inr s1 \<and> kmalloc s1 n = Some (Inr (h + UNIT, s2)) \<and>
    kmalloc s2 n = Some (Inr (h + UNIT, s3))"
proof -
  have n: "0 < unat n" "unat n \<le> 4080"
    using assms(3,4) by (simp_all add: word_less_nat_alt BIGALLOC_def PAGE_SIZE_def UNIT_def)
  have u: "units_of s h = (unat n + 15) div 16" using round_units [OF n(2)] assms(5) by simp
  then have u0: "0 < units_of s h" "unat n \<le> 16 * units_of s h" using n(1) by auto
  obtain s1 where s1: "kfree s (h + UNIT) = Inr s1" "slob_inv s1 (h # fs) (A - {h}) B" "blk_units s1 h = blk_units s h"
    using kfree_ok [OF assms(1,2)] u0(1) slob_invD(4) [OF assms(1), of h] assms(2) by (auto simp: block_ok_def)
  let ?s2 = "poison s1 (h + UNIT) n"
  have k1: "kmalloc s1 n = Some (Inr (h + UNIT, ?s2))"
    using kmalloc_head [OF s1(2) _ assms(4)] s1(3) assms(5) by simp
  note p = poison_inv [OF s1(2), of h n]
  have "slob_inv ?s2 (h # fs) (A - {h}) B" "blk_units ?s2 h = DIV_ROUND_UP n UNIT"
    using p(1) p(2) [of h] u0(2) s1(3) assms(5) by auto
  then show ?thesis using s1(1) k1 kmalloc_head [of ?s2 h fs _ B n] assms(4) by blast
qed

lemma kmalloc_same_block_twice_example:
  "\<exists>st s s1 s2 s3 p. small_boot = Inr st \<and> kmalloc (fresh_slob st) 24 = Some (Inr (p, s)) \<and> kfree s p = Inr s1 \<and>
     kmalloc s1 24 = Some (Inr (p, s2)) \<and> kmalloc s2 24 = Some (Inr (p, s3))"
proof -
  obtain st s fs B where k: "small_boot = Inr st" "kmalloc (fresh_slob st) 24 = Some (Inr (page_to_virt (Some 257) + UNIT, s))"
    "slob_inv s fs {page_to_virt (Some 257)} B" "blk_units s (page_to_virt (Some 257)) = 2" using first_kmalloc by blast
  have "DIV_ROUND_UP 24 UNIT = 2" "(24 :: u64) < BIGALLOC"
    by (simp_all add: DIV_ROUND_UP_def UNIT_def BIGALLOC_def PAGE_SIZE_def)
  then show ?thesis unfolding k(1) using kmalloc_same_block_twice [OF k(3), of "page_to_virt (Some 257)" 24] k(2,4) by auto
qed

section \<open>Allocation from the front\<close>

text \<open>A heap whose first free block is larger than the request.\<close>

lemma kmalloc_front:
  assumes "slob_head s = b" and "b \<noteq> 0" and "n < BIGALLOC" and "DIV_ROUND_UP n UNIT = u" and "u < blk_units s b"
  shows "kmalloc s n = Some (Inr (b + UNIT, poison (take_larger s u 0 b) (b + UNIT) n))"
proof -
  have "slob_search s u 0 b = Some (Larger 0 b)" using assms(2,5) by (subst slob_search.simps) auto
  then have "slob_alloc_loop s u = Some (Inr (b + UNIT, take_larger s u 0 b))"
    using assms(1) by (subst slob_alloc_loop.simps) simp
  then show ?thesis using assms(3,4) by (simp add: kmalloc_def slob_alloc_def)
qed

definition ex_heap :: "u64 \<Rightarrow> u64 \<Rightarrow> slob" where
  "ex_heap b u = \<lparr>heap_words = (\<lambda>a. if a = b + 8 then u else 0), slob_head = b,
     slob_pmm = \<lparr>page_data = \<lparr>page_list = (\<lambda>_. \<lparr>dnext = None, dprev = None\<rparr>), page_order = (\<lambda>_. 0), page_refcount = (\<lambda>_. 0)\<rparr>,
                 zone_list = []\<rparr>\<rparr>"

text \<open>Such an allocation changes nothing below the block.\<close>

lemma kmalloc_front_below:
  assumes "unat a < unat b" and "unat b + 16 * (unat u + 2) < 2 ^ 64" and "unat b + 16 + unat n \<le> 2 ^ 64"
  shows "heap_words (poison (take_larger s u 0 b) (b + UNIT) n) a = heap_words s a"
proof -
  have u: "unat ((u + 1) * UNIT) = 16 * (unat u + 1)" using assms(2) by (simp add: UNIT_def unat_word_ariths)
  then have nb: "unat (b + (u + 1) * UNIT) = unat b + 16 * (unat u + 1)" using assms(2) by (simp add: nowrap)
  then have "unat (b + (u + 1) * UNIT + 8) = unat b + 16 * (unat u + 1) + 8" using assms(2) by (subst unat_add_u64) simp_all
  moreover have "unat (b + 8) = unat b + 8" using assms(2) by (simp add: nowrap)
  ultimately have ne: "a \<noteq> b" "a \<noteq> b + 8" "a \<noteq> b + (u + 1) * UNIT" "a \<noteq> b + (u + 1) * UNIT + 8" using assms(1) nb by auto
  have "unat (b + UNIT) = unat b + 16" using assms(2) by (simp add: nowrap UNIT_def)
  then have "\<not> a - (b + UNIT) < n" using assms(1,3) by (simp add: word_less_nat_alt unat_sub_if')
  then show ?thesis using ne by (simp add: poison_def take_larger_def set_blk_units_def set_blk_next_def Let_def)
qed

end
