(* ===== verification/Strings.thy ===== *)
theory Strings
  imports Prelude "HOL-Library.Monad_Syntax"
begin

text \<open>
  The byte routines of \<^verbatim>\<open>libk/string.c\<close> on a memory that gives every address its byte.  Pointer
  arithmetic is modulo \<open>2 ^ 64\<close>; lengths are natural numbers.  \<^verbatim>\<open>strlen\<close> is a partial function:
  without a terminator it does not return.
\<close>

section \<open>Operations\<close>

function memcmp_from :: "byte_mem \<Rightarrow> u64 \<Rightarrow> u64 \<Rightarrow> nat \<Rightarrow> nat \<Rightarrow> int" where
  "memcmp_from m a b n i =
     (if i < n then
        (if m (a + of_nat i) < m (b + of_nat i) then - 1
         else if m (b + of_nat i) < m (a + of_nat i) then 1
         else memcmp_from m a b n (Suc i))
      else 0)"
  by pat_completeness auto
termination by (relation "measure (\<lambda>(m, a, b, n, i). n - i)") auto

function memcpy_from :: "byte_mem \<Rightarrow> u64 \<Rightarrow> u64 \<Rightarrow> nat \<Rightarrow> nat \<Rightarrow> byte_mem" where
  "memcpy_from m dst src n i =
     (if i < n then memcpy_from (m(dst + of_nat i := m (src + of_nat i))) dst src n (Suc i) else m)"
  by pat_completeness auto
termination by (relation "measure (\<lambda>(m, dst, src, n, i). n - i)") auto

fun move_down :: "byte_mem \<Rightarrow> u64 \<Rightarrow> u64 \<Rightarrow> nat \<Rightarrow> byte_mem" where
  "move_down m dst src 0 = m"
| "move_down m dst src (Suc i) = move_down (m(dst + of_nat i := m (src + of_nat i))) dst src i"

function memset_to :: "byte_mem \<Rightarrow> u64 \<Rightarrow> u64 \<Rightarrow> u8 \<Rightarrow> byte_mem" where
  "memset_to m p stop c = (if p \<noteq> stop then memset_to (m(p := c)) (p + 1) stop c else m)"
  by pat_completeness auto
termination
proof (relation "measure (\<lambda>(m, p, stop, c). unat (stop - p))")
  fix m :: byte_mem and p stop :: u64 and c
  assume "p \<noteq> stop"
  then have "1 \<le> stop - p" by (simp add: word_le_nat_alt Suc_leI unat_gt_0)
  then have "unat (stop - p - 1) = unat (stop - p) - 1" "0 < unat (stop - p)"
    by (simp_all add: nowrap word_le_nat_alt)
  then have "unat (stop - p - 1) < unat (stop - p)" by linarith
  then show "((m(p := c), p + 1, stop, c), m, p, stop, c) \<in> measure (\<lambda>(m, p, stop, c). unat (stop - p))"
    by (simp add: algebra_simps)
qed simp

fun memchr_from :: "byte_mem \<Rightarrow> u64 \<Rightarrow> u8 \<Rightarrow> nat \<Rightarrow> u64" where
  "memchr_from m p c 0 = 0"
| "memchr_from m p c (Suc n) = (if m p = c then p else memchr_from m (p + 1) c n)"

partial_function (option) strlen_from :: "byte_mem \<Rightarrow> u64 \<Rightarrow> nat \<Rightarrow> nat option" where
  "strlen_from m s len = (if m s \<noteq> 0 then strlen_from m (s + 1) (Suc len) else Some len)"

declare memcmp_from.simps [simp del] memcpy_from.simps [simp del] memset_to.simps [simp del]

definition memcmp :: "byte_mem \<Rightarrow> u64 \<Rightarrow> u64 \<Rightarrow> nat \<Rightarrow> int" where
  "memcmp m s1 s2 n = memcmp_from m s1 s2 n 0"

definition memcpy :: "byte_mem \<Rightarrow> u64 \<Rightarrow> u64 \<Rightarrow> nat \<Rightarrow> byte_mem" where
  "memcpy m s1 s2 n = memcpy_from m s1 s2 n 0"

definition memmove :: "byte_mem \<Rightarrow> u64 \<Rightarrow> u64 \<Rightarrow> nat \<Rightarrow> byte_mem" where
  "memmove m s1 s2 n = (if s1 < s2 then memcpy_from m s1 s2 n 0 else move_down m s1 s2 n)"

definition memset :: "byte_mem \<Rightarrow> u64 \<Rightarrow> int \<Rightarrow> nat \<Rightarrow> byte_mem" where
  "memset m s c n = memset_to m s (s + of_nat n) (of_int c)"

definition memchr :: "byte_mem \<Rightarrow> u64 \<Rightarrow> int \<Rightarrow> nat \<Rightarrow> u64" where
  "memchr m s c n = memchr_from m s (of_int c) n"

definition strlen :: "byte_mem \<Rightarrow> u64 \<Rightarrow> nat option" where
  "strlen m s = strlen_from m s 0"

section \<open>What they compute\<close>

definition in_range :: "u64 \<Rightarrow> nat \<Rightarrow> bool" where
  "in_range p n \<longleftrightarrow> unat p + n \<le> 2 ^ 64"

lemma in_range_addr: "in_range p n \<Longrightarrow> i < n \<Longrightarrow> unat (p + of_nat i) = unat p + i"
  by (simp add: in_range_def unat_add_u64 unat_of_nat_u64)

lemma in_range_eq:
  "in_range p n \<Longrightarrow> in_range q k \<Longrightarrow> i < n \<Longrightarrow> j < k \<Longrightarrow> p + of_nat i = q + of_nat j \<longleftrightarrow> unat p + i = unat q + j"
  by (metis in_range_addr unsigned_word_eqI)

text \<open>\<open>moved m' m dst src I\<close>: the destination bytes with an index in \<open>I\<close> are the source bytes in \<open>m\<close>.\<close>

definition moved :: "byte_mem \<Rightarrow> byte_mem \<Rightarrow> u64 \<Rightarrow> u64 \<Rightarrow> nat set \<Rightarrow> bool" where
  "moved m' m dst src I \<longleftrightarrow>
     (\<forall>i \<in> I. m' (dst + of_nat i) = m (src + of_nat i)) \<and>
     (\<forall>a. (\<forall>i \<in> I. a \<noteq> dst + of_nat i) \<longrightarrow> m' a = m a)"

lemma moved_step:
  assumes "moved m' (m(dst + of_nat i := m (src + of_nat i))) dst src I"
    and "\<forall>j \<in> I. src + of_nat j \<noteq> dst + of_nat i \<and> dst + of_nat j \<noteq> dst + of_nat i"
  shows "moved m' m dst src (insert i I)"
  unfolding moved_def
proof (intro conjI ballI allI impI)
  fix k
  assume "k \<in> insert i I"
  then show "m' (dst + of_nat k) = m (src + of_nat k)"
  proof
    assume "k = i"
    moreover have "\<forall>j \<in> I. dst + of_nat i \<noteq> dst + of_nat j" using assms(2) by force
    ultimately show ?thesis using assms(1) by (simp add: moved_def)
  next
    assume "k \<in> I"
    then show ?thesis using assms unfolding moved_def by simp
  qed
next
  fix a
  assume "\<forall>j \<in> insert i I. a \<noteq> dst + of_nat j"
  then show "m' a = m a" using assms(1) by (auto simp: moved_def)
qed

lemma memcpy_from_ok:
  assumes "in_range dst n" "in_range src n" "unat dst \<le> unat src \<or> unat src + n \<le> unat dst"
  shows "moved (memcpy_from m dst src n i) m dst src {i ..< n}"
proof (induction "n - i" arbitrary: i m)
  case 0
  then show ?case by (subst memcpy_from.simps) (simp add: moved_def)
next
  case (Suc k)
  then have i: "i < n" by simp
  let ?m = "m(dst + of_nat i := m (src + of_nat i))"
  have "moved (memcpy_from ?m dst src n (Suc i)) ?m dst src {Suc i ..< n}" using Suc by simp
  then have "moved (memcpy_from ?m dst src n (Suc i)) m dst src (insert i {Suc i ..< n})"
    using in_range_eq [OF assms(2,1) _ i] in_range_eq [OF assms(1,1) _ i] assms(3) i by (intro moved_step) auto
  moreover have "insert i {Suc i ..< n} = {i ..< n}" using i by auto
  ultimately show ?case using i by (subst memcpy_from.simps) simp
qed

lemma move_down_ok:
  assumes "in_range dst k" "in_range src k" "unat src \<le> unat dst" "n \<le> k"
  shows "moved (move_down m dst src n) m dst src {..< n}"
  using assms(4)
proof (induction n arbitrary: m)
  case 0
  then show ?case by (simp add: moved_def)
next
  case (Suc n)
  let ?m = "m(dst + of_nat n := m (src + of_nat n))"
  have n: "n < k" using Suc.prems by simp
  have "moved (move_down ?m dst src n) ?m dst src {..< n}" using Suc by simp
  then have "moved (move_down ?m dst src n) m dst src (insert n {..< n})"
    using in_range_eq [OF assms(2,1) _ n] in_range_eq [OF assms(1,1) _ n] assms(3) n by (intro moved_step) auto
  then show ?case by (simp add: lessThan_Suc)
qed

lemma memset_to_ok:
  assumes "n < 2 ^ 64" "i \<le> n"
  shows "memset_to m (s + of_nat i) (s + of_nat n) c =
    (\<lambda>a. if \<exists>j. i \<le> j \<and> j < n \<and> a = s + of_nat j then c else m a)"
  using assms(2)
proof (induction "n - i" arbitrary: i m)
  case 0
  then show ?case by (subst memset_to.simps) (auto simp: fun_eq_iff)
next
  case (Suc k)
  then have i: "i < n" by simp
  have "s + of_nat i \<noteq> s + of_nat n"
    using i assms(1) unat_of_nat_u64 [of i] unat_of_nat_u64 [of n] by (metis add_left_cancel nat_neq_iff order_less_trans)
  then have "memset_to m (s + of_nat i) (s + of_nat n) c = memset_to (m(s + of_nat i := c)) (s + of_nat (Suc i)) (s + of_nat n) c"
    by (subst memset_to.simps) (simp add: algebra_simps)
  also have "\<dots> = (\<lambda>a. if \<exists>j. Suc i \<le> j \<and> j < n \<and> a = s + of_nat j then c else (m(s + of_nat i := c)) a)"
    using Suc by (intro Suc.hyps(1)) auto
  also have "\<dots> = (\<lambda>a. if \<exists>j. i \<le> j \<and> j < n \<and> a = s + of_nat j then c else m a)"
    using i by (intro ext) (auto simp: Suc_le_eq dest: le_imp_less_or_eq)
  finally show ?case .
qed

lemma memcmp_from_ok:
  "i \<le> n \<Longrightarrow> memcmp_from m a b n i = 0 \<longleftrightarrow> (\<forall>j. i \<le> j \<and> j < n \<longrightarrow> m (a + of_nat j) = m (b + of_nat j))"
proof (induction "n - i" arbitrary: i)
  case 0
  then show ?case by (subst memcmp_from.simps) auto
next
  case (Suc k)
  then have i: "i < n" by simp
  consider "m (a + of_nat i) < m (b + of_nat i)" | "m (b + of_nat i) < m (a + of_nat i)"
    | "m (a + of_nat i) = m (b + of_nat i)" by fastforce
  then show ?case
  proof cases
    case 1
    then have "memcmp_from m a b n i = - 1" using i by (subst memcmp_from.simps) simp
    then show ?thesis using 1 i by auto
  next
    case 2
    then have "memcmp_from m a b n i = 1" using i by (subst memcmp_from.simps) auto
    then show ?thesis using 2 i by auto
  next
    case 3
    then have "memcmp_from m a b n i = memcmp_from m a b n (Suc i)" using i by (subst memcmp_from.simps) simp
    then show ?thesis using Suc i 3 by (auto simp: Suc_le_eq dest: le_imp_less_or_eq)
  qed
qed

lemma memcmp_sign: "memcmp_from m a b n i \<in> {- 1, 0, 1}"
  by (induction m a b n i rule: memcmp_from.induct) (subst memcmp_from.simps, auto)

lemma memchr_from_ok:
  "(\<forall>j < n. m (p + of_nat j) \<noteq> c) \<and> memchr_from m p c n = 0 \<or>
   (\<exists>j < n. m (p + of_nat j) = c \<and> (\<forall>i < j. m (p + of_nat i) \<noteq> c) \<and> memchr_from m p c n = p + of_nat j)"
proof (induction n arbitrary: p)
  case (Suc n)
  show ?case
  proof (cases "m p = c")
    case False
    have sh: "p + 1 + of_nat j = p + of_nat (Suc j)" for j by (simp add: algebra_simps)
    from Suc [of "p + 1"] show ?thesis
    proof (elim disjE exE conjE)
      assume "\<forall>j < n. m (p + 1 + of_nat j) \<noteq> c" "memchr_from m (p + 1) c n = 0"
      then show ?thesis using False unfolding sh by (auto simp: less_Suc_eq_0_disj)
    next
      fix j
      assume "j < n" "m (p + 1 + of_nat j) = c" "\<forall>i < j. m (p + 1 + of_nat i) \<noteq> c"
        "memchr_from m (p + 1) c n = p + 1 + of_nat j"
      then show ?thesis using False unfolding sh by (intro disjI2 exI [of _ "Suc j"]) (auto simp: less_Suc_eq_0_disj)
    qed
  qed auto
qed simp

lemma strlen_from_ok:
  assumes "\<forall>j < k. m (s + of_nat j) \<noteq> 0" "m (s + of_nat k) = 0"
  shows "strlen_from m s len = Some (len + k)"
  using assms
proof (induction k arbitrary: s len)
  case 0
  then show ?case by (simp add: strlen_from.simps)
next
  case (Suc k)
  have sh: "s + 1 + of_nat j = s + of_nat (Suc j)" for j by (simp add: algebra_simps)
  have "m s \<noteq> 0" using Suc.prems(1) by force
  moreover have "strlen_from m (s + 1) (Suc len) = Some (Suc len + k)"
    using Suc.prems by (intro Suc.IH) (auto simp: sh)
  ultimately show ?case by (simp add: strlen_from.simps [of m s])
qed

section \<open>Properties\<close>

text \<open>
  C39. \<^verbatim>\<open>memmove\<close> copies correctly however the two ranges overlap: with neither range wrapping around,
  every destination byte gets the value the corresponding source byte had before the call, and
  no other byte changes.
\<close>

theorem memmove_correct:
  assumes "in_range dst n" and "in_range src n"
  shows "(\<forall>i < n. memmove m dst src n (dst + of_nat i) = m (src + of_nat i)) \<and>
         (\<forall>a. (\<forall>i < n. a \<noteq> dst + of_nat i) \<longrightarrow> memmove m dst src n a = m a)"
proof (cases "dst < src")
  case True
  then show ?thesis using memcpy_from_ok [OF assms, of m 0] by (auto simp: memmove_def moved_def word_less_nat_alt)
next
  case False
  then show ?thesis using move_down_ok [OF assms, of n m] by (auto simp: memmove_def moved_def word_less_nat_alt)
qed

theorem memmove_correct_witness:
  "memmove ((\<lambda>_. 0)(16 := 1, 17 := 2, 18 := 3)) 17 16 3 19 = 3"
  using memmove_correct [of 17 3 16 "(\<lambda>_. 0)(16 := 1, 17 := 2, 18 := 3)"]
  by (auto simp: in_range_def dest: spec [of _ 2])

text \<open>
  The other byte routines meet their specification: \<^verbatim>\<open>memcmp\<close> is zero exactly for equal ranges,
  \<^verbatim>\<open>memset\<close> fills exactly its range, \<^verbatim>\<open>memchr\<close> returns the first match or \<^verbatim>\<open>NULL\<close>, and \<^verbatim>\<open>strlen\<close> on a
  terminated string returns the distance to the terminator.
\<close>

lemma byte_routines_correct:
  "(memcmp m a b n = 0 \<longleftrightarrow> (\<forall>j < n. m (a + of_nat j) = m (b + of_nat j))) \<and>
   (n < 2 ^ 64 \<longrightarrow> memset m s c n = (\<lambda>x. if \<exists>j < n. x = s + of_nat j then of_int c else m x)) \<and>
   ((\<forall>j < n. m (s + of_nat j) \<noteq> of_int c) \<and> memchr m s c n = 0 \<or>
    (\<exists>j < n. m (s + of_nat j) = of_int c \<and> (\<forall>i < j. m (s + of_nat i) \<noteq> of_int c) \<and> memchr m s c n = s + of_nat j)) \<and>
   ((\<forall>j < n. m (s + of_nat j) \<noteq> 0) \<and> m (s + of_nat n) = 0 \<longrightarrow> strlen m s = Some n)"
  using memcmp_from_ok [of 0 n m a b] memset_to_ok [of n 0 m s "of_int c"] memchr_from_ok [of n m s "of_int c"]
    strlen_from_ok [of n m s 0]
  by (simp add: memcmp_def memset_def memchr_def strlen_def)

lemma byte_routines_correct_example:
  "memset (\<lambda>_. 0) 8 (-1) 2 9 = 255 \<and> strlen ((\<lambda>_. 0)(16 := 65, 17 := 66)) 16 = Some 2"
proof
  show "memset (\<lambda>_. 0) 8 (-1) 2 9 = 255"
    using byte_routines_correct [of "\<lambda>_. 0" 0 0 2 8 "-1"] by (auto intro!: exI [of _ 1])
  have "\<forall>j < 2. ((\<lambda>_. 0)(16 := 65, 17 := 66)) (16 + of_nat j :: u64) \<noteq> (0 :: u8)" by (auto simp: less_2_cases_iff)
  then show "strlen ((\<lambda>_. 0)(16 := 65, 17 := 66)) 16 = Some 2"
    using byte_routines_correct [of "(\<lambda>_. 0)(16 := 65, 17 := 66)" 0 0 2 16 0] by auto
qed

end
