(* ===== verification/Sync.thy ===== *)
theory Sync
  imports Prelude "HOL-Library.Monad_Syntax"
begin

text \<open>
  Atomic counters (\<^verbatim>\<open>include/atomic.h\<close>), spin locks (\<^verbatim>\<open>kernel/smp/spin.asm\<close>), reader/writer spin
  locks (\<^verbatim>\<open>include/sync.h\<close>) and mutexes (\<^verbatim>\<open>include/mutex.h\<close>).  A processor runs the lock code one
  atomic memory access at a time; the program points between the accesses are a datatype.
  \<open>spin_lock\<close> alone, on one processor with no other one running, is the iteration of those
  steps, so that a lock nobody releases is a loop that does not end.
\<close>

section \<open>Atomic counters and reference counts\<close>

record atomic32 = var32 :: u32
record atomic64 = var64 :: u64

definition atomic_read32 :: "atomic32 \<Rightarrow> u32" where
  "atomic_read32 a = var32 a"

definition atomic_inc_read32 :: "atomic32 \<Rightarrow> u32 \<times> atomic32" where
  "atomic_inc_read32 a = (let v = var32 a + 1 in (v, a\<lparr>var32 := v\<rparr>))"

definition atomic_dec_read32 :: "atomic32 \<Rightarrow> u32 \<times> atomic32" where
  "atomic_dec_read32 a = (let v = var32 a - 1 in (v, a\<lparr>var32 := v\<rparr>))"

definition atomic_write32 :: "atomic32 \<Rightarrow> u32 \<Rightarrow> atomic32" where
  "atomic_write32 a val = a\<lparr>var32 := val\<rparr>"

definition atomic_read64 :: "atomic64 \<Rightarrow> u64" where
  "atomic_read64 a = var64 a"

definition atomic_inc_read64 :: "atomic64 \<Rightarrow> u64 \<times> atomic64" where
  "atomic_inc_read64 a = (let v = var64 a + 1 in (v, a\<lparr>var64 := v\<rparr>))"

definition atomic_dec_read64 :: "atomic64 \<Rightarrow> u64 \<times> atomic64" where
  "atomic_dec_read64 a = (let v = var64 a - 1 in (v, a\<lparr>var64 := v\<rparr>))"

definition atomic_write64 :: "atomic64 \<Rightarrow> u32 \<Rightarrow> atomic64" where
  "atomic_write64 a val = a\<lparr>var64 := unsigned val\<rparr>"

type_synonym kref = atomic32

definition kref_inc :: "kref \<Rightarrow> kref" where "kref_inc k = snd (atomic_inc_read32 k)"
definition kref_dec :: "kref \<Rightarrow> kref" where "kref_dec k = snd (atomic_dec_read32 k)"
definition kref_inc_read :: "kref \<Rightarrow> u32 \<times> kref" where "kref_inc_read k = atomic_inc_read32 k"
definition kref_dec_read :: "kref \<Rightarrow> u32 \<times> kref" where "kref_dec_read k = atomic_dec_read32 k"
definition kref_read :: "kref \<Rightarrow> u32" where "kref_read k = atomic_read32 k"

section \<open>Spin locks\<close>

text \<open>\<open>lock inc dword [gs:0x18]\<close> and its counterpart, on the low half of \<^verbatim>\<open>preempt_count\<close>.\<close>

definition preempt_inc :: "u32 \<Rightarrow> u32" where "preempt_inc n = n + 1"
definition preempt_dec :: "u32 \<Rightarrow> u32" where "preempt_dec n = n - 1"

text \<open>The program points of \<open>spin_lock\<close>, with the register \<open>rax\<close> where it is live.\<close>

datatype spin_pc = Sp_enter | Sp_xchg | Sp_retry u64 | Sp_again u64

text \<open>One access: \<open>None\<close> is the return from \<open>spin_lock\<close>.\<close>

fun spin_step :: "spin_pc \<Rightarrow> u64 \<Rightarrow> u32 \<Rightarrow> spin_pc option \<times> u64 \<times> u32" where
  "spin_step Sp_enter l p = (Some Sp_xchg, l, preempt_inc p)"
| "spin_step Sp_xchg l p = (if l = 0 then None else Some (Sp_retry l), 1, p)"
| "spin_step (Sp_retry rax) l p = (Some (if bit l 0 then Sp_retry rax else Sp_again rax), l, p)"
| "spin_step (Sp_again rax) l p = (if l = 0 then None else Some (Sp_retry l), rax, p)"

definition spin_unlock :: "u64 \<Rightarrow> u32 \<Rightarrow> u64 \<times> u32" where
  "spin_unlock l p = (0, preempt_dec p)"

definition spin_try_lock :: "u64 \<Rightarrow> u32 \<Rightarrow> bool \<times> u64 \<times> u32" where
  "spin_try_lock l p =
     (if l = 0 then (True, 1, preempt_inc p) else (False, 1, preempt_dec (preempt_inc p)))"

definition spin_init :: "u64 \<Rightarrow> u64" where "spin_init l = 0"

partial_function (option) spin_run :: "spin_pc \<Rightarrow> u64 \<Rightarrow> u32 \<Rightarrow> (u64 \<times> u32) option" where
  "spin_run pc l p =
     (case spin_step pc l p of
        (None, l', p') \<Rightarrow> Some (l', p')
      | (Some pc', l', p') \<Rightarrow> spin_run pc' l' p')"

definition spin_lock :: "u64 \<Rightarrow> u32 \<Rightarrow> (u64 \<times> u32) option" where
  "spin_lock l p = spin_run Sp_enter l p"

text \<open>With the interrupt flag: bit 9 of the flags register.\<close>

record processor =
  preempt_count :: u32
  rflags :: u64

definition cli :: "processor \<Rightarrow> processor" where
  "cli c = c\<lparr>rflags := unset_bit 9 (rflags c)\<rparr>"

definition spin_lock_irqsave :: "u64 \<Rightarrow> processor \<Rightarrow> (u64 \<times> processor \<times> u64) option" where
  "spin_lock_irqsave l c = do {
     let saved = rflags c;
     let c = cli c;
     (l', p') \<leftarrow> spin_lock l (preempt_count c);
     Some (l', c\<lparr>preempt_count := p'\<rparr>, saved) }"

definition spin_unlock_irqsave :: "u64 \<Rightarrow> processor \<Rightarrow> u64 \<Rightarrow> u64 \<times> processor" where
  "spin_unlock_irqsave l c saved =
     (let (l', p') = spin_unlock l (preempt_count c) in
      (l', c\<lparr>preempt_count := p', rflags := saved\<rparr>))"

record mutex = lock :: u64

definition mutex_lock :: "mutex \<Rightarrow> u32 \<Rightarrow> (mutex \<times> u32) option" where
  "mutex_lock m p = do { (l, p') \<leftarrow> spin_lock (lock m) p; Some (m\<lparr>lock := l\<rparr>, p') }"

definition mutex_unlock :: "mutex \<Rightarrow> u32 \<Rightarrow> mutex \<times> u32" where
  "mutex_unlock m p = (let (l, p') = spin_unlock (lock m) p in (m\<lparr>lock := l\<rparr>, p'))"

text \<open>A free lock is taken; a taken one is waited for without end, as nobody else runs.\<close>

lemma spin_lock_free [simp]: "spin_lock 0 p = Some (1, p + 1)"
  by (simp add: spin_lock_def spin_run.simps preempt_inc_def)

lemma spin_run_taken: "spin_run pc l p = Some r \<Longrightarrow> pc = Sp_retry rax \<longrightarrow> \<not> bit l 0"
proof (induction rule: spin_run.raw_induct [rotated 1, consumes 1])
  case (1 f pc l p r)
  then show ?case by (cases r) (fastforce split: prod.splits option.splits)
qed

lemma spin_lock_taken [simp]: "spin_lock 1 p = None"
proof (rule ccontr)
  assume "spin_lock 1 p \<noteq> None"
  then obtain r where "spin_run (Sp_retry 1) 1 (p + 1) = Some r"
    by (auto simp: spin_lock_def preempt_inc_def spin_run.simps [of Sp_enter]
        spin_run.simps [of Sp_xchg])
  then show False using spin_run_taken [of "Sp_retry 1" 1 "p + 1" r 1] by simp
qed

section \<open>Reader/writer spin locks\<close>

record rwspinlock =
  readers :: atomic64
  rd_lock :: u64
  wr_lock :: u64

text \<open>
  The program points of a processor that uses the lock: outside, inside as a reader or as the
  writer, and every access of \<open>read_spin_lock\<close>, \<open>read_spin_unlock\<close>, \<open>write_spin_lock\<close> and
  \<open>write_spin_unlock\<close>.
\<close>

datatype rw_pc =
    Outside
  | Rl_rd spin_pc | Rl_inc | Rl_wr spin_pc | Rl_preempt | Rl_unlock | Rl_unlock_dec
  | Reading
  | Ru_rd spin_pc | Ru_dec | Ru_wr | Ru_wr_dec | Ru_preempt | Ru_unlock | Ru_unlock_dec
  | Wl_wr spin_pc
  | Writing
  | Wu_wr | Wu_wr_dec

fun read_spin_lock_step :: "rw_pc \<Rightarrow> rwspinlock \<Rightarrow> u32 \<Rightarrow> rw_pc \<times> rwspinlock \<times> u32" where
  "read_spin_lock_step (Rl_rd s) k p =
     (let (s', l, p') = spin_step s (rd_lock k) p in
      (case s' of None \<Rightarrow> Rl_inc | Some s' \<Rightarrow> Rl_rd s', k\<lparr>rd_lock := l\<rparr>, p'))"
| "read_spin_lock_step Rl_inc k p =
     (let (n, a) = atomic_inc_read64 (readers k) in
      (if n = 1 then Rl_wr Sp_enter else Rl_preempt, k\<lparr>readers := a\<rparr>, p))"
| "read_spin_lock_step (Rl_wr s) k p =
     (let (s', l, p') = spin_step s (wr_lock k) p in
      (case s' of None \<Rightarrow> Rl_preempt | Some s' \<Rightarrow> Rl_wr s', k\<lparr>wr_lock := l\<rparr>, p'))"
| "read_spin_lock_step Rl_preempt k p = (Rl_unlock, k, preempt_inc p)"
| "read_spin_lock_step Rl_unlock k p = (Rl_unlock_dec, k\<lparr>rd_lock := 0\<rparr>, p)"
| "read_spin_lock_step Rl_unlock_dec k p = (Reading, k, preempt_dec p)"
| "read_spin_lock_step pc k p = (pc, k, p)"

fun read_spin_unlock_step :: "rw_pc \<Rightarrow> rwspinlock \<Rightarrow> u32 \<Rightarrow> rw_pc \<times> rwspinlock \<times> u32" where
  "read_spin_unlock_step (Ru_rd s) k p =
     (let (s', l, p') = spin_step s (rd_lock k) p in
      (case s' of None \<Rightarrow> Ru_dec | Some s' \<Rightarrow> Ru_rd s', k\<lparr>rd_lock := l\<rparr>, p'))"
| "read_spin_unlock_step Ru_dec k p =
     (let (n, a) = atomic_dec_read64 (readers k) in
      (if n = 0 then Ru_wr else Ru_preempt, k\<lparr>readers := a\<rparr>, p))"
| "read_spin_unlock_step Ru_wr k p = (Ru_wr_dec, k\<lparr>wr_lock := 0\<rparr>, p)"
| "read_spin_unlock_step Ru_wr_dec k p = (Ru_preempt, k, preempt_dec p)"
| "read_spin_unlock_step Ru_preempt k p = (Ru_unlock, k, preempt_dec p)"
| "read_spin_unlock_step Ru_unlock k p = (Ru_unlock_dec, k\<lparr>rd_lock := 0\<rparr>, p)"
| "read_spin_unlock_step Ru_unlock_dec k p = (Outside, k, preempt_dec p)"
| "read_spin_unlock_step pc k p = (pc, k, p)"

fun write_spin_lock_step :: "rw_pc \<Rightarrow> rwspinlock \<Rightarrow> u32 \<Rightarrow> rw_pc \<times> rwspinlock \<times> u32" where
  "write_spin_lock_step (Wl_wr s) k p =
     (let (s', l, p') = spin_step s (wr_lock k) p in
      (case s' of None \<Rightarrow> Writing | Some s' \<Rightarrow> Wl_wr s', k\<lparr>wr_lock := l\<rparr>, p'))"
| "write_spin_lock_step pc k p = (pc, k, p)"

fun write_spin_unlock_step :: "rw_pc \<Rightarrow> rwspinlock \<Rightarrow> u32 \<Rightarrow> rw_pc \<times> rwspinlock \<times> u32" where
  "write_spin_unlock_step Wu_wr k p = (Wu_wr_dec, k\<lparr>wr_lock := 0\<rparr>, p)"
| "write_spin_unlock_step Wu_wr_dec k p = (Outside, k, preempt_dec p)"
| "write_spin_unlock_step pc k p = (pc, k, p)"

text \<open>The machine: the lock, and the program point and preemption count of every processor.\<close>

record machine =
  rwlock :: rwspinlock
  pcs :: "nat \<Rightarrow> rw_pc"
  preempt :: "nat \<Rightarrow> u32"

definition put :: "rw_pc \<Rightarrow> rwspinlock \<Rightarrow> u32 \<Rightarrow> nat \<Rightarrow> machine \<Rightarrow> machine" where
  "put pc k p i s = s\<lparr>rwlock := k, pcs := (pcs s)(i := pc), preempt := (preempt s)(i := p)\<rparr>"

definition advance :: "(rw_pc \<Rightarrow> rwspinlock \<Rightarrow> u32 \<Rightarrow> rw_pc \<times> rwspinlock \<times> u32) \<Rightarrow> nat \<Rightarrow> machine \<Rightarrow> machine" where
  "advance f i s =
     (let (pc, k, p) = f (pcs s i) (rwlock s) (preempt s i) in put pc k p i s)"

definition goto :: "rw_pc \<Rightarrow> nat \<Rightarrow> machine \<Rightarrow> machine" where
  "goto pc i s = put pc (rwlock s) (preempt s i) i s"

text \<open>
  The next access of processor \<open>i\<close>.  Outside, it may call \<open>read_spin_lock\<close> or
  \<open>write_spin_lock\<close>; inside, it may call the matching unlock.
\<close>

inductive rw_step :: "nat \<Rightarrow> machine \<Rightarrow> machine \<Rightarrow> bool" for n where
  call_read: "\<lbrakk> i < n; pcs s i = Outside \<rbrakk> \<Longrightarrow> rw_step n s (goto (Rl_rd Sp_enter) i s)"
| call_write: "\<lbrakk> i < n; pcs s i = Outside \<rbrakk> \<Longrightarrow> rw_step n s (goto (Wl_wr Sp_enter) i s)"
| leave_read: "\<lbrakk> i < n; pcs s i = Reading \<rbrakk> \<Longrightarrow> rw_step n s (goto (Ru_rd Sp_enter) i s)"
| leave_write: "\<lbrakk> i < n; pcs s i = Writing \<rbrakk> \<Longrightarrow> rw_step n s (goto Wu_wr i s)"
| read_lock: "i < n \<Longrightarrow> rw_step n s (advance read_spin_lock_step i s)"
| read_unlock: "i < n \<Longrightarrow> rw_step n s (advance read_spin_unlock_step i s)"
| write_lock: "i < n \<Longrightarrow> rw_step n s (advance write_spin_lock_step i s)"
| write_unlock: "i < n \<Longrightarrow> rw_step n s (advance write_spin_unlock_step i s)"

definition rw_init :: machine where
  "rw_init = \<lparr>rwlock = \<lparr>readers = \<lparr>var64 = 0\<rparr>, rd_lock = 0, wr_lock = 0\<rparr>,
     pcs = (\<lambda>i. Outside), preempt = (\<lambda>i. 0)\<rparr>"

inductive rw_reachable :: "nat \<Rightarrow> machine \<Rightarrow> bool" for n where
  start: "rw_reachable n rw_init"
| step: "\<lbrakk> rw_reachable n s; rw_step n s s' \<rbrakk> \<Longrightarrow> rw_reachable n s'"

end
