(* ===== verification/Kprintf.thy ===== *)
theory Kprintf
  imports Sync
begin

text \<open>
  The formatted output of \<^verbatim>\<open>libk/kprintf.c\<close>.  What \<^verbatim>\<open>kprintf_write_char\<close> sends to the serial port and
  the screen is the string of characters written so far; the arguments are a list of 64-bit
  slots and strings.  The digit loop is a partial function, since it does not end for every
  base; the buffer of \<^verbatim>\<open>atoi_print\<close> is the list of digits above \<^verbatim>\<open>p_buf\<close>, and writing below its
  start is a fault.
\<close>

section \<open>Numbers\<close>

definition ATOI_BUFLEN :: nat where "ATOI_BUFLEN = 256"

definition digit_to_char :: "nat \<Rightarrow> char outcome" where
  "digit_to_char digit = (if digit < 16 then Inr (''0123456789ABCDEF'' ! digit) else Inl Panic)"

definition put_digit :: "nat \<Rightarrow> string \<Rightarrow> string outcome" where
  "put_digit digit buf =
     obind (digit_to_char digit) (\<lambda>c.
       if length buf < ATOI_BUFLEN - 1 then Inr (c # buf) else Inl Out_of_bounds)"

partial_function (option) digit_loop :: "nat \<Rightarrow> nat \<Rightarrow> string \<Rightarrow> string outcome option" where
  "digit_loop base n buf =
     (if n = 0 then Some (Inr buf)
      else if base = 0 then Some (Inl Panic)
      else case put_digit (n mod base) buf of
             Inl e \<Rightarrow> Some (Inl e)
           | Inr buf' \<Rightarrow> digit_loop base (n div base) buf')"

text \<open>Both results of a call: the characters written and the count returned.\<close>

type_synonym printed = "(string \<times> nat) outcome"

definition atoi_print :: "u64 \<Rightarrow> bool \<Rightarrow> nat \<Rightarrow> printed option" where
  "atoi_print num sign base =
     (let pre = (if base = 16 then ''0x'' else '''') in
      if num = 0 then Some (Inr (pre @ ''0'', 1))
      else if sign then
        (if sint num < 0 then
           (if sint num = - (2 ^ 63) then Some (Inl Panic)
            else do {
              r \<leftarrow> digit_loop base (nat (- sint num)) [];
              Some (obind r (\<lambda>buf. Inr (pre @ ''-'' @ buf, 1 + length buf))) })
         else do {
           r \<leftarrow> digit_loop base (nat (sint num)) [];
           Some (obind r (\<lambda>buf. Inr (pre @ buf, length buf))) })
      else do {
        r \<leftarrow> digit_loop base (unat num) [];
        Some (obind r (\<lambda>buf. Inr (pre @ buf, length buf))) })"

section \<open>Format strings\<close>

datatype arg = Slot u64 | Str "string option"

definition to_hex_char :: "nat \<Rightarrow> char" where
  "to_hex_char x = (if x < 10 then char_of (x + 48) else char_of (x - 10 + 65))"

fun hex_digits :: "nat \<Rightarrow> nat \<Rightarrow> string \<Rightarrow> string" where
  "hex_digits 0 ptr buf = buf"
| "hex_digits (Suc k) ptr buf = hex_digits k (ptr div 16) (to_hex_char (ptr mod 16) # buf)"

fun next_arg :: "arg list \<Rightarrow> (arg \<times> arg list) outcome" where
  "next_arg [] = Inl Out_of_bounds"
| "next_arg (a # as) = Inr (a, as)"

definition slot_value :: "arg \<Rightarrow> u64 outcome" where
  "slot_value a = (case a of Slot w \<Rightarrow> Inr w | Str s \<Rightarrow> Inl Out_of_bounds)"

definition int_arg :: "u64 \<Rightarrow> u64" where
  "int_arg w = signed (ucast w :: u32)"

definition uint_arg :: "u64 \<Rightarrow> u64" where
  "uint_arg w = unsigned (ucast w :: u32)"

text \<open>One conversion for a single argument: the value, and how it is printed.\<close>

definition print_slot :: "(u64 \<Rightarrow> u64) \<Rightarrow> bool \<Rightarrow> nat \<Rightarrow> arg list \<Rightarrow> (arg list \<times> printed) option" where
  "print_slot conv sign base args =
     (case obind (next_arg args) (\<lambda>(a, rest). obind (slot_value a) (\<lambda>w. Inr (w, rest))) of
        Inl e \<Rightarrow> Some (args, Inl e)
      | Inr (w, rest) \<Rightarrow> do { r \<leftarrow> atoi_print (conv w) sign base; Some (rest, r) })"

definition print_long :: "char \<Rightarrow> arg list \<Rightarrow> (arg list \<times> printed) option" where
  "print_long c args =
     (if c = CHR ''d'' \<or> c = CHR ''i'' then print_slot id True 10 args
      else if c = CHR ''u'' then print_slot id False 10 args
      else if c = CHR ''x'' then print_slot id False 16 args
      else Some (args, Inr ('''', 0)))"

definition at_char :: "string \<Rightarrow> nat \<Rightarrow> char" where
  "at_char fmt i = (if i < length fmt then fmt ! i else CHR 0x00)"

text \<open>
  The conversion behind a \<^verbatim>\<open>%\<close>: the arguments left, what is printed, and the number of
  characters of the format that the conversion takes.
\<close>

definition conversion :: "string \<Rightarrow> arg list \<Rightarrow> (arg list \<times> printed \<times> nat) option" where
  "conversion fmt args =
     (let c = at_char fmt 1; wrap = (\<lambda>k r. do { (as, p) \<leftarrow> r; Some (as, p, k) }) in
      if c = CHR ''%'' then Some (args, Inr (''%'', 1), 2)
      else if c = CHR ''c'' then
        (case obind (next_arg args) (\<lambda>(a, rest). obind (slot_value a) (\<lambda>w. Inr (w, rest))) of
           Inl e \<Rightarrow> Some (args, Inl e, 2)
         | Inr (w, rest) \<Rightarrow> Some (rest, Inr ([char_of (unat (ucast w :: u8))], 1), 2))
      else if c = CHR ''s'' then
        (case args of
           Str (Some s) # rest \<Rightarrow> Some (rest, Inr (s, length s), 2)
         | Str None # rest \<Rightarrow> Some (rest, Inr (''(null)'', 6), 2)
         | _ \<Rightarrow> Some (args, Inl Out_of_bounds, 2))
      else if c = CHR ''p'' then
        (case obind (next_arg args) (\<lambda>(a, rest). obind (slot_value a) (\<lambda>w. Inr (w, rest))) of
           Inl e \<Rightarrow> Some (args, Inl e, 2)
         | Inr (w, rest) \<Rightarrow> Some (rest, Inr (''0x'' @ hex_digits 16 (unat w) [], 18), 2))
      else if c = CHR ''l'' then
        (if at_char fmt 2 = CHR ''l'' then wrap 4 (print_long (at_char fmt 3) args)
         else wrap 3 (print_long (at_char fmt 2) args))
      else if c = CHR ''z'' then wrap 3 (print_long (at_char fmt 2) args)
      else if c = CHR ''i'' \<or> c = CHR ''d'' then wrap 2 (print_slot int_arg True 10 args)
      else if c = CHR ''u'' then wrap 2 (print_slot uint_arg False 10 args)
      else if c = CHR ''x'' then wrap 2 (print_slot uint_arg False 16 args)
      else Some (args, Inl Panic, 2))"

partial_function (option) kvprintf :: "string \<Rightarrow> arg list \<Rightarrow> string \<Rightarrow> nat \<Rightarrow> printed option" where
  "kvprintf fmt args out nwritten =
     (if at_char fmt 0 = CHR 0x00 then Some (Inr (out, nwritten))
      else if at_char fmt 0 = CHR ''%'' then do {
        (rest, p, k) \<leftarrow> conversion fmt args;
        (case p of
           Inl e \<Rightarrow> Some (Inl e)
         | Inr (s, n) \<Rightarrow>
             if length fmt < k then Some (Inl Out_of_bounds)
             else kvprintf (drop k fmt) rest (out @ s) (nwritten + n + 1)) }
      else kvprintf (drop 1 fmt) args (out @ [at_char fmt 0]) nwritten)"

text \<open>
  With the lock of the console.  A panic while the format is processed first takes the same
  lock (macro \<^verbatim>\<open>panic\<close> of \<^verbatim>\<open>include/libk.h\<close>), which the processor may already hold.
\<close>

definition raise_fault :: "fault \<Rightarrow> u64 \<Rightarrow> u32 \<Rightarrow> fault option" where
  "raise_fault e l p =
     (if e = Panic then do { (l', p') \<leftarrow> spin_lock l p; Some e } else Some e)"

definition kprintf_nolock ::
  "string \<Rightarrow> arg list \<Rightarrow> u64 \<Rightarrow> processor \<Rightarrow> ((string \<times> nat) \<times> u64 \<times> processor) outcome option" where
  "kprintf_nolock fmt args l c = (
     let (locked, l', p) = spin_try_lock l (preempt_count c) in do {
     r \<leftarrow> kvprintf fmt args '''' 0;
     (case r of
        Inl e \<Rightarrow> map_option Inl (raise_fault e l' p)
      | Inr w \<Rightarrow>
          if locked then
            let (l'', p') = spin_unlock l' p in Some (Inr (w, l'', c\<lparr>preempt_count := p'\<rparr>))
          else Some (Inr (w, l', c\<lparr>preempt_count := p\<rparr>))) })"

definition kprintf ::
  "string \<Rightarrow> arg list \<Rightarrow> u64 \<Rightarrow> processor \<Rightarrow> ((string \<times> nat) \<times> u64 \<times> processor) outcome option" where
  "kprintf fmt args l c = do {
     (l', c', saved) \<leftarrow> spin_lock_irqsave l c;
     r \<leftarrow> kvprintf fmt args '''' 0;
     (case r of
        Inl e \<Rightarrow> map_option Inl (raise_fault e l' (preempt_count c'))
      | Inr w \<Rightarrow> let (l'', c'') = spin_unlock_irqsave l' c' saved in Some (Inr (w, l'', c''))) }"

section \<open>The numbers that are printed\<close>

fun digit_string :: "nat \<Rightarrow> nat \<Rightarrow> string" where
  "digit_string base n =
     (if n = 0 \<or> base < 2 then [] else digit_string base (n div base) @ [''0123456789ABCDEF'' ! (n mod base)])"

declare digit_string.simps [simp del]

definition digit_value :: "char \<Rightarrow> nat" where
  "digit_value c = (let k = of_char c in if k < 58 then k - 48 else k - 55)"

definition string_value :: "nat \<Rightarrow> string \<Rightarrow> nat" where
  "string_value base s = foldl (\<lambda>v c. v * base + digit_value c) 0 s"

definition number :: "nat \<Rightarrow> nat \<Rightarrow> string" where
  "number base n = (if n = 0 then ''0'' else digit_string base n)"

definition int_number :: "int \<Rightarrow> string" where
  "int_number i = (if i < 0 then CHR ''-'' # number 10 (nat (- i)) else number 10 (nat i))"

lemma digit_chars: "d < 16 \<Longrightarrow> digit_value (''0123456789ABCDEF'' ! d) = d"
proof -
  have "\<forall>d \<in> set [0..<16]. digit_value (''0123456789ABCDEF'' ! d) = d" by code_simp
  then show "d < 16 \<Longrightarrow> digit_value (''0123456789ABCDEF'' ! d) = d" by simp
qed

lemma digit_string_value: "2 \<le> base \<Longrightarrow> base \<le> 16 \<Longrightarrow> string_value base (digit_string base n) = n"
proof (induction base n rule: digit_string.induct)
  case (1 base n)
  have d: "n mod base < 16" using 1(2,3) mod_less_divisor [of base n] by linarith
  show ?case
  proof (cases "n = 0")
    case True
    then show ?thesis by (simp add: digit_string.simps string_value_def)
  next
    case False
    then show ?thesis using 1 digit_chars [OF d]
      by (simp add: digit_string.simps [of base n] string_value_def)
  qed
qed

lemma digit_string_length: "2 \<le> base \<Longrightarrow> n < base ^ k \<Longrightarrow> length (digit_string base n) \<le> k"
proof (induction k arbitrary: n)
  case (Suc k)
  then have "n div base < base ^ k" by (simp add: less_mult_imp_div_less mult.commute)
  then show ?case using Suc by (simp add: digit_string.simps [of base n])
qed (simp add: digit_string.simps)

lemma digit_string_hd:
  "\<lbrakk> 2 \<le> base; base \<le> 16; 0 < n \<rbrakk> \<Longrightarrow> digit_string base n \<noteq> [] \<and> hd (digit_string base n) \<noteq> CHR ''0''"
proof (induction base n rule: digit_string.induct)
  case (1 base n)
  show ?case
  proof (cases "n < base")
    case True
    have "digit_value (''0123456789ABCDEF'' ! n) \<noteq> 0" using 1(3,4) True digit_chars [of n] by linarith
    then show ?thesis using 1 True
      by (auto simp: digit_string.simps [of base n] digit_string.simps [of base 0] digit_value_def)
  next
    case False
    then have "0 < n div base" using 1(2) div_greater_zero_iff by simp
    then show ?thesis using 1 by (simp add: digit_string.simps [of base n])
  qed
qed

lemma digit_loop_string:
  assumes "2 \<le> base" "base \<le> 16"
  shows "length (digit_string base n) + length buf < ATOI_BUFLEN \<Longrightarrow>
    digit_loop base n buf = Some (Inr (digit_string base n @ buf))"
proof (induction n arbitrary: buf rule: less_induct)
  case (less n)
  have d: "n mod base < 16" using assms mod_less_divisor [of base n] by linarith
  show ?case
  proof (cases "n = 0")
    case True
    then show ?thesis by (simp add: digit_loop.simps digit_string.simps)
  next
    case False
    let ?c = "''0123456789ABCDEF'' ! (n mod base)"
    have s: "digit_string base n = digit_string base (n div base) @ [?c]"
      using False assms by (simp add: digit_string.simps [of base n])
    have "digit_loop base (n div base) (?c # buf) =
        Some (Inr (digit_string base (n div base) @ ?c # buf))"
      using less False assms s by simp
    moreover have "put_digit (n mod base) buf = Inr (?c # buf)"
      using d less.prems s by (simp add: put_digit_def digit_to_char_def)
    ultimately show ?thesis using False assms s by (simp add: digit_loop.simps [of base n])
  qed
qed

lemma digit_loop_u64:
  assumes "base = 10 \<or> base = 16" "n < 2 ^ 64"
  shows "digit_loop base n [] = Some (Inr (digit_string base n))"
    and "length (digit_string base n) \<le> 20"
proof -
  have "n < base ^ 20" using assms by auto
  then show l: "length (digit_string base n) \<le> 20" using assms(1) digit_string_length by auto
  then show "digit_loop base n [] = Some (Inr (digit_string base n))"
    using assms(1) digit_loop_string [of base n "[]"] by (auto simp: ATOI_BUFLEN_def)
qed

definition hex_prefix :: "nat \<Rightarrow> string" where
  "hex_prefix base = (if base = 16 then ''0x'' else '''')"

lemma atoi_print_unsigned:
  assumes "base = 10 \<or> base = 16"
  shows "atoi_print num False base =
    Some (Inr (hex_prefix base @ number base (unat num), length (number base (unat num))))"
  using digit_loop_u64 [OF assms, of "unat num"]
  by (auto simp: atoi_print_def hex_prefix_def number_def unat_eq_zero)

lemma sint_bounds: "- (2 ^ 63) \<le> sint (w :: u64)" "sint w < 2 ^ 63"
  using sint_ge [of w] sint_lt [of w] by simp_all

lemma atoi_print_signed:
  assumes "sint num \<noteq> - (2 ^ 63)"
  shows "atoi_print num True 10 = Some (Inr (int_number (sint num), length (int_number (sint num))))"
proof (cases "num = 0")
  case True
  then show ?thesis by (simp add: atoi_print_def int_number_def number_def)
next
  case False
  have z: "sint num \<noteq> 0" using False by (simp add: signed_eq_0_iff)
  have "nat (- sint num) < 2 ^ 64" "nat (sint num) < 2 ^ 64" using sint_bounds [of num] by auto
  note d = digit_loop_u64(1) [of 10, OF _ this(1), simplified] digit_loop_u64(1) [of 10, OF _ this(2), simplified]
  show ?thesis using False z assms d
    by (cases "sint num < 0") (simp_all add: atoi_print_def int_number_def number_def)
qed

lemma int_arg_sint [simp]: "sint (int_arg w) = sint (ucast w :: u32)"
proof -
  have "- (2 ^ 31) \<le> sint (ucast w :: u32)" "sint (ucast w :: u32) < 2 ^ 31"
    using sint_ge [of "ucast w :: u32"] sint_lt [of "ucast w :: u32"] by simp_all
  then show ?thesis
    by (simp add: int_arg_def signed_scast_eq) (rule signed_take_bit_int_eq_self; simp)
qed

lemma int_arg_small: "sint (int_arg w) \<noteq> - (2 ^ 63)"
proof -
  have "- (2 ^ 31) \<le> sint (ucast w :: u32)" using sint_ge [of "ucast w :: u32"] by simp
  then show ?thesis by simp
qed

definition padded_hex :: "nat \<Rightarrow> nat \<Rightarrow> string" where
  "padded_hex k n = replicate (k - length (digit_string 16 n)) CHR ''0'' @ digit_string 16 n"

lemma to_hex_char_digit: "d < 16 \<Longrightarrow> to_hex_char d = ''0123456789ABCDEF'' ! d"
proof -
  have "\<forall>d \<in> set [0..<16]. to_hex_char d = ''0123456789ABCDEF'' ! d" by code_simp
  then show "d < 16 \<Longrightarrow> to_hex_char d = ''0123456789ABCDEF'' ! d" by simp
qed

lemma hex_digits_padded: "n < 16 ^ k \<Longrightarrow> hex_digits k n buf = padded_hex k n @ buf"
proof (induction k arbitrary: n buf)
  case (Suc k)
  have "n div 16 < 16 ^ k" using Suc.prems by (simp add: less_mult_imp_div_less mult.commute)
  moreover have "length (digit_string 16 (n div 16)) \<le> k"
    using digit_string_length [of 16 "n div 16" k] calculation by simp
  ultimately show ?case using Suc.IH [of "n div 16"] to_hex_char_digit [of "n mod 16"]
    by (cases "n = 0")
      (simp_all add: padded_hex_def digit_string.simps [of 16 n] digit_string.simps [of 16 0]
        replicate_append_same Suc_diff_le)
qed (simp add: padded_hex_def digit_string.simps)

section \<open>Format strings, by their pieces\<close>

datatype modifier = Mod_l | Mod_ll | Mod_z

datatype piece =
    Text string | Percent | Character u8 | String "string option" | Pointer u64
  | Sint u64 | Uint u64 | Hex u64
  | Long modifier u64 | Ulong modifier u64 | Lhex modifier u64

fun modifier_format :: "modifier \<Rightarrow> string" where
  "modifier_format Mod_l = ''l''"
| "modifier_format Mod_ll = ''ll''"
| "modifier_format Mod_z = ''z''"

fun piece_format :: "piece \<Rightarrow> string" where
  "piece_format (Text s) = s"
| "piece_format Percent = ''%%''"
| "piece_format (Character c) = ''%c''"
| "piece_format (String s) = ''%s''"
| "piece_format (Pointer w) = ''%p''"
| "piece_format (Sint w) = ''%d''"
| "piece_format (Uint w) = ''%u''"
| "piece_format (Hex w) = ''%x''"
| "piece_format (Long m w) = ''%'' @ modifier_format m @ ''d''"
| "piece_format (Ulong m w) = ''%'' @ modifier_format m @ ''u''"
| "piece_format (Lhex m w) = ''%'' @ modifier_format m @ ''x''"

fun piece_args :: "piece \<Rightarrow> arg list" where
  "piece_args (Text s) = []"
| "piece_args Percent = []"
| "piece_args (Character c) = [Slot (ucast c)]"
| "piece_args (String s) = [Str s]"
| "piece_args (Pointer w) = [Slot w]"
| "piece_args (Sint w) = [Slot w]"
| "piece_args (Uint w) = [Slot w]"
| "piece_args (Hex w) = [Slot w]"
| "piece_args (Long m w) = [Slot w]"
| "piece_args (Ulong m w) = [Slot w]"
| "piece_args (Lhex m w) = [Slot w]"

fun piece_output :: "piece \<Rightarrow> string" where
  "piece_output (Text s) = s"
| "piece_output Percent = ''%''"
| "piece_output (Character c) = [char_of (unat c)]"
| "piece_output (String s) = (case s of None \<Rightarrow> ''(null)'' | Some s \<Rightarrow> s)"
| "piece_output (Pointer w) = ''0x'' @ padded_hex 16 (unat w)"
| "piece_output (Sint w) = int_number (sint (ucast w :: u32))"
| "piece_output (Uint w) = number 10 (unat (ucast w :: u32))"
| "piece_output (Hex w) = ''0x'' @ number 16 (unat (ucast w :: u32))"
| "piece_output (Long m w) = int_number (sint w)"
| "piece_output (Ulong m w) = number 10 (unat w)"
| "piece_output (Lhex m w) = ''0x'' @ number 16 (unat w)"

text \<open>What a piece adds to the returned count: one too many, and nothing for plain text.\<close>

fun piece_count :: "piece \<Rightarrow> nat" where
  "piece_count (Text s) = 0"
| "piece_count (Hex w) = length (piece_output (Hex w)) - 1"
| "piece_count (Lhex m w) = length (piece_output (Lhex m w)) - 1"
| "piece_count p = length (piece_output p) + 1"

text \<open>Plain text has no percent sign and no null character.  The negation of the smallest signed value overflows.\<close>

fun piece_wf :: "piece \<Rightarrow> bool" where
  "piece_wf (Text s) = (\<forall>c \<in> set s. c \<noteq> CHR ''%'' \<and> c \<noteq> CHR 0x00)"
| "piece_wf p = True"

fun overflows :: "piece \<Rightarrow> bool" where
  "overflows (Long m w) = (sint w = - (2 ^ 63))"
| "overflows p = False"

abbreviation piece_ok :: "piece \<Rightarrow> bool" where
  "piece_ok p \<equiv> piece_wf p \<and> \<not> overflows p"

lemma kvprintf_text:
  "\<forall>c \<in> set s. c \<noteq> CHR ''%'' \<and> c \<noteq> CHR 0x00 \<Longrightarrow>
    kvprintf (s @ rest) args out n = kvprintf rest args (out @ s) n"
proof (induction s arbitrary: out)
  case (Cons c s)
  then show ?case by (simp add: kvprintf.simps [of "c # _"] at_char_def)
qed simp

lemma length_padded_hex: "length (padded_hex 16 (unat (w :: u64))) = 16"
  using digit_string_length [of 16 "unat w" 16] by (simp add: padded_hex_def)

lemma ucast_uint_arg: "unat (uint_arg w) = unat (ucast w :: u32)"
  by (simp add: uint_arg_def unsigned_ucast_eq unsigned_take_bit_eq)

lemma narrow_widen: "ucast (ucast c :: u64) = (c :: u8)"
  by (rule bit_word_eqI) (simp add: bit_simps)

lemma conversion_piece:
  assumes "piece_ok p" "\<forall>s. p \<noteq> Text s"
  shows "conversion (piece_format p @ rest) (piece_args p @ args) =
    Some (args, Inr (piece_output p, piece_count p - 1), length (piece_format p))"
proof (cases p)
  case (Sint w)
  then show ?thesis using atoi_print_signed [OF int_arg_small [of w]]
    by (simp add: conversion_def at_char_def print_slot_def slot_value_def)
next
  case (Uint w)
  then show ?thesis using atoi_print_unsigned [of 10 "uint_arg w"]
    by (simp add: conversion_def at_char_def print_slot_def slot_value_def ucast_uint_arg hex_prefix_def)
next
  case (Hex w)
  then show ?thesis using atoi_print_unsigned [of 16 "uint_arg w"]
    by (simp add: conversion_def at_char_def print_slot_def slot_value_def ucast_uint_arg hex_prefix_def)
next
  case (Long m w)
  then show ?thesis using atoi_print_signed [of w] assms(1)
    by (cases m) (simp_all add: conversion_def at_char_def print_slot_def slot_value_def print_long_def)
next
  case (Ulong m w)
  then show ?thesis using atoi_print_unsigned [of 10 w]
    by (cases m) (simp_all add: conversion_def at_char_def print_slot_def slot_value_def print_long_def
        hex_prefix_def)
next
  case (Lhex m w)
  then show ?thesis using atoi_print_unsigned [of 16 w]
    by (cases m) (simp_all add: conversion_def at_char_def print_slot_def slot_value_def print_long_def
        hex_prefix_def)
next
  case (Pointer w)
  then show ?thesis using hex_digits_padded [of "unat w" 16 "[]"] length_padded_hex [of w]
    by (simp add: conversion_def at_char_def slot_value_def del: hex_digits.simps)
next
  case (Character c)
  then show ?thesis by (simp add: conversion_def at_char_def slot_value_def narrow_widen)
qed (use assms(2) in \<open>auto simp: conversion_def at_char_def split: option.splits\<close>)

lemma piece_format_percent: "\<forall>s. p \<noteq> Text s \<Longrightarrow> \<exists>f. piece_format p = CHR ''%'' # f"
  by (cases p) auto

lemma piece_count_pos: "\<forall>s. p \<noteq> Text s \<Longrightarrow> 0 < piece_count p"
  by (cases p) auto

lemma conversion_overflow:
  assumes "overflows p"
  shows "\<exists>k. conversion (piece_format p @ rest) (piece_args p @ args) = Some (args, Inl Panic, k)"
proof -
  obtain m w where p: "p = Long m w" "sint w = - (2 ^ 63)" using assms by (cases p) auto
  then have "w \<noteq> 0" by auto
  then show ?thesis using p by (cases m) (simp_all add: conversion_def at_char_def print_slot_def slot_value_def print_long_def atoi_print_def)
qed

lemma kvprintf_prefix:
  "\<forall>p \<in> set ps. piece_ok p \<Longrightarrow>
    kvprintf (concat (map piece_format ps) @ rest) (concat (map piece_args ps) @ args) out n =
    kvprintf rest args (out @ concat (map piece_output ps)) (n + sum_list (map piece_count ps))"
proof (induction ps arbitrary: out n)
  case (Cons p ps)
  let ?rest = "concat (map piece_format ps) @ rest"
  show ?case
  proof (cases "\<exists>s. p = Text s")
    case True
    then show ?thesis using Cons kvprintf_text by auto
  next
    case False
    obtain f where f: "piece_format p = CHR ''%'' # f" using piece_format_percent [of p] False by blast
    then have "at_char (piece_format p @ ?rest) 0 = CHR ''%''" by (simp add: at_char_def)
    then show ?thesis using Cons False piece_count_pos [of p] conversion_piece [of p ?rest]
      by (simp add: kvprintf.simps [of "piece_format p @ _"] add.assoc)
  qed
qed simp

lemma kvprintf_pieces:
  "\<forall>p \<in> set ps. piece_ok p \<Longrightarrow>
    kvprintf (concat (map piece_format ps)) (concat (map piece_args ps)) out n =
    Some (Inr (out @ concat (map piece_output ps), n + sum_list (map piece_count ps)))"
  using kvprintf_prefix [of ps "[]" "[]"] by (simp add: kvprintf.simps at_char_def)

lemma kvprintf_overflow:
  assumes "\<forall>p \<in> set ps. piece_wf p" "\<exists>p \<in> set ps. overflows p"
  shows "kvprintf (concat (map piece_format ps)) (concat (map piece_args ps)) out n = Some (Inl Panic)"
proof -
  obtain qs p rs where ps: "ps = qs @ p # rs" "overflows p" "\<forall>q \<in> set qs. \<not> overflows q"
    using split_list_first_prop [OF assms(2)] by blast
  have pt: "\<forall>s. p \<noteq> Text s" using ps(2) by auto
  obtain f where f: "piece_format p = CHR ''%'' # f" using piece_format_percent [OF pt] by blast
  let ?rest = "piece_format p @ concat (map piece_format rs)" and ?args = "piece_args p @ concat (map piece_args rs)"
  have "at_char ?rest 0 = CHR ''%''" using f by (simp add: at_char_def)
  then have "kvprintf ?rest ?args out' k = Some (Inl Panic)" for out' k
    using conversion_overflow [OF ps(2), of "concat (map piece_format rs)" "concat (map piece_args rs)"]
    by (auto simp: kvprintf.simps [of ?rest])
  then show ?thesis using kvprintf_prefix [of qs ?rest ?args] assms(1) ps(1,3) by simp
qed

lemma kprintf_locking:
  assumes "kvprintf fmt args '''' 0 = Some (Inr w)"
  shows "kprintf fmt args 0 c = Some (Inr (w, 0, c))"
  by (simp add: kprintf_def spin_lock_irqsave_def spin_unlock_irqsave_def spin_unlock_def cli_def assms
      preempt_dec_def)

lemma kprintf_stuck:
  assumes "kvprintf fmt args '''' 0 = Some (Inl Panic)"
  shows "kprintf fmt args 0 c = None"
  by (simp add: kprintf_def spin_lock_irqsave_def raise_fault_def cli_def assms)

text \<open>
  The digit loop of atoi_print ends for both bases the kernel uses, stays inside its buffer,
  and prints a numeral that reads back as the number: at most 20 digits, no leading zero, a
  minus sign exactly for negative signed values, the prefix 0x exactly for base 16, and a
  returned count that excludes that prefix.  The one exception is the smallest signed value,
  whose negation overflows: it stops in a panic.
\<close>

lemma atoi_print_roundtrip:
  assumes "base = 10 \<or> base = 16"
  shows "(\<exists>s. atoi_print num False base = Some (Inr (hex_prefix base @ s, length s)) \<and>
      string_value base s = unat num \<and> s \<noteq> [] \<and> length s \<le> 20 \<and> (hd s = CHR ''0'' \<longrightarrow> num = 0)) \<and>
    (if sint num = - (2 ^ 63) then atoi_print num True 10 = Some (Inl Panic)
      else \<exists>s. atoi_print num True 10 =
        Some (Inr ((if sint num < 0 then ''-'' else '''') @ s, length s + (if sint num < 0 then 1 else 0))) \<and>
      int (string_value 10 s) = \<bar>sint num\<bar> \<and> s \<noteq> [] \<and> length s \<le> 20 \<and> (hd s = CHR ''0'' \<longrightarrow> num = 0))"
proof (rule conjI)
  have n: "string_value b (number b n) = n \<and> number b n \<noteq> [] \<and> length (number b n) \<le> 20 \<and>
      (hd (number b n) = CHR ''0'' \<longrightarrow> n = 0)" if "b = 10 \<or> b = 16" "n < 2 ^ 64" for b n
    using that digit_string_value [of b n] digit_string_hd [of b n] digit_loop_u64(2) [OF that]
    by (auto simp: number_def string_value_def digit_value_def)
  show "\<exists>s. atoi_print num False base = Some (Inr (hex_prefix base @ s, length s)) \<and>
      string_value base s = unat num \<and> s \<noteq> [] \<and> length s \<le> 20 \<and> (hd s = CHR ''0'' \<longrightarrow> num = 0)"
    using n [OF assms, of "unat num"] atoi_print_unsigned [OF assms, of num]
    by (intro exI [of _ "number base (unat num)"]) (simp add: unat_eq_zero)
  show "if sint num = - (2 ^ 63) then atoi_print num True 10 = Some (Inl Panic)
      else \<exists>s. atoi_print num True 10 =
        Some (Inr ((if sint num < 0 then ''-'' else '''') @ s, length s + (if sint num < 0 then 1 else 0))) \<and>
      int (string_value 10 s) = \<bar>sint num\<bar> \<and> s \<noteq> [] \<and> length s \<le> 20 \<and> (hd s = CHR ''0'' \<longrightarrow> num = 0)"
  proof (cases "sint num = - (2 ^ 63)")
    case True
    then have "num \<noteq> 0" by auto
    then show ?thesis using True by (simp add: atoi_print_def)
  next
    case False
    have "nat \<bar>sint num\<bar> < 2 ^ 64" using sint_bounds [of num] by auto
    note n [of 10, OF _ this, simplified]
    then show ?thesis using False atoi_print_signed [OF False]
      by (intro if_not_P [THEN iffD2] exI [of _ "number 10 (nat \<bar>sint num\<bar>)"])
        (auto simp: int_number_def signed_eq_0_iff)
  qed
qed

lemma atoi_print_roundtrip_example:
  "(\<exists>s. atoi_print 0x2A7 False 16 = Some (Inr (''0x'' @ s, length s)) \<and> string_value 16 s = 679) \<and>
   (\<exists>s. atoi_print (- 90) True 10 = Some (Inr (''-'' @ s, length s + 1)) \<and> string_value 10 s = 90)"
proof -
  have "(16 :: nat) = 10 \<or> (16 :: nat) = 16" "(10 :: nat) = 10 \<or> (10 :: nat) = 16" by simp_all
  from atoi_print_roundtrip [OF this(1), of "0x2A7"] atoi_print_roundtrip [OF this(2), of "- 90"]
  show ?thesis by (auto simp: hex_prefix_def)
qed

text \<open>
  C16. kprintf prints what its format says.  For every format made of plain text and of the
  conversions %%, %c, %s, %p, %d, %u, %x and the l, ll and z forms of the last three, with the
  matching arguments, and the lock of the console free, the call returns unless one of the signed 64-bit
  conversions has the argument -2^63; the characters
  written are the pieces one after the other (numbers as shortest numerals, pointers as 16
  hexadecimal digits, a null string as (null)), and the lock, the interrupt flag and the
  preemption count are as before.  The returned count is not the number of characters: plain
  text is not counted, and every conversion but the hexadecimal ones counts one too many.  With the argument
  -2^63 the negation in atoi_print overflows, and the panic that follows waits for ever for the lock that the call holds.
\<close>

theorem kprintf_correct:
  assumes "\<forall>p \<in> set ps. piece_wf p"
  shows "kprintf (concat (map piece_format ps)) (concat (map piece_args ps)) 0 c =
    (if \<exists>p \<in> set ps. overflows p then None
     else Some (Inr ((concat (map piece_output ps), sum_list (map piece_count ps)), 0, c)))"
  using assms kvprintf_pieces [of ps "''''" 0] kvprintf_overflow [of ps "''''" 0] by (auto simp: kprintf_locking kprintf_stuck)

theorem kprintf_correct_witness:
  "kprintf ''CPU %d: %s %lx'' [Slot (- 1), Str None, Slot 255] 0 \<lparr>preempt_count = 3, rflags = 0x202\<rparr> =
     Some (Inr ((''CPU -1: (null) 0xFF'', 13), 0, \<lparr>preempt_count = 3, rflags = 0x202\<rparr>))"
proof -
  have d: "digit_string 10 (Suc 0) = ''1''" "digit_string 16 255 = ''FF''"
    by (simp_all add: digit_string.simps)
  have m: "sint (ucast (- 1 :: u64) :: u32) = - 1" by code_simp
  show ?thesis
    using kprintf_correct [of "[Text ''CPU '', Sint (- 1), Text '': '', String None, Text '' '', Lhex Mod_l 255]"
        "\<lparr>preempt_count = 3, rflags = 0x202\<rparr>"]
    by (simp add: m int_number_def number_def d)
qed

text \<open>
  A panic raised while kprintf processes its format does not stop the machine with a message:
  the panic first takes the lock of the console, which kprintf holds, and spins for ever.  For
  every unknown conversion character, on a free lock, the call does not return.
\<close>

lemma kprintf_panic_spins:
  assumes "k \<notin> set ''%cspzldiux''"
  shows "kprintf (''%'' @ [k]) args 0 c = None"
proof -
  have "conversion [CHR ''%'', k] args = Some (args, Inl Panic, 2)"
    using assms by (simp add: conversion_def at_char_def)
  then have "kvprintf (''%'' @ [k]) args '''' 0 = Some (Inl Panic)"
    by (simp add: kvprintf.simps [of "[CHR ''%'', k]"]) (simp add: at_char_def)
  then show ?thesis by (rule kprintf_stuck)
qed

lemma kprintf_panic_spins_example:
  "kprintf ''%f'' [Slot 0] 0 \<lparr>preempt_count = 0, rflags = 0x202\<rparr> = None"
  using kprintf_panic_spins [of "CHR ''f''" "[Slot 0]"] by simp

end
