(* ===== verification/Sync_Correct.thy ===== *)
theory Sync_Correct
  imports Sync
begin

text \<open>
  Mutual exclusion of the reader/writer lock for any number of processors and any interleaving
  of their memory accesses, by an invariant over the program points, and the schedule that
  unbalances the preemption counts.
\<close>

section \<open>Who holds what\<close>

fun spinning :: "spin_pc \<Rightarrow> bool" where
  "spinning (Sp_retry rax) = (rax = 1)"
| "spinning (Sp_again rax) = (rax = 1)"
| "spinning _ = True"

text \<open>A processor between taking and releasing \<^verbatim>\<open>rd_lock\<close>.\<close>

fun holds_rd :: "rw_pc \<Rightarrow> bool" where
  "holds_rd Rl_inc = True"
| "holds_rd (Rl_wr s) = True"
| "holds_rd Rl_preempt = True"
| "holds_rd Rl_unlock = True"
| "holds_rd Ru_dec = True"
| "holds_rd Ru_wr = True"
| "holds_rd Ru_wr_dec = True"
| "holds_rd Ru_preempt = True"
| "holds_rd Ru_unlock = True"
| "holds_rd _ = False"

text \<open>A processor counted in \<^verbatim>\<open>readers\<close>.\<close>

fun counted :: "rw_pc \<Rightarrow> bool" where
  "counted (Rl_wr s) = True"
| "counted Rl_preempt = True"
| "counted Rl_unlock = True"
| "counted Rl_unlock_dec = True"
| "counted Reading = True"
| "counted (Ru_rd s) = True"
| "counted Ru_dec = True"
| "counted _ = False"

fun writer :: "rw_pc \<Rightarrow> bool" where
  "writer Writing = True"
| "writer Wu_wr = True"
| "writer _ = False"

fun awaits_wr :: "rw_pc \<Rightarrow> bool" where
  "awaits_wr (Rl_wr s) = True"
| "awaits_wr _ = False"

fun pc_ok :: "rw_pc \<Rightarrow> bool" where
  "pc_ok (Rl_rd s) = spinning s"
| "pc_ok (Rl_wr s) = spinning s"
| "pc_ok (Ru_rd s) = spinning s"
| "pc_ok (Wl_wr s) = spinning s"
| "pc_ok _ = True"

definition rd_owner :: "machine \<Rightarrow> nat set" where "rd_owner s = {i. holds_rd (pcs s i)}"
definition reading :: "machine \<Rightarrow> nat set" where "reading s = {i. counted (pcs s i)}"
definition writing :: "machine \<Rightarrow> nat set" where "writing s = {i. writer (pcs s i)}"
definition waiting :: "machine \<Rightarrow> nat set" where "waiting s = {i. awaits_wr (pcs s i)}"
definition closing :: "machine \<Rightarrow> nat set" where "closing s = {i. pcs s i = Ru_wr}"

text \<open>The readers as a group hold \<^verbatim>\<open>wr_lock\<close>.\<close>

definition shared :: "machine \<Rightarrow> bool" where
  "shared s \<longleftrightarrow> reading s \<noteq> {} \<and> waiting s = {} \<or> closing s \<noteq> {}"

definition one_owner :: "u64 \<Rightarrow> nat set \<Rightarrow> bool" where
  "one_owner l S \<longleftrightarrow> l = 0 \<and> S = {} \<or> l = 1 \<and> (\<exists>i. S = {i})"

definition rw_inv :: "nat \<Rightarrow> machine \<Rightarrow> bool" where
  "rw_inv n s \<longleftrightarrow>
     (\<forall>i. pc_ok (pcs s i)) \<and> (\<forall>i \<ge> n. pcs s i = Outside) \<and>
     one_owner (rd_lock (rwlock s)) (rd_owner s) \<and>
     var64 (readers (rwlock s)) = of_nat (card (reading s)) \<and>
     (\<forall>i \<in> waiting s. reading s = {i}) \<and>
     (closing s \<noteq> {} \<longrightarrow> reading s = {}) \<and>
     (if shared s then writing s = {} \<and> wr_lock (rwlock s) = 1
      else one_owner (wr_lock (rwlock s)) (writing s))"

lemma put_fields [simp]: "rwlock (put pc k p i s) = k" "pcs (put pc k p i s) = (pcs s)(i := pc)"
  by (simp_all add: put_def)

lemma owners_put:
  "rd_owner (put pc k p i s) = (if holds_rd pc then insert i (rd_owner s) else rd_owner s - {i})"
  "reading (put pc k p i s) = (if counted pc then insert i (reading s) else reading s - {i})"
  "writing (put pc k p i s) = (if writer pc then insert i (writing s) else writing s - {i})"
  "waiting (put pc k p i s) = (if awaits_wr pc then insert i (waiting s) else waiting s - {i})"
  "closing (put pc k p i s) = (if pc = Ru_wr then insert i (closing s) else closing s - {i})"
  by (auto simp: rd_owner_def reading_def writing_def waiting_def closing_def put_def)

lemma owners_mem:
  "i \<in> rd_owner s \<longleftrightarrow> holds_rd (pcs s i)" "i \<in> reading s \<longleftrightarrow> counted (pcs s i)"
  "i \<in> writing s \<longleftrightarrow> writer (pcs s i)" "i \<in> waiting s \<longleftrightarrow> awaits_wr (pcs s i)"
  "i \<in> closing s \<longleftrightarrow> pcs s i = Ru_wr"
  by (simp_all add: rd_owner_def reading_def writing_def waiting_def closing_def)

lemma owners_sub: "waiting s \<subseteq> reading s" "waiting s \<subseteq> rd_owner s" "closing s \<subseteq> rd_owner s"
proof -
  have "awaits_wr pc \<longrightarrow> counted pc \<and> holds_rd pc" for pc by (cases pc) auto
  then show "waiting s \<subseteq> reading s" "waiting s \<subseteq> rd_owner s" "closing s \<subseteq> rd_owner s"
    by (auto simp: owners_mem)
qed

lemma reading_finite:
  assumes "rw_inv n s"
  shows "finite (reading s)" "card (reading s) \<le> n"
proof -
  have "reading s \<subseteq> {..<n}" using assms
    by (auto simp: rw_inv_def reading_def intro: ccontr)
  then show "finite (reading s)" "card (reading s) \<le> n"
    using card_mono [of "{..<n}"] by (auto intro: finite_subset)
qed

lemma put_same_inv:
  assumes "rw_inv n s" "i < n" "pc_ok pc" "holds_rd pc = holds_rd (pcs s i)"
    "counted pc = counted (pcs s i)" "writer pc = writer (pcs s i)"
    "awaits_wr pc = awaits_wr (pcs s i)" "pc = Ru_wr \<longleftrightarrow> pcs s i = Ru_wr"
  shows "rw_inv n (put pc (rwlock s) p i s)"
proof -
  have [simp]: "rd_owner (put pc (rwlock s) p i s) = rd_owner s" "reading (put pc (rwlock s) p i s) = reading s"
    "writing (put pc (rwlock s) p i s) = writing s" "waiting (put pc (rwlock s) p i s) = waiting s"
    "closing (put pc (rwlock s) p i s) = closing s"
    using assms(4-8) by (auto simp: owners_mem owners_put)
  show ?thesis using assms(1-3) by (simp add: rw_inv_def shared_def)
qed

lemma spin_step_cases:
  assumes "spinning s" "l = 0 \<or> l = 1" "spin_step s l p = (s', l', p')"
  obtains (acquired) "s' = None" "l = 0" "l' = 1"
  | (waits) x where "s' = Some x" "spinning x" "l' = l"
  using assms by (cases s) (auto split: if_splits)

lemma one_owner_bit: "one_owner l S \<Longrightarrow> l = 0 \<or> l = 1"
  by (auto simp: one_owner_def)

lemma rw_inv_bits:
  assumes "rw_inv n s"
  shows "rd_lock (rwlock s) = 0 \<or> rd_lock (rwlock s) = 1"
    "wr_lock (rwlock s) = 0 \<or> wr_lock (rwlock s) = 1"
  using assms one_owner_bit by (auto simp: rw_inv_def split: if_splits)

lemma rd_owned:
  assumes "rw_inv n s" "holds_rd (pcs s i)"
  shows "rd_owner s = {i}" "waiting s \<subseteq> {i}" "closing s \<subseteq> {i}" "rd_lock (rwlock s) = 1"
proof -
  have "i \<in> rd_owner s" using assms(2) by (simp add: owners_mem)
  then show "rd_owner s = {i}" "rd_lock (rwlock s) = 1"
    using assms(1) by (auto simp: rw_inv_def one_owner_def)
  then show "waiting s \<subseteq> {i}" "closing s \<subseteq> {i}" using owners_sub [of s] by auto
qed

lemma take_rd_inv:
  assumes "rw_inv n s" "i < n" "rd_lock (rwlock s) = 0"
    "pcs s i = Rl_rd x \<and> pc = Rl_inc \<or> pcs s i = Ru_rd x \<and> pc = Ru_dec"
  shows "rw_inv n (put pc ((rwlock s)\<lparr>rd_lock := 1\<rparr>) p i s)" (is "rw_inv n ?s")
proof -
  have o: "rd_owner s = {}" using assms(1,3) by (auto simp: rw_inv_def one_owner_def)
  then have e: "waiting s = {}" "closing s = {}" using owners_sub [of s] by auto
  have "rd_owner ?s = {i}" "reading ?s = reading s" "writing ?s = writing s" "waiting ?s = {}"
    "closing ?s = {}"
    using assms(4) o e owners_mem [of i s] by (auto simp: owners_put)
  then show ?thesis using assms o e by (auto simp: rw_inv_def shared_def one_owner_def)
qed

lemma drop_rd_inv:
  assumes "rw_inv n s" "i < n"
    "pcs s i = Rl_unlock \<and> pc = Rl_unlock_dec \<or> pcs s i = Ru_unlock \<and> pc = Ru_unlock_dec"
  shows "rw_inv n (put pc ((rwlock s)\<lparr>rd_lock := 0\<rparr>) p i s)" (is "rw_inv n ?s")
proof -
  have "holds_rd (pcs s i)" using assms(3) by auto
  note o = rd_owned [OF assms(1) this]
  have "i \<notin> waiting s" "i \<notin> closing s" using assms(3) by (auto simp: owners_mem)
  then have e: "waiting s = {}" "closing s = {}" using o by auto
  have "rd_owner ?s = {}" "reading ?s = reading s" "writing ?s = writing s" "waiting ?s = {}"
    "closing ?s = {}"
    using assms(3) o e owners_mem [of i s] by (auto simp: owners_put)
  then show ?thesis using assms o e by (auto simp: rw_inv_def shared_def one_owner_def)
qed

lemma of_nat_u64_zero: "c < 2 ^ 64 \<Longrightarrow> (of_nat c = (0 :: u64)) = (c = 0)"
  using unat_of_nat_u64 [of c] by (auto simp del: unsigned_of_nat)

lemma count_zero:
  assumes "rw_inv n s" "n < 2 ^ 64"
  shows "(of_nat (card (reading s)) = (0 :: u64)) = (reading s = {})"
proof -
  have "card (reading s) < 2 ^ 64" using reading_finite [OF assms(1)] assms(2) by simp
  then show ?thesis using reading_finite [OF assms(1)] by (simp add: of_nat_u64_zero)
qed

lemma inc_readers_inv:
  assumes "rw_inv n s" "i < n" "n < 2 ^ 64" "pcs s i = Rl_inc" "v = var64 (readers (rwlock s)) + 1"
  shows "rw_inv n (put (if v = 1 then Rl_wr Sp_enter else Rl_preempt)
    ((rwlock s)\<lparr>readers := (readers (rwlock s))\<lparr>var64 := v\<rparr>\<rparr>) p i s)" (is "rw_inv n ?s")
proof -
  have o: "rd_owner s = {i}" "rd_lock (rwlock s) = 1" "waiting s \<subseteq> {i}" "closing s \<subseteq> {i}"
    using rd_owned [of n s i] assms(1,4) by auto
  have n: "i \<notin> waiting s" "i \<notin> closing s" "i \<notin> reading s" "i \<notin> writing s"
    using assms(4) by (auto simp: owners_mem)
  then have e: "waiting s = {}" "closing s = {}" using o by auto
  have v: "v = 1 \<longleftrightarrow> reading s = {}"
    using assms(1,5) count_zero [OF assms(1,3)] by (simp add: rw_inv_def)
  have c: "of_nat (card (insert i (reading s))) = v"
    using reading_finite [OF assms(1)] n assms(1,5) by (simp add: rw_inv_def)
  have "rd_owner ?s = {i}" "reading ?s = insert i (reading s)" "writing ?s = writing s"
    "waiting ?s = (if v = 1 then {i} else {})" "closing ?s = {}"
    using o e n by (auto simp: owners_put)
  then show ?thesis using assms(1,2) o e v c by (auto simp: rw_inv_def shared_def one_owner_def)
qed

lemma dec_readers_inv:
  assumes "rw_inv n s" "i < n" "n < 2 ^ 64" "pcs s i = Ru_dec" "v = var64 (readers (rwlock s)) - 1"
  shows "rw_inv n (put (if v = 0 then Ru_wr else Ru_preempt)
    ((rwlock s)\<lparr>readers := (readers (rwlock s))\<lparr>var64 := v\<rparr>\<rparr>) p i s)" (is "rw_inv n ?s")
proof -
  have o: "rd_owner s = {i}" "rd_lock (rwlock s) = 1" "waiting s \<subseteq> {i}" "closing s \<subseteq> {i}"
    using rd_owned [of n s i] assms(1,4) by auto
  have n: "i \<notin> waiting s" "i \<notin> closing s" "i \<in> reading s" "i \<notin> writing s"
    using assms(4) by (auto simp: owners_mem)
  then have e: "waiting s = {}" "closing s = {}" using o by auto
  have c: "of_nat (card (reading s - {i})) = v"
    using reading_finite [OF assms(1)] n assms(1,5) card_Suc_Diff1 [of "reading s" i]
    by (simp add: rw_inv_def)
  have "card (reading s - {i}) < 2 ^ 64"
    using reading_finite [OF assms(1)] assms(3) card_Diff1_le [of "reading s" i] by linarith
  then have v: "v = 0 \<longleftrightarrow> reading s - {i} = {}"
    using of_nat_u64_zero [of "card (reading s - {i})"] c reading_finite [OF assms(1)] by simp
  have "rd_owner ?s = {i}" "reading ?s = reading s - {i}" "writing ?s = writing s"
    "waiting ?s = {}" "closing ?s = (if v = 0 then {i} else {})"
    using o e n by (auto simp: owners_put)
  moreover have "writing s = {}" "wr_lock (rwlock s) = 1"
    using assms(1) e n by (auto simp: rw_inv_def shared_def split: if_splits)
  moreover have "\<forall>j. pc_ok (pcs s j)" "\<forall>j \<ge> n. pcs s j = Outside" using assms(1) by (auto simp: rw_inv_def)
  ultimately show ?thesis using assms(2) o(2) c v
    by (cases "v = 0") (simp_all add: rw_inv_def shared_def one_owner_def)
qed

lemma first_reader_inv:
  assumes "rw_inv n s" "i < n" "wr_lock (rwlock s) = 0" "pcs s i = Rl_wr x"
  shows "rw_inv n (put Rl_preempt ((rwlock s)\<lparr>wr_lock := 1\<rparr>) p i s)" (is "rw_inv n ?s")
proof -
  have o: "rd_owner s = {i}" "rd_lock (rwlock s) = 1" "waiting s \<subseteq> {i}" "closing s \<subseteq> {i}"
    using rd_owned [of n s i] assms(1,4) by auto
  have n: "i \<in> waiting s" "i \<notin> closing s" "i \<notin> writing s" using assms(4) by (auto simp: owners_mem)
  then have e: "waiting s = {i}" "closing s = {}" "reading s = {i}"
    using o assms(1) by (auto simp: rw_inv_def)
  then have w: "writing s = {}" using assms(1,3) by (auto simp: rw_inv_def shared_def one_owner_def)
  have "rd_owner ?s = {i}" "reading ?s = {i}" "writing ?s = {}" "waiting ?s = {}" "closing ?s = {}"
    using o e n w by (auto simp: owners_put)
  then show ?thesis using assms(1,2) o e by (auto simp: rw_inv_def shared_def one_owner_def)
qed

lemma last_reader_inv:
  assumes "rw_inv n s" "i < n" "pcs s i = Ru_wr"
  shows "rw_inv n (put Ru_wr_dec ((rwlock s)\<lparr>wr_lock := 0\<rparr>) p i s)" (is "rw_inv n ?s")
proof -
  have o: "rd_owner s = {i}" "rd_lock (rwlock s) = 1" "waiting s \<subseteq> {i}" "closing s \<subseteq> {i}"
    using rd_owned [of n s i] assms(1,3) by auto
  have n: "i \<notin> waiting s" "i \<in> closing s" using assms(3) by (auto simp: owners_mem)
  then have e: "waiting s = {}" "closing s = {i}" "reading s = {}" "writing s = {}"
    using o assms(1) by (auto simp: rw_inv_def shared_def split: if_splits)
  have "rd_owner ?s = {i}" "reading ?s = {}" "writing ?s = {}" "waiting ?s = {}" "closing ?s = {}"
    using o e by (auto simp: owners_put)
  then show ?thesis using assms(1,2) o e by (auto simp: rw_inv_def shared_def one_owner_def)
qed

lemma take_wr_inv:
  assumes "rw_inv n s" "i < n" "wr_lock (rwlock s) = 0" "pcs s i = Wl_wr x"
  shows "rw_inv n (put Writing ((rwlock s)\<lparr>wr_lock := 1\<rparr>) p i s)" (is "rw_inv n ?s")
proof -
  have e: "\<not> shared s" "writing s = {}"
    using assms(1,3) by (auto simp: rw_inv_def one_owner_def split: if_splits)
  have "rd_owner ?s = rd_owner s" "reading ?s = reading s" "writing ?s = {i}"
    "waiting ?s = waiting s" "closing ?s = closing s"
    using e assms(4) owners_mem [of i s] by (auto simp: owners_put)
  then show ?thesis using assms(1,2) e by (auto simp: rw_inv_def shared_def one_owner_def)
qed

lemma drop_wr_inv:
  assumes "rw_inv n s" "i < n" "pcs s i = Wu_wr"
  shows "rw_inv n (put Wu_wr_dec ((rwlock s)\<lparr>wr_lock := 0\<rparr>) p i s)" (is "rw_inv n ?s")
proof -
  have "i \<in> writing s" using assms(3) by (simp add: owners_mem)
  then have e: "\<not> shared s" "writing s = {i}"
    using assms(1) by (auto simp: rw_inv_def one_owner_def split: if_splits)
  have "rd_owner ?s = rd_owner s" "reading ?s = reading s" "writing ?s = {}"
    "waiting ?s = waiting s" "closing ?s = closing s"
    using e assms(3) owners_mem [of i s] by (auto simp: owners_put)
  then show ?thesis using assms(1,2) e by (auto simp: rw_inv_def shared_def one_owner_def)
qed

section \<open>Every access keeps the invariant\<close>

lemma lock_id: "k\<lparr>rd_lock := rd_lock k\<rparr> = k" "k\<lparr>wr_lock := wr_lock k\<rparr> = (k :: rwspinlock)"
  by simp_all

lemma pc_ok_inv: "rw_inv n s \<Longrightarrow> pc_ok (pcs s i)"
  by (simp add: rw_inv_def)

lemma put_id: "put (pcs s i) (rwlock s) (preempt s i) i s = (s :: machine)"
  by (simp add: put_def)

lemma read_lock_inv:
  assumes "rw_inv n s" "i < n" "n < 2 ^ 64"
  shows "rw_inv n (advance read_spin_lock_step i s)"
proof (cases "pcs s i")
  case (Rl_rd x)
  obtain x' l p where st: "spin_step x (rd_lock (rwlock s)) (preempt s i) = (x', l, p)"
    by (cases "spin_step x (rd_lock (rwlock s)) (preempt s i)") auto
  have "spinning x" using pc_ok_inv [OF assms(1), of i] Rl_rd by simp
  then show ?thesis using rw_inv_bits(1) [OF assms(1)] st
  proof (cases rule: spin_step_cases)
    case acquired
    then show ?thesis using st Rl_rd take_rd_inv [OF assms(1,2), of x] by (simp add: advance_def)
  next
    case (waits y)
    then show ?thesis using st Rl_rd put_same_inv [OF assms(1,2), of "Rl_rd y"]
      by (simp add: advance_def)
  qed
next
  case (Rl_wr x)
  obtain x' l p where st: "spin_step x (wr_lock (rwlock s)) (preempt s i) = (x', l, p)"
    by (cases "spin_step x (wr_lock (rwlock s)) (preempt s i)") auto
  have "spinning x" using pc_ok_inv [OF assms(1), of i] Rl_wr by simp
  then show ?thesis using rw_inv_bits(2) [OF assms(1)] st
  proof (cases rule: spin_step_cases)
    case acquired
    then show ?thesis using st Rl_wr first_reader_inv [OF assms(1,2)] by (simp add: advance_def)
  next
    case (waits y)
    then show ?thesis using st Rl_wr put_same_inv [OF assms(1,2), of "Rl_wr y"]
      by (simp add: advance_def)
  qed
next
  case Rl_inc
  then show ?thesis using inc_readers_inv [OF assms]
    by (simp add: advance_def atomic_inc_read64_def Let_def)
next
  case Rl_unlock
  then show ?thesis using drop_rd_inv [OF assms(1,2)] by (simp add: advance_def)
qed (use assms(1) put_same_inv [OF assms(1,2)] put_id [of s i] in \<open>simp_all add: advance_def\<close>)

lemma read_unlock_inv:
  assumes "rw_inv n s" "i < n" "n < 2 ^ 64"
  shows "rw_inv n (advance read_spin_unlock_step i s)"
proof (cases "pcs s i")
  case (Ru_rd x)
  obtain x' l p where st: "spin_step x (rd_lock (rwlock s)) (preempt s i) = (x', l, p)"
    by (cases "spin_step x (rd_lock (rwlock s)) (preempt s i)") auto
  have "spinning x" using pc_ok_inv [OF assms(1), of i] Ru_rd by simp
  then show ?thesis using rw_inv_bits(1) [OF assms(1)] st
  proof (cases rule: spin_step_cases)
    case acquired
    then show ?thesis using st Ru_rd take_rd_inv [OF assms(1,2), of x] by (simp add: advance_def)
  next
    case (waits y)
    then show ?thesis using st Ru_rd put_same_inv [OF assms(1,2), of "Ru_rd y"]
      by (simp add: advance_def)
  qed
next
  case Ru_dec
  then show ?thesis using dec_readers_inv [OF assms]
    by (simp add: advance_def atomic_dec_read64_def Let_def)
next
  case Ru_wr
  then show ?thesis using last_reader_inv [OF assms(1,2)] by (simp add: advance_def)
next
  case Ru_unlock
  then show ?thesis using drop_rd_inv [OF assms(1,2)] by (simp add: advance_def)
qed (use assms(1) put_same_inv [OF assms(1,2)] put_id [of s i] in \<open>simp_all add: advance_def\<close>)

lemma write_lock_inv:
  assumes "rw_inv n s" "i < n"
  shows "rw_inv n (advance write_spin_lock_step i s)"
proof (cases "pcs s i")
  case (Wl_wr x)
  obtain x' l p where st: "spin_step x (wr_lock (rwlock s)) (preempt s i) = (x', l, p)"
    by (cases "spin_step x (wr_lock (rwlock s)) (preempt s i)") auto
  have "spinning x" using pc_ok_inv [OF assms(1), of i] Wl_wr by simp
  then show ?thesis using rw_inv_bits(2) [OF assms(1)] st
  proof (cases rule: spin_step_cases)
    case acquired
    then show ?thesis using st Wl_wr take_wr_inv [OF assms(1,2)] by (simp add: advance_def)
  next
    case (waits y)
    then show ?thesis using st Wl_wr put_same_inv [OF assms(1,2), of "Wl_wr y"]
      by (simp add: advance_def)
  qed
qed (use assms(1) put_id [of s i] in \<open>simp_all add: advance_def\<close>)

lemma write_unlock_inv:
  assumes "rw_inv n s" "i < n"
  shows "rw_inv n (advance write_spin_unlock_step i s)"
  using assms(1) put_id [of s i] drop_wr_inv [OF assms] put_same_inv [OF assms]
  by (cases "pcs s i") (simp_all add: advance_def)

lemma rw_step_inv:
  assumes "rw_step n s s'" "rw_inv n s" "n < 2 ^ 64"
  shows "rw_inv n s'"
  using assms(1)
proof cases
  case (call_read i)
  then show ?thesis using put_same_inv [OF assms(2)] by (simp add: goto_def)
next
  case (call_write i)
  then show ?thesis using put_same_inv [OF assms(2)] by (simp add: goto_def)
next
  case (leave_read i)
  then show ?thesis using put_same_inv [OF assms(2)] by (simp add: goto_def)
next
  case (leave_write i)
  then show ?thesis using put_same_inv [OF assms(2)] by (simp add: goto_def)
next
  case (read_lock i)
  then show ?thesis using assms read_lock_inv by simp
next
  case (read_unlock i)
  then show ?thesis using assms read_unlock_inv by simp
next
  case (write_lock i)
  then show ?thesis using assms write_lock_inv by simp
next
  case (write_unlock i)
  then show ?thesis using assms write_unlock_inv by simp
qed

lemma rw_init_inv: "rw_inv n rw_init"
  by (simp add: rw_inv_def rw_init_def one_owner_def shared_def rd_owner_def reading_def
      writing_def waiting_def closing_def)

lemma rw_reachable_inv:
  assumes "rw_reachable n s" "n < 2 ^ 64"
  shows "rw_inv n s"
  using assms(1) by induction (simp_all add: rw_init_inv rw_step_inv [OF _ _ assms(2)])

section \<open>Schedules\<close>

text \<open>A schedule names, step by step, the processor and what it does; a disabled call is skipped.\<close>

datatype act = Call_read | Call_write | Leave_read | Leave_write | Read_lock | Read_unlock | Write_lock

fun act_step :: "nat \<times> act \<Rightarrow> machine \<Rightarrow> machine" where
  "act_step (i, Call_read) s = (if pcs s i = Outside then goto (Rl_rd Sp_enter) i s else s)"
| "act_step (i, Call_write) s = (if pcs s i = Outside then goto (Wl_wr Sp_enter) i s else s)"
| "act_step (i, Leave_read) s = (if pcs s i = Reading then goto (Ru_rd Sp_enter) i s else s)"
| "act_step (i, Leave_write) s = (if pcs s i = Writing then goto Wu_wr i s else s)"
| "act_step (i, Read_lock) s = advance read_spin_lock_step i s"
| "act_step (i, Read_unlock) s = advance read_spin_unlock_step i s"
| "act_step (i, Write_lock) s = advance write_spin_lock_step i s"

fun run_schedule :: "(nat \<times> act) list \<Rightarrow> machine \<Rightarrow> machine" where
  "run_schedule [] s = s"
| "run_schedule (a # as) s = run_schedule as (act_step a s)"

lemma run_schedule_reachable:
  "\<lbrakk> rw_reachable n s; \<forall>a \<in> set as. fst a < n \<rbrakk> \<Longrightarrow> rw_reachable n (run_schedule as s)"
proof (induction as arbitrary: s)
  case (Cons a as)
  obtain i x where a: "a = (i, x)" by (cases a)
  have "rw_step n s (act_step a s) \<or> act_step a s = s"
    using Cons.prems(2) rw_step.intros [of i n s] by (cases x) (auto simp: a)
  then have "rw_reachable n (act_step a s)" using Cons.prems(1) rw_reachable.step by metis
  then show ?case using Cons by simp
qed simp

lemmas machine_eval = goto_def advance_def put_def rw_init_def atomic_inc_read64_def
  atomic_dec_read64_def preempt_inc_def preempt_dec_def

definition enter_read :: "nat \<Rightarrow> (nat \<times> act) list" where
  "enter_read i = (i, Call_read) # replicate 8 (i, Read_lock)"

definition exit_read :: "nat \<Rightarrow> (nat \<times> act) list" where
  "exit_read i = (i, Leave_read) # replicate 8 (i, Read_unlock)"

text \<open>
  C5. Mutual exclusion of the reader/writer spin lock, for every number of processors below
  2 ^ 64 and every interleaving of the memory accesses of read_spin_lock, read_spin_unlock,
  write_spin_lock and write_spin_unlock: in every reachable state, while one processor is
  inside as the writer, no other processor is inside, neither as a writer nor as a reader; and
  the count of readers in the lock is the number of processors that have entered and not left.
\<close>

theorem rwlock_exclusive:
  assumes "rw_reachable n s" "n < 2 ^ 64"
  shows "(\<forall>i j. pcs s i = Writing \<longrightarrow> pcs s j \<in> {Writing, Reading} \<longrightarrow> i = j) \<and>
    unat (var64 (readers (rwlock s))) = card {i. counted (pcs s i)}"
proof (intro conjI allI impI)
  note inv = rw_reachable_inv [OF assms]
  have "card (reading s) < 2 ^ 64" using reading_finite [OF inv] assms(2) by linarith
  then show "unat (var64 (readers (rwlock s))) = card {i. counted (pcs s i)}"
    using inv unat_of_nat_u64 by (simp add: rw_inv_def reading_def)
  fix i j
  assume w: "pcs s i = Writing" and j: "pcs s j \<in> {Writing, Reading}"
  have i: "i \<in> writing s" using w by (simp add: owners_mem)
  then have u: "\<not> shared s" "writing s = {i}"
    using inv by (auto simp: rw_inv_def one_owner_def split: if_splits)
  show "i = j"
  proof (cases "pcs s j = Writing")
    case True
    then have "j \<in> writing s" by (simp add: owners_mem)
    then show ?thesis using u by simp
  next
    case False
    then have "j \<in> reading s" "j \<notin> waiting s" using j by (simp_all add: owners_mem)
    then show ?thesis using u inv by (auto simp: rw_inv_def shared_def)
  qed
qed

theorem rwlock_exclusive_witness:
  "let s = run_schedule ((0, Call_write) # replicate 2 (0, Write_lock) @ enter_read 1) rw_init
   in pcs s 0 = Writing \<and> pcs s 1 \<notin> {Writing, Reading} \<and> unat (var64 (readers (rwlock s))) = 1"
proof -
  define s where "s = run_schedule ((0, Call_write) # replicate 2 (0, Write_lock) @ enter_read 1) rw_init"
  have r: "rw_reachable 2 s" unfolding s_def
    by (rule run_schedule_reachable) (auto simp: rw_reachable.start enter_read_def)
  have w: "pcs s 0 = Writing" and v: "unat (var64 (readers (rwlock s))) = 1"
    by (simp_all add: s_def enter_read_def numeral_eq_Suc machine_eval)
  have "pcs s 0 = Writing \<longrightarrow> pcs s 1 \<in> {Writing, Reading} \<longrightarrow> 0 = (1 :: nat)"
    using rwlock_exclusive [OF r] by auto
  then show ?thesis using w v unfolding s_def [symmetric] Let_def by simp
qed

text \<open>
  The preemption counts are not balanced by the reader/writer lock, although the counter is
  documented as incremented for every lock held and decremented for every lock released: the
  first reader takes the writer lock and counts it on its own processor, and the last reader
  releases it and uncounts it on its own.  When processor 0 enters first, processor 1 second,
  and processor 0 leaves before processor 1, both are outside again with the lock free, but
  processor 0 is left with a count of 1 and the count of processor 1 has wrapped to 2 ^ 32 - 1.
\<close>

lemma rwlock_preempt_unbalanced:
  "\<exists>s. rw_reachable 2 s \<and> (\<forall>i. pcs s i = Outside) \<and> wr_lock (rwlock s) = 0 \<and>
     rd_lock (rwlock s) = 0 \<and> preempt s 0 = 1 \<and> preempt s 1 = 0xFFFFFFFF"
proof -
  define s where "s = run_schedule (enter_read 0 @ enter_read 1 @ exit_read 0 @ exit_read 1) rw_init"
  have "rw_reachable 2 s" unfolding s_def
    by (rule run_schedule_reachable) (auto simp: rw_reachable.start enter_read_def exit_read_def)
  moreover have "(\<forall>i. pcs s i = Outside) \<and> wr_lock (rwlock s) = 0 \<and>
     rd_lock (rwlock s) = 0 \<and> preempt s 0 = 1 \<and> preempt s 1 = - 1"
    by (simp add: s_def enter_read_def exit_read_def numeral_eq_Suc machine_eval)
  ultimately show ?thesis by (intro exI [of _ s]) simp
qed

end
