(* ===== verification/Cpuset.thy ===== *)
theory Cpuset
  imports Util
begin

text \<open>
  Bit sets: the processor sets of \<^verbatim>\<open>kernel/smp/cpuset.c\<close> (a 32-bit word whose bit 0 is the pin flag
  and whose bit \<open>cpu + 1\<close> is processor \<open>cpu\<close>) and the bitmaps of \<^verbatim>\<open>include/ds/bitmap.h\<close> and
  \<^verbatim>\<open>libk/ds/bitmap.c\<close> (an array of bytes).
\<close>

section \<open>Processor sets\<close>

type_synonym cpuset = u32

definition cpuset_init :: "cpuset \<Rightarrow> cpuset" where "cpuset_init cpus = 0"
definition cpuset_clear :: "cpuset \<Rightarrow> cpuset" where "cpuset_clear cpus = 0"
definition cpuset_pin :: "cpuset \<Rightarrow> cpuset" where "cpuset_pin cpus = cpus OR 1"
definition cpuset_unpin :: "cpuset \<Rightarrow> cpuset" where "cpuset_unpin cpus = cpus AND NOT 1"
definition cpuset_is_pinned :: "cpuset \<Rightarrow> bool" where "cpuset_is_pinned cpus \<longleftrightarrow> cpus OR 1 \<noteq> 0"
definition cpuset_copy :: "cpuset \<Rightarrow> cpuset \<Rightarrow> cpuset" where "cpuset_copy dest src = src"

definition cpuset_query_id :: "cpuset \<Rightarrow> nat \<Rightarrow> bool outcome" where
  "cpuset_query_id cpus cpu =
     (if cpu < MAX_CORES then Inr (cpus AND push_bit (cpu + 1) 1 \<noteq> 0) else Inl Panic)"

definition cpuset_set_id :: "cpuset \<Rightarrow> nat \<Rightarrow> bool \<Rightarrow> cpuset outcome" where
  "cpuset_set_id cpus cpu val =
     (if cpu < MAX_CORES then
        Inr (if val then cpus OR push_bit (cpu + 1) 1 else cpus AND NOT (push_bit (cpu + 1) 1))
      else Inl Panic)"

text \<open>The set of processors a word stands for.\<close>

definition members :: "cpuset \<Rightarrow> nat set" where
  "members cpus = {cpu. cpu < MAX_CORES \<and> bit cpus (cpu + 1)}"

definition pinned :: "cpuset \<Rightarrow> bool" where "pinned cpus = bit cpus 0"

lemma and_push_one: "(w AND push_bit n 1 \<noteq> (0 :: 'a :: len word)) = bit w n"
  by (simp add: and_exp_eq_0_iff_not_bit)

lemma query_members: "cpu < MAX_CORES \<Longrightarrow> cpuset_query_id cpus cpu = Inr (cpu \<in> members cpus)"
  unfolding cpuset_query_id_def members_def and_push_one by simp

lemma set_id_bits:
  assumes "cpuset_set_id cpus cpu val = Inr cpus'"
  shows "bit cpus' n = (if n = cpu + 1 then val else bit cpus n)"
  using assms MAX_CORES_def bit_imp_le_length [of cpus n]
  by (auto simp: cpuset_set_id_def bit_simps possible_bit_word split: if_splits)

text \<open>cpuset_is_pinned or-s the word with 1 instead of masking it, so it does not test the flag.\<close>

lemma is_pinned_always: "cpuset_is_pinned cpus"
proof -
  have "w OR 1 \<noteq> 0" for w :: u32 by (metis bit_1_0 bit_or_iff bit_0_eq bot_apply bot_bool_def)
  then show ?thesis by (simp add: cpuset_is_pinned_def)
qed

text \<open>
  The processor sets implement finite sets of processor numbers: clearing gives the empty set,
  cpuset_set_id adds or removes exactly one member and keeps the pin flag, cpuset_query_id is
  membership, pinning and unpinning change the flag and no member, and numbers from MAX_CORES
  on stop the machine.  Only cpuset_is_pinned does not read the flag: it is true of an unpinned
  set as well.
\<close>

lemma cpuset_refines_set:
  "members (cpuset_clear cpus) = {} \<and> members (cpuset_init cpus) = {} \<and>
   members (cpuset_copy dest cpus) = members cpus \<and>
   (cpu < MAX_CORES \<longrightarrow> (\<exists>cpus'. cpuset_set_id cpus cpu val = Inr cpus' \<and> pinned cpus' = pinned cpus \<and>
      members cpus' = (if val then insert cpu (members cpus) else members cpus - {cpu}))) \<and>
   (cpu < MAX_CORES \<longrightarrow> cpuset_query_id cpus cpu = Inr (cpu \<in> members cpus)) \<and>
   (\<not> cpu < MAX_CORES \<longrightarrow> cpuset_query_id cpus cpu = Inl Panic \<and> cpuset_set_id cpus cpu val = Inl Panic) \<and>
   members (cpuset_pin cpus) = members cpus \<and> members (cpuset_unpin cpus) = members cpus \<and>
   pinned (cpuset_pin cpus) \<and> \<not> pinned (cpuset_unpin cpus) \<and>
   cpuset_is_pinned (cpuset_pin cpus) \<and> cpuset_is_pinned (cpuset_unpin cpus)"
proof (intro conjI)
  show "cpu < MAX_CORES \<longrightarrow> (\<exists>cpus'. cpuset_set_id cpus cpu val = Inr cpus' \<and> pinned cpus' = pinned cpus \<and>
      members cpus' = (if val then insert cpu (members cpus) else members cpus - {cpu}))"
  proof (cases "cpuset_set_id cpus cpu val")
    case (Inr cpus')
    then show ?thesis using set_id_bits [OF Inr] by (auto simp: pinned_def members_def)
  qed (auto simp: cpuset_set_id_def split: if_splits)
  show "cpu < MAX_CORES \<longrightarrow> cpuset_query_id cpus cpu = Inr (cpu \<in> members cpus)"
    by (simp add: query_members)
  show "\<not> cpu < MAX_CORES \<longrightarrow> cpuset_query_id cpus cpu = Inl Panic \<and> cpuset_set_id cpus cpu val = Inl Panic"
    by (simp add: cpuset_query_id_def cpuset_set_id_def)
qed (auto simp: cpuset_clear_def cpuset_init_def cpuset_copy_def members_def cpuset_pin_def
    cpuset_unpin_def pinned_def bit_simps is_pinned_always dest: bit_imp_le_length)

lemma cpuset_refines_set_example: "\<exists>c. cpuset_set_id 0 3 True = Inr c \<and> members c = {3}"
proof -
  have "3 < MAX_CORES" by (simp add: MAX_CORES_def)
  moreover have "members 0 = {}" by (simp add: members_def)
  ultimately show ?thesis using cpuset_refines_set [of 0 0 3 True] by auto
qed

section \<open>Bitmaps\<close>

type_synonym bitmap = "nat \<Rightarrow> u8"

definition bitmap_test :: "bitmap \<Rightarrow> nat \<Rightarrow> u8" where
  "bitmap_test m which = m (which div 8) AND push_bit (which mod 8) 1"

definition bitmap_set :: "bitmap \<Rightarrow> nat \<Rightarrow> bitmap" where
  "bitmap_set m which = m(which div 8 := m (which div 8) OR push_bit (which mod 8) 1)"

definition bitmap_clear :: "bitmap \<Rightarrow> nat \<Rightarrow> bitmap" where
  "bitmap_clear m which = m(which div 8 := m (which div 8) AND NOT (push_bit (which mod 8) 1))"

definition bitmap_toggle :: "bitmap \<Rightarrow> nat \<Rightarrow> bitmap" where
  "bitmap_toggle m which = m(which div 8 := m (which div 8) XOR push_bit (which mod 8) 1)"

definition bitmap_write :: "bitmap \<Rightarrow> nat \<Rightarrow> bool \<Rightarrow> bitmap" where
  "bitmap_write m which state = m(which div 8 := m (which div 8) XOR
     ((- (of_bool state) XOR m (which div 8)) AND push_bit (which mod 8) 1))"

function hole_loop :: "bitmap \<Rightarrow> nat \<Rightarrow> nat \<Rightarrow> nat \<Rightarrow> nat \<Rightarrow> nat option" where
  "hole_loop m sz hole_size i temp =
     (if i < sz then
        if temp = hole_size then Some (i - temp)
        else if bitmap_test m i = 0 then hole_loop m sz hole_size (i + 1) (temp + 1)
        else hole_loop m sz hole_size (i + 1) 0
      else None)"
  by pat_completeness auto
termination
  by (relation "measure (\<lambda>(m, sz, hole_size, i, temp). sz - i)") auto

declare hole_loop.simps [simp del]

text \<open>The result is an \<^verbatim>\<open>int\<close>, -1 when the loop ends without a hole.\<close>

definition bitmap_find_hole :: "bitmap \<Rightarrow> nat \<Rightarrow> nat \<Rightarrow> 32 word" where
  "bitmap_find_hole m sz hole_size =
     (case hole_loop m sz hole_size 0 0 of Some j \<Rightarrow> of_nat j | None \<Rightarrow> - 1)"

definition marked :: "bitmap \<Rightarrow> nat \<Rightarrow> bool" where
  "marked m which = bit (m (which div 8)) (which mod 8)"

lemma bitmap_test_marked: "(bitmap_test m which \<noteq> 0) = marked m which"
  by (simp only: bitmap_test_def marked_def and_push_one)

lemma same_bit: "(which div 8 = i div 8 \<and> which mod 8 = i mod 8) = (which = (i :: nat))"
  by (metis div_mult_mod_eq)

definition hole_at :: "bitmap \<Rightarrow> nat \<Rightarrow> nat \<Rightarrow> bool" where
  "hole_at m hole_size j \<longleftrightarrow> (\<forall>k < hole_size. \<not> marked m (j + k))"

lemma hole_loop_ok:
  assumes "temp \<le> h" "temp \<le> i" "hole_at m temp (i - temp)" "\<forall>j < i - temp. \<not> hole_at m h j" "i \<le> sz"
  shows "case hole_loop m sz h i temp of
    Some j \<Rightarrow> j + h < sz \<and> hole_at m h j \<and> (\<forall>j' < j. \<not> hole_at m h j')
  | None \<Rightarrow> \<forall>j. j + h < sz \<longrightarrow> \<not> hole_at m h j"
  using assms
proof (induction m sz h i temp rule: hole_loop.induct)
  case (1 m sz h i temp)
  show ?case
  proof (cases "i < sz \<and> temp \<noteq> h")
    case False
    then show ?thesis using "1.prems" by (auto simp: hole_loop.simps [of m sz h i temp])
  next
    case T: True
    show ?thesis
    proof (cases "marked m i")
      case False
      have "hole_at m (temp + 1) (i + 1 - (temp + 1))"
        using "1.prems"(2,3) False by (auto simp: hole_at_def less_Suc_eq)
      then show ?thesis using "1.IH"(1) "1.prems" T False
        by (auto simp: hole_loop.simps [of m sz h i temp] bitmap_test_marked [symmetric])
    next
      case True
      have "\<not> hole_at m h j" if "j < i + 1" for j
      proof (cases "j < i - temp")
        case False
        then have "i - j < h" using T "1.prems"(1,2) by linarith
        then show ?thesis using True that by (auto simp: hole_at_def intro!: exI [of _ "i - j"])
      qed (use "1.prems"(4) in simp)
      then show ?thesis using "1.IH"(2) T True
        by (auto simp: hole_loop.simps [of m sz h i temp] bitmap_test_marked [symmetric] hole_at_def)
    qed
  qed
qed

text \<open>
  The bitmap macros read and write single bits: set, clear, toggle and the branch-free write
  change the addressed bit as named and no other.
\<close>

lemma bitmap_bits:
  "marked (bitmap_set m w) i = (i = w \<or> marked m i) \<and>
   marked (bitmap_clear m w) i = (i \<noteq> w \<and> marked m i) \<and>
   marked (bitmap_toggle m w) i = (marked m i \<noteq> (i = w)) \<and>
   marked (bitmap_write m w state) i = (if i = w then state else marked m i) \<and>
   (bitmap_test m i \<noteq> 0) = marked m i"
proof (intro conjI)
  have d: "i div 8 = w div 8 \<Longrightarrow> (w mod 8 = i mod 8) = (i = w)" by (metis same_bit)
  have b: "i mod 8 < 8" "w mod 8 < 8" by simp_all
  show "marked (bitmap_set m w) i = (i = w \<or> marked m i)"
    using d b by (auto simp: marked_def bitmap_set_def bit_or_iff bit_exp_iff possible_bit_word)
  show "marked (bitmap_clear m w) i = (i \<noteq> w \<and> marked m i)"
    using d b by (auto simp: marked_def bitmap_clear_def bit_and_iff bit_not_iff bit_exp_iff possible_bit_word)
  show "marked (bitmap_toggle m w) i = (marked m i \<noteq> (i = w))"
    using d b by (auto simp: marked_def bitmap_toggle_def bit_xor_iff bit_exp_iff possible_bit_word)
  show "marked (bitmap_write m w state) i = (if i = w then state else marked m i)"
    using d b by (cases state) (auto simp: marked_def bitmap_write_def bit_xor_iff bit_and_iff bit_exp_iff
      bit_not_iff possible_bit_word)
qed (rule bitmap_test_marked)

text \<open>
  bitmap_find_hole terminates and returns the first run of hole_size clear bits that ends before
  the last bit of the map, or -1 when there is none: a run that reaches the end of the map is
  not found, even when it is the only one.
\<close>

lemma bitmap_find_hole_correct:
  assumes "sz < 2 ^ 31"
  shows "if \<exists>j. j + h < sz \<and> hole_at m h j
    then sint (bitmap_find_hole m sz h) = int (LEAST j. j + h < sz \<and> hole_at m h j)
    else sint (bitmap_find_hole m sz h) = - 1"
proof (cases "hole_loop m sz h 0 0")
  case None
  then have "\<not> (\<exists>j. j + h < sz \<and> hole_at m h j)"
    using hole_loop_ok [of 0 h 0 m sz] by (auto simp: hole_at_def)
  then show ?thesis using None by (auto simp: bitmap_find_hole_def)
next
  case (Some j)
  then have j: "j + h < sz" "hole_at m h j" "\<forall>j' < j. \<not> hole_at m h j'"
    using hole_loop_ok [of 0 h 0 m sz] by (auto simp: hole_at_def)
  then have "(LEAST j. j + h < sz \<and> hole_at m h j) = j"
    by (intro Least_equality) (auto simp: not_less [symmetric])
  moreover have "sint (of_nat j :: 32 word) = int j"
    using j(1) assms by (simp add: signed_of_nat signed_take_bit_int_eq_self)
  ultimately show ?thesis using j Some by (auto simp: bitmap_find_hole_def)
qed

lemma bitmap_find_hole_correct_example:
  "sint (bitmap_find_hole (\<lambda>i. 1) 8 7) = - 1 \<and> hole_at (\<lambda>i. 1) 7 1 \<and>
   sint (bitmap_find_hole (\<lambda>i. 1) 9 7) = 1"
proof -
  let ?m = "\<lambda>i :: nat. 1 :: u8"
  have m: "marked ?m k = (k mod 8 = 0)" for k by (simp add: marked_def bit_1_iff)
  have h: "hole_at ?m 7 1" by (auto simp: hole_at_def m)
  have n: "\<not> hole_at ?m 7 0" by (auto simp: hole_at_def m)
  have "(LEAST j. j + 7 < 9 \<and> hole_at ?m 7 j) = 1"
  proof (rule Least_equality)
    show "1 + 7 < (9 :: nat) \<and> hole_at ?m 7 1" using h by simp
    show "1 \<le> y" if "y + 7 < 9 \<and> hole_at ?m 7 y" for y using that n by (cases y) simp_all
  qed
  moreover have "\<exists>j. j + 7 < 9 \<and> hole_at ?m 7 j" using h by (intro exI [of _ 1]) simp
  ultimately have "sint (bitmap_find_hole ?m 9 7) = 1"
    using bitmap_find_hole_correct [of 9 7 ?m] by (simp only: if_True) simp
  moreover have "\<not> (\<exists>j. j + 7 < 8 \<and> hole_at ?m 7 j)" using n by auto
  ultimately show ?thesis using bitmap_find_hole_correct [of 8 7 ?m] h by auto
qed

end
