(* ===== verification/Isr.thy ===== *)
theory Isr
  imports Util
begin

text \<open>
  The interrupt descriptor table of \<^verbatim>\<open>kernel/cpu/idt.c\<close>, the table of handlers of
  \<^verbatim>\<open>kernel/cpu/isr.c\<close>, the entries \<^verbatim>\<open>kernel/cpu/exceptions.c\<close> makes in it, and the entry stubs of
  \<^verbatim>\<open>kernel/cpu/isr_stubs.asm\<close>.  Both tables have 256 entries and are indexed by a byte.  A handler
  is named by the C function installed; the addresses of the entry stubs are a parameter, since
  the linker chooses them.  The properties say which gate every vector gets, and which table
  entry the dispatcher looks at when a vector is raised.
\<close>

section \<open>Vectors\<close>

definition IRQ_APIC_SPURIOUS :: u8 where "IRQ_APIC_SPURIOUS = 0xFF"
definition IRQ_APIC_BASE :: u8 where "IRQ_APIC_BASE = 0x30"
definition IRQ_LINT_BASE :: u8 where "IRQ_LINT_BASE = IRQ_APIC_SPURIOUS - 3"
definition IRQ_LINT_TIMER :: u8 where "IRQ_LINT_TIMER = IRQ_LINT_BASE + 2"
definition IRQ_NMI :: u8 where "IRQ_NMI = IRQ_LINT_BASE - 1"
definition IRQ_IPI_TOP :: u8 where "IRQ_IPI_TOP = IRQ_NMI - 1"
definition IRQ_IPI_ABORT :: u8 where "IRQ_IPI_ABORT = IRQ_IPI_TOP - 0"
definition IRQ_IPI_TLB_SHOOTDOWN :: u8 where "IRQ_IPI_TLB_SHOOTDOWN = IRQ_IPI_TOP - 1"
definition IRQ_IPI_SCHED_HINT :: u8 where "IRQ_IPI_SCHED_HINT = IRQ_IPI_TOP - 2"

lemmas vector_defs = IRQ_APIC_SPURIOUS_def IRQ_APIC_BASE_def IRQ_LINT_BASE_def IRQ_LINT_TIMER_def
  IRQ_NMI_def IRQ_IPI_TOP_def IRQ_IPI_ABORT_def IRQ_IPI_TLB_SHOOTDOWN_def IRQ_IPI_SCHED_HINT_def

definition IST_NONE :: u8 where "IST_NONE = 0"
definition IST_NMI :: u8 where "IST_NMI = 1"
definition IST_DOUBLE_FAULT :: u8 where "IST_DOUBLE_FAULT = 2"

section \<open>State\<close>

record idt_entry =
  offset_low :: u16
  selector :: u16
  ist_index :: u8
  type_attr :: u8
  offset_mid :: u16
  offset_high :: u32
  idt_zero :: u32

datatype isr_type = ISR_IRQ | ISR_EXCEPTION | ISR_IPI | ISR_NOP

datatype isr_handler =
    Page_fault_handler | Exception_handler | Lapic_timer_callback | Ps2kbd_irq_handler
  | Ipi_tlb_shootdown | Ipi_sched_hint | Ipi_abort

record isr_info =
  isr_type :: isr_type
  handler :: "isr_handler option"

text \<open>\<open>outbs\<close> lists the bytes written to ports, the oldest first.\<close>

record interrupts =
  idt64 :: "u8 \<Rightarrow> idt_entry"
  isr_table :: "u8 \<Rightarrow> isr_info"
  outbs :: "(u16 \<times> u8) list"
  intr_flag :: bool
  idt_loaded :: bool

section \<open>Descriptors\<close>

definition idt_set_gate :: "u8 \<Rightarrow> u64 \<Rightarrow> u8 \<Rightarrow> u8 \<Rightarrow> (u8 \<Rightarrow> idt_entry) \<Rightarrow> u8 \<Rightarrow> idt_entry" where
  "idt_set_gate index entry ist attr idt = idt(index :=
     \<lparr>offset_low = ucast (entry AND 0xFFFF), selector = 0x08, ist_index = ist, type_attr = attr,
      offset_mid = ucast (drop_bit 16 (entry AND 0xFFFF0000)),
      offset_high = ucast (drop_bit 32 (entry AND 0xFFFFFFFF00000000)), idt_zero = 0\<rparr>)"

definition idt_install_cli :: "(u8 \<Rightarrow> u64) \<Rightarrow> u8 \<Rightarrow> nat \<Rightarrow> (u8 \<Rightarrow> idt_entry) \<Rightarrow> u8 \<Rightarrow> idt_entry" where
  "idt_install_cli stub ist i = idt_set_gate (of_nat i) (stub (of_nat i)) ist 0x8E"

definition idt_install_sti :: "(u8 \<Rightarrow> u64) \<Rightarrow> u8 \<Rightarrow> nat \<Rightarrow> (u8 \<Rightarrow> idt_entry) \<Rightarrow> u8 \<Rightarrow> idt_entry" where
  "idt_install_sti stub ist i = idt_set_gate (of_nat i) (stub (of_nat i)) ist 0x8F"

text \<open>The 256 calls of \<^verbatim>\<open>idt_init\<close>, by runs of equal macro and stack.\<close>

definition idt_init :: "(u8 \<Rightarrow> u64) \<Rightarrow> (u8 \<Rightarrow> idt_entry) \<Rightarrow> u8 \<Rightarrow> idt_entry" where
  "idt_init stub idt =
     (let i1 = fold (idt_install_cli stub IST_NONE) [0..<2] idt;
          i2 = idt_install_cli stub IST_NMI 2 i1;
          i3 = fold (idt_install_cli stub IST_NONE) [3..<8] i2;
          i4 = idt_install_cli stub IST_DOUBLE_FAULT 8 i3;
          i5 = fold (idt_install_cli stub IST_NONE) [9..<32] i4;
          i6 = fold (idt_install_sti stub IST_NONE) [32..<252] i5;
          i7 = idt_install_cli stub IST_NMI 252 i6
      in fold (idt_install_sti stub IST_NONE) [253..<256] i7)"

section \<open>The table of handlers\<close>

definition outb :: "u16 \<Rightarrow> u8 \<Rightarrow> interrupts \<Rightarrow> interrupts" where
  "outb port val s = s\<lparr>outbs := outbs s @ [(port, val)]\<rparr>"

definition isr_set_info :: "u8 \<Rightarrow> isr_info \<Rightarrow> interrupts \<Rightarrow> interrupts" where
  "isr_set_info vec info s = s\<lparr>isr_table := (isr_table s)(vec := info)\<rparr>"

definition isr_init :: "interrupts \<Rightarrow> interrupts" where
  "isr_init s =
     (let s1 = fold (\<lambda>(port, val). outb port val)
            [(0x20, 0x11), (0xA0, 0x11), (0x21, 0x20), (0xA1, 0x28), (0x21, 0x04), (0xA1, 0x02),
             (0x21, 0x01), (0xA1, 0x01), (0x21, 0x00), (0xA1, 0x00), (0xA1, 0xFF), (0x21, 0xFF)] s
      in s1\<lparr>isr_table := (\<lambda>v. \<lparr>isr_type = ISR_IRQ, handler = None\<rparr>), intr_flag := False\<rparr>)"

definition INT_PAGE_FAULT :: nat where "INT_PAGE_FAULT = 14"

definition exceptions_init :: "interrupts \<Rightarrow> interrupts" where
  "exceptions_init s =
     (let s1 = fold (\<lambda>i. isr_set_info (of_nat i)
            \<lparr>isr_type = ISR_EXCEPTION,
             handler = Some (if i = INT_PAGE_FAULT then Exception_handler else Page_fault_handler)\<rparr>)
            [0..<32] s
      in isr_set_info IRQ_NMI \<lparr>isr_type = ISR_EXCEPTION, handler = Some Exception_handler\<rparr> s1)"

definition idt_load :: "interrupts \<Rightarrow> interrupts" where
  "idt_load s = s\<lparr>idt_loaded := True\<rparr>"

definition interrupts_init :: "(u8 \<Rightarrow> u64) \<Rightarrow> interrupts \<Rightarrow> interrupts" where
  "interrupts_init stub s = idt_load (exceptions_init (isr_init (s\<lparr>idt64 := idt_init stub (idt64 s)\<rparr>)))"

section \<open>Entry stubs\<close>

text \<open>
  What a stub puts below the interrupt frame before it enters the dispatcher: the field
  \<^verbatim>\<open>info\<close> of \<^verbatim>\<open>struct isr_ctx\<close>.  \<open>err\<close> is the error code the processor has pushed, if it pushes one.
\<close>

datatype stub = Stub_err | Stub_noerr | Stub_irq | Stub_nop | Stub_ipi

definition stub_of :: "u8 \<Rightarrow> stub" where
  "stub_of v =
     (if v \<in> {8, 10, 11, 12, 13, 14, 17, 30} then Stub_err
      else if v < 32 then Stub_noerr
      else if v < 48 then Stub_nop
      else if v < 248 then Stub_irq
      else if v < 251 then Stub_ipi
      else if v = 251 then Stub_noerr
      else if v < 255 then Stub_irq
      else Stub_nop)"

fun stub_info :: "stub \<Rightarrow> u8 \<Rightarrow> u32 \<Rightarrow> u64 option" where
  "stub_info Stub_err v err = Some (ucast err OR push_bit 32 (ucast v))"
| "stub_info Stub_noerr v err = Some (push_bit 32 (ucast v))"
| "stub_info Stub_irq v err = Some (ucast v)"
| "stub_info Stub_ipi v err = Some (ucast v)"
| "stub_info Stub_nop v err = None"

definition int_no :: "u64 \<Rightarrow> u8" where
  "int_no info = ucast (info AND 0xFF)"

text \<open>The table entry the dispatcher uses for a vector, or \<open>None\<close> when the stub just returns.\<close>

definition dispatch :: "(u8 \<Rightarrow> isr_info) \<Rightarrow> u8 \<Rightarrow> u32 \<Rightarrow> isr_info option" where
  "dispatch tbl v err = map_option (\<lambda>info. tbl (int_no info)) (stub_info (stub_of v) v err)"

section \<open>Properties\<close>

text \<open>The address the processor reads from a gate.\<close>

definition gate_offset :: "idt_entry \<Rightarrow> u64" where
  "gate_offset e = ucast (offset_low e) OR push_bit 16 (ucast (offset_mid e)) OR push_bit 32 (ucast (offset_high e))"

definition gate :: "u64 \<Rightarrow> u8 \<Rightarrow> u8 \<Rightarrow> idt_entry" where
  "gate entry ist attr = idt_set_gate 0 entry ist attr (\<lambda>v. undefined) 0"

lemma set_gate: "idt_set_gate index entry ist attr idt = idt(index := gate entry ist attr)"
  by (simp add: gate_def idt_set_gate_def)

lemma gate_fields:
  "selector (gate entry ist attr) = 8" "ist_index (gate entry ist attr) = ist"
  "type_attr (gate entry ist attr) = attr" "idt_zero (gate entry ist attr) = 0"
  by (simp_all add: gate_def idt_set_gate_def)

lemma mask_field_bits:
  "(0xFFFF :: u64) = mask 16" "(0xFFFF0000 :: u64) = push_bit 16 (mask 16)"
  "(0xFFFFFFFF00000000 :: u64) = push_bit 32 (mask 32)"
  by (simp_all add: mask_eq_exp_minus_1 push_bit_eq_mult)

lemma gate_roundtrip: "gate_offset (gate entry ist attr) = entry"
proof (rule bit_word_eqI)
  fix n assume "n < LENGTH(64)"
  then show "bit (gate_offset (gate entry ist attr)) n = bit entry n"
    unfolding gate_offset_def gate_def idt_set_gate_def mask_field_bits
    by (cases "n < 16"; cases "n < 32") (auto simp: bit_simps)
qed

lemma unat_of_nat_u8: "i < 256 \<Longrightarrow> unat (of_nat i :: u8) = i"
  by (simp add: unat_of_nat)

lemma of_nat_u8_eq: "i < 256 \<Longrightarrow> (of_nat i = (v :: u8)) = (i = unat v)"
  using unat_of_nat_u8 [of i] by (auto simp: word_unat_eq_iff)

lemma fold_update:
  assumes "\<And>i f. i \<in> set is \<Longrightarrow> g i f = f(of_nat i := e (of_nat i))" and "set is \<subseteq> {..<256}"
  shows "fold g is f v = (if unat v \<in> set is then e v else f (v :: u8))"
  using assms
proof (induction "is" arbitrary: f)
  case (Cons i "is")
  have "fold g is (g i f) v = (if unat v \<in> set is then e v else g i f v)"
    using Cons.prems by (intro Cons.IH) auto
  moreover have "g i f = f(of_nat i := e (of_nat i))" by (rule Cons.prems(1)) simp
  moreover have "(of_nat i = v) = (i = unat v)" using Cons.prems(2) of_nat_u8_eq [of i v] by simp
  ultimately show ?case by auto
qed simp

lemma idt_init_gate:
  "idt_init stub idt v = gate (stub v)
     (if v = 2 \<or> v = 252 then IST_NMI else if v = 8 then IST_DOUBLE_FAULT else IST_NONE)
     (if v < 32 \<or> v = 252 then 0x8E else 0x8F)"
proof -
  have cli: "idt_install_cli stub ist i f = f(of_nat i := gate (stub (of_nat i)) ist 0x8E)" for ist i f
    by (simp add: idt_install_cli_def set_gate)
  have sti: "idt_install_sti stub ist i f = f(of_nat i := gate (stub (of_nat i)) ist 0x8F)" for ist i f
    by (simp add: idt_install_sti_def set_gate)
  have runs: "fold (idt_install_cli stub IST_NONE) [a..<b] f v =
      (if a \<le> unat v \<and> unat v < b then gate (stub v) IST_NONE 0x8E else f v)"
    "fold (idt_install_sti stub IST_NONE) [a..<b] f v =
      (if a \<le> unat v \<and> unat v < b then gate (stub v) IST_NONE 0x8F else f v)" if "b \<le> 256" for a b f
    using fold_update [where g = "idt_install_cli stub IST_NONE" and e = "\<lambda>v. gate (stub v) IST_NONE 0x8E", OF cli, of "[a..<b]" f v]
      fold_update [where g = "idt_install_sti stub IST_NONE" and e = "\<lambda>v. gate (stub v) IST_NONE 0x8F", OF sti, of "[a..<b]" f v]
      that by (auto simp: subset_iff)
  have one: "idt_install_cli stub ist i f v = (if unat v = i then gate (stub v) ist 0x8E else f v)"
    if "i < 256" for ist i f using of_nat_u8_eq [OF that, of v] by (auto simp: cli)
  have v: "unat v < 256" using unsigned_less [of v, where ?'a = nat] by simp
  have c: "v = 2 \<longleftrightarrow> unat v = 2" "v = 252 \<longleftrightarrow> unat v = 252" "v = 8 \<longleftrightarrow> unat v = 8" "v < 32 \<longleftrightarrow> unat v < 32"
    by (simp_all add: word_unat_eq_iff word_less_nat_alt)
  show ?thesis
    unfolding idt_init_def Let_def c
    using v by (simp add: runs one del: upt_rec_numeral upt_Suc)
qed

definition exception_info :: "u8 \<Rightarrow> isr_info" where
  "exception_info v = \<lparr>isr_type = ISR_EXCEPTION, handler = Some (if v = 14 then Exception_handler else Page_fault_handler)\<rparr>"

lemma exceptions_loop:
  assumes "set is \<subseteq> {..<256}"
  shows "isr_table (fold (\<lambda>i. isr_set_info (of_nat i)
            \<lparr>isr_type = ISR_EXCEPTION,
             handler = Some (if i = INT_PAGE_FAULT then Exception_handler else Page_fault_handler)\<rparr>) is s) =
      fold (\<lambda>i f. f(of_nat i := exception_info (of_nat i))) is (isr_table s)"
  using assms
proof (induction "is" arbitrary: s)
  case (Cons i "is")
  then have "(of_nat i = (14 :: u8)) = (i = INT_PAGE_FAULT)"
    using of_nat_u8_eq [of i 14] by (simp add: INT_PAGE_FAULT_def)
  then show ?case using Cons by (simp add: isr_set_info_def exception_info_def fun_upd_def)
qed simp

lemma exceptions_init_table:
  "isr_table (exceptions_init s) v =
     (if v = IRQ_NMI then \<lparr>isr_type = ISR_EXCEPTION, handler = Some Exception_handler\<rparr>
      else if v < 32 then exception_info v else isr_table s v)"
proof -
  have "fold (\<lambda>i f. f(of_nat i := exception_info (of_nat i))) [0..<32] f v =
      (if unat v \<in> set [0..<32] then exception_info v else f v)" for f
    by (rule fold_update) (auto simp: subset_iff)
  then have "fold (\<lambda>i f. f(of_nat i := exception_info (of_nat i))) [0..<32] f v =
      (if v < 32 then exception_info v else f v)" for f
    by (simp add: word_less_nat_alt del: upt_rec_numeral)
  then show ?thesis
    using exceptions_loop [of "[0..<32]" s]
    by (simp add: exceptions_init_def Let_def isr_set_info_def [of IRQ_NMI] subset_iff del: upt_rec_numeral)
qed

lemma isr_table_init:
  "isr_table (interrupts_init stub s) v =
     (if v = IRQ_NMI then \<lparr>isr_type = ISR_EXCEPTION, handler = Some Exception_handler\<rparr>
      else if v < 32 then exception_info v else \<lparr>isr_type = ISR_IRQ, handler = None\<rparr>)"
  by (simp add: interrupts_init_def idt_load_def exceptions_init_table isr_init_def)

text \<open>
  C36. \<^verbatim>\<open>interrupts_init\<close> fills every gate of the interrupt table: the address in the gate of a vector
  is the address of the stub of that vector, for every 64-bit address, in the code segment of
  the kernel and with no reserved bit set.  Exceptions get interrupt gates, which mask further
  interrupts, and the double fault and the external non-maskable interrupt their own stacks.
  The vector the local APIC raises for non-maskable interrupts does not: \<^verbatim>\<open>IRQ_NMI\<close> is 251, and
  the gate meant for it is that of 252.  The two interrupt controllers are masked, with their
  last mask bytes 0xFF.
\<close>

theorem interrupts_init_gates:
  "let s' = interrupts_init stub s; e = idt64 s' v; nmi = idt64 s' IRQ_NMI in
     gate_offset e = stub v \<and> selector e = 0x08 \<and> idt_zero e = 0 \<and>
     type_attr e = (if v < 32 \<or> v = 252 then 0x8E else 0x8F) \<and>
     ist_index e = (if v = 2 \<or> v = 252 then IST_NMI else if v = 8 then IST_DOUBLE_FAULT else IST_NONE) \<and>
     type_attr nmi = 0x8F \<and> ist_index nmi = IST_NONE \<and>
     outbs s' = take (length (outbs s') - 2) (outbs s') @ [(0xA1, 0xFF), (0x21, 0xFF)] \<and>
     \<not> intr_flag s' \<and> idt_loaded s'"
proof -
  let ?s = "interrupts_init stub s"
  have fr: "idt64 (fold (\<lambda>i. isr_set_info (g i) (h i)) is s) = idt64 s \<and>
      outbs (fold (\<lambda>i. isr_set_info (g i) (h i)) is s) = outbs s \<and>
      intr_flag (fold (\<lambda>i. isr_set_info (g i) (h i)) is s) = intr_flag s" for g h "is" s
    by (induction "is" arbitrary: s) (simp_all add: isr_set_info_def)
  have "idt64 ?s = idt_init stub (idt64 s)"
    by (simp add: interrupts_init_def idt_load_def exceptions_init_def Let_def isr_set_info_def [of IRQ_NMI] fr
        isr_init_def outb_def del: upt_rec_numeral)
  moreover have "\<exists>out. outbs ?s = out @ [(0xA1, 0xFF), (0x21, 0xFF)]" "\<not> intr_flag ?s" "idt_loaded ?s"
    by (simp_all add: interrupts_init_def idt_load_def exceptions_init_def Let_def isr_set_info_def [of IRQ_NMI] fr
        isr_init_def outb_def del: upt_rec_numeral)
  ultimately show ?thesis
    by (auto simp: Let_def idt_init_gate gate_roundtrip gate_fields vector_defs)
qed

lemma int_no_bits: "bit (int_no info) n = (n < 8 \<and> bit info n)"
proof -
  have "(0xFF :: u64) = mask 8" by (simp add: mask_eq_exp_minus_1)
  then have "int_no info = ucast (info AND mask 8)" by (simp add: int_no_def)
  then show ?thesis by (auto simp: bit_simps)
qed

lemma int_no_stub:
  "int_no (ucast v) = v" "int_no (push_bit 32 (ucast v)) = 0"
  "int_no (ucast err OR push_bit 32 (ucast v)) = ucast err" for v :: u8 and err :: u32
  by (auto intro!: bit_word_eqI simp: int_no_bits bit_simps)

text \<open>
  C37. Which handler an interrupt reaches after \<^verbatim>\<open>interrupts_init\<close>.  Interrupts of devices and of other
  processors are dispatched by their vector; nothing is installed for the three vectors that
  processors send each other.  Exceptions are not dispatched by their vector: the stub puts it
  into the upper half of the word whose lower byte the dispatcher reads.  Every exception
  without an error code runs the page fault handler, and one with an error code runs whatever
  is installed for the low byte of the code; for page faults this is the page fault handler
  only because \<^verbatim>\<open>exceptions_init\<close> installs it for every vector but its own.
\<close>

theorem interrupt_dispatch:
  "let tbl = isr_table (interrupts_init stub s) in
     (48 \<le> v \<and> v < 255 \<and> v \<noteq> IRQ_NMI \<longrightarrow> dispatch tbl v err = Some (tbl v)) \<and>
     handler (tbl IRQ_IPI_TLB_SHOOTDOWN) = None \<and> handler (tbl IRQ_IPI_SCHED_HINT) = None \<and>
     handler (tbl IRQ_IPI_ABORT) = None \<and>
     (stub_of v = Stub_noerr \<longrightarrow> map_option handler (dispatch tbl v err) = Some (Some Page_fault_handler)) \<and>
     (stub_of v = Stub_err \<longrightarrow> dispatch tbl v err = Some (tbl (ucast err))) \<and>
     (err < 32 \<and> err \<noteq> 14 \<longrightarrow> map_option handler (dispatch tbl 14 err) = Some (Some Page_fault_handler)) \<and>
     handler (tbl 14) = Some Exception_handler"
proof -
  have err: "ucast err < (32 :: u8) \<and> ucast err \<noteq> (14 :: u8) \<and> ucast err \<noteq> IRQ_NMI" if "err < 32" "err \<noteq> 14"
  proof -
    have "unat (ucast err :: u8) = unat err"
      using that(1) by (simp add: word_less_nat_alt unsigned_ucast_eq take_bit_nat_eq_self)
    then show ?thesis using that by (simp add: word_less_nat_alt word_unat_eq_iff vector_defs)
  qed
  have st: "stub_of v = Stub_irq \<or> stub_of v = Stub_ipi" if "48 \<le> v \<and> v < 255 \<and> v \<noteq> IRQ_NMI"
    using that by (auto simp: stub_of_def vector_defs word_less_nat_alt word_le_nat_alt)
  have pf: "stub_of 14 = Stub_err" by (simp add: stub_of_def)
  have d: "dispatch tbl v err = Some (tbl v)" if "stub_of v = Stub_irq \<or> stub_of v = Stub_ipi" for tbl
    using that by (auto simp: dispatch_def int_no_stub)
  have e: "dispatch tbl v err = Some (tbl (ucast err))" if "stub_of v = Stub_err" for tbl v
    using that by (simp add: dispatch_def int_no_stub)
  have n: "dispatch tbl v err = Some (tbl 0)" if "stub_of v = Stub_noerr" for tbl
    using that by (simp add: dispatch_def int_no_stub)
  show ?thesis
    unfolding Let_def
    by (intro conjI impI)
       (use err st pf in \<open>simp_all add: d e n isr_table_init exception_info_def vector_defs\<close>)
qed

definition at_reset :: interrupts where
  "at_reset = \<lparr>idt64 = \<lambda>v. gate 0 0 0, isr_table = \<lambda>v. \<lparr>isr_type = ISR_NOP, handler = None\<rparr>,
     outbs = [], intr_flag = True, idt_loaded = False\<rparr>"

theorem interrupt_dispatch_witness:
  "let tbl = isr_table (interrupts_init ucast at_reset) in
     map_option handler (dispatch tbl 6 0) = Some (Some Page_fault_handler) \<and>
     map_option handler (dispatch tbl 14 7) = Some (Some Page_fault_handler) \<and>
     dispatch tbl 0x31 0 = Some (tbl 0x31) \<and> dispatch tbl 13 0x31 = Some (tbl 0x31)"
proof -
  have "stub_of 6 = Stub_noerr" "stub_of 13 = Stub_err" by (simp_all add: stub_of_def)
  moreover have "(0x31 :: u8) \<noteq> IRQ_NMI" by (simp add: vector_defs)
  ultimately show ?thesis
    using interrupt_dispatch [of ucast at_reset 6 0] interrupt_dispatch [of ucast at_reset 14 7]
      interrupt_dispatch [of ucast at_reset "0x31" 0] interrupt_dispatch [of ucast at_reset 13 "0x31"]
    by (simp add: Let_def)
qed

end
