(* ===== verification/Vmm.thy ===== *)
theory Vmm
  imports Slob Cpuset Isr
begin

text \<open>
  Virtual memory: the page tables of \<^verbatim>\<open>kernel/mm/vmm.c\<close> and the TLB shootdown of
  \<^verbatim>\<open>kernel/mm/tlb.c\<close> and \<^verbatim>\<open>kernel/smp/ipi.c\<close>.  Physical memory is split into frames of 512
  words; a \<^verbatim>\<open>struct page_table *\<close>, which points into the linear map, is the number of its frame.
  Every \<^verbatim>\<open>struct mmu_info\<close> is a record, the kernel's own or one at an address of the kernel
  heap.  The translation cache of a processor is the set of addresses of the pages, other than
  global ones, whose translation it may hold.  The locks of the code make each operation a
  single step, and are not part of the state.
\<close>

section \<open>State\<close>

datatype mmu_ref = Kernel_mmu | User_mmu u64

record vm_area =
  area_base :: u64
  area_len :: u64
  area_type :: u32
  area_flags :: u32

record mmu_info =
  p4 :: "nat option"
  users :: u32
  cpus :: cpuset
  areas :: "vm_area list"

record vm =
  frames :: "nat \<Rightarrow> nat \<Rightarrow> u64"
  heap :: slob
  boot_mmap :: mmap
  mmus :: "mmu_ref \<Rightarrow> mmu_info"
  nr_cpus :: nat
  self_id :: nat
  tlb :: "nat \<Rightarrow> u64 set"
  cr3 :: "nat \<Rightarrow> nat option"
  tlb_remaining_cpus :: u32
  vectors :: "u8 \<Rightarrow> isr_info"

abbreviation vm_pmm :: "vm \<Rightarrow> pmm" where "vm_pmm s \<equiv> slob_pmm (heap s)"

definition set_pmm :: "pmm \<Rightarrow> vm \<Rightarrow> vm" where
  "set_pmm st s = s\<lparr>heap := (heap s)\<lparr>slob_pmm := st\<rparr>\<rparr>"

definition set_mmu :: "mmu_ref \<Rightarrow> mmu_info \<Rightarrow> vm \<Rightarrow> vm" where
  "set_mmu m i s = s\<lparr>mmus := (mmus s)(m := i)\<rparr>"

section \<open>Page table entries\<close>

definition PAGE_PRESENT :: u64 where "PAGE_PRESENT = 0x1"
definition PAGE_WRITABLE :: u64 where "PAGE_WRITABLE = 0x2"
definition PAGE_USER_ACCESSIBLE :: u64 where "PAGE_USER_ACCESSIBLE = 0x4"
definition PAGE_DISABLE_CACHE :: u64 where "PAGE_DISABLE_CACHE = 0x10"
definition PAGE_GLOBAL :: u64 where "PAGE_GLOBAL = 0x100"
definition PAGE_COW :: u64 where "PAGE_COW = 0x200"
definition PAGE_EXECUTABLE :: u64 where "PAGE_EXECUTABLE = 0x8000000000000000"
definition VMM_ALLOC_MMAP :: u64 where "VMM_ALLOC_MMAP = 0x8000"
definition VMM_UNMAP :: u64 where "VMM_UNMAP = 0x10000"
definition PTE_ADDR_MASK :: u64 where "PTE_ADDR_MASK = 0x000FFFFFFFFFF000"

definition P4_ADDR_SHIFT :: nat where "P4_ADDR_SHIFT = 39"
definition P3_ADDR_SHIFT :: nat where "P3_ADDR_SHIFT = 30"
definition P2_ADDR_SHIFT :: nat where "P2_ADDR_SHIFT = 21"
definition P1_ADDR_SHIFT :: nat where "P1_ADDR_SHIFT = 12"

text \<open>\<^verbatim>\<open>(va & (0x1FF << shift)) >> shift\<close>\<close>

definition table_index :: "nat \<Rightarrow> u64 \<Rightarrow> nat" where
  "table_index shift va = unat (drop_bit shift (va AND push_bit shift 0x1FF))"

definition pgtab_extract_virt_addr :: "vm \<Rightarrow> nat \<Rightarrow> nat \<Rightarrow> nat option" where
  "pgtab_extract_virt_addr s pgtab i =
     (let entry = frames s pgtab i in
      if entry AND PAGE_PRESENT = 0 then None
      else virt_to_page (phys_to_virt (entry AND PTE_ADDR_MASK)))"

definition set_entry :: "nat \<Rightarrow> nat \<Rightarrow> u64 \<Rightarrow> vm \<Rightarrow> vm" where
  "set_entry pgtab i v s = s\<lparr>frames := (frames s)(pgtab := (frames s pgtab)(i := v))\<rparr>"

definition clear_frame :: "nat \<Rightarrow> vm \<Rightarrow> vm" where
  "clear_frame f s = s\<lparr>frames := (frames s)(f := (\<lambda>i. 0))\<rparr>"

definition copy_frame :: "nat \<Rightarrow> nat \<Rightarrow> vm \<Rightarrow> vm" where
  "copy_frame dest src s = s\<lparr>frames := (frames s)(dest := frames s src)\<rparr>"

section \<open>Translation caches\<close>

definition tlb_flush_single :: "u64 \<Rightarrow> vm \<Rightarrow> vm" where
  "tlb_flush_single addr s =
     s\<lparr>tlb := (tlb s)(self_id s := tlb s (self_id s) - {ALIGNDOWN addr PAGE_SIZE})\<rparr>"

definition write_cr3 :: "nat option \<Rightarrow> vm \<Rightarrow> vm" where
  "write_cr3 f s = s\<lparr>cr3 := (cr3 s)(self_id s := f), tlb := (tlb s)(self_id s := {})\<rparr>"

definition tlb_flush_all :: "vm \<Rightarrow> vm" where
  "tlb_flush_all s = write_cr3 (cr3 s (self_id s)) s"

text \<open>The loop of the interrupt handler; \<open>i + PAGE_SIZE\<close> may wrap, and then the loop does not end.\<close>

partial_function (option) flush_range :: "u64 \<Rightarrow> u64 \<Rightarrow> u64 set \<Rightarrow> u64 set option" where
  "flush_range i end_addr c =
     (if i < end_addr then flush_range (i + PAGE_SIZE) end_addr (c - {ALIGNDOWN i PAGE_SIZE}) else Some c)"

declare flush_range.simps [code]

definition ipi_tlb_shootdown :: "u64 \<Rightarrow> u64 \<Rightarrow> nat \<Rightarrow> vm \<Rightarrow> vm option" where
  "ipi_tlb_shootdown start end_addr cpu s = do {
     c \<leftarrow> flush_range start end_addr (tlb s cpu);
     Some (s\<lparr>tlb := (tlb s)(cpu := c), tlb_remaining_cpus := tlb_remaining_cpus s - 1\<rparr>) }"

text \<open>The processors that get the interrupt: all in the set of the \<^verbatim>\<open>mmu_info\<close> but the caller.\<close>

fun send_ipis :: "cpuset \<Rightarrow> nat \<Rightarrow> nat list \<Rightarrow> u32 \<Rightarrow> (nat list \<times> u32) outcome" where
  "send_ipis cs self [] remaining = Inr ([], remaining)"
| "send_ipis cs self (i # is) remaining =
     (if i = self then send_ipis cs self is remaining
      else obind (cpuset_query_id cs i) (\<lambda>q.
        if q then obind (send_ipis cs self is (remaining + 1)) (\<lambda>(t, n). Inr (i # t, n))
        else send_ipis cs self is remaining))"

text \<open>
  What a processor does on the interrupt: the dispatcher calls the function installed for the
  vector, if there is one.  No other function than \<^verbatim>\<open>ipi_tlb_shootdown\<close> returns to the wait.
\<close>

definition handle_shootdown :: "u64 \<Rightarrow> u64 \<Rightarrow> nat \<Rightarrow> vm \<Rightarrow> vm option" where
  "handle_shootdown start end_addr cpu s =
     (case handler (vectors s IRQ_IPI_TLB_SHOOTDOWN) of
        None \<Rightarrow> Some s
      | Some h \<Rightarrow> if h = Ipi_tlb_shootdown then ipi_tlb_shootdown start end_addr cpu s else None)"

text \<open>
  The wait for \<^verbatim>\<open>tlb_remaining_cpus\<close> to reach zero: the processors that were sent the interrupt
  handle it.  The wait does not end when a handler does not, or when the counter is still
  positive after all of them.
\<close>

fun run_handlers :: "u64 \<Rightarrow> u64 \<Rightarrow> nat list \<Rightarrow> vm \<Rightarrow> vm option" where
  "run_handlers start end_addr [] s = (if tlb_remaining_cpus s = 0 then Some s else None)"
| "run_handlers start end_addr (i # is) s = do {
     s' \<leftarrow> handle_shootdown start end_addr i s;
     run_handlers start end_addr is s' }"

definition tlb_shootdown :: "mmu_ref \<Rightarrow> u64 \<Rightarrow> u64 \<Rightarrow> vm \<Rightarrow> vm outcome option" where
  "tlb_shootdown m start end_addr s =
     (case send_ipis (cpus (mmus s m)) (self_id s) [0..<nr_cpus s] (tlb_remaining_cpus s) of
        Inl e \<Rightarrow> Some (Inl e)
      | Inr (targets, n) \<Rightarrow> map_option Inr (run_handlers start end_addr targets (s\<lparr>tlb_remaining_cpus := n\<rparr>)))"

section \<open>Mapping pages\<close>

text \<open>The flags of an intermediate table are 32 bits wide (\<^verbatim>\<open>unsigned int\<close>).\<close>

definition alloc_pgtab :: "u32 \<Rightarrow> vm \<Rightarrow> (u64 \<times> vm) outcome" where
  "alloc_pgtab alloc_flags s =
     (let flags = PAGE_PRESENT OR PAGE_WRITABLE OR (ucast alloc_flags AND PAGE_USER_ACCESSIBLE) in
      if ucast alloc_flags AND VMM_ALLOC_MMAP \<noteq> 0 then
        obind (mmap_alloc_low (boot_mmap s) PAGE_SIZE MMAP_ALLOC_PA) (\<lambda>(rg, mm).
          if rg_base rg AND 0xFFF = 0
          then Inr ((rg_base rg AND PTE_ADDR_MASK) OR flags, s\<lparr>boot_mmap := mm\<rparr>)
          else Inl Panic)
      else
        obind (pmm_alloc_order (vm_pmm s) 0 0) (\<lambda>(p, st).
          if p = None then Inl Panic
          else Inr ((page_to_phys p AND PTE_ADDR_MASK) OR flags, set_pmm st s)))"

text \<open>
  One level of \<^verbatim>\<open>vmm_map_page\<close>: the table below entry \<open>i\<close>, allocated and cleared when missing;
  \<open>None\<close> when it is missing and the call unmaps.
\<close>

definition next_table :: "bool \<Rightarrow> u32 \<Rightarrow> nat \<Rightarrow> nat \<Rightarrow> vm \<Rightarrow> (nat option \<times> vm) outcome" where
  "next_table unmap pgtab_flags pgtab i s =
     (case pgtab_extract_virt_addr s pgtab i of
        Some t \<Rightarrow> Inr (Some t, s)
      | None \<Rightarrow>
          if unmap then Inr (None, s)
          else obind (alloc_pgtab pgtab_flags s) (\<lambda>(entry, s1).
            let s2 = set_entry pgtab i entry s1 in
            case pgtab_extract_virt_addr s2 pgtab i of
              None \<Rightarrow> Inl Panic
            | Some t \<Rightarrow> Inr (Some t, clear_frame t s2)))"

definition find_leaf :: "bool \<Rightarrow> u32 \<Rightarrow> nat \<Rightarrow> u64 \<Rightarrow> vm \<Rightarrow> (nat option \<times> vm) outcome" where
  "find_leaf unmap pgtab_flags root va s =
     obind (next_table unmap pgtab_flags root (table_index P4_ADDR_SHIFT va) s) (\<lambda>(t3, s3).
     case t3 of None \<Rightarrow> Inr (None, s3) | Some t3 \<Rightarrow>
     obind (next_table unmap pgtab_flags t3 (table_index P3_ADDR_SHIFT va) s3) (\<lambda>(t2, s2).
     case t2 of None \<Rightarrow> Inr (None, s2) | Some t2 \<Rightarrow>
     next_table unmap pgtab_flags t2 (table_index P2_ADDR_SHIFT va) s2))"

definition smp_flush :: "mmu_ref \<Rightarrow> u64 \<Rightarrow> u64 \<Rightarrow> u64 \<Rightarrow> vm \<Rightarrow> vm outcome option" where
  "smp_flush m virt entry flags s =
     (if 1 < nr_cpus s then
        if entry AND PAGE_GLOBAL \<noteq> 0 \<or> flags AND PAGE_GLOBAL \<noteq> 0 then Some (Inl Panic)
        else tlb_shootdown m virt (virt + PAGE_SIZE) s
      else Some (Inr s))"

definition vmm_map_page :: "mmu_ref \<Rightarrow> u64 \<Rightarrow> u64 \<Rightarrow> u64 \<Rightarrow> vm \<Rightarrow> vm outcome option" where
  "vmm_map_page m phys virt flags s =
     (let va = virt AND NOT (PAGE_SIZE - 1);
          unmap = (flags AND VMM_UNMAP \<noteq> 0);
          lowmem = (virt < KERNEL_LOGICAL_BASE);
          pgtab_flags = ucast (flags OR (if lowmem then PAGE_USER_ACCESSIBLE else 0)) :: u32;
          flags = flags XOR PAGE_EXECUTABLE
      in case p4 (mmus s m) of
           None \<Rightarrow> Some (Inl Null_access)
         | Some root \<Rightarrow>
            (case find_leaf unmap pgtab_flags root va s of
               Inl e \<Rightarrow> Some (Inl e)
             | Inr (None, s1) \<Rightarrow> Some (Inr s1)
             | Inr (Some t1, s1) \<Rightarrow>
                 let i = table_index P1_ADDR_SHIFT va in
                 map_option (\<lambda>r. obind r (\<lambda>s2.
                   let entry = (if unmap then 0
                       else (phys AND PTE_ADDR_MASK) OR PAGE_PRESENT OR (flags AND NOT VMM_ALLOC_MMAP))
                   in Inr (tlb_flush_single virt (set_entry t1 i entry s2))))
                   (smp_flush m virt (frames s1 t1 i) flags s1)))"

text \<open>The address of an entry is the pair of its table and its index.\<close>

definition walk :: "vm \<Rightarrow> nat \<Rightarrow> u64 \<Rightarrow> (nat \<times> nat) option" where
  "walk s root va = do {
     t3 \<leftarrow> pgtab_extract_virt_addr s root (table_index P4_ADDR_SHIFT va);
     t2 \<leftarrow> pgtab_extract_virt_addr s t3 (table_index P3_ADDR_SHIFT va);
     t1 \<leftarrow> pgtab_extract_virt_addr s t2 (table_index P2_ADDR_SHIFT va);
     Some (t1, table_index P1_ADDR_SHIFT va) }"

definition vmm_get_pte :: "vm \<Rightarrow> mmu_ref \<Rightarrow> u64 \<Rightarrow> (nat \<times> nat) option outcome" where
  "vmm_get_pte s m va =
     (case p4 (mmus s m) of None \<Rightarrow> Inl Null_access | Some root \<Rightarrow> Inr (walk s root va))"

definition vmm_has_flags :: "vm \<Rightarrow> mmu_ref \<Rightarrow> u64 \<Rightarrow> u64 \<Rightarrow> bool outcome" where
  "vmm_has_flags s m addr flags =
     (if addr = 0 then Inl Panic
      else obind (vmm_get_pte s m addr) (\<lambda>pte. case pte of
        None \<Rightarrow> Inr False
      | Some (t, i) \<Rightarrow> Inr (frames s t i AND flags \<noteq> 0)))"

end
