(* ===== verification/Vmm_Correct.thy ===== *)
theory Vmm_Correct
  imports Vmm
begin

text \<open>
  Page tables as a map from addresses to entries.  \<open>tables_ok\<close> says that no table is used on two
  levels; tables may be shared, as the boot code shares one between the linear map and the map of
  the kernel, and \<open>shares\<close> says which addresses have their entry in common.  \<open>table_source\<close> is what \<^verbatim>\<open>vmm_map_page\<close> needs of the allocator of tables, and
  the page allocator provides it; \<open>vmm_map_page_correct\<close> is the refinement.
\<close>

section \<open>Indices and page numbers\<close>

definition page_number :: "u64 \<Rightarrow> nat" where
  "page_number va = unat va div 4096 mod 2 ^ 36"

lemma table_index_eq: "table_index k va = unat va div 2 ^ k mod 512"
proof -
  have "drop_bit k (va AND push_bit k 0x1FF) = take_bit 9 (drop_bit k va)"
  proof (rule bit_word_eqI)
    have m: "(0x1FF :: u64) = mask 9" by (simp add: mask_eq_exp_minus_1)
    fix n
    assume "n < LENGTH(64)"
    then show "bit (drop_bit k (va AND push_bit k 0x1FF)) n = bit (take_bit 9 (drop_bit k va)) n"
      unfolding m by (auto simp: bit_simps dest: bit_imp_le_length)
  qed
  then have "table_index k va = unat (take_bit 9 (drop_bit k va))" by (simp only: table_index_def)
  also have "\<dots> = take_bit 9 (drop_bit k (unat va))"
    by (simp only: unsigned_take_bit_eq unsigned_drop_bit_eq) (simp add: take_bit_nat_eq_self)
  finally show ?thesis by (simp add: take_bit_eq_mod drop_bit_eq_div)
qed

lemma table_index_less [simp]: "table_index k va < 512"
  by (simp add: table_index_eq)

lemma page_number_digits:
  "page_number va = ((table_index 39 va * 512 + table_index 30 va) * 512 + table_index 21 va) * 512 +
     table_index 12 va"
proof -
  define x where "x = unat va div 4096"
  have d: "x mod (512 * m) = 512 * (x div 512 mod m) + x mod 512" for m x :: nat
    by (simp add: mod_mult2_eq)
  have i: "table_index 12 va = x mod 512" "table_index 21 va = x div 512 mod 512"
    "table_index 30 va = x div 512 div 512 mod 512" "table_index 39 va = x div 512 div 512 div 512 mod 512"
    by (simp_all add: table_index_eq x_def div_mult2_eq [symmetric])
  have "page_number va = x mod (512 * (512 * (512 * 512)))" by (simp add: page_number_def x_def)
  also have "\<dots> = 512 * (512 * (512 * (x div 512 div 512 div 512 mod 512) + x div 512 div 512 mod 512) +
      x div 512 mod 512) + x mod 512"
    by (simp only: d)
  finally show ?thesis unfolding i by simp
qed

lemma digits_eq:
  fixes a b c d :: nat
  assumes "b < 512" "d < 512"
  shows "(a * 512 + b = c * 512 + d) = (a = c \<and> b = d)"
proof
  assume e: "a * 512 + b = c * 512 + d"
  have "a = (a * 512 + b) div 512" "b = (a * 512 + b) mod 512" using assms by simp_all
  then show "a = c \<and> b = d" unfolding e using assms by simp
qed simp

lemma page_number_eq:
  "page_number va = page_number va' \<longleftrightarrow>
     table_index P4_ADDR_SHIFT va = table_index P4_ADDR_SHIFT va' \<and>
     table_index P3_ADDR_SHIFT va = table_index P3_ADDR_SHIFT va' \<and>
     table_index P2_ADDR_SHIFT va = table_index P2_ADDR_SHIFT va' \<and>
     table_index P1_ADDR_SHIFT va = table_index P1_ADDR_SHIFT va'"
  unfolding page_number_digits P4_ADDR_SHIFT_def P3_ADDR_SHIFT_def P2_ADDR_SHIFT_def P1_ADDR_SHIFT_def
  by (simp only: digits_eq [OF table_index_less table_index_less] conj_assoc)

lemma page_number_align: "page_number (virt AND NOT (PAGE_SIZE - 1)) = page_number virt"
proof -
  have "virt AND NOT (PAGE_SIZE - 1) = virt AND - (2 ^ 12)"
    by (simp add: PAGE_SIZE_def minus_exp_eq_not_mask mask_eq_exp_minus_1)
  moreover have "unat (virt AND - (2 ^ 12)) = unat virt div 4096 * 4096"
    unfolding unat_and_minus_exp by simp
  ultimately show ?thesis by (simp add: page_number_def)
qed

section \<open>Entries\<close>

definition table_of :: "u64 \<Rightarrow> nat option" where
  "table_of e = (if e AND PAGE_PRESENT = 0 then None else virt_to_page (phys_to_virt (e AND PTE_ADDR_MASK)))"

lemma pgtab_extract_eq: "pgtab_extract_virt_addr s f i = table_of (frames s f i)"
  by (simp add: pgtab_extract_virt_addr_def table_of_def)

lemma table_of_0 [simp]: "table_of 0 = None"
  by (simp add: table_of_def)

lemma PTE_ADDR_MASK_bits: "PTE_ADDR_MASK = push_bit 12 (mask 40)"
  by (simp add: PTE_ADDR_MASK_def mask_eq_exp_minus_1 push_bit_eq_mult)

lemma frame_phys_masked:
  assumes "p < 2 ^ 40"
  shows "page_to_phys (Some p) AND PTE_ADDR_MASK = page_to_phys (Some p)"
proof -
  have "take_bit 40 p = p" using assms by (simp add: take_bit_nat_eq_self)
  then have t: "take_bit 40 (of_nat p :: u64) = of_nat p" by (metis of_nat_take_bit)
  have "page_to_phys (Some p) = push_bit 12 (of_nat p)"
    by (simp add: page_to_phys_def PAGE_SIZE_def push_bit_eq_mult)
  also have "\<dots> AND PTE_ADDR_MASK = push_bit 12 (of_nat p AND mask 40)"
    unfolding PTE_ADDR_MASK_bits by (simp only: push_bit_and)
  also have "\<dots> = push_bit 12 (of_nat p)" using t by (simp only: take_bit_eq_mask)
  finally show ?thesis by (simp add: page_to_phys_def PAGE_SIZE_def push_bit_eq_mult)
qed

lemma table_of_frame:
  assumes "p \<in> {1 ..< 2 ^ 35}" "fl AND PTE_ADDR_MASK = 0" "fl AND PAGE_PRESENT \<noteq> 0"
  shows "table_of ((page_to_phys (Some p) AND PTE_ADDR_MASK) OR fl) = Some p"
proof -
  let ?a = "page_to_phys (Some p)"
  have "(of_nat p * 4096 :: u64) = of_nat (p * 4096)" by simp
  moreover have "p * 4096 < 2 ^ 64" using assms(1) by simp
  ultimately have u: "unat ?a = p * 4096"
    unfolding page_to_phys_def option.case PAGE_SIZE_def by (metis unat_of_nat_u64)
  have "?a AND PTE_ADDR_MASK = ?a" using assms(1) by (intro frame_phys_masked) simp
  then have m: "((?a AND PTE_ADDR_MASK) OR fl) AND PTE_ADDR_MASK = ?a"
    using assms(2) by (simp add: bit.conj_disj_distrib2)
  have "((?a AND PTE_ADDR_MASK) OR fl) AND PAGE_PRESENT \<noteq> 0"
    using assms(3) by (metis and.commute bit.conj_disj_distrib or_eq_0_iff)
  moreover have "unat ?a \<noteq> 0" using u assms(1) by simp
  then have "?a \<noteq> 0" by (metis unat_0)
  then have "virt_to_page (phys_to_virt ?a) = Some p"
    using phys_to_page_eq [of ?a] u assms(1) by simp
  ultimately show ?thesis by (simp add: table_of_def m)
qed

section \<open>The tables below a root\<close>

fun tab :: "vm \<Rightarrow> nat \<Rightarrow> nat list \<Rightarrow> nat option" where
  "tab s f [] = Some f"
| "tab s f (i # is) = Option.bind (table_of (frames s f i)) (\<lambda>g. tab s g is)"

lemma tab_append: "tab s f (p @ q) = Option.bind (tab s f p) (\<lambda>g. tab s g q)"
  by (induction p arbitrary: f) (auto split: bind_splits)

lemma tab_snoc: "tab s f (p @ [i]) = Option.bind (tab s f p) (\<lambda>g. table_of (frames s g i))"
  by (simp add: tab_append)

definition path :: "nat list \<Rightarrow> bool" where
  "path p \<longleftrightarrow> length p \<le> 3 \<and> (\<forall>i \<in> set p. i < 512)"

definition tables_ok :: "vm \<Rightarrow> nat \<Rightarrow> nat set \<Rightarrow> bool" where
  "tables_ok s root T \<longleftrightarrow>
     (\<forall>p f. path p \<longrightarrow> tab s root p = Some f \<longrightarrow> f \<in> T) \<and>
     (\<forall>p q f. path p \<longrightarrow> path q \<longrightarrow> tab s root p = Some f \<longrightarrow> tab s root q = Some f \<longrightarrow> length p = length q)"

text \<open>What an address translates through: its leaf entry, 0 when a table is missing.\<close>

definition leaf_path :: "u64 \<Rightarrow> nat list" where
  "leaf_path va = [table_index P4_ADDR_SHIFT va, table_index P3_ADDR_SHIFT va, table_index P2_ADDR_SHIFT va]"

definition entry :: "vm \<Rightarrow> nat \<Rightarrow> u64 \<Rightarrow> u64" where
  "entry s root va = (case tab s root (leaf_path va) of
     None \<Rightarrow> 0 | Some t \<Rightarrow> frames s t (table_index P1_ADDR_SHIFT va))"

lemma path_leaf [simp]: "path (leaf_path va)"
  by (simp add: path_def leaf_path_def)

lemma walk_tab: "walk s root va = map_option (\<lambda>t. (t, table_index P1_ADDR_SHIFT va)) (tab s root (leaf_path va))"
  by (auto simp: walk_def leaf_path_def pgtab_extract_eq split: bind_splits)

lemma tables_okD:
  assumes "tables_ok s root T" "path p" "tab s root p = Some f"
  shows "f \<in> T" and "path q \<Longrightarrow> tab s root q = Some f \<Longrightarrow> length q = length p"
  using assms unfolding tables_ok_def by metis+

lemma tab_frames: "frames s' = frames s \<Longrightarrow> tab s' f p = tab s f p"
  by (induction p arbitrary: f) (auto split: bind_splits)

lemma tables_frames:
  assumes "frames s' = frames s"
  shows "tables_ok s' root T = tables_ok s root T" "entry s' root va = entry s root va"
  by (simp_all add: tables_ok_def entry_def tab_frames [OF assms] assms split: option.split)

lemma tables_same:
  assumes same: "\<And>q. path q \<Longrightarrow> tab s' root q = tab s root q" and ok: "tables_ok s root T"
  shows "tables_ok s' root T"
  unfolding tables_ok_def
proof (intro conjI allI impI)
  show "f \<in> T" if "path p" "tab s' root p = Some f" for p f
    using tables_okD(1) [OF ok that(1)] that by (simp add: same)
  show "length p = length q" if "path p" "path q" "tab s' root p = Some f" "tab s' root q = Some f" for p q f
    using tables_okD(2) [OF ok that(2) _ that(1)] that by (simp add: same)
qed

lemma path_prefix: "path (p @ [i]) \<Longrightarrow> path p \<and> i < 512 \<and> length p \<le> 2"
  by (auto simp: path_def)

text \<open>
  Two addresses share their entry when the walks meet in a table, on any level, and go on with the
  same indices.
\<close>

definition full_path :: "u64 \<Rightarrow> nat list" where
  "full_path va = leaf_path va @ [table_index P1_ADDR_SHIFT va]"

definition shares :: "vm \<Rightarrow> nat \<Rightarrow> u64 \<Rightarrow> u64 \<Rightarrow> bool" where
  "shares s root va va' \<longleftrightarrow> (\<exists>k \<le> 3. tab s root (take k (full_path va)) \<noteq> None \<and>
     tab s root (take k (full_path va)) = tab s root (take k (full_path va')) \<and> drop k (full_path va) = drop k (full_path va'))"

lemma length_full_path [simp]: "length (leaf_path va) = 3" "length (full_path va) = 4"
  by (simp_all add: leaf_path_def full_path_def)

lemma path_take: "k \<le> 3 \<Longrightarrow> path (take k (full_path va))"
  by (auto simp: path_def full_path_def leaf_path_def dest!: in_set_takeD)

lemma page_number_full: "page_number va = page_number va' \<longleftrightarrow> full_path va = full_path va'"
  by (auto simp: page_number_eq full_path_def leaf_path_def)

lemma shares_refl: "page_number va = page_number va' \<Longrightarrow> shares s root va va'"
  unfolding shares_def page_number_full by (rule exI [of _ 0]) simp

lemma shares_page: "page_number va = page_number va' \<Longrightarrow> shares s root va = shares s root va'"
  by (simp add: shares_def page_number_full fun_eq_iff)

lemma shares_leaf:
  assumes "shares s root va va'"
  shows "tab s root (leaf_path va') = tab s root (leaf_path va)" "table_index P1_ADDR_SHIFT va' = table_index P1_ADDR_SHIFT va"
proof -
  obtain k where k: "k \<le> 3" "tab s root (take k (full_path va)) = tab s root (take k (full_path va'))"
    "drop k (full_path va) = drop k (full_path va')"
    using assms by (auto simp: shares_def)
  have l: "leaf_path v = take k (full_path v) @ take (3 - k) (drop k (full_path v))" for v
  proof -
    have "leaf_path v = take 3 (full_path v)" by (simp add: full_path_def)
    then show ?thesis using k(1) by (metis le_add_diff_inverse take_add)
  qed
  have x: "table_index P1_ADDR_SHIFT v = last (drop k (full_path v))" for v
    using k(1) by (simp add: full_path_def)
  show "tab s root (leaf_path va') = tab s root (leaf_path va)"
    unfolding l [of va] l [of va'] tab_append using k by simp
  show "table_index P1_ADDR_SHIFT va' = table_index P1_ADDR_SHIFT va" using k(3) by (simp add: x)
qed

lemma shares_at_leaf:
  assumes "tab s root (leaf_path va) = Some t"
  shows "shares s root va va' \<longleftrightarrow> tab s root (leaf_path va') = Some t \<and> table_index P1_ADDR_SHIFT va' = table_index P1_ADDR_SHIFT va"
proof
  assume "tab s root (leaf_path va') = Some t \<and> table_index P1_ADDR_SHIFT va' = table_index P1_ADDR_SHIFT va"
  then show "shares s root va va'"
    unfolding shares_def using assms by (intro exI [of _ 3]) (simp add: full_path_def)
qed (use shares_leaf [of s root va va'] assms in simp)

lemma shares_entry: "shares s root va va' \<Longrightarrow> entry s root va' = entry s root va"
  using shares_leaf [of s root va va'] by (simp add: entry_def cong: option.case_cong)

lemma shares_same:
  "(\<And>q. path q \<Longrightarrow> tab s' root q = tab s root q) \<Longrightarrow> shares s' root va va' = shares s root va va'"
  unfolding shares_def by (metis path_take)

text \<open>In a tree of tables nothing is shared.\<close>

lemma shares_tree:
  assumes "\<And>p q f. path p \<Longrightarrow> path q \<Longrightarrow> tab s root p = Some f \<Longrightarrow> tab s root q = Some f \<Longrightarrow> p = q"
  shows "shares s root va va' \<longleftrightarrow> page_number va = page_number va'"
proof
  assume "shares s root va va'"
  then obtain k f where k: "k \<le> 3" "tab s root (take k (full_path va)) = Some f" "tab s root (take k (full_path va')) = Some f"
    "drop k (full_path va) = drop k (full_path va')"
    by (auto simp: shares_def)
  then have "take k (full_path va) = take k (full_path va')" using assms path_take by metis
  then show "page_number va = page_number va'" using k(4) unfolding page_number_full by (metis append_take_drop_id)
qed (rule shares_refl)

text \<open>Linking a fresh, cleared table below a missing entry: it appears below every path to the upper table.\<close>

definition linked :: "vm \<Rightarrow> nat \<Rightarrow> nat \<Rightarrow> nat \<Rightarrow> nat list \<Rightarrow> bool" where
  "linked s root f i q \<longleftrightarrow> q \<noteq> [] \<and> last q = i \<and> tab s root (butlast q) = Some f"

lemma linked_snoc [simp]: "linked s root f i (q @ [j]) \<longleftrightarrow> j = i \<and> tab s root q = Some f"
  by (simp add: linked_def)

lemma linked_missing: "linked s root f i q \<Longrightarrow> table_of (frames s f i) = None \<Longrightarrow> tab s root q = None"
  by (cases q rule: rev_cases) (auto simp: linked_def tab_snoc)

lemma link_table:
  assumes ok: "tables_ok s root T" and f: "tab s root p = Some f" and p: "path (p @ [i])"
    and none: "table_of (frames s f i) = None" and e: "table_of e = Some g" and g: "g \<notin> T"
    and fr: "frames s' = (frames s)(f := (frames s f)(i := e), g := (\<lambda>j. 0))"
    and q: "path q"
  shows "tab s' root q = (if linked s root f i q then Some g else tab s root q)"
  using q
proof (induction q rule: rev_induct)
  case Nil
  then show ?case by (simp add: linked_def)
next
  case (snoc j q)
  have q: "path q" using path_prefix [OF snoc.prems] by simp
  have IH: "tab s' root q = (if linked s root f i q then Some g else tab s root q)" by (rule snoc.IH [OF q])
  have fg: "f \<noteq> g" using path_prefix [OF p] tables_okD(1) [OF ok _ f] g by auto
  show ?case
  proof (cases "tab s root q")
    case None
    then show ?thesis using IH fr by (auto simp: tab_snoc)
  next
    case (Some h)
    then have "\<not> linked s root f i q" using linked_missing none by force
    moreover have "h \<noteq> g" using tables_okD(1) [OF ok q Some] g by auto
    ultimately show ?thesis using IH Some fr fg e by (auto simp: tab_snoc)
  qed
qed

lemma link_table_ok:
  assumes ok: "tables_ok s root T" and f: "tab s root p = Some f" and p: "path (p @ [i])"
    and none: "table_of (frames s f i) = None" and e: "table_of e = Some g" and g: "g \<notin> T"
    and fr: "frames s' = (frames s)(f := (frames s f)(i := e), g := (\<lambda>j. 0))"
  shows "tables_ok s' root (insert g T)" and "entry s' root va = entry s root va"
    and "tab s' root (p @ [i]) = Some g"
proof -
  note L = link_table [OF assms]
  have T: "h \<in> T" if "path q" "tab s root q = Some h" for q h using tables_okD(1) [OF ok that] .
  have pp: "path p" and len: "length p \<le> 2" using path_prefix [OF p] by auto
  have up: "length q = Suc (length p)" if "path q" "linked s root f i q" for q
    using that tables_okD(2) [OF ok pp f, of "butlast q"] by (cases q rule: rev_cases) (auto simp: linked_def dest: path_prefix)
  show "tables_ok s' root (insert g T)"
    unfolding tables_ok_def
  proof (intro conjI allI impI)
    fix q h
    assume "path q" "tab s' root q = Some h"
    then show "h \<in> insert g T" using L T by (auto split: if_splits)
  next
    fix q r h
    assume a: "path q" "path r" "tab s' root q = Some h" "tab s' root r = Some h"
    then have l: "linked s root f i q = linked s root f i r" using L T g by (auto split: if_splits)
    show "length q = length r"
    proof (cases "linked s root f i q")
      case True
      then show ?thesis using up [OF a(1)] up [OF a(2)] l by simp
    next
      case False
      then have "tab s root q = Some h" "tab s root r = Some h" using L [OF a(1)] L [OF a(2)] l a(3,4) by simp_all
      then show ?thesis using tables_okD(2) [OF ok a(2) _ a(1)] by blast
    qed
  qed
  show "tab s' root (p @ [i]) = Some g" using L [OF p] f by simp
  show "entry s' root va = entry s root va"
  proof (cases "tab s root (leaf_path va)")
    case None
    then show ?thesis using L [OF path_leaf] fr by (simp add: entry_def)
  next
    case (Some t)
    have "\<not> linked s root f i (leaf_path va)" using Some none linked_missing by force
    moreover have "t \<noteq> g" using T [OF path_leaf Some] g by auto
    moreover have "t \<noteq> f" using tables_okD(2) [OF ok path_leaf Some pp] f len by auto
    ultimately show ?thesis using L [OF path_leaf] Some fr by (simp add: entry_def)
  qed
qed

lemma link_table_shares:
  assumes ok: "tables_ok s root T" and f: "tab s root p = Some f" and p: "path (p @ [i])"
    and none: "table_of (frames s f i) = None" and e: "table_of e = Some g" and g: "g \<notin> T"
    and fr: "frames s' = (frames s)(f := (frames s f)(i := e), g := (\<lambda>j. 0))"
  shows "shares s' root va va' = shares s root va va'"
proof
  note L = link_table [OF assms]
  show "shares s' root va va'" if old: "shares s root va va'"
  proof -
    obtain k h where k: "k \<le> 3" "tab s root (take k (full_path va)) = Some h" "tab s root (take k (full_path va')) = Some h"
      "drop k (full_path va) = drop k (full_path va')"
      using old by (auto simp: shares_def)
    then have "tab s' root (take k (full_path va)) = Some h" "tab s' root (take k (full_path va')) = Some h"
      using L [OF path_take] none linked_missing by force+
    then show ?thesis using k unfolding shares_def by (metis option.distinct(1))
  qed
  show "shares s root va va'" if new: "shares s' root va va'"
  proof -
    obtain k h where k: "k \<le> 3" "tab s' root (take k (full_path va)) = Some h" "tab s' root (take k (full_path va')) = Some h"
      "drop k (full_path va) = drop k (full_path va')"
      using new by (auto simp: shares_def)
    let ?q = "take k (full_path va)" and ?r = "take k (full_path va')"
    have q: "tab s' root ?q = (if linked s root f i ?q then Some g else tab s root ?q)"
      "tab s' root ?r = (if linked s root f i ?r then Some g else tab s root ?r)"
      using k(1) by (simp_all add: L path_take)
    have T: "tab s root ?q \<noteq> Some g" "tab s root ?r \<noteq> Some g"
      using tables_okD(1) [OF ok path_take [OF k(1)]] g by blast+
    show ?thesis
    proof (cases "linked s root f i ?q")
      case False
      then have "tab s root ?q = Some h" "tab s root ?r = Some h" using q k(2,3) T by (auto split: if_splits)
      then show ?thesis using k(1,4) unfolding shares_def by (metis option.distinct(1))
    next
      case True
      then have r: "linked s root f i ?r" using q k(2,3) T by (auto split: if_splits)
      obtain j where j: "k = Suc j" using True by (cases k) (auto simp: linked_def)
      have s: "take k (full_path v) = take j (full_path v) @ [full_path v ! j]" "drop j (full_path v) = full_path v ! j # drop k (full_path v)" for v
        using k(1) by (simp_all add: j take_Suc_conv_app_nth Cons_nth_drop_Suc)
      have "tab s root (take j (full_path va)) = Some f" "tab s root (take j (full_path va')) = Some f"
        "drop j (full_path va) = drop j (full_path va')"
        using True r k(4) by (simp_all add: s)
      moreover have "j \<le> 3" using k(1) j by simp
      ultimately show ?thesis unfolding shares_def by (metis option.distinct(1))
    qed
  qed
qed

text \<open>Writing an entry of a leaf table.\<close>

lemma write_leaf:
  assumes ok: "tables_ok s root T" and t: "tab s root (leaf_path va) = Some t"
    and fr: "frames s' = (frames s)(t := (frames s t)(table_index P1_ADDR_SHIFT va := v))"
  shows "tables_ok s' root T" and "shares s' root x y = shares s root x y"
    and "entry s' root va' = (if shares s root va va' then v else entry s root va')"
proof -
  have same: "tab s' root q = tab s root q" if "path q" for q
    using that
  proof (induction q rule: rev_induct)
    case (snoc j q)
    have q: "path q" "length q \<le> 2" using path_prefix [OF snoc.prems] by auto
    have "tab s root q \<noteq> Some t"
      using tables_okD(2) [OF ok path_leaf t q(1)] q(2) by auto
    then show ?case using snoc.IH [OF q(1)] fr unfolding tab_snoc by (auto split: bind_splits)
  qed simp
  then show "tables_ok s' root T" by (rule tables_same [OF _ ok])
  show "shares s' root x y = shares s root x y" by (rule shares_same [OF same])
  show "entry s' root va' = (if shares s root va va' then v else entry s root va')"
    unfolding shares_at_leaf [OF t] using same [OF path_leaf [of va']]
    by (cases "tab s root (leaf_path va')") (auto simp: entry_def fr)
qed

section \<open>Where tables come from\<close>

text \<open>
  What mapping a page relies on: with the table frames \<open>T\<close> accounted for in \<open>owned\<close>, a table
  that the allocator returns for flags it serves is a frame outside of \<open>T\<close>, and \<open>owned\<close> depends
  on the two allocators only.
\<close>

text \<open>The allocators of one state are those of another after some tables have been taken.\<close>

fun took :: "u32 \<Rightarrow> nat \<Rightarrow> vm \<Rightarrow> vm \<Rightarrow> bool" where
  "took fl 0 s s' \<longleftrightarrow> heap s' = heap s \<and> boot_mmap s' = boot_mmap s"
| "took fl (Suc n) s s' \<longleftrightarrow> (\<exists>s1 e s2. took fl n s s1 \<and> alloc_pgtab fl s1 = Inr (e, s2) \<and>
     heap s' = heap s2 \<and> boot_mmap s' = boot_mmap s2)"

lemma took_same: "took fl n s s1 \<Longrightarrow> heap s' = heap s1 \<Longrightarrow> boot_mmap s' = boot_mmap s1 \<Longrightarrow> took fl n s s'"
  by (cases n) auto

lemma took_trans: "took fl n s s1 \<Longrightarrow> took fl m s1 s2 \<Longrightarrow> took fl (n + m) s s2"
proof (induction m arbitrary: s2)
  case 0
  then show ?case using took_same by simp
next
  case (Suc m)
  then show ?case by auto
qed

lemma took_one: "alloc_pgtab fl s = Inr (e, s1) \<Longrightarrow> heap s' = heap s1 \<Longrightarrow> boot_mmap s' = boot_mmap s1 \<Longrightarrow> took fl 1 s s'"
  by (auto intro!: exI)

locale table_source =
  fixes owned :: "vm \<Rightarrow> nat set \<Rightarrow> bool" and serves :: "u32 \<Rightarrow> bool"
    and extent :: "vm \<Rightarrow> nat set"
  assumes fresh: "owned s T \<Longrightarrow> serves fl \<Longrightarrow> alloc_pgtab fl s = Inr (e, s') \<Longrightarrow>
      frames s' = frames s \<and> mmus s' = mmus s \<and> nr_cpus s' = nr_cpus s \<and> extent s' = extent s \<and>
      (\<exists>g. table_of e = Some g \<and> g \<notin> T \<and> owned s' (insert g T))"
    and contents: "heap s' = heap s \<Longrightarrow> boot_mmap s' = boot_mmap s \<Longrightarrow> owned s T \<Longrightarrow> owned s' T"
      "heap s' = heap s \<Longrightarrow> boot_mmap s' = boot_mmap s \<Longrightarrow> extent s' = extent s"
begin

definition step_to :: "nat \<Rightarrow> nat set \<Rightarrow> vm \<Rightarrow> nat set \<Rightarrow> vm \<Rightarrow> bool" where
  "step_to root T s T' s' \<longleftrightarrow>
     T \<subseteq> T' \<and> tables_ok s' root T' \<and> owned s' T' \<and> (\<forall>va. entry s' root va = entry s root va) \<and>
     (\<forall>va va'. shares s' root va va' = shares s root va va') \<and>
     mmus s' = mmus s \<and> nr_cpus s' = nr_cpus s \<and> extent s' = extent s"

lemma step_to_refl: "tables_ok s root T \<Longrightarrow> owned s T \<Longrightarrow> step_to root T s T s"
  by (simp add: step_to_def)

lemma step_to_trans: "step_to root T s T' s' \<Longrightarrow> step_to root T' s' T'' s'' \<Longrightarrow> step_to root T s T'' s''"
  by (auto simp: step_to_def)

lemma next_table_ok:
  assumes ok: "tables_ok s root T" and own: "owned s T" and fl: "serves fl"
    and f: "tab s root p = Some f" and p: "path (p @ [i])" and r: "next_table unmap fl f i s = Inr (t, s')"
  shows "\<exists>T'. step_to root T s T' s' \<and> (t = None \<longrightarrow> unmap \<and> tab s root (p @ [i]) = None) \<and>
    (\<forall>g. t = Some g \<longrightarrow> tab s' root (p @ [i]) = Some g) \<and> (unmap \<longrightarrow> s' = s) \<and> (\<exists>n \<le> 1. took fl n s s')"
proof (cases "table_of (frames s f i)")
  case (Some g)
  then have "t = Some g" "s' = s" using r by (auto simp: next_table_def pgtab_extract_eq)
  then show ?thesis using step_to_refl [OF ok own] f Some by (auto simp: tab_snoc intro!: exI [of _ 0])
next
  case None
  show ?thesis
  proof (cases unmap)
    case True
    then have "t = None" "s' = s" using r None by (auto simp: next_table_def pgtab_extract_eq)
    then show ?thesis using step_to_refl [OF ok own] f None True by (auto simp: tab_snoc intro!: exI [of _ 0])
  next
    case False
    then obtain e s1 where e: "alloc_pgtab fl s = Inr (e, s1)"
      using r None by (auto simp: next_table_def pgtab_extract_eq obind_Inr)
    obtain g where g: "table_of e = Some g" "g \<notin> T" "owned s1 (insert g T)"
      and s1: "frames s1 = frames s" "mmus s1 = mmus s" "nr_cpus s1 = nr_cpus s" "extent s1 = extent s"
      using fresh [OF own fl e] by auto
    have fr: "t = Some g" "s' = clear_frame g (set_entry f i e s1)"
      using r None False e g(1) by (auto simp: next_table_def pgtab_extract_eq set_entry_def)
    have "frames s' = (frames s)(f := (frames s f)(i := e), g := (\<lambda>j. 0))"
      using s1 by (simp add: fr clear_frame_def set_entry_def)
    note L = link_table_ok [OF ok f p None g(1,2) this] link_table_shares [OF ok f p None g(1,2) this]
    have "owned s' (insert g T)" "extent s' = extent s1"
      using contents(1) [OF _ _ g(3), of s'] contents(2) [of s' s1] by (simp_all add: fr clear_frame_def set_entry_def)
    then have "step_to root T s (insert g T) s'"
      using L s1 by (auto simp: step_to_def fr clear_frame_def set_entry_def)
    moreover have "took fl 1 s s'" by (rule took_one [OF e]) (simp_all add: fr clear_frame_def set_entry_def)
    ultimately show ?thesis using L(3) fr(1) False by blast
  qed
qed

lemma find_leaf_ok:
  assumes ok: "tables_ok s root T" and own: "owned s T" and fl: "serves fl"
    and r: "find_leaf unmap fl root va s = Inr (t, s')"
  shows "\<exists>T'. step_to root T s T' s' \<and> (t = None \<longrightarrow> unmap \<and> tab s root (leaf_path va) = None) \<and>
    (\<forall>g. t = Some g \<longrightarrow> tab s' root (leaf_path va) = Some g) \<and> (unmap \<longrightarrow> s' = s) \<and> (\<exists>n \<le> 3. took fl n s s')"
proof -
  let ?i4 = "table_index P4_ADDR_SHIFT va" and ?i3 = "table_index P3_ADDR_SHIFT va"
    and ?i2 = "table_index P2_ADDR_SHIFT va"
  have P: "path ([] @ [?i4])" "path ([?i4] @ [?i3])" "path ([?i4, ?i3] @ [?i2])" by (simp_all add: path_def)
  obtain t3 s3 where r3: "next_table unmap fl root ?i4 s = Inr (t3, s3)"
    using r by (auto simp: find_leaf_def obind_Inr)
  obtain T3 n3 where T3: "step_to root T s T3 s3" "t3 = None \<longrightarrow> unmap \<and> tab s root [?i4] = None"
    "\<forall>g. t3 = Some g \<longrightarrow> tab s3 root [?i4] = Some g" "unmap \<longrightarrow> s3 = s" and n3: "n3 \<le> 1" "took fl n3 s s3"
    using next_table_ok [OF ok own fl _ P(1) r3] unfolding append.simps by auto
  show ?thesis
  proof (cases t3)
    case None
    then have t: "t = None" "s' = s3" using r r3 by (auto simp: find_leaf_def)
    moreover have "tab s root (leaf_path va) = None" using None T3(2) by (auto simp: leaf_path_def split: bind_splits)
    moreover have "\<exists>n \<le> 3. took fl n s s'" using n3 t(2) by (intro exI [of _ n3]) simp
    ultimately show ?thesis using None T3 by blast
  next
    case (Some g3)
    have ok3: "tables_ok s3 root T3" "owned s3 T3" using T3(1) by (auto simp: step_to_def)
    obtain t2 s2 where r2: "next_table unmap fl g3 ?i3 s3 = Inr (t2, s2)"
      using r r3 Some by (auto simp: find_leaf_def obind_Inr)
    obtain T2 n2 where T2: "step_to root T3 s3 T2 s2" "t2 = None \<longrightarrow> unmap \<and> tab s3 root [?i4, ?i3] = None"
      "\<forall>g. t2 = Some g \<longrightarrow> tab s2 root [?i4, ?i3] = Some g" "unmap \<longrightarrow> s2 = s3" and n2: "n2 \<le> 1" "took fl n2 s3 s2"
      using next_table_ok [OF ok3 fl _ P(2) r2] T3(3) Some unfolding append.simps by blast
    have tk: "took fl (n3 + n2) s s2" by (rule took_trans [OF n3(2) n2(2)])
    show ?thesis
    proof (cases t2)
      case None
      then have "t = None" "s' = s2" using r r3 r2 Some by (auto simp: find_leaf_def)
      moreover have "tab s root (leaf_path va) = None"
        using None T2(2) T3(4) by (auto simp: leaf_path_def split: bind_splits)
      moreover have "n3 + n2 \<le> 3" using n3(1) n2(1) by simp
      ultimately show ?thesis using None T2 T3 tk step_to_trans [OF T3(1) T2(1)] by blast
    next
      case Some2: (Some g2)
      have ok2: "tables_ok s2 root T2" "owned s2 T2" using T2(1) by (auto simp: step_to_def)
      have r1: "next_table unmap fl g2 ?i2 s2 = Inr (t, s')"
        using r r3 r2 Some Some2 by (simp add: find_leaf_def)
      obtain T1 n1 where T1: "step_to root T2 s2 T1 s'" "t = None \<longrightarrow> unmap \<and> tab s2 root (leaf_path va) = None"
        "\<forall>g. t = Some g \<longrightarrow> tab s' root (leaf_path va) = Some g" "unmap \<longrightarrow> s' = s2" and n1: "n1 \<le> 1" "took fl n1 s2 s'"
        using next_table_ok [OF ok2 fl _ P(3) r1] T2(3) Some2 unfolding append.simps leaf_path_def by blast
      have "n3 + n2 + n1 \<le> 3" using n3(1) n2(1) n1(1) by simp
      then show ?thesis
        using T1 T2(4) T3(4) step_to_trans [OF step_to_trans [OF T3(1) T2(1)] T1(1)] took_trans [OF tk n1(2)] by blast
    qed
  qed
qed

lemma next_table_fails:
  assumes own: "owned s T" and fl: "serves fl" and r: "next_table unmap fl f i s = Inl e"
  shows "\<not> unmap \<and> alloc_pgtab fl s = Inl e"
proof -
  have none: "table_of (frames s f i) = None" "\<not> unmap"
    using r by (auto simp: next_table_def pgtab_extract_eq split: option.splits if_splits)
  show ?thesis
  proof (cases "alloc_pgtab fl s")
    case (Inr es)
    then obtain g where "table_of (fst es) = Some g" using fresh [OF own fl, of "fst es" "snd es"] by auto
    then show ?thesis using r none Inr
      by (auto simp: next_table_def pgtab_extract_eq set_entry_def split: prod.splits)
  qed (use r none in \<open>auto simp: next_table_def pgtab_extract_eq\<close>)
qed

lemma find_leaf_fails:
  assumes ok: "tables_ok s root T" and own: "owned s T" and fl: "serves fl"
    and r: "find_leaf unmap fl root va s = Inl e"
  shows "\<exists>s1 n. took fl n s s1 \<and> n \<le> 2 \<and> alloc_pgtab fl s1 = Inl e \<and> \<not> unmap"
proof -
  let ?i4 = "table_index P4_ADDR_SHIFT va" and ?i3 = "table_index P3_ADDR_SHIFT va"
    and ?i2 = "table_index P2_ADDR_SHIFT va"
  have P: "path ([] @ [?i4])" "path ([?i4] @ [?i3])" by (simp_all add: path_def)
  show ?thesis
  proof (cases "next_table unmap fl root ?i4 s")
    case (Inl e')
    then have "took fl 0 s s \<and> alloc_pgtab fl s = Inl e \<and> \<not> unmap"
      using r next_table_fails [OF own fl Inl] by (auto simp: find_leaf_def)
    then show ?thesis by blast
  next
    case (Inr ts3)
    obtain t3 s3 where r3: "ts3 = (t3, s3)" by (cases ts3)
    obtain g3 where g3: "t3 = Some g3" using r Inr r3 by (cases t3) (auto simp: find_leaf_def)
    obtain T3 n3 where T3: "step_to root T s T3 s3" "tab s3 root [?i4] = Some g3" and n3: "n3 \<le> 1" "took fl n3 s s3"
      using next_table_ok [OF ok own fl _ P(1) Inr [unfolded r3]] g3 unfolding append.simps by auto
    have ok3: "tables_ok s3 root T3" "owned s3 T3" using T3(1) by (auto simp: step_to_def)
    show ?thesis
    proof (cases "next_table unmap fl g3 ?i3 s3")
      case Inl2: (Inl e')
      then have "alloc_pgtab fl s3 = Inl e \<and> \<not> unmap"
        using r Inr r3 g3 next_table_fails [OF ok3(2) fl Inl2] by (auto simp: find_leaf_def)
      moreover have "n3 \<le> 2" using n3(1) by simp
      ultimately show ?thesis using n3(2) by blast
    next
      case Inr2: (Inr ts2)
      obtain t2 s2 where r2: "ts2 = (t2, s2)" by (cases ts2)
      obtain g2 where g2: "t2 = Some g2" using r Inr Inr2 r2 r3 g3 by (cases t2) (auto simp: find_leaf_def)
      obtain T2 n2 where T2: "step_to root T3 s3 T2 s2" and n2: "n2 \<le> 1" "took fl n2 s3 s2"
        using next_table_ok [OF ok3 fl T3(2) P(2) Inr2 [unfolded r2]] by blast
      then have "owned s2 T2" by (simp add: step_to_def)
      moreover have "next_table unmap fl g2 ?i2 s2 = Inl e"
        using r Inr Inr2 r2 r3 g2 g3 by (simp add: find_leaf_def)
      ultimately have "alloc_pgtab fl s2 = Inl e \<and> \<not> unmap" using next_table_fails fl by blast
      moreover have "n3 + n2 \<le> 2" using n3(1) n2(1) by simp
      ultimately show ?thesis using took_trans [OF n3(2) n2(2)] by blast
    qed
  qed
qed

end

text \<open>The page allocator: a frame of \<open>T\<close> is outside the zones or in an allocated block.\<close>

definition vm_owned :: "vm \<Rightarrow> nat set \<Rightarrow> bool" where
  "vm_owned s T \<longleftrightarrow> (\<exists>A. pmm_inv (vm_pmm s) A \<and> all_pages (zone_list (vm_pmm s)) \<subseteq> {1 ..< 2 ^ 35} \<and>
     T \<inter> all_pages (zone_list (vm_pmm s)) \<subseteq> \<Union> (block_pages ` A))"

definition from_pmm :: "u32 \<Rightarrow> bool" where
  "from_pmm fl \<longleftrightarrow> ucast fl AND VMM_ALLOC_MMAP = 0"

lemma and_alloc_mmap: "(w AND VMM_ALLOC_MMAP = 0) = (\<not> bit w 15)"
proof -
  have e: "VMM_ALLOC_MMAP = 2 ^ 15" by (simp add: VMM_ALLOC_MMAP_def)
  show ?thesis unfolding e by (rule and_exp_eq_0_iff_not_bit)
qed

lemma from_pmm_flags:
  "flags AND VMM_ALLOC_MMAP = 0 \<Longrightarrow> from_pmm (ucast (flags OR (if low then PAGE_USER_ACCESSIBLE else 0)))"
  unfolding from_pmm_def and_alloc_mmap by (auto simp: PAGE_USER_ACCESSIBLE_def bit_simps)

lemma table_flags:
  "(PAGE_PRESENT OR PAGE_WRITABLE OR (w AND PAGE_USER_ACCESSIBLE)) AND PTE_ADDR_MASK = 0"
  "(PAGE_PRESENT OR PAGE_WRITABLE OR (w AND PAGE_USER_ACCESSIBLE)) AND PAGE_PRESENT \<noteq> 0"
proof -
  have "PAGE_PRESENT AND PTE_ADDR_MASK = 0" "PAGE_WRITABLE AND PTE_ADDR_MASK = 0"
    "PAGE_USER_ACCESSIBLE AND PTE_ADDR_MASK = 0"
    by (simp_all add: PAGE_PRESENT_def PAGE_WRITABLE_def PAGE_USER_ACCESSIBLE_def PTE_ADDR_MASK_def)
  then show "(PAGE_PRESENT OR PAGE_WRITABLE OR (w AND PAGE_USER_ACCESSIBLE)) AND PTE_ADDR_MASK = 0"
    by (simp add: bit.conj_disj_distrib2 and.assoc)
  have "(PAGE_PRESENT OR v) AND PAGE_PRESENT = PAGE_PRESENT" for v by (simp add: and.commute)
  then show "(PAGE_PRESENT OR PAGE_WRITABLE OR (w AND PAGE_USER_ACCESSIBLE)) AND PAGE_PRESENT \<noteq> 0"
    by (simp add: PAGE_PRESENT_def)
qed

lemma alloc_pgtab_pmm:
  assumes "pmm_inv (vm_pmm s) A" "all_pages (zone_list (vm_pmm s)) \<subseteq> {1 ..< 2 ^ 35}" "from_pmm fl"
  shows "alloc_pgtab fl s = Inl Panic \<and> (\<forall>z \<in> set (zone_list (vm_pmm s)). exhausted z 0) \<or>
    (\<exists>g st e. alloc_pgtab fl s = Inr (e, set_pmm st s) \<and> table_of e = Some g \<and> pmm_inv st (insert (g, 0) A) \<and>
       (g, 0) \<notin> A \<and> all_pages (zone_list st) = all_pages (zone_list (vm_pmm s)))"
proof -
  have "0 < MAX_ORDER" by (simp add: MAX_ORDER_def)
  from pmm_alloc_order_spec [OF assms(1) this, of 0] show ?thesis
  proof (elim disjE exE conjE)
    assume "alloc_from_zones (zone_list (vm_pmm s)) (page_data (vm_pmm s)) 0 =
        Inr (None, zone_list (vm_pmm s), page_data (vm_pmm s))"
      and "\<forall>z \<in> set (zone_list (vm_pmm s)). exhausted z 0"
    then show ?thesis
      using assms(3) by (simp add: alloc_pgtab_def from_pmm_def pmm_alloc_order_def GFP_CAN_FAIL_def MAX_ORDER_def)
  next
    fix g st
    assume r: "pmm_alloc_order (vm_pmm s) 0 0 = Inr (Some g, st)" "pmm_inv st (insert (g, 0) A)" "(g, 0) \<notin> A"
      "all_pages (zone_list st) = all_pages (zone_list (vm_pmm s))"
    have "g \<in> block_pages (g, 0)" by (simp add: block_pages_def)
    then have "g \<in> {1 ..< 2 ^ 35}" using pmm_inv_inside [OF r(2), of "(g, 0)"] r(4) assms(2) by auto
    from table_of_frame [OF this table_flags] r assms(3) show ?thesis
      by (auto simp: alloc_pgtab_def from_pmm_def)
  qed
qed

fun pmm_pages :: "nat \<Rightarrow> pmm \<Rightarrow> pmm outcome" where
  "pmm_pages 0 st = Inr st"
| "pmm_pages (Suc n) st = obind (pmm_pages n st) (\<lambda>st. obind (pmm_alloc_order st 0 0) (\<lambda>(p, st). Inr st))"

lemma took_pmm:
  assumes fl: "from_pmm fl" and "took fl n s s'"
    and A: "pmm_inv (vm_pmm s) A" "all_pages (zone_list (vm_pmm s)) \<subseteq> {1 ..< 2 ^ 35}"
  shows "pmm_pages n (vm_pmm s) = Inr (vm_pmm s') \<and> (\<exists>B. pmm_inv (vm_pmm s') B) \<and>
    all_pages (zone_list (vm_pmm s')) = all_pages (zone_list (vm_pmm s))"
  using assms(2)
proof (induction n arbitrary: s')
  case (Suc n)
  then obtain s1 e s2 where s1: "took fl n s s1" "alloc_pgtab fl s1 = Inr (e, s2)" "heap s' = heap s2" by auto
  obtain B where B: "pmm_pages n (vm_pmm s) = Inr (vm_pmm s1)" "pmm_inv (vm_pmm s1) B"
    "all_pages (zone_list (vm_pmm s1)) = all_pages (zone_list (vm_pmm s))"
    using Suc.IH [OF s1(1)] by blast
  obtain g st where g: "s2 = set_pmm st s1" "pmm_inv st (insert (g, 0) B)" "all_pages (zone_list st) = all_pages (zone_list (vm_pmm s1))"
    using alloc_pgtab_pmm [OF B(2) _ fl] B(3) A(2) s1(2) by auto
  have "\<exists>p. pmm_alloc_order (vm_pmm s1) 0 0 = Inr (p, st)"
    using s1(2) fl g(1) by (auto simp: alloc_pgtab_def from_pmm_def obind_Inr set_pmm_def split: if_splits
        dest: arg_cong [where f = "\<lambda>s. slob_pmm (heap s)"])
  then show ?case using B g s1(3) by (auto simp: set_pmm_def)
qed (use A in auto)

interpretation pages: table_source vm_owned from_pmm "\<lambda>s. all_pages (zone_list (vm_pmm s))"
proof
  fix s s' T fl e
  assume own: "vm_owned s T" and fl: "from_pmm fl" and r: "alloc_pgtab fl s = Inr (e, s')"
  obtain A where A: "pmm_inv (vm_pmm s) A" "all_pages (zone_list (vm_pmm s)) \<subseteq> {1 ..< 2 ^ 35}"
    "T \<inter> all_pages (zone_list (vm_pmm s)) \<subseteq> \<Union> (block_pages ` A)"
    using own by (auto simp: vm_owned_def)
  from alloc_pgtab_pmm [OF A(1,2) fl] r obtain g st where g: "s' = set_pmm st s" "table_of e = Some g"
    "pmm_inv st (insert (g, 0) A)" "(g, 0) \<notin> A" "all_pages (zone_list st) = all_pages (zone_list (vm_pmm s))"
    by auto
  have gb: "g \<in> block_pages (g, 0)" by (simp add: block_pages_def)
  then have in_all: "g \<in> all_pages (zone_list (vm_pmm s))"
    using pmm_inv_inside [OF g(3), of "(g, 0)"] g(5) by auto
  have "g \<notin> block_pages b" if "b \<in> A" for b
    using pmm_inv_disjoint [OF g(3), of b "(g, 0)"] that g(4) gb by blast
  then have "g \<notin> T" using A(3) in_all by blast
  moreover have "vm_owned s' (insert g T)"
    unfolding vm_owned_def using A g gb
    by (intro exI [of _ "insert (g, 0) A"]) (auto simp: set_pmm_def)
  ultimately show "frames s' = frames s \<and> mmus s' = mmus s \<and> nr_cpus s' = nr_cpus s \<and>
      all_pages (zone_list (vm_pmm s')) = all_pages (zone_list (vm_pmm s)) \<and> (\<exists>g. table_of e = Some g \<and> g \<notin> T \<and> vm_owned s' (insert g T))"
    using g(1,2,5) by (auto simp: set_pmm_def)
qed (auto simp: vm_owned_def)

section \<open>Mapping a page\<close>

definition leaf_entry :: "u64 \<Rightarrow> u64 \<Rightarrow> u64" where
  "leaf_entry phys flags =
     (if flags AND VMM_UNMAP \<noteq> 0 then 0
      else (phys AND PTE_ADDR_MASK) OR PAGE_PRESENT OR ((flags XOR PAGE_EXECUTABLE) AND NOT VMM_ALLOC_MMAP))"

text \<open>Flushing changes translation caches only.\<close>

lemma handle_shootdown_frames:
  "handle_shootdown a b i s = Some s' \<Longrightarrow> frames s' = frames s \<and> heap s' = heap s \<and> mmus s' = mmus s \<and>
     boot_mmap s' = boot_mmap s \<and> nr_cpus s' = nr_cpus s"
  by (auto simp: handle_shootdown_def ipi_tlb_shootdown_def split: option.splits if_splits bind_splits)

lemma run_handlers_frames:
  "run_handlers a b is s = Some s' \<Longrightarrow> frames s' = frames s \<and> heap s' = heap s \<and> mmus s' = mmus s \<and>
     boot_mmap s' = boot_mmap s \<and> nr_cpus s' = nr_cpus s"
proof (induction "is" arbitrary: s)
  case (Cons i "is")
  then show ?case using handle_shootdown_frames [of a b i s] by (fastforce split: bind_splits)
qed (simp split: if_splits)

lemma smp_flush_frames:
  "smp_flush m virt e fl s = Some (Inr s') \<Longrightarrow> frames s' = frames s \<and> heap s' = heap s \<and> mmus s' = mmus s \<and>
     boot_mmap s' = boot_mmap s \<and> nr_cpus s' = nr_cpus s"
  by (auto simp: smp_flush_def tlb_shootdown_def dest!: run_handlers_frames split: if_splits sum.splits prod.splits)

lemma find_leaf_present: "tab s root (leaf_path va) = Some t \<Longrightarrow> find_leaf unmap fl root va s = Inr (Some t, s)"
  by (auto simp: find_leaf_def next_table_def pgtab_extract_eq leaf_path_def bind_eq_Some_conv)

lemma lookup_entry:
  "frames s t i = entry s root va" if "walk s root va = Some (t, i)"
  using that by (auto simp: walk_tab entry_def)

context table_source
begin

text \<open>A call of \<^verbatim>\<open>vmm_map_page\<close> with tables from the source updates one page.\<close>

lemma map_page_ok:
  assumes root: "p4 (mmus s m) = Some root" and ok: "tables_ok s root T" and own: "owned s T"
    and serves: "serves (ucast (flags OR (if virt < KERNEL_LOGICAL_BASE then PAGE_USER_ACCESSIBLE else 0)))"
  shows "case vmm_map_page m phys virt flags s of
      None \<Rightarrow> 1 < nr_cpus s
    | Some (Inl e) \<Rightarrow> 1 < nr_cpus s \<or> flags AND VMM_UNMAP = 0 \<and> walk s root virt = None \<and>
        (\<exists>s1 n. took (ucast (flags OR (if virt < KERNEL_LOGICAL_BASE then PAGE_USER_ACCESSIBLE else 0))) n s s1 \<and> n \<le> 2 \<and>
           alloc_pgtab (ucast (flags OR (if virt < KERNEL_LOGICAL_BASE then PAGE_USER_ACCESSIBLE else 0))) s1 = Inl e)
    | Some (Inr s') \<Rightarrow> (\<exists>T'. T \<subseteq> T' \<and> tables_ok s' root T' \<and> owned s' T') \<and> mmus s' = mmus s \<and>
        nr_cpus s' = nr_cpus s \<and> (\<forall>va va'. shares s' root va va' = shares s root va va') \<and>
        (\<exists>n. took (ucast (flags OR (if virt < KERNEL_LOGICAL_BASE then PAGE_USER_ACCESSIBLE else 0))) n s s' \<and>
           n \<le> (if walk s root virt = None then 3 else 0)) \<and>
        (\<forall>va. entry s' root va = (if shares s root virt va then leaf_entry phys flags else entry s root va))"
proof -
  let ?va = "virt AND NOT (PAGE_SIZE - 1)" and ?unmap = "flags AND VMM_UNMAP \<noteq> 0"
  define tf where "tf = (ucast (flags OR (if virt < KERNEL_LOGICAL_BASE then PAGE_USER_ACCESSIBLE else 0)) :: u32)"
  have pn: "page_number ?va = page_number virt" by (rule page_number_align)
  have wlk: "(walk s root virt = None) = (tab s root (leaf_path ?va) = None)"
    using pn by (simp add: walk_tab page_number_eq leaf_path_def)
  have fl: "serves tf" using serves by (simp add: tf_def)
  show ?thesis
  proof (cases "find_leaf ?unmap tf root ?va s")
    case (Inl e)
    then have "tab s root (leaf_path ?va) = None"
      using find_leaf_present [of s root ?va _ ?unmap tf] by (cases "tab s root (leaf_path ?va)") auto
    moreover have "\<exists>s1 n. took tf n s s1 \<and> n \<le> 2 \<and> alloc_pgtab tf s1 = Inl e \<and> \<not> ?unmap"
      by (rule find_leaf_fails [OF ok own fl Inl])
    ultimately show ?thesis
      using Inl root wlk by (auto simp: vmm_map_page_def Let_def tf_def [symmetric])
  next
    case (Inr ts)
    obtain t s1 where ts: "ts = (t, s1)" by (cases ts)
    obtain T1 n1 where T1: "step_to root T s T1 s1" "t = None \<longrightarrow> ?unmap \<and> tab s root (leaf_path ?va) = None"
      "\<forall>g. t = Some g \<longrightarrow> tab s1 root (leaf_path ?va) = Some g" "?unmap \<longrightarrow> s1 = s" and n1: "n1 \<le> 3" "took tf n1 s s1"
      using find_leaf_ok [OF ok own fl Inr [unfolded ts]] by blast
    have tk: "\<exists>n. took tf n s s2 \<and> n \<le> (if walk s root virt = None then 3 else 0)" if "heap s2 = heap s1" "boot_mmap s2 = boot_mmap s1" for s2
    proof (cases "walk s root virt")
      case None
      then show ?thesis using took_same [OF n1(2) that] n1(1) by auto
    next
      case (Some w)
      then have "s1 = s" using wlk find_leaf_present [of s root ?va _ ?unmap tf] Inr ts by auto
      then show ?thesis using that Some by (auto intro!: exI [of _ 0])
    qed
    have step: "T \<subseteq> T1" "tables_ok s1 root T1" "owned s1 T1" "entry s1 root va = entry s root va"
      "mmus s1 = mmus s" "nr_cpus s1 = nr_cpus s" "shares s1 root va va' = shares s root va va'" for va va'
      using T1(1) by (auto simp: step_to_def)
    show ?thesis
    proof (cases t)
      case None
      have "entry s root va = 0" if "shares s root virt va" for va
        using shares_entry [of s root ?va va] that shares_page [OF pn] T1(2) None by (simp add: entry_def)
      then show ?thesis using None T1 Inr ts root ok own tk [of s1]
        by (auto simp: vmm_map_page_def Let_def tf_def [symmetric] leaf_entry_def)
    next
      case (Some t1)
      let ?i = "table_index P1_ADDR_SHIFT ?va"
      define fx where "fx = flags XOR PAGE_EXECUTABLE"
      have run: "vmm_map_page m phys virt flags s =
          map_option (\<lambda>r. obind r (\<lambda>s2. Inr (tlb_flush_single virt (set_entry t1 ?i (leaf_entry phys flags) s2))))
            (smp_flush m virt (frames s1 t1 ?i) fx s1)"
        using Inr ts Some root
        by (simp add: vmm_map_page_def Let_def tf_def [symmetric] leaf_entry_def fx_def)
      show ?thesis
      proof (cases "\<exists>s2. smp_flush m virt (frames s1 t1 ?i) fx s1 = Some (Inr s2)")
        case True
        then obtain s2 where s2: "smp_flush m virt (frames s1 t1 ?i) fx s1 = Some (Inr s2)" by blast
        note same = smp_flush_frames [OF s2]
        let ?s = "tlb_flush_single virt (set_entry t1 ?i (leaf_entry phys flags) s2)"
        have fr: "frames ?s = (frames s1)(t1 := (frames s1 t1)(?i := leaf_entry phys flags))"
          using same by (simp add: tlb_flush_single_def set_entry_def)
        have "owned ?s T1" by (rule contents(1) [OF _ _ step(3)]) (use same in \<open>simp_all add: tlb_flush_single_def set_entry_def\<close>)
        moreover have "mmus ?s = mmus s" "nr_cpus ?s = nr_cpus s"
          using step(5,6) same by (simp_all add: tlb_flush_single_def set_entry_def)
        moreover have "\<exists>n. took tf n s ?s \<and> n \<le> (if walk s root virt = None then 3 else 0)"
          using same by (intro tk) (simp_all add: tlb_flush_single_def set_entry_def)
        ultimately show ?thesis
          using run s2 step(1,4,7) write_leaf [OF step(2) _ fr] T1(3) Some shares_page [OF pn] unfolding tf_def by auto
      next
        case False
        then have "1 < nr_cpus s" using step(6) by (auto simp: smp_flush_def split: if_splits)
        moreover have "smp_flush m virt (frames s1 t1 ?i) fx s1 = None \<or>
            (\<exists>e. smp_flush m virt (frames s1 t1 ?i) fx s1 = Some (Inl e))"
          using False by (metis option.exhaust sum.exhaust)
        ultimately show ?thesis using run by auto
      qed
    qed
  qed
qed

end

text \<open>
  C4. vmm_map_page refines the update of one entry in a map from addresses to entries.  With page
  tables none of which is used on two levels, whose frames the page allocator does not consider
  free, and with further tables taken from the page allocator, a call that returns leaves such
  tables again.  Exactly the entry of the addressed page is changed, for every address that shares
  it: to the masked frame address with the present bit and the requested flags (the execute bit
  inverted), or to zero when the call unmaps.  Every other address translates as before, and which
  addresses share an entry does not change; in a tree of tables only those of one page do.  With one
  processor the call always returns, and it fails only in a panic when a table is missing, the call
  maps, and the page allocator has no page left after the at most two pages it has handed out for
  the tables above the missing one.  With several processors the flush that follows may wait for one
  that does not answer, or panic.
\<close>

theorem vmm_map_page_correct:
  assumes root: "p4 (mmus s m) = Some root" and ok: "tables_ok s root T" and own: "vm_owned s T"
    and fl: "flags AND VMM_ALLOC_MMAP = 0"
  shows "case vmm_map_page m phys virt flags s of
      None \<Rightarrow> 1 < nr_cpus s
    | Some (Inl e) \<Rightarrow> 1 < nr_cpus s \<or> e = Panic \<and> flags AND VMM_UNMAP = 0 \<and> walk s root virt = None \<and>
        (\<exists>n \<le> 2. \<exists>st. pmm_pages n (vm_pmm s) = Inr st \<and> (\<forall>z \<in> set (zone_list st). exhausted z 0))
    | Some (Inr s') \<Rightarrow> (\<exists>T'. T \<subseteq> T' \<and> tables_ok s' root T' \<and> vm_owned s' T') \<and> mmus s' = mmus s \<and>
        (\<forall>va va'. shares s' root va va' = shares s root va va') \<and>
        (\<forall>va. entry s' root va = (if shares s root virt va then leaf_entry phys flags else entry s root va))"
proof -
  have "from_pmm (ucast (flags OR (if virt < KERNEL_LOGICAL_BASE then PAGE_USER_ACCESSIBLE else 0)))"
    by (rule from_pmm_flags [OF fl])
  note step = pages.map_page_ok [OF root ok own this, of phys] and serves = this
  have "e = Panic \<and> (\<exists>n \<le> 2. \<exists>st. pmm_pages n (vm_pmm s) = Inr st \<and> (\<forall>z \<in> set (zone_list st). exhausted z 0))"
    if s1: "took tf n s s1" "n \<le> 2" "alloc_pgtab tf s1 = Inl e" and tf: "from_pmm tf" for s1 n e tf
  proof -
    obtain A where A: "pmm_inv (vm_pmm s) A" "all_pages (zone_list (vm_pmm s)) \<subseteq> {1 ..< 2 ^ 35}"
      using own by (auto simp: vm_owned_def)
    obtain B where B: "pmm_pages n (vm_pmm s) = Inr (vm_pmm s1)" "pmm_inv (vm_pmm s1) B"
      "all_pages (zone_list (vm_pmm s1)) \<subseteq> {1 ..< 2 ^ 35}"
      using took_pmm [OF tf s1(1) A] A(2) by auto
    show ?thesis using alloc_pgtab_pmm [OF B(2,3) tf] B(1) s1(2,3) by auto
  qed
  note fails = this [OF _ _ _ serves]
  show ?thesis
  proof (cases "vmm_map_page m phys virt flags s")
    case (Some r)
    show ?thesis
    proof (cases r)
      case (Inl e)
      then show ?thesis using step Some by simp (metis fails)
    qed (use step Some in simp)
  qed (use step in simp)
qed

text \<open>One chain of tables at frames 1 to 4, for the page at 0x400000.\<close>

definition ex_frames :: "nat \<Rightarrow> nat \<Rightarrow> u64" where
  "ex_frames f i = (if f = 1 \<and> i = 0 then 0x2003 else if f = 2 \<and> i = 0 then 0x3003
     else if f = 3 \<and> i = 2 then 0x4003 else 0)"

definition ex_vm :: vm where
  "ex_vm = \<lparr>frames = ex_frames,
     heap = \<lparr>heap_words = (\<lambda>a. 0), slob_head = 0, slob_pmm = empty_pmm (\<lambda>p. 0) (\<lambda>p. 0)\<rparr>,
     boot_mmap = \<lparr>highest_mapped = 0, available = [], reserved = []\<rparr>,
     mmus = (\<lambda>m. \<lparr>p4 = Some 1, users = 1, cpus = 0, areas = []\<rparr>),
     nr_cpus = 1, self_id = 0, tlb = (\<lambda>c. {}), cr3 = (\<lambda>c. Some 1), tlb_remaining_cpus = 0,
     vectors = (\<lambda>v. \<lparr>isr_type = ISR_IRQ, handler = None\<rparr>)\<rparr>"

lemma ex_tables:
  "table_of (frames ex_vm f i) =
     (if f = 1 \<and> i = 0 then Some 2 else if f = 2 \<and> i = 0 then Some 3
      else if f = 3 \<and> i = 2 then Some 4 else None)"
  by (simp add: ex_vm_def ex_frames_def table_of_def PAGE_PRESENT_def PTE_ADDR_MASK_def virt_to_page_def
      phys_to_virt_def virt_to_phys_def phys_to_page_def KERNEL_LOGICAL_BASE_def PAGE_SIZE_def)

lemma ex_paths:
  assumes "path p" "tab ex_vm 1 p = Some f"
  shows "p = [] \<and> f = 1 \<or> p = [0] \<and> f = 2 \<or> p = [0, 0] \<and> f = 3 \<or> p = [0, 0, 2] \<and> f = 4"
proof -
  have "p = [] \<or> (\<exists>i. p = [i]) \<or> (\<exists>i j. p = [i, j]) \<or> (\<exists>i j k. p = [i, j, k])"
    using assms(1) unfolding path_def by (auto simp: numeral_eq_Suc le_Suc_eq length_Suc_conv)
  then show ?thesis using assms(2) by (auto simp: ex_tables split: if_splits)
qed

lemma ex_tables_ok: "tables_ok ex_vm 1 {1, 2, 3, 4}"
  unfolding tables_ok_def
proof (intro conjI allI impI)
  show "f \<in> {1, 2, 3, 4}" if "path p" "tab ex_vm 1 p = Some f" for p f using ex_paths [OF that] by auto
  show "length p = length q" if "path p" "path q" "tab ex_vm 1 p = Some f" "tab ex_vm 1 q = Some f" for p q f
    using ex_paths [OF that(1,3)] ex_paths [OF that(2,4)] by auto
qed

lemma ex_shares: "shares ex_vm 1 va va' \<longleftrightarrow> page_number va = page_number va'"
  by (rule shares_tree) (auto dest!: ex_paths)

lemma ex_owned: "vm_owned ex_vm {1, 2, 3, 4}"
  using empty_pmm_inv by (auto simp: vm_owned_def ex_vm_def empty_pmm_def)

theorem vmm_map_page_correct_witness:
  "\<exists>s'. vmm_map_page Kernel_mmu 0x5000 0x400000 PAGE_WRITABLE ex_vm = Some (Inr s') \<and>
     entry s' 1 0x400123 = 0x8000000000005003 \<and> entry s' 1 0x401000 = 0"
proof -
  have i: "leaf_path 0x400000 = [0, 0, 2]" "leaf_path 0x401000 = [0, 0, 2]"
    by (simp_all add: leaf_path_def table_index_eq P4_ADDR_SHIFT_def P3_ADDR_SHIFT_def P2_ADDR_SHIFT_def)
  have w: "walk ex_vm 1 0x400000 \<noteq> None" by (simp add: walk_tab i ex_tables)
  have n: "shares ex_vm 1 0x400000 0x400123" "\<not> shares ex_vm 1 0x400000 0x401000"
    unfolding ex_shares by (simp_all add: page_number_def)
  have e: "entry ex_vm 1 0x401000 = 0" "leaf_entry 0x5000 PAGE_WRITABLE = 0x8000000000005003"
    by (simp_all add: entry_def i ex_tables)
      (simp_all add: ex_vm_def ex_frames_def leaf_entry_def PAGE_WRITABLE_def VMM_UNMAP_def PTE_ADDR_MASK_def
        PAGE_PRESENT_def PAGE_EXECUTABLE_def VMM_ALLOC_MMAP_def)
  have "p4 (mmus ex_vm Kernel_mmu) = Some 1" "nr_cpus ex_vm = 1" by (simp_all add: ex_vm_def)
  moreover have "PAGE_WRITABLE AND VMM_ALLOC_MMAP = 0" by (simp add: PAGE_WRITABLE_def VMM_ALLOC_MMAP_def)
  ultimately show ?thesis
    using vmm_map_page_correct [OF _ ex_tables_ok ex_owned, of Kernel_mmu PAGE_WRITABLE "0x400000" "0x5000"] w n e
    by (auto split: option.splits sum.splits)
qed

end
