(* ===== verification/Mmu.thy ===== *)
theory Mmu
  imports Vmm_Correct
begin

text \<open>
  Address spaces: copy on write (\<^verbatim>\<open>kernel/mm/cow.c\<close>), the life of an \<^verbatim>\<open>mmu_info\<close>
  (\<^verbatim>\<open>kernel/mm/mmu.c\<close>), the list of areas (\<^verbatim>\<open>kernel/mm/area.c\<close>), the page fault handler
  (\<^verbatim>\<open>kernel/cpu/exceptions.c\<close>) and the start of the memory manager (\<^verbatim>\<open>vmm_init\<close>, \<^verbatim>\<open>vmm_map_all\<close>,
  \<^verbatim>\<open>pmm_init\<close>).  A \<^verbatim>\<open>pte_t *\<close> is the pair of a table and an index.  The end of the kernel image is
  a parameter; the list of areas is a HOL list, since every area is cleared before it is added.
\<close>

section \<open>Copy on write\<close>

definition refcount :: "vm \<Rightarrow> nat \<Rightarrow> u32" where
  "refcount s p = page_refcount (page_data (vm_pmm s)) p"

definition set_refcount :: "nat \<Rightarrow> u32 \<Rightarrow> vm \<Rightarrow> vm" where
  "set_refcount p v s = set_pmm ((vm_pmm s)\<lparr>page_data :=
     (page_data (vm_pmm s))\<lparr>page_refcount := (page_refcount (page_data (vm_pmm s)))(p := v)\<rparr>\<rparr>) s"

text \<open>The value stored at \<open>dest\<close> is returned.\<close>

definition cow_copy_pte :: "nat \<Rightarrow> nat \<Rightarrow> vm \<Rightarrow> (u64 \<times> vm) outcome" where
  "cow_copy_pte t i s =
     (let src = frames s t i in
      case phys_to_page (src AND PTE_ADDR_MASK) of
        None \<Rightarrow> Inl Null_access
      | Some page \<Rightarrow>
          obind
            (if src AND PAGE_COW = 0
             then Inr ((src AND NOT PAGE_WRITABLE) OR PAGE_COW, set_refcount page (refcount s page + 1) s)
             else if src AND PAGE_WRITABLE = 0 then Inr (src, s) else Inl Panic)
            (\<lambda>(src', s1).
              let n = refcount s1 page + 1; s2 = set_refcount page n (set_entry t i src' s1) in
              if n = 0 then Inl Panic else Inr (src', s2)))"

definition cow_handle_write :: "(nat \<times> nat) option \<Rightarrow> u64 \<Rightarrow> vm \<Rightarrow> (bool \<times> vm) outcome" where
  "cow_handle_write pte virt s =
     (case pte of
        None \<Rightarrow> Inr (False, s)
      | Some (t, i) \<Rightarrow>
          if frames s t i AND PAGE_COW = 0 then Inr (False, s)
          else case phys_to_page (frames s t i AND PTE_ADDR_MASK) of
            None \<Rightarrow> Inl Null_access
          | Some page \<Rightarrow>
              let next_count = refcount s page - 1; s1 = set_refcount page next_count s in
              obind
                (if next_count > 0 then
                   obind (pmm_alloc_order (vm_pmm s1) 0 0) (\<lambda>(p, st).
                     case p of
                       None \<Rightarrow> Inl Null_access
                     | Some d \<Rightarrow>
                         if page_to_phys (Some d) = 0 then Inl Null_access
                         else Inr (set_entry t i
                           ((frames s t i AND NOT PTE_ADDR_MASK) OR (page_to_phys (Some d) AND PTE_ADDR_MASK))
                           (copy_frame d page (set_pmm st s1))))
                 else Inr s1)
                (\<lambda>s2. Inr (True, tlb_flush_single virt
                   (set_entry t i ((frames s2 t i AND NOT PAGE_COW) OR PAGE_WRITABLE) s2))))"

definition cow_handle_free :: "u64 \<Rightarrow> nat \<Rightarrow> nat \<Rightarrow> vm \<Rightarrow> vm outcome" where
  "cow_handle_free kernel_end t i s =
     (if frames s t i AND PAGE_COW = 0 then Inl Panic
      else let phys = frames s t i AND PTE_ADDR_MASK in
        if phys < kernel_end then Inr s
        else case phys_to_page phys of
          None \<Rightarrow> Inl Null_access
        | Some page \<Rightarrow>
            let next_count = refcount s page - 1; s1 = set_refcount page next_count s in
            if next_count = 0
            then obind (pmm_free_order (vm_pmm s1) (Some page) 0) (\<lambda>st. Inr (set_pmm st s1))
            else Inr s1)"

section \<open>Address spaces\<close>

definition sizeof_mmu_info :: u64 where "sizeof_mmu_info = 72"

definition copy_kernel_mappings :: "nat \<Rightarrow> vm \<Rightarrow> vm outcome" where
  "copy_kernel_mappings dest s =
     (case p4 (mmus s Kernel_mmu) of None \<Rightarrow> Inl Null_access | Some k \<Rightarrow> Inr (copy_frame dest k s))"

definition mmu_inc_users :: "mmu_ref \<Rightarrow> vm \<Rightarrow> vm" where
  "mmu_inc_users m s =
     (if m \<noteq> Kernel_mmu then set_mmu m ((mmus s m)\<lparr>users := users (mmus s m) + 1\<rparr>) s else s)"

definition mmu_alloc :: "vm \<Rightarrow> (mmu_ref \<times> vm) outcome option" where
  "mmu_alloc s = map_option (\<lambda>r. obind r (\<lambda>(p, h).
     let m = User_mmu p;
         s1 = set_mmu m \<lparr>p4 = None, users = 0, cpus = 0, areas = []\<rparr> (s\<lparr>heap := h\<rparr>)
     in Inr (m, mmu_inc_users m s1))) (kmalloc (heap s) sizeof_mmu_info)"

definition mmu_init :: "mmu_ref \<Rightarrow> vm \<Rightarrow> vm outcome" where
  "mmu_init m s =
     (let s1 = set_mmu m ((mmus s m)\<lparr>cpus := cpuset_clear (cpus (mmus s m))\<rparr>) s in
      obind (pmm_alloc_order (vm_pmm s1) 0 0) (\<lambda>(p, st).
        let s2 = set_mmu m ((mmus s1 m)\<lparr>p4 := p\<rparr>) (set_pmm st s1) in
        case p of None \<Rightarrow> Inl Null_access | Some f \<Rightarrow> copy_kernel_mappings f s2))"

definition mmu_update_cpuset :: "mmu_ref \<Rightarrow> nat \<Rightarrow> bool \<Rightarrow> vm \<Rightarrow> vm outcome" where
  "mmu_update_cpuset m cpu val s =
     (if m \<noteq> Kernel_mmu
      then obind (cpuset_set_id (cpus (mmus s m)) cpu val) (\<lambda>c. Inr (set_mmu m ((mmus s m)\<lparr>cpus := c\<rparr>) s))
      else Inr s)"

definition mmu_switch :: "mmu_ref \<Rightarrow> mmu_ref \<Rightarrow> vm \<Rightarrow> vm outcome" where
  "mmu_switch next_mmu prev_mmu s =
     (if next_mmu \<noteq> prev_mmu then
        obind (mmu_update_cpuset next_mmu (self_id s) False s) (\<lambda>s1.
        obind (mmu_update_cpuset prev_mmu (self_id s) True s1) (\<lambda>s2.
        if p4 (mmus s2 next_mmu) \<noteq> p4 (mmus s2 prev_mmu)
        then Inr (write_cr3 (p4 (mmus s2 next_mmu)) s2) else Inl Panic))
      else Inr s)"

definition free_single_page :: "u64 \<Rightarrow> nat \<Rightarrow> nat \<Rightarrow> vm \<Rightarrow> vm outcome" where
  "free_single_page kernel_end t i s =
     (let phys = frames s t i AND PTE_ADDR_MASK in
      obind
        (if frames s t i AND PAGE_COW \<noteq> 0 then cow_handle_free kernel_end t i s
         else if phys > kernel_end then
           obind (pmm_free_order (vm_pmm s) (phys_to_page phys) 0) (\<lambda>st. Inr (set_pmm st s))
         else Inr s)
        (\<lambda>s1. Inr (set_entry t i 0 s1)))"

fun each_index :: "(nat \<Rightarrow> vm \<Rightarrow> vm outcome) \<Rightarrow> nat list \<Rightarrow> vm \<Rightarrow> vm outcome" where
  "each_index f [] s = Inr s"
| "each_index f (i # is) s = obind (f i s) (each_index f is)"

text \<open>The body of one of the three outer loops of \<^verbatim>\<open>mmu_reap\<close>: reap the table below, free it, clear.\<close>

definition reap_below :: "(nat \<Rightarrow> vm \<Rightarrow> vm outcome) \<Rightarrow> nat \<Rightarrow> nat \<Rightarrow> vm \<Rightarrow> vm outcome" where
  "reap_below reap t i s =
     (case pgtab_extract_virt_addr s t i of
        None \<Rightarrow> Inr s
      | Some u \<Rightarrow>
          obind (reap u s) (\<lambda>s1.
          obind (pmm_free_order (vm_pmm s1) (Some u) 0) (\<lambda>st. Inr (set_entry t i 0 (set_pmm st s1)))))"

definition reap_p1 :: "u64 \<Rightarrow> nat \<Rightarrow> vm \<Rightarrow> vm outcome" where
  "reap_p1 kernel_end p1 = each_index (\<lambda>i s.
     if frames s p1 i AND PAGE_PRESENT \<noteq> 0 then free_single_page kernel_end p1 i s else Inr s) [0..<512]"

definition reap_p2 :: "u64 \<Rightarrow> nat \<Rightarrow> vm \<Rightarrow> vm outcome" where
  "reap_p2 kernel_end p2 = each_index (reap_below (reap_p1 kernel_end) p2) [0..<512]"

definition reap_p3 :: "u64 \<Rightarrow> nat \<Rightarrow> vm \<Rightarrow> vm outcome" where
  "reap_p3 kernel_end p3 = each_index (reap_below (reap_p2 kernel_end) p3) [0..<512]"

definition mmu_reap :: "u64 \<Rightarrow> mmu_ref \<Rightarrow> vm \<Rightarrow> vm outcome" where
  "mmu_reap kernel_end m s =
     (if m = Kernel_mmu \<or> users (mmus s m) \<noteq> 0 then Inl Panic
      else case p4 (mmus s m) of
        None \<Rightarrow> Inl Null_access
      | Some root \<Rightarrow>
          obind (each_index (reap_below (reap_p3 kernel_end) root) [0..<128] s) (\<lambda>s1.
          let s2 = write_cr3 (p4 (mmus s1 Kernel_mmu)) s1 in
          obind (pmm_free_order (vm_pmm s2) (Some root) 0) (\<lambda>st.
          Inr (set_mmu m ((mmus s2 m)\<lparr>p4 := None\<rparr>) (set_pmm st s2)))))"

definition mmu_free :: "u64 \<Rightarrow> mmu_ref \<Rightarrow> vm \<Rightarrow> vm outcome" where
  "mmu_free kernel_end m s =
     (if m = Kernel_mmu \<or> users (mmus s m) \<noteq> 0 then Inl Panic else mmu_reap kernel_end m s)"

definition mmu_dec_users :: "u64 \<Rightarrow> mmu_ref \<Rightarrow> vm \<Rightarrow> vm outcome" where
  "mmu_dec_users kernel_end m s =
     (if m \<noteq> Kernel_mmu then
        let num = users (mmus s m) - 1; s1 = set_mmu m ((mmus s m)\<lparr>users := num\<rparr>) s in
        if num = 0 then mmu_free kernel_end m s1 else Inr s1
      else Inr s)"

section \<open>Cloning\<close>

definition clone_single_page :: "nat \<Rightarrow> nat \<Rightarrow> vm \<Rightarrow> (u64 \<times> vm) outcome" where
  "clone_single_page t i s = cow_copy_pte t i s"

text \<open>The copy of entry \<open>i\<close> of a table at level 1, and at a higher level with the recursive call.\<close>

definition clone_leaf :: "nat \<Rightarrow> nat \<Rightarrow> nat \<Rightarrow> vm \<Rightarrow> vm outcome" where
  "clone_leaf rv pgtab i s =
     (if frames s pgtab i AND PAGE_PRESENT \<noteq> 0
      then obind (clone_single_page pgtab i s) (\<lambda>(dest, s1). Inr (set_entry rv i dest s1))
      else Inr s)"

definition clone_below ::
  "(nat \<Rightarrow> vm \<Rightarrow> (nat \<times> vm) outcome) \<Rightarrow> nat \<Rightarrow> nat \<Rightarrow> nat \<Rightarrow> vm \<Rightarrow> vm outcome" where
  "clone_below clone rv pgtab i s =
     (if frames s pgtab i AND PAGE_PRESENT \<noteq> 0 then
        (case virt_to_page (phys_to_virt (frames s pgtab i AND PTE_ADDR_MASK)) of
           None \<Rightarrow> Inl Null_access
         | Some t \<Rightarrow>
             let flags = frames s pgtab i AND NOT PTE_ADDR_MASK in
             obind (clone t s) (\<lambda>(c, s1). Inr (set_entry rv i (page_to_phys (Some c) OR flags) s1)))
      else Inr s)"

definition new_pgtab :: "vm \<Rightarrow> (nat \<times> vm) outcome" where
  "new_pgtab s = obind (pmm_alloc_order (vm_pmm s) 0 0) (\<lambda>(p, st).
     case p of
       None \<Rightarrow> Inl Null_access
     | Some f \<Rightarrow> if page_to_phys (Some f) = 0 then Inl Null_access else Inr (f, clear_frame f (set_pmm st s)))"

primrec clone_pgtab :: "nat \<Rightarrow> nat \<Rightarrow> vm \<Rightarrow> (nat \<times> vm) outcome" where
  "clone_pgtab 0 pgtab s = Inl Panic"
| "clone_pgtab (Suc level) pgtab s =
     obind (new_pgtab s) (\<lambda>(rv, s1).
     obind (if Suc level = 4 then copy_kernel_mappings rv s1 else Inr s1) (\<lambda>s2.
     obind (each_index
              (if Suc level = 1 then clone_leaf rv pgtab else clone_below (clone_pgtab level) rv pgtab)
              [0 ..< (if Suc level = 4 then 128 else 512)] s2) (\<lambda>s3.
     Inr (rv, s3))))"

definition mmu_clone_cow :: "mmu_ref \<Rightarrow> mmu_ref \<Rightarrow> vm \<Rightarrow> vm outcome" where
  "mmu_clone_cow dest m s =
     (if p4 (mmus s dest) \<noteq> None then Inl Panic
      else case p4 (mmus s m) of
        None \<Rightarrow> Inl Null_access
      | Some root \<Rightarrow>
          obind (clone_pgtab 4 root s) (\<lambda>(rv, s1).
          Inr (tlb_flush_all (set_mmu dest ((mmus s1 dest)\<lparr>p4 := Some rv\<rparr>) s1))))"

section \<open>Areas\<close>

text \<open>The walk over the areas, with the part already passed (\<open>prev\<close> is its last element).\<close>

fun area_insert :: "vm_area \<Rightarrow> vm_area list \<Rightarrow> vm_area list \<Rightarrow> vm_area list outcome" where
  "area_insert a passed [] =
     (if area_base (last passed) + area_len (last passed) < area_base a then Inr (passed @ [a]) else Inl Panic)"
| "area_insert a passed (cur # rest) =
     (if area_base cur = area_base a then Inl Panic
      else if area_base cur > area_base a then
        if area_base a + area_len a < area_base cur then Inr (passed @ a # cur # rest) else Inl Panic
      else area_insert a (passed @ [cur]) rest)"

definition area_add :: "mmu_ref \<Rightarrow> vm_area \<Rightarrow> vm \<Rightarrow> vm outcome" where
  "area_add m a s =
     (if m = Kernel_mmu then Inl Panic
      else obind (if areas (mmus s m) = [] then Inr [a] else area_insert a [] (areas (mmus s m)))
        (\<lambda>as. Inr (set_mmu m ((mmus s m)\<lparr>areas := as\<rparr>) s)))"

section \<open>Page faults\<close>

definition PAGE_FAULT_RW :: u64 where "PAGE_FAULT_RW = 2"

text \<open>The faulting address is \<^verbatim>\<open>cr2\<close>; the current task's \<^verbatim>\<open>mmu_info\<close> is \<open>None\<close> when there is no task.\<close>

definition page_fault_handler :: "u64 \<Rightarrow> u64 \<Rightarrow> mmu_ref option \<Rightarrow> vm \<Rightarrow> vm outcome" where
  "page_fault_handler cr2 info current s =
     (if cr2 AND push_bit 63 1 \<noteq> 0 then Inl Panic
      else case current of
        None \<Rightarrow> Inl Panic
      | Some m \<Rightarrow>
          let aligned_addr = cr2 AND NOT (PAGE_SIZE - 1) in
          obind (vmm_get_pte s m aligned_addr) (\<lambda>pte.
          obind (if info AND PAGE_FAULT_RW \<noteq> 0 then cow_handle_write pte aligned_addr s else Inr (False, s))
            (\<lambda>(finished, s1). if finished then Inr s1 else Inl Panic)))"

section \<open>Starting the memory manager\<close>

definition vmm_init :: "nat \<Rightarrow> vm \<Rightarrow> vm" where
  "vmm_init p4_table s = set_mmu Kernel_mmu ((mmus s Kernel_mmu)\<lparr>p4 := Some p4_table, areas := []\<rparr>) s"

definition map_flags :: u64 where "map_flags = VMM_ALLOC_MMAP OR PAGE_GLOBAL OR PAGE_WRITABLE"

text \<open>The loops may not end: the bound \<^verbatim>\<open>end - PAGE_SIZE\<close> and the address can wrap.\<close>

partial_function (option) map_region_loop :: "u64 \<Rightarrow> u64 \<Rightarrow> vm \<Rightarrow> vm outcome option" where
  "map_region_loop j last_addr s =
     (if j \<le> last_addr then do {
        r \<leftarrow> vmm_map_page Kernel_mmu j (phys_to_virt j) map_flags s;
        (case r of
           Inl e \<Rightarrow> Some (Inl e)
         | Inr s1 \<Rightarrow> map_region_loop (j + PAGE_SIZE) last_addr
             (s1\<lparr>boot_mmap := (boot_mmap s1)\<lparr>highest_mapped := max j (highest_mapped (boot_mmap s1))\<rparr>\<rparr>)) }
      else Some (Inr s))"

partial_function (option) map_regions :: "nat \<Rightarrow> vm \<Rightarrow> vm outcome option" where
  "map_regions i s =
     (if i < length (available (boot_mmap s)) then do {
        let rg = available (boot_mmap s) ! i;
        r \<leftarrow> map_region_loop (ALIGNUP (rg_base rg) PAGE_SIZE) (rg_base rg + rg_len rg - PAGE_SIZE) s;
        (case r of Inl e \<Rightarrow> Some (Inl e) | Inr s1 \<Rightarrow> map_regions (i + 1) s1) }
      else Some (Inr s))"

definition vmm_map_all :: "u64 \<Rightarrow> nat \<Rightarrow> vm \<Rightarrow> vm outcome option" where
  "vmm_map_all zero_page p4_table s = map_option (\<lambda>r. obind r (\<lambda>s1.
     obind (vmm_get_pte s1 Kernel_mmu zero_page) (\<lambda>pte.
     case pte of
       None \<Rightarrow> Inl Null_access
     | Some (t, i) \<Rightarrow>
         let s2 = set_entry t i 0 s1 in
         Inr (set_mmu Kernel_mmu ((mmus s2 Kernel_mmu)\<lparr>p4 := Some p4_table\<rparr>) s2)))) (map_regions 0 s)"

definition sizeof_page :: u64 where "sizeof_page = 40"
definition KERNEL_PAGE_DATA :: u64 where "KERNEL_PAGE_DATA = KERNEL_TEXT_BASE + KERNEL_PHYS_MAP_END"

fun reserve_loop :: "nat list \<Rightarrow> vm \<Rightarrow> vm outcome option" where
  "reserve_loop [] s = Some (Inr s)"
| "reserve_loop (pfn # pfns) s =
     (let array_addr = KERNEL_PAGE_DATA + of_nat pfn * sizeof_page in
      case vmm_has_flags s Kernel_mmu array_addr PAGE_PRESENT of
        Inl e \<Rightarrow> Some (Inl e)
      | Inr True \<Rightarrow> reserve_loop pfns s
      | Inr False \<Rightarrow>
          (case mmap_alloc_low (boot_mmap s) PAGE_SIZE MMAP_ALLOC_PA of
             Inl e \<Rightarrow> Some (Inl e)
           | Inr (rg, mm) \<Rightarrow>
               if rg_len rg = PAGE_SIZE then do {
                 r \<leftarrow> vmm_map_page Kernel_mmu (rg_base rg) array_addr map_flags (s\<lparr>boot_mmap := mm\<rparr>);
                 (case r of Inl e \<Rightarrow> Some (Inl e) | Inr s1 \<Rightarrow> reserve_loop pfns s1) }
               else Some (Inl Panic)))"

definition clear_pages :: "nat \<Rightarrow> nat \<Rightarrow> page_array \<Rightarrow> page_array" where
  "clear_pages start num pd =
     (let inside = (\<lambda>p. start \<le> p \<and> p < start + num) in
      pd\<lparr>page_list := (\<lambda>p. if inside p then \<lparr>dnext = None, dprev = None\<rparr> else page_list pd p),
         page_order := (\<lambda>p. if inside p then 0 else page_order pd p),
         page_refcount := (\<lambda>p. if inside p then 0 else page_refcount pd p)\<rparr>)"

definition reserve_page_data_range :: "u64 \<Rightarrow> u64 \<Rightarrow> vm \<Rightarrow> vm outcome option" where
  "reserve_page_data_range start num_pages s =
     (let pfn_start = unat (start div PAGE_SIZE); n = unat num_pages in
      map_option (\<lambda>r. obind r (\<lambda>s1.
        Inr (set_pmm ((vm_pmm s1)\<lparr>page_data := clear_pages pfn_start n (page_data (vm_pmm s1))\<rparr>) s1)))
        (reserve_loop [pfn_start ..< pfn_start + n] s))"

fun reserve_page_data :: "mmap_region list \<Rightarrow> vm \<Rightarrow> vm outcome option" where
  "reserve_page_data [] s = Some (Inr s)"
| "reserve_page_data (rg # rgs) s =
     (case calc_available_pages rg of
        Inl e \<Rightarrow> Some (Inl e)
      | Inr n \<Rightarrow> do {
          r \<leftarrow> reserve_page_data_range (ALIGNUP (rg_base rg) PAGE_SIZE) n s;
          (case r of Inl e \<Rightarrow> Some (Inl e) | Inr s1 \<Rightarrow> reserve_page_data rgs s1) })"

definition pmm_init :: "vm \<Rightarrow> vm outcome option" where
  "pmm_init s =
     (let temp_rgs = available (boot_mmap s) in
      map_option (\<lambda>r. obind r (\<lambda>s1.
        obind (init_zones temp_rgs (vm_pmm s1)) (\<lambda>st. Inr (set_pmm st s1))))
        (reserve_page_data temp_rgs s))"

end
