(* ===== verification/Mmu_Correct.thy ===== *)
theory Mmu_Correct
  imports Mmu
begin

text \<open>
  Properties of the address spaces: isolation of copy-on-write pages, the permissions that it
  loses, the bookkeeping of the processors that run an address space, and the list of areas.
\<close>

section \<open>Bits of an entry\<close>

lemma pte_bits: "PAGE_WRITABLE = 2 ^ 1" "PAGE_COW = 2 ^ 9" "PTE_ADDR_MASK = push_bit 12 (mask 40)"
  by (simp_all add: PAGE_WRITABLE_def PAGE_COW_def PTE_ADDR_MASK_bits)

definition make_writable :: "u64 \<Rightarrow> u64" where
  "make_writable e = (e AND NOT PAGE_COW) OR PAGE_WRITABLE"

definition redirect :: "u64 \<Rightarrow> u64 \<Rightarrow> u64" where
  "redirect e a = (e AND NOT PTE_ADDR_MASK) OR (a AND PTE_ADDR_MASK)"

lemma make_writable_bits:
  "make_writable e AND PTE_ADDR_MASK = e AND PTE_ADDR_MASK" "make_writable e AND PAGE_WRITABLE \<noteq> 0"
  "make_writable e AND PAGE_COW = 0"
proof -
  have b: "bit (make_writable e) n = (n = 1 \<or> n \<noteq> 9 \<and> bit e n)" for n
    unfolding make_writable_def pte_bits bit_or_iff bit_and_iff bit_not_iff bit_exp_iff
    using bit_imp_le_length [of e n] by (auto simp: possible_bit_word)
  show "make_writable e AND PTE_ADDR_MASK = e AND PTE_ADDR_MASK"
    by (rule bit_word_eqI) (auto simp: bit_and_iff b pte_bits(3) bit_push_bit_iff)
  show "make_writable e AND PAGE_WRITABLE \<noteq> 0" "make_writable e AND PAGE_COW = 0"
    unfolding pte_bits(1,2) and_exp_eq_0_iff_not_bit b by simp_all
qed

lemma redirect_bits:
  "redirect e a AND PTE_ADDR_MASK = a AND PTE_ADDR_MASK"
  "redirect e a AND NOT PTE_ADDR_MASK = e AND NOT PTE_ADDR_MASK"
  unfolding redirect_def by (rule bit_word_eqI; auto simp: bit_or_iff bit_and_iff bit_not_iff)+

lemma make_writable_flags:
  "make_writable e AND NOT (PTE_ADDR_MASK OR PAGE_COW OR PAGE_WRITABLE) =
     e AND NOT (PTE_ADDR_MASK OR PAGE_COW OR PAGE_WRITABLE)"
  unfolding make_writable_def by (rule bit_word_eqI) (auto simp: bit_or_iff bit_and_iff bit_not_iff)

section \<open>Reference counts and the page allocator\<close>

lemma pmm_inv_refcount:
  "pmm_inv (st\<lparr>page_data := (page_data st)\<lparr>page_refcount := r\<rparr>\<rparr>) A = pmm_inv st A"
  by (simp add: pmm_inv_def pmm_parts_def unlinked_def lists_ok_def)

lemma set_refcount_fields [simp]:
  "frames (set_refcount p v s) = frames s" "mmus (set_refcount p v s) = mmus s"
  "zone_list (vm_pmm (set_refcount p v s)) = zone_list (vm_pmm s)"
  "refcount (set_refcount p v s) q = (if q = p then v else refcount s q)"
  "pmm_inv (vm_pmm (set_refcount p v s)) A = pmm_inv (vm_pmm s) A"
  by (simp_all add: set_refcount_def set_pmm_def refcount_def pmm_inv_refcount)

lemma set_entry_fields [simp]:
  "heap (set_entry t i v s) = heap s" "refcount (set_entry t i v s) = refcount s"
  "frames (set_entry t i v s) = (frames s)(t := (frames s t)(i := v))"
  by (simp_all add: set_entry_def refcount_def fun_eq_iff)

lemma copy_frame_fields [simp]:
  "heap (copy_frame d p s) = heap s" "refcount (copy_frame d p s) = refcount s"
  "frames (copy_frame d p s) = (frames s)(d := frames s p)"
  by (simp_all add: copy_frame_def refcount_def fun_eq_iff)

lemma tlb_flush_fields [simp]:
  "heap (tlb_flush_single v s) = heap s" "refcount (tlb_flush_single v s) = refcount s"
  "frames (tlb_flush_single v s) = frames s"
  by (simp_all add: tlb_flush_single_def refcount_def fun_eq_iff)

lemma set_pmm_fields [simp]: "vm_pmm (set_pmm st s) = st" "frames (set_pmm st s) = frames s"
  "refcount (set_pmm st s) p = page_refcount (page_data st) p"
  by (simp_all add: set_pmm_def refcount_def)

section \<open>Copy on write\<close>

definition frame_of :: "u64 \<Rightarrow> nat option" where
  "frame_of e = phys_to_page (e AND PTE_ADDR_MASK)"

lemma frame_of_make_writable [simp]: "frame_of (make_writable e) = frame_of e"
  by (simp add: frame_of_def make_writable_bits)

lemma page_to_phys_unat: "p < 2 ^ 52 \<Longrightarrow> unat (page_to_phys (Some p)) = p * 4096"
proof -
  assume p: "p < 2 ^ 52"
  have "(of_nat p * 4096 :: u64) = of_nat (p * 4096)" by simp
  then show ?thesis using p unat_of_nat_u64 [of "p * 4096"] by (simp add: page_to_phys_def PAGE_SIZE_def)
qed

lemma frame_of_redirect:
  assumes "d \<in> {1 ..< 2 ^ 35}"
  shows "frame_of (redirect e (page_to_phys (Some d))) = Some d" "page_to_phys (Some d) \<noteq> 0"
proof -
  have u: "unat (page_to_phys (Some d)) = d * 4096" using assms page_to_phys_unat by simp
  then have "unat (page_to_phys (Some d)) \<noteq> 0" using assms by simp
  then show z: "page_to_phys (Some d) \<noteq> 0" by (metis unat_0)
  have "page_to_phys (Some d) AND PTE_ADDR_MASK = page_to_phys (Some d)"
    using assms by (intro frame_phys_masked) simp
  then show "frame_of (redirect e (page_to_phys (Some d))) = Some d"
    using z u by (simp add: frame_of_def redirect_bits phys_to_page_def PAGE_SIZE_def unat_div_distrib)
qed

text \<open>
  C12. A write fault on a copy-on-write page isolates the writer.  For an entry marked copy-on-write
  that refers to frame p, with the table and the frame accounted for in the page allocator, a
  fault that is handled leaves the entry writable and not copy-on-write with all its other flag
  bits as they were; when this was the last reference the entry keeps frame p, otherwise it
  refers to a frame that no holder of memory had, which carries a copy of the contents of p;
  the reference count of p drops by one, and every other word of memory is unchanged, so the
  remaining owners read what they read before.  The handler fails only in a panic when a copy
  is needed and the page allocator is exhausted.
\<close>

theorem cow_handle_write_correct:
  assumes inv: "pmm_inv (vm_pmm s) A" and rng: "all_pages (zone_list (vm_pmm s)) \<subseteq> {1 ..< 2 ^ 35}"
    and own: "{t, p} \<inter> all_pages (zone_list (vm_pmm s)) \<subseteq> \<Union> (block_pages ` A)"
    and e: "e = frames s t i" "e AND PAGE_COW \<noteq> 0" "frame_of e = Some p"
  shows "case cow_handle_write (Some (t, i)) virt s of
      Inl err \<Rightarrow> err = Panic \<and> refcount s p \<noteq> 1 \<and> (\<forall>z \<in> set (zone_list (vm_pmm s)). exhausted z 0)
    | Inr (handled, s') \<Rightarrow> handled \<and> refcount s' p = refcount s p - 1 \<and>
        (\<exists>d e'. frames s' = (frames s)(d := frames s p, t := (frames s t)(i := e')) \<and>
           frame_of e' = Some d \<and> e' AND PAGE_WRITABLE \<noteq> 0 \<and> e' AND PAGE_COW = 0 \<and>
           e' AND NOT (PTE_ADDR_MASK OR PAGE_COW OR PAGE_WRITABLE) =
             e AND NOT (PTE_ADDR_MASK OR PAGE_COW OR PAGE_WRITABLE) \<and>
           (if refcount s p = 1 then d = p
            else d \<notin> {t, p} \<union> \<Union> (block_pages ` A) \<and> pmm_inv (vm_pmm s') (insert (d, 0) A)))"
proof (cases "refcount s p = 1")
  case True
  let ?s = "tlb_flush_single virt (set_entry t i (make_writable e) (set_refcount p 0 s))"
  have "cow_handle_write (Some (t, i)) virt s = Inr (True, ?s)"
    using e True by (simp add: cow_handle_write_def frame_of_def make_writable_def)
  moreover have "frames ?s = (frames s)(p := frames s p, t := (frames s t)(i := make_writable e))" by simp
  ultimately show ?thesis
    using True e(3) make_writable_bits [of e] make_writable_flags [of e]
    by (auto intro!: exI [of _ p] exI [of _ "make_writable e"])
next
  case False
  let ?n = "refcount s p - 1" and ?s1 = "set_refcount p (refcount s p - 1) s"
  have n: "0 < ?n" using False by (simp add: word_gt_0)
  have inv1: "pmm_inv (vm_pmm ?s1) A" using inv by simp
  have "0 < MAX_ORDER" by (simp add: MAX_ORDER_def)
  from pmm_alloc_order_spec [OF inv1 this, of 0] show ?thesis
  proof (elim disjE exE conjE)
    assume "alloc_from_zones (zone_list (vm_pmm ?s1)) (page_data (vm_pmm ?s1)) 0 =
        Inr (None, zone_list (vm_pmm ?s1), page_data (vm_pmm ?s1))"
      and "\<forall>z \<in> set (zone_list (vm_pmm ?s1)). exhausted z 0"
    then show ?thesis
      using e n False by (simp add: cow_handle_write_def frame_of_def pmm_alloc_order_def MAX_ORDER_def GFP_CAN_FAIL_def)
  next
    fix d st
    assume r: "pmm_alloc_order (vm_pmm ?s1) 0 0 = Inr (Some d, st)" "pmm_inv st (insert (d, 0) A)" "(d, 0) \<notin> A"
      "all_pages (zone_list st) = all_pages (zone_list (vm_pmm ?s1))"
      "page_refcount (page_data st) = page_refcount (page_data (vm_pmm ?s1))"
    have db: "d \<in> block_pages (d, 0)" by (simp add: block_pages_def)
    then have dz: "d \<in> all_pages (zone_list (vm_pmm s))"
      using pmm_inv_inside [OF r(2), of "(d, 0)"] r(4) by auto
    have dA: "d \<notin> \<Union> (block_pages ` A)"
      using pmm_inv_disjoint [OF r(2), of _ "(d, 0)"] r(3) db by blast
    have d: "d \<in> {1 ..< 2 ^ 35}" "d \<noteq> t" "d \<noteq> p" using dz dA rng own by auto
    note fr = frame_of_redirect(1) [OF d(1), of e] frame_of_redirect(2) [OF d(1)]
    let ?e = "make_writable (redirect e (page_to_phys (Some d)))"
    let ?s = "tlb_flush_single virt (set_entry t i ?e (set_entry t i (redirect e (page_to_phys (Some d)))
      (copy_frame d p (set_pmm st ?s1))))"
    have run: "cow_handle_write (Some (t, i)) virt s = Inr (True, ?s)"
      using e n r(1) fr(2) by (simp add: cow_handle_write_def frame_of_def make_writable_def redirect_def)
    have f: "frames ?s = (frames s)(d := frames s p, t := (frames s t)(i := ?e))"
      using d(2) by (auto simp: fun_eq_iff)
    have "refcount ?s p = ?n" using r(5) by (simp add: set_refcount_def refcount_def set_pmm_def)
    moreover have "?e AND NOT (PTE_ADDR_MASK OR PAGE_COW OR PAGE_WRITABLE) =
        e AND NOT (PTE_ADDR_MASK OR PAGE_COW OR PAGE_WRITABLE)"
      unfolding make_writable_flags using redirect_bits(2) [of e "page_to_phys (Some d)"]
      by (simp add: bit.de_Morgan_disj and.assoc [symmetric])
    ultimately show ?thesis
      using run f fr(1) make_writable_bits [of "redirect e (page_to_phys (Some d))"] False d dA r(2)
      by (auto intro!: exI [of _ d] exI [of _ ?e])
  qed
qed

definition cow_vm :: "u64 \<Rightarrow> pmm \<Rightarrow> vm" where
  "cow_vm e st = ex_vm\<lparr>frames := (\<lambda>f i. if f = 4 \<and> i = 0 then e else if f = 5 then 7 else 0),
     heap := \<lparr>heap_words = (\<lambda>a. 0), slob_head = 0, slob_pmm = st\<rparr>\<rparr>"

theorem cow_handle_write_correct_witness:
  "\<exists>s'. cow_handle_write (Some (4, 0)) 0x400000 (cow_vm 0x5205 (empty_pmm (\<lambda>p. 0) (\<lambda>p. 1))) = Inr (True, s') \<and>
     refcount s' 5 = 0 \<and> frames s' 4 0 AND PAGE_WRITABLE \<noteq> 0 \<and> frames s' 5 = (\<lambda>i. 7)"
proof -
  let ?s = "cow_vm 0x5205 (empty_pmm (\<lambda>p. 0) (\<lambda>p. 1))"
  have i: "pmm_inv (vm_pmm ?s) {}" "zone_list (vm_pmm ?s) = []" "refcount ?s 5 = 1"
    using empty_pmm_inv by (simp_all add: cow_vm_def empty_pmm_def refcount_def)
  have e: "(0x5205 :: u64) = frames ?s 4 0" "(0x5205 :: u64) AND PAGE_COW \<noteq> 0" "frame_of 0x5205 = Some 5"
    "frames ?s 5 = (\<lambda>i. 7)"
    by (auto simp: cow_vm_def PAGE_COW_def frame_of_def phys_to_page_def PTE_ADDR_MASK_def PAGE_SIZE_def)
  have "case cow_handle_write (Some (4, 0)) 0x400000 ?s of
      Inl err \<Rightarrow> err = Panic \<and> refcount ?s 5 \<noteq> 1 \<and> (\<forall>z \<in> set (zone_list (vm_pmm ?s)). exhausted z 0)
    | Inr (handled, s') \<Rightarrow> handled \<and> refcount s' 5 = refcount ?s 5 - 1 \<and>
        (\<exists>d e'. frames s' = (frames ?s)(d := frames ?s 5, 4 := (frames ?s 4)(0 := e')) \<and>
           frame_of e' = Some d \<and> e' AND PAGE_WRITABLE \<noteq> 0 \<and> e' AND PAGE_COW = 0 \<and>
           e' AND NOT (PTE_ADDR_MASK OR PAGE_COW OR PAGE_WRITABLE) =
             0x5205 AND NOT (PTE_ADDR_MASK OR PAGE_COW OR PAGE_WRITABLE) \<and>
           (if refcount ?s 5 = 1 then d = 5
            else d \<notin> {4, 5} \<union> \<Union> (block_pages ` {}) \<and> pmm_inv (vm_pmm s') (insert (d, 0) {})))"
    using i(2) by (intro cow_handle_write_correct [OF i(1) _ _ e(1-3)]) auto
  then show ?thesis using i(3) e(4) by (auto split: sum.splits prod.splits)
qed

text \<open>
  Copy on write loses write protection.  An entry that is neither writable nor copy-on-write
  (the code of a user program, for example) is marked copy-on-write when the address space is
  cloned; the first write fault through it is then handled as if the page had been writable,
  and makes it writable for its owner instead of reporting the violation.
\<close>

lemma cow_loses_write_protection:
  assumes "frames s t i AND PAGE_COW = 0" "frames s t i AND PAGE_WRITABLE = 0"
    and "cow_copy_pte t i s = Inr (dest, s1)"
    and "cow_handle_write (Some (t, i)) virt s1 = Inr (handled, s2)"
  shows "handled \<and> frames s2 t i AND PAGE_WRITABLE \<noteq> 0"
proof -
  have "frames s1 t i = (frames s t i AND NOT PAGE_WRITABLE) OR PAGE_COW"
    using assms(1,3) by (auto simp: cow_copy_pte_def Let_def split: option.splits if_splits)
  moreover have "w AND PAGE_WRITABLE = 0 \<Longrightarrow> ((w AND NOT PAGE_WRITABLE) OR PAGE_COW) AND PAGE_COW \<noteq> 0" for w
    unfolding pte_bits(2) and_exp_eq_0_iff_not_bit bit_or_iff bit_exp_iff by (simp add: possible_bit_word)
  ultimately have cow: "frames s1 t i AND PAGE_COW \<noteq> 0" using assms(2) by simp
  have "handled \<and> (\<exists>w. frames s2 t i = make_writable w)"
    using assms(4) cow
    by (auto simp: cow_handle_write_def Let_def make_writable_def obind_Inr split: option.splits if_splits)
  then show ?thesis using make_writable_bits(2) by auto
qed

lemma boot_page: "\<exists>st. small_boot = Inr st \<and> pmm_inv st {} \<and> page_refcount (page_data st) 5 = 0 \<and>
  all_pages (zone_list st) \<subseteq> {1 ..< 2 ^ 35} \<and> (\<exists>z \<in> set (zone_list st). \<not> exhausted z 0)"
proof -
  obtain st where st: "small_boot = Inr st" "pmm_inv st {}" using boot_inv(1) by blast
  have "obind small_boot (\<lambda>st. Inr (map (\<lambda>z. (free_lists z ! 0, pa_start z, zone_len z)) (zone_list st),
      page_refcount (page_data st) 5)) = Inr ([(Some 257, 0x101000, 0x3000)], 0)"
    by (simp add: boot_eval)
  then have p: "map (\<lambda>z. (free_lists z ! 0, pa_start z, zone_len z)) (zone_list st) = [(Some 257, 0x101000, 0x3000)]"
    "page_refcount (page_data st) 5 = 0"
    unfolding st(1) by simp_all
  then obtain z where z: "zone_list st = [z]" "free_lists z ! 0 = Some 257" "pa_start z = 0x101000"
    "zone_len z = 0x3000" by auto
  have "all_pages (zone_list st) \<subseteq> {1 ..< 2 ^ 35}" using z by (auto simp: zone_pages_def)
  have "0 < MAX_ORDER" by (simp add: MAX_ORDER_def)
  then have "\<not> exhausted z 0" using z(2) unfolding exhausted_def by (metis le_refl option.distinct(1))
  with \<open>all_pages _ \<subseteq> _\<close> show ?thesis
    using st z(1) p(2) by (intro exI [of _ st]) auto
qed

lemma cow_loses_write_protection_example:
  "\<exists>st dest s1 s2. small_boot = Inr st \<and> cow_copy_pte 4 0 (cow_vm 0x5005 st) = Inr (dest, s1) \<and>
     cow_handle_write (Some (4, 0)) 0x400000 s1 = Inr (True, s2) \<and> frames s2 4 0 AND PAGE_WRITABLE \<noteq> 0"
proof -
  obtain st z where st: "small_boot = Inr st" "pmm_inv st {}" "page_refcount (page_data st) 5 = 0"
    "z \<in> set (zone_list st)" "\<not> exhausted z 0" "all_pages (zone_list st) \<subseteq> {1 ..< 2 ^ 35}"
    using boot_page by blast
  let ?s = "cow_vm 0x5005 st"
  have b: "frames ?s 4 0 AND PAGE_COW = 0" "frames ?s 4 0 AND PAGE_WRITABLE = 0" "vm_pmm ?s = st"
    by (simp_all add: cow_vm_def PAGE_COW_def PAGE_WRITABLE_def)
  define s1 where "s1 = set_refcount 5 2 (set_entry 4 0 0x5205 (set_refcount 5 1 ?s))"
  have c: "cow_copy_pte 4 0 ?s = Inr (0x5205, s1)"
    using st(3) by (simp add: cow_copy_pte_def s1_def cow_vm_def phys_to_page_def PTE_ADDR_MASK_def PAGE_COW_def
        PAGE_WRITABLE_def PAGE_SIZE_def refcount_def set_refcount_def set_pmm_def set_entry_def)
  let ?s2 = "set_refcount 5 1 s1"
  have i: "pmm_inv (vm_pmm ?s2) {}" "zone_list (vm_pmm ?s2) = zone_list st"
    using st(2) b(3) by (simp_all add: s1_def)
  have "0 < MAX_ORDER" by (simp add: MAX_ORDER_def)
  from pmm_alloc_order_spec [OF i(1) this, of 0] i(2) st(4,5) obtain d st' where
    d: "pmm_alloc_order (vm_pmm ?s2) 0 0 = Inr (Some d, st')" "pmm_inv st' {(d, 0)}"
    "all_pages (zone_list st') = all_pages (zone_list st)"
    by auto
  have "d \<in> block_pages (d, 0)" by (simp add: block_pages_def)
  then have "d \<in> {1 ..< 2 ^ 35}" using pmm_inv_inside [OF d(2), of "(d, 0)"] d(3) st(6) by auto
  note nz = frame_of_redirect(2) [OF this]
  have "refcount s1 5 = 2" "frames s1 4 0 = 0x5205" by (simp_all add: s1_def)
  then have "\<exists>s2. cow_handle_write (Some (4, 0)) 0x400000 s1 = Inr (True, s2)"
    using d(1) nz by (simp add: cow_handle_write_def PAGE_COW_def phys_to_page_def PTE_ADDR_MASK_def PAGE_SIZE_def)
  then obtain s2 where w: "cow_handle_write (Some (4, 0)) 0x400000 s1 = Inr (True, s2)" by blast
  from cow_loses_write_protection [OF b(1,2) c w] show ?thesis using st(1) c w by blast
qed

section \<open>Translation caches\<close>

definition targets :: "mmu_ref \<Rightarrow> vm \<Rightarrow> nat list" where
  "targets m s = filter (\<lambda>i. i \<noteq> self_id s \<and> i \<in> members (cpus (mmus s m))) [0..<nr_cpus s]"

lemma send_ipis_members:
  "\<forall>i \<in> set is. i < MAX_CORES \<Longrightarrow>
    send_ipis cs self is n =
      (let t = filter (\<lambda>i. i \<noteq> self \<and> i \<in> members cs) is in Inr (t, n + of_nat (length t)))"
proof (induction "is" arbitrary: n)
  case (Cons i "is")
  then show ?case using Cons.IH by (simp add: query_members Let_def add.assoc)
qed simp

lemma flush_one_page:
  assumes "virt < virt + PAGE_SIZE"
  shows "flush_range virt (virt + PAGE_SIZE) c = Some (c - {ALIGNDOWN virt PAGE_SIZE})"
  using assms by (simp add: flush_range.simps [of virt] flush_range.simps [of "virt + PAGE_SIZE"])

lemma flush_no_page: "\<not> virt < virt + PAGE_SIZE \<Longrightarrow> flush_range virt (virt + PAGE_SIZE) c = Some c"
  by (simp add: flush_range.simps)

abbreviation answers :: "vm \<Rightarrow> bool" where
  "answers s \<equiv> handler (vectors s IRQ_IPI_TLB_SHOOTDOWN) = Some Ipi_tlb_shootdown"

lemma run_handlers_one_page:
  assumes "virt < virt + PAGE_SIZE"
  shows "answers s \<Longrightarrow> distinct is \<Longrightarrow> tlb_remaining_cpus s = of_nat (length is) \<Longrightarrow>
    run_handlers virt (virt + PAGE_SIZE) is s =
      Some (s\<lparr>tlb := (\<lambda>c. if c \<in> set is then tlb s c - {ALIGNDOWN virt PAGE_SIZE} else tlb s c),
              tlb_remaining_cpus := 0\<rparr>)"
proof (induction "is" arbitrary: s)
  case Nil
  then show ?case by simp
next
  case (Cons i "is")
  let ?s = "s\<lparr>tlb := (tlb s)(i := tlb s i - {ALIGNDOWN virt PAGE_SIZE}), tlb_remaining_cpus := of_nat (length is)\<rparr>"
  have "run_handlers virt (virt + PAGE_SIZE) is ?s =
      Some (?s\<lparr>tlb := (\<lambda>c. if c \<in> set is then tlb ?s c - {ALIGNDOWN virt PAGE_SIZE} else tlb ?s c),
              tlb_remaining_cpus := 0\<rparr>)"
    using Cons.prems(1,2) by (intro Cons.IH) auto
  moreover have "(\<lambda>c. if c \<in> set is then tlb ?s c - {ALIGNDOWN virt PAGE_SIZE} else tlb ?s c) =
      (\<lambda>c. if c \<in> set (i # is) then tlb s c - {ALIGNDOWN virt PAGE_SIZE} else tlb s c)"
    using Cons.prems(2) by (auto simp: fun_eq_iff)
  ultimately show ?case
    using Cons.prems(1,3) by (simp add: handle_shootdown_def ipi_tlb_shootdown_def flush_one_page [OF assms])
qed

lemma run_handlers_unanswered:
  "handler (vectors s IRQ_IPI_TLB_SHOOTDOWN) = None \<Longrightarrow>
    run_handlers start end_addr is s = (if tlb_remaining_cpus s = 0 then Some s else None)"
  by (induction "is") (simp_all add: handle_shootdown_def)

text \<open>
  C15. A TLB shootdown of one page, as vmm_map_page requests it.  If ipi_tlb_shootdown is installed
  for its interrupt, the shootdown ends and reaches every processor in the set of the address
  space: the counter of outstanding processors returns to zero, and afterwards no processor of
  that set but the caller holds a translation of the page, while every other cached translation
  is kept.  If nothing is installed, which is how the kernel leaves its table of handlers, and
  another processor is in the set, the caller waits for ever.
\<close>

theorem tlb_shootdown_correct:
  assumes "nr_cpus s \<le> MAX_CORES" and "tlb_remaining_cpus s = 0" and "virt < virt + PAGE_SIZE"
  shows "(handler (vectors s IRQ_IPI_TLB_SHOOTDOWN) = Some Ipi_tlb_shootdown \<longrightarrow>
      (\<exists>s'. tlb_shootdown m virt (virt + PAGE_SIZE) s = Some (Inr s') \<and> tlb_remaining_cpus s' = 0 \<and>
        (\<forall>c. tlb s' c = (if c < nr_cpus s \<and> c \<noteq> self_id s \<and> c \<in> members (cpus (mmus s m))
                         then tlb s c - {ALIGNDOWN virt PAGE_SIZE} else tlb s c)))) \<and>
    (handler (vectors s IRQ_IPI_TLB_SHOOTDOWN) = None \<and>
     (\<exists>c < nr_cpus s. c \<noteq> self_id s \<and> c \<in> members (cpus (mmus s m))) \<longrightarrow>
      tlb_shootdown m virt (virt + PAGE_SIZE) s = None)"
proof -
  let ?n = "of_nat (length (targets m s)) :: u32"
  have sent: "send_ipis (cpus (mmus s m)) (self_id s) [0..<nr_cpus s] 0 = Inr (targets m s, ?n)"
    using assms(1) by (subst send_ipis_members) (auto simp: targets_def Let_def)
  have "distinct (targets m s)" by (simp add: targets_def)
  moreover have "?n \<noteq> 0" if "\<exists>c < nr_cpus s. c \<noteq> self_id s \<and> c \<in> members (cpus (mmus s m))"
  proof -
    have "length (targets m s) \<noteq> 0" using that by (auto simp: targets_def filter_empty_conv)
    moreover have "length (targets m s) < 2 ^ 32"
      using assms(1) length_filter_le [of "\<lambda>i. i \<noteq> self_id s \<and> i \<in> members (cpus (mmus s m))" "[0..<nr_cpus s]"]
      by (simp add: targets_def MAX_CORES_def)
    ultimately have "unat ?n \<noteq> 0" by (simp add: unat_of_nat)
    then show ?thesis by auto
  qed
  ultimately show ?thesis
    using assms(2) sent run_handlers_one_page [OF assms(3), of "s\<lparr>tlb_remaining_cpus := ?n\<rparr>" "targets m s"]
      run_handlers_unanswered [of "s\<lparr>tlb_remaining_cpus := ?n\<rparr>" virt "virt + PAGE_SIZE" "targets m s"]
    by (auto simp: tlb_shootdown_def targets_def)
qed

definition two_cpus :: vm where
  "two_cpus = ex_vm\<lparr>nr_cpus := 2, tlb := (\<lambda>c. {0x400000, 0x800000}),
     mmus := (\<lambda>m. \<lparr>p4 = Some 1, users = 1, cpus = 4, areas = []\<rparr>)\<rparr>"

definition answering :: vm where
  "answering = two_cpus\<lparr>vectors := (\<lambda>v. \<lparr>isr_type = ISR_IPI, handler = Some Ipi_tlb_shootdown\<rparr>)\<rparr>"

theorem tlb_shootdown_correct_witness:
  "(\<exists>s'. tlb_shootdown (User_mmu 8) 0x400000 (0x400000 + PAGE_SIZE) answering = Some (Inr s') \<and>
     tlb s' 1 = {0x800000} \<and> tlb s' 0 = {0x400000, 0x800000}) \<and>
   tlb_shootdown (User_mmu 8) 0x400000 (0x400000 + PAGE_SIZE) two_cpus = None"
proof -
  have c: "nr_cpus answering \<le> MAX_CORES" "tlb_remaining_cpus answering = 0" "(0x400000 :: u64) < 0x400000 + PAGE_SIZE"
    and d: "nr_cpus two_cpus \<le> MAX_CORES" "tlb_remaining_cpus two_cpus = 0"
    by (simp_all add: answering_def two_cpus_def ex_vm_def MAX_CORES_def PAGE_SIZE_def)
  have m: "1 \<in> members (cpus (mmus two_cpus (User_mmu 8)))" "mmus answering = mmus two_cpus"
    by (simp_all add: members_def answering_def two_cpus_def ex_vm_def MAX_CORES_def bit_numeral_rec numeral_eq_Suc)
  have "ALIGNDOWN 0x400000 PAGE_SIZE = 0x400000" by (simp add: ALIGNDOWN_def PAGE_SIZE_def)
  moreover have "nr_cpus answering = 2" "self_id answering = 0" "tlb answering = (\<lambda>c. {0x400000, 0x800000})"
    "handler (vectors answering IRQ_IPI_TLB_SHOOTDOWN) = Some Ipi_tlb_shootdown"
    "nr_cpus two_cpus = 2" "self_id two_cpus = 0" "handler (vectors two_cpus IRQ_IPI_TLB_SHOOTDOWN) = None"
    by (simp_all add: answering_def two_cpus_def ex_vm_def)
  ultimately show ?thesis
    using tlb_shootdown_correct [OF c, of "User_mmu 8"] tlb_shootdown_correct [OF d c(3), of "User_mmu 8"] m
    by (auto intro!: exI [of _ "1 :: nat"])
qed

text \<open>
  mmu_switch records the wrong processors.  After a switch to another user address space, the
  running processor is not in the set of the space it runs but in the set of the space it left;
  so a later shootdown for the running address space by another processor does not reach it,
  and whatever translations it caches meanwhile stay.
\<close>

lemma mmu_switch_hides_processor:
  assumes "mmu_switch (User_mmu a) (User_mmu b) s = Inr s1" and "a \<noteq> b" and "nr_cpus s \<le> MAX_CORES"
    and "tlb_remaining_cpus s = 0" and "virt < virt + PAGE_SIZE"
    and "handler (vectors s IRQ_IPI_TLB_SHOOTDOWN) = Some Ipi_tlb_shootdown"
  shows "self_id s \<notin> members (cpus (mmus s1 (User_mmu a))) \<and> self_id s \<in> members (cpus (mmus s1 (User_mmu b))) \<and>
    (\<exists>s2. tlb_shootdown (User_mmu a) virt (virt + PAGE_SIZE) (s1\<lparr>self_id := other, tlb := cached\<rparr>) = Some (Inr s2) \<and>
       tlb s2 (self_id s) = cached (self_id s))"
proof -
  obtain ca cb where c: "cpuset_set_id (cpus (mmus s (User_mmu a))) (self_id s) False = Inr ca"
    "cpuset_set_id (cpus (mmus s (User_mmu b))) (self_id s) True = Inr cb"
    and m: "cpus (mmus s1 (User_mmu a)) = ca" "cpus (mmus s1 (User_mmu b)) = cb"
    and k: "nr_cpus s1 = nr_cpus s" "tlb_remaining_cpus s1 = tlb_remaining_cpus s" "vectors s1 = vectors s"
    using assms(1,2)
    by (auto simp: mmu_switch_def mmu_update_cpuset_def obind_Inr set_mmu_def write_cr3_def split: if_splits)
  have "self_id s < MAX_CORES" using c(1) by (auto simp: cpuset_set_id_def split: if_splits)
  then have ms: "self_id s \<notin> members ca" "self_id s \<in> members cb"
    using set_id_bits [OF c(1)] set_id_bits [OF c(2)] by (auto simp: members_def)
  let ?s = "s1\<lparr>self_id := other, tlb := cached\<rparr>" and ?t = "targets (User_mmu a) (s1\<lparr>self_id := other, tlb := cached\<rparr>)"
  have t: "send_ipis ca other [0..<nr_cpus ?s] 0 = Inr (?t, of_nat (length ?t))"
    using assms(3) k(1) m(1) by (subst send_ipis_members) (auto simp: targets_def Let_def)
  have "distinct ?t" by (simp add: targets_def)
  then have "\<exists>s2. tlb_shootdown (User_mmu a) virt (virt + PAGE_SIZE) ?s = Some (Inr s2) \<and>
      tlb s2 = (\<lambda>c. if c \<in> set ?t then cached c - {ALIGNDOWN virt PAGE_SIZE} else cached c)"
    using t m(1) k assms(4,6)
      run_handlers_one_page [OF assms(5), of "?s\<lparr>tlb_remaining_cpus := of_nat (length ?t)\<rparr>" ?t]
    by (auto simp: tlb_shootdown_def cong: if_cong)
  then show ?thesis using ms m by (auto simp: targets_def)
qed

definition switching :: vm where
  "switching = answering\<lparr>mmus := (\<lambda>m. \<lparr>p4 = (if m = User_mmu 8 then Some 1 else Some 2), users = 1, cpus = 0, areas = []\<rparr>)\<rparr>"

lemma mmu_switch_hides_processor_example:
  "\<exists>s1 s2. mmu_switch (User_mmu 8) (User_mmu 16) switching = Inr s1 \<and>
     tlb_shootdown (User_mmu 8) 0x400000 (0x400000 + PAGE_SIZE) (s1\<lparr>self_id := 1, tlb := (\<lambda>c. {0x400000})\<rparr>) =
       Some (Inr s2) \<and> tlb s2 0 = {0x400000}"
proof -
  have c: "nr_cpus switching \<le> MAX_CORES" "tlb_remaining_cpus switching = 0" "(0x400000 :: u64) < 0x400000 + PAGE_SIZE"
    "handler (vectors switching IRQ_IPI_TLB_SHOOTDOWN) = Some Ipi_tlb_shootdown" "self_id switching = 0"
    by (simp_all add: switching_def answering_def two_cpus_def ex_vm_def MAX_CORES_def PAGE_SIZE_def)
  have "\<exists>s1. mmu_switch (User_mmu 8) (User_mmu 16) switching = Inr s1"
    by (simp add: mmu_switch_def mmu_update_cpuset_def cpuset_set_id_def set_mmu_def switching_def answering_def
        two_cpus_def ex_vm_def MAX_CORES_def)
  then obtain s1 where s1: "mmu_switch (User_mmu 8) (User_mmu 16) switching = Inr s1" by blast
  from mmu_switch_hides_processor [OF s1 _ c(1-4), of "\<lambda>c. {0x400000}" 1] s1 c(5) show ?thesis by auto
qed

section \<open>Areas\<close>

definition area_end :: "vm_area \<Rightarrow> u64" where "area_end a = area_base a + area_len a"

abbreviation areas_sorted :: "vm_area list \<Rightarrow> bool" where
  "areas_sorted \<equiv> sorted_wrt (\<lambda>a b. area_base a < area_base b)"

definition areas_below :: "vm_area \<Rightarrow> vm_area list \<Rightarrow> vm_area list" where
  "areas_below a = filter (\<lambda>b. area_base b < area_base a)"

definition areas_above :: "vm_area \<Rightarrow> vm_area list \<Rightarrow> vm_area list" where
  "areas_above a = filter (\<lambda>b. area_base a < area_base b)"

definition area_accepted :: "vm_area \<Rightarrow> vm_area list \<Rightarrow> bool" where
  "area_accepted a as \<longleftrightarrow>
     area_base a \<notin> area_base ` set as \<and>
     (if areas_above a as \<noteq> [] then area_end a < area_base (hd (areas_above a as))
      else as = [] \<or> area_end (last as) < area_base a)"

lemma area_insert_ok:
  assumes "areas_sorted (passed @ rest)" "passed @ rest \<noteq> []" "\<forall>b \<in> set passed. area_base b < area_base a"
  shows "area_insert a passed rest =
    (if area_accepted a (passed @ rest)
     then Inr (areas_below a (passed @ rest) @ a # areas_above a (passed @ rest)) else Inl Panic)"
  using assms
proof (induction a passed rest rule: area_insert.induct)
  case (1 a passed)
  then have "areas_below a passed = passed" "areas_above a passed = []"
    by (auto simp: areas_below_def areas_above_def filter_id_conv filter_empty_conv not_less order.strict_implies_order)
  then show ?case using 1 by (auto simp: area_accepted_def area_end_def)
next
  case (2 a passed cur rest)
  consider "area_base cur = area_base a" | "area_base cur > area_base a" | "area_base cur < area_base a"
    by (metis linorder_cases)
  then show ?case
  proof cases
    case 1
    then show ?thesis by (auto simp: area_accepted_def)
  next
    case c: 2
    have r: "\<forall>b \<in> set rest. area_base a < area_base b"
      using 2(2) c by (fastforce simp: sorted_wrt_append)
    then have "areas_below a (passed @ cur # rest) = passed" "areas_above a (passed @ cur # rest) = cur # rest"
      using 2(4) c
      by (auto simp: areas_below_def areas_above_def filter_id_conv filter_empty_conv not_less order.strict_implies_order)
    moreover have "area_base a \<notin> area_base ` set (passed @ cur # rest)" using r 2(4) c by fastforce
    ultimately show ?thesis using c by (auto simp: area_accepted_def area_end_def)
  next
    case 3
    then show ?thesis using 2 by auto
  qed
qed

text \<open>
  area_add inserts into the sorted list of areas of a user address space: it accepts an area
  exactly when its base is new and either it ends strictly before the next area, or it has no
  next area and the last one ends strictly before it; then the list is sorted again and has
  exactly this one area more.  So the areas before it are checked for overlap only when none
  follows, and an area that is adjacent to its neighbour is refused.
\<close>

lemma area_add_correct:
  assumes "m \<noteq> Kernel_mmu" and "areas_sorted (areas (mmus s m))"
  shows "(area_accepted a (areas (mmus s m)) \<longrightarrow>
      (\<exists>s'. area_add m a s = Inr s' \<and> areas_sorted (areas (mmus s' m)) \<and>
         set (areas (mmus s' m)) = insert a (set (areas (mmus s m))))) \<and>
    (\<not> area_accepted a (areas (mmus s m)) \<longrightarrow> area_add m a s = Inl Panic)"
proof -
  let ?as = "areas (mmus s m)" and ?new = "areas_below a (areas (mmus s m)) @ a # areas_above a (areas (mmus s m))"
  have run: "area_add m a s = (if area_accepted a ?as then Inr (set_mmu m ((mmus s m)\<lparr>areas := ?new\<rparr>) s) else Inl Panic)"
    using assms area_insert_ok [of "[]" ?as a]
    by (cases "?as = []") (auto simp: area_add_def area_accepted_def areas_below_def areas_above_def)
  have "areas_sorted (areas_below a ?as)" "areas_sorted (areas_above a ?as)"
    using assms(2) by (simp_all add: areas_below_def areas_above_def sorted_wrt_filter)
  then have "areas_sorted ?new"
    by (auto simp: sorted_wrt_append areas_below_def areas_above_def)
  moreover have "set ?new = insert a (set ?as)" if "area_accepted a ?as"
  proof -
    have "area_base b \<noteq> area_base a" if "b \<in> set ?as" for b using \<open>area_accepted a ?as\<close> that unfolding area_accepted_def by (metis image_eqI)
    then show ?thesis by (auto simp: areas_below_def areas_above_def) (metis linorder_neqE)
  qed
  ultimately show ?thesis using run by (auto simp: set_mmu_def)
qed

definition area :: "u64 \<Rightarrow> u64 \<Rightarrow> vm_area" where
  "area b n = \<lparr>area_base = b, area_len = n, area_type = 0, area_flags = 0\<rparr>"

definition area_vm :: vm where
  "area_vm = set_mmu (User_mmu 8) \<lparr>p4 = None, users = 1, cpus = 0,
     areas = [area 0x1000 0x3000, area 0x9000 0x1000]\<rparr> ex_vm"

text \<open>An area inside an existing one is accepted, since a later area exists.\<close>

lemma area_add_correct_example:
  "\<exists>s'. area_add (User_mmu 8) (area 0x2000 0x1000) area_vm = Inr s' \<and>
     set (areas (mmus s' (User_mmu 8))) = {area 0x1000 0x3000, area 0x2000 0x1000, area 0x9000 0x1000}"
proof -
  have l: "areas (mmus area_vm (User_mmu 8)) = [area 0x1000 0x3000, area 0x9000 0x1000]"
    by (simp add: area_vm_def set_mmu_def)
  have "areas_sorted (areas (mmus area_vm (User_mmu 8)))" unfolding l by (simp add: area_def)
  from area_add_correct [OF _ this, of "area 0x2000 0x1000"] show ?thesis
    unfolding l by (auto simp: area_accepted_def area_end_def areas_above_def area_def insert_commute)
qed

section \<open>The start of the page allocator\<close>

text \<open>
  A machine with one region of two pages, and page tables down to the leaf for the start of
  \<^verbatim>\<open>page_data\<close>.
\<close>

definition reuse_vm :: vm where
  "reuse_vm = ex_vm\<lparr>frames := (\<lambda>f i. if f = 1 \<and> i = 511 then 0x2003 else if f = 2 \<and> i = 510 then 0x3003
       else if f = 3 \<and> i = 8 then 0x4003 else 0),
     boot_mmap := \<lparr>highest_mapped = 0x1000000,
       available = [\<lparr>rg_base = 0x100800, rg_len = 0x2000, rg_flags = MMAP_NONE\<rparr>], reserved = []\<rparr>\<rparr>"

definition after_init :: "vm outcome option \<Rightarrow> (nat option \<times> (u64 \<times> u64) list \<times> nat option) option" where
  "after_init r = (case r of
     Some (Inr s) \<Rightarrow> Some (result_page (pmm_alloc_order (vm_pmm s) 0 0),
       map (\<lambda>r. (rg_base r, rg_len r)) (reserved (boot_mmap s)),
       frame_of (entry s 1 (KERNEL_PAGE_DATA + 257 * sizeof_page)))
   | _ \<Rightarrow> None)"

text \<open>
  pmm_init gives the page allocator memory that is already in use.  It builds the zones from a
  copy of the memory map made before reserve_page_data takes pages for the array of struct page
  from that map.  On a machine with one region, the first page handed out by the allocator
  after pmm_init is frame 257, which the boot memory map lists as reserved and through which
  the array of struct page itself is mapped.
\<close>

lemma pmm_init_hands_out_page_data:
  "\<exists>s st r. pmm_init reuse_vm = Some (Inr s) \<and> pmm_alloc_order (vm_pmm s) 0 0 = Inr (Some 257, st) \<and>
     r \<in> set (reserved (boot_mmap s)) \<and> rg_base r = 257 * PAGE_SIZE \<and> rg_len r = PAGE_SIZE \<and>
     frame_of (entry s 1 (KERNEL_PAGE_DATA + 257 * sizeof_page)) = Some 257"
proof -
  have a: "after_init (pmm_init reuse_vm) = Some (Some 257, [(257 * PAGE_SIZE, PAGE_SIZE)], Some 257)"
    by code_simp
  then obtain s where s: "pmm_init reuse_vm = Some (Inr s)"
    by (auto simp: after_init_def split: option.splits sum.splits)
  from a have "result_page (pmm_alloc_order (vm_pmm s) 0 0) = Some 257"
    "map (\<lambda>r. (rg_base r, rg_len r)) (reserved (boot_mmap s)) = [(257 * PAGE_SIZE, PAGE_SIZE)]"
    "frame_of (entry s 1 (KERNEL_PAGE_DATA + 257 * sizeof_page)) = Some 257"
    unfolding s after_init_def by simp_all
  then show ?thesis using s by (auto simp: result_page_Some)
qed

end
