(* ===== verification/Sched.thy ===== *)
theory Sched
  imports Runq Mmu Sync
begin

text \<open>
  Tasks and the scheduler: \<^verbatim>\<open>kernel/proc/task.c\<close>, \<^verbatim>\<open>kernel/proc/sched.c\<close>, the start of a run queue
  in \<^verbatim>\<open>kernel/proc/runq.c\<close>, the context switch of \<^verbatim>\<open>kernel/proc/switch_to.asm\<close> and the system calls
  of \<^verbatim>\<open>kernel/syscall/defs.c\<close>.  The state joins the run queues and the memory of the tasks with
  the virtual memory; the remaining fields of a task, like those of the queue, are functions of
  the address of its embedded node.  Kernel stacks are words at virtual addresses.  The data a
  processor keeps for itself (the current task, the preemption count, its registers) are
  functions of its number; the processor that runs the code is \<open>self_id\<close>.
\<close>

section \<open>State\<close>

record callee_regs =
  rsp :: u64
  rbp :: u64
  rbx :: u64
  r12 :: u64
  r13 :: u64
  r14 :: u64
  r15 :: u64

record kernel =
  kvm :: vm
  tmem :: task_mem
  runqs :: "runq list"
  t_flags :: "u64 \<Rightarrow> u64"
  t_tid :: "u64 \<Rightarrow> u32"
  t_tgid :: "u64 \<Rightarrow> u32"
  t_mmu :: "u64 \<Rightarrow> mmu_ref"
  t_rsp_top :: "u64 \<Rightarrow> u64"
  t_rsp_original :: "u64 \<Rightarrow> u64"
  t_affinity :: "u64 \<Rightarrow> cpuset"
  t_num_slices :: "u64 \<Rightarrow> u32"
  next_tid :: u32
  current_task :: "nat \<Rightarrow> u64"
  preempt_counts :: "nat \<Rightarrow> u32"
  reschedule :: "nat \<Rightarrow> bool"
  tss_rsp0 :: "nat \<Rightarrow> u64"
  cpu_regs :: "nat \<Rightarrow> callee_regs"
  cpu_rip :: "nat \<Rightarrow> u64"
  stack_mem :: "u64 \<Rightarrow> u64"
  schedulers_waiting :: u32

definition this_cpu :: "kernel \<Rightarrow> nat" where "this_cpu s = self_id (kvm s)"
definition current :: "kernel \<Rightarrow> u64" where "current s = current_task s (this_cpu s)"

definition TASK_KTHREAD :: u64 where "TASK_KTHREAD = 0x1"
definition TASK_RUNNING :: u64 where "TASK_RUNNING = 0x2"
definition TASK_PREEMPTED :: u64 where "TASK_PREEMPTED = 0x4"
definition FORK_KTHREAD :: u64 where "FORK_KTHREAD = 0x1"
definition FORK_UTHREAD :: u64 where "FORK_UTHREAD = 0x2"
definition TID_IDLE :: u32 where "TID_IDLE = 0"
definition MAX_SLICES :: u32 where "MAX_SLICES = 5"

text \<open>The size of \<^verbatim>\<open>struct task\<close>, and where in it \<^verbatim>\<open>sched.node\<close> lies.\<close>

definition sizeof_task :: u64 where "sizeof_task = 112"
definition sched_offset :: u64 where "sched_offset = 72"

definition set_state :: "u64 \<Rightarrow> task_state \<Rightarrow> kernel \<Rightarrow> kernel" where
  "set_state t st s = s\<lparr>tmem := (tmem s)\<lparr>task_st := (task_st (tmem s))(t := st)\<rparr>\<rparr>"

definition set_flags :: "u64 \<Rightarrow> u64 \<Rightarrow> kernel \<Rightarrow> kernel" where
  "set_flags t f s = s\<lparr>t_flags := (t_flags s)(t := f)\<rparr>"

definition preempt_add :: "(u32 \<Rightarrow> u32) \<Rightarrow> kernel \<Rightarrow> kernel" where
  "preempt_add f s = s\<lparr>preempt_counts := (preempt_counts s)(this_cpu s := f (preempt_counts s (this_cpu s)))\<rparr>"

section \<open>Context switches\<close>

fun push :: "u64 \<Rightarrow> u64 \<times> (u64 \<Rightarrow> u64) \<Rightarrow> u64 \<times> (u64 \<Rightarrow> u64)" where
  "push v (sp, m) = (sp - 8, m(sp - 8 := v))"

definition push_regs :: "callee_regs \<Rightarrow> u64 \<times> (u64 \<Rightarrow> u64) \<Rightarrow> u64 \<times> (u64 \<Rightarrow> u64)" where
  "push_regs r st = fold push [rbx r, rbp r, r12 r, r13 r, r14 r, r15 r] st"

text \<open>
  \<^verbatim>\<open>switch_to\<close>, called from \<^verbatim>\<open>schedule\<close> with the return address \<open>ret\<close> on the stack.  The words that
  \<^verbatim>\<open>mmu_switch\<close> leaves below the stack pointer are dead and not part of the state.
\<close>

definition switch_to :: "u64 \<Rightarrow> u64 \<Rightarrow> kernel \<Rightarrow> kernel outcome" where
  "switch_to ret nxt s =
     (let cpu = this_cpu s; cur = current s; r = cpu_regs s cpu;
          (sp, m) = push_regs r (push ret (rsp r, stack_mem s));
          s1 = s\<lparr>stack_mem := m, t_rsp_top := (t_rsp_top s)(cur := sp)\<rparr>;
          sp1 = t_rsp_top s1 nxt;
          s2 = s1\<lparr>current_task := (current_task s1)(cpu := nxt),
                  tss_rsp0 := (tss_rsp0 s1)(cpu := t_rsp_original s1 nxt)\<rparr>
      in obind (mmu_switch (t_mmu s2 nxt) (t_mmu s2 cur) (kvm s2)) (\<lambda>v.
         let s3 = preempt_add preempt_dec (s2\<lparr>kvm := v\<rparr>)
         in Inr (s3\<lparr>cpu_regs := (cpu_regs s3)(cpu :=
              \<lparr>rsp = sp1 + 56, rbp = m (sp1 + 32), rbx = m (sp1 + 40), r12 = m (sp1 + 24),
               r13 = m (sp1 + 16), r14 = m (sp1 + 8), r15 = m sp1\<rparr>),
              cpu_rip := (cpu_rip s3)(cpu := m (sp1 + 48))\<rparr>)))"

section \<open>The scheduler\<close>

definition sched_add :: "u64 \<Rightarrow> kernel \<Rightarrow> kernel outcome option" where
  "sched_add t s =
     (if this_cpu s < length (runqs s) then do {
        (mem, rq) \<leftarrow> runq_add (tmem s) (runqs s ! this_cpu s) t;
        Some (Inr (s\<lparr>tmem := mem, runqs := (runqs s)[this_cpu s := rq]\<rparr>)) }
      else Some (Inl Null_access))"

definition sched_next :: "kernel \<Rightarrow> (u64 \<times> kernel) outcome option" where
  "sched_next s =
     (if this_cpu s < length (runqs s) then do {
        (t, mem, rq) \<leftarrow> runq_next (tmem s) (runqs s ! this_cpu s);
        Some (if t = 0 then Inl Null_access else Inr (t, s\<lparr>tmem := mem, runqs := (runqs s)[this_cpu s := rq]\<rparr>)) }
      else Some (Inl Null_access))"

definition sched_remove :: "u64 \<Rightarrow> kernel \<Rightarrow> kernel outcome option" where
  "sched_remove t s =
     (if this_cpu s < length (runqs s) then do {
        (mem, rq) \<leftarrow> runq_remove (tmem s) (runqs s ! this_cpu s) t;
        Some (Inr (s\<lparr>tmem := mem, runqs := (runqs s)[this_cpu s := rq]\<rparr>)) }
      else Some (Inl Null_access))"

definition sched_balance :: "kernel \<Rightarrow> kernel outcome option" where
  "sched_balance s = do {
     (mem, rqs) \<leftarrow> runq_balance_pull (tmem s) (runqs s) (this_cpu s);
     Some (Inr (s\<lparr>tmem := mem, runqs := rqs\<rparr>)) }"

text \<open>The start of \<^verbatim>\<open>schedule\<close>, up to the call of \<^verbatim>\<open>runq_add\<close>.\<close>

definition charge :: "kernel \<Rightarrow> kernel" where
  "charge s =
     (let s1 = preempt_add preempt_inc s;
          s2 = s1\<lparr>reschedule := (reschedule s1)(this_cpu s1 := False)\<rparr>; cur = current s2;
          vr = vruntime (tmem s2)
      in s2\<lparr>tmem := (tmem s2)\<lparr>vruntime := vr(cur := vr cur + 1)\<rparr>\<rparr>)"

text \<open>The choice of the next task, with a second try after balancing.\<close>

definition choose_next :: "kernel \<Rightarrow> (u64 \<times> kernel) outcome option" where
  "choose_next s = rbind (sched_next s) (\<lambda>(nxt, s1).
     if t_tid s1 nxt = TID_IDLE then rbind (sched_balance s1) sched_next else Some (Inr (nxt, s1)))"

definition schedule :: "u64 \<Rightarrow> kernel \<Rightarrow> kernel outcome option" where
  "schedule ret s =
     (if current s = 0 then Some (Inl Null_access)
      else let s1 = charge s in
        rbind (if t_tid s1 (current s1) \<noteq> TID_IDLE then sched_add (current s1) s1 else Some (Inr s1)) (\<lambda>s2.
        rbind (choose_next s2) (\<lambda>(nxt, s3).
        if task_st (tmem s3) nxt \<noteq> TASK_S_RUNNABLE then Some (Inl Panic)
        else
          let s4 = set_flags (current s3) (t_flags s3 (current s3) AND NOT TASK_RUNNING) s3;
              s5 = set_flags nxt (t_flags s4 nxt OR TASK_RUNNING) s4;
              s6 = set_flags nxt (t_flags s5 nxt AND NOT TASK_PREEMPTED) s5
          in Some (switch_to ret nxt s6))))"

definition sched_yield :: "u64 \<Rightarrow> kernel \<Rightarrow> kernel outcome option" where
  "sched_yield ret s = schedule ret s"

definition sched_yield_preempt :: "u64 \<Rightarrow> kernel \<Rightarrow> kernel outcome option" where
  "sched_yield_preempt ret s =
     (if current s = 0 then Some (Inl Null_access)
      else let s1 = preempt_add preempt_inc s;
               s2 = set_flags (current s1) (t_flags s1 (current s1) OR TASK_PREEMPTED) s1
           in schedule ret (preempt_add preempt_dec s2))"

section \<open>Tasks\<close>

text \<open>The bytes of a new \<^verbatim>\<open>struct task\<close> set to zero.\<close>

definition clear_task :: "u64 \<Rightarrow> kernel \<Rightarrow> kernel" where
  "clear_task t s = s\<lparr>
     tmem := \<lparr>rb_nodes = (rb_nodes (tmem s))(t := \<lparr>parent_color = 0, left_ptr = 0, right_ptr = 0\<rparr>),
              vruntime = (vruntime (tmem s))(t := 0), task_st = (task_st (tmem s))(t := TASK_S_NOT_STARTED)\<rparr>,
     t_flags := (t_flags s)(t := 0), t_tid := (t_tid s)(t := 0), t_tgid := (t_tgid s)(t := 0),
     t_rsp_top := (t_rsp_top s)(t := 0), t_rsp_original := (t_rsp_original s)(t := 0),
     t_affinity := (t_affinity s)(t := 0), t_num_slices := (t_num_slices s)(t := 0)\<rparr>"

record labels =
  ret_from_kfork :: u64
  ret_from_ufork :: u64

definition default_regs :: callee_regs where
  "default_regs = \<lparr>rsp = 0, rbp = 0, rbx = 0, r12 = 0, r13 = 0, r14 = 0, r15 = 0\<rparr>"

definition TASK_KSTACK_ORDER :: nat where "TASK_KSTACK_ORDER = 1"
definition TASK_KSTACK_PAGES :: u64 where "TASK_KSTACK_PAGES = push_bit TASK_KSTACK_ORDER 1"
definition TASK_KSTACK_SIZE :: u64 where "TASK_KSTACK_SIZE = TASK_KSTACK_PAGES * PAGE_SIZE"

text \<open>The allocation of the task and of its stack, and the fields that do not depend on the kind of fork.\<close>

definition fork_alloc :: "u64 \<Rightarrow> kernel \<Rightarrow> (u64 \<times> u64 \<times> kernel) outcome option" where
  "fork_alloc parent s =
     rbind (kmalloc (heap (kvm s)) sizeof_task) (\<lambda>(p, h).
       if parent = 0 then Some (Inl Null_access) else
       let t = p + sched_offset;
           s1 = clear_task t (s\<lparr>kvm := (kvm s)\<lparr>heap := h\<rparr>\<rparr>);
           tid = next_tid s1 + 1;
           s2 = s1\<lparr>t_flags := (t_flags s1)(t := t_flags s1 parent), next_tid := tid,
                   t_tid := (t_tid s1)(t := tid), t_tgid := (t_tgid s1)(t := tid)\<rparr>
       in Some (obind (pmm_alloc_order (vm_pmm (kvm s2)) TASK_KSTACK_ORDER 0) (\<lambda>(pg, st).
            let kstack = TASK_KSTACK_SIZE + page_to_virt pg
            in Inr (t, kstack, s2\<lparr>kvm := set_pmm st (kvm s2), t_rsp_original := (t_rsp_original s2)(t := kstack)\<rparr>))))"

text \<open>The address space of a child that is not a kernel thread.\<close>

definition fork_mmu :: "u64 \<Rightarrow> u64 \<Rightarrow> u64 \<Rightarrow> kernel \<Rightarrow> kernel outcome option" where
  "fork_mmu clone_flags parent t s =
     (if clone_flags AND FORK_UTHREAD \<noteq> 0 then
        Some (Inr (s\<lparr>kvm := mmu_inc_users (t_mmu s parent) (kvm s), t_mmu := (t_mmu s)(t := t_mmu s parent)\<rparr>))
      else rbind (mmu_alloc (kvm s)) (\<lambda>(m, v).
        Some (obind (mmu_clone_cow m (t_mmu s parent) v) (\<lambda>v'. Inr (s\<lparr>kvm := v', t_mmu := (t_mmu s)(t := m)\<rparr>)))))"

definition kthread_frame :: "labels \<Rightarrow> u64 \<Rightarrow> callee_regs \<Rightarrow> u64 \<times> (u64 \<Rightarrow> u64) \<Rightarrow> u64 \<times> (u64 \<Rightarrow> u64)" where
  "kthread_frame lbl start r st = fold push [start, rbx r, ret_from_kfork lbl] st"

definition user_frame :: "labels \<Rightarrow> u64 \<Rightarrow> u64 \<Rightarrow> callee_regs \<Rightarrow> u64 \<times> (u64 \<Rightarrow> u64) \<Rightarrow> u64 \<times> (u64 \<Rightarrow> u64)" where
  "user_frame lbl rfl start r st =
     fold push [0x20 OR 0x3, rsp r, rfl OR 0x200, 0x28 OR 0x3, start, ret_from_ufork lbl] st"

definition fork_frame ::
  "labels \<Rightarrow> u64 \<Rightarrow> u64 \<Rightarrow> u64 \<Rightarrow> u64 \<Rightarrow> callee_regs option \<Rightarrow> u64 \<Rightarrow> u64 \<Rightarrow> kernel \<Rightarrow>
   (callee_regs \<times> (u64 \<times> (u64 \<Rightarrow> u64)) \<times> kernel) outcome option" where
  "fork_frame lbl rfl parent start clone_flags regs t kstack s =
     (if clone_flags AND FORK_KTHREAD \<noteq> 0 then
        let r = (case regs of None \<Rightarrow> default_regs | Some r \<Rightarrow> r)
        in Some (Inr (r, kthread_frame lbl start r (kstack, stack_mem s),
             s\<lparr>t_mmu := (t_mmu s)(t := Kernel_mmu), t_flags := (t_flags s)(t := t_flags s t OR TASK_KTHREAD)\<rparr>))
      else
        (case regs of
           None \<Rightarrow> Some (Inl Panic)
         | Some r \<Rightarrow>
             rbind (fork_mmu clone_flags parent t (s\<lparr>t_flags := (t_flags s)(t := t_flags s t AND NOT TASK_KTHREAD)\<rparr>)) (\<lambda>s1.
             Some (Inr (r, user_frame lbl rfl start r (kstack, stack_mem s1), s1)))))"

definition fork_finish :: "u64 \<Rightarrow> u64 \<Rightarrow> callee_regs \<Rightarrow> u64 \<times> (u64 \<Rightarrow> u64) \<Rightarrow> kernel \<Rightarrow> kernel" where
  "fork_finish parent t r st s =
     (let (sp, m) = push_regs r st
      in set_state t TASK_S_NOT_STARTED (s\<lparr>stack_mem := m, t_rsp_top := (t_rsp_top s)(t := sp),
           t_affinity := (t_affinity s)(t := cpuset_copy (t_affinity s t) (t_affinity s parent))\<rparr>))"

definition task_fork ::
  "labels \<Rightarrow> u64 \<Rightarrow> u64 \<Rightarrow> u64 \<Rightarrow> u64 \<Rightarrow> callee_regs option \<Rightarrow> kernel \<Rightarrow> (u64 \<times> kernel) outcome option" where
  "task_fork lbl rfl parent_ptr start clone_flags regs s =
     (let parent = (if parent_ptr = 0 then current s else parent_ptr) in
      if clone_flags AND FORK_KTHREAD \<noteq> 0 \<and> clone_flags AND FORK_UTHREAD \<noteq> 0 then Some (Inl Panic)
      else rbind (fork_alloc parent s) (\<lambda>(t, kstack, s1).
           rbind (fork_frame lbl rfl parent start clone_flags regs t kstack s1) (\<lambda>(r, st, s2).
           Some (Inr (t, fork_finish parent t r st s2)))))"

definition task_wakeup :: "u64 \<Rightarrow> kernel \<Rightarrow> kernel outcome option" where
  "task_wakeup t s =
     (if task_st (tmem s) t \<noteq> TASK_S_RUNNABLE then sched_add t (set_state t TASK_S_RUNNABLE s) else Some (Inr s))"

text \<open>\<^verbatim>\<open>task_exit\<close> of the running task never comes back: \<^verbatim>\<open>schedule\<close> switches away for good or panics.\<close>

definition task_exit :: "u64 \<Rightarrow> u64 \<Rightarrow> u64 \<Rightarrow> kernel \<Rightarrow> kernel outcome option" where
  "task_exit kernel_end ret t s =
     rbind (if task_st (tmem s) t = TASK_S_RUNNABLE then sched_remove t s else Some (Inr s)) (\<lambda>s1.
     let s2 = set_state t TASK_S_ZOMBIE s1 in
     case mmu_dec_users kernel_end (t_mmu s2 t) (kvm s2) of
       Inl e \<Rightarrow> Some (Inl e)
     | Inr v \<Rightarrow> let s3 = s2\<lparr>kvm := v\<rparr> in if t = current s3 then sched_yield ret s3 else Some (Inr s3))"

section \<open>A new program\<close>

definition UTASK_ENTRY :: u64 where "UTASK_ENTRY = 0x1000"
definition UTASK_STACK_BOTTOM :: u64 where "UTASK_STACK_BOTTOM = 0x3000"
definition UTASK_STACK_TOP :: u64 where "UTASK_STACK_TOP = 0x5000"
definition sizeof_vm_area :: u64 where "sizeof_vm_area = 32"

definition code_area :: vm_area where
  "code_area = \<lparr>area_base = UTASK_ENTRY, area_len = 2 * PAGE_SIZE, area_type = 2, area_flags = 2\<rparr>"

definition stack_area :: vm_area where
  "stack_area = \<lparr>area_base = UTASK_STACK_TOP, area_len = UTASK_STACK_TOP - UTASK_STACK_BOTTOM, area_type = 1, area_flags = 1\<rparr>"

definition add_area :: "mmu_ref \<Rightarrow> vm_area \<Rightarrow> vm \<Rightarrow> vm outcome option" where
  "add_area m a v = rbind (kmalloc (heap v) sizeof_vm_area) (\<lambda>(p, h). Some (area_add m a (v\<lparr>heap := h\<rparr>)))"

definition map_stack_page :: "mmu_ref \<Rightarrow> u64 \<Rightarrow> vm \<Rightarrow> vm outcome option" where
  "map_stack_page m off v = rbind (Some (pmm_alloc_order (vm_pmm v) 0 0)) (\<lambda>(pg, st).
     vmm_map_page m (virt_to_phys (page_to_virt pg)) (UTASK_STACK_BOTTOM + off)
       (PAGE_WRITABLE OR PAGE_USER_ACCESSIBLE) (set_pmm st v))"

text \<open>The address space \<^verbatim>\<open>task_execve\<close> builds into.\<close>

definition execve_mmu :: "u64 \<Rightarrow> mmu_ref \<Rightarrow> vm \<Rightarrow> (mmu_ref \<times> vm) outcome option" where
  "execve_mmu kernel_end m v =
     rbind (if m = Kernel_mmu then mmu_alloc v else Some (obind (mmu_dec_users kernel_end m v) (\<lambda>v1. Inr (m, v1))))
       (\<lambda>(m', v1). Some (obind (mmu_init m' v1) (\<lambda>v2. Inr (m', v2))))"

text \<open>The processor leaves for user space: \<^verbatim>\<open>rip\<close> and \<^verbatim>\<open>rsp\<close> are those of the new program.\<close>

definition task_execve :: "u64 \<Rightarrow> u64 \<Rightarrow> kernel \<Rightarrow> kernel outcome option" where
  "task_execve kernel_end func s =
     (let self = current s; cpu = this_cpu s in
      if self = 0 then Some (Inl Null_access)
      else
        rbind (execve_mmu kernel_end (t_mmu s self) (kvm s)) (\<lambda>(m, v1).
        rbind (vmm_map_page m (kern_to_phys func) UTASK_ENTRY (PAGE_EXECUTABLE OR PAGE_USER_ACCESSIBLE) v1) (\<lambda>v2.
        rbind (vmm_map_page m (kern_to_phys func + PAGE_SIZE) (UTASK_ENTRY + PAGE_SIZE)
                 (PAGE_EXECUTABLE OR PAGE_USER_ACCESSIBLE) v2) (\<lambda>v3.
        rbind (map_stack_page m 0 v3) (\<lambda>v4.
        rbind (map_stack_page m PAGE_SIZE v4) (\<lambda>v5.
        rbind (add_area m code_area v5) (\<lambda>v6.
        rbind (add_area m stack_area v6) (\<lambda>v7.
        Some (obind (mmu_update_cpuset m cpu True v7) (\<lambda>v8.
          Inr (s\<lparr>kvm := write_cr3 (p4 (mmus v8 m)) v8, t_mmu := (t_mmu s)(self := m),
                 cpu_regs := (cpu_regs s)(cpu := (cpu_regs s cpu)\<lparr>rsp := UTASK_STACK_TOP\<rparr>),
                 cpu_rip := (cpu_rip s)(cpu := UTASK_ENTRY + (func AND 0xFFF))\<rparr>)))))))))))"

section \<open>Starting the scheduler\<close>

definition sched_init :: "u64 \<Rightarrow> kernel \<Rightarrow> kernel" where
  "sched_init dummy s =
     (let s1 = clear_task dummy s
      in s1\<lparr>t_mmu := (t_mmu s1)(dummy := Kernel_mmu), t_tid := (t_tid s1)(dummy := TID_IDLE),
            current_task := (current_task s1)(this_cpu s1 := dummy)\<rparr>)"

definition sizeof_runq :: u64 where "sizeof_runq = 40"

definition runq_init :: "labels \<Rightarrow> u64 \<Rightarrow> u64 \<Rightarrow> u64 \<Rightarrow> kernel \<Rightarrow> kernel outcome option" where
  "runq_init lbl rfl idle_task initial_parent s =
     rbind (kmalloc (heap (kvm s)) sizeof_runq) (\<lambda>(p, h).
     let s1 = s\<lparr>kvm := (kvm s)\<lparr>heap := h\<rparr>,
                runqs := (runqs s)[this_cpu s := \<lparr>rq_root = 0, rq_most_left = 0, num_threads = 0, idle = 0\<rparr>]\<rparr>
     in rbind (task_fork lbl rfl initial_parent idle_task TASK_KTHREAD None s1) (\<lambda>(t, s2).
        case cpuset_set_id (cpuset_clear (t_affinity s2 t)) (this_cpu s2) True of
          Inl e \<Rightarrow> Some (Inl e)
        | Inr a \<Rightarrow>
            let s3 = set_state t TASK_S_RUNNABLE (s2\<lparr>t_affinity := (t_affinity s2)(t := cpuset_pin a)\<rparr>)
            in Some (Inr (s3\<lparr>t_tid := (t_tid s3)(t := TID_IDLE),
                 runqs := (runqs s3)[this_cpu s3 := (runqs s3 ! this_cpu s3)\<lparr>idle := t\<rparr>]\<rparr>))))"

text \<open>
  The barrier of the processors: \<open>others\<close> is how many times the other processors increment the
  counter before the loop ends; with too few, it does not end.
\<close>

definition wait_for_schedulers :: "u32 \<Rightarrow> kernel \<Rightarrow> kernel outcome option" where
  "wait_for_schedulers others s =
     (let n = schedulers_waiting s + 1 + others
      in if n < of_nat (nr_cpus (kvm s)) then None else Some (Inr (s\<lparr>schedulers_waiting := n\<rparr>)))"

definition sched_run_bsp ::
  "labels \<Rightarrow> u64 \<Rightarrow> u64 \<Rightarrow> u64 \<Rightarrow> u64 \<Rightarrow> u32 \<Rightarrow> u64 \<Rightarrow> kernel \<Rightarrow> kernel outcome option" where
  "sched_run_bsp lbl rfl idle_task init_kernel dummy others ret s =
     rbind (runq_init lbl rfl idle_task dummy s) (\<lambda>s1.
     rbind (task_fork lbl rfl dummy init_kernel FORK_KTHREAD None s1) (\<lambda>(t, s2).
     rbind (task_wakeup t s2) (\<lambda>s3.
     rbind (wait_for_schedulers others s3) (sched_yield ret))))"

definition sched_run_ap :: "labels \<Rightarrow> u64 \<Rightarrow> u64 \<Rightarrow> u64 \<Rightarrow> u32 \<Rightarrow> u64 \<Rightarrow> kernel \<Rightarrow> kernel outcome option" where
  "sched_run_ap lbl rfl idle_task dummy others ret s =
     (let s1 = s\<lparr>current_task := (current_task s)(this_cpu s := dummy)\<rparr>
      in rbind (runq_init lbl rfl idle_task dummy s1) (\<lambda>s2.
         rbind (wait_for_schedulers others s2) (sched_yield ret)))"

section \<open>System calls\<close>

text \<open>
  The value of a call is what the caller finds in \<^verbatim>\<open>rax\<close> when it next runs; the state is the one in
  which the processor has switched to the next task.
\<close>

definition syscall_sched_yield :: "u64 \<Rightarrow> kernel \<Rightarrow> (u64 \<times> kernel) outcome option" where
  "syscall_sched_yield ret s = rbind (sched_yield ret s) (\<lambda>s1. Some (Inr (0, s1)))"

definition syscall_fork ::
  "labels \<Rightarrow> u64 \<Rightarrow> u64 \<Rightarrow> u64 \<Rightarrow> callee_regs \<Rightarrow> u64 \<Rightarrow> kernel \<Rightarrow> (u64 \<times> kernel) outcome option" where
  "syscall_fork lbl rfl ret flags regs return_addr s =
     (if flags AND TASK_KTHREAD \<noteq> 0 then Some (Inr (- 1, s))
      else rbind (task_fork lbl rfl (current s) return_addr flags (Some regs) s) (\<lambda>(child, s1).
           rbind (task_wakeup child s1) (\<lambda>s2.
           rbind (sched_yield ret s2) (\<lambda>s3. Some (Inr (scast (t_tid s3 child), s3))))))"

definition syscall_exit :: "u64 \<Rightarrow> u64 \<Rightarrow> kernel \<Rightarrow> kernel outcome option" where
  "syscall_exit kernel_end ret s = task_exit kernel_end ret (current s) s"

section \<open>The timer\<close>

definition lapic_timer_callback :: "kernel \<Rightarrow> kernel outcome" where
  "lapic_timer_callback s =
     (let t = current s; cpu = this_cpu s in
      if reschedule s cpu then Inr s
      else if t = 0 then Inl Null_access
      else let n = t_num_slices s t + 1; s1 = s\<lparr>t_num_slices := (t_num_slices s)(t := n)\<rparr>
           in Inr (if n \<ge> MAX_SLICES then s1\<lparr>reschedule := (reschedule s1)(cpu := True)\<rparr> else s1))"

end
