(* ===== verification/Sched_Correct.thy ===== *)
theory Sched_Correct
  imports Sched Runq_Correct Mmu_Correct
begin

text \<open>
  Properties of tasks and of the scheduler.  The run queues of all processors are related to
  lists of tasks; \<^verbatim>\<open>schedule\<close> is a step of an abstract scheduler on these lists, the context switch
  restores exactly what it saved, and a forked task starts with the context it was given.
\<close>

section \<open>Memory of the tasks\<close>

text \<open>The links of a task that is in no tree, as \<^verbatim>\<open>rb_erase\<close> leaves them.\<close>

definition isolated :: "task_mem \<Rightarrow> u64 \<Rightarrow> bool" where
  "isolated mem t \<longleftrightarrow> left_ptr (rb_nodes mem t) = 0 \<and> right_ptr (rb_nodes mem t) = 0 \<and>
     parent_color (rb_nodes mem t) AND RB_PARENT_MASK = 0"

lemma rb_erase_clears:
  assumes "rb_erase st a = Some st'" and "a \<noteq> 0"
  shows "left_ptr (nodes st' a) = 0 \<and> right_ptr (nodes st' a) = 0 \<and> parent_color (nodes st' a) AND RB_PARENT_MASK = 0"
proof -
  obtain t3 where t3: "(do { t4 \<leftarrow> set_left t3 a 0; t5 \<leftarrow> set_right t4 a 0; rb_set_parent t5 a 0 }) = Some st'"
    using assms by (clarsimp simp: rb_erase_def bind_eq_Some_conv) blast
  have "RB_COLOR_MASK AND RB_PARENT_MASK = 0" by (simp add: RB_COLOR_MASK_def RB_PARENT_MASK_def)
  then have "(w AND RB_COLOR_MASK) AND RB_PARENT_MASK = 0" for w by (simp add: and.assoc)
  then show ?thesis
    using t3 assms(2)
    by (auto simp: set_left_def set_right_def rb_set_parent_def update_node_def rb_color_def)
qed

lemma tree_remove_isolated:
  assumes "tree_remove mem rq t = Some (mem', rq')" and "t \<noteq> 0"
  shows "isolated mem' t"
proof -
  obtain tree1 where "rb_erase (rq_tree mem rq) t = Some tree1" "rb_nodes mem' = nodes tree1"
    using assms(1) by (auto simp: tree_remove_def put_tree_def bind_eq_Some_conv)
  then show ?thesis using rb_erase_clears [OF _ assms(2)] by (simp add: isolated_def)
qed

lemma queues_update:
  assumes Q: "queues mem rqs qs" and i: "i < length rqs" and q: "queued mem' rq ys"
    and t: "\<forall>j < length rqs. j \<noteq> i \<longrightarrow> t \<notin> set (qs ! j)" and ys: "set ys \<subseteq> insert t (set (qs ! i))"
    and n: "\<forall>a. a \<notin> insert t (set (qs ! i)) \<longrightarrow> rb_nodes mem' a = rb_nodes mem a"
    and v: "\<forall>a. a \<noteq> t \<longrightarrow> vruntime mem' a = vruntime mem a"
  shows "queues mem' (rqs[i := rq]) (qs[i := ys])"
proof -
  have len: "length qs = length rqs" and dis: "\<And>a b. a < length rqs \<Longrightarrow> b < length rqs \<Longrightarrow> a \<noteq> b \<Longrightarrow> set (qs ! a) \<inter> set (qs ! b) = {}"
    using Q by (auto simp: queues_def)
  have "queued mem' (rqs ! j) (qs ! j)" if j: "j < length rqs" "j \<noteq> i" for j
  proof (rule queued_frame [of mem])
    show "queued mem (rqs ! j) (qs ! j)" using Q j(1) by (simp add: queues_def)
    have "set (qs ! j) \<inter> insert t (set (qs ! i)) = {}" using dis [OF j(1) i j(2)] t j by auto
    then show "\<forall>a \<in> set (qs ! j). rb_nodes mem' a = rb_nodes mem a \<and> vruntime mem' a = vruntime mem a"
      using n v by auto
  qed
  moreover have "set (qs[i := ys] ! a) \<inter> set (qs[i := ys] ! b) = {}" if "a < length rqs" "b < length rqs" "a \<noteq> b" for a b
    using that dis [of a b] dis [of i b] dis [of a i] t ys i len by (auto simp: nth_list_update)
  ultimately show ?thesis using q len i by (auto simp: queues_def nth_list_update)
qed

lemma tree_insert_frame:
  "tree_insert mem rq t = Some (mem', rq') \<Longrightarrow> vruntime mem' = vruntime mem \<and> task_st mem' = task_st mem \<and> idle rq' = idle rq"
  by (auto simp: tree_insert_def put_tree_def bind_eq_Some_conv Let_def)

lemma tree_remove_frame:
  "tree_remove mem rq t = Some (mem', rq') \<Longrightarrow> vruntime mem' = vruntime mem \<and> task_st mem' = task_st mem \<and> idle rq' = idle rq"
  by (auto simp: tree_remove_def put_tree_def bind_eq_Some_conv Let_def)

lemma balance_from_frame:
  "balance_from mem rqs cpu i = Some (mem', rqs') \<Longrightarrow> cpu < length rqs \<Longrightarrow>
     task_st mem' = task_st mem \<and> map idle rqs' = map idle rqs"
proof (induction mem rqs cpu i rule: balance_from.induct)
  case (1 mem rqs cpu i)
  show ?case
  proof (cases "i < length rqs \<and> i \<noteq> cpu \<and> num_threads (rqs ! i) > 0")
    case True
    define x where "x = rb_first_cached (rq_tree mem (rqs ! i))"
    obtain mem1 other rq where r: "tree_remove mem (rqs ! i) x = Some (mem1, other)"
      "tree_insert mem1 (rqs ! cpu) x = Some (mem', rq)" "rqs' = rqs[i := other, cpu := rq]"
      using 1(2) [unfolded balance_from.simps [of mem rqs cpu i]] True
      by (auto simp: x_def bind_eq_Some_conv Let_def split: if_splits)
    then show ?thesis
      using tree_remove_frame [OF r(1)] tree_insert_frame [OF r(2)] True 1(3)
      by (auto simp: list_eq_iff_nth_eq nth_list_update)
  next
    case False
    then show ?thesis
      using 1 by (cases "i < length rqs") (auto simp: balance_from.simps [of mem rqs cpu i])
  qed
qed

section \<open>The abstract scheduler\<close>

definition all_queued :: "u64 list list \<Rightarrow> u64 set" where
  "all_queued qs = (\<Union>q \<in> set qs. set q)"

definition first_busy :: "nat \<Rightarrow> u64 list list \<Rightarrow> nat option" where
  "first_busy cpu qs = List.find (\<lambda>k. k \<noteq> cpu \<and> qs ! k \<noteq> []) [0..<length qs]"

text \<open>
  The next task of a processor: the first of its own queue, else the first of the first queue
  of another processor that is not empty, else its idle task.
\<close>

definition abs_pick :: "nat \<Rightarrow> u64 \<Rightarrow> u64 list list \<Rightarrow> u64 \<times> u64 list list" where
  "abs_pick cpu idle_task qs =
     (case qs ! cpu of
        x # xs \<Rightarrow> (x, qs[cpu := xs])
      | [] \<Rightarrow> (case first_busy cpu qs of
                None \<Rightarrow> (idle_task, qs)
              | Some k \<Rightarrow> (hd (qs ! k), qs[k := tl (qs ! k)])))"

text \<open>What holds of the queues and of the idle tasks between calls.\<close>

definition ready_inv :: "kernel \<Rightarrow> u64 list list \<Rightarrow> bool" where
  "ready_inv s qs \<longleftrightarrow>
     queues (tmem s) (runqs s) qs \<and> this_cpu s < length (runqs s) \<and>
     (\<forall>t \<in> all_queued qs. t_tid s t \<noteq> TID_IDLE \<and> task_st (tmem s) t = TASK_S_RUNNABLE) \<and>
     (\<forall>rq \<in> set (runqs s). idle rq \<noteq> 0 \<and> t_tid s (idle rq) = TID_IDLE \<and> task_st (tmem s) (idle rq) = TASK_S_RUNNABLE)"

definition sched_inv :: "kernel \<Rightarrow> u64 list list \<Rightarrow> bool" where
  "sched_inv s qs \<longleftrightarrow> ready_inv s qs \<and> current s \<noteq> 0 \<and>
     (t_tid s (current s) \<noteq> TID_IDLE \<longrightarrow> task_addr (current s) \<and> current s \<notin> all_queued qs \<and>
        task_st (tmem s) (current s) = TASK_S_RUNNABLE \<and> isolated (tmem s) (current s))"

lemma this_cpu_upd [simp]:
  "this_cpu (s\<lparr>tmem := m\<rparr>) = this_cpu s" "this_cpu (s\<lparr>runqs := r\<rparr>) = this_cpu s"
  "this_cpu (s\<lparr>t_flags := f\<rparr>) = this_cpu s" "this_cpu (s\<lparr>preempt_counts := p\<rparr>) = this_cpu s"
  "this_cpu (s\<lparr>reschedule := b\<rparr>) = this_cpu s" "this_cpu (s\<lparr>current_task := c\<rparr>) = this_cpu s"
  "this_cpu (s\<lparr>stack_mem := sm\<rparr>) = this_cpu s" "this_cpu (s\<lparr>t_rsp_top := rt\<rparr>) = this_cpu s"
  "this_cpu (s\<lparr>tss_rsp0 := ts\<rparr>) = this_cpu s" "this_cpu (s\<lparr>cpu_regs := cr\<rparr>) = this_cpu s"
  "this_cpu (s\<lparr>cpu_rip := ci\<rparr>) = this_cpu s"
  by (simp_all add: this_cpu_def)

lemma all_queued_update:
  assumes "i < length qs"
  shows "all_queued (qs[i := ys]) = (\<Union>j \<in> {j. j < length qs \<and> j \<noteq> i}. set (qs ! j)) \<union> set ys"
proof -
  have "set (qs[i := ys]) = insert ys ((!) qs ` {j. j < length qs \<and> j \<noteq> i})"
    using assms by (auto simp: set_conv_nth nth_list_update image_iff)
  then show ?thesis by (auto simp: all_queued_def)
qed

lemma all_queued_nth: "i < length qs \<Longrightarrow> set (qs ! i) \<subseteq> all_queued qs"
  unfolding all_queued_def by (meson UN_upper nth_mem)

lemma queues_frame:
  assumes Q: "queues mem rqs qs"
    and same: "\<forall>a \<in> all_queued qs. rb_nodes mem' a = rb_nodes mem a \<and> vruntime mem' a = vruntime mem a"
  shows "queues mem' rqs qs"
proof -
  have "queued mem' (rqs ! i) (qs ! i)" if "i < length rqs" for i
  proof (rule queued_frame [of mem])
    show "queued mem (rqs ! i) (qs ! i)" using Q that by (simp add: queues_def)
    show "\<forall>a \<in> set (qs ! i). rb_nodes mem' a = rb_nodes mem a \<and> vruntime mem' a = vruntime mem a"
      using same all_queued_nth [of i qs] Q that by (auto simp: queues_def)
  qed
  then show ?thesis using Q by (simp add: queues_def)
qed

lemma all_queued_insert:
  assumes "i < length qs" and "set ys = insert t (set (qs ! i))"
  shows "all_queued (qs[i := ys]) = insert t (all_queued qs)"
  using assms all_queued_update [OF assms(1), of ys] all_queued_update [OF assms(1), of "qs ! i"] by auto

lemma all_queued_shrink:
  assumes "i < length qs" and "set ys \<subseteq> set (qs ! i)"
  shows "all_queued (qs[i := ys]) \<subseteq> all_queued qs"
  using assms all_queued_nth [of _ qs] unfolding all_queued_update [OF assms(1)] by blast

lemma ready_invD:
  assumes "ready_inv s qs"
  shows "queues (tmem s) (runqs s) qs" "this_cpu s < length (runqs s)" "length qs = length (runqs s)"
    "queued (tmem s) (runqs s ! this_cpu s) (qs ! this_cpu s)"
  using assms by (auto simp: ready_inv_def queues_def)

text \<open>An operation that replaces one queue.\<close>

lemma ready_inv_update:
  assumes R: "ready_inv s qs" and Q: "queues mem (rqs) qs'" and idl: "map idle rqs = map idle (runqs s)"
    and st: "task_st mem = task_st (tmem s)" and sub: "all_queued qs' \<subseteq> insert t (all_queued qs)"
    and t: "t \<in> all_queued qs' \<longrightarrow> t_tid s t \<noteq> TID_IDLE \<and> task_st (tmem s) t = TASK_S_RUNNABLE"
  shows "ready_inv (s\<lparr>tmem := mem, runqs := rqs\<rparr>) qs'"
proof -
  have im: "idle ` set rqs = idle ` set (runqs s)" by (metis idl list.set_map)
  have len: "length rqs = length (runqs s)" using idl map_eq_imp_length_eq by blast
  have "t_tid s x \<noteq> TID_IDLE \<and> task_st mem x = TASK_S_RUNNABLE" if "x \<in> all_queued qs'" for x
    using that sub t R st by (cases "x = t") (auto simp: ready_inv_def)
  moreover have "idle rq \<noteq> 0 \<and> t_tid s (idle rq) = TID_IDLE \<and> task_st mem (idle rq) = TASK_S_RUNNABLE" if "rq \<in> set rqs" for rq
  proof -
    have "idle rq \<in> idle ` set (runqs s)" using that im by blast
    then obtain rq' where "idle rq = idle rq'" "rq' \<in> set (runqs s)" by (rule imageE)
    then show ?thesis using R st by (simp add: ready_inv_def)
  qed
  ultimately show ?thesis using R Q len by (simp add: ready_inv_def)
qed

lemma map_idle_update: "i < length rqs \<Longrightarrow> idle rq = idle (rqs ! i) \<Longrightarrow> map idle (rqs[i := rq]) = map idle rqs"
  by (simp add: map_update list_update_same_conv)

lemma sched_add_ok:
  assumes R: "ready_inv s qs" and t: "task_addr t" "t \<notin> all_queued qs"
    "t_tid s t \<noteq> TID_IDLE" "task_st (tmem s) t = TASK_S_RUNNABLE"
  shows "\<exists>mem rqs. sched_add t s = Some (Inr (s\<lparr>tmem := mem, runqs := rqs\<rparr>)) \<and>
    ready_inv (s\<lparr>tmem := mem, runqs := rqs\<rparr>)
      (qs[this_cpu s := enqueue (vruntime (tmem s)) t (qs ! this_cpu s)]) \<and>
    vruntime mem = vruntime (tmem s) \<and> task_st mem = task_st (tmem s) \<and> map idle rqs = map idle (runqs s)"
proof -
  let ?c = "this_cpu s" and ?q = "enqueue (vruntime (tmem s)) t (qs ! this_cpu s)"
  note D = ready_invD [OF R]
  have tq: "t \<notin> set (qs ! j)" if "j < length (runqs s)" for j using t(2) all_queued_nth [of j qs] D(3) that by auto
  obtain mem rq where a: "runq_add (tmem s) (runqs s ! ?c) t = Some (mem, rq)" "queued mem rq ?q"
    "vruntime mem = vruntime (tmem s)" "task_st mem = task_st (tmem s)" "idle rq = idle (runqs s ! ?c)"
    "\<forall>a. a \<notin> insert t (set (qs ! ?c)) \<longrightarrow> rb_nodes mem a = rb_nodes (tmem s) a"
    using runq_add_cases [OF D(4) t(1) tq [OF D(2)]] t(4) by auto
  have "queues mem ((runqs s)[?c := rq]) (qs[?c := ?q])"
    using tq a(3) by (intro queues_update [OF D(1,2) a(2) _ _ a(6)]) auto
  moreover have idl: "map idle ((runqs s)[?c := rq]) = map idle (runqs s)" by (rule map_idle_update [OF D(2) a(5)])
  moreover have "all_queued (qs[?c := ?q]) = insert t (all_queued qs)" using D(2,3) by (intro all_queued_insert) auto
  ultimately have "ready_inv (s\<lparr>tmem := mem, runqs := (runqs s)[?c := rq]\<rparr>) (qs[?c := ?q])"
    using t(3,4) a(4) by (intro ready_inv_update [OF R, of _ _ _ t]) auto
  then show ?thesis using a(1,3,4) D(2) idl by (auto simp: sched_add_def)
qed

lemma sched_next_first:
  assumes R: "ready_inv s qs" and x: "qs ! this_cpu s = x # xs"
  shows "\<exists>mem rqs. sched_next s = Some (Inr (x, s\<lparr>tmem := mem, runqs := rqs\<rparr>)) \<and>
    ready_inv (s\<lparr>tmem := mem, runqs := rqs\<rparr>) (qs[this_cpu s := xs]) \<and>
    vruntime mem = vruntime (tmem s) \<and> task_st mem = task_st (tmem s) \<and> isolated mem x \<and>
    task_addr x \<and> t_tid s x \<noteq> TID_IDLE \<and> task_st (tmem s) x = TASK_S_RUNNABLE \<and> x \<notin> all_queued (qs[this_cpu s := xs])"
proof -
  let ?c = "this_cpu s"
  note D = ready_invD [OF R]
  have Q: "queued (tmem s) (runqs s ! ?c) (x # xs)" using D(4) x by simp
  obtain mem rq where r: "tree_remove (tmem s) (runqs s ! ?c) x = Some (mem, rq)" "queued mem rq xs"
    "vruntime mem = vruntime (tmem s)" "task_st mem = task_st (tmem s)" "idle rq = idle (runqs s ! ?c)"
    "\<forall>a. a \<notin> set (x # xs) \<longrightarrow> rb_nodes mem a = rb_nodes (tmem s) a"
    using remove_head [OF Q] by (elim exE conjE) (rule that)
  have xa: "task_addr x" "x \<noteq> 0" "x \<notin> set xs" using queued_first(2,3) [OF Q] by (auto simp: task_addr_def)
  have other: "x \<notin> set (qs ! j)" if "j < length (runqs s)" "j \<noteq> ?c" for j
    using D(1,2) that x by (fastforce simp: queues_def)
  have "sched_next s = Some (Inr (x, s\<lparr>tmem := mem, runqs := (runqs s)[?c := rq]\<rparr>))"
    using r(1) queued_first(1) [OF Q] xa(2) D(2) by (simp add: sched_next_def runq_next_def)
  moreover have "queues mem ((runqs s)[?c := rq]) (qs[?c := xs])"
    using other r(3,6) x by (intro queues_update [OF D(1,2) r(2)]) auto
  moreover have "all_queued (qs[?c := xs]) \<subseteq> all_queued qs"
    using D(2,3) x by (intro all_queued_shrink) auto
  moreover have "x \<in> all_queued qs" using all_queued_nth [of ?c qs] D(2,3) x by auto
  then have "t_tid s x \<noteq> TID_IDLE \<and> task_st (tmem s) x = TASK_S_RUNNABLE" using R by (simp add: ready_inv_def)
  moreover have "x \<notin> all_queued (qs[?c := xs])"
    using all_queued_update [of ?c qs xs] D(2,3) other xa(3) by auto
  moreover have "map idle ((runqs s)[?c := rq]) = map idle (runqs s)" by (rule map_idle_update [OF D(2) r(5)])
  ultimately show ?thesis
    using tree_remove_isolated [OF r(1) xa(2)] r(3,4) xa(1) ready_inv_update [OF R, of mem "(runqs s)[?c := rq]" "qs[?c := xs]" x]
    by blast
qed

lemma sched_next_none:
  assumes R: "ready_inv s qs" and "qs ! this_cpu s = []"
  shows "sched_next s = Some (Inr (idle (runqs s ! this_cpu s), s))"
proof -
  note D = ready_invD [OF R]
  have "idle (runqs s ! this_cpu s) \<noteq> 0" using R D(2) by (auto simp: ready_inv_def)
  then show ?thesis
    using queued_first(1) [OF D(4)] assms(2) D(2) by (simp add: sched_next_def runq_next_def)
qed

lemma first_busy_None: "first_busy cpu qs = None \<longleftrightarrow> (\<forall>m < length qs. m \<noteq> cpu \<longrightarrow> qs ! m = [])"
  by (auto simp: first_busy_def find_None_iff)

lemma first_busy_Some:
  assumes "first_busy cpu qs = Some k"
  shows "k < length qs" "k \<noteq> cpu" "qs ! k \<noteq> []" "\<forall>m < k. m \<noteq> cpu \<longrightarrow> qs ! m = []"
  using assms by (auto simp: first_busy_def find_Some_iff)

lemma sched_balance_idle:
  assumes R: "ready_inv s qs" and "first_busy (this_cpu s) qs = None"
  shows "sched_balance s = Some (Inr s)"
  using balance_from_idle [OF ready_invD(1) [OF R]] assms(2) ready_invD(3) [OF R]
  by (simp add: sched_balance_def runq_balance_pull_def first_busy_None)

lemma sched_balance_pull:
  assumes R: "ready_inv s qs" and k: "first_busy (this_cpu s) qs = Some k" and x: "qs ! k = x # xs"
  shows "\<exists>mem rqs. sched_balance s = Some (Inr (s\<lparr>tmem := mem, runqs := rqs\<rparr>)) \<and>
    ready_inv (s\<lparr>tmem := mem, runqs := rqs\<rparr>)
      (qs[k := xs, this_cpu s := enqueue (vruntime (tmem s)) x (qs ! this_cpu s)]) \<and>
    vruntime mem = vruntime (tmem s) \<and> task_st mem = task_st (tmem s)"
proof -
  let ?c = "this_cpu s" and ?q = "enqueue (vruntime (tmem s)) x (qs ! this_cpu s)"
  note D = ready_invD [OF R] and K = first_busy_Some [OF k]
  have kl: "k < length (runqs s)" using K(1) D(3) by simp
  obtain mem rqs where b: "balance_from (tmem s) (runqs s) ?c 0 = Some (mem, rqs)"
    "queues mem rqs (qs[k := xs, ?c := ?q])" "vruntime mem = vruntime (tmem s)"
    using balance_from_ok [OF D(1,2) kl _ K(2) _ x, of 0] K(4) by auto
  note F = balance_from_frame [OF b(1) D(2)]
  have xq: "x \<in> all_queued qs" using all_queued_nth [OF K(1)] x by auto
  have "all_queued (qs[k := xs, ?c := ?q]) = insert x (all_queued (qs[k := xs]))"
    using D(2,3) K(2) by (intro all_queued_insert) simp_all
  also have "\<dots> \<subseteq> insert x (all_queued qs)" using all_queued_shrink [OF K(1), of xs] x by auto
  finally have "ready_inv (s\<lparr>tmem := mem, runqs := rqs\<rparr>) (qs[k := xs, ?c := ?q])"
    using F R xq by (intro ready_inv_update [OF R b(2), of x]) (auto simp: ready_inv_def)
  then show ?thesis using b F by (auto simp: sched_balance_def runq_balance_pull_def)
qed

lemma choose_next_ok:
  assumes R: "ready_inv s qs" and p: "abs_pick (this_cpu s) (idle (runqs s ! this_cpu s)) qs = (nxt, qs')"
  shows "\<exists>mem rqs. choose_next s = Some (Inr (nxt, s\<lparr>tmem := mem, runqs := rqs\<rparr>)) \<and>
    ready_inv (s\<lparr>tmem := mem, runqs := rqs\<rparr>) qs' \<and>
    vruntime mem = vruntime (tmem s) \<and> task_st mem = task_st (tmem s) \<and> nxt \<noteq> 0 \<and> task_st (tmem s) nxt = TASK_S_RUNNABLE \<and>
    (t_tid s nxt \<noteq> TID_IDLE \<longrightarrow> task_addr nxt \<and> nxt \<notin> all_queued qs' \<and> isolated mem nxt)"
proof (cases "qs ! this_cpu s")
  case (Cons x xs)
  then have "nxt = x" "qs' = qs[this_cpu s := xs]" using p by (simp_all add: abs_pick_def)
  then show ?thesis
    using sched_next_first [OF R Cons] by (fastforce simp: choose_next_def task_addr_def)
next
  case Nil
  let ?c = "this_cpu s"
  note D = ready_invD [OF R]
  have i: "idle (runqs s ! ?c) \<noteq> 0" "t_tid s (idle (runqs s ! ?c)) = TID_IDLE"
    "task_st (tmem s) (idle (runqs s ! ?c)) = TASK_S_RUNNABLE"
    using R D(2) by (auto simp: ready_inv_def)
  have c: "choose_next s = rbind (sched_balance s) sched_next"
    using sched_next_none [OF R Nil] i(2) by (simp add: choose_next_def)
  show ?thesis
  proof (cases "first_busy ?c qs")
    case None
    then have "nxt = idle (runqs s ! ?c)" "qs' = qs" using p Nil by (simp_all add: abs_pick_def)
    then show ?thesis
      using R i sched_balance_idle [OF R None] sched_next_none [OF R Nil]
      by (intro exI [of _ "tmem s"] exI [of _ "runqs s"]) (simp add: c)
  next
    case (Some k)
    note K = first_busy_Some [OF Some]
    obtain x xs where x: "qs ! k = x # xs" using K(3) by (cases "qs ! k") auto
    then have n: "nxt = x" "qs' = qs[k := xs]" using p Nil Some by (simp_all add: abs_pick_def)
    obtain mem1 rqs1 where b: "sched_balance s = Some (Inr (s\<lparr>tmem := mem1, runqs := rqs1\<rparr>))"
      "ready_inv (s\<lparr>tmem := mem1, runqs := rqs1\<rparr>) (qs[k := xs, ?c := [x]])"
      "vruntime mem1 = vruntime (tmem s)" "task_st mem1 = task_st (tmem s)"
      using sched_balance_pull [OF R Some x] Nil by (auto simp: enqueue_def)
    let ?s1 = "s\<lparr>tmem := mem1, runqs := rqs1\<rparr>"
    have "qs[k := xs, ?c := [x]] ! this_cpu ?s1 = [x]" using D(2,3) by simp
    from sched_next_first [OF b(2) this]
    obtain mem rqs where g: "sched_next ?s1 = Some (Inr (x, ?s1\<lparr>tmem := mem, runqs := rqs\<rparr>))"
      "ready_inv (?s1\<lparr>tmem := mem, runqs := rqs\<rparr>) ((qs[k := xs, ?c := [x]])[?c := []])"
      "vruntime mem = vruntime mem1" "task_st mem = task_st mem1" "isolated mem x" "task_addr x"
      "task_st mem1 x = TASK_S_RUNNABLE" "x \<notin> all_queued ((qs[k := xs, ?c := [x]])[?c := []])"
      by auto
    have "(qs[k := xs, ?c := [x]])[?c := []] = qs[k := xs]"
      using Nil K(2) by (metis list_update_id list_update_overwrite list_update_swap)
    then show ?thesis using b g n by (auto simp: c task_addr_def)
  qed
qed

section \<open>The context switch\<close>

definition saved_regs :: "(u64 \<Rightarrow> u64) \<Rightarrow> u64 \<Rightarrow> callee_regs" where
  "saved_regs m sp = \<lparr>rsp = sp + 56, rbp = m (sp + 32), rbx = m (sp + 40), r12 = m (sp + 24),
     r13 = m (sp + 16), r14 = m (sp + 8), r15 = m sp\<rparr>"

definition switch_frame :: "u64 \<Rightarrow> callee_regs \<Rightarrow> (u64 \<Rightarrow> u64) \<Rightarrow> u64 \<Rightarrow> u64" where
  "switch_frame ret r m = m(rsp r - 8 := ret, rsp r - 16 := rbx r, rsp r - 24 := rbp r, rsp r - 32 := r12 r,
     rsp r - 40 := r13 r, rsp r - 48 := r14 r, rsp r - 56 := r15 r)"

lemma push_frame: "push_regs r (push ret (rsp r, m)) = (rsp r - 56, switch_frame ret r m)"
  by (simp add: push_regs_def switch_frame_def)

lemma switch_frame_saved:
  "saved_regs (switch_frame ret r m) (rsp r - 56) = r" "switch_frame ret r m (rsp r - 56 + 48) = ret"
  by (simp_all add: saved_regs_def switch_frame_def)

lemma mmu_switch_self: "mmu_switch a b v = Inr v' \<Longrightarrow> self_id v' = self_id v \<and> nr_cpus v' = nr_cpus v"
  by (auto simp: mmu_switch_def mmu_update_cpuset_def obind_Inr set_mmu_def write_cr3_def split: if_splits)

text \<open>What a context switch does to the state: the registers and the return address come from the new stack.\<close>

lemma switch_to_Inr:
  assumes "switch_to ret nxt s = Inr s'"
  defines "r \<equiv> cpu_regs s (this_cpu s)" and "cur \<equiv> current s"
  shows "this_cpu s' = this_cpu s" "current s' = nxt" "mmu_switch (t_mmu s nxt) (t_mmu s cur) (kvm s) = Inr (kvm s')"
    "tmem s' = tmem s" "runqs s' = runqs s" "t_flags s' = t_flags s" "t_tid s' = t_tid s" "t_num_slices s' = t_num_slices s"
    "reschedule s' = reschedule s" "t_rsp_top s' = (t_rsp_top s)(cur := rsp r - 56)"
    "stack_mem s' = switch_frame ret r (stack_mem s)"
    "preempt_counts s' = (preempt_counts s)(this_cpu s := preempt_counts s (this_cpu s) - 1)"
    "cpu_regs s' (this_cpu s) = saved_regs (stack_mem s') (t_rsp_top s' nxt)"
    "cpu_rip s' (this_cpu s) = stack_mem s' (t_rsp_top s' nxt + 48)"
proof -
  obtain v where v: "mmu_switch (t_mmu s nxt) (t_mmu s cur) (kvm s) = Inr v"
    using assms(1) by (auto simp: switch_to_def push_frame Let_def obind_Inr cur_def simp del: push.simps)
  have self: "self_id v = self_id (kvm s)" using mmu_switch_self [OF v] by simp
  then show "this_cpu s' = this_cpu s" "current s' = nxt" "mmu_switch (t_mmu s nxt) (t_mmu s cur) (kvm s) = Inr (kvm s')"
    "tmem s' = tmem s" "runqs s' = runqs s" "t_flags s' = t_flags s" "t_tid s' = t_tid s" "t_num_slices s' = t_num_slices s"
    "reschedule s' = reschedule s" "t_rsp_top s' = (t_rsp_top s)(cur := rsp r - 56)"
    "stack_mem s' = switch_frame ret r (stack_mem s)"
    "preempt_counts s' = (preempt_counts s)(this_cpu s := preempt_counts s (this_cpu s) - 1)"
    "cpu_regs s' (this_cpu s) = saved_regs (stack_mem s') (t_rsp_top s' nxt)"
    "cpu_rip s' (this_cpu s) = stack_mem s' (t_rsp_top s' nxt + 48)"
    using assms(1) v
    by (auto simp: switch_to_def push_frame Let_def obind_Inr this_cpu_def current_def preempt_add_def preempt_dec_def
        saved_regs_def r_def cur_def simp del: push.simps)
qed

lemma switch_to_Inl: "switch_to ret nxt s = Inl e \<Longrightarrow> mmu_switch (t_mmu s nxt) (t_mmu s (current s)) (kvm s) = Inl e"
  by (cases "mmu_switch (t_mmu s nxt) (t_mmu s (current s)) (kvm s)")
    (auto simp: switch_to_def push_frame Let_def simp del: push.simps)

text \<open>The seven words of a saved context, and that another stack does not reach them.\<close>

definition context_words :: "u64 \<Rightarrow> u64 set" where
  "context_words sp = {sp, sp + 8, sp + 16, sp + 24, sp + 32, sp + 40, sp + 48}"

lemma switch_frame_other:
  "a \<notin> context_words (rsp r - 56) \<Longrightarrow> switch_frame ret r m a = m a"
  by (auto simp: context_words_def switch_frame_def)

lemma switch_loads:
  assumes "switch_to ret nxt s = Inr s'" and "nxt \<noteq> current s"
    and "context_words (t_rsp_top s nxt) \<inter> context_words (rsp (cpu_regs s (this_cpu s)) - 56) = {}"
  shows "cpu_regs s' (this_cpu s) = saved_regs (stack_mem s) (t_rsp_top s nxt) \<and>
    cpu_rip s' (this_cpu s) = stack_mem s (t_rsp_top s nxt + 48)"
proof -
  note S = switch_to_Inr [OF assms(1)]
  have top: "t_rsp_top s' nxt = t_rsp_top s nxt" using S(10) assms(2) by simp
  have "stack_mem s' a = stack_mem s a" if "a \<in> context_words (t_rsp_top s nxt)" for a
    using that assms(3) unfolding S(11) by (intro switch_frame_other) auto
  then have "saved_regs (stack_mem s') (t_rsp_top s nxt) = saved_regs (stack_mem s) (t_rsp_top s nxt)"
    "stack_mem s' (t_rsp_top s nxt + 48) = stack_mem s (t_rsp_top s nxt + 48)"
    by (simp_all add: saved_regs_def context_words_def)
  then show ?thesis using S(13,14) top by simp
qed

text \<open>
  C7. A context switch can be undone: if a task is switched out and, on any processor and after any
  steps that leave its saved stack pointer and the seven words of its saved context alone, is
  switched in again from another task whose stack does not overlap, then the registers the
  calling convention protects, the stack pointer included, have the values they had at the
  first switch, and execution continues at the return address of that switch.
\<close>

theorem switch_to_restores:
  assumes "switch_to ret nxt s = Inr s1" and "switch_to ret' (current s) s2 = Inr s3"
    and "t_rsp_top s2 (current s) = t_rsp_top s1 (current s)"
    and "\<forall>a \<in> context_words (t_rsp_top s1 (current s)). stack_mem s2 a = stack_mem s1 a"
    and "current s2 \<noteq> current s"
    and "context_words (t_rsp_top s1 (current s)) \<inter> context_words (rsp (cpu_regs s2 (this_cpu s2)) - 56) = {}"
  shows "current s3 = current s \<and> cpu_regs s3 (this_cpu s2) = cpu_regs s (this_cpu s) \<and> cpu_rip s3 (this_cpu s2) = ret"
proof -
  let ?r = "cpu_regs s (this_cpu s)" and ?sp = "rsp (cpu_regs s (this_cpu s)) - 56"
  note S = switch_to_Inr [OF assms(1)]
  have top: "t_rsp_top s1 (current s) = ?sp" using S(10) by simp
  have "cpu_regs s3 (this_cpu s2) = saved_regs (stack_mem s2) ?sp \<and> cpu_rip s3 (this_cpu s2) = stack_mem s2 (?sp + 48)"
    using switch_loads [OF assms(2)] assms(3,5,6) top by simp
  moreover have "saved_regs (stack_mem s2) ?sp = saved_regs (stack_mem s1) ?sp" "stack_mem s2 (?sp + 48) = stack_mem s1 (?sp + 48)"
    using assms(4) top by (simp_all add: saved_regs_def context_words_def)
  ultimately show ?thesis
    using S(11) switch_frame_saved [of ret ?r "stack_mem s"] switch_to_Inr(2) [OF assms(2)] by simp
qed

section \<open>The scheduler\<close>

text \<open>The queues and the next task, after the running task has been put back.\<close>

definition abs_schedule :: "nat \<Rightarrow> u64 \<Rightarrow> u64 option \<Rightarrow> (u64 \<Rightarrow> u64) \<Rightarrow> u64 list list \<Rightarrow> u64 \<times> u64 list list" where
  "abs_schedule cpu idle_task running keys qs =
     abs_pick cpu idle_task (case running of None \<Rightarrow> qs | Some t \<Rightarrow> qs[cpu := enqueue keys t (qs ! cpu)])"

definition running_task :: "kernel \<Rightarrow> u64 option" where
  "running_task s = (if t_tid s (current s) = TID_IDLE then None else Some (current s))"

definition charged :: "kernel \<Rightarrow> u64 \<Rightarrow> u64" where
  "charged s = (vruntime (tmem s))(current s := vruntime (tmem s) (current s) + 1)"

lemma charge_fields [simp]:
  "this_cpu (charge s) = this_cpu s" "current (charge s) = current s" "t_tid (charge s) = t_tid s" "runqs (charge s) = runqs s"
  "vruntime (tmem (charge s)) = charged s" "task_st (tmem (charge s)) = task_st (tmem s)" "rb_nodes (tmem (charge s)) = rb_nodes (tmem s)"
  "t_mmu (charge s) = t_mmu s" "kvm (charge s) = kvm s" "t_flags (charge s) = t_flags s" "t_num_slices (charge s) = t_num_slices s"
  "reschedule (charge s) = (reschedule s)(this_cpu s := False)"
  "preempt_counts (charge s) = (preempt_counts s)(this_cpu s := preempt_counts s (this_cpu s) + 1)"
  by (simp_all add: charge_def preempt_add_def preempt_inc_def this_cpu_def current_def charged_def Let_def)

lemma current_not_queued: "sched_inv s qs \<Longrightarrow> current s \<notin> all_queued qs"
  by (auto simp: sched_inv_def ready_inv_def)

lemma charge_ready:
  assumes "sched_inv s qs"
  shows "ready_inv (charge s) qs"
proof -
  have R: "ready_inv s qs" using assms by (simp add: sched_inv_def)
  have "\<forall>a \<in> all_queued qs. rb_nodes (tmem (charge s)) a = rb_nodes (tmem s) a \<and> vruntime (tmem (charge s)) a = vruntime (tmem s) a"
    using current_not_queued [OF assms] by (auto simp: charged_def)
  then have "queues (tmem (charge s)) (runqs s) qs" by (rule queues_frame [OF ready_invD(1) [OF R]])
  then show ?thesis using R by (simp add: ready_inv_def)
qed

lemma put_back_ok:
  assumes I: "sched_inv s qs"
  defines "qs1 \<equiv> (case running_task s of None \<Rightarrow> qs | Some t \<Rightarrow> qs[this_cpu s := enqueue (charged s) t (qs ! this_cpu s)])"
  shows "\<exists>mem rqs. (if t_tid s (current s) \<noteq> TID_IDLE then sched_add (current s) (charge s) else Some (Inr (charge s)))
      = Some (Inr ((charge s)\<lparr>tmem := mem, runqs := rqs\<rparr>)) \<and> ready_inv ((charge s)\<lparr>tmem := mem, runqs := rqs\<rparr>) qs1 \<and>
    vruntime mem = charged s \<and> task_st mem = task_st (tmem s) \<and> map idle rqs = map idle (runqs s)"
proof (cases "t_tid s (current s) = TID_IDLE")
  case True
  have eq: "(charge s)\<lparr>tmem := tmem (charge s), runqs := runqs s\<rparr> = charge s" using kernel.surjective [of "charge s"] by simp
  show ?thesis using True eq charge_ready [OF I]
    by (intro exI [of _ "tmem (charge s)"] exI [of _ "runqs s"]) (simp only: eq, simp add: qs1_def running_task_def)
next
  case False
  then show ?thesis
    using sched_add_ok [OF charge_ready [OF I], of "current s"] I by (simp add: qs1_def running_task_def sched_inv_def)
qed

lemma schedule_chooses:
  assumes I: "sched_inv s qs"
    and p: "abs_schedule (this_cpu s) (idle (runqs s ! this_cpu s)) (running_task s) (charged s) qs = (nxt, qs')"
  shows "\<exists>mem rqs. schedule ret s = Some (switch_to ret nxt ((charge s)\<lparr>tmem := mem, runqs := rqs,
      t_flags := ((t_flags s)(current s := t_flags s (current s) AND NOT TASK_RUNNING))
        (nxt := (((t_flags s)(current s := t_flags s (current s) AND NOT TASK_RUNNING)) nxt OR TASK_RUNNING) AND NOT TASK_PREEMPTED)\<rparr>)) \<and>
    ready_inv ((charge s)\<lparr>tmem := mem, runqs := rqs\<rparr>) qs' \<and> vruntime mem = charged s \<and> nxt \<noteq> 0 \<and>
    task_st mem nxt = TASK_S_RUNNABLE \<and> (t_tid s nxt \<noteq> TID_IDLE \<longrightarrow> task_addr nxt \<and> nxt \<notin> all_queued qs' \<and> isolated mem nxt)"
proof -
  let ?s = "charge s"
  obtain mem rqs where a: "(if t_tid s (current s) \<noteq> TID_IDLE then sched_add (current s) ?s else Some (Inr ?s))
      = Some (Inr (?s\<lparr>tmem := mem, runqs := rqs\<rparr>))"
    "ready_inv (?s\<lparr>tmem := mem, runqs := rqs\<rparr>) (case running_task s of None \<Rightarrow> qs | Some t \<Rightarrow> qs[this_cpu s := enqueue (charged s) t (qs ! this_cpu s)])"
    "vruntime mem = charged s" "task_st mem = task_st (tmem s)" "map idle rqs = map idle (runqs s)"
    using put_back_ok [OF I] by (elim exE conjE) (rule that)
  have cpu: "this_cpu s < length (runqs s)" using I by (simp add: sched_inv_def ready_inv_def)
  have len: "length rqs = length (runqs s)" using a(5) map_eq_imp_length_eq by blast
  have "map idle rqs ! this_cpu s = map idle (runqs s) ! this_cpu s" using a(5) by simp
  then have idl: "idle (rqs ! this_cpu s) = idle (runqs s ! this_cpu s)" using cpu len by simp
  obtain mem' rqs' where b: "choose_next (?s\<lparr>tmem := mem, runqs := rqs\<rparr>) = Some (Inr (nxt, ?s\<lparr>tmem := mem', runqs := rqs'\<rparr>))"
    "ready_inv (?s\<lparr>tmem := mem', runqs := rqs'\<rparr>) qs'" "vruntime mem' = vruntime mem" "task_st mem' = task_st mem" "nxt \<noteq> 0"
    "task_st mem nxt = TASK_S_RUNNABLE" "t_tid s nxt \<noteq> TID_IDLE \<longrightarrow> task_addr nxt \<and> nxt \<notin> all_queued qs' \<and> isolated mem' nxt"
    using choose_next_ok [OF a(2), of nxt qs'] p idl by (auto simp: abs_schedule_def)
  have c: "current (?s\<lparr>tmem := mem', runqs := rqs'\<rparr>) = current s" by (simp add: current_def charge_def preempt_add_def this_cpu_def Let_def)
  have cur: "current s \<noteq> 0" using I by (simp add: sched_inv_def)
  have "schedule ret s = Some (switch_to ret nxt (?s\<lparr>tmem := mem', runqs := rqs',
      t_flags := ((t_flags s)(current s := t_flags s (current s) AND NOT TASK_RUNNING))
        (nxt := (((t_flags s)(current s := t_flags s (current s) AND NOT TASK_RUNNING)) nxt OR TASK_RUNNING) AND NOT TASK_PREEMPTED)\<rparr>))"
    unfolding schedule_def Let_def charge_fields a(1) rbind.simps b(1) prod.case
    using cur c b(4,6) by (simp add: set_flags_def)
  then show ?thesis using a(3) b by (intro exI [of _ mem'] exI [of _ rqs']) simp
qed

lemma flag_bits:
  "((x OR TASK_RUNNING) AND NOT TASK_PREEMPTED) AND TASK_RUNNING \<noteq> 0"
  "((x OR TASK_RUNNING) AND NOT TASK_PREEMPTED) AND TASK_PREEMPTED = 0" "(x AND NOT TASK_RUNNING) AND TASK_RUNNING = 0"
proof -
  have keep: "((x OR a) AND NOT b) AND a = a" if "a AND b = 0" for a b :: u64
    using that by (auto simp: bit_eq_iff bit_simps)
  have clr: "(y AND NOT b) AND b = 0" for y b :: u64 by (auto simp: bit_eq_iff bit_simps)
  have "TASK_RUNNING AND TASK_PREEMPTED = 0" "TASK_RUNNING \<noteq> 0" by (simp_all add: TASK_RUNNING_def TASK_PREEMPTED_def)
  then show "((x OR TASK_RUNNING) AND NOT TASK_PREEMPTED) AND TASK_RUNNING \<noteq> 0" by (simp add: keep)
  show "((x OR TASK_RUNNING) AND NOT TASK_PREEMPTED) AND TASK_PREEMPTED = 0" "(x AND NOT TASK_RUNNING) AND TASK_RUNNING = 0"
    by (rule clr)+
qed

text \<open>
  C6. The scheduler refines its abstract policy and keeps its invariant.  From a state in which every
  run queue is a red-black tree holding exactly its runnable tasks in order of virtual run time, one
  tick is charged to the running task, which (unless it is an idle task) goes back into the queue of its
  processor; the next task is the first of that queue, else the first task of the first other queue
  that has any, else the idle task.  The call ends; it fails only where switching the address
  space fails; otherwise the chosen task is current and marked as running and not preempted, the invariant
  holds of the new queues, the request to reschedule is cleared and the preemption count is as before.
  The count of used time slices of every task, though, is left as it was.
\<close>

theorem schedule_refines:
  assumes "sched_inv s qs"
    and "abs_schedule (this_cpu s) (idle (runqs s ! this_cpu s)) (running_task s) (charged s) qs = (nxt, qs')"
  shows "case schedule ret s of
      None \<Rightarrow> False
    | Some (Inl e) \<Rightarrow> mmu_switch (t_mmu s nxt) (t_mmu s (current s)) (kvm s) = Inl e
    | Some (Inr s') \<Rightarrow> sched_inv s' qs' \<and> current s' = nxt \<and> vruntime (tmem s') = charged s \<and>
        t_flags s' nxt AND TASK_RUNNING \<noteq> 0 \<and> t_flags s' nxt AND TASK_PREEMPTED = 0 \<and>
        (current s \<noteq> nxt \<longrightarrow> t_flags s' (current s) AND TASK_RUNNING = 0) \<and>
        \<not> reschedule s' (this_cpu s) \<and> preempt_counts s' = preempt_counts s \<and> t_num_slices s' = t_num_slices s"
proof -
  define fl where "fl = (t_flags s)(current s := t_flags s (current s) AND NOT TASK_RUNNING)"
  obtain mem rqs where c: "schedule ret s = Some (switch_to ret nxt ((charge s)\<lparr>tmem := mem, runqs := rqs,
      t_flags := fl(nxt := (fl nxt OR TASK_RUNNING) AND NOT TASK_PREEMPTED)\<rparr>))"
    "ready_inv ((charge s)\<lparr>tmem := mem, runqs := rqs\<rparr>) qs'" "vruntime mem = charged s" "nxt \<noteq> 0"
    "task_st mem nxt = TASK_S_RUNNABLE" "t_tid s nxt \<noteq> TID_IDLE \<longrightarrow> task_addr nxt \<and> nxt \<notin> all_queued qs' \<and> isolated mem nxt"
    using schedule_chooses [OF assms, of ret, folded fl_def] by (elim exE conjE) (rule that)
  let ?s = "(charge s)\<lparr>tmem := mem, runqs := rqs, t_flags := fl(nxt := (fl nxt OR TASK_RUNNING) AND NOT TASK_PREEMPTED)\<rparr>"
  have cur: "current ?s = current s" "this_cpu ?s = this_cpu s"
    using charge_fields(1,2) [of s] by (simp_all add: current_def this_cpu_def)
  show ?thesis
  proof (cases "switch_to ret nxt ?s")
    case (Inl e)
    have "mmu_switch (t_mmu s nxt) (t_mmu s (current s)) (kvm s) = Inl e"
      using switch_to_Inl [OF Inl] cur by simp
    then show ?thesis using c(1) Inl by simp
  next
    case (Inr s')
    note S = switch_to_Inr [OF Inr]
    have R: "ready_inv s' qs'" using c(2) S(1,4,5,7) cur by (simp add: ready_inv_def)
    have I: "sched_inv s' qs'" using R S(2,4,7) c(4,5,6) by (simp add: sched_inv_def)
    show ?thesis using c(1,3) Inr I S(2,4,6,8,9,12) cur by (simp add: flag_bits fl_def)
  qed
qed

text \<open>A machine with one processor, which idles while two tasks are queued.\<close>

definition ex_kernel :: "task_mem \<Rightarrow> runq \<Rightarrow> kernel" where
  "ex_kernel mem rq = \<lparr>kvm = answering, tmem = mem, runqs = [rq], t_flags = (\<lambda>t. 0), t_tid = (\<lambda>t. if t = 128 then TID_IDLE else 7),
     t_tgid = (\<lambda>t. 7), t_mmu = (\<lambda>t. Kernel_mmu), t_rsp_top = (\<lambda>t. 0x10000 * t), t_rsp_original = (\<lambda>t. 0x10000 * t + 0x1000),
     t_affinity = (\<lambda>t. 0), t_num_slices = (\<lambda>t. 0), next_tid = 7, current_task = (\<lambda>c. 128), preempt_counts = (\<lambda>c. 0),
     reschedule = (\<lambda>c. True), tss_rsp0 = (\<lambda>c. 0), cpu_regs = (\<lambda>c. \<lparr>rsp = 0x800800, rbp = 1, rbx = 2, r12 = 3, r13 = 4, r14 = 5, r15 = 6\<rparr>),
     cpu_rip = (\<lambda>c. 0), stack_mem = (\<lambda>a. 0), schedulers_waiting = 0\<rparr>"

lemma ex_kernel_cpu [simp]: "this_cpu (ex_kernel mem rq) = 0" "current (ex_kernel mem rq) = 128"
  by (simp_all add: ex_kernel_def this_cpu_def current_def answering_def two_cpus_def ex_vm_def)

lemma ex_kernel_inv:
  assumes "queued mem rq xs" "task_st mem = task_st ex_mem" "idle rq = 128" "128 \<notin> set xs" "64 \<notin> set xs"
  shows "sched_inv (ex_kernel mem rq) [xs]"
proof -
  have "\<forall>t \<in> insert 128 (set xs). task_st mem t = TASK_S_RUNNABLE" using assms(2,5) by (auto simp: ex_mem_def)
  then have "ready_inv (ex_kernel mem rq) [xs]"
    using assms unfolding ready_inv_def ex_kernel_cpu
    by (auto simp: ex_kernel_def queues_def all_queued_def TID_IDLE_def)
  then show ?thesis by (simp add: sched_inv_def) (simp add: ex_kernel_def)
qed

theorem schedule_refines_witness:
  "\<exists>mem rq s'. two_tasks = Some (mem, rq) \<and> schedule 0xFF (ex_kernel mem rq) = Some (Inr s') \<and> sched_inv s' [[16]] \<and>
     current s' = 32 \<and> \<not> reschedule s' 0 \<and> preempt_counts s' 0 = 0"
proof -
  obtain mem rq where q: "two_tasks = Some (mem, rq)" "queued mem rq [32, 16]" "task_st mem = task_st ex_mem" "idle rq = 128"
    using two_tasks_queued by blast
  let ?s = "ex_kernel mem rq"
  have I: "sched_inv ?s [[32, 16]]" using q by (intro ex_kernel_inv) auto
  have "running_task ?s = None" by (simp add: running_task_def) (simp add: ex_kernel_def)
  then have p: "abs_schedule (this_cpu ?s) (idle (runqs ?s ! this_cpu ?s)) (running_task ?s) (charged ?s) [[32, 16]] = (32, [[16]])"
    by (simp add: abs_schedule_def abs_pick_def)
  have "mmu_switch (t_mmu ?s 32) (t_mmu ?s 128) (kvm ?s) = Inr (kvm ?s)" by (simp add: mmu_switch_def ex_kernel_def)
  moreover have "preempt_counts ?s 0 = 0" by (simp add: ex_kernel_def)
  ultimately have "\<exists>s'. schedule 0xFF ?s = Some (Inr s') \<and> sched_inv s' [[16]] \<and> current s' = 32 \<and> \<not> reschedule s' 0 \<and> preempt_counts s' 0 = 0"
    using schedule_refines [OF I p, of "0xFF"] by (auto split: option.splits sum.splits)
  then show ?thesis using q(1) by blast
qed

theorem switch_to_restores_witness:
  "\<exists>s1 s3. switch_to 0xFF 16 (ex_kernel ex_mem ex_rq) = Inr s1 \<and> switch_to 0xEE 128 s1 = Inr s3 \<and>
     cpu_regs s3 0 = cpu_regs (ex_kernel ex_mem ex_rq) 0 \<and> cpu_rip s3 0 = 0xFF"
proof -
  let ?s = "ex_kernel ex_mem ex_rq"
  have k: "mmu_switch (t_mmu ?s a) (t_mmu ?s b) (kvm ?s) = Inr (kvm ?s)" for a b by (simp add: mmu_switch_def ex_kernel_def)
  obtain s1 where s1: "switch_to 0xFF 16 ?s = Inr s1"
    using k by (simp add: switch_to_def push_frame Let_def preempt_add_def del: push.simps)
  note S = switch_to_Inr [OF s1]
  have m: "mmu_switch (t_mmu s1 128) (t_mmu s1 (current s1)) (kvm s1) = Inr (kvm s1)"
    using s1 k by (auto simp: switch_to_def push_frame Let_def preempt_add_def ex_kernel_def mmu_switch_def simp del: push.simps)
  obtain s3 where s3: "switch_to 0xEE 128 s1 = Inr s3"
    using m by (simp add: switch_to_def push_frame Let_def preempt_add_def del: push.simps)
  have top: "t_rsp_top ?s 16 = 0x100000" "rsp (cpu_regs ?s 0) = 0x800800" by (simp_all add: ex_kernel_def)
  have top1: "t_rsp_top s1 128 = 0x8007C8" "t_rsp_top s1 16 = 0x100000" using S(10) top by (simp_all)
  have r: "rsp (cpu_regs s1 (this_cpu s1)) = 0x100038" using S(1,13) top1 by (simp add: saved_regs_def)
  have "current s3 = 128 \<and> cpu_regs s3 (this_cpu s1) = cpu_regs ?s 0 \<and> cpu_rip s3 (this_cpu s1) = 0xFF"
    using switch_to_restores [OF s1, of "0xEE" s1 s3] s3 S(2) top1 r by (simp add: context_words_def)
  then show ?thesis using s1 s3 S(1) by simp
qed

section \<open>Tasks\<close>

text \<open>The words \<^verbatim>\<open>task_fork\<close> leaves above the saved registers and the return address, lowest first.\<close>

definition start_frame :: "bool \<Rightarrow> u64 \<Rightarrow> u64 \<Rightarrow> callee_regs \<Rightarrow> u64 list" where
  "start_frame kthread rfl start r = (if kthread then [rbx r, start] else [start, 0x2B, rfl OR 0x200, rsp r, 0x23])"

definition fork_regs :: "callee_regs option \<Rightarrow> callee_regs" where
  "fork_regs regs = (case regs of None \<Rightarrow> default_regs | Some r \<Rightarrow> r)"

text \<open>The words of a stack, upwards from \<open>sp\<close>.\<close>

definition stack_words :: "(u64 \<Rightarrow> u64) \<Rightarrow> u64 \<Rightarrow> nat \<Rightarrow> u64 list" where
  "stack_words m sp n = map (\<lambda>i. m (sp + 8 * of_nat i)) [0..<n]"

lemma stack_words_saved:
  "stack_words m sp 7 = [r15 r, r14 r, r13 r, r12 r, rbp r, rbx r, ret] \<Longrightarrow>
     saved_regs m sp = r\<lparr>rsp := sp + 56\<rparr> \<and> m (sp + 48) = ret"
  by (simp add: stack_words_def saved_regs_def upt_rec)

definition fork_words :: "labels \<Rightarrow> bool \<Rightarrow> u64 \<Rightarrow> u64 \<Rightarrow> callee_regs \<Rightarrow> u64 list" where
  "fork_words lbl kthread rfl start r = [r15 r, r14 r, r13 r, r12 r, rbp r, rbx r,
     if kthread then ret_from_kfork lbl else ret_from_ufork lbl] @ start_frame kthread rfl start r"

lemma kthread_words:
  "push_regs r (kthread_frame lbl start r (k, m)) = (sp, m') \<Longrightarrow>
     sp + 72 = k \<and> stack_words m' sp 9 = fork_words lbl True rfl start r"
  by (auto simp: push_regs_def kthread_frame_def stack_words_def fork_words_def start_frame_def upt_rec)

lemma user_words:
  "push_regs r (user_frame lbl rfl start r (k, m)) = (sp, m') \<Longrightarrow>
     sp + 96 = k \<and> stack_words m' sp 12 = fork_words lbl False rfl start r"
  by (auto simp: push_regs_def user_frame_def stack_words_def fork_words_def start_frame_def upt_rec)

lemma fork_alloc_Inr:
  assumes "fork_alloc parent s = Some (Inr (t, kstack, s1))"
  shows "t_tid s1 t = next_tid s + 1 \<and> next_tid s1 = next_tid s + 1 \<and> vruntime (tmem s1) t = 0 \<and> isolated (tmem s1) t \<and>
    t_rsp_original s1 t = kstack \<and> (\<exists>pg. kstack = TASK_KSTACK_SIZE + page_to_virt pg)"
  using assms by (auto simp: fork_alloc_def rbind_Inr obind_Inr Let_def clear_task_def isolated_def split: if_splits)

lemma fork_mmu_keeps:
  "fork_mmu fl parent t s = Some (Inr s1) \<Longrightarrow> t_tid s1 = t_tid s \<and> next_tid s1 = next_tid s \<and> tmem s1 = tmem s \<and>
     t_rsp_original s1 = t_rsp_original s \<and> stack_mem s1 = stack_mem s"
  by (auto simp: fork_mmu_def rbind_Inr obind_Inr split: if_splits)

lemma fork_frame_Inr:
  assumes "fork_frame lbl rfl parent start fl regs t kstack s = Some (Inr (r, st, s1))"
    and "push_regs r st = (sp, m)"
  defines "k \<equiv> fl AND FORK_KTHREAD \<noteq> 0"
  shows "r = fork_regs regs \<and> t_tid s1 = t_tid s \<and> next_tid s1 = next_tid s \<and> tmem s1 = tmem s \<and> t_rsp_original s1 = t_rsp_original s \<and>
    sp + 8 * of_nat (length (fork_words lbl k rfl start r)) = kstack \<and>
    stack_words m sp (length (fork_words lbl k rfl start r)) = fork_words lbl k rfl start r"
proof (cases k)
  case True
  then have "r = fork_regs regs" "st = kthread_frame lbl start r (kstack, stack_mem s)"
    "t_tid s1 = t_tid s \<and> next_tid s1 = next_tid s \<and> tmem s1 = tmem s \<and> t_rsp_original s1 = t_rsp_original s"
    using assms(1) by (auto simp: fork_frame_def k_def fork_regs_def Let_def)
  then show ?thesis using kthread_words [of r lbl start kstack "stack_mem s" sp m rfl] assms(2) True
    by (simp add: fork_words_def start_frame_def numeral_eq_Suc)
next
  case False
  then have "r = fork_regs regs" "st = user_frame lbl rfl start r (kstack, stack_mem s)"
    "t_tid s1 = t_tid s \<and> next_tid s1 = next_tid s \<and> tmem s1 = tmem s \<and> t_rsp_original s1 = t_rsp_original s"
    using assms(1) by (auto simp: fork_frame_def k_def fork_regs_def rbind_Inr dest!: fork_mmu_keeps split: option.splits)
  then show ?thesis using user_words [of r lbl rfl start kstack "stack_mem s" sp m] assms(2) False
    by (simp add: fork_words_def start_frame_def numeral_eq_Suc)
qed

lemma task_fork_Inr:
  assumes "task_fork lbl rfl p start fl regs s = Some (Inr (t, s'))"
  defines "ws \<equiv> fork_words lbl (fl AND FORK_KTHREAD \<noteq> 0) rfl start (fork_regs regs)"
  shows "t_tid s' t = next_tid s + 1 \<and> next_tid s' = next_tid s + 1 \<and> vruntime (tmem s') t = 0 \<and> isolated (tmem s') t \<and>
    task_st (tmem s') t = TASK_S_NOT_STARTED \<and> t_rsp_top s' t + 8 * of_nat (length ws) = t_rsp_original s' t \<and>
    stack_words (stack_mem s') (t_rsp_top s' t) (length ws) = ws"
proof -
  obtain pp kstack s1 r st s2 where a: "fork_alloc pp s = Some (Inr (t, kstack, s1))"
    and f: "fork_frame lbl rfl pp start fl regs t kstack s1 = Some (Inr (r, st, s2))" and s': "s' = fork_finish pp t r st s2"
    using assms(1) unfolding task_fork_def Let_def by (clarsimp simp: rbind_Inr split: if_split_asm)
  obtain sp m where p: "push_regs r st = (sp, m)" by (cases "push_regs r st")
  show ?thesis using fork_alloc_Inr [OF a] fork_frame_Inr [OF f p] p s'
    by (auto simp: fork_finish_def set_state_def isolated_def ws_def)
qed

lemma stack_words_length: "length (stack_words m sp n) = n"
  by (simp add: stack_words_def)

lemma stack_words_append:
  "stack_words m sp (a + b) = stack_words m sp a @ stack_words m (sp + 8 * of_nat a) b"
proof -
  have "[0..<a + b] = [0..<a] @ map (\<lambda>i. i + a) [0..<b]" using upt_add_eq_append [of 0 a b] by (simp add: map_add_upt add.commute)
  then show ?thesis by (simp add: stack_words_def distrib_left ac_simps)
qed

lemma stack_words_frame:
  "\<forall>i < n. sp + 8 * of_nat i \<notin> context_words (rsp r - 56) \<Longrightarrow> stack_words (switch_frame ret r m) sp n = stack_words m sp n"
  by (simp add: stack_words_def switch_frame_other)

lemma fork_words_split:
  assumes "stack_words m sp (length (fork_words lbl k rfl start r)) = fork_words lbl k rfl start r"
  shows "saved_regs m sp = r\<lparr>rsp := sp + 56\<rparr> \<and> m (sp + 48) = (if k then ret_from_kfork lbl else ret_from_ufork lbl) \<and>
    stack_words m (sp + 56) (length (start_frame k rfl start r)) = start_frame k rfl start r"
proof -
  let ?ret = "if k then ret_from_kfork lbl else ret_from_ufork lbl" and ?fr = "start_frame k rfl start r"
  have len: "length (fork_words lbl k rfl start r) = 7 + length ?fr" by (simp add: fork_words_def)
  have "stack_words m sp 7 @ stack_words m (sp + 8 * of_nat 7) (length ?fr) =
    [r15 r, r14 r, r13 r, r12 r, rbp r, rbx r, ?ret] @ ?fr"
    using assms unfolding len stack_words_append by (simp only: fork_words_def)
  then have w: "stack_words m sp 7 = [r15 r, r14 r, r13 r, r12 r, rbp r, rbx r, ?ret]"
    "stack_words m (sp + 8 * of_nat 7) (length ?fr) = ?fr"
    by (subst (asm) append_eq_append_conv, simp add: stack_words_length, blast)+
  then show ?thesis using stack_words_saved [OF w(1)] by simp
qed

text \<open>
  C8. A forked task starts where the fork says.  When \<^verbatim>\<open>task_fork\<close> returns a task, it has the next number, a
  virtual run time of 0 and is not started.  Once it is switched to, with its stack as the fork
  left it, the processor has the registers given to the fork and returns to the stub for a kernel
  thread, which finds the argument and the entry point on the stack, or to the stub for a user
  task, which finds a frame for iretq with the entry point, the user stack and the user
  segments; above these the stack is empty.
\<close>

theorem task_fork_starts:
  assumes "task_fork lbl rfl p start fl regs s = Some (Inr (t, s'))" and "switch_to ret t s2 = Inr s3"
    and "current s2 \<noteq> t" and "t_rsp_top s2 t = t_rsp_top s' t"
    and "stack_words (stack_mem s2) (t_rsp_top s' t) (if fl AND FORK_KTHREAD \<noteq> 0 then 9 else 12) =
      stack_words (stack_mem s') (t_rsp_top s' t) (if fl AND FORK_KTHREAD \<noteq> 0 then 9 else 12)"
    and "\<forall>i < (if fl AND FORK_KTHREAD \<noteq> 0 then 9 else 12).
      t_rsp_top s' t + 8 * of_nat i \<notin> context_words (rsp (cpu_regs s2 (this_cpu s2)) - 56)"
  shows "let k = (fl AND FORK_KTHREAD \<noteq> 0); r = fork_regs regs; sp = t_rsp_top s' t + 56; frame = start_frame k rfl start r in
    t_tid s' t = next_tid s + 1 \<and> vruntime (tmem s') t = 0 \<and> task_st (tmem s') t = TASK_S_NOT_STARTED \<and>
    current s3 = t \<and> cpu_regs s3 (this_cpu s2) = r\<lparr>rsp := sp\<rparr> \<and>
    cpu_rip s3 (this_cpu s2) = (if k then ret_from_kfork lbl else ret_from_ufork lbl) \<and>
    stack_words (stack_mem s3) sp (length frame) = frame \<and> sp + 8 * of_nat (length frame) = t_rsp_original s' t"
proof -
  let ?k = "fl AND FORK_KTHREAD \<noteq> 0" and ?r = "fork_regs regs" and ?top = "t_rsp_top s' t"
  let ?ws = "fork_words lbl ?k rfl start ?r"
  note F = task_fork_Inr [OF assms(1)] and S = switch_to_Inr [OF assms(2)]
  have n: "length ?ws = (if ?k then 9 else 12)" by (simp add: fork_words_def start_frame_def)
  have l: "length ?ws = 7 + length (start_frame ?k rfl start ?r)" by (simp add: fork_words_def)
  have "stack_words (stack_mem s3) ?top (length ?ws) = stack_words (stack_mem s2) ?top (length ?ws)"
    unfolding S(11) n using assms(6) by (rule stack_words_frame)
  then have "stack_words (stack_mem s3) ?top (length ?ws) = ?ws" using F assms(5) unfolding n by simp
  then have "saved_regs (stack_mem s3) ?top = ?r\<lparr>rsp := ?top + 56\<rparr> \<and>
    stack_mem s3 (?top + 48) = (if ?k then ret_from_kfork lbl else ret_from_ufork lbl) \<and>
    stack_words (stack_mem s3) (?top + 56) (length (start_frame ?k rfl start ?r)) = start_frame ?k rfl start ?r"
    by (rule fork_words_split)
  moreover have "t_rsp_top s3 t = ?top" using S(10) assms(3,4) by simp
  moreover have "?top + 56 + 8 * of_nat (length (start_frame ?k rfl start ?r)) = t_rsp_original s' t"
    using F unfolding l by (simp add: distrib_left add.assoc)
  ultimately show ?thesis using F S(2,13,14) unfolding Let_def by simp
qed

text \<open>The same machine with memory: a free block of 255 units in the heap, and the pages of \<^const>\<open>small_boot\<close>.\<close>

definition fork_kernel :: "pmm \<Rightarrow> kernel" where
  "fork_kernel st = (ex_kernel ex_mem ex_rq)\<lparr>kvm := answering\<lparr>heap :=
     \<lparr>heap_words = (\<lambda>a. 0)(0x900008 := 255), slob_head = 0x900000, slob_pmm = st\<rparr>\<rparr>\<rparr>"

definition ex_labels :: labels where "ex_labels = \<lparr>ret_from_kfork = 0xF00, ret_from_ufork = 0xF80\<rparr>"

lemma fork_kernel_cpu [simp]: "this_cpu (fork_kernel st) = 0" "current (fork_kernel st) = 128"
  by (simp_all add: fork_kernel_def ex_kernel_def this_cpu_def current_def answering_def two_cpus_def ex_vm_def)

lemma fork_kernel_alloc:
  "\<exists>st s1. small_boot = Inr st \<and> fork_alloc 128 (fork_kernel st) = Some (Inr (0x900058, 0xFFFF800000104000, s1)) \<and>
     t_mmu s1 = (\<lambda>t. Kernel_mmu) \<and> this_cpu s1 = 0 \<and> current s1 = 128 \<and> cpu_regs s1 = cpu_regs (fork_kernel st)"
proof -
  obtain st st' where st: "small_boot = Inr st" "pmm_alloc_order st 1 0 = Inr (Some 258, st')"
    using fresh_pair by blast
  let ?h = "heap (kvm (fork_kernel st))"
  have h: "?h = \<lparr>heap_words = (\<lambda>a. 0)(0x900008 := 255), slob_head = 0x900000, slob_pmm = st\<rparr>" by (simp add: fork_kernel_def)
  have "slob_search ?h 7 0 0x900000 = Some (Larger 0 0x900000)" by (simp add: h slob_search.simps blk_units_def)
  then have "slob_alloc_loop ?h 7 = Some (Inr (0x900010, take_larger ?h 7 0 0x900000))"
    by (subst slob_alloc_loop.simps) (simp add: h UNIT_def)
  moreover have "DIV_ROUND_UP sizeof_task UNIT = 7" "sizeof_task < BIGALLOC"
    by (simp_all add: DIV_ROUND_UP_def sizeof_task_def UNIT_def BIGALLOC_def PAGE_SIZE_def)
  ultimately have "kmalloc ?h sizeof_task = Some (Inr (0x900010, poison (take_larger ?h 7 0 0x900000) 0x900010 sizeof_task))"
    by (simp add: kmalloc_def slob_alloc_def)
  moreover have "slob_pmm (poison (take_larger ?h 7 0 0x900000) 0x900010 sizeof_task) = st"
    by (simp add: h poison_def take_larger_def set_blk_units_def set_blk_next_def Let_def)
  moreover have "TASK_KSTACK_SIZE + page_to_virt (Some 258) = 0xFFFF800000104000"
    by (simp add: TASK_KSTACK_SIZE_def TASK_KSTACK_PAGES_def TASK_KSTACK_ORDER_def page_to_virt_def page_to_phys_def
        phys_to_virt_def PAGE_SIZE_def KERNEL_LOGICAL_BASE_def)
  moreover have "t_mmu (fork_kernel st) = (\<lambda>t. Kernel_mmu)" by (simp add: fork_kernel_def ex_kernel_def)
  moreover have "self_id (kvm (fork_kernel st)) = 0" using fork_kernel_cpu(1) by (simp add: this_cpu_def)
  moreover have "current_task (fork_kernel st) 0 = 128" by (simp add: fork_kernel_def ex_kernel_def)
  ultimately show ?thesis using st
    by (intro exI [of _ st]) (simp add: fork_alloc_def clear_task_def Let_def sched_offset_def TASK_KSTACK_ORDER_def set_pmm_def current_def this_cpu_def)
qed

theorem task_fork_starts_witness:
  "\<exists>st t s' s3. small_boot = Inr st \<and> task_fork ex_labels 2 0 0xABC FORK_KTHREAD None (fork_kernel st) = Some (Inr (t, s')) \<and>
     switch_to 0xFF t s' = Inr s3 \<and> cpu_rip s3 0 = 0xF00 \<and> stack_mem s3 (rsp (cpu_regs s3 0) + 8) = 0xABC"
proof -
  obtain st s1 where a: "small_boot = Inr st" "fork_alloc 128 (fork_kernel st) = Some (Inr (0x900058, 0xFFFF800000104000, s1))"
    "t_mmu s1 = (\<lambda>t. Kernel_mmu)" "this_cpu s1 = 0" "current s1 = 128" "cpu_regs s1 = cpu_regs (fork_kernel st)"
    using fork_kernel_alloc by blast
  have K: "FORK_KTHREAD AND FORK_UTHREAD = 0" "FORK_KTHREAD AND FORK_KTHREAD \<noteq> 0" by (simp_all add: FORK_KTHREAD_def FORK_UTHREAD_def)
  obtain s' where f: "task_fork ex_labels 2 0 0xABC FORK_KTHREAD None (fork_kernel st) = Some (Inr (0x900058, s'))"
    "t_mmu s' = (\<lambda>t. Kernel_mmu)" "this_cpu s' = 0" "current s' = 128" "t_rsp_top s' 0x900058 = 0xFFFF800000103FB8"
    "rsp (cpu_regs s' 0) = 0x800800"
    using a K by (simp add: task_fork_def fork_frame_def fork_finish_def kthread_frame_def push_regs_def set_state_def)
      (simp add: current_def this_cpu_def fork_kernel_def ex_kernel_def fun_upd_def)
  have "mmu_switch (t_mmu s' 0x900058) (t_mmu s' (current s')) (kvm s') = Inr (kvm s')" using f(2) by (simp add: mmu_switch_def)
  then obtain s3 where s3: "switch_to 0xFF 0x900058 s' = Inr s3"
    by (simp add: switch_to_def push_frame Let_def preempt_add_def del: push.simps)
  have "\<forall>i \<in> set [0..<9]. 0xFFFF800000103FB8 + 8 * of_nat i \<notin> context_words (0x800800 - 56)"
    by (simp add: context_words_def upt_rec)
  then have d: "\<forall>i < 9. 0xFFFF800000103FB8 + 8 * of_nat i \<notin> context_words (0x800800 - 56)" by (simp only: set_upt) auto
  have "cpu_rip s3 0 = 0xF00 \<and> stack_mem s3 (rsp (cpu_regs s3 0) + 8) = 0xABC"
    using task_fork_starts [OF f(1) s3] f(3-6) K d
    by (simp add: Let_def start_frame_def stack_words_def upt_rec ex_labels_def)
  then show ?thesis using a(1) f(1) s3 by blast
qed

text \<open>
  \<^verbatim>\<open>task_wakeup\<close> of a task that is not runnable makes it runnable and puts it into the queue of this
  processor, behind exactly the tasks whose virtual run time is not larger.  It keeps its old virtual run time: the
  state is set before \<^verbatim>\<open>runq_add\<close> reads it, so the rule that a task which has not run for a while
  starts at the smallest virtual run time never applies, and a task with a smaller value than
  all queued ones (a new task has 0) goes ahead of them all.
\<close>

lemma task_wakeup_keeps_vruntime:
  assumes "ready_inv s qs" and "task_addr t" and "t \<notin> all_queued qs" and "t_tid s t \<noteq> TID_IDLE"
    and "task_st (tmem s) t \<noteq> TASK_S_RUNNABLE"
  shows "\<exists>s'. task_wakeup t s = Some (Inr s') \<and> task_st (tmem s') t = TASK_S_RUNNABLE \<and> vruntime (tmem s') = vruntime (tmem s) \<and>
    ready_inv s' (qs[this_cpu s := enqueue (vruntime (tmem s)) t (qs ! this_cpu s)]) \<and>
    ((\<forall>x \<in> set (qs ! this_cpu s). vruntime (tmem s) t < vruntime (tmem s) x) \<longrightarrow>
       ready_inv s' (qs[this_cpu s := t # qs ! this_cpu s]))"
proof -
  let ?s = "set_state t TASK_S_RUNNABLE s"
  have keep: "this_cpu ?s = this_cpu s" "vruntime (tmem ?s) = vruntime (tmem s)" "rb_nodes (tmem ?s) = rb_nodes (tmem s)"
    "runqs ?s = runqs s" "t_tid ?s = t_tid s" "task_st (tmem ?s) = (task_st (tmem s))(t := TASK_S_RUNNABLE)"
    by (simp_all add: set_state_def this_cpu_def)
  have "queues (tmem ?s) (runqs s) qs" using keep by (intro queues_frame [OF ready_invD(1) [OF assms(1)]]) simp
  then have "ready_inv ?s qs" using assms(1) unfolding ready_inv_def keep by simp
  from sched_add_ok [OF this, of t] assms(2-4) have
    "\<exists>s'. sched_add t ?s = Some (Inr s') \<and> task_st (tmem s') = task_st (tmem ?s) \<and> vruntime (tmem s') = vruntime (tmem s) \<and>
      ready_inv s' (qs[this_cpu s := enqueue (vruntime (tmem s)) t (qs ! this_cpu s)])"
    unfolding keep by auto
  moreover have "enqueue (vruntime (tmem s)) t xs = t # xs" if "\<forall>x \<in> set xs. vruntime (tmem s) t < vruntime (tmem s) x" for xs
    using that by (cases xs) (auto simp: enqueue_def)
  ultimately show ?thesis using assms(5) keep(6) by (fastforce simp: task_wakeup_def)
qed

lemma task_wakeup_keeps_vruntime_example:
  "\<exists>mem rq s'. two_tasks = Some (mem, rq) \<and> task_wakeup 64 (ex_kernel mem rq) = Some (Inr s') \<and>
     vruntime (tmem s') 64 = 0 \<and> ready_inv s' [[64, 32, 16]]"
proof -
  obtain mem rq where q: "two_tasks = Some (mem, rq)" "queued mem rq [32, 16]" "task_st mem = task_st ex_mem" "idle rq = 128"
    "vruntime mem = vruntime ex_mem" using two_tasks_queued by blast
  have R: "ready_inv (ex_kernel mem rq) [[32, 16]]" using q ex_kernel_inv [of mem rq "[32, 16]"] by (auto simp: sched_inv_def)
  have "task_addr 64" "64 \<notin> all_queued [[32, 16]]" by (simp_all add: task_addr_def aligned_def all_queued_def)
  moreover have "t_tid (ex_kernel mem rq) 64 \<noteq> TID_IDLE" "tmem (ex_kernel mem rq) = mem" by (simp_all add: ex_kernel_def TID_IDLE_def)
  ultimately have "\<exists>s'. task_wakeup 64 (ex_kernel mem rq) = Some (Inr s') \<and> vruntime (tmem s') 64 = 0 \<and> ready_inv s' [[64, 32, 16]]"
    using task_wakeup_keeps_vruntime [OF R, of 64] q(3,5) by (auto simp: ex_mem_def)
  then show ?thesis using q(1) by blast
qed

text \<open>Erasing a node that is in no tree.\<close>

lemma rb_erase_isolated:
  assumes "t \<noteq> 0" "left_ptr (nodes tree t) = 0" "right_ptr (nodes tree t) = 0" "parent_color (nodes tree t) AND RB_PARENT_MASK = 0"
  shows "\<exists>tree'. rb_erase tree t = Some tree' \<and> root tree' = 0 \<and> most_left tree' = (if t = most_left tree then 0 else most_left tree)"
proof -
  have nx: "rb_next tree t = Some 0"
    using assms by (simp add: rb_next_def get_right_def rb_next_up.simps rb_parent_def deref_def)
  have un: "erase_unlink (tree\<lparr>most_left := m\<rparr>) t = Some (tree\<lparr>most_left := m, root := 0\<rparr>, 0, 0, False, rb_color tree t)" for m
    using assms by (simp add: erase_unlink_def erase_victim_def get_left_def get_right_def splice_out_def rb_parent_def deref_def rb_color_def)
  have "erase_rebalance tr 0 0 False = Some tr" if "root tr = 0" for tr
    using that by (simp add: erase_rebalance_def erase_rebalance_loop.simps)
  then show ?thesis
    using assms(1) nx un [of 0] un [of "most_left tree"]
    by (cases "most_left tree = t") (simp_all add: eq_commute [of t "most_left tree"] rb_erase_def set_left_def set_right_def rb_set_parent_def update_node_def)
qed

lemma tree_remove_lost:
  assumes "isolated mem t" "t \<noteq> 0"
  shows "\<exists>mem' rq'. tree_remove mem rq t = Some (mem', rq') \<and> rq_root rq' = 0 \<and> num_threads rq' = num_threads rq - 1 \<and>
    idle rq' = idle rq \<and> rq_most_left rq' = (if t = rq_most_left rq then 0 else rq_most_left rq) \<and>
    vruntime mem' = vruntime mem \<and> task_st mem' = task_st mem"
  using rb_erase_isolated [of t "rq_tree mem rq"] assms
  by (auto simp: isolated_def tree_remove_def put_tree_def rq_tree_def)

text \<open>Inserting into a tree without a root and without a first node.\<close>

lemma tree_insert_lost:
  assumes "rq_root rq = 0" "rq_most_left rq = 0" "t \<noteq> 0"
  shows "\<exists>mem' rq'. tree_insert mem rq t = Some (mem', rq') \<and> rq_most_left rq' = t \<and> isolated mem' t \<and> task_st mem' = task_st mem"
proof -
  have f: "find_link \<lparr>nodes = rb_nodes mem, root = 0, most_left = 0\<rparr> key k 0 Root_link = Some (0, Root_link)" for key k
    by (simp add: find_link.simps)
  have mask: "(w AND RB_COLOR_MASK) AND RB_PARENT_MASK = 0" "(w AND RB_COLOR_MASK OR 1) AND RB_PARENT_MASK = 0"
    "(w AND RB_COLOR_MASK) AND NOT 1 = 0" "1 AND RB_PARENT_MASK = 0" for w :: u64
    unfolding RB_COLOR_MASK_def RB_PARENT_MASK_def by (rule bit_word_eqI, auto simp: bit_simps)+
  show ?thesis using assms mask
    by (simp add: tree_insert_def rq_tree_def f rb_first_cached_def rb_link_node_def rb_set_parent_def rb_set_color_def update_node_def
        set_left_def set_right_def rb_insert_def rb_insert_loop.simps rb_parent_def deref_def insert_case1_def get_left_def
        put_tree_def isolated_def rb_color_def RB_RED_def RB_BLACK_def)
qed

text \<open>What freeing and building an address space leaves alone.\<close>

definition same_areas :: "vm \<Rightarrow> vm \<Rightarrow> bool" where
  "same_areas s s' \<longleftrightarrow> self_id s' = self_id s \<and> (\<forall>m. areas (mmus s' m) = areas (mmus s m))"

lemma same_areas_refl [simp]: "same_areas s s"
  by (simp add: same_areas_def)

lemma same_areas_trans: "same_areas s s1 \<Longrightarrow> same_areas s1 s2 \<Longrightarrow> same_areas s s2"
  by (simp add: same_areas_def)

lemma same_areas_upd [simp]:
  "same_areas s (set_entry t i e s)" "same_areas s (set_pmm st s)" "same_areas s (set_refcount p v s)" "same_areas s (write_cr3 c s)"
  "same_areas s (copy_frame d f s)" "same_areas s (clear_frame f s)" "same_areas s (tlb_flush_single va s)"
  "same_areas s (set_mmu m ((mmus s m)\<lparr>users := u\<rparr>) s)" "same_areas s (set_mmu m ((mmus s m)\<lparr>p4 := pp\<rparr>) s)"
  "same_areas s (set_mmu m ((mmus s m)\<lparr>cpus := cs\<rparr>) s)"
  by (simp_all add: same_areas_def set_entry_def set_pmm_def set_refcount_def write_cr3_def copy_frame_def clear_frame_def
      tlb_flush_single_def set_mmu_def)

lemma each_index_same:
  assumes "\<And>i s s'. f i s = Inr s' \<Longrightarrow> same_areas s s'"
  shows "each_index f is s = Inr s' \<Longrightarrow> same_areas s s'"
proof (induction "is" arbitrary: s)
  case (Cons i "is")
  then show ?case using assms same_areas_trans by (fastforce simp: obind_Inr)
qed simp

lemma free_single_page_same: "free_single_page ke t i s = Inr s' \<Longrightarrow> same_areas s s'"
  by (auto simp: free_single_page_def cow_handle_free_def Let_def obind_Inr same_areas_def set_entry_def set_pmm_def set_refcount_def
      split: if_splits option.splits)

lemma reap_below_same:
  assumes "\<And>u s s'. reap u s = Inr s' \<Longrightarrow> same_areas s s'" and "reap_below reap t i s = Inr s'"
  shows "same_areas s s'"
  using assms(2) assms(1) by (fastforce simp: reap_below_def obind_Inr same_areas_def set_entry_def set_pmm_def split: option.splits)

lemma reap_p1_same: "reap_p1 ke u s = Inr s' \<Longrightarrow> same_areas s s'"
  unfolding reap_p1_def by (rule each_index_same) (auto split: if_splits dest: free_single_page_same)

lemma reap_p2_same: "reap_p2 ke u s = Inr s' \<Longrightarrow> same_areas s s'"
  unfolding reap_p2_def by (rule each_index_same) (rule reap_below_same [OF reap_p1_same])

lemma reap_p3_same: "reap_p3 ke u s = Inr s' \<Longrightarrow> same_areas s s'"
  unfolding reap_p3_def by (rule each_index_same) (rule reap_below_same [OF reap_p2_same])

lemma mmu_reap_same:
  assumes "mmu_reap ke m s = Inr s'"
  shows "same_areas s s'"
proof -
  define idx where "idx = [0..<128 :: nat]"
  obtain root s1 where e: "each_index (reap_below (reap_p3 ke) root) idx s = Inr s1" and r: "same_areas s1 s'"
    using assms unfolding mmu_reap_def idx_def [symmetric]
    by (auto simp: obind_Inr Let_def same_areas_def set_mmu_def set_pmm_def write_cr3_def split: if_splits option.splits)
  have "same_areas s s1" using e by (rule each_index_same [rotated]) (rule reap_below_same [OF reap_p3_same])
  then show ?thesis using r by (rule same_areas_trans)
qed

lemma mmu_dec_users_same:
  assumes "mmu_dec_users ke m s = Inr s'"
  shows "same_areas s s'"
proof -
  let ?s = "set_mmu m ((mmus s m)\<lparr>users := users (mmus s m) - 1\<rparr>) s"
  have "s' = s \<or> s' = ?s \<or> mmu_reap ke m ?s = Inr s'"
    using assms by (auto simp: mmu_dec_users_def mmu_free_def Let_def split: if_splits)
  then show ?thesis using mmu_reap_same same_areas_trans same_areas_upd(8) by fastforce
qed

lemma sched_remove_running:
  assumes I: "sched_inv s qs" and t: "t_tid s (current s) \<noteq> TID_IDLE"
  shows "\<exists>mem rq. sched_remove (current s) s = Some (Inr (s\<lparr>tmem := mem, runqs := (runqs s)[this_cpu s := rq]\<rparr>)) \<and>
    rq_root rq = 0 \<and> num_threads rq = of_nat (length (qs ! this_cpu s)) - 1 \<and> rq_most_left rq = first_of (qs ! this_cpu s)"
proof -
  have R: "ready_inv s qs" and iso: "isolated (tmem s) (current s)" "current s \<noteq> 0" using I t by (simp_all add: sched_inv_def)
  note D = ready_invD [OF R]
  let ?rq = "runqs s ! this_cpu s"
  have first: "rq_most_left ?rq = first_of (qs ! this_cpu s)" and n: "num_threads ?rq = of_nat (length (qs ! this_cpu s))"
    using queued_first(1) [OF D(4)] D(4) by (simp_all add: rb_first_cached_def rq_tree_def queued_def)
  have "current s \<noteq> first_of (qs ! this_cpu s)"
    using current_not_queued [OF I] all_queued_nth [of "this_cpu s" qs] D(2,3) first_of_in [of "qs ! this_cpu s"] iso(2)
    by (cases "qs ! this_cpu s = []") auto
  then show ?thesis
    using tree_remove_lost [OF iso, of ?rq] D(2) first n by (fastforce simp: sched_remove_def runq_remove_def)
qed

text \<open>A processor whose only task is a zombie with an empty tree: the zombie is what it picks.\<close>

lemma schedule_zombie:
  assumes "current s \<noteq> 0" "t_tid s (current s) \<noteq> TID_IDLE" "task_st (tmem s) (current s) = TASK_S_ZOMBIE" "this_cpu s < length (runqs s)"
    "rq_root (runqs s ! this_cpu s) = 0" "rq_most_left (runqs s ! this_cpu s) = 0"
  shows "schedule ret s = Some (Inl Panic)"
proof -
  let ?t = "current s" and ?s = "charge s" and ?rq = "runqs s ! this_cpu s"
  define mem where "mem = (tmem ?s)\<lparr>vruntime := (vruntime (tmem ?s))(?t := min_vruntime (tmem ?s) ?rq)\<rparr>"
  obtain mem1 rq1 where 1: "tree_insert mem ?rq ?t = Some (mem1, rq1)" "rq_most_left rq1 = ?t" "isolated mem1 ?t" "task_st mem1 = task_st mem"
    using tree_insert_lost [OF assms(5,6,1), of mem] by blast
  have add: "sched_add ?t ?s = Some (Inr (?s\<lparr>tmem := mem1, runqs := (runqs s)[this_cpu s := rq1]\<rparr>))"
    using assms(3,4) 1(1) by (simp add: sched_add_def runq_add_def mem_def Let_def)
  obtain mem2 rq2 where 2: "tree_remove mem1 rq1 ?t = Some (mem2, rq2)" "task_st mem2 = task_st mem1"
    using tree_remove_lost [OF 1(3) assms(1), of rq1] by blast
  have "choose_next (?s\<lparr>tmem := mem1, runqs := (runqs s)[this_cpu s := rq1]\<rparr>) =
      Some (Inr (?t, ?s\<lparr>tmem := mem2, runqs := (runqs s)[this_cpu s := rq2]\<rparr>))"
    using assms(1,2,4) 1(2) 2(1) by (simp add: choose_next_def sched_next_def runq_next_def rb_first_cached_def rq_tree_def)
  moreover have "task_st mem2 ?t = TASK_S_ZOMBIE" using 1(4) 2(2) assms(3) by (simp add: mem_def)
  ultimately show ?thesis using assms(1,2) add by (simp add: schedule_def Let_def)
qed

text \<open>
  C40. The running task cannot exit.  \<^verbatim>\<open>task_exit\<close> takes a runnable task out of the queue of its processor, but the
  running task is in no queue: the removal makes its (absent) child the root, so that the tree
  loses every queued task, and counts one task too few.  The scheduler then puts the zombie back;
  when nothing else was queued it picks the zombie again and panics.  Here the call never
  succeeds: it fails as the release of the address space does, or with that panic.
\<close>

theorem task_exit_running:
  assumes "sched_inv s qs" and "t_tid s (current s) \<noteq> TID_IDLE"
  shows "(\<exists>s1. sched_remove (current s) s = Some (Inr s1) \<and> rq_root (runqs s1 ! this_cpu s) = 0 \<and>
      num_threads (runqs s1 ! this_cpu s) = of_nat (length (qs ! this_cpu s)) - 1) \<and>
    (qs ! this_cpu s = [] \<longrightarrow> task_exit kernel_end ret (current s) s =
       Some (Inl (case mmu_dec_users kernel_end (t_mmu s (current s)) (kvm s) of Inl e \<Rightarrow> e | Inr v \<Rightarrow> Panic)))"
proof -
  have c: "this_cpu s < length (runqs s)" "current s \<noteq> 0" "task_st (tmem s) (current s) = TASK_S_RUNNABLE"
    using assms by (simp_all add: sched_inv_def ready_inv_def)
  obtain mem rq where r: "sched_remove (current s) s = Some (Inr (s\<lparr>tmem := mem, runqs := (runqs s)[this_cpu s := rq]\<rparr>))"
    "rq_root rq = 0" "num_threads rq = of_nat (length (qs ! this_cpu s)) - 1" "rq_most_left rq = first_of (qs ! this_cpu s)"
    using sched_remove_running [OF assms] by blast
  let ?s = "set_state (current s) TASK_S_ZOMBIE (s\<lparr>tmem := mem, runqs := (runqs s)[this_cpu s := rq]\<rparr>)"
  have "task_exit kernel_end ret (current s) s =
      Some (Inl (case mmu_dec_users kernel_end (t_mmu s (current s)) (kvm s) of Inl e \<Rightarrow> e | Inr v \<Rightarrow> Panic))"
    if e: "qs ! this_cpu s = []"
  proof (cases "mmu_dec_users kernel_end (t_mmu s (current s)) (kvm s)")
    case (Inl e)
    then show ?thesis using r(1) c(3) by (simp add: task_exit_def set_state_def)
  next
    case (Inr v)
    have cur: "current (?s\<lparr>kvm := v\<rparr>) = current s" "this_cpu (?s\<lparr>kvm := v\<rparr>) = this_cpu s"
      using mmu_dec_users_same [OF Inr] by (simp_all add: same_areas_def current_def this_cpu_def set_state_def)
    have "schedule ret (?s\<lparr>kvm := v\<rparr>) = Some (Inl Panic)"
      using c(1,2) assms(2) cur r(2,4) e by (intro schedule_zombie) (simp_all add: set_state_def first_of_def)
    then show ?thesis using r(1) c(3) Inr cur by (simp add: task_exit_def Let_def) (simp add: set_state_def sched_yield_def)
  qed
  then show ?thesis using r(1-3) c(1) by auto
qed

theorem task_exit_running_witness:
  "let s = (ex_kernel ex_mem ex_rq)\<lparr>current_task := (\<lambda>c. 16)\<rparr> in current s = 16 \<and> task_exit 0 0xFF 16 s = Some (Inl Panic)"
proof -
  let ?s = "(ex_kernel ex_mem ex_rq)\<lparr>current_task := (\<lambda>c. 16)\<rparr>"
  have c: "current ?s = 16" "this_cpu ?s = 0" using ex_kernel_cpu(1) [of ex_mem ex_rq] by (simp_all add: current_def this_cpu_def)
  have "ready_inv (ex_kernel ex_mem ex_rq) [[]]"
    using ex_kernel_inv [OF ex_rq_empty] by (simp add: sched_inv_def ex_rq_def)
  then have R: "ready_inv ?s [[]]" using c(2) ex_kernel_cpu(1) [of ex_mem ex_rq] by (simp add: ready_inv_def)
  have I: "sched_inv ?s [[]]" unfolding sched_inv_def c
    using R by (simp add: task_addr_def aligned_def all_queued_def isolated_def ex_kernel_def) (simp add: ex_mem_def)
  have t: "t_tid ?s (current ?s) \<noteq> TID_IDLE" unfolding c by (simp add: ex_kernel_def TID_IDLE_def)
  have "mmu_dec_users 0 (t_mmu ?s 16) (kvm ?s) = Inr (kvm ?s)" by (simp add: mmu_dec_users_def ex_kernel_def)
  then show ?thesis using task_exit_running [OF I t, of 0 "0xFF"] c by simp
qed

section \<open>A new program\<close>

lemma next_table_same: "next_table u fl t i s = Inr (r, s') \<Longrightarrow> same_areas s s'"
  by (auto simp: next_table_def alloc_pgtab_def obind_Inr Let_def same_areas_def set_entry_def set_pmm_def clear_frame_def
      split: option.splits if_splits)

lemma find_leaf_same:
  assumes "find_leaf u fl rt va s = Inr (r, s')"
  shows "same_areas s s'"
proof -
  obtain t3 s3 where 3: "next_table u fl rt (table_index P4_ADDR_SHIFT va) s = Inr (t3, s3)"
    "(case t3 of None \<Rightarrow> Inr (None, s3) | Some t \<Rightarrow> obind (next_table u fl t (table_index P3_ADDR_SHIFT va) s3) (\<lambda>(t2, s2).
       case t2 of None \<Rightarrow> Inr (None, s2) | Some t2 \<Rightarrow> next_table u fl t2 (table_index P2_ADDR_SHIFT va) s2)) = Inr (r, s')"
    using assms unfolding find_leaf_def obind_Inr by auto
  note s3 = next_table_same [OF 3(1)]
  show ?thesis
  proof (cases t3)
    case (Some t)
    then obtain t2 s2 where 2: "next_table u fl t (table_index P3_ADDR_SHIFT va) s3 = Inr (t2, s2)"
      "(case t2 of None \<Rightarrow> Inr (None, s2) | Some t2 \<Rightarrow> next_table u fl t2 (table_index P2_ADDR_SHIFT va) s2) = Inr (r, s')"
      using 3(2) by (auto simp: obind_Inr)
    show ?thesis using same_areas_trans [OF s3 next_table_same [OF 2(1)]] 2(2) next_table_same same_areas_trans
      by (cases t2) auto
  qed (use 3(2) s3 in simp)
qed

lemma handle_shootdown_self: "handle_shootdown a b i s = Some s' \<Longrightarrow> self_id s' = self_id s"
  by (auto simp: handle_shootdown_def ipi_tlb_shootdown_def split: option.splits if_splits bind_splits)

lemma run_handlers_self: "run_handlers a b is s = Some s' \<Longrightarrow> self_id s' = self_id s"
proof (induction "is" arbitrary: s)
  case (Cons i "is")
  then show ?case using handle_shootdown_self [of a b i s] by (fastforce split: bind_splits)
qed (simp split: if_splits)

lemma smp_flush_same:
  assumes "smp_flush m virt e fl s = Some (Inr s')"
  shows "same_areas s s'"
proof -
  have "self_id s' = self_id s"
    using assms by (auto simp: smp_flush_def tlb_shootdown_def dest!: run_handlers_self split: if_splits sum.splits prod.splits)
  then show ?thesis using smp_flush_frames [OF assms] by (simp add: same_areas_def)
qed

lemma vmm_map_page_same: "vmm_map_page m phys virt fl s = Some (Inr s') \<Longrightarrow> same_areas s s'"
  unfolding vmm_map_page_def Let_def
  by (auto simp: obind_Inr same_areas_def set_entry_def tlb_flush_single_def
      dest!: find_leaf_same smp_flush_same split: option.split_asm sum.split_asm prod.split_asm)

lemma copy_kernel_same: "copy_kernel_mappings f s = Inr s' \<Longrightarrow> same_areas s s'"
  by (cases "p4 (mmus s Kernel_mmu)") (auto simp: copy_kernel_mappings_def)

lemma mmu_init_same:
  assumes "mmu_init m s = Inr s'"
  shows "same_areas s s'"
proof -
  let ?s1 = "set_mmu m ((mmus s m)\<lparr>cpus := cpuset_clear (cpus (mmus s m))\<rparr>) s"
  obtain f st where "copy_kernel_mappings f (set_mmu m ((mmus ?s1 m)\<lparr>p4 := Some f\<rparr>) (set_pmm st ?s1)) = Inr s'"
  proof -
    obtain q st where "(case q of None \<Rightarrow> Inl Null_access
        | Some f \<Rightarrow> copy_kernel_mappings f (set_mmu m ((mmus ?s1 m)\<lparr>p4 := q\<rparr>) (set_pmm st ?s1))) = Inr s'"
      using assms unfolding mmu_init_def Let_def obind_Inr by auto
    then show ?thesis using that by (cases q) auto
  qed
  then have "same_areas (set_mmu m ((mmus ?s1 m)\<lparr>p4 := Some f\<rparr>) (set_pmm st ?s1)) s'" by (rule copy_kernel_same)
  then show ?thesis by (simp add: same_areas_def set_mmu_def set_pmm_def)
qed

lemma execve_mmu_areas:
  assumes "execve_mmu ke m s = Some (Inr (m', s'))"
  shows "m' \<noteq> Kernel_mmu \<and> areas (mmus s' m') = (if m = Kernel_mmu then [] else areas (mmus s m)) \<and> self_id s' = self_id s"
proof -
  obtain s1 where s1: "(if m = Kernel_mmu then mmu_alloc s else Some (obind (mmu_dec_users ke m s) (\<lambda>v. Inr (m, v)))) = Some (Inr (m', s1))"
    "mmu_init m' s1 = Inr s'"
    using assms unfolding execve_mmu_def rbind_Inr by (auto simp: obind_Inr)
  have "m' \<noteq> Kernel_mmu \<and> areas (mmus s1 m') = (if m = Kernel_mmu then [] else areas (mmus s m)) \<and> self_id s1 = self_id s"
  proof (cases "m = Kernel_mmu")
    case True
    then show ?thesis using s1(1) by (auto simp: mmu_alloc_def obind_Inr Let_def mmu_inc_users_def set_mmu_def)
  next
    case False
    then have "m' = m" "mmu_dec_users ke m s = Inr s1" using s1(1) by (auto simp: obind_Inr)
    then show ?thesis using False mmu_dec_users_same by (fastforce simp: same_areas_def)
  qed
  then show ?thesis using mmu_init_same [OF s1(2)] by (simp add: same_areas_def)
qed

lemma map_stack_page_same: "map_stack_page m off v = Some (Inr v') \<Longrightarrow> same_areas v v'"
  using vmm_map_page_same same_areas_trans [OF same_areas_upd(2)] by (fastforce simp: map_stack_page_def rbind_Inr)

text \<open>Up to the first area, building the program changes no area.\<close>

lemma task_execve_Inr:
  assumes "task_execve ke f s = Some (Inr s')"
  defines "m0 \<equiv> t_mmu s (current s)" and "m \<equiv> t_mmu s' (current s)"
  shows "\<exists>v5 v6 v7. m \<noteq> Kernel_mmu \<and> areas (mmus v5 m) = (if m0 = Kernel_mmu then [] else areas (mmus (kvm s) m0)) \<and>
    add_area m code_area v5 = Some (Inr v6) \<and> add_area m stack_area v6 = Some (Inr v7) \<and> areas (mmus (kvm s') m) = areas (mmus v7 m) \<and>
    cpu_rip s' (this_cpu s) = UTASK_ENTRY + (f AND 0xFFF) \<and> rsp (cpu_regs s' (this_cpu s)) = UTASK_STACK_TOP"
proof -
  obtain m1 v1 v2 v3 v4 v5 v6 v7 v8 where e: "execve_mmu ke m0 (kvm s) = Some (Inr (m1, v1))"
    "vmm_map_page m1 (kern_to_phys f) UTASK_ENTRY (PAGE_EXECUTABLE OR PAGE_USER_ACCESSIBLE) v1 = Some (Inr v2)"
    "vmm_map_page m1 (kern_to_phys f + PAGE_SIZE) (UTASK_ENTRY + PAGE_SIZE) (PAGE_EXECUTABLE OR PAGE_USER_ACCESSIBLE) v2 = Some (Inr v3)"
    "map_stack_page m1 0 v3 = Some (Inr v4)" "map_stack_page m1 PAGE_SIZE v4 = Some (Inr v5)"
    "add_area m1 code_area v5 = Some (Inr v6)" "add_area m1 stack_area v6 = Some (Inr v7)"
    "mmu_update_cpuset m1 (this_cpu s) True v7 = Inr v8"
    and s': "s' = s\<lparr>kvm := write_cr3 (p4 (mmus v8 m1)) v8, t_mmu := (t_mmu s)(current s := m1),
        cpu_regs := (cpu_regs s)(this_cpu s := (cpu_regs s (this_cpu s))\<lparr>rsp := UTASK_STACK_TOP\<rparr>),
        cpu_rip := (cpu_rip s)(this_cpu s := UTASK_ENTRY + (f AND 0xFFF))\<rparr>"
    using assms(1) unfolding task_execve_def Let_def m0_def by (auto simp: rbind_Inr obind_Inr split: if_splits)
  have m1: "m = m1" using s' by (simp add: m_def)
  note same = vmm_map_page_same [OF e(2)] vmm_map_page_same [OF e(3)] map_stack_page_same [OF e(4)] map_stack_page_same [OF e(5)]
  have "areas (mmus v5 m) = areas (mmus v1 m)" using same by (simp add: same_areas_def)
  moreover have "areas (mmus (kvm s') m) = areas (mmus v7 m)"
    using s' e(8) by (auto simp: mmu_update_cpuset_def obind_Inr set_mmu_def write_cr3_def split: if_splits)
  ultimately show ?thesis using execve_mmu_areas [OF e(1)] e(6,7) s' m1 by auto
qed

lemma add_area_Inr:
  assumes "add_area m a v = Some (Inr v')"
  shows "(if areas (mmus v m) = [] then Inr [a] else area_insert a [] (areas (mmus v m))) = Inr (areas (mmus v' m))"
  using assms by (auto simp: add_area_def rbind_Inr area_add_def obind_Inr set_mmu_def split: if_splits)

text \<open>
  What a new program is given.  When \<^verbatim>\<open>task_execve\<close> leaves a kernel thread for user space, the address space
  has two areas, the code pages and one for the stack, but the latter begins where the stack ends: no
  area contains the word below the initial stack pointer.  The areas are never removed, so a
  task that has got them cannot start another program: the second call fails when it adds the same
  code area.
\<close>

lemma task_execve_once:
  "(case task_execve kernel_end f s of
      Some (Inr s') \<Rightarrow>
        let as = areas (mmus (kvm s') (t_mmu s' (current s))); m = t_mmu s (current s) in
        as \<noteq> [] \<and> (m = Kernel_mmu \<or> areas (mmus (kvm s) m) = [] \<longrightarrow> as = [code_area, stack_area] \<and>
          rsp (cpu_regs s' (this_cpu s)) = UTASK_STACK_TOP \<and>
          (\<forall>a \<in> set as. \<not> (area_base a \<le> UTASK_STACK_TOP - 8 \<and> UTASK_STACK_TOP - 8 < area_base a + area_len a))) \<and>
        (m = Kernel_mmu \<or> areas (mmus (kvm s) m) \<noteq> [code_area, stack_area])
    | _ \<Rightarrow> True)"
proof (cases "\<exists>s'. task_execve kernel_end f s = Some (Inr s')")
  case True
  then obtain s' where s': "task_execve kernel_end f s = Some (Inr s')" by blast
  let ?old = "t_mmu s (current s)" and ?m = "t_mmu s' (current s)"
  obtain v5 v6 v7 where v: "areas (mmus v5 ?m) = (if ?old = Kernel_mmu then [] else areas (mmus (kvm s) ?old))"
    "add_area ?m code_area v5 = Some (Inr v6)" "add_area ?m stack_area v6 = Some (Inr v7)" "areas (mmus (kvm s') ?m) = areas (mmus v7 ?m)"
    "rsp (cpu_regs s' (this_cpu s)) = UTASK_STACK_TOP"
    using task_execve_Inr [OF s'] by blast
  note A = add_area_Inr [OF v(2)] add_area_Inr [OF v(3)]
  have ne: "as \<noteq> []" if "area_insert a p ks = Inr as" for a p ks as
    using that by (induction a p ks rule: area_insert.induct) (auto split: if_splits)
  have "areas (mmus v7 ?m) \<noteq> []" using A(2) ne by (auto split: if_splits)
  moreover have "areas (mmus v7 ?m) = [code_area, stack_area]" if "areas (mmus v5 ?m) = []"
  proof -
    have "areas (mmus v6 ?m) = [code_area]" using A(1) that by simp
    then show ?thesis using A(2) by (simp add: code_area_def stack_area_def UTASK_ENTRY_def UTASK_STACK_TOP_def PAGE_SIZE_def)
  qed
  moreover have "areas (mmus v5 ?m) \<noteq> [code_area, stack_area]" using A(1) by auto
  moreover have "\<forall>a \<in> set [code_area, stack_area]. \<not> (area_base a \<le> UTASK_STACK_TOP - 8 \<and> UTASK_STACK_TOP - 8 < area_base a + area_len a)"
    by (simp add: code_area_def stack_area_def UTASK_ENTRY_def UTASK_STACK_TOP_def UTASK_STACK_BOTTOM_def PAGE_SIZE_def)
  ultimately show ?thesis using s' v(1,4,5) by (auto simp: Let_def split: if_splits)
qed (auto split: option.splits sum.splits)

lemma task_execve_once_example:
  "let v = answering\<lparr>mmus := (\<lambda>m. \<lparr>p4 = Some 1, users = 1, cpus = 0, areas = [code_area, stack_area]\<rparr>)\<rparr>;
       s = (ex_kernel ex_mem ex_rq)\<lparr>kvm := v, t_mmu := (\<lambda>t. User_mmu 8)\<rparr>
   in \<forall>s'. task_execve 0 0x1234 s \<noteq> Some (Inr s')"
  using task_execve_once [where kernel_end = 0 and f = "0x1234" and s = "(ex_kernel ex_mem ex_rq)\<lparr>kvm := answering\<lparr>mmus := (\<lambda>m. \<lparr>p4 = Some 1, users = 1,
      cpus = 0, areas = [code_area, stack_area]\<rparr>)\<rparr>, t_mmu := (\<lambda>t. User_mmu 8)\<rparr>"]
  by (auto simp: Let_def)

end
