(* ===== verification/Ports.thy ===== *)
theory Ports
  imports Kprintf
begin

text \<open>
  Input and output through ports, and the drivers that need nothing else: the serial line of
  \<^verbatim>\<open>kernel/drivers/serial/serial.c\<close>, the interval timer of \<^verbatim>\<open>kernel/drivers/pit/pit.c\<close> and the
  keyboard controller of \<^verbatim>\<open>kernel/drivers/ps2/\<close>.  The devices are a parameter: \<open>answers\<close> gives, for
  every port, the bytes that reading it yields, in order; \<open>port_log\<close> is what has been written to
  ports, the oldest first.  A read for which the device has no answer left waits for ever, so a
  loop that polls a port does not return (\<open>None\<close>) unless the device gives the awaited answer.
\<close>

section \<open>Ports\<close>

record io =
  answers :: "u16 \<Rightarrow> u8 list"
  port_log :: "(u16 \<times> u8) list"

definition out_port :: "u16 \<Rightarrow> u8 \<Rightarrow> io \<Rightarrow> io" where
  "out_port port val s = s\<lparr>port_log := port_log s @ [(port, val)]\<rparr>"

definition inb :: "u16 \<Rightarrow> io \<Rightarrow> (u8 \<times> io) option" where
  "inb port s =
     (case answers s port of
        [] \<Rightarrow> None
      | b # bs \<Rightarrow> Some (b, s\<lparr>answers := (answers s)(port := bs)\<rparr>))"

definition out_ports :: "(u16 \<times> u8) list \<Rightarrow> io \<Rightarrow> io" where
  "out_ports ws s = fold (\<lambda>(port, val). out_port port val) ws s"

text \<open>Polling a port until its value satisfies a condition.\<close>

partial_function (option) poll :: "u16 \<Rightarrow> (u8 \<Rightarrow> bool) \<Rightarrow> io \<Rightarrow> io option" where
  "poll port ready s = do { (b, s1) \<leftarrow> inb port s; if ready b then Some s1 else poll port ready s1 }"

section \<open>The serial line\<close>

definition COM1_PORT :: u16 where "COM1_PORT = 0x3F8"
definition COM2_PORT :: u16 where "COM2_PORT = 0x2F8"

definition serial_transmit_empty :: "u8 \<Rightarrow> bool" where
  "serial_transmit_empty b \<longleftrightarrow> b AND 0x20 \<noteq> 0"

definition serial_write_com :: "int \<Rightarrow> u8 \<Rightarrow> io \<Rightarrow> io option" where
  "serial_write_com com data s =
     (let write = (\<lambda>port. do { s1 \<leftarrow> poll (port + 5) serial_transmit_empty s; Some (out_port port data s1) })
      in if com = 1 then write COM1_PORT else if com = 2 then write COM2_PORT else Some s)"

fun serial_write_str :: "u8 list \<Rightarrow> io \<Rightarrow> io option" where
  "serial_write_str [] s = Some s"
| "serial_write_str (c # cs) s = do { s1 \<leftarrow> serial_write_com 1 c s; serial_write_str cs s1 }"

definition init_com :: "u16 \<Rightarrow> (u16 \<times> u8) list" where
  "init_com port = [(port + 1, 0x00), (port + 3, 0x80), (port + 0, 0x03), (port + 1, 0x00), (port + 3, 0x02),
     (port + 2, 0xC7), (port + 4, 0x0B)]"

definition separator :: "u8 list" where
  "separator = replicate 35 0x2D @ [0x0A]"

definition serial_init :: "io \<Rightarrow> io option" where
  "serial_init s = serial_write_str separator (out_ports (init_com COM1_PORT @ init_com COM2_PORT) s)"

section \<open>The interval timer\<close>

definition PIT_TICKS_PER_MS :: u64 where "PIT_TICKS_PER_MS = 0x4A9"

text \<open>The wait for the output bit: every read of the counter is preceded by a read-back command.\<close>

partial_function (option) pit_wait :: "io \<Rightarrow> io option" where
  "pit_wait s = do {
     (b, s1) \<leftarrow> inb 0x40 (out_port 0x43 0xE2 s);
     if b AND 0x80 = 0 then pit_wait s1 else Some s1 }"

partial_function (option) pit_loop :: "u64 \<Rightarrow> io \<Rightarrow> io option" where
  "pit_loop total_count s = do {
     let count = (ucast (min total_count 0xFFFF) :: u16);
     s1 \<leftarrow> pit_wait (out_ports [(0x43, 0x30), (0x40, ucast (count AND 0xFF)), (0x40, ucast (drop_bit 8 count))] s);
     let total_count = total_count - ucast count;
     if total_count AND NOT 0xFFFF \<noteq> 0 then pit_loop total_count s1 else Some s1 }"

text \<open>The lock of the timer is taken around the loop; the state of the lock is that of \<^verbatim>\<open>spin_lock\<close>.\<close>

definition pit_sleep_ms :: "u64 \<Rightarrow> u64 \<times> u32 \<times> io \<Rightarrow> (u64 \<times> u32 \<times> io) option" where
  "pit_sleep_ms ms = (\<lambda>(l, p, s). do {
     (l1, p1) \<leftarrow> spin_lock l p;
     s1 \<leftarrow> pit_loop (PIT_TICKS_PER_MS * ms) s;
     let (l2, p2) = spin_unlock l1 p1;
     Some (l2, p2, s1) })"

text \<open>With a flag that another processor may change: \<open>flags\<close> are the values the successive reads see.\<close>

fun watch_wait :: "bool list \<Rightarrow> bool \<Rightarrow> io \<Rightarrow> (bool \<times> bool list \<times> io) option" where
  "watch_wait [] original s = None"
| "watch_wait (f # fs) original s =
     (if f \<noteq> original then Some (True, fs, s)
      else do {
        (b, s1) \<leftarrow> inb 0x40 (out_port 0x43 0xE2 s);
        if b AND 0x80 = 0 then watch_wait fs original s1 else Some (False, fs, s1) })"

partial_function (option) watch_loop :: "u64 \<Rightarrow> bool list \<Rightarrow> bool \<Rightarrow> io \<Rightarrow> io option" where
  "watch_loop total_count flags original s = do {
     let count = (ucast (min total_count 0xFFFF) :: u16);
     (changed, flags1, s1) \<leftarrow> watch_wait flags original
        (out_ports [(0x43, 0x30), (0x40, ucast (count AND 0xFF)), (0x40, ucast (drop_bit 8 count))] s);
     if changed then Some s1
     else let total_count = total_count - ucast count
          in if total_count AND NOT 0xFFFF \<noteq> 0 then watch_loop total_count flags1 original s1 else Some s1 }"

definition pit_sleep_watch_flag :: "u64 \<Rightarrow> bool list \<Rightarrow> bool \<Rightarrow> u64 \<times> u32 \<times> io \<Rightarrow> (u64 \<times> u32 \<times> io) option" where
  "pit_sleep_watch_flag ms flags original = (\<lambda>(l, p, s). do {
     (l1, p1) \<leftarrow> spin_lock l p;
     s1 \<leftarrow> watch_loop (PIT_TICKS_PER_MS * ms) flags original s;
     let (l2, p2) = spin_unlock l1 p1;
     Some (l2, p2, s1) })"

section \<open>The keyboard controller\<close>

definition PS2_STATUS :: u16 where "PS2_STATUS = 0x64"
definition PS2_COMMAND :: u16 where "PS2_COMMAND = 0x64"
definition PS2_DATA :: u16 where "PS2_DATA = 0x60"

definition PS2_INT0 :: u8 where "PS2_INT0 = 0x01"
definition PS2_INT1 :: u8 where "PS2_INT1 = 0x02"
definition PS2_CLOCK1 :: u8 where "PS2_CLOCK1 = 0x20"
definition PS2_TRANSLATE :: u8 where "PS2_TRANSLATE = 0x40"

definition ps2_read_data :: "io \<Rightarrow> (u8 \<times> io) option" where
  "ps2_read_data s = do { s1 \<leftarrow> poll PS2_STATUS (\<lambda>b. b AND 1 \<noteq> 0) s; inb PS2_DATA s1 }"

definition ps2_read_status :: "io \<Rightarrow> (u8 \<times> io) option" where
  "ps2_read_status s = inb PS2_STATUS s"

definition ps2_write_cmd :: "u8 \<Rightarrow> io \<Rightarrow> io option" where
  "ps2_write_cmd data s = do { s1 \<leftarrow> poll PS2_STATUS (\<lambda>b. b AND 2 = 0) s; Some (out_port PS2_COMMAND data s1) }"

definition ps2_write_data :: "u8 \<Rightarrow> io \<Rightarrow> io option" where
  "ps2_write_data data s = do { s1 \<leftarrow> poll PS2_STATUS (\<lambda>b. b AND 2 = 0) s; Some (out_port PS2_DATA data s1) }"

definition ps2_read_config :: "io \<Rightarrow> (u8 \<times> io) outcome option" where
  "ps2_read_config s =
     rbind (waits (ps2_write_cmd 0x20 s)) (\<lambda>s1.
     rbind (waits (ps2_read_data s1)) (\<lambda>(config_byte, s2).
     Some (if config_byte AND 0x80 = 0 then Inr (config_byte, s2) else Inl Panic)))"

definition ps2_write_config :: "u8 \<Rightarrow> io \<Rightarrow> io option" where
  "ps2_write_config config_byte s = do { s1 \<leftarrow> ps2_write_cmd 0x60 s; ps2_write_data config_byte s1 }"

partial_function (option) ps2_flush :: "io \<Rightarrow> io option" where
  "ps2_flush s = do {
     (b, s1) \<leftarrow> inb PS2_STATUS s;
     if b AND 1 \<noteq> 0 then do { (d, s2) \<leftarrow> inb PS2_DATA s1; ps2_flush s2 } else Some s1 }"

text \<open>A command whose answer must be a given byte.\<close>

definition ps2_test :: "u8 \<Rightarrow> (u8 \<Rightarrow> bool) \<Rightarrow> io \<Rightarrow> (u8 \<times> io) outcome option" where
  "ps2_test cmd good s =
     rbind (waits (ps2_write_cmd cmd s)) (\<lambda>s1.
     rbind (waits (ps2_read_data s1)) (\<lambda>(b, s2). Some (if good b then Inr (b, s2) else Inl Panic)))"

text \<open>\<^verbatim>\<open>ps2_init\<close> up to the call of \<^verbatim>\<open>ps2kbd_init\<close>.\<close>

definition ps2_init :: "io \<Rightarrow> io outcome option" where
  "ps2_init s =
     rbind (waits (ps2_write_cmd 0xAD s)) (\<lambda>s1.
     rbind (waits (ps2_write_cmd 0xA7 s1)) (\<lambda>s2.
     rbind (waits (ps2_flush s2)) (\<lambda>s3.
     rbind (ps2_read_config s3) (\<lambda>(config_byte, s4).
     if config_byte AND PS2_CLOCK1 = 0 then Some (Inl Panic) else
     rbind (waits (ps2_write_config (config_byte AND NOT (PS2_INT0 OR PS2_INT1 OR PS2_TRANSLATE)) s4)) (\<lambda>s5.
     rbind (ps2_test 0xAA (\<lambda>b. b = 0x55) s5) (\<lambda>(b, s6).
     rbind (waits (ps2_write_cmd 0xA8 s6)) (\<lambda>s7.
     rbind (ps2_test 0x20 (\<lambda>b. b AND PS2_CLOCK1 = 0) s7) (\<lambda>(b, s8).
     rbind (waits (ps2_write_cmd 0xA7 s8)) (\<lambda>s9.
     rbind (ps2_test 0xAB (\<lambda>b. b = 0x00) s9) (\<lambda>(b, s10).
     rbind (ps2_test 0xA9 (\<lambda>b. b = 0x00) s10) (\<lambda>(b, s11).
     rbind (ps2_read_config s11) (\<lambda>(config_byte, s12).
     rbind (waits (ps2_write_config (config_byte OR (PS2_INT0 OR PS2_INT1)) s12)) (\<lambda>s13.
     rbind (waits (ps2_write_cmd 0xAE s13)) (\<lambda>s14.
     waits (ps2_write_cmd 0xA8 s14)))))))))))))))"

text \<open>\<^verbatim>\<open>ps2kbd_cmd\<close> repeats a command as long as the keyboard asks for it.\<close>

partial_function (option) ps2kbd_cmd :: "u8 \<Rightarrow> io \<Rightarrow> (u8 \<times> io) option" where
  "ps2kbd_cmd data s = do {
     s1 \<leftarrow> ps2_write_data data s;
     (response, s2) \<leftarrow> ps2_read_data s1;
     if response = 0xFE then ps2kbd_cmd data s2 else Some (response, s2) }"

definition ps2kbd_irq_handler :: "io \<Rightarrow> io option" where
  "ps2kbd_irq_handler s = map_option snd (ps2_read_data s)"

end
