(* ===== verification/Console.thy ===== *)
theory Console
  imports Ports
begin

text \<open>
  The console: the escape sequences of \<^verbatim>\<open>kernel/drivers/vga_tmode/cansid.c\<close>, the text screen of
  \<^verbatim>\<open>kernel/drivers/vga_tmode/vga_tmode.c\<close>, and the function \<^verbatim>\<open>kprintf_write_char\<close> that sends every character to
  the serial line and to the screen.  The screen memory is a function from cell numbers; the position
  of the cursor is a pair of numbers, which the lemmas below keep within the screen, so that
  their width does not matter.
\<close>

section \<open>Escape sequences\<close>

datatype cansid_mode =
  CANSID_ESC | CANSID_BRACKET | CANSID_PARSE | CANSID_BGCOLOR | CANSID_FGCOLOR | CANSID_EQUALS | CANSID_ENDVAL

record cansid_state =
  mode :: cansid_mode
  style :: u8
  next_style :: u8

record color_char =
  char_style :: u8
  ascii :: u8

definition ESC :: u8 where "ESC = 0x1B"

definition cansid_init :: cansid_state where
  "cansid_init = \<lparr>mode = CANSID_ESC, style = 0x0F, next_style = 0x0F\<rparr>"

definition cansid_convert_color :: "u8 \<Rightarrow> u8" where
  "cansid_convert_color color = [0, 4, 2, 6, 1, 5, 3, 7] ! unat color"

definition is_color :: "u8 \<Rightarrow> bool" where
  "is_color x \<longleftrightarrow> 0x30 \<le> x \<and> x \<le> 0x37"

text \<open>A character that no sequence expects: it is printed, and the pending style is dropped.\<close>

definition cansid_abort :: "u8 \<Rightarrow> cansid_state \<Rightarrow> u8 \<times> cansid_state" where
  "cansid_abort x st = (x, st\<lparr>mode := CANSID_ESC, next_style := style st\<rparr>)"

definition cansid_step :: "u8 \<Rightarrow> cansid_state \<Rightarrow> u8 \<times> cansid_state" where
  "cansid_step x st =
     (case mode st of
        CANSID_ESC \<Rightarrow> if x = ESC then (0, st\<lparr>mode := CANSID_BRACKET\<rparr>) else (x, st)
      | CANSID_BRACKET \<Rightarrow> if x = 0x5B then (0, st\<lparr>mode := CANSID_PARSE\<rparr>) else (x, st\<lparr>mode := CANSID_ESC\<rparr>)
      | CANSID_PARSE \<Rightarrow>
          if x = 0x33 then (0, st\<lparr>mode := CANSID_FGCOLOR\<rparr>)
          else if x = 0x34 then (0, st\<lparr>mode := CANSID_BGCOLOR\<rparr>)
          else if x = 0x30 then (0, st\<lparr>mode := CANSID_ENDVAL, next_style := 0x0F\<rparr>)
          else if x = 0x31 then (0, st\<lparr>mode := CANSID_ENDVAL, next_style := next_style st OR 0x08\<rparr>)
          else if x = 0x3D then (0, st\<lparr>mode := CANSID_EQUALS\<rparr>)
          else cansid_abort x st
      | CANSID_BGCOLOR \<Rightarrow>
          if is_color x then (0, st\<lparr>mode := CANSID_ENDVAL,
            next_style := (next_style st AND 0x1F) OR push_bit 4 (cansid_convert_color (x - 0x30))\<rparr>)
          else cansid_abort x st
      | CANSID_FGCOLOR \<Rightarrow>
          if is_color x then (0, st\<lparr>mode := CANSID_ENDVAL,
            next_style := (next_style st AND 0xF8) OR cansid_convert_color (x - 0x30)\<rparr>)
          else cansid_abort x st
      | CANSID_EQUALS \<Rightarrow>
          if x = 0x31 then (0, st\<lparr>mode := CANSID_ENDVAL, next_style := next_style st AND NOT 0x08\<rparr>)
          else cansid_abort x st
      | CANSID_ENDVAL \<Rightarrow>
          if x = 0x3B then (0, st\<lparr>mode := CANSID_PARSE\<rparr>)
          else if x = 0x6D then (0, st\<lparr>mode := CANSID_ESC, style := next_style st\<rparr>)
          else cansid_abort x st)"

definition cansid_process :: "cansid_state \<Rightarrow> u8 \<Rightarrow> color_char \<times> cansid_state" where
  "cansid_process st x =
     (let (c, st') = cansid_step x st in (\<lparr>char_style = style st, ascii = c\<rparr>, st'))"

section \<open>The screen\<close>

definition VGAWIDTH :: nat where "VGAWIDTH = 80"
definition VGAHEIGHT :: nat where "VGAHEIGHT = 25"

record console =
  dev :: io
  cells :: "nat \<Rightarrow> u16"
  x_pos :: nat
  y_pos :: nat
  cansid :: cansid_state

definition vga_tmode_setcursor :: "nat \<Rightarrow> nat \<Rightarrow> console \<Rightarrow> console" where
  "vga_tmode_setcursor x y s =
     (let position = (of_nat (y * 80 + x) :: u16)
      in s\<lparr>x_pos := x, y_pos := y,
           dev := out_ports [(0x3D4, 0x0F), (0x3D5, ucast (position AND 0xFF)),
                             (0x3D4, 0x0E), (0x3D5, ucast (drop_bit 8 position AND 0xFF))] (dev s)\<rparr>)"

text \<open>The copy of line \<open>i\<close> to the line above.\<close>

definition copy_line :: "nat \<Rightarrow> (nat \<Rightarrow> u16) \<Rightarrow> nat \<Rightarrow> u16" where
  "copy_line i buf = (\<lambda>j. if (i - 1) * VGAWIDTH \<le> j \<and> j < (i - 1) * VGAWIDTH + VGAWIDTH
     then buf (i * VGAWIDTH + (j - (i - 1) * VGAWIDTH)) else buf j)"

definition blank :: u16 where "blank = push_bit 8 0x0F OR 0x20"

definition clear_line :: "nat \<Rightarrow> (nat \<Rightarrow> u16) \<Rightarrow> nat \<Rightarrow> u16" where
  "clear_line i buf = (\<lambda>j. if i * VGAWIDTH \<le> j \<and> j < i * VGAWIDTH + VGAWIDTH then blank else buf j)"

definition vga_tmode_newline :: "console \<Rightarrow> console" where
  "vga_tmode_newline s =
     (let s1 = (if y_pos s = VGAHEIGHT - 1
                then s\<lparr>cells := clear_line (VGAHEIGHT - 1) (fold copy_line [2..<VGAHEIGHT] (cells s)), x_pos := 0\<rparr>
                else s\<lparr>x_pos := 0, y_pos := y_pos s + 1\<rparr>)
      in vga_tmode_setcursor (x_pos s1) (y_pos s1) s1)"

text \<open>The character is a signed \<^verbatim>\<open>char\<close>, widened before the bitwise or.\<close>

definition vga_tmode_write_char :: "u8 \<Rightarrow> u8 \<Rightarrow> nat \<Rightarrow> nat \<Rightarrow> console \<Rightarrow> console" where
  "vga_tmode_write_char c sty x y s = s\<lparr>cells := (cells s)(y * 80 + x := push_bit 8 (ucast sty) OR scast c)\<rparr>"

text \<open>A character other than a tab.\<close>

definition put_plain :: "u8 \<Rightarrow> u8 \<Rightarrow> console \<Rightarrow> console" where
  "put_plain c sty s =
     (let s1 = (if c = 0x00 then s
                else if c = 0x0A then vga_tmode_newline s
                else let s1 = vga_tmode_write_char c sty (x_pos s) (y_pos s) s
                     in if x_pos s1 = VGAWIDTH - 1 then vga_tmode_newline s1 else s1\<lparr>x_pos := x_pos s1 + 1\<rparr>)
      in vga_tmode_setcursor (x_pos s1) (y_pos s1) s1)"

text \<open>\<^verbatim>\<open>vga_tmode_putchar(' ')\<close>: what is printed is a space or nothing, never a tab.\<close>

definition put_space :: "console \<Rightarrow> console" where
  "put_space s = (let (ch, st) = cansid_process (cansid s) 0x20 in put_plain (ascii ch) (char_style ch) (s\<lparr>cansid := st\<rparr>))"

definition vga_tmode_raw_putchar :: "u8 \<Rightarrow> u8 \<Rightarrow> console \<Rightarrow> console" where
  "vga_tmode_raw_putchar c sty s =
     (if c = 0x09
      then let s1 = (put_space ^^ 4) s in vga_tmode_setcursor (x_pos s1) (y_pos s1) s1
      else put_plain c sty s)"

definition vga_tmode_putchar :: "u8 \<Rightarrow> console \<Rightarrow> console" where
  "vga_tmode_putchar c s =
     (let (ch, st) = cansid_process (cansid s) c in vga_tmode_raw_putchar (ascii ch) (char_style ch) (s\<lparr>cansid := st\<rparr>))"

definition vga_tmode_puts :: "u8 list \<Rightarrow> console \<Rightarrow> console" where
  "vga_tmode_puts cs s = fold vga_tmode_putchar cs s"

definition bytes :: "string \<Rightarrow> u8 list" where
  "bytes cs = map (\<lambda>c. of_nat (of_char c)) cs"

definition title_text :: "u8 list" where
  "title_text = replicate 37 0x20 @ bytes ''ByteOS''"

definition vga_tmode_init :: "console \<Rightarrow> console option" where
  "vga_tmode_init s = do {
     d \<leftarrow> serial_init (dev s);
     Some (vga_tmode_puts (replicate 37 0x20 @ [ESC] @ bytes ''[0m'')
       (vga_tmode_puts ([ESC] @ bytes ''[=1;30;47m'' @ title_text) (s\<lparr>dev := d, cansid := cansid_init\<rparr>))) }"

section \<open>Writing characters\<close>

definition kprintf_write_char :: "u8 \<Rightarrow> console \<Rightarrow> console option" where
  "kprintf_write_char c s = do { d \<leftarrow> serial_write_com 1 c (dev s); Some (vga_tmode_putchar c (s\<lparr>dev := d\<rparr>)) }"

fun kprintf_write_str :: "u8 list \<Rightarrow> console \<Rightarrow> console option" where
  "kprintf_write_str [] s = Some s"
| "kprintf_write_str (c # cs) s = do { s1 \<leftarrow> kprintf_write_char c s; kprintf_write_str cs s1 }"

text \<open>
  \<^verbatim>\<open>kprintf\<close> on a console: what is formatted goes to both devices under the lock.  The characters are
  computed before they are sent, which only matters for a format that is faulty after its beginning.
\<close>

definition console_kprintf ::
  "string \<Rightarrow> arg list \<Rightarrow> u64 \<Rightarrow> processor \<Rightarrow> console \<Rightarrow> (nat \<times> u64 \<times> processor \<times> console) outcome option" where
  "console_kprintf fmt args l p s =
     rbind (kprintf fmt args l p) (\<lambda>((out, n), l1, p1).
     rbind (waits (kprintf_write_str (bytes out) s)) (\<lambda>s1. Some (Inr (n, l1, p1, s1))))"

definition syscall_write :: "u64 \<Rightarrow> u64 \<Rightarrow> processor \<Rightarrow> console \<Rightarrow> (u64 \<times> u64 \<times> processor \<times> console) outcome option" where
  "syscall_write c l p s =
     rbind (console_kprintf ''%c'' [Slot c] l p s) (\<lambda>(n, l1, p1, s1). Some (Inr (0, l1, p1, s1)))"

end
