(* ===== verification/Console_Correct.thy ===== *)
theory Console_Correct
  imports Console
begin

text \<open>
  Properties of the console and of the drivers behind it: the escape sequences are removed and
  have the effect on the style that a token-level semantics gives them; the cursor stays on the screen and
  the title line is never overwritten; both devices get the same characters; and the time the
  interval timer really waits.
\<close>

section \<open>Escape sequences\<close>

datatype param = Reset | Bold | Unbold | Fg u8 | Bg u8

datatype token = Plain u8 | Sgr "param list"

fun param_bytes :: "param \<Rightarrow> u8 list" where
  "param_bytes Reset = [0x30]"
| "param_bytes Bold = [0x31]"
| "param_bytes Unbold = [0x3D, 0x31]"
| "param_bytes (Fg k) = [0x33, 0x30 + k]"
| "param_bytes (Bg k) = [0x34, 0x30 + k]"

fun params_bytes :: "param list \<Rightarrow> u8 list" where
  "params_bytes [] = []"
| "params_bytes [p] = param_bytes p"
| "params_bytes (p # q # ps) = param_bytes p @ 0x3B # params_bytes (q # ps)"

fun token_bytes :: "token \<Rightarrow> u8 list" where
  "token_bytes (Plain c) = [c]"
| "token_bytes (Sgr ps) = [ESC, 0x5B] @ params_bytes ps @ [0x6D]"

fun apply_param :: "param \<Rightarrow> u8 \<Rightarrow> u8" where
  "apply_param Reset sty = 0x0F"
| "apply_param Bold sty = sty OR 0x08"
| "apply_param Unbold sty = sty AND NOT 0x08"
| "apply_param (Fg k) sty = (sty AND 0xF8) OR cansid_convert_color k"
| "apply_param (Bg k) sty = (sty AND 0x1F) OR push_bit 4 (cansid_convert_color k)"

fun param_ok :: "param \<Rightarrow> bool" where
  "param_ok (Fg k) \<longleftrightarrow> k < 8"
| "param_ok (Bg k) \<longleftrightarrow> k < 8"
| "param_ok _ \<longleftrightarrow> True"

fun token_ok :: "token \<Rightarrow> bool" where
  "token_ok (Plain c) \<longleftrightarrow> c \<noteq> 0 \<and> c \<noteq> ESC"
| "token_ok (Sgr ps) \<longleftrightarrow> ps \<noteq> [] \<and> (\<forall>p \<in> set ps. param_ok p)"

text \<open>The characters with their styles that a list of tokens stands for, and the style at the end.\<close>

fun render :: "u8 \<Rightarrow> token list \<Rightarrow> (u8 \<times> u8) list \<times> u8" where
  "render sty [] = ([], sty)"
| "render sty (Plain c # ts) = (let (out, sty') = render sty ts in ((sty, c) # out, sty'))"
| "render sty (Sgr ps # ts) = render (fold apply_param ps sty) ts"

text \<open>What the automaton prints.\<close>

fun cansid_run :: "cansid_state \<Rightarrow> u8 list \<Rightarrow> (u8 \<times> u8) list \<times> cansid_state" where
  "cansid_run st [] = ([], st)"
| "cansid_run st (c # cs) =
     (let (ch, st1) = cansid_process st c; (out, st2) = cansid_run st1 cs
      in (if ascii ch = 0 then out else (char_style ch, ascii ch) # out, st2))"

lemma cansid_run_append:
  "cansid_run st (xs @ ys) = (let (o1, st1) = cansid_run st xs; (o2, st2) = cansid_run st1 ys in (o1 @ o2, st2))"
  by (induction xs arbitrary: st) (auto simp: Let_def split: prod.splits)

lemma color_byte: "k < 8 \<Longrightarrow> is_color (0x30 + k)"
proof -
  assume "k < 8"
  then have k: "unat k < 8" by (simp add: word_less_nat_alt)
  then have "unat (0x30 + k) = 48 + unat k" by (simp add: unat_word_ariths)
  then show ?thesis using k by (simp add: is_color_def word_le_nat_alt)
qed

lemma run_param:
  assumes "param_ok p" "mode st = CANSID_PARSE"
  shows "cansid_run st (param_bytes p) = ([], st\<lparr>mode := CANSID_ENDVAL, next_style := apply_param p (next_style st)\<rparr>)"
  using assms color_byte by (cases p) (simp_all add: cansid_process_def cansid_step_def)

lemma run_params:
  assumes "ps \<noteq> []" "\<forall>p \<in> set ps. param_ok p" "mode st = CANSID_PARSE"
  shows "cansid_run st (params_bytes ps) = ([], st\<lparr>mode := CANSID_ENDVAL, next_style := fold apply_param ps (next_style st)\<rparr>)"
  using assms
proof (induction ps arbitrary: st rule: params_bytes.induct)
  case (3 p q ps)
  let ?st = "st\<lparr>mode := CANSID_PARSE, next_style := apply_param p (next_style st)\<rparr>"
  have "cansid_run (st\<lparr>mode := CANSID_ENDVAL, next_style := apply_param p (next_style st)\<rparr>) (0x3B # params_bytes (q # ps)) =
      cansid_run ?st (params_bytes (q # ps))"
    by (cases st) (simp add: cansid_process_def cansid_step_def Let_def split: prod.splits)
  then show ?case using 3 run_param [of p st] by (cases st) (simp add: cansid_run_append)
qed (simp_all add: run_param)

definition settled :: "u8 \<Rightarrow> cansid_state" where
  "settled sty = \<lparr>mode = CANSID_ESC, style = sty, next_style = sty\<rparr>"

lemma run_token:
  assumes "token_ok t"
  shows "cansid_run (settled sty) (token_bytes t) = (let (out, sty') = render sty [t] in (out, settled sty'))"
proof (cases t)
  case (Plain c)
  then show ?thesis using assms by (simp add: cansid_process_def cansid_step_def settled_def Let_def)
next
  case (Sgr ps)
  let ?st = "(settled sty)\<lparr>mode := CANSID_PARSE\<rparr>"
  have ps: "ps \<noteq> []" "\<forall>p \<in> set ps. param_ok p" using assms Sgr by simp_all
  have "cansid_run ?st (params_bytes ps) = ([], ?st\<lparr>mode := CANSID_ENDVAL, next_style := fold apply_param ps sty\<rparr>)"
    using run_params [OF ps, of ?st] by (simp add: settled_def)
  then have "cansid_run ?st (params_bytes ps @ [0x6D]) = ([], settled (fold apply_param ps sty))"
    by (simp add: cansid_run_append cansid_process_def cansid_step_def settled_def)
  moreover have "cansid_run (settled sty) ([ESC, 0x5B] @ cs) = cansid_run ?st cs" for cs
    by (simp add: cansid_process_def cansid_step_def settled_def ESC_def Let_def split: prod.splits)
  ultimately show ?thesis using Sgr by simp
qed

lemma render_append:
  "render sty (ts @ us) = (let (o1, s1) = render sty ts; (o2, s2) = render s1 us in (o1 @ o2, s2))"
  by (induction sty ts rule: render.induct) (auto simp: Let_def split: prod.splits)

text \<open>
  C25. The escape sequences of the console.  For every text made of characters and well-formed style
  sequences (a list of parameters for reset, bold, not bold, foreground and background),
  the automaton prints exactly the characters, each in the style that the sequences before it
  give, prints nothing of the sequences, and ends settled in the last style.  Setting a background
  keeps bit 4 of the old style, though: once the blue component of the background is set,
  only a reset clears it.
\<close>

theorem cansid_renders:
  assumes "\<forall>t \<in> set ts. token_ok t"
  shows "cansid_run (settled sty) (concat (map token_bytes ts)) = (let (out, sty') = render sty ts in (out, settled sty')) \<and>
    (\<forall>k. bit sty 4 \<longrightarrow> bit (apply_param (Bg k) sty) 4)"
proof
  show "cansid_run (settled sty) (concat (map token_bytes ts)) = (let (out, sty') = render sty ts in (out, settled sty'))"
    using assms
  proof (induction ts arbitrary: sty)
    case (Cons t ts)
    obtain o1 s1 where r: "render sty [t] = (o1, s1)" by fastforce
    have "render sty (t # ts) = (let (o2, s2) = render s1 ts in (o1 @ o2, s2))"
      using render_append [of sty "[t]" ts] r by simp
    then show ?case using Cons run_token [of t sty] r by (auto simp: cansid_run_append Let_def split: prod.splits)
  qed simp
  have "bit (0x1F :: u8) 4" by (simp add: bit_numeral_rec numeral_eq_Suc)
  then show "\<forall>k. bit sty 4 \<longrightarrow> bit (apply_param (Bg k) sty) 4" by (simp add: bit_simps)
qed

theorem cansid_renders_witness:
  "cansid_run (settled 0x0F) (concat (map token_bytes [Sgr [Unbold, Fg 0, Bg 7], Plain 0x41, Sgr [Reset], Plain 0x42]))
     = ([(0x70, 0x41), (0x0F, 0x42)], settled 0x0F)"
  using cansid_renders [of "[Sgr [Unbold, Fg 0, Bg 7], Plain 0x41, Sgr [Reset], Plain 0x42]" "0x0F"]
  by (simp add: ESC_def cansid_convert_color_def)

section \<open>The screen\<close>

definition on_screen :: "console \<Rightarrow> bool" where
  "on_screen s \<longleftrightarrow> x_pos s < VGAWIDTH \<and> y_pos s < VGAHEIGHT"

lemma setcursor_fields [simp]:
  "x_pos (vga_tmode_setcursor x y s) = x" "y_pos (vga_tmode_setcursor x y s) = y" "cells (vga_tmode_setcursor x y s) = cells s"
  "cansid (vga_tmode_setcursor x y s) = cansid s"
  by (simp_all add: vga_tmode_setcursor_def Let_def)

text \<open>What scrolling does: every line but the first moves up, the last is blank.\<close>

lemma copy_lines:
  "m \<le> 24 \<Longrightarrow> fold copy_line [2..<2 + m] buf = (\<lambda>j. if 80 \<le> j \<and> j < 80 + 80 * m then buf (j + 80) else buf j)"
proof (induction m)
  case (Suc m)
  let ?g = "\<lambda>j. if 80 \<le> j \<and> j < 80 + 80 * m then buf (j + 80) else buf j"
  have c: "copy_line (2 + m) ?g j = (if 80 \<le> j \<and> j < 80 + 80 * Suc m then buf (j + 80) else buf j)" for j
  proof (cases "80 + 80 * m \<le> j \<and> j < 160 + 80 * m")
    case True
    then have "(2 + m) * 80 + (j - (80 + 80 * m)) = j + 80" by simp
    then show ?thesis using True by (simp add: copy_line_def VGAWIDTH_def add.commute)
  next
    case False
    then show ?thesis by (auto simp: copy_line_def VGAWIDTH_def)
  qed
  have "fold copy_line [2..<2 + Suc m] buf = copy_line (2 + m) (fold copy_line [2..<2 + m] buf)" by simp
  also have "\<dots> = copy_line (2 + m) ?g" using Suc by simp
  finally show ?case using c by auto
qed (auto simp: fun_eq_iff)

lemma scroll_cells:
  "clear_line (VGAHEIGHT - 1) (fold copy_line [2..<VGAHEIGHT] buf) =
     (\<lambda>j. if 80 \<le> j \<and> j < 1920 then buf (j + 80) else if 1920 \<le> j \<and> j < 2000 then blank else buf j)"
  using copy_lines [of 23 buf] by (auto simp: clear_line_def VGAWIDTH_def VGAHEIGHT_def del: upt_rec_numeral)

definition below_title :: "console \<Rightarrow> console \<Rightarrow> bool" where
  "below_title s s' \<longleftrightarrow> on_screen s' \<and> (\<forall>j \<ge> 2000. cells s' j = cells s j) \<and>
     (1 \<le> y_pos s \<longrightarrow> 1 \<le> y_pos s' \<and> (\<forall>j < 80. cells s' j = cells s j))"

lemma below_title_trans: "below_title s s1 \<Longrightarrow> below_title s1 s2 \<Longrightarrow> below_title s s2"
  by (simp add: below_title_def)

lemma newline_below: "on_screen s \<Longrightarrow> below_title s (vga_tmode_newline s)"
  unfolding vga_tmode_newline_def scroll_cells Let_def by (auto simp: below_title_def on_screen_def VGAWIDTH_def VGAHEIGHT_def)

lemma write_char_below:
  assumes "on_screen s"
  shows "below_title s (vga_tmode_write_char c sty (x_pos s) (y_pos s) s)"
proof -
  have "y_pos s * 80 + x_pos s < 2000" using assms by (simp add: on_screen_def VGAWIDTH_def VGAHEIGHT_def)
  moreover have "1 \<le> y_pos s \<Longrightarrow> 80 \<le> y_pos s * 80 + x_pos s" by simp
  ultimately show ?thesis using assms by (auto simp: below_title_def on_screen_def vga_tmode_write_char_def)
qed

lemma put_plain_below:
  assumes "on_screen s"
  shows "below_title s (put_plain c sty s)"
proof -
  let ?w = "vga_tmode_write_char c sty (x_pos s) (y_pos s) s"
  have keep: "below_title s s' \<Longrightarrow> below_title s (vga_tmode_setcursor (x_pos s') (y_pos s') s')" for s'
    by (simp add: below_title_def on_screen_def)
  have "below_title s s" using assms by (simp add: below_title_def)
  moreover have "below_title s (vga_tmode_newline s)" by (rule newline_below [OF assms])
  moreover have w: "below_title s ?w" by (rule write_char_below [OF assms])
  moreover have "below_title s (vga_tmode_newline ?w)"
    using w newline_below [of ?w] below_title_trans by (auto simp: below_title_def)
  moreover have "x_pos ?w \<noteq> VGAWIDTH - 1 \<Longrightarrow> below_title s (?w\<lparr>x_pos := x_pos ?w + 1\<rparr>)"
    using w by (auto simp: below_title_def on_screen_def VGAWIDTH_def)
  ultimately show ?thesis unfolding put_plain_def Let_def by (intro keep) simp
qed

lemma set_cansid_below: "below_title (s\<lparr>cansid := st\<rparr>) s' \<longleftrightarrow> below_title s s'" "on_screen (s\<lparr>cansid := st\<rparr>) \<longleftrightarrow> on_screen s"
  by (simp_all add: below_title_def on_screen_def)

lemma put_space_below: "on_screen s \<Longrightarrow> below_title s (put_space s)"
  using put_plain_below [of "s\<lparr>cansid := st\<rparr>" for st]
  by (simp add: put_space_def set_cansid_below Let_def split: prod.splits)

lemma raw_putchar_below:
  assumes "on_screen s"
  shows "below_title s (vga_tmode_raw_putchar c sty s)"
proof -
  have "below_title s ((put_space ^^ n) s)" for n
  proof (induction n)
    case (Suc n)
    then have "on_screen ((put_space ^^ n) s)" by (simp add: below_title_def)
    then show ?case using Suc put_space_below below_title_trans by simp
  qed (use assms in \<open>simp add: below_title_def\<close>)
  then show ?thesis using put_plain_below [OF assms]
    by (simp add: vga_tmode_raw_putchar_def Let_def below_title_def on_screen_def)
qed

lemma putchar_below: "on_screen s \<Longrightarrow> below_title s (vga_tmode_putchar c s)"
  using raw_putchar_below [of "s\<lparr>cansid := st\<rparr>" for st]
  by (simp add: vga_tmode_putchar_def set_cansid_below Let_def split: prod.splits)

lemma puts_below: "on_screen s \<Longrightarrow> below_title s (vga_tmode_puts cs s)"
proof (induction cs arbitrary: s)
  case (Cons c cs)
  have "below_title s (vga_tmode_putchar c s)" by (rule putchar_below [OF Cons.prems])
  then show ?case using Cons.IH [of "vga_tmode_putchar c s"] below_title_trans by (auto simp: vga_tmode_puts_def below_title_def)
qed (simp add: vga_tmode_puts_def below_title_def)

text \<open>
  C26. The screen is well typed.  From a cursor on the screen, writing any sequence of bytes, escape
  sequences, tabs and malformed sequences included, leaves the cursor on the screen and
  changes no memory behind the 80 by 25 cells; once the cursor has left the first line,
  neither writing nor scrolling ever changes that line again.
\<close>

theorem vga_tmode_screen:
  assumes "on_screen s"
  shows "let s' = vga_tmode_puts cs s in on_screen s' \<and> (\<forall>j \<ge> 2000. cells s' j = cells s j) \<and>
    (1 \<le> y_pos s \<longrightarrow> 1 \<le> y_pos s' \<and> (\<forall>j < 80. cells s' j = cells s j))"
  using puts_below [OF assms] by (simp add: below_title_def Let_def)

definition ex_console :: console where
  "ex_console = \<lparr>dev = \<lparr>answers = (\<lambda>p. replicate 40 0x20), port_log = []\<rparr>, cells = (\<lambda>j. 0), x_pos = 0, y_pos = 0, cansid = cansid_init\<rparr>"

theorem vga_tmode_screen_witness:
  "on_screen (vga_tmode_puts [0x41, 0x0A, 0xFF, 0x09] ex_console)"
  using vga_tmode_screen [of ex_console "[0x41, 0x0A, 0xFF, 0x09]"]
  by (simp add: on_screen_def ex_console_def VGAWIDTH_def VGAHEIGHT_def Let_def)

text \<open>Plain characters on the rest of a line.\<close>

definition plain :: "u8 \<Rightarrow> bool" where
  "plain c \<longleftrightarrow> c \<noteq> 0 \<and> c \<noteq> ESC \<and> c \<noteq> 0x0A \<and> c \<noteq> 0x09"

definition cell :: "u8 \<Rightarrow> u8 \<Rightarrow> u16" where
  "cell sty c = push_bit 8 (ucast sty) OR scast c"

lemma putchar_plain:
  assumes "plain c" "cansid s = settled sty" "x_pos s < VGAWIDTH - 1"
  defines "s' \<equiv> vga_tmode_putchar c s"
  shows "cells s' = (cells s)(y_pos s * 80 + x_pos s := cell sty c)" "x_pos s' = x_pos s + 1" "y_pos s' = y_pos s" "cansid s' = settled sty"
  using assms
  by (simp_all add: plain_def vga_tmode_putchar_def cansid_process_def cansid_step_def settled_def vga_tmode_raw_putchar_def put_plain_def
      vga_tmode_write_char_def cell_def VGAWIDTH_def Let_def)

lemma puts_plain:
  assumes "\<forall>c \<in> set cs. plain c" "cansid s = settled sty" "x_pos s + length cs < VGAWIDTH"
  defines "s' \<equiv> vga_tmode_puts cs s"
  shows "x_pos s' = x_pos s + length cs \<and> y_pos s' = y_pos s \<and> cansid s' = settled sty \<and>
    (\<forall>i < length cs. cells s' (y_pos s * 80 + x_pos s + i) = cell sty (cs ! i)) \<and>
    (\<forall>j. j < y_pos s * 80 + x_pos s \<longrightarrow> cells s' j = cells s j)"
  using assms(1-3) unfolding s'_def
proof (induction cs arbitrary: s)
  case (Cons c cs)
  let ?s1 = "vga_tmode_putchar c s" and ?k = "y_pos s * 80 + x_pos s"
  have x: "x_pos s < VGAWIDTH - 1" using Cons.prems(3) by simp
  note p = putchar_plain [OF _ Cons.prems(2) x, of c]
  have IH: "x_pos (vga_tmode_puts cs ?s1) = x_pos s + Suc (length cs) \<and> y_pos (vga_tmode_puts cs ?s1) = y_pos s \<and>
    cansid (vga_tmode_puts cs ?s1) = settled sty \<and>
    (\<forall>i < length cs. cells (vga_tmode_puts cs ?s1) (?k + Suc i) = cell sty (cs ! i)) \<and>
    (\<forall>j. j < Suc ?k \<longrightarrow> cells (vga_tmode_puts cs ?s1) j = cells ?s1 j)"
    using Cons.IH [of ?s1] Cons.prems p by (simp add: add.assoc)
  have "cells (vga_tmode_puts cs ?s1) (?k + i) = cell sty ((c # cs) ! i)" if "i < length (c # cs)" for i
    using IH p(1) Cons.prems(1) that by (cases i) simp_all
  then show ?case using IH p(1) Cons.prems(1) by (simp add: vga_tmode_puts_def)
qed (simp add: vga_tmode_puts_def)

lemma putchar_last:
  assumes "plain c" "cansid s = settled sty" "x_pos s = VGAWIDTH - 1" "y_pos s < VGAHEIGHT - 1"
  defines "s' \<equiv> vga_tmode_putchar c s"
  shows "cells s' = (cells s)(y_pos s * 80 + 79 := cell sty c)" "x_pos s' = 0" "y_pos s' = y_pos s + 1" "cansid s' = settled sty"
  using assms
  by (simp_all add: plain_def vga_tmode_putchar_def cansid_process_def cansid_step_def settled_def vga_tmode_raw_putchar_def put_plain_def
      vga_tmode_write_char_def vga_tmode_newline_def cell_def VGAWIDTH_def Let_def)

text \<open>Style sequences leave the screen alone.\<close>

lemma putchar_silent:
  assumes "fst (cansid_step c (cansid s)) = 0"
  defines "s' \<equiv> vga_tmode_putchar c s"
  shows "cells s' = cells s" "x_pos s' = x_pos s" "y_pos s' = y_pos s" "cansid s' = snd (cansid_step c (cansid s))"
  using assms by (auto simp: vga_tmode_putchar_def cansid_process_def vga_tmode_raw_putchar_def put_plain_def Let_def split: prod.splits)

lemma puts_silent:
  assumes "cansid_run (cansid s) cs = ([], st)"
  defines "s' \<equiv> vga_tmode_puts cs s"
  shows "cells s' = cells s \<and> x_pos s' = x_pos s \<and> y_pos s' = y_pos s \<and> cansid s' = st"
  using assms(1) unfolding s'_def
proof (induction cs arbitrary: s)
  case (Cons c cs)
  have "fst (cansid_step c (cansid s)) = 0" "cansid_run (snd (cansid_step c (cansid s))) cs = ([], st)"
    using Cons.prems by (auto simp: cansid_process_def Let_def split: prod.splits if_splits)
  then show ?case using Cons.IH [of "vga_tmode_putchar c s"] putchar_silent [of c s] by (simp add: vga_tmode_puts_def)
qed (simp add: vga_tmode_puts_def)

lemma puts_append: "vga_tmode_puts (xs @ ys) s = vga_tmode_puts ys (vga_tmode_puts xs s)"
  by (simp add: vga_tmode_puts_def)

definition title_line :: "u8 list" where
  "title_line = title_text @ replicate 37 0x20"

lemma title_plain: "\<forall>c \<in> set title_line. plain c" "length title_line = 80"
proof -
  have t: "title_line = replicate 37 0x20 @ [0x42, 0x79, 0x74, 0x65, 0x4F, 0x53] @ replicate 37 0x20"
    by (simp add: title_line_def title_text_def bytes_def)
  show "\<forall>c \<in> set title_line. plain c" unfolding t by (auto simp: plain_def ESC_def)
  show "length title_line = 80" unfolding t by simp
qed

lemma puts_title:
  assumes "cansid s = settled sty" "x_pos s = 0" "y_pos s = 0"
  defines "s' \<equiv> vga_tmode_puts title_line s"
  shows "(\<forall>j < 80. cells s' j = cell sty (title_line ! j)) \<and> x_pos s' = 0 \<and> y_pos s' = 1 \<and> cansid s' = settled sty"
proof -
  let ?b = "butlast title_line" and ?c = "last title_line"
  have ne: "title_line \<noteq> []" and len: "length ?b = 79" using title_plain(2) by auto
  have pl: "\<forall>c \<in> set ?b. plain c" "plain ?c"
    using title_plain(1) last_in_set [OF ne] in_set_butlastD [of _ title_line] by simp_all
  note p = puts_plain [OF pl(1) assms(1)]
  have b: "x_pos (vga_tmode_puts ?b s) = 79 \<and> y_pos (vga_tmode_puts ?b s) = 0 \<and> cansid (vga_tmode_puts ?b s) = settled sty \<and>
    (\<forall>i < 79. cells (vga_tmode_puts ?b s) i = cell sty (?b ! i))"
    using p assms(2,3) len by (simp add: VGAWIDTH_def)
  have "s' = vga_tmode_putchar ?c (vga_tmode_puts ?b s)"
    using puts_append [of ?b "[?c]" s] ne by (simp add: s'_def vga_tmode_puts_def)
  moreover note putchar_last [OF pl(2), of "vga_tmode_puts ?b s" sty]
  ultimately have s': "cells s' = (cells (vga_tmode_puts ?b s))(79 := cell sty ?c)" "x_pos s' = 0" "y_pos s' = 1" "cansid s' = settled sty"
    using b by (simp_all add: VGAWIDTH_def VGAHEIGHT_def)
  have "cells s' j = cell sty (title_line ! j)" if "j < 80" for j
  proof (cases "j = 79")
    case True
    then show ?thesis using s'(1) title_plain(2) ne by (simp add: last_conv_nth)
  next
    case False
    then show ?thesis using s'(1) b that len by (simp add: nth_butlast)
  qed
  then show ?thesis using s'(2-4) by simp
qed

text \<open>
  The title line.  When the console has been initialised with the cursor at the origin, the first
  line shows the name of the system, centred, black on light grey, and it still does after any
  output; the cursor has moved to the second line and the style is the default again.
\<close>

lemma vga_tmode_title:
  assumes "vga_tmode_init s = Some s1" and "x_pos s = 0" and "y_pos s = 0"
  shows "x_pos s1 = 0 \<and> y_pos s1 = 1 \<and> cansid s1 = settled 0x0F \<and>
    (\<forall>j < 80. cells (vga_tmode_puts cs s1) j = cell 0x70 ((replicate 37 0x20 @ bytes ''ByteOS'' @ replicate 37 0x20) ! j))"
proof -
  obtain d where "serial_init (dev s) = Some d"
    and s1: "s1 = vga_tmode_puts (replicate 37 0x20 @ [ESC] @ bytes ''[0m'')
       (vga_tmode_puts ([ESC] @ bytes ''[=1;30;47m'' @ title_text) (s\<lparr>dev := d, cansid := cansid_init\<rparr>))"
    using assms(1) by (auto simp: vga_tmode_init_def split: bind_splits)
  let ?s = "s\<lparr>dev := d, cansid := cansid_init\<rparr>"
  let ?a = "token_bytes (Sgr [Unbold, Fg 0, Bg 7])" and ?z = "token_bytes (Sgr [Reset])"
  have az: "[ESC] @ bytes ''[=1;30;47m'' = ?a" "[ESC] @ bytes ''[0m'' = ?z" by (simp_all add: bytes_def)
  have s1': "s1 = vga_tmode_puts ?z (vga_tmode_puts title_line (vga_tmode_puts ?a ?s))"
    unfolding s1 title_line_def az [symmetric] puts_append append_assoc [symmetric] by (simp add: puts_append)
  have "cansid_run (cansid ?s) ?a = ([], settled 0x70)"
    using run_token [of "Sgr [Unbold, Fg 0, Bg 7]" "0x0F"] by (simp add: cansid_init_def settled_def cansid_convert_color_def)
  note A = puts_silent [OF this]
  define t where "t = vga_tmode_puts title_line (vga_tmode_puts ?a ?s)"
  have T: "(\<forall>j < 80. cells t j = cell 0x70 (title_line ! j)) \<and> x_pos t = 0 \<and> y_pos t = 1 \<and> cansid t = settled 0x70"
    unfolding t_def using A assms(2,3) by (intro puts_title) simp_all
  have "cansid_run (cansid t) ?z = ([], settled 0x0F)" using run_token [of "Sgr [Reset]" "0x70"] T by simp
  note Z = puts_silent [OF this, folded t_def]
  have "on_screen s1" using Z T s1' unfolding t_def [symmetric] by (simp add: on_screen_def VGAWIDTH_def VGAHEIGHT_def)
  from puts_below [OF this, of cs] show ?thesis
    using Z T s1' unfolding t_def [symmetric] by (simp add: below_title_def title_line_def title_text_def)
qed

section \<open>Polling\<close>

definition granted :: "u16 \<Rightarrow> (u8 \<Rightarrow> bool) \<Rightarrow> io \<Rightarrow> nat" where
  "granted port ready s = length (filter ready (answers s port))"

lemma poll_granted:
  assumes "0 < granted port ready s"
  shows "\<exists>bs. poll port ready s = Some (s\<lparr>answers := (answers s)(port := bs)\<rparr>) \<and> Suc (length (filter ready bs)) = granted port ready s"
  using assms
proof (induction "answers s port" arbitrary: s)
  case (Cons b bs)
  show ?case
  proof (cases "ready b")
    case True
    then show ?thesis using Cons.hyps(2) [symmetric]
      by (subst poll.simps) (auto simp: inb_def granted_def intro!: exI [of _ bs])
  next
    case False
    let ?s = "s\<lparr>answers := (answers s)(port := bs)\<rparr>"
    have "granted port ready ?s = granted port ready s" using False Cons.hyps(2) [symmetric] by (simp add: granted_def)
    then show ?thesis
      using Cons.hyps(1) [of ?s] Cons.prems False Cons.hyps(2) [symmetric] by (subst poll.simps) (simp add: inb_def)
  qed
qed (simp add: granted_def)

lemma poll_never:
  assumes "granted port ready s = 0"
  shows "poll port ready s = None"
  using assms
proof (induction "answers s port" arbitrary: s)
  case Nil
  then show ?case by (subst poll.simps) (simp add: inb_def)
next
  case (Cons b bs)
  let ?s = "s\<lparr>answers := (answers s)(port := bs)\<rparr>"
  have "\<not> ready b" "granted port ready ?s = 0" using Cons.prems Cons.hyps(2) [symmetric] by (auto simp: granted_def split: if_splits)
  then show ?case using Cons.hyps(1) [of ?s] Cons.hyps(2) [symmetric] by (subst poll.simps) (simp add: inb_def)
qed

section \<open>The serial line\<close>

abbreviation line_free :: "io \<Rightarrow> nat" where
  "line_free \<equiv> granted (COM1_PORT + 5) serial_transmit_empty"

definition serial_out :: "io \<Rightarrow> u8 list" where
  "serial_out s = map snd (filter (\<lambda>w. fst w = COM1_PORT) (port_log s))"

lemma serial_write_ok:
  assumes "0 < line_free s"
  shows "\<exists>s'. serial_write_com 1 c s = Some s' \<and> Suc (line_free s') = line_free s \<and> serial_out s' = serial_out s @ [c]"
  using poll_granted [OF assms]
  by (auto simp: serial_write_com_def out_port_def serial_out_def granted_def)

lemma serial_write_never: "line_free s = 0 \<Longrightarrow> serial_write_com 1 c s = None"
  by (simp add: serial_write_com_def poll_never)

text \<open>The screen only uses the ports of the cursor, and does not depend on the devices.\<close>

definition screen :: "console \<Rightarrow> (nat \<Rightarrow> u16) \<times> nat \<times> nat \<times> cansid_state" where
  "screen s = (cells s, x_pos s, y_pos s, cansid s)"

definition quiet :: "console \<Rightarrow> console \<Rightarrow> bool" where
  "quiet s s' \<longleftrightarrow> answers (dev s') = answers (dev s) \<and> serial_out (dev s') = serial_out (dev s)"

lemma quiet_trans: "quiet s s1 \<Longrightarrow> quiet s1 s2 \<Longrightarrow> quiet s s2"
  by (simp add: quiet_def)

lemma setcursor_quiet: "quiet s (vga_tmode_setcursor x y s')" if "quiet s s'"
  using that by (simp add: quiet_def vga_tmode_setcursor_def Let_def out_ports_def out_port_def serial_out_def COM1_PORT_def)

lemma newline_quiet: "quiet s (vga_tmode_newline s)"
  unfolding vga_tmode_newline_def Let_def by (rule setcursor_quiet) (simp add: quiet_def)

lemma put_plain_quiet: "quiet s (put_plain c sty s)"
proof -
  let ?w = "vga_tmode_write_char c sty (x_pos s) (y_pos s) s"
  have w: "quiet s ?w" "quiet s s" by (simp_all add: quiet_def vga_tmode_write_char_def)
  moreover have "quiet s (vga_tmode_newline ?w)" using w(1) newline_quiet quiet_trans by blast
  ultimately show ?thesis unfolding put_plain_def Let_def
    using newline_quiet [of s] by (intro setcursor_quiet) (auto simp: quiet_def)
qed

lemma put_space_quiet: "quiet s (put_space s)"
  using put_plain_quiet [of "s\<lparr>cansid := st\<rparr>" for st] by (simp add: put_space_def quiet_def Let_def split: prod.splits)

lemma putchar_quiet: "quiet s (vga_tmode_putchar c s)"
proof -
  have "quiet s ((put_space ^^ n) s)" for n s
  proof (induction n)
    case (Suc n)
    then show ?case using quiet_trans [OF _ put_space_quiet] by simp
  qed (simp add: quiet_def)
  then have "quiet s (vga_tmode_raw_putchar c sty s)" for c sty s
    using put_plain_quiet setcursor_quiet by (simp add: vga_tmode_raw_putchar_def Let_def)
  then have "quiet (s\<lparr>cansid := st\<rparr>) (vga_tmode_raw_putchar c sty (s\<lparr>cansid := st\<rparr>))" for c sty st by blast
  then show ?thesis by (simp add: vga_tmode_putchar_def quiet_def Let_def split: prod.splits)
qed

lemma put_plain_screen: "screen (put_plain c sty (s\<lparr>dev := d\<rparr>)) = screen (put_plain c sty s)"
  by (simp add: screen_def put_plain_def vga_tmode_newline_def vga_tmode_write_char_def Let_def)

lemma screen_eq: "screen s = screen s' \<longleftrightarrow> s = s'\<lparr>dev := dev s\<rparr>"
  by (cases s; cases s') (auto simp: screen_def)

lemma cansid_dev: "(s :: console)\<lparr>dev := d, cansid := st\<rparr> = s\<lparr>cansid := st, dev := d\<rparr>"
  by simp

lemma put_space_screen: "screen (put_space (s\<lparr>dev := d\<rparr>)) = screen (put_space s)"
  using put_plain_screen [of _ _ d "s\<lparr>cansid := st\<rparr>" for st] by (simp add: put_space_def cansid_dev Let_def split: prod.splits)

lemma putchar_screen: "screen (vga_tmode_putchar c (s\<lparr>dev := d\<rparr>)) = screen (vga_tmode_putchar c s)"
proof -
  have sp: "screen ((put_space ^^ n) (s\<lparr>dev := d\<rparr>)) = screen ((put_space ^^ n) s)" for n s
    by (induction n) (simp add: screen_def, metis put_space_screen screen_eq comp_apply funpow.simps(2))
  have "screen (vga_tmode_raw_putchar c sty (s\<lparr>dev := d\<rparr>)) = screen (vga_tmode_raw_putchar c sty s)" for c sty s
    using sp [of 4 s] put_plain_screen by (simp add: vga_tmode_raw_putchar_def screen_def Let_def)
  from this [of _ _ "s\<lparr>cansid := st\<rparr>" for st] show ?thesis
    by (simp add: vga_tmode_putchar_def cansid_dev Let_def split: prod.splits)
qed

lemma puts_screen: "screen s = screen s' \<Longrightarrow> screen (vga_tmode_puts cs s) = screen (vga_tmode_puts cs s')"
proof (induction cs arbitrary: s s')
  case (Cons c cs)
  have "screen (vga_tmode_putchar c s) = screen (vga_tmode_putchar c s')"
    using Cons.prems putchar_screen unfolding screen_eq by metis
  from Cons.IH [OF this] show ?case by (simp add: vga_tmode_puts_def)
qed (simp add: vga_tmode_puts_def)

text \<open>
  Writing a string returns exactly if the serial line becomes free once for each character; then
  the line has been sent exactly these characters, in order, and the screen is as if they had
  been put on it one after the other.
\<close>

lemma kprintf_write_str_both:
  "if length cs \<le> line_free (dev s)
   then \<exists>s'. kprintf_write_str cs s = Some s' \<and> serial_out (dev s') = serial_out (dev s) @ cs \<and>
     screen s' = screen (vga_tmode_puts cs s)
   else kprintf_write_str cs s = None"
proof (induction cs arbitrary: s)
  case (Cons c cs)
  show ?case
  proof (cases "line_free (dev s)")
    case 0
    then show ?thesis by (simp add: kprintf_write_char_def serial_write_never)
  next
    case (Suc n)
    then obtain d where d: "serial_write_com 1 c (dev s) = Some d" "line_free d = n" "serial_out d = serial_out (dev s) @ [c]"
      using serial_write_ok [of "dev s" c] by auto
    let ?s = "vga_tmode_putchar c (s\<lparr>dev := d\<rparr>)"
    have q: "line_free (dev ?s) = n" "serial_out (dev ?s) = serial_out (dev s) @ [c]"
      using putchar_quiet [of "s\<lparr>dev := d\<rparr>" c] d by (simp_all add: quiet_def granted_def)
    have "screen (vga_tmode_puts cs ?s) = screen (vga_tmode_puts (c # cs) s)"
      using puts_screen [OF putchar_screen, of cs c d s] by (simp add: vga_tmode_puts_def)
    then show ?thesis using Cons.IH [of ?s] d(1) q Suc by (auto simp: kprintf_write_char_def split: if_splits)
  qed
qed (simp add: vga_tmode_puts_def)

text \<open>
  What is printed appears on both devices.  For a format of plain text and conversions with matching
  arguments, none of them -2^63 for a signed 64-bit conversion, with the lock of the console free and a serial line that becomes free for every
  character, \<^verbatim>\<open>kprintf\<close> returns with the lock and the processor as before, the serial line has been sent exactly
  the formatted text, and the screen shows what putting that text on it gives.  The system call
  that writes one character does so for this character.
\<close>

lemma console_kprintf_both:
  assumes "\<forall>p \<in> set ps. piece_ok p" and "length (concat (map piece_output ps)) \<le> line_free (dev s)" and "1 \<le> line_free (dev s)"
  shows "(\<exists>s'. console_kprintf (concat (map piece_format ps)) (concat (map piece_args ps)) 0 c s =
        Some (Inr (sum_list (map piece_count ps), 0, c, s')) \<and>
      serial_out (dev s') = serial_out (dev s) @ bytes (concat (map piece_output ps)) \<and>
      screen s' = screen (vga_tmode_puts (bytes (concat (map piece_output ps))) s)) \<and>
    (\<exists>s'. syscall_write ch 0 c s = Some (Inr (0, 0, c, s')) \<and> serial_out (dev s') = serial_out (dev s) @ [ucast ch] \<and>
      screen s' = screen (vga_tmode_putchar (ucast ch) s))"
proof
  have k: "kprintf (concat (map piece_format qs)) (concat (map piece_args qs)) 0 c =
      Some (Inr ((concat (map piece_output qs), sum_list (map piece_count qs)), 0, c))" if "\<forall>p \<in> set qs. piece_ok p" for qs
    using kvprintf_pieces [OF that, of "''''" 0] by (simp add: kprintf_locking)
  have len: "length (bytes out) = length out" for out by (simp add: bytes_def)
  show "\<exists>s'. console_kprintf (concat (map piece_format ps)) (concat (map piece_args ps)) 0 c s =
        Some (Inr (sum_list (map piece_count ps), 0, c, s')) \<and>
      serial_out (dev s') = serial_out (dev s) @ bytes (concat (map piece_output ps)) \<and>
      screen s' = screen (vga_tmode_puts (bytes (concat (map piece_output ps))) s)"
    using kprintf_write_str_both [of "bytes (concat (map piece_output ps))" s] k [OF assms(1)] assms(2) len
    by (auto simp: console_kprintf_def)
  have b: "bytes [char_of (unat (ucast ch :: u8))] = [ucast ch]"
    using unsigned_less [where w = "ucast ch :: u8" and ?'a = nat] by (simp add: bytes_def of_char_of take_bit_nat_eq_self_iff)
  have "kvprintf ''%c'' [Slot ch] '''' 0 = Some (Inr ([char_of (unat (ucast ch :: u8))], 2))"
    by (simp add: kvprintf.simps [of "''%c''"] conversion_def at_char_def slot_value_def) (simp add: kvprintf.simps at_char_def)
  then have "kprintf ''%c'' [Slot ch] 0 c = Some (Inr (([char_of (unat (ucast ch :: u8))], 2), 0, c))"
    by (simp add: kprintf_locking)
  then show "\<exists>s'. syscall_write ch 0 c s = Some (Inr (0, 0, c, s')) \<and> serial_out (dev s') = serial_out (dev s) @ [ucast ch] \<and>
      screen s' = screen (vga_tmode_putchar (ucast ch) s)"
    using kprintf_write_str_both [of "[ucast ch]" s] assms(3) b
    by (auto simp: syscall_write_def console_kprintf_def vga_tmode_puts_def)
qed

lemma console_kprintf_both_example:
  "\<exists>s'. console_kprintf ''CPU %d'' [Slot 3] 0 \<lparr>preempt_count = 0, rflags = 0x202\<rparr> ex_console =
     Some (Inr (2, 0, \<lparr>preempt_count = 0, rflags = 0x202\<rparr>, s')) \<and> serial_out (dev s') = [0x43, 0x50, 0x55, 0x20, 0x33]"
proof -
  have f: "line_free (dev ex_console) = 40" "serial_out (dev ex_console) = []"
    by (simp_all add: granted_def serial_transmit_empty_def ex_console_def serial_out_def)
  have d: "digit_string 10 3 = ''3''" by (simp add: digit_string.simps)
  have m: "sint (ucast (3 :: u64) :: u32) = 3" by code_simp
  have "\<exists>s'. console_kprintf ''CPU %d'' [Slot 3] 0 \<lparr>preempt_count = 0, rflags = 0x202\<rparr> ex_console =
     Some (Inr (Suc (Suc 0), 0, \<lparr>preempt_count = 0, rflags = 0x202\<rparr>, s')) \<and> serial_out (dev s') = [0x43, 0x50, 0x55, 0x20, 0x33] \<and>
     screen s' = screen (vga_tmode_puts [0x43, 0x50, 0x55, 0x20, 0x33] ex_console)"
    using console_kprintf_both [of "[Text ''CPU '', Sint 3]" ex_console "\<lparr>preempt_count = 0, rflags = 0x202\<rparr>" 0, THEN conjunct1] f
    by (simp add: int_number_def number_def d m bytes_def)
  then show ?thesis unfolding numeral_2_eq_2 by blast
qed

text \<open>The separator of the serial line and the title of an initialised console.\<close>

lemma serial_write_str_ok:
  "length cs \<le> line_free s \<Longrightarrow> \<exists>s'. serial_write_str cs s = Some s' \<and> serial_out s' = serial_out s @ cs"
proof (induction cs arbitrary: s)
  case (Cons c cs)
  then obtain s1 where s1: "serial_write_com 1 c s = Some s1" "Suc (line_free s1) = line_free s" "serial_out s1 = serial_out s @ [c]"
    using serial_write_ok [of s c] by auto
  then show ?case using Cons.IH [of s1] Cons.prems by auto
qed simp

lemma vga_tmode_title_example:
  "\<exists>s1. vga_tmode_init ex_console = Some s1 \<and> y_pos s1 = 1 \<and> cells (vga_tmode_puts [0x0A, 0x41] s1) 37 = 0x7042"
proof -
  let ?d = "out_ports (init_com COM1_PORT @ init_com COM2_PORT) (dev ex_console)"
  have "answers (fold (\<lambda>(port, val). out_port port val) ws d) = answers d" for ws d
    by (induction ws arbitrary: d) (auto simp: out_port_def)
  then have "answers ?d = (\<lambda>p. replicate 40 0x20)" by (simp add: out_ports_def ex_console_def)
  then have "line_free ?d = 40" by (simp add: granted_def serial_transmit_empty_def)
  then obtain d where "serial_init (dev ex_console) = Some d"
    using serial_write_str_ok [of separator ?d] by (auto simp: serial_init_def separator_def)
  then obtain s1 where s1: "vga_tmode_init ex_console = Some s1" by (simp add: vga_tmode_init_def)
  have "cell 0x70 ((replicate 37 0x20 @ bytes ''ByteOS'' @ replicate 37 0x20) ! 37) = 0x7042"
    by (simp add: nth_append bytes_def cell_def)
  then show ?thesis
    using vga_tmode_title [OF s1, of "[0x0A, 0x41]"] s1 by (simp add: ex_console_def del: nth_append)
qed

section \<open>The interval timer\<close>

definition timer_done :: "u8 \<Rightarrow> bool" where
  "timer_done b \<longleftrightarrow> b AND 0x80 \<noteq> 0"

text \<open>The bytes loaded into the counter so far.\<close>

definition loaded :: "io \<Rightarrow> u8 list" where
  "loaded s = map snd (filter (\<lambda>w. fst w = 0x40) (port_log s))"

text \<open>The counts that are loaded one after the other for a number of ticks, and the bytes of a count.\<close>

definition pit_counts :: "nat \<Rightarrow> nat list" where
  "pit_counts ticks = (if ticks \<le> 0xFFFF then [ticks] else replicate ((ticks - 1) div 0xFFFF) 0xFFFF)"

definition count_bytes :: "nat \<Rightarrow> u8 list" where
  "count_bytes c = [of_nat (c mod 256), of_nat (c div 256)]"

lemma pit_counts_step:
  "pit_counts ticks = (if ticks - 0xFFFF < 0x10000 then [min ticks 0xFFFF] else 0xFFFF # pit_counts (ticks - 0xFFFF))"
proof (cases "ticks - 0xFFFF < 0x10000")
  case True
  then show ?thesis by (auto simp: pit_counts_def div_if)
next
  case False
  then have "(ticks - 1) div 0xFFFF = Suc ((ticks - 0xFFFF - 1) div 0xFFFF)" by (simp add: div_if [of "ticks - 1"])
  moreover have "\<not> ticks \<le> 0xFFFF" using False by linarith
  ultimately show ?thesis using False by (simp add: pit_counts_def)
qed

lemma sum_pit_counts: "sum_list (pit_counts ticks) = (if ticks \<le> 0xFFFF then ticks else (ticks - 1) div 0xFFFF * 0xFFFF)"
  by (simp add: pit_counts_def sum_list_replicate)

lemma pit_wait_ok:
  assumes "0 < granted 0x40 timer_done s"
  shows "\<exists>s'. pit_wait s = Some s' \<and> Suc (granted 0x40 timer_done s') = granted 0x40 timer_done s \<and> loaded s' = loaded s"
  using assms
proof (induction "answers s 0x40" arbitrary: s)
  case (Cons b bs)
  let ?s = "s\<lparr>answers := (answers s)(0x40 := bs), port_log := port_log s @ [(0x43, 0xE2)]\<rparr>"
  have i: "inb 0x40 (out_port 0x43 0xE2 s) = Some (b, ?s)" using Cons.hyps(2) [symmetric] by (cases s) (simp add: inb_def out_port_def)
  show ?case
  proof (cases "timer_done b")
    case True
    then show ?thesis using i Cons.hyps(2) [symmetric]
      by (subst pit_wait.simps) (simp add: timer_done_def granted_def loaded_def)
  next
    case False
    then have "granted 0x40 timer_done ?s = granted 0x40 timer_done s" "loaded ?s = loaded s"
      using Cons.hyps(2) [symmetric] by (simp_all add: granted_def loaded_def)
    then show ?thesis using Cons.hyps(1) [of ?s] Cons.prems False i by (subst pit_wait.simps) (simp add: timer_done_def)
  qed
qed (simp add: granted_def)

lemma high_bits: "(t :: u64) AND NOT 0xFFFF = 0 \<longleftrightarrow> unat t < 0x10000"
proof -
  have m: "(0xFFFF :: u64) = mask 16" by (simp add: mask_eq_exp_minus_1)
  have "t AND NOT (mask 16) = 0 \<longleftrightarrow> t AND mask 16 = t" by (auto simp: bit_eq_iff bit_simps)
  also have "\<dots> \<longleftrightarrow> take_bit 16 (unat t) = unat t" by (simp add: word_unat_eq_iff unsigned_take_bit_eq flip: take_bit_eq_mask)
  finally show ?thesis unfolding m by (simp add: take_bit_nat_eq_self_iff)
qed

lemma unat_count: "unat (ucast (min (t :: u64) 0xFFFF) :: u16) = min (unat t) 0xFFFF"
proof -
  have m: "unat (min t 0xFFFF) = min (unat t) 0xFFFF" by (simp add: min_def word_le_nat_alt)
  then show ?thesis by (simp add: unsigned_ucast_eq take_bit_eq_mod)
qed

lemma low_byte: "(ucast ((c :: u16) AND 0xFF) :: u8) = of_nat (unat c mod 256)"
proof -
  have "(0xFF :: u16) = mask 8" by (simp add: mask_eq_exp_minus_1)
  then have "c AND 0xFF = take_bit 8 c" by (simp only: take_bit_eq_mask)
  then have "unat (c AND 0xFF) = take_bit 8 (unat c)" by (simp only: unsigned_take_bit_eq)
  then show ?thesis by (simp add: word_unat_eq_iff unsigned_ucast_eq unat_of_nat take_bit_eq_mod)
qed

lemma high_byte: "(ucast (drop_bit 8 (c :: u16)) :: u8) = of_nat (unat c div 256)"
proof -
  have "unat (drop_bit 8 c) = unat c div 256" by (simp add: drop_bit_eq_div unat_div)
  then show ?thesis by (simp add: word_unat_eq_iff unsigned_ucast_eq unat_of_nat take_bit_eq_mod del: drop_bit_eq_div)
qed

lemma unat_widen: "unat (ucast (c :: u16) :: u64) = unat c"
proof -
  have "unat c < 2 ^ 64" using unsigned_less [where w = c and ?'a = nat] by simp
  then show ?thesis by (simp add: unsigned_ucast_eq take_bit_nat_eq_self_iff)
qed

lemma pit_loop_ok:
  "length (pit_counts (unat t)) \<le> granted 0x40 timer_done s \<Longrightarrow>
     \<exists>s'. pit_loop t s = Some s' \<and> loaded s' = loaded s @ concat (map count_bytes (pit_counts (unat t)))"
proof (induction "unat t" arbitrary: t s rule: less_induct)
  case less
  let ?c = "ucast (min t 0xFFFF) :: u16" and ?t = "t - ucast (ucast (min t 0xFFFF) :: u16)"
  let ?s = "out_ports [(0x43, 0x30), (0x40, ucast (?c AND 0xFF)), (0x40, ucast (drop_bit 8 ?c))] s"
  have c: "unat ?c = min (unat t) 0xFFFF" by (rule unat_count)
  have "unat (ucast ?c :: u64) = unat ?c" by (rule unat_widen)
  then have t: "unat ?t = unat t - 0xFFFF" using c unat_sub_u64 [of "ucast ?c" t] by (simp add: word_le_nat_alt min_def split: if_splits)
  have b: "[ucast (?c AND 0xFF), ucast (drop_bit 8 ?c)] = count_bytes (min (unat t) 0xFFFF)"
    unfolding c [symmetric] count_bytes_def by (simp add: low_byte high_byte)
  have g: "granted 0x40 timer_done ?s = granted 0x40 timer_done s" "loaded ?s = loaded s @ count_bytes (min (unat t) 0xFFFF)"
    by (simp_all add: b [symmetric] granted_def loaded_def out_ports_def out_port_def)
  have "0 < granted 0x40 timer_done ?s" using less.prems g(1) by (simp add: pit_counts_def split: if_splits)
  then obtain s1 where s1: "pit_wait ?s = Some s1" "Suc (granted 0x40 timer_done s1) = granted 0x40 timer_done s"
    "loaded s1 = loaded s @ count_bytes (min (unat t) 0xFFFF)"
    using pit_wait_ok [of ?s] g by auto
  show ?case
  proof (cases "unat t - 0xFFFF < 0x10000")
    case True
    then have "?t AND NOT 0xFFFF = 0" unfolding high_bits t .
    then have "pit_loop t s = Some s1" using s1(1) by (subst pit_loop.simps) (simp add: Let_def)
    then show ?thesis using s1(3) True pit_counts_step [of "unat t"] by simp
  next
    case False
    then have "?t AND NOT 0xFFFF \<noteq> 0" unfolding high_bits t .
    then have l: "pit_loop t s = pit_loop ?t s1" using s1(1) by (subst pit_loop.simps) (simp add: Let_def)
    have p: "pit_counts (unat t) = 0xFFFF # pit_counts (unat ?t)" using False t by (subst pit_counts_step) simp
    have "unat ?t < unat t" using False t by simp
    moreover have "length (pit_counts (unat ?t)) \<le> granted 0x40 timer_done s1" using less.prems p s1(2) by simp
    ultimately show ?thesis using less.hyps [of ?t s1] l p s1(3) False by simp
  qed
qed

text \<open>
  How long \<^verbatim>\<open>pit_sleep_ms\<close> waits.  With the lock free and a timer that signals the end of every period,
  the call returns with the lock free again, and loads one count after the other into the
  counter.  The sum of the counts is the requested number of ticks as long as that fits into 16
  bits; beyond that the last, incomplete period is left out, so that the wait is shorter than requested by
  up to a full period: of 100 milliseconds only 55 are waited.
\<close>

lemma pit_sleep_ms_waits:
  assumes "length (pit_counts (unat (PIT_TICKS_PER_MS * ms))) \<le> granted 0x40 timer_done s"
  shows "let ticks = unat (PIT_TICKS_PER_MS * ms); counts = pit_counts ticks in
    (\<exists>s'. pit_sleep_ms ms (0, p, s) = Some (0, p, s') \<and> loaded s' = loaded s @ concat (map count_bytes counts)) \<and>
    sum_list counts \<le> ticks \<and> (if ticks \<le> 0xFFFF then sum_list counts = ticks else sum_list counts < ticks \<and> ticks \<le> sum_list counts + 0xFFFF)"
proof -
  let ?t = "unat (PIT_TICKS_PER_MS * ms)"
  obtain s' where s': "pit_loop (PIT_TICKS_PER_MS * ms) s = Some s'" "loaded s' = loaded s @ concat (map count_bytes (pit_counts ?t))"
    using pit_loop_ok [OF assms] by blast
  have "spin_lock 0 p = Some (1, p + 1)" by (simp add: spin_lock_def spin_run.simps preempt_inc_def)
  then have "pit_sleep_ms ms (0, p, s) = Some (0, p, s')"
    using s'(1) by (simp add: pit_sleep_ms_def spin_unlock_def preempt_dec_def)
  moreover have "(n - 1) div 0xFFFF * 0xFFFF < n \<and> n \<le> (n - 1) div 0xFFFF * 0xFFFF + 0xFFFF" if "0xFFFF < n" for n :: nat
  proof -
    have "n - 1 = (n - 1) div 0xFFFF * 0xFFFF + (n - 1) mod 0xFFFF" "(n - 1) mod 0xFFFF < 0xFFFF" by simp_all
    then show ?thesis using that by linarith
  qed
  ultimately show ?thesis using s'(2) by (auto simp: Let_def sum_pit_counts not_le less_imp_le)
qed

lemma pit_sleep_ms_waits_example:
  "\<exists>s'. pit_sleep_ms 100 (0, 0, \<lparr>answers = (\<lambda>p. [0x00, 0x80]), port_log = []\<rparr>) = Some (0, 0, s') \<and> loaded s' = [0xFF, 0xFF]"
proof -
  let ?s = "\<lparr>answers = (\<lambda>p. [0x00, 0x80]), port_log = []\<rparr>"
  have t: "unat (PIT_TICKS_PER_MS * 100) = 119300" by (simp add: PIT_TICKS_PER_MS_def)
  have c: "pit_counts 119300 = [0xFFFF]" by (simp add: pit_counts_def)
  have g: "length (pit_counts (unat (PIT_TICKS_PER_MS * 100))) \<le> granted 0x40 timer_done ?s"
    unfolding t c by (simp add: granted_def timer_done_def)
  show ?thesis using pit_sleep_ms_waits [OF g, of 0] unfolding t by (auto simp: Let_def c loaded_def count_bytes_def)
qed

end
