(* ===== verification/Acpi.thy ===== *)
theory Acpi
  imports Strings Vmm_Correct
begin

text \<open>
  The firmware tables of \<^verbatim>\<open>kernel/drivers/acpi/acpi.c\<close>.  The tables are bytes of a memory that is
  indexed by address in the linear map and that the kernel only reads; a structure is the
  address of its first byte, and a field is read at its offset in the packed layout, least
  significant byte first.  Printing a table is not part of the state.
\<close>

section \<open>Fields\<close>

text \<open>\<^verbatim>\<open>memcmp(p, literal, n) == 0\<close>\<close>

fun matches :: "byte_mem \<Rightarrow> u64 \<Rightarrow> u8 list \<Rightarrow> bool" where
  "matches m p [] = True"
| "matches m p (b # bs) = (m p = b \<and> matches m (p + 1) bs)"

definition chars :: "string \<Rightarrow> u8 list" where
  "chars s = map of_char s"

definition rsdp_revision :: "byte_mem \<Rightarrow> u64 \<Rightarrow> u8" where
  "rsdp_revision m r = m (r + 15)"

definition rsdt_address :: "byte_mem \<Rightarrow> u64 \<Rightarrow> u32" where
  "rsdt_address m r = read_u32 m (r + 16)"

definition xsdt_address :: "byte_mem \<Rightarrow> u64 \<Rightarrow> u64" where
  "xsdt_address m r = read_u64 m (r + 24)"

definition header_length :: "byte_mem \<Rightarrow> u64 \<Rightarrow> u32" where
  "header_length m hdr = read_u32 m (hdr + 4)"

definition sizeof_rsdp :: nat where "sizeof_rsdp = 36"
definition sizeof_acpi_header :: nat where "sizeof_acpi_header = 36"

section \<open>Finding the root pointer\<close>

fun calc_checksum_from :: "byte_mem \<Rightarrow> u64 \<Rightarrow> nat \<Rightarrow> u8 \<Rightarrow> u8" where
  "calc_checksum_from m p 0 acc = acc"
| "calc_checksum_from m p (Suc n) acc = calc_checksum_from m (p + 1) n (acc + m p)"

definition calc_checksum :: "byte_mem \<Rightarrow> u64 \<Rightarrow> nat \<Rightarrow> u8" where
  "calc_checksum m p len = calc_checksum_from m p len 0"

definition RSDP_SEARCH_START :: u64 where "RSDP_SEARCH_START = 0xE0000"
definition RSDP_SEARCH_END :: u64 where "RSDP_SEARCH_END = 0xFFFFF"

definition is_rsdp :: "byte_mem \<Rightarrow> u64 \<Rightarrow> bool" where
  "is_rsdp m virt \<longleftrightarrow> matches m virt (chars ''RSD PTR '') \<and>
     (if rsdp_revision m virt = 0 then calc_checksum m virt (sizeof_rsdp - 16) = 0
      else if rsdp_revision m virt = 2 then calc_checksum m virt sizeof_rsdp = 0
      else False)"

function find_rsdp_from :: "byte_mem \<Rightarrow> u64 \<Rightarrow> u64" where
  "find_rsdp_from m phys =
     (if phys < RSDP_SEARCH_END
      then let virt = phys_to_virt phys in
        if is_rsdp m virt then virt else find_rsdp_from m (phys + 16)
      else 0)"
  by pat_completeness auto
termination
  by (relation "measure (\<lambda>(m, phys). 0xFFFFF - unat phys)")
    (auto simp: RSDP_SEARCH_END_def word_less_nat_alt unat_word_ariths)

declare find_rsdp_from.simps [simp del]

definition find_rsdp :: "byte_mem \<Rightarrow> u64" where
  "find_rsdp m = find_rsdp_from m RSDP_SEARCH_START"

section \<open>Mapping and listing the tables\<close>

definition TABLE_FLAGS :: u64 where "TABLE_FLAGS = VMM_ALLOC_MMAP OR PAGE_GLOBAL"

function map_rest :: "u64 \<Rightarrow> nat \<Rightarrow> nat \<Rightarrow> vm \<Rightarrow> vm outcome option" where
  "map_rest hdr len i s =
     (if i < len then
        (let virt = hdr + of_nat i in
         case vmm_map_page Kernel_mmu (virt_to_phys virt) virt TABLE_FLAGS s of
           Some (Inr s') \<Rightarrow> map_rest hdr len (i + unat PAGE_SIZE) s'
         | r \<Rightarrow> r)
      else Some (Inr s))"
  by pat_completeness auto
termination by (relation "measure (\<lambda>(hdr, len, i, s). len - i)") (auto simp: PAGE_SIZE_def)

declare map_rest.simps [simp del]

definition map_table :: "byte_mem \<Rightarrow> u64 \<Rightarrow> vm \<Rightarrow> vm outcome option" where
  "map_table m hdr s =
     rbind (vmm_map_page Kernel_mmu (virt_to_phys hdr) hdr TABLE_FLAGS s) (\<lambda>s.
     rbind (vmm_map_page Kernel_mmu (virt_to_phys hdr + of_nat sizeof_acpi_header)
              (hdr + of_nat sizeof_acpi_header) TABLE_FLAGS s) (\<lambda>s.
     if hdr = 0 then Some (Inl Null_access)
     else map_rest hdr (unat (header_length m hdr)) (sizeof_acpi_header + unat PAGE_SIZE) s))"

definition table_checksum :: "byte_mem \<Rightarrow> u64 \<Rightarrow> bool" where
  "table_checksum m hdr \<longleftrightarrow> calc_checksum m hdr (unat (header_length m hdr)) = 0"

text \<open>
  The root table is an \<^verbatim>\<open>rsdt\<close> with entries of four bytes or an \<^verbatim>\<open>xsdt\<close> with entries of eight.
  The length of the table is subtracted in 64 bits.
\<close>

definition num_entries :: "byte_mem \<Rightarrow> u64 \<Rightarrow> u64 \<Rightarrow> nat" where
  "num_entries m sdt width = unat ((ucast (header_length m sdt) - of_nat sizeof_acpi_header) div width)"

definition rsdt_table :: "byte_mem \<Rightarrow> u64 \<Rightarrow> nat \<Rightarrow> u64" where
  "rsdt_table m rsdt i = ucast (read_u32 m (rsdt + of_nat (sizeof_acpi_header + 4 * i)))"

definition xsdt_table :: "byte_mem \<Rightarrow> u64 \<Rightarrow> nat \<Rightarrow> u64" where
  "xsdt_table m xsdt i = read_u64 m (xsdt + of_nat (sizeof_acpi_header + 8 * i))"

fun dump_from :: "byte_mem \<Rightarrow> (nat \<Rightarrow> u64) \<Rightarrow> nat \<Rightarrow> nat \<Rightarrow> vm \<Rightarrow> vm outcome option" where
  "dump_from m tables i 0 s = Some (Inr s)"
| "dump_from m tables i (Suc n) s =
     rbind (map_table m (phys_to_virt (tables i)) s) (\<lambda>s. dump_from m tables (Suc i) n s)"

definition acpi_dump_tables :: "byte_mem \<Rightarrow> u64 \<Rightarrow> vm \<Rightarrow> vm outcome option" where
  "acpi_dump_tables m rsdp s =
     (if rsdp_revision m rsdp = 0 then
        let rsdt = phys_to_virt (ucast (rsdt_address m rsdp)) in
        rbind (map_table m rsdt s) (\<lambda>s.
          if \<not> table_checksum m rsdt then Some (Inl Panic)
          else dump_from m (rsdt_table m rsdt) 0 (num_entries m rsdt 4) s)
      else if rsdp_revision m rsdp = 2 then
        let xsdt = phys_to_virt (xsdt_address m rsdp) in
        rbind (map_table m xsdt s) (\<lambda>s.
          if \<not> table_checksum m xsdt then Some (Inl Panic)
          else dump_from m (xsdt_table m xsdt) 0 (num_entries m xsdt 8) s)
      else Some (Inr s))"

section \<open>Looking a table up\<close>

fun find_table_from :: "byte_mem \<Rightarrow> u8 list \<Rightarrow> (nat \<Rightarrow> u64) \<Rightarrow> nat \<Rightarrow> nat \<Rightarrow> u64 outcome" where
  "find_table_from m signature tables i 0 = Inr 0"
| "find_table_from m signature tables i (Suc n) =
     (let hdr = phys_to_virt (tables i) in
      if hdr = 0 then Inl Null_access
      else if matches m hdr signature \<and> table_checksum m hdr then Inr hdr
      else find_table_from m signature tables (Suc i) n)"

definition acpi_find_table :: "byte_mem \<Rightarrow> u64 \<Rightarrow> u8 list \<Rightarrow> u64 outcome" where
  "acpi_find_table m rsdp signature =
     (if rsdp = 0 then Inl Null_access
      else if rsdp_revision m rsdp = 0 then
        let rsdt = phys_to_virt (ucast (rsdt_address m rsdp)) in
        if rsdt = 0 then Inl Null_access
        else find_table_from m signature (rsdt_table m rsdt) 0 (num_entries m rsdt 4)
      else if rsdp_revision m rsdp = 2 then
        let xsdt = phys_to_virt (xsdt_address m rsdp) in
        if xsdt = 0 then Inl Null_access
        else find_table_from m signature (xsdt_table m xsdt) 0 (num_entries m xsdt 8)
      else Inr 0)"

definition acpi_init :: "byte_mem \<Rightarrow> vm \<Rightarrow> (u64 \<times> vm) outcome option" where
  "acpi_init m s =
     (let rsdp = find_rsdp m in
      if rsdp = 0 then Some (Inl Panic)
      else rbind (acpi_dump_tables m rsdp s) (\<lambda>s. Some (Inr (rsdp, s))))"

end
