(* ===== verification/Vmm_Boot.thy ===== *)
theory Vmm_Boot
  imports Vmm_Correct Mmap_Correct
begin

text \<open>
  Mapping pages before the page allocator exists: the tables come from the boot-time memory map
  (\<^verbatim>\<open>VMM_ALLOC_MMAP\<close>).  A memory map whose regions start at page boundaries keeps doing so, and
  the pages it hands out are a second source of tables for \<^verbatim>\<open>vmm_map_page\<close>.
\<close>

section \<open>One page from the memory map\<close>

definition page_aligned :: "mmap_region list \<Rightarrow> bool" where
  "page_aligned rs \<longleftrightarrow> (\<forall>r \<in> set rs. 4096 dvd unat (rg_base r) \<and> 0 < rg_base r)"

lemma aligned_start:
  assumes "4096 dvd unat (rg_base r)"
  shows "alloc_start fl r = rg_base r"
proof -
  have lt: "unat (rg_base r) + 4095 < 2 ^ 64"
  proof -
    obtain k where k: "unat (rg_base r) = 4096 * k" using assms by blast
    then have "k < 2 ^ 52" using unat_u64_lt [of "rg_base r"] by simp
    then show ?thesis using k by simp
  qed
  have "unat (ALIGNUP (rg_base r) (2 ^ 12)) = (unat (rg_base r) + 4095) div 4096 * 4096"
    using unat_ALIGNUP [of "rg_base r" 12] lt by simp
  also have "\<dots> = unat (rg_base r)" using assms by (elim dvdE) simp
  finally have "ALIGNUP (rg_base r) PAGE_SIZE = rg_base r"
    by (intro unsigned_word_eqI [where ?'a = nat]) (simp add: PAGE_SIZE_def)
  then show ?thesis by (simp add: alloc_start_def)
qed

lemma take_aligned:
  assumes av: "available m = ps @ r # qs" "spaced (available m)" "length (available m) \<le> MMAP_MAX_REGIONS"
    and al: "page_aligned (available m)"
    and bytes: "4096 \<le> unat bytes" "unat (rg_base r) + unat bytes \<le> rg_end r"
    and run: "mmap_take m (length ps) PAGE_SIZE (rg_base r) bytes True = Inr (rg, m')"
  shows "rg_base rg = rg_base r" "highest_mapped m' = highest_mapped m" "spaced (available m')"
    "length (available m') \<le> MMAP_MAX_REGIONS" "page_aligned (available m')"
    "covered (available m') \<subseteq> covered (available m) - {unat (rg_base r) ..< unat (rg_base r) + 4096}"
proof -
  let ?b = "unat (rg_base r)" and ?rest = "bytes - PAGE_SIZE"
  have sp: "spaced (ps @ r # qs)" and len: "length (ps @ qs) < MMAP_MAX_REGIONS" using av by simp_all
  have re: "rg_end r < 2 ^ 64" using spaced_member [OF sp, of r] by simp
  note d = spaced_delete [OF sp]
  have w: "unat (rg_base r + PAGE_SIZE) = ?b + 4096" "unat ?rest = unat bytes - 4096"
    using bytes re by (simp_all add: nowrap PAGE_SIZE_def word_le_nat_alt)
  have pad: "mmap_insert_region (ps @ qs) (rg_base r) (rg_base r - rg_base r) fl = Inr (ps @ qs)" for fl
    using len by (simp add: mmap_insert_region_def)
  obtain av3 fl where a3: "(if ?rest > 0 then mmap_insert_region (ps @ qs) (rg_base r + PAGE_SIZE) ?rest fl else Inr (ps @ qs)) = Inr av3"
    "rg_base rg = rg_base r" "available m' = av3" "highest_mapped m' = highest_mapped m"
    using run pad unfolding mmap_take_def
    by (auto simp: Let_def av(1) mmap_delete_region_def obind_Inr split: if_splits)
  have ins: "?rest = 0 \<or> insertable (ps @ qs) (rg_base r + PAGE_SIZE) ?rest"
    using around_insertable [OF d(2), of "rg_base r + PAGE_SIZE" ?rest] w bytes re by (auto simp: word_gt_0)
  show "rg_base rg = rg_base r" "highest_mapped m' = highest_mapped m" by (fact a3)+
  have al': "page_aligned (ps @ qs)" using al by (auto simp: page_aligned_def av(1))
  have r: "4096 dvd ?b" using al by (auto simp: page_aligned_def av(1))
  have c: "covered (ps @ qs) \<inter> rg_span r = {}" "covered (available m) = covered (ps @ qs) \<union> rg_span r"
    using d(3) av(1) by auto
  have span: "{?b + 4096 ..< ?b + unat bytes} \<subseteq> rg_span r" "{?b ..< ?b + 4096} \<subseteq> rg_span r"
    using bytes by (auto simp: rg_span_def)
  have "spaced av3 \<and> length av3 \<le> MMAP_MAX_REGIONS \<and> page_aligned av3 \<and>
      covered av3 \<subseteq> covered (ps @ qs) \<union> {?b + 4096 ..< ?b + unat bytes}"
  proof (cases "?rest = 0")
    case True
    then show ?thesis using a3(1) d(1) len al' by auto
  next
    case False
    then have i: "mmap_insert_region (ps @ qs) (rg_base r + PAGE_SIZE) ?rest fl = Inr av3"
      using a3(1) by (auto simp: word_gt_0)
    from insert_ok [OF d(1) ins len, of fl] i
    have "spaced av3" "covered av3 = covered (ps @ qs) \<union> {?b + 4096 ..< ?b + unat bytes}"
      "length av3 \<le> Suc (length (ps @ qs))" "rg_base ` set av3 \<subseteq> insert (rg_base r + PAGE_SIZE) (rg_base ` set (ps @ qs))"
      using w bytes by auto
    moreover have "page_aligned av3"
      unfolding page_aligned_def
    proof
      fix u
      assume "u \<in> set av3"
      then have "rg_base u = rg_base r + PAGE_SIZE \<or> rg_base u \<in> rg_base ` set (ps @ qs)"
        using \<open>rg_base ` set av3 \<subseteq> _\<close> by blast
      then show "4096 dvd unat (rg_base u) \<and> 0 < rg_base u"
        using al' r w(1) by (auto simp: page_aligned_def len_pos)
    qed
    ultimately show ?thesis using len by auto
  qed
  moreover have "{?b + 4096 ..< ?b + unat bytes} \<inter> {?b ..< ?b + 4096} = {}" by auto
  ultimately show "spaced (available m')" "length (available m') \<le> MMAP_MAX_REGIONS" "page_aligned (available m')"
    "covered (available m') \<subseteq> covered (available m) - {?b ..< ?b + 4096}"
    unfolding a3(3) c(2) using c(1) span by blast+
qed

lemma alloc_loop_aligned:
  assumes av: "available m = ps @ qs" "spaced (available m)" "length (available m) \<le> MMAP_MAX_REGIONS"
    and al: "page_aligned (available m)" and top: "4096 dvd unat (highest_mapped m)"
    and run: "mmap_alloc_loop m PAGE_SIZE MMAP_ALLOC_PA (length ps) = Inr (rg, m')"
  shows "\<exists>r \<in> set (available m). rg_base rg = rg_base r \<and> unat (rg_base r) + 4096 \<le> min (unat (highest_mapped m)) (rg_end r) \<and>
    highest_mapped m' = highest_mapped m \<and> spaced (available m') \<and> length (available m') \<le> MMAP_MAX_REGIONS \<and>
    page_aligned (available m') \<and>
    covered (available m') \<subseteq> covered (available m) - {unat (rg_base r) ..< unat (rg_base r) + 4096}"
  using av(1) run
proof (induction qs arbitrary: ps)
  case Nil
  then show ?case by (simp add: mmap_alloc_loop.simps)
next
  case (Cons r qs)
  note step = alloc_loop_step [OF Cons.prems(1), of PAGE_SIZE MMAP_ALLOC_PA]
  have r: "4096 dvd unat (rg_base r)" using al Cons.prems(1) by (simp add: page_aligned_def)
  have re: "rg_end r < 2 ^ 64" using spaced_member [OF av(2), of r] Cons.prems(1) by simp
  have lt: "rg_base r < highest_mapped m" using Cons.prems(2) step by (auto split: if_splits)
  have pa: "MMAP_ALLOC_PA \<noteq> 0" by (simp add: MMAP_ALLOC_PA_def)
  have st: "alloc_start MMAP_ALLOC_PA r = rg_base r" by (rule aligned_start [OF r])
  have "reaches_page m MMAP_ALLOC_PA r"
    using lt by (simp add: reaches_page_def st rg_end_def word_less_nat_alt)
  note u = usable_bytes_eq [OF this re, unfolded st]
  show ?case
  proof (cases "PAGE_SIZE \<le> usable_bytes m MMAP_ALLOC_PA r")
    case True
    then have b: "4096 \<le> unat (usable_bytes m MMAP_ALLOC_PA r)" by (simp add: word_le_nat_alt PAGE_SIZE_def)
    then have e: "unat (rg_base r) + unat (usable_bytes m MMAP_ALLOC_PA r) \<le> rg_end r"
      "unat (rg_base r) + 4096 \<le> min (unat (highest_mapped m)) (rg_end r)" using u by auto
    have "mmap_take m (length ps) PAGE_SIZE (rg_base r) (usable_bytes m MMAP_ALLOC_PA r) True = Inr (rg, m')"
      using Cons.prems(2) True lt pa unfolding step st by (simp add: not_le [symmetric])
    from take_aligned [OF Cons.prems(1) av(2,3) al b e(1) this] e(2) Cons.prems(1) show ?thesis by auto
  next
    case False
    then have "mmap_alloc_loop m PAGE_SIZE MMAP_ALLOC_PA (length (ps @ [r])) = Inr (rg, m')"
      using Cons.prems(2) lt unfolding step by (simp add: not_le [symmetric])
    then show ?thesis using Cons.IH [of "ps @ [r]"] Cons.prems(1) by simp
  qed
qed

section \<open>The memory map as a source of tables\<close>

text \<open>No byte of a frame of \<open>T\<close> is available; the map covers addresses of the linear map.\<close>

definition frame_bytes :: "nat \<Rightarrow> nat set" where
  "frame_bytes f = {f * 4096 ..< f * 4096 + 4096}"

definition boot_owned :: "vm \<Rightarrow> nat set \<Rightarrow> bool" where
  "boot_owned s T \<longleftrightarrow> spaced (available (boot_mmap s)) \<and> length (available (boot_mmap s)) \<le> MMAP_MAX_REGIONS \<and>
     page_aligned (available (boot_mmap s)) \<and> 4096 dvd unat (highest_mapped (boot_mmap s)) \<and>
     unat (highest_mapped (boot_mmap s)) \<le> 2 ^ 47 \<and>
     (\<forall>f \<in> T. frame_bytes f \<inter> covered (available (boot_mmap s)) = {})"

definition from_boot :: "u32 \<Rightarrow> bool" where
  "from_boot fl \<longleftrightarrow> ucast fl AND VMM_ALLOC_MMAP \<noteq> 0"

lemma from_boot_flags:
  "flags AND VMM_ALLOC_MMAP \<noteq> 0 \<Longrightarrow> from_boot (ucast (flags OR (if low then PAGE_USER_ACCESSIBLE else 0)))"
  unfolding from_boot_def and_alloc_mmap by (auto simp: PAGE_USER_ACCESSIBLE_def bit_simps)

lemma boot_alloc_aligned:
  assumes "boot_owned s T" "mmap_alloc_low (boot_mmap s) PAGE_SIZE MMAP_ALLOC_PA = Inr (rg, mm)"
  obtains r where "r \<in> set (available (boot_mmap s))" "rg_base rg = rg_base r"
    "unat (rg_base r) + 4096 \<le> min (unat (highest_mapped (boot_mmap s))) (rg_end r)"
    "highest_mapped mm = highest_mapped (boot_mmap s)" "spaced (available mm)"
    "length (available mm) \<le> MMAP_MAX_REGIONS" "page_aligned (available mm)"
    "covered (available mm) \<subseteq> covered (available (boot_mmap s)) - {unat (rg_base r) ..< unat (rg_base r) + 4096}"
  using alloc_loop_aligned [of "boot_mmap s" "[]" "available (boot_mmap s)"] assms
  by (auto simp: mmap_alloc_low_def boot_owned_def)

interpretation boot: table_source boot_owned from_boot "\<lambda>s. {}"
proof
  fix s s' T fl e
  assume own: "boot_owned s T" and fl: "from_boot fl" and run: "alloc_pgtab fl s = Inr (e, s')"
  let ?fl = "PAGE_PRESENT OR PAGE_WRITABLE OR (ucast fl AND PAGE_USER_ACCESSIBLE)"
  obtain rg mm where a: "mmap_alloc_low (boot_mmap s) PAGE_SIZE MMAP_ALLOC_PA = Inr (rg, mm)"
    and s': "s' = s\<lparr>boot_mmap := mm\<rparr>" and e: "e = (rg_base rg AND PTE_ADDR_MASK) OR ?fl"
    using run fl by (auto simp: alloc_pgtab_def from_boot_def obind_Inr split: if_splits)
  have inv: "spaced (available (boot_mmap s))" "length (available (boot_mmap s)) \<le> MMAP_MAX_REGIONS"
    "page_aligned (available (boot_mmap s))" "4096 dvd unat (highest_mapped (boot_mmap s))"
    "unat (highest_mapped (boot_mmap s)) \<le> 2 ^ 47"
    "\<forall>f \<in> T. frame_bytes f \<inter> covered (available (boot_mmap s)) = {}"
    using own by (auto simp: boot_owned_def)
  obtain r where r: "r \<in> set (available (boot_mmap s))" "rg_base rg = rg_base r"
    "unat (rg_base r) + 4096 \<le> min (unat (highest_mapped (boot_mmap s))) (rg_end r)"
    "highest_mapped mm = highest_mapped (boot_mmap s)" "spaced (available mm)"
    "length (available mm) \<le> MMAP_MAX_REGIONS" "page_aligned (available mm)"
    "covered (available mm) \<subseteq> covered (available (boot_mmap s)) - {unat (rg_base r) ..< unat (rg_base r) + 4096}"
    by (rule boot_alloc_aligned [OF own a])
  have al: "4096 dvd unat (rg_base r)" "0 < unat (rg_base r)" using inv(3) r(1) by (auto simp: page_aligned_def len_pos)
  then obtain g where g: "unat (rg_base r) = g * 4096" by (metis dvdE mult.commute)
  then have gr: "g \<in> {1 ..< 2 ^ 35}" using al(2) r(3) inv(5) by auto
  have "of_nat (unat (rg_base r)) = rg_base r" by simp
  then have "rg_base r = page_to_phys (Some g)" unfolding g by (simp add: page_to_phys_def PAGE_SIZE_def)
  then have t: "table_of e = Some g" using table_of_frame [OF gr table_flags, of "ucast fl"] by (simp add: e r(2))
  have fb: "frame_bytes g = {unat (rg_base r) ..< unat (rg_base r) + 4096}" by (simp add: frame_bytes_def g)
  have "frame_bytes g \<subseteq> covered (available (boot_mmap s))"
    using r(1,3) unfolding fb covered_def rg_span_def by auto
  moreover have "frame_bytes g \<noteq> {}" by (simp add: frame_bytes_def)
  ultimately have "g \<notin> T" using inv(6) by blast
  moreover have "boot_owned s' (insert g T)"
    using r(4-8) inv(4-6) unfolding boot_owned_def s' fb [symmetric] by auto
  ultimately show "frames s' = frames s \<and> mmus s' = mmus s \<and> nr_cpus s' = nr_cpus s \<and> ({} :: nat set) = {} \<and>
      (\<exists>g. table_of e = Some g \<and> g \<notin> T \<and> boot_owned s' (insert g T))"
    using t by (auto simp: s')
qed (auto simp: boot_owned_def)

section \<open>Faults of the boot-time allocator\<close>

lemma insert_loop_fault: "mmap_insert_loop addr len flags i rs = Inl e \<Longrightarrow> e = Panic"
proof (induction addr len flags i rs rule: mmap_insert_loop.induct)
  case (1 addr len flags i rs)
  from 1(3) show ?case
    by (subst (asm) mmap_insert_loop.simps)
      (auto simp: Let_def mmap_delete_region_def split: if_splits intro: 1(1,2))
qed

lemma insert_region_fault: "mmap_insert_region rs addr len flags = Inl e \<Longrightarrow> e = Panic"
  by (auto simp: mmap_insert_region_def split: if_splits dest: insert_loop_fault)

lemma mmap_take_fault: "mmap_take m i n eb bytes pa = Inl e \<Longrightarrow> e = Panic"
  unfolding mmap_take_def Let_def
  by (auto simp: mmap_delete_region_def obind_Inl split: if_splits dest: insert_region_fault)

lemma alloc_loop_fault: "mmap_alloc_loop m n fl i = Inl e \<Longrightarrow> e = Panic"
proof (induction "length (available m) - i" arbitrary: i)
  case 0
  then show ?case by (subst (asm) mmap_alloc_loop.simps) simp
next
  case (Suc k)
  then have "i < length (available m)" by simp
  then have "available m = take i (available m) @ available m ! i # drop (Suc i) (available m)"
    and i: "length (take i (available m)) = i" by (simp_all add: id_take_nth_drop)
  note step = alloc_loop_step [OF this(1), of n fl, unfolded i]
  have "mmap_alloc_loop m n fl (Suc i) = Inl e \<Longrightarrow> e = Panic" using Suc(1) [of "Suc i"] Suc(2) by simp
  then show ?case using Suc(3) i unfolding step by (auto split: if_splits dest: mmap_take_fault)
qed

lemma alloc_pgtab_boot_fault: "from_boot fl \<Longrightarrow> alloc_pgtab fl s = Inl e \<Longrightarrow> e = Panic"
  by (auto simp: alloc_pgtab_def from_boot_def obind_Inl mmap_alloc_low_def split: if_splits dest: alloc_loop_fault)

text \<open>The memory map after some pages have been taken from it for tables, or the fault of the page it cannot give.\<close>

fun boot_pages :: "nat \<Rightarrow> mmap \<Rightarrow> mmap outcome" where
  "boot_pages 0 m = Inr m"
| "boot_pages (Suc n) m = obind (boot_pages n m) (\<lambda>m. obind (mmap_alloc_low m PAGE_SIZE MMAP_ALLOC_PA) (\<lambda>(rg, m). Inr m))"

lemma boot_pages_fault: "boot_pages n m = Inl e \<Longrightarrow> n \<le> k \<Longrightarrow> boot_pages k m = Inl e"
  by (induction k) (auto simp: le_Suc_eq)

lemma boot_pages_add: "boot_pages (n + k) m = obind (boot_pages n m) (boot_pages k)"
  by (cases "boot_pages n m") (induction k, auto)+

lemma took_boot:
  assumes fl: "from_boot fl" and own: "boot_owned s T" and "took fl n s s'"
  shows "boot_pages n (boot_mmap s) = Inr (boot_mmap s') \<and> (\<exists>T'. boot_owned s' T')"
  using assms(3)
proof (induction n arbitrary: s')
  case 0
  then show ?case using own by (auto simp: boot_owned_def)
next
  case (Suc n)
  then obtain s1 e s2 where s1: "took fl n s s1" "alloc_pgtab fl s1 = Inr (e, s2)" "boot_mmap s' = boot_mmap s2" by auto
  then obtain T1 where T1: "boot_pages n (boot_mmap s) = Inr (boot_mmap s1)" "boot_owned s1 T1" using Suc.IH by blast
  obtain rg where "mmap_alloc_low (boot_mmap s1) PAGE_SIZE MMAP_ALLOC_PA = Inr (rg, boot_mmap s2)"
    using s1(2) fl by (auto simp: alloc_pgtab_def from_boot_def obind_Inr split: if_splits)
  moreover obtain T2 where "boot_owned s2 T2" using boot.fresh [OF T1(2) fl s1(2)] by blast
  ultimately show ?case using T1(1) s1(3) by (auto simp: boot_owned_def)
qed

lemma took_boot_fails:
  assumes fl: "from_boot fl" and own: "boot_owned s T" and tk: "took fl n s s1" and run: "alloc_pgtab fl s1 = Inl e"
  shows "e = Panic \<and> boot_pages (Suc n) (boot_mmap s) = Inl Panic"
proof -
  obtain T1 where T1: "boot_pages n (boot_mmap s) = Inr (boot_mmap s1)" "boot_owned s1 T1" using took_boot [OF fl own tk] by blast
  have "mmap_alloc_low (boot_mmap s1) PAGE_SIZE MMAP_ALLOC_PA = Inl Panic"
  proof (cases "mmap_alloc_low (boot_mmap s1) PAGE_SIZE MMAP_ALLOC_PA")
    case (Inr a)
    then obtain rg mm where rg: "mmap_alloc_low (boot_mmap s1) PAGE_SIZE MMAP_ALLOC_PA = Inr (rg, mm)" by (cases a) simp
    obtain r where "r \<in> set (available (boot_mmap s1))" "rg_base rg = rg_base r" using boot_alloc_aligned [OF T1(2) rg] by blast
    then have "4096 dvd unat (rg_base rg)" using T1(2) by (auto simp: boot_owned_def page_aligned_def)
    then have "take_bit 12 (unat (rg_base rg)) = 0" by (simp add: take_bit_eq_mod)
    then have "unat (rg_base rg AND mask 12) = 0" unfolding take_bit_eq_mask [symmetric] unsigned_take_bit_eq .
    then have "rg_base rg AND 0xFFF = 0" by (simp add: mask_eq_exp_minus_1 unat_eq_0)
    then show ?thesis using run fl rg by (simp add: alloc_pgtab_def from_boot_def)
  qed (use alloc_loop_fault in \<open>auto simp: mmap_alloc_low_def\<close>)
  then show ?thesis using T1(1) alloc_pgtab_boot_fault [OF fl run] by simp
qed

section \<open>Mapping pages of the linear map\<close>

text \<open>
  The state after some pages \<open>P\<close> of the linear map have been mapped one by one, starting from
  \<open>s\<close>: an address that shares its entry with some of these pages has the entry of the frame of one of them,
  and every other address has its old entry.  The tables that were missing, at most three for each page, have
  been taken from the memory map.
\<close>

definition linear_entry :: "u64 \<Rightarrow> nat \<Rightarrow> u64" where
  "linear_entry flags pn = leaf_entry (page_to_phys (Some (pn - 2 ^ 35))) flags"

definition mapped_on :: "u64 \<Rightarrow> nat \<Rightarrow> vm \<Rightarrow> nat set \<Rightarrow> vm \<Rightarrow> bool" where
  "mapped_on flags root s P s' \<longleftrightarrow> (\<exists>T. tables_ok s' root T \<and> boot_owned s' T) \<and> mmus s' = mmus s \<and> nr_cpus s' = nr_cpus s \<and>
     (\<forall>va va'. shares s' root va va' = shares s root va va') \<and>
     (\<forall>va. (\<exists>v. page_number v \<in> P \<and> shares s root v va \<and> entry s' root va = linear_entry flags (page_number v)) \<or>
        (\<forall>v. page_number v \<in> P \<longrightarrow> \<not> shares s root v va) \<and> entry s' root va = entry s root va) \<and>
     finite P \<and> (\<exists>n \<le> 3 * card P. boot_pages n (boot_mmap s) = Inr (boot_mmap s'))"

lemma mapped_on_start: "tables_ok s root T \<Longrightarrow> boot_owned s T \<Longrightarrow> mapped_on flags root s {} s"
  by (auto simp: mapped_on_def)

text \<open>Where nothing is shared, the pages have the entries of their frames and no other entry has changed.\<close>

lemma mapped_on_apart:
  assumes "mapped_on flags root s P s'" and "\<And>v v'. shares s root v v' \<longleftrightarrow> page_number v = page_number v'"
  shows "entry s' root va = (if page_number va \<in> P then linear_entry flags (page_number va) else entry s root va)"
proof -
  consider v where "page_number v \<in> P" "page_number v = page_number va" "entry s' root va = linear_entry flags (page_number v)"
    | "\<forall>v. page_number v \<in> P \<longrightarrow> page_number v \<noteq> page_number va" "entry s' root va = entry s root va"
    using assms(1) unfolding mapped_on_def assms(2) by blast
  then show ?thesis by cases auto
qed

lemma page_number_linear:
  assumes "KERNEL_LOGICAL_BASE \<le> v"
  shows "page_number v = unat v div 4096 - (2 ^ 52 - 2 ^ 36)" "2 ^ 35 \<le> page_number v"
    "unat (virt_to_phys v) = unat v - unat KERNEL_LOGICAL_BASE"
    "page_number v - 2 ^ 35 = unat (virt_to_phys v) div 4096"
proof -
  have b: "18446603336221196288 \<le> unat v" using assms by (simp add: word_le_nat_alt KERNEL_LOGICAL_BASE_def)
  have u: "unat v < 18446744073709551616" by simp
  define x where "x = unat v - 18446603336221196288"
  then have x: "unat v = 18446603336221196288 + x" "x < 140737488355328" using b u by linarith+
  have d: "unat v div 4096 = 4503565267632128 + x div 4096" using x(1) by simp
  have xd: "x div 4096 < 34359738368" using x(2) by (simp add: less_mult_imp_div_less)
  have pn: "page_number v = 34359738368 + x div 4096"
    using xd add_within(1) [of 4503565267632128 68719476736 "x div 4096"] by (simp add: page_number_def d)
  then show "page_number v = unat v div 4096 - (2 ^ 52 - 2 ^ 36)" "2 ^ 35 \<le> page_number v" by (simp_all add: d)
  have "v \<noteq> 0" using b by auto
  then show p: "unat (virt_to_phys v) = unat v - unat KERNEL_LOGICAL_BASE"
    using assms by (simp add: virt_to_phys_def nowrap)
  then show "page_number v - 2 ^ 35 = unat (virt_to_phys v) div 4096"
    by (simp add: pn x(1) KERNEL_LOGICAL_BASE_def)
qed

lemma page_number_off:
  assumes "KERNEL_LOGICAL_BASE \<le> h" "unat h + j < 2 ^ 64"
  shows "page_number (h + of_nat j) = page_number h + (unat h mod 4096 + j) div 4096"
proof -
  have u: "unat (h + of_nat j) = unat h + j" using assms(2) by (simp add: nowrap)
  then have "KERNEL_LOGICAL_BASE \<le> h + of_nat j" using assms(1) by (simp add: word_le_nat_alt)
  moreover have "(unat h + j) div 4096 = unat h div 4096 + (unat h mod 4096 + j) div 4096"
    by (metis (no_types, opaque_lifting) add.assoc div_mult_self4 mod_div_decomp mult.commute zero_neq_numeral)
  moreover have "2 ^ 52 - 2 ^ 36 \<le> unat h div 4096"
  proof -
    have "18446603336221196288 div 4096 \<le> unat h div 4096"
      using assms(1) by (intro div_le_mono) (simp add: word_le_nat_alt KERNEL_LOGICAL_BASE_def)
    then show ?thesis by simp
  qed
  ultimately show ?thesis using u by (simp add: page_number_linear(1) assms(1))
qed

lemma and_high_mask: "((w :: u64) AND - (2 ^ n)) AND push_bit n (mask k) = w AND push_bit n (mask k)"
  unfolding minus_exp_eq_not_mask by (rule bit_eqI) (auto simp: bit_simps)

lemma linear_entry_eq:
  assumes "KERNEL_LOGICAL_BASE \<le> v"
  shows "leaf_entry (virt_to_phys v) flags = linear_entry flags (page_number v)"
proof -
  let ?p = "virt_to_phys v"
  have "page_to_phys (Some (unat ?p div 4096)) = ?p AND - (2 ^ 12)"
  proof (rule unsigned_word_eqI [where ?'a = nat])
    have "unat (of_nat (unat ?p div 4096) * PAGE_SIZE) = unat ?p div 4096 * 4096"
    proof -
      have "unat ?p div 4096 * 4096 < 2 ^ 64" by (rule order.strict_trans1 [OF div_times_less_eq_dividend]) simp
      then show ?thesis by (simp add: PAGE_SIZE_def unat_word_ariths unat_of_nat mod_mult_left_eq)
    qed
    then show "unat (page_to_phys (Some (unat ?p div 4096))) = unat (?p AND - (2 ^ 12))"
      unfolding unat_and_minus_exp by (simp add: page_to_phys_def)
  qed
  moreover have "(?p AND - (2 ^ 12)) AND PTE_ADDR_MASK = ?p AND PTE_ADDR_MASK"
    unfolding PTE_ADDR_MASK_bits by (rule and_high_mask)
  ultimately show ?thesis
    unfolding linear_entry_def page_number_linear(4) [OF assms] by (simp add: leaf_entry_def)
qed

text \<open>
  The possible outcomes of mapping, on one processor: the pages are mapped, or the memory map panics when three pages
  for each of them are taken from it one by one, because no region has a page left below its limit or because
  the rest of a region finds no room in the array of regions.
\<close>

definition maps_pages :: "u64 \<Rightarrow> nat \<Rightarrow> vm \<Rightarrow> nat set \<Rightarrow> vm outcome option \<Rightarrow> bool" where
  "maps_pages flags root s P r \<longleftrightarrow> (case r of None \<Rightarrow> False | Some (Inl e) \<Rightarrow> e = Panic \<and> boot_pages (3 * card P) (boot_mmap s) = Inl Panic | Some (Inr s') \<Rightarrow> mapped_on flags root s P s')"

lemma maps_pages_mono:
  assumes "maps_pages flags root s P r" "P \<subseteq> Q" "finite Q" "r = Some (Inl e)"
  shows "maps_pages flags root s Q r"
  using assms(1,4) boot_pages_fault [of "3 * card P" "boot_mmap s" Panic "3 * card Q"] card_mono [OF assms(3,2)]
  by (simp add: maps_pages_def)

lemma map_one:
  assumes "mapped_on flags root s P s1" "p4 (mmus s Kernel_mmu) = Some root" "nr_cpus s \<le> 1"
    and fl: "flags AND VMM_ALLOC_MMAP \<noteq> 0" "flags AND VMM_UNMAP = 0" and "KERNEL_LOGICAL_BASE \<le> v"
  shows "maps_pages flags root s (insert (page_number v) P) (vmm_map_page Kernel_mmu (virt_to_phys v) v flags s1)"
proof -
  obtain T where T: "tables_ok s1 root T" "boot_owned s1 T" using assms(1) by (auto simp: mapped_on_def)
  have s1: "mmus s1 = mmus s" "nr_cpus s1 = nr_cpus s"
    "\<forall>va va'. shares s1 root va va' = shares s root va va'"
    using assms(1) by (auto simp: mapped_on_def)
  have boot: "from_boot (ucast (flags OR (if v < KERNEL_LOGICAL_BASE then PAGE_USER_ACCESSIBLE else 0)))"
    by (rule from_boot_flags [OF fl(1)])
  have m: "p4 (mmus s1 Kernel_mmu) = Some root" using assms(2) s1(1) by simp
  note step = boot.map_page_ok [OF m T boot, of "virt_to_phys v"]
  obtain n where n: "finite P" "n \<le> 3 * card P" "boot_pages n (boot_mmap s) = Inr (boot_mmap s1)"
    using assms(1) by (auto simp: mapped_on_def)
  let ?P = "insert (page_number v) P"
  have missing: "page_number v \<notin> P" if "walk s1 root v = None"
  proof
    assume "page_number v \<in> P"
    then obtain w where "entry s1 root v = linear_entry flags (page_number w)"
      using assms(1) shares_refl [of v v s root] unfolding mapped_on_def by blast
    then have "entry s1 root v \<noteq> 0"
      by (simp add: linear_entry_def leaf_entry_def fl(2) or_eq_0_iff PAGE_PRESENT_def)
    then show False using that by (auto simp: walk_tab entry_def split: option.splits)
  qed
  have count: "n + j \<le> 3 * card ?P" if "j \<le> (if walk s1 root v = None then 3 else 0)" for j
    using that n(1,2) missing by (auto simp: card_insert_if split: if_splits)
  show ?thesis
  proof (cases "vmm_map_page Kernel_mmu (virt_to_phys v) v flags s1")
    case None
    then show ?thesis using step s1(2) assms(3) by simp
  next
    case (Some r)
    show ?thesis
    proof (cases r)
      case (Inl e)
      then obtain j s3 where j: "took (ucast (flags OR (if v < KERNEL_LOGICAL_BASE then PAGE_USER_ACCESSIBLE else 0))) j s1 s3" "j \<le> 2"
        "alloc_pgtab (ucast (flags OR (if v < KERNEL_LOGICAL_BASE then PAGE_USER_ACCESSIBLE else 0))) s3 = Inl e" "walk s1 root v = None"
        using step Some s1(2) assms(3) by auto
      have f: "e = Panic" "boot_pages (Suc j) (boot_mmap s1) = Inl Panic" using took_boot_fails [OF boot T(2) j(1,3)] by auto
      have "boot_pages (n + Suc j) (boot_mmap s) = Inl Panic" unfolding boot_pages_add using n(3) f(2) by simp
      then have "boot_pages (3 * card ?P) (boot_mmap s) = Inl Panic" by (rule boot_pages_fault) (use j(2,4) in \<open>intro count, simp\<close>)
      then show ?thesis using Some Inl f(1) by (simp add: maps_pages_def)
    next
      case (Inr s2)
      have s2: "\<exists>T. tables_ok s2 root T \<and> boot_owned s2 T" "mmus s2 = mmus s" "nr_cpus s2 = nr_cpus s"
        "\<forall>va va'. shares s2 root va va' = shares s root va va'"
        "entry s2 root va = (if shares s root v va then linear_entry flags (page_number v) else entry s1 root va)" for va
        using step Some Inr s1 linear_entry_eq [OF assms(6)] by auto
      have "(\<exists>w. page_number w \<in> insert (page_number v) P \<and> shares s root w va \<and> entry s2 root va = linear_entry flags (page_number w)) \<or>
          (\<forall>w. page_number w \<in> insert (page_number v) P \<longrightarrow> \<not> shares s root w va) \<and> entry s2 root va = entry s root va" for va
      proof (cases "shares s root v va")
        case False
        then have "\<not> shares s root w va" if "page_number w = page_number v" for w using shares_page [OF that] by metis
        then show ?thesis using False assms(1) s2(5) [of va] unfolding mapped_on_def by auto
      qed (use s2(5) in auto)
      moreover obtain j where j: "took (ucast (flags OR (if v < KERNEL_LOGICAL_BASE then PAGE_USER_ACCESSIBLE else 0))) j s1 s2"
        "j \<le> (if walk s1 root v = None then 3 else 0)"
        using step Some Inr by auto
      have "boot_pages (n + j) (boot_mmap s) = Inr (boot_mmap s2)"
        unfolding boot_pages_add using n(3) took_boot [OF boot T(2) j(1)] by simp
      then have "\<exists>n \<le> 3 * card ?P. boot_pages n (boot_mmap s) = Inr (boot_mmap s2)" using count [OF j(2)] by blast
      ultimately show ?thesis using Some Inr s2(1-4) n(1) by (simp add: maps_pages_def mapped_on_def)
    qed
  qed
qed

section \<open>A small address space\<close>

text \<open>Tables of pages for the first two megabytes of the linear map.\<close>

definition ex_linear :: vm where
  "ex_linear = ex_vm\<lparr>frames := (\<lambda>f i. if f = 1 \<and> i = 256 then 0x2003 else if f = 2 \<and> i = 0 then 0x3003
     else if f = 3 \<and> i = 0 then 0x4003 else 0)\<rparr>"

lemma ex_linear_tables:
  "table_of (frames ex_linear f i) =
     (if f = 1 \<and> i = 256 then Some 2 else if f = 2 \<and> i = 0 then Some 3
      else if f = 3 \<and> i = 0 then Some 4 else None)"
  by (simp add: ex_linear_def table_of_def PAGE_PRESENT_def PTE_ADDR_MASK_def virt_to_page_def
      phys_to_virt_def virt_to_phys_def phys_to_page_def KERNEL_LOGICAL_BASE_def PAGE_SIZE_def)

lemma ex_linear_paths:
  assumes "path p" "tab ex_linear 1 p = Some f"
  shows "p = [] \<and> f = 1 \<or> p = [256] \<and> f = 2 \<or> p = [256, 0] \<and> f = 3 \<or> p = [256, 0, 0] \<and> f = 4"
proof -
  have "p = [] \<or> (\<exists>i. p = [i]) \<or> (\<exists>i j. p = [i, j]) \<or> (\<exists>i j k. p = [i, j, k])"
    using assms(1) unfolding path_def by (auto simp: numeral_eq_Suc le_Suc_eq length_Suc_conv)
  then show ?thesis using assms(2) by (auto simp: ex_linear_tables split: if_splits)
qed

lemma ex_linear_ok: "tables_ok ex_linear 1 {1, 2, 3, 4}" "boot_owned ex_linear {1, 2, 3, 4}"
proof -
  show "tables_ok ex_linear 1 {1, 2, 3, 4}"
    unfolding tables_ok_def
  proof (intro conjI allI impI)
    show "f \<in> {1, 2, 3, 4}" if "path p" "tab ex_linear 1 p = Some f" for p f using ex_linear_paths [OF that] by auto
    show "length p = length q" if "path p" "path q" "tab ex_linear 1 p = Some f" "tab ex_linear 1 q = Some f" for p q f
      using ex_linear_paths [OF that(1,3)] ex_linear_paths [OF that(2,4)] by auto
  qed
  show "boot_owned ex_linear {1, 2, 3, 4}"
    by (simp add: boot_owned_def ex_linear_def ex_vm_def page_aligned_def)
qed

lemma ex_linear_shares: "shares ex_linear 1 va va' \<longleftrightarrow> page_number va = page_number va'"
  by (rule shares_tree) (auto dest!: ex_linear_paths)

lemma map_page_present:
  assumes "p4 (mmus s Kernel_mmu) = Some root" "tables_ok s root T" "boot_owned s T" "nr_cpus s \<le> 1"
    and "flags AND VMM_ALLOC_MMAP \<noteq> 0" "flags AND VMM_UNMAP = 0" "walk s root v \<noteq> None"
  shows "\<exists>s'. vmm_map_page Kernel_mmu phys v flags s = Some (Inr s') \<and> walk s' root v \<noteq> None"
proof -
  have "leaf_entry phys flags \<noteq> 0"
    by (simp add: leaf_entry_def assms(6) or_eq_0_iff PAGE_PRESENT_def)
  moreover have "\<exists>t i. walk s' root v = Some (t, i)" if "entry s' root v \<noteq> 0" for s'
    using that by (auto simp: walk_tab entry_def split: option.splits)
  ultimately show ?thesis
    using shares_refl [of v v s root] boot.map_page_ok [where virt = v and phys = phys, OF assms(1,2,3) from_boot_flags [OF assms(5)]] assms(4,6,7)
    by (auto split: option.splits sum.splits)
qed

end
