(* ===== verification/Acpi_Correct.thy ===== *)
theory Acpi_Correct
  imports Acpi Vmm_Boot
begin

text \<open>
  What the search for the firmware tables finds, against a description of the tables by byte
  sums and lists of addresses.
\<close>

section \<open>Checksums and signatures\<close>

definition byte_sum :: "byte_mem \<Rightarrow> u64 \<Rightarrow> nat \<Rightarrow> nat" where
  "byte_sum m p n = (\<Sum>i<n. unat (m (p + of_nat i)))"

lemma byte_sum_Suc: "byte_sum m p (Suc n) = unat (m p) + byte_sum m (p + 1) n"
  unfolding byte_sum_def sum.lessThan_Suc_shift by (simp add: add.assoc)

lemma calc_checksum_from_sum: "calc_checksum_from m p n acc = acc + of_nat (byte_sum m p n)"
  by (induction n arbitrary: p acc) (simp_all add: byte_sum_Suc, simp add: byte_sum_def)

lemma calc_checksum_zero: "calc_checksum m p n = 0 \<longleftrightarrow> 256 dvd byte_sum m p n"
proof -
  have "(of_nat k :: u8) = 0 \<longleftrightarrow> 256 dvd k" for k by (simp add: word_of_nat_eq_0_iff)
  then show ?thesis by (simp add: calc_checksum_def calc_checksum_from_sum)
qed

lemma matches_nth: "matches m p bs \<longleftrightarrow> (\<forall>i < length bs. m (p + of_nat i) = bs ! i)"
proof (induction bs arbitrary: p)
  case (Cons b bs)
  then show ?case by (auto simp: less_Suc_eq_0_disj add.assoc)
qed simp

lemma calc_checksum_numeral:
  "calc_checksum_from m p (numeral k) acc = calc_checksum_from m (p + 1) (pred_numeral k) (acc + m p)"
  by (simp add: numeral_eq_Suc)

section \<open>The root pointer\<close>

definition valid_rsdp :: "byte_mem \<Rightarrow> u64 \<Rightarrow> bool" where
  "valid_rsdp m v \<longleftrightarrow> (\<forall>i < 8. m (v + of_nat i) = of_char (''RSD PTR '' ! i)) \<and>
     (m (v + 15) = 0 \<and> 256 dvd byte_sum m v 20 \<or> m (v + 15) = 2 \<and> 256 dvd byte_sum m v 36)"

lemma is_rsdp_valid: "is_rsdp m v = valid_rsdp m v"
proof -
  have "length (chars ''RSD PTR '') = 8" by (simp add: chars_def)
  moreover have "chars ''RSD PTR '' ! i = of_char (''RSD PTR '' ! i)" if "i < 8" for i
    unfolding chars_def using that by (simp only: nth_map list.size)
  ultimately have "matches m v (chars ''RSD PTR '') \<longleftrightarrow> (\<forall>i < 8. m (v + of_nat i) = of_char (''RSD PTR '' ! i))"
    by (simp add: matches_nth)
  then show ?thesis
    by (auto simp: is_rsdp_def valid_rsdp_def calc_checksum_zero sizeof_rsdp_def rsdp_revision_def)
qed

definition rsdp_slot :: "nat \<Rightarrow> u64" where
  "rsdp_slot k = phys_to_virt (0xE0000 + 16 * of_nat k)"

lemma find_rsdp_from_slot:
  assumes "k \<le> 0x2000"
  shows "find_rsdp_from m (0xE0000 + 16 * of_nat k) =
    (case find (\<lambda>k. valid_rsdp m (rsdp_slot k)) [k ..< 0x2000] of None \<Rightarrow> 0 | Some k \<Rightarrow> rsdp_slot k)"
  using assms
proof (induction "0x2000 - k" arbitrary: k)
  case 0
  then have "k = 0x2000" by simp
  then show ?case by (subst find_rsdp_from.simps) (simp add: RSDP_SEARCH_END_def)
next
  case (Suc d)
  then have k: "k < 0x2000" by simp
  have "unat (0xE0000 + 16 * of_nat k :: u64) = 0xE0000 + 16 * k"
    using k by (simp add: unat_word_ariths unat_of_nat)
  then have "(0xE0000 + 16 * of_nat k :: u64) < RSDP_SEARCH_END"
    using k by (simp add: word_less_nat_alt RSDP_SEARCH_END_def)
  moreover have "0xE0000 + 16 * of_nat k + 16 = (0xE0000 + 16 * of_nat (Suc k) :: u64)" by simp
  ultimately have "find_rsdp_from m (0xE0000 + 16 * of_nat k) =
      (if valid_rsdp m (rsdp_slot k) then rsdp_slot k else find_rsdp_from m (0xE0000 + 16 * of_nat (Suc k)))"
    by (subst find_rsdp_from.simps) (simp only: Let_def is_rsdp_valid rsdp_slot_def if_True)
  moreover have "[k ..< 0x2000] = k # [Suc k ..< 0x2000]" using k by (simp only: upt_conv_Cons)
  moreover have "find_rsdp_from m (0xE0000 + 16 * of_nat (Suc k)) =
      (case find (\<lambda>k. valid_rsdp m (rsdp_slot k)) [Suc k ..< 0x2000] of None \<Rightarrow> 0 | Some k \<Rightarrow> rsdp_slot k)"
    using Suc by (intro Suc.hyps(1)) simp_all
  ultimately show ?case
    by (simp del: of_nat_Suc upt_rec_numeral)
qed

lemma rsdp_slot_nonzero: "k < 0x2000 \<Longrightarrow> rsdp_slot k \<noteq> 0"
proof -
  assume k: "k < 0x2000"
  then have u: "unat (0xE0000 + 16 * of_nat k :: u64) = 0xE0000 + 16 * k"
    by (simp add: unat_word_ariths unat_of_nat)
  then have z: "(0xE0000 + 16 * of_nat k :: u64) \<noteq> 0" by (metis add_is_0 unat_0 zero_neq_numeral)
  have "unat (0xE0000 + 16 * of_nat k + KERNEL_LOGICAL_BASE :: u64) = 0xE0000 + 16 * k + unat KERNEL_LOGICAL_BASE"
    using u k by (intro trans [OF unat_add_u64]) (simp_all add: KERNEL_LOGICAL_BASE_def)
  then have "0xE0000 + 16 * of_nat k + KERNEL_LOGICAL_BASE \<noteq> (0 :: u64)"
    by (metis add_is_0 unat_0 zero_neq_numeral)
  then show ?thesis using z by (simp add: rsdp_slot_def phys_to_virt_def)
qed

text \<open>
  acpi_init finds the firmware's root pointer or panics.  It looks at the 8192 addresses from
  0xE0000 to 0xFFFF0 that are multiples of 16.  If none of them holds a valid root pointer (the
  eight characters of the signature and either revision 0 with a byte sum over 20 bytes, or
  revision 2 with a byte sum over 36 bytes, that is a multiple of 256) it panics before it maps
  anything; otherwise the root pointer is the first valid one, it is not null, and when the call
  returns it is the one the call has recorded.
\<close>

lemma acpi_init_root:
  "if \<exists>k < 0x2000. valid_rsdp m (rsdp_slot k)
   then (\<exists>k < 0x2000. find_rsdp m = rsdp_slot k \<and> rsdp_slot k \<noteq> 0 \<and> valid_rsdp m (rsdp_slot k) \<and>
           (\<forall>j < k. \<not> valid_rsdp m (rsdp_slot j)) \<and>
           acpi_init m s = rbind (acpi_dump_tables m (rsdp_slot k) s) (\<lambda>s'. Some (Inr (rsdp_slot k, s'))))
   else acpi_init m s = Some (Inl Panic)"
proof -
  let ?f = "find (\<lambda>k. valid_rsdp m (rsdp_slot k)) [0 ..< 0x2000]"
  have f: "find_rsdp m = (case ?f of None \<Rightarrow> 0 | Some k \<Rightarrow> rsdp_slot k)"
    using find_rsdp_from_slot [of 0 m] by (simp add: find_rsdp_def RSDP_SEARCH_START_def del: upt_rec_numeral)
  show ?thesis
  proof (cases ?f)
    case None
    then have "\<not> (\<exists>k < 0x2000. valid_rsdp m (rsdp_slot k))" by (auto simp: find_None_iff)
    then show ?thesis using f None by (auto simp: acpi_init_def simp del: upt_rec_numeral)
  next
    case (Some k)
    then have k: "k < 0x2000" "valid_rsdp m (rsdp_slot k)" "\<forall>j < k. \<not> valid_rsdp m (rsdp_slot j)"
      by (auto simp: find_Some_iff simp del: upt_rec_numeral)
    moreover have "find_rsdp m = rsdp_slot k" using f Some by (simp del: upt_rec_numeral)
    moreover have "rsdp_slot k \<noteq> 0" by (rule rsdp_slot_nonzero [OF k(1)])
    ultimately have "acpi_init m s = rbind (acpi_dump_tables m (rsdp_slot k) s) (\<lambda>s'. Some (Inr (rsdp_slot k, s')))"
      by (simp add: acpi_init_def Let_def)
    then show ?thesis using k \<open>find_rsdp m = rsdp_slot k\<close> \<open>rsdp_slot k \<noteq> 0\<close> by metis
  qed
qed

definition ex_rsdp_mem :: byte_mem where
  "ex_rsdp_mem a =
     (if a = 0xFFFF8000000E0000 then 82 else if a = 0xFFFF8000000E0001 then 83
      else if a = 0xFFFF8000000E0002 then 68 else if a = 0xFFFF8000000E0003 then 32
      else if a = 0xFFFF8000000E0004 then 80 else if a = 0xFFFF8000000E0005 then 84
      else if a = 0xFFFF8000000E0006 then 82 else if a = 0xFFFF8000000E0007 then 32
      else if a = 0xFFFF8000000E0008 then 225 else 0)"

lemma acpi_init_root_example: "find_rsdp ex_rsdp_mem = 0xFFFF8000000E0000"
proof -
  have s: "rsdp_slot 0 = 0xFFFF8000000E0000"
    by (simp add: rsdp_slot_def phys_to_virt_def KERNEL_LOGICAL_BASE_def)
  have v: "valid_rsdp ex_rsdp_mem (rsdp_slot 0)"
    unfolding is_rsdp_valid [symmetric] is_rsdp_def calc_checksum_def s
    by (simp add: chars_def calc_checksum_numeral sizeof_rsdp_def rsdp_revision_def) (simp add: ex_rsdp_mem_def)
  then obtain k where k: "find_rsdp ex_rsdp_mem = rsdp_slot k" "\<forall>j < k. \<not> valid_rsdp ex_rsdp_mem (rsdp_slot j)"
    using acpi_init_root [of ex_rsdp_mem ex_vm]
    by (auto split: if_splits dest: spec [of "\<lambda>k. k < 8192 \<longrightarrow> \<not> valid_rsdp ex_rsdp_mem (rsdp_slot k)" 0])
  then have "k = 0" using v by (metis gr0I)
  then show ?thesis using k(1) s by simp
qed

section \<open>Looking a table up\<close>

text \<open>The addresses the root table lists.\<close>

definition root_address :: "byte_mem \<Rightarrow> u64 \<Rightarrow> u64" where
  "root_address m r = (if m (r + 15) = 0 then ucast (read_u32 m (r + 16)) else read_u64 m (r + 24))"

definition root_tables :: "byte_mem \<Rightarrow> u64 \<Rightarrow> u64 list" where
  "root_tables m r =
     (let sdt = phys_to_virt (root_address m r); n = unat (read_u32 m (sdt + 4)) - 36 in
      if m (r + 15) = 0 then map (\<lambda>i. ucast (read_u32 m (sdt + 36 + 4 * of_nat i))) [0 ..< n div 4]
      else map (\<lambda>i. read_u64 m (sdt + 36 + 8 * of_nat i)) [0 ..< n div 8])"

definition valid_table :: "byte_mem \<Rightarrow> u8 list \<Rightarrow> u64 \<Rightarrow> bool" where
  "valid_table m sig t \<longleftrightarrow> (\<forall>i < length sig. m (t + of_nat i) = sig ! i) \<and>
     256 dvd byte_sum m t (unat (read_u32 m (t + 4)))"

lemma valid_table_code: "matches m t sig \<and> table_checksum m t \<longleftrightarrow> valid_table m sig t"
  by (simp add: matches_nth table_checksum_def calc_checksum_zero valid_table_def header_length_def)

lemma find_table_from_find:
  assumes "\<forall>j \<in> {i ..< i + n}. phys_to_virt (tables j) \<noteq> 0"
  shows "find_table_from m sig tables i n =
    Inr (case find (valid_table m sig) (map (\<lambda>j. phys_to_virt (tables j)) [i ..< i + n]) of None \<Rightarrow> 0 | Some t \<Rightarrow> t)"
  using assms
proof (induction n arbitrary: i)
  case (Suc n)
  have "[i ..< i + Suc n] = i # [Suc i ..< Suc i + n]" by (simp add: upt_conv_Cons del: upt_Suc)
  moreover have "phys_to_virt (tables i) \<noteq> 0" "\<forall>j \<in> {Suc i ..< Suc i + n}. phys_to_virt (tables j) \<noteq> 0"
    using Suc.prems by auto
  ultimately show ?case using Suc.IH [of "Suc i"]
    by (simp add: Let_def valid_table_code del: upt_Suc)
qed simp

lemma num_entries_div:
  assumes "36 \<le> unat (read_u32 m (sdt + 4))" "width \<noteq> 0"
  shows "num_entries m sdt width = (unat (read_u32 m (sdt + 4)) - 36) div unat width"
proof -
  have "unat (ucast (read_u32 m (sdt + 4)) :: u64) = unat (read_u32 m (sdt + 4))"
    by (simp add: unsigned_ucast_eq take_bit_nat_eq_self_iff order.strict_trans [OF unsigned_less])
  then show ?thesis using assms(1)
    by (simp add: num_entries_def header_length_def sizeof_acpi_header_def unat_div nowrap word_le_nat_alt)
qed

text \<open>
  acpi_find_table returns the first table of that name.  For a root pointer of revision 0 or
  2 that points to a root table with at least a header, the result is the address of the first
  table, in the order in which the root table lists them (as 32-bit addresses in an RSDT and as
  64-bit addresses in an XSDT), whose signature is the one asked for and whose bytes sum to a
  multiple of 256, and null when there is none; no listed address may be zero or wrap to null.
\<close>

lemma acpi_find_table_correct:
  assumes "rsdp \<noteq> 0" and "m (rsdp + 15) \<in> {0, 2}" and "phys_to_virt (root_address m rsdp) \<noteq> 0"
    and "36 \<le> unat (read_u32 m (phys_to_virt (root_address m rsdp) + 4))"
    and "\<forall>t \<in> set (root_tables m rsdp). phys_to_virt t \<noteq> 0"
  shows "acpi_find_table m rsdp sig =
    Inr (case find (valid_table m sig) (map phys_to_virt (root_tables m rsdp)) of None \<Rightarrow> 0 | Some t \<Rightarrow> t)"
proof (cases "m (rsdp + 15) = 0")
  case True
  let ?sdt = "phys_to_virt (root_address m rsdp)"
  have "root_tables m rsdp = map (rsdt_table m ?sdt) [0 ..< num_entries m ?sdt 4]"
    using True num_entries_div [OF assms(4), of 4]
    by (simp add: root_tables_def rsdt_table_def Let_def sizeof_acpi_header_def add.assoc)
  moreover have "acpi_find_table m rsdp sig = find_table_from m sig (rsdt_table m ?sdt) 0 (num_entries m ?sdt 4)"
    using True assms(1,3) by (simp add: acpi_find_table_def rsdp_revision_def root_address_def rsdt_address_def Let_def)
  ultimately show ?thesis
    using assms(5) find_table_from_find [of 0 "num_entries m ?sdt 4" "rsdt_table m ?sdt" m sig] by (simp add: comp_def)
next
  case False
  let ?sdt = "phys_to_virt (root_address m rsdp)"
  have "root_tables m rsdp = map (xsdt_table m ?sdt) [0 ..< num_entries m ?sdt 8]"
    using False num_entries_div [OF assms(4), of 8]
    by (simp add: root_tables_def xsdt_table_def Let_def sizeof_acpi_header_def add.assoc)
  moreover have "acpi_find_table m rsdp sig = find_table_from m sig (xsdt_table m ?sdt) 0 (num_entries m ?sdt 8)"
    using False assms(1,2,3) by (auto simp: acpi_find_table_def rsdp_revision_def root_address_def xsdt_address_def Let_def)
  ultimately show ?thesis
    using assms(5) find_table_from_find [of 0 "num_entries m ?sdt 8" "xsdt_table m ?sdt" m sig] by (simp add: comp_def)
qed

text \<open>A root table at 0x1000 that lists one table, the one of the interrupt controllers at 0x2000.\<close>

definition ex_tables_mem :: byte_mem where
  "ex_tables_mem a =
     (if a = 0xFFFF8000000E0011 then 0x10
      else if a = 0xFFFF800000001004 then 40 else if a = 0xFFFF800000001025 then 0x20
      else if a = 0xFFFF800000002000 then 65 else if a = 0xFFFF800000002001 then 80
      else if a = 0xFFFF800000002002 then 73 else if a = 0xFFFF800000002003 then 67
      else if a = 0xFFFF800000002004 then 9 else if a = 0xFFFF800000002008 then 218 else 0)"

lemma acpi_find_table_correct_example:
  "acpi_find_table ex_tables_mem 0xFFFF8000000E0000 (chars ''APIC'') = Inr 0xFFFF800000002000"
proof -
  have r: "root_address ex_tables_mem 0xFFFF8000000E0000 = 0x1000"
    by (simp add: root_address_def ex_tables_mem_def read_u32_def read_u16_def)
  have v: "phys_to_virt 0x1000 = 0xFFFF800000001000" "phys_to_virt 0x2000 = 0xFFFF800000002000"
    by (simp_all add: phys_to_virt_def KERNEL_LOGICAL_BASE_def)
  have l: "read_u32 ex_tables_mem 0xFFFF800000001004 = 40" "read_u32 ex_tables_mem 0xFFFF800000001024 = 0x2000"
    "read_u32 ex_tables_mem 0xFFFF800000002004 = 9"
    by (simp_all add: ex_tables_mem_def read_u32_def read_u16_def)
  have rev: "ex_tables_mem 0xFFFF8000000E000F = 0" by (simp add: ex_tables_mem_def)
  have t: "root_tables ex_tables_mem 0xFFFF8000000E0000 = [0x2000]"
    by (simp add: root_tables_def r v l rev Let_def)
  have "valid_table ex_tables_mem (chars ''APIC'') 0xFFFF800000002000"
    unfolding valid_table_code [symmetric] table_checksum_def header_length_def calc_checksum_def
    by (simp add: l chars_def calc_checksum_numeral) (simp add: ex_tables_mem_def)
  then show ?thesis
    using acpi_find_table_correct [of "0xFFFF8000000E0000" ex_tables_mem "chars ''APIC''"]
    by (simp add: r v l rev t)
qed

section \<open>Mapping a table\<close>








end
