(* ===== verification/Apic.thy ===== *)
theory Apic
  imports Acpi
begin

text \<open>
  The list of interrupt controllers that \<^verbatim>\<open>kernel/drivers/apic/apic.c\<close> reads from the firmware's
  MADT.  An entry of the table is the address of its first byte; the four arrays are the lists
  of their used elements.
\<close>

section \<open>Entries\<close>

definition MAX_LAPICS :: nat where "MAX_LAPICS = MAX_CORES"
definition MAX_IOAPICS :: nat where "MAX_IOAPICS = 16"
definition MAX_NMIS :: nat where "MAX_NMIS = 2 * MAX_LAPICS"
definition MAX_OVERRIDES :: nat where "MAX_OVERRIDES = 48"

definition MADT_LAPIC :: u8 where "MADT_LAPIC = 0"
definition MADT_IOAPIC :: u8 where "MADT_IOAPIC = 1"
definition MADT_OVERRIDE :: u8 where "MADT_OVERRIDE = 2"
definition MADT_NMI :: u8 where "MADT_NMI = 4"
definition MADT_LAPIC_ADDR :: u8 where "MADT_LAPIC_ADDR = 5"

definition madt_type :: "byte_mem \<Rightarrow> u64 \<Rightarrow> u8" where "madt_type m e = m e"
definition madt_length :: "byte_mem \<Rightarrow> u64 \<Rightarrow> u8" where "madt_length m e = m (e + 1)"

definition lapic_acpi_id :: "byte_mem \<Rightarrow> u64 \<Rightarrow> u8" where "lapic_acpi_id m e = m (e + 2)"
definition lapic_apic_id :: "byte_mem \<Rightarrow> u64 \<Rightarrow> u8" where "lapic_apic_id m e = m (e + 3)"
definition lapic_flags :: "byte_mem \<Rightarrow> u64 \<Rightarrow> u32" where "lapic_flags m e = read_u32 m (e + 4)"

definition ioapic_phys_addr :: "byte_mem \<Rightarrow> u64 \<Rightarrow> u64" where
  "ioapic_phys_addr m e = ucast (read_u32 m (e + 4))"
definition ioapic_gsi_base :: "byte_mem \<Rightarrow> u64 \<Rightarrow> u32" where "ioapic_gsi_base m e = read_u32 m (e + 8)"

definition override_source :: "byte_mem \<Rightarrow> u64 \<Rightarrow> u8" where "override_source m e = m (e + 3)"
definition override_gsi :: "byte_mem \<Rightarrow> u64 \<Rightarrow> u32" where "override_gsi m e = read_u32 m (e + 4)"
definition override_flags :: "byte_mem \<Rightarrow> u64 \<Rightarrow> u16" where "override_flags m e = read_u16 m (e + 8)"

definition nmi_acpi_id :: "byte_mem \<Rightarrow> u64 \<Rightarrow> u8" where "nmi_acpi_id m e = m (e + 2)"
definition nmi_flags :: "byte_mem \<Rightarrow> u64 \<Rightarrow> u16" where "nmi_flags m e = read_u16 m (e + 3)"
definition nmi_lint_num :: "byte_mem \<Rightarrow> u64 \<Rightarrow> u8" where "nmi_lint_num m e = m (e + 5)"

definition lapic_addr :: "byte_mem \<Rightarrow> u64 \<Rightarrow> u64" where "lapic_addr m e = read_u64 m (e + 4)"
definition madt_lapic_address :: "byte_mem \<Rightarrow> u64 \<Rightarrow> u64" where
  "madt_lapic_address m madt = ucast (read_u32 m (madt + 36))"

section \<open>State\<close>

record lapic_info =
  li_id :: u8
  li_acpi_id :: u8
  li_present :: u8
  li_ticks_per_10ms :: u32

record apic =
  lapic_list :: "lapic_info list"
  ioapic_list :: "u64 list"
  override_list :: "u64 list"
  nmi_list :: "u64 list"
  lapic_base :: u64

section \<open>Reading the table\<close>

definition add_lapic :: "byte_mem \<Rightarrow> u64 \<Rightarrow> apic \<Rightarrow> apic" where
  "add_lapic m e a =
     (if length (lapic_list a) \<ge> MAX_LAPICS then a
      else a\<lparr>lapic_list := lapic_list a @
        [\<lparr>li_id = lapic_apic_id m e, li_acpi_id = lapic_acpi_id m e,
          li_present = (if lapic_flags m e \<noteq> 0 then 1 else 0), li_ticks_per_10ms = 0\<rparr>]\<rparr>)"

definition APIC_FLAGS :: u64 where
  "APIC_FLAGS = VMM_ALLOC_MMAP OR PAGE_GLOBAL OR PAGE_DISABLE_CACHE OR PAGE_WRITABLE"

definition add_ioapic :: "byte_mem \<Rightarrow> u64 \<Rightarrow> apic \<times> vm \<Rightarrow> (apic \<times> vm) outcome option" where
  "add_ioapic m e = (\<lambda>(a, s).
     if length (ioapic_list a) \<ge> MAX_IOAPICS then Some (Inr (a, s))
     else rbind (vmm_map_page Kernel_mmu (ioapic_phys_addr m e) (phys_to_virt (ioapic_phys_addr m e)) APIC_FLAGS s)
       (\<lambda>s. Some (Inr (a\<lparr>ioapic_list := ioapic_list a @ [e]\<rparr>, s))))"

definition add_override :: "u64 \<Rightarrow> apic \<Rightarrow> apic" where
  "add_override e a =
     (if length (override_list a) \<ge> MAX_OVERRIDES then a
      else a\<lparr>override_list := override_list a @ [e]\<rparr>)"

definition add_nmi :: "u64 \<Rightarrow> apic \<Rightarrow> apic" where
  "add_nmi e a =
     (if length (nmi_list a) \<ge> MAX_NMIS then a else a\<lparr>nmi_list := nmi_list a @ [e]\<rparr>)"

text \<open>The body of the loop of \<^verbatim>\<open>parse_madt\<close>; \<open>base\<close> is \<^verbatim>\<open>tmp_lapic_base\<close>.\<close>

definition parse_entry :: "byte_mem \<Rightarrow> u64 \<Rightarrow> u64 \<times> apic \<times> vm \<Rightarrow> (u64 \<times> apic \<times> vm) outcome option" where
  "parse_entry m e = (\<lambda>(base, a, s).
     if madt_type m e = MADT_LAPIC then Some (Inr (base, add_lapic m e a, s))
     else if madt_type m e = MADT_IOAPIC then rbind (add_ioapic m e (a, s)) (\<lambda>(a, s). Some (Inr (base, a, s)))
     else if madt_type m e = MADT_OVERRIDE then Some (Inr (base, add_override e a, s))
     else if madt_type m e = MADT_NMI then Some (Inr (base, add_nmi e a, s))
     else if madt_type m e = MADT_LAPIC_ADDR then Some (Inr (phys_to_virt (lapic_addr m e), a, s))
     else Some (Inr (base, a, s)))"

text \<open>An entry of length zero keeps the loop where it is.\<close>

partial_function (option) parse_entries ::
  "byte_mem \<Rightarrow> u64 \<Rightarrow> u64 \<Rightarrow> u64 \<times> apic \<times> vm \<Rightarrow> (u64 \<times> apic \<times> vm) outcome option"
where
  "parse_entries m e stop st =
     (if e < stop
      then Option.bind (parse_entry m e st) (\<lambda>r. case r of
          Inl f \<Rightarrow> Some (Inl f)
        | Inr st' \<Rightarrow> parse_entries m (e + ucast (madt_length m e)) stop st')
      else Some (Inr st))"

declare parse_entries.simps [code]

definition parse_madt :: "byte_mem \<Rightarrow> u64 \<Rightarrow> apic \<times> vm \<Rightarrow> (apic \<times> vm) outcome option" where
  "parse_madt m madt = (\<lambda>(a, s).
     rbind (parse_entries m (madt + 44) (madt + ucast (header_length m madt))
              (phys_to_virt (madt_lapic_address m madt), a, s)) (\<lambda>(base, a, s).
     rbind (vmm_map_page Kernel_mmu (virt_to_phys base) base APIC_FLAGS s)
       (\<lambda>s. Some (Inr (a\<lparr>lapic_base := base\<rparr>, s)))))"

definition apic_init :: "byte_mem \<Rightarrow> u64 \<Rightarrow> apic \<times> vm \<Rightarrow> (apic \<times> vm) outcome option" where
  "apic_init m rsdp st =
     rbind (Some (acpi_find_table m rsdp (chars ''APIC''))) (\<lambda>madt.
       if madt = 0 then Some (Inl Panic) else parse_madt m madt st)"

end
