(* ===== verification/Apic_Correct.thy ===== *)
theory Apic_Correct
  imports Apic Vmm_Boot
begin

text \<open>
  What reading the MADT gives, against the list of the entries the table holds.
\<close>

section \<open>The entries of a table\<close>

text \<open>The entries between an address and the end of the table, each where the one before it ends.\<close>

inductive madt_chain :: "byte_mem \<Rightarrow> u64 \<Rightarrow> u64 \<Rightarrow> u64 list \<Rightarrow> bool" for m stop where
  chain_end: "\<not> e < stop \<Longrightarrow> madt_chain m stop e []"
| chain_entry: "e < stop \<Longrightarrow> madt_chain m stop (e + ucast (madt_length m e)) es \<Longrightarrow> madt_chain m stop e (e # es)"


lemma madt_chain_unique: "madt_chain m stop e es \<Longrightarrow> madt_chain m stop e fs \<Longrightarrow> fs = es"
proof (induction arbitrary: fs rule: madt_chain.induct)
  case (chain_end e)
  then show ?case by (auto elim: madt_chain.cases)
next
  case (chain_entry e es)
  from chain_entry.prems show ?case using chain_entry.hyps(1) chain_entry.IH by (cases rule: madt_chain.cases) auto
qed

lemma madt_chain_exists:
  assumes "unat stop + 255 < 2 ^ 64" "\<forall>a. e \<le> a \<and> a < stop \<longrightarrow> madt_length m a \<noteq> 0"
  shows "\<exists>es. madt_chain m stop e es"
  using assms(2)
proof (induction "unat stop - unat e" arbitrary: e rule: less_induct)
  case less
  show ?case
  proof (cases "e < stop")
    case True
    let ?l = "madt_length m e"
    have l: "0 < unat ?l" "unat ?l < 256"
      using less.prems True unsigned_less [where w = ?l and ?'a = nat] by (auto simp: unat_gt_0)
    have u: "unat (ucast ?l :: u64) = unat ?l"
      by (simp add: unsigned_ucast_eq take_bit_nat_eq_self_iff order.strict_trans [OF l(2)])
    then have "unat (e + ucast ?l) = unat e + unat ?l"
      using l(2) assms(1) True by (subst unat_add_u64) (simp_all add: word_less_nat_alt)
    then have "unat stop - unat (e + ucast ?l) < unat stop - unat e" "e \<le> e + ucast ?l"
      using l(1) True by (simp_all add: word_less_nat_alt word_le_nat_alt)
    moreover from this(2) have "\<forall>a. e + ucast ?l \<le> a \<and> a < stop \<longrightarrow> madt_length m a \<noteq> 0"
      using less.prems order_trans by blast
    ultimately obtain es where "madt_chain m stop (e + ucast ?l) es" using less.hyps by blast
    then show ?thesis using True by (auto intro: madt_chain.intros)
  qed (auto intro: madt_chain.intros)
qed

section \<open>What the entries say\<close>











section \<open>Mapping the controllers\<close>







lemma parse_entries_returns:
  "parse_entries m e stop st = Some r \<Longrightarrow> r = Inr st' \<longrightarrow> (\<exists>es. madt_chain m stop e es)"
proof (induction rule: parse_entries.raw_induct [rotated 1, consumes 1])
  case (1 f m e stop st r)
  then show ?case
    by (cases "e < stop") (fastforce intro: madt_chain.intros split: bind_splits sum.splits)+
qed

text \<open>
  parse_madt does not return on a table with an entry of length zero.  If the entries that
  follow the header, each where the one before it ends, do not lead to the end of the table
  after finitely many steps, the call never returns normally; in particular an entry whose
  length byte is zero keeps the loop in place for ever.
\<close>

lemma parse_madt_stuck:
  assumes "\<nexists>es. madt_chain m (madt + ucast (header_length m madt)) (madt + 44) es"
  shows "parse_madt m madt (a, s) \<noteq> Some (Inr r)"
proof
  assume "parse_madt m madt (a, s) = Some (Inr r)"
  then obtain st where "parse_entries m (madt + 44) (madt + ucast (header_length m madt))
      (phys_to_virt (madt_lapic_address m madt), a, s) = Some (Inr st)"
    by (auto simp: parse_madt_def rbind_Inr)
  then show False using parse_entries_returns assms by blast
qed

lemma zero_length_stuck:
  assumes "madt_chain m stop e es" "e < stop"
  shows "madt_length m e \<noteq> 0"
  using assms
proof (induction rule: madt_chain.induct)
  case (chain_entry e es)
  show ?case
  proof
    assume "madt_length m e = 0"
    then have "madt_chain m stop e es" using chain_entry.hyps(2) by simp
    then show False using madt_chain_unique [of m stop e es "e # es"] chain_entry.hyps by (auto intro: madt_chain.intros)
  qed
qed simp

definition no_apic :: apic where
  "no_apic = \<lparr>lapic_list = [], ioapic_list = [], override_list = [], nmi_list = [], lapic_base = 0\<rparr>"



definition ex_madt_zero :: byte_mem where
  "ex_madt_zero a = (if a = 0xFFFF800000002004 then 52 else 0)"

lemma parse_madt_stuck_example:
  "\<forall>r. parse_madt ex_madt_zero 0xFFFF800000002000 (no_apic, ex_vm) \<noteq> Some (Inr r)"
proof (rule allI, rule parse_madt_stuck, rule notI, elim exE)
  fix es
  have l: "header_length ex_madt_zero 0xFFFF800000002000 = 52"
    by (simp add: header_length_def read_u32_def read_u16_def ex_madt_zero_def)
  assume "madt_chain ex_madt_zero (0xFFFF800000002000 + ucast (header_length ex_madt_zero 0xFFFF800000002000))
    (0xFFFF800000002000 + 44) es"
  then show False
    using zero_length_stuck [of ex_madt_zero "0xFFFF800000002034" "0xFFFF80000000202C" es]
    by (simp add: l madt_length_def) (simp add: ex_madt_zero_def)
qed

end
