(* ===== verification/Lapic.thy ===== *)
theory Lapic
  imports Apic Ports
begin

text \<open>
  The local interrupt controller of a processor (\<^verbatim>\<open>kernel/drivers/apic/lapic.c\<close>), the interrupts that
  processors send each other (\<^verbatim>\<open>kernel/smp/ipi.c\<close>) and the stop of the machine (\<^verbatim>\<open>libk/abort.c\<close>).
  The controller is a device: \<open>l_reads\<close> gives what a read of a register yields, \<open>l_writes\<close> is the
  list of the writes to registers, the oldest first.  What the processor answers to \<^verbatim>\<open>cpuid\<close>, the
  register that enables the controller, and the count of the timer after the calibration wait
  are parameters.
\<close>

section \<open>Registers\<close>

record lapic_regs =
  l_reads :: "u32 \<Rightarrow> u32"
  l_writes :: "(u32 \<times> u32) list"

definition APIC_DISABLE :: u32 where "APIC_DISABLE = 0x10000"
definition APIC_TIMER_PERIODIC :: u32 where "APIC_TIMER_PERIODIC = 0x20000"
definition APIC_REG_ID :: u32 where "APIC_REG_ID = 0x20"
definition APIC_REG_EOI :: u32 where "APIC_REG_EOI = 0xB0"
definition APIC_REG_SPURIOUS :: u32 where "APIC_REG_SPURIOUS = 0xF0"
definition APIC_REG_LINT0 :: u32 where "APIC_REG_LINT0 = 0x350"
definition APIC_REG_LINT1 :: u32 where "APIC_REG_LINT1 = 0x360"
definition APIC_REG_ICR0 :: u32 where "APIC_REG_ICR0 = 0x300"
definition APIC_REG_ICR1 :: u32 where "APIC_REG_ICR1 = 0x310"
definition APIC_REG_TIMER_LVT :: u32 where "APIC_REG_TIMER_LVT = 0x320"
definition APIC_REG_TIMER_INITIAL :: u32 where "APIC_REG_TIMER_INITIAL = 0x380"
definition APIC_REG_TIMER_DIVIDE :: u32 where "APIC_REG_TIMER_DIVIDE = 0x3E0"
definition APIC_REG_ISR_BASE :: u32 where "APIC_REG_ISR_BASE = 0x100"

definition IPI_INIT :: u32 where "IPI_INIT = 0x4500"
definition IPI_START_UP :: u32 where "IPI_START_UP = 0x4600"
definition IPI_FIXED :: u32 where "IPI_FIXED = 0x4000"
definition IPI_BROADCAST :: u32 where "IPI_BROADCAST = 0xC0000"

definition lapic_write :: "u32 \<Rightarrow> u32 \<Rightarrow> lapic_regs \<Rightarrow> lapic_regs" where
  "lapic_write reg_offset data l = l\<lparr>l_writes := l_writes l @ [(reg_offset, data)]\<rparr>"

definition lapic_read :: "u32 \<Rightarrow> lapic_regs \<Rightarrow> u32" where
  "lapic_read reg_offset l = l_reads l reg_offset"

fun find_lapic :: "u8 \<Rightarrow> lapic_info list \<Rightarrow> nat option" where
  "find_lapic i [] = None"
| "find_lapic i (x # xs) = (if li_id x = i then Some 0 else map_option Suc (find_lapic i xs))"

definition lapic_id :: "lapic_regs \<Rightarrow> u8" where
  "lapic_id l = ucast (drop_bit 24 (lapic_read APIC_REG_ID l))"

section \<open>Interrupts\<close>

text \<open>
  The line of the non-maskable interrupt.  The delivery mode is written as the decimal number 800.
\<close>

definition lapic_set_nmi :: "byte_mem \<Rightarrow> u8 \<Rightarrow> u64 \<Rightarrow> lapic_regs \<Rightarrow> lapic_regs outcome" where
  "lapic_set_nmi m vec nmi_info l =
     (if vec \<noteq> IRQ_NMI then Inl Panic
      else let nmi = 800 OR ucast vec;
               nmi = (if nmi_flags m nmi_info AND 2 \<noteq> 0 then nmi OR push_bit 13 1 else nmi);
               nmi = (if nmi_flags m nmi_info AND 8 \<noteq> 0 then nmi OR push_bit 15 1 else nmi)
           in Inr (if nmi_lint_num m nmi_info = 0 then lapic_write APIC_REG_LINT0 nmi l
                   else if nmi_lint_num m nmi_info = 1 then lapic_write APIC_REG_LINT1 nmi l
                   else l))"

text \<open>
  \<^verbatim>\<open>1 << (vec % 32)\<close> shifts a signed integer of 32 bits: at 31 places the result cannot be
  represented, which the sanitizer rejects.
\<close>

definition lapic_eoi :: "u8 \<Rightarrow> lapic_regs \<Rightarrow> lapic_regs outcome" where
  "lapic_eoi vec l =
     (if vec < IRQ_APIC_BASE then Inl Panic
      else let reg = APIC_REG_ISR_BASE + 0x10 * ucast (vec div 32); n = unat (vec mod 32) in
        if n = 31 then Inl Shift_out_of_bounds
        else Inr (if lapic_read reg l AND push_bit n 1 \<noteq> 0 then lapic_write APIC_REG_EOI 0 l else l))"

text \<open>With the preemption count of the processor.\<close>

definition lapic_send_ipi :: "u64 \<Rightarrow> u8 \<Rightarrow> u32 \<Rightarrow> lapic_regs \<times> u32 \<Rightarrow> (lapic_regs \<times> u32) outcome" where
  "lapic_send_ipi base target flags = (\<lambda>(l, p).
     if base = 0 then Inl Panic
     else let p = preempt_inc p;
              l = (if flags AND IPI_BROADCAST = 0 then lapic_write APIC_REG_ICR1 (push_bit 24 (ucast target)) l else l);
              l = lapic_write APIC_REG_ICR0 flags l
          in Inr (l, preempt_dec p))"

definition ipi_send_fixed :: "u64 \<Rightarrow> (u8 \<Rightarrow> u8) \<Rightarrow> u8 \<Rightarrow> u8 \<Rightarrow> lapic_regs \<times> u32 \<Rightarrow> (lapic_regs \<times> u32) outcome" where
  "ipi_send_fixed base apic_ids i vec st = lapic_send_ipi base (apic_ids i) (IPI_FIXED OR ucast vec) st"

text \<open>The machine stops with the controller in the resulting state.\<close>

definition abort :: "u64 \<Rightarrow> lapic_regs \<times> u32 \<Rightarrow> (lapic_regs \<times> u32) outcome" where
  "abort base st = lapic_send_ipi base 0 (IPI_BROADCAST OR IPI_FIXED OR ucast IRQ_IPI_ABORT) st"

section \<open>The timer\<close>

text \<open>\<open>lock\<close> is the lock of the interval timer, \<open>left\<close> the count of the timer after the wait.\<close>

definition lapic_timer_prepare ::
  "u32 \<Rightarrow> u64 \<times> u32 \<times> io \<Rightarrow> lapic_regs \<Rightarrow> (u32 \<times> (u64 \<times> u32 \<times> io) \<times> lapic_regs) option"
where
  "lapic_timer_prepare left st l =
     (let test_ms = 30; ticks_initial = 0xFFFFFFFF;
          l = lapic_write APIC_REG_TIMER_DIVIDE 0x3 l;
          l = lapic_write APIC_REG_TIMER_INITIAL ticks_initial l
      in do {
        st' \<leftarrow> pit_sleep_ms test_ms st;
        let l = lapic_write APIC_REG_TIMER_LVT APIC_DISABLE l;
        Some ((ticks_initial - left) div ucast (test_ms div 10), st', l) })"

text \<open>The debug build makes the period ten times as long.\<close>

definition lapic_timer_enable :: "lapic_info list \<Rightarrow> lapic_regs \<Rightarrow> lapic_regs outcome" where
  "lapic_timer_enable ls l =
     (case find_lapic (lapic_id l) ls of
        None \<Rightarrow> Inl Null_access
      | Some i \<Rightarrow>
          let period = li_ticks_per_10ms (ls ! i) * 10;
              l = lapic_write APIC_REG_TIMER_DIVIDE 0x3 l;
              l = lapic_write APIC_REG_TIMER_LVT (ucast IRQ_LINT_TIMER OR APIC_TIMER_PERIODIC) l
          in Inr (lapic_write APIC_REG_TIMER_INITIAL period l))"

fun set_nmis :: "byte_mem \<Rightarrow> u8 \<Rightarrow> u64 list \<Rightarrow> lapic_regs \<Rightarrow> lapic_regs outcome" where
  "set_nmis m acpi_id [] l = Inr l"
| "set_nmis m acpi_id (e # es) l =
     obind (if nmi_acpi_id m e = acpi_id \<or> nmi_acpi_id m e = 0xFF then lapic_set_nmi m IRQ_NMI e l else Inr l)
       (set_nmis m acpi_id es)"

text \<open>
  \<open>edx\<close> is the answer of \<^verbatim>\<open>cpuid\<close>, \<open>msr\<close> the register with the global enable bit.  The result has the
  identity of the controller, the list with the ticks measured, the table of handlers and the
  devices.
\<close>

record lapic_state =
  ls_apic :: apic
  ls_regs :: lapic_regs
  ls_table :: "u8 \<Rightarrow> isr_info"
  ls_pit :: "u64 \<times> u32 \<times> io"
  ls_apic_id :: u8

definition lapic_enable :: "byte_mem \<Rightarrow> u32 \<Rightarrow> u64 \<Rightarrow> u32 \<Rightarrow> lapic_state \<Rightarrow> lapic_state outcome option" where
  "lapic_enable m edx msr left s =
     (if edx AND push_bit 9 1 = 0 then Some (Inl Panic)
      else let i = lapic_id (ls_regs s); s = s\<lparr>ls_apic_id := i\<rparr> in
        if msr AND push_bit 11 1 = 0 then Some (Inl Panic)
        else case find_lapic i (lapic_list (ls_apic s)) of
          None \<Rightarrow> if nmi_list (ls_apic s) \<noteq> [] then Some (Inl Null_access)
            else map_option (\<lambda>r. Inl Null_access) (lapic_timer_prepare left (ls_pit s) (ls_regs s))
        | Some k \<Rightarrow>
            rbind (Some (set_nmis m (li_acpi_id (lapic_list (ls_apic s) ! k)) (nmi_list (ls_apic s)) (ls_regs s))) (\<lambda>l.
            let l = lapic_write APIC_REG_SPURIOUS
                  (lapic_read APIC_REG_SPURIOUS l OR push_bit 8 1 OR ucast IRQ_APIC_SPURIOUS) l
            in case lapic_timer_prepare left (ls_pit s) l of
                 None \<Rightarrow> None
               | Some (ticks, st, l) \<Rightarrow>
                   let ls = lapic_list (ls_apic s);
                       a = (ls_apic s)\<lparr>lapic_list := ls[k := (ls ! k)\<lparr>li_ticks_per_10ms := ticks\<rparr>]\<rparr>;
                       tbl = (if i = 0 then (ls_table s)(IRQ_LINT_TIMER :=
                                \<lparr>isr_type = ISR_IRQ, handler = Some Lapic_timer_callback\<rparr>) else ls_table s)
                   in Some (Inr (s\<lparr>ls_apic := a, ls_table := tbl, ls_pit := st,
                                   ls_regs := lapic_write APIC_REG_EOI 0 l\<rparr>))))"

end
