(* ===== verification/Ioapic.thy ===== *)
theory Ioapic
  imports Apic
begin

text \<open>
  The I/O interrupt controllers of \<^verbatim>\<open>kernel/drivers/apic/ioapic.c\<close>, and the masking of a vector in
  \<^verbatim>\<open>kernel/cpu/isr.c\<close>.  A controller has a register that selects one of its 32-bit registers and a
  window onto the selected one; a register keeps what is written to it.  The controllers are
  addressed by the base of their window in the linear map.  The lock of the code makes each
  operation a single step and is not part of the state.
\<close>

section \<open>Registers\<close>

record ioapics =
  io_select :: "u64 \<Rightarrow> u8"
  io_regs :: "u64 \<Rightarrow> u8 \<Rightarrow> u32"

definition APIC_REG_VER :: u8 where "APIC_REG_VER = 1"
definition APIC_REG_REDTBL :: u32 where "APIC_REG_REDTBL = 16"
definition APIC_IRQ_MASK :: u64 where "APIC_IRQ_MASK = 0x10000"

definition ioapic_read :: "u64 \<Rightarrow> u8 \<Rightarrow> ioapics \<Rightarrow> u32 \<times> ioapics" where
  "ioapic_read base reg d =
     (let d = d\<lparr>io_select := (io_select d)(base := reg)\<rparr> in (io_regs d base (io_select d base), d))"

definition ioapic_write :: "u64 \<Rightarrow> u8 \<Rightarrow> u32 \<Rightarrow> ioapics \<Rightarrow> ioapics" where
  "ioapic_write base reg data d =
     (let d = d\<lparr>io_select := (io_select d)(base := reg)\<rparr>
      in d\<lparr>io_regs := (io_regs d)(base := (io_regs d base)(io_select d base := data))\<rparr>)"

definition ioapic_base :: "byte_mem \<Rightarrow> u64 \<Rightarrow> u64" where
  "ioapic_base m e = phys_to_virt (ioapic_phys_addr m e)"

definition get_max_redirs :: "byte_mem \<Rightarrow> u64 \<Rightarrow> ioapics \<Rightarrow> u32 \<times> ioapics" where
  "get_max_redirs m e d =
     (let (v, d) = ioapic_read (ioapic_base m e) APIC_REG_VER d in (drop_bit 16 (v AND 0xFF0000), d))"

fun gsi_to_ioapic_from :: "byte_mem \<Rightarrow> u32 \<Rightarrow> u64 list \<Rightarrow> ioapics \<Rightarrow> (u64 \<times> ioapics) outcome" where
  "gsi_to_ioapic_from m gsi [] d = Inl Panic"
| "gsi_to_ioapic_from m gsi (e # es) d =
     (let (max_redirs, d) = get_max_redirs m e d in
      if ioapic_gsi_base m e \<le> gsi \<and> ioapic_gsi_base m e + max_redirs > gsi then Inr (e, d)
      else gsi_to_ioapic_from m gsi es d)"

definition gsi_to_ioapic :: "byte_mem \<Rightarrow> apic \<Rightarrow> u32 \<Rightarrow> ioapics \<Rightarrow> (u64 \<times> ioapics) outcome" where
  "gsi_to_ioapic m a gsi d = gsi_to_ioapic_from m gsi (ioapic_list a) d"

text \<open>The number of a register is cut to eight bits when it is passed on.\<close>

definition redtbl_reg :: "u8 \<Rightarrow> u32" where
  "redtbl_reg irq_line = ucast irq_line * 2 + APIC_REG_REDTBL"

definition ioapic_redtbl_read :: "u64 \<Rightarrow> u8 \<Rightarrow> ioapics \<Rightarrow> u64 \<times> ioapics" where
  "ioapic_redtbl_read base irq_line d =
     (let (lo, d) = ioapic_read base (ucast (redtbl_reg irq_line)) d;
          (hi, d) = ioapic_read base (ucast (redtbl_reg irq_line + 1)) d
      in (ucast lo OR push_bit 32 (ucast hi), d))"

definition ioapic_redtbl_write :: "u64 \<Rightarrow> u8 \<Rightarrow> u64 \<Rightarrow> ioapics \<Rightarrow> ioapics" where
  "ioapic_redtbl_write base irq_line v d =
     (let d = ioapic_write base (ucast (redtbl_reg irq_line)) (ucast v) d
      in ioapic_write base (ucast (redtbl_reg irq_line + 1)) (ucast (drop_bit 32 v)) d)"

section \<open>Redirections\<close>

text \<open>The elements of \<^verbatim>\<open>lapic_list\<close> behind its used part are zero.\<close>

definition lapic_id_at :: "apic \<Rightarrow> u8 \<Rightarrow> u8 outcome" where
  "lapic_id_at a i =
     (if unat i < length (lapic_list a) then Inr (li_id (lapic_list a ! unat i))
      else if unat i < MAX_LAPICS then Inr 0 else Inl Out_of_bounds)"

definition redirection_entry :: "u32 \<Rightarrow> u16 \<Rightarrow> u8 \<Rightarrow> u64" where
  "redirection_entry gsi flags target_apic_id =
     (let r = ucast (gsi + ucast IRQ_APIC_BASE);
          r = (if flags AND 2 \<noteq> 0 then r OR push_bit 13 1 else r);
          r = (if flags AND 8 \<noteq> 0 then r OR push_bit 15 1 else r)
      in r OR push_bit 56 (ucast target_apic_id))"

definition ioapic_redirect ::
  "byte_mem \<Rightarrow> apic \<Rightarrow> u32 \<Rightarrow> u8 \<Rightarrow> u16 \<Rightarrow> u8 \<Rightarrow> ioapics \<Rightarrow> ioapics outcome"
where
  "ioapic_redirect m a gsi source flags target_apic d =
     obind (lapic_id_at a target_apic) (\<lambda>target_apic_id.
     obind (gsi_to_ioapic m a gsi d) (\<lambda>(e, d).
       Inr (ioapic_redtbl_write (ioapic_base m e) (ucast (gsi - ioapic_gsi_base m e))
              (redirection_entry gsi flags target_apic_id) d)))"

definition ioapic_mask :: "byte_mem \<Rightarrow> apic \<Rightarrow> u32 \<Rightarrow> ioapics \<Rightarrow> ioapics outcome" where
  "ioapic_mask m a gsi d =
     obind (gsi_to_ioapic m a gsi d) (\<lambda>(e, d).
       let irq_line = ucast (gsi - ioapic_gsi_base m e);
           (prev, d) = ioapic_redtbl_read (ioapic_base m e) irq_line d
       in Inr (ioapic_redtbl_write (ioapic_base m e) irq_line (prev OR APIC_IRQ_MASK) d))"

definition ioapic_unmask :: "byte_mem \<Rightarrow> apic \<Rightarrow> u32 \<Rightarrow> ioapics \<Rightarrow> ioapics outcome" where
  "ioapic_unmask m a gsi d =
     obind (gsi_to_ioapic m a gsi d) (\<lambda>(e, d).
       let irq_line = ucast (gsi - ioapic_gsi_base m e);
           (prev, d) = ioapic_redtbl_read (ioapic_base m e) irq_line d
       in Inr (ioapic_redtbl_write (ioapic_base m e) irq_line (prev AND NOT APIC_IRQ_MASK) d))"

section \<open>Legacy interrupts\<close>

fun isa_to_gsi_from :: "byte_mem \<Rightarrow> u8 \<Rightarrow> u64 list \<Rightarrow> u8" where
  "isa_to_gsi_from m isa [] = isa"
| "isa_to_gsi_from m isa (e # es) =
     (if override_source m e = isa then ucast (override_gsi m e) else isa_to_gsi_from m isa es)"

definition ioapic_isa_to_gsi :: "byte_mem \<Rightarrow> apic \<Rightarrow> u8 \<Rightarrow> u8 outcome" where
  "ioapic_isa_to_gsi m a isa =
     (if isa < 16 then Inr (isa_to_gsi_from m isa (override_list a)) else Inl Panic)"

fun gsi_to_isa_from :: "byte_mem \<Rightarrow> u8 \<Rightarrow> u64 list \<Rightarrow> u8" where
  "gsi_to_isa_from m gsi [] = gsi"
| "gsi_to_isa_from m gsi (e # es) =
     (if override_gsi m e = ucast gsi then override_source m e else gsi_to_isa_from m gsi es)"

definition ioapic_gsi_to_isa :: "byte_mem \<Rightarrow> apic \<Rightarrow> u8 \<Rightarrow> u8" where
  "ioapic_gsi_to_isa m a gsi = gsi_to_isa_from m gsi (override_list a)"

fun init_legacy :: "byte_mem \<Rightarrow> apic \<Rightarrow> nat list \<Rightarrow> ioapics \<Rightarrow> ioapics outcome" where
  "init_legacy m a [] d = Inr d"
| "init_legacy m a (i # is) d =
     obind (ioapic_redirect m a (of_nat i) (of_nat i) 0 0 d) (\<lambda>d.
     obind (ioapic_mask m a (of_nat i) d) (init_legacy m a is))"

fun init_overrides :: "byte_mem \<Rightarrow> apic \<Rightarrow> u64 list \<Rightarrow> ioapics \<Rightarrow> ioapics outcome" where
  "init_overrides m a [] d = Inr d"
| "init_overrides m a (e # es) d =
     obind (ioapic_redirect m a (override_gsi m e) (override_source m e) (override_flags m e) 0 d) (\<lambda>d.
     obind (ioapic_mask m a (override_gsi m e) d) (init_overrides m a es))"

definition ioapic_init :: "byte_mem \<Rightarrow> apic \<Rightarrow> ioapics \<Rightarrow> ioapics outcome" where
  "ioapic_init m a d =
     obind (init_legacy m a [0..<16] d) (init_overrides m a (override_list a))"

section \<open>Vectors\<close>

definition isr_irq_mask :: "byte_mem \<Rightarrow> apic \<Rightarrow> u8 \<Rightarrow> ioapics \<Rightarrow> ioapics outcome" where
  "isr_irq_mask m a vec d =
     (if vec \<ge> IRQ_APIC_BASE then ioapic_mask m a (ucast (vec - IRQ_APIC_BASE)) d else Inl Panic)"

definition isr_irq_unmask :: "byte_mem \<Rightarrow> apic \<Rightarrow> u8 \<Rightarrow> ioapics \<Rightarrow> ioapics outcome" where
  "isr_irq_unmask m a vec d =
     (if vec \<ge> IRQ_APIC_BASE then ioapic_unmask m a (ucast (vec - IRQ_APIC_BASE)) d else Inl Panic)"

end
