(* ===== verification/Dispatch.thy ===== *)
theory Dispatch
  imports Lapic Ioapic Sched
begin

text \<open>
  The interrupt dispatcher of \<^verbatim>\<open>kernel/cpu/isr.c\<close> with the handlers it can call, and the start of the
  keyboard, which installs one of them.  The state joins the kernel of the scheduler, the
  nesting depths of interrupts, the local controller of the running processor and the ports.
  What the processor and other code supply at an interrupt is a record of parameters.
\<close>

section \<open>State\<close>

record machine =
  kern :: kernel
  int_depth :: "nat \<Rightarrow> u32"
  lregs :: lapic_regs
  mio :: io

record interrupt =
  i_info :: u64
  i_cr2 :: u64
  i_ret :: u64
  i_tlb_start :: u64
  i_tlb_end :: u64
  i_labels :: labels
  i_rflags :: u64
  i_idle_task :: u64
  i_dummy :: u64
  i_others :: u32

definition set_kvm :: "vm \<Rightarrow> machine \<Rightarrow> machine" where
  "set_kvm v m = m\<lparr>kern := (kern m)\<lparr>kvm := v\<rparr>\<rparr>"

section \<open>Handlers\<close>

text \<open>\<^verbatim>\<open>exception_handler\<close> reports the exception and stops; the table of messages has 32 entries.\<close>

definition exception_handler :: "u64 \<Rightarrow> fault" where
  "exception_handler info =
     (let int_no = ucast (drop_bit 32 info) :: u8 in
      if int_no = of_nat INT_PAGE_FAULT then Panic
      else let int_no = (if int_no = IRQ_NMI then 2 else int_no) in
        if int_no < 32 then Panic else Out_of_bounds)"

definition eoi :: "u8 \<Rightarrow> machine \<Rightarrow> machine outcome" where
  "eoi vec m = obind (lapic_eoi vec (lregs m)) (\<lambda>l. Inr (m\<lparr>lregs := l\<rparr>))"

fun run_handler :: "isr_handler \<Rightarrow> interrupt \<Rightarrow> machine \<Rightarrow> machine outcome option" where
  "run_handler Page_fault_handler i m =
     (let s = kern m in
      Some (obind (page_fault_handler (i_cr2 i) (i_info i)
                     (if current s = 0 then None else Some (t_mmu s (current s))) (kvm s))
              (\<lambda>v. Inr (set_kvm v m))))"
| "run_handler Exception_handler i m = Some (Inl (exception_handler (i_info i)))"
| "run_handler Lapic_timer_callback i m =
     Some (obind (lapic_timer_callback (kern m)) (\<lambda>s. Inr (m\<lparr>kern := s\<rparr>)))"
| "run_handler Ps2kbd_irq_handler i m = rbind (waits (ps2kbd_irq_handler (mio m))) (\<lambda>s. Some (Inr (m\<lparr>mio := s\<rparr>)))"
| "run_handler Ipi_tlb_shootdown i m =
     rbind (waits (ipi_tlb_shootdown (i_tlb_start i) (i_tlb_end i) (this_cpu (kern m)) (kvm (kern m)))) (\<lambda>v.
       Some (eoi IRQ_IPI_TLB_SHOOTDOWN (set_kvm v m)))"
| "run_handler Ipi_sched_hint i m =
     rbind (Some (eoi IRQ_IPI_SCHED_HINT m)) (\<lambda>m.
     rbind (sched_run_ap (i_labels i) (i_rflags i) (i_idle_task i) (i_dummy i) (i_others i) (i_ret i) (kern m))
       (\<lambda>s. Some (Inr (m\<lparr>kern := s\<rparr>))))"
| "run_handler Ipi_abort i m = None"

section \<open>The dispatcher\<close>

definition set_depth :: "(u32 \<Rightarrow> u32) \<Rightarrow> machine \<Rightarrow> machine" where
  "set_depth f m = (let cpu = this_cpu (kern m) in m\<lparr>int_depth := (int_depth m)(cpu := f (int_depth m cpu))\<rparr>)"

definition isr_global_handler :: "interrupt \<Rightarrow> machine \<Rightarrow> machine outcome option" where
  "isr_global_handler i m =
     (let vec = int_no (i_info i); info = vectors (kvm (kern m)) vec; irq = (isr_type info = ISR_IRQ) in
      rbind (Some (if irq then eoi vec (set_depth (\<lambda>n. n + 1) m) else Inr m)) (\<lambda>m.
      rbind (case handler info of None \<Rightarrow> Some (Inr m) | Some h \<Rightarrow> run_handler h i m) (\<lambda>m.
      let m = (if irq then set_depth (\<lambda>n. n - 1) m else m);
          depth = (if irq then int_depth m (this_cpu (kern m)) else 0)
      in if depth = 0 \<and> reschedule (kern m) (this_cpu (kern m))
         then rbind (sched_yield_preempt (i_ret i) (kern m)) (\<lambda>s. Some (Inr (m\<lparr>kern := s\<rparr>)))
         else Some (Inr m))))"

section \<open>The keyboard\<close>

definition ps2kbd_init ::
  "byte_mem \<Rightarrow> apic \<Rightarrow> (u8 \<Rightarrow> isr_info) \<times> ioapics \<times> io \<Rightarrow> ((u8 \<Rightarrow> isr_info) \<times> ioapics \<times> io) outcome option"
where
  "ps2kbd_init m a = (\<lambda>(tbl, d, s).
     rbind (Some (ioapic_isa_to_gsi m a 1)) (\<lambda>gsi.
     let vec = gsi + IRQ_APIC_BASE;
         tbl = tbl(vec := \<lparr>isr_type = ISR_IRQ, handler = Some Ps2kbd_irq_handler\<rparr>)
     in rbind (Some (isr_irq_unmask m a vec d)) (\<lambda>d.
        rbind (waits (ps2_flush s)) (\<lambda>s. Some (Inr (tbl, d, s))))))"

text \<open>All of \<^verbatim>\<open>ps2_init\<close>.\<close>

definition ps2_start ::
  "byte_mem \<Rightarrow> apic \<Rightarrow> (u8 \<Rightarrow> isr_info) \<times> ioapics \<times> io \<Rightarrow> ((u8 \<Rightarrow> isr_info) \<times> ioapics \<times> io) outcome option"
where
  "ps2_start m a = (\<lambda>(tbl, d, s). rbind (ps2_init s) (\<lambda>s. ps2kbd_init m a (tbl, d, s)))"

end
