(* ===== verification/Ioapic_Correct.thy ===== *)
theory Ioapic_Correct
  imports Ioapic
begin

text \<open>
  The operations on the I/O interrupt controllers as updates of one redirection each.
\<close>

section \<open>Redirections as 64-bit values\<close>

type_synonym io_registers = "u64 \<Rightarrow> u8 \<Rightarrow> u32"

definition low_reg :: "u8 \<Rightarrow> u8" where "low_reg l = 2 * l + 16"

definition redir :: "io_registers \<Rightarrow> u64 \<Rightarrow> u8 \<Rightarrow> u64" where
  "redir r b l = ucast (r b (low_reg l)) OR push_bit 32 (ucast (r b (low_reg l + 1)))"

definition set_redir :: "u64 \<Rightarrow> u8 \<Rightarrow> u64 \<Rightarrow> io_registers \<Rightarrow> io_registers" where
  "set_redir b l v r = r(b := (r b)(low_reg l := ucast v, low_reg l + 1 := ucast (drop_bit 32 v)))"

lemma unat_redtbl_reg: "unat (redtbl_reg l) = 2 * unat l + 16"
proof -
  have l: "unat l < 256" using unsigned_less [where w = l and ?'a = nat] by simp
  have "unat (ucast l :: u32) = unat l"
    by (simp add: unsigned_ucast_eq take_bit_nat_eq_self_iff order.strict_trans [OF l])
  then show ?thesis using l by (simp add: redtbl_reg_def APIC_REG_REDTBL_def unat_word_ariths)
qed

lemma ucast_redtbl_reg: "ucast (redtbl_reg l) = low_reg l" "ucast (redtbl_reg l + 1) = low_reg l + 1"
proof -
  have l: "unat l < 256" using unsigned_less [where w = l and ?'a = nat] by simp
  have r: "unat (redtbl_reg l + 1) = 2 * unat l + 17" using l by (simp add: unat_redtbl_reg unat_word_ariths)
  have w: "unat (low_reg l) = (2 * unat l + 16) mod 2 ^ 8" "unat (low_reg l + 1) = (2 * unat l + 17) mod 2 ^ 8"
    by (simp_all add: low_reg_def unat_word_ariths mod_simps) (simp add: add.commute)
  have "unat (ucast v :: u8) = unat v mod 2 ^ 8" for v :: u32 by (simp add: unsigned_ucast_eq take_bit_eq_mod)
  then show "ucast (redtbl_reg l) = low_reg l" "ucast (redtbl_reg l + 1) = low_reg l + 1"
    by (intro unsigned_word_eqI [where ?'a = nat], simp only: r w unat_redtbl_reg)+
qed

lemma unat_low_reg: "l < 120 \<Longrightarrow> unat (low_reg l) = 2 * unat l + 16" "l < 120 \<Longrightarrow> unat (low_reg l + 1) = 2 * unat l + 17"
  by (simp_all add: low_reg_def unat_word_ariths word_less_nat_alt)

lemma low_reg_distinct:
  assumes "l < 120" "l' < 120"
  shows "low_reg l = low_reg l' \<longleftrightarrow> l = l'" "low_reg l \<noteq> low_reg l' + 1" "low_reg l' + 1 \<noteq> low_reg l" "low_reg l \<noteq> 1" "low_reg l + 1 \<noteq> 1"
proof -
  note u = unat_low_reg [OF assms(1)] unat_low_reg [OF assms(2)]
  show "low_reg l = low_reg l' \<longleftrightarrow> l = l'"
    using u by (metis add_right_cancel mult_left_cancel unsigned_word_eqI zero_neq_numeral)
  have "unat (low_reg l) \<noteq> unat (low_reg l' + 1)" using u by presburger
  then show "low_reg l \<noteq> low_reg l' + 1" "low_reg l' + 1 \<noteq> low_reg l" by metis+
  have "unat (low_reg l) \<noteq> unat (1 :: u8)" "unat (low_reg l + 1) \<noteq> unat (1 :: u8)" using u by simp_all
  then show "low_reg l \<noteq> 1" "low_reg l + 1 \<noteq> 1" by metis+
qed

lemma split_u64: "ucast (ucast v :: u32) OR push_bit 32 (ucast (ucast (drop_bit 32 v) :: u32)) = (v :: u64)"
  by (rule bit_eqI) (auto simp: bit_simps)

lemma redir_set:
  assumes "l < 120" "l' < 120"
  shows "redir (set_redir b l v r) b' l' = (if b' = b \<and> l' = l then v else redir r b' l')"
  using low_reg_distinct [OF assms] low_reg_distinct [OF assms(2,1)] split_u64 [of v]
  by (auto simp: redir_def set_redir_def)

lemma set_redir_ver: "l < 120 \<Longrightarrow> set_redir b l v r b' 1 = r b' 1"
  using low_reg_distinct [of l l] by (auto simp: set_redir_def)

lemma split_u64_parts:
  "ucast (ucast (x :: u32) OR push_bit 32 (ucast (y :: u32)) :: u64) = x"
  "ucast (drop_bit 32 (ucast (x :: u32) OR push_bit 32 (ucast (y :: u32)) :: u64)) = y"
  by (rule bit_word_eqI, auto simp: bit_simps dest: bit_imp_le_length)+

lemma set_redir_same: "set_redir b l (redir r b l) r = r"
  unfolding set_redir_def redir_def split_u64_parts by simp

section \<open>The controller of an interrupt\<close>

definition max_redirs :: "byte_mem \<Rightarrow> io_registers \<Rightarrow> u64 \<Rightarrow> u32" where
  "max_redirs m r e = drop_bit 16 (r (ioapic_base m e) 1 AND 0xFF0000)"

definition handles :: "byte_mem \<Rightarrow> io_registers \<Rightarrow> u32 \<Rightarrow> u64 \<Rightarrow> bool" where
  "handles m r gsi e \<longleftrightarrow> ioapic_gsi_base m e \<le> gsi \<and> gsi < ioapic_gsi_base m e + max_redirs m r e"

definition line_of :: "byte_mem \<Rightarrow> u32 \<Rightarrow> u64 \<Rightarrow> u8" where
  "line_of m gsi e = ucast (gsi - ioapic_gsi_base m e)"

lemma gsi_to_ioapic_from_find:
  "case find (handles m (io_regs d) gsi) es of
     None \<Rightarrow> gsi_to_ioapic_from m gsi es d = Inl Panic
   | Some e \<Rightarrow> \<exists>d'. gsi_to_ioapic_from m gsi es d = Inr (e, d') \<and> io_regs d' = io_regs d"
proof (induction es arbitrary: d)
  case (Cons e es)
  obtain d' where d': "get_max_redirs m e d = (max_redirs m (io_regs d) e, d')" "io_regs d' = io_regs d"
    by (simp add: get_max_redirs_def ioapic_read_def max_redirs_def APIC_REG_VER_def)
  have "gsi_to_ioapic_from m gsi (e # es) d =
      (if handles m (io_regs d) gsi e then Inr (e, d') else gsi_to_ioapic_from m gsi es d')"
    using d' by (simp add: handles_def)
  then show ?case using Cons.IH [of d'] d'(2)
    by (auto simp del: gsi_to_ioapic_from.simps split: option.splits)
qed simp

lemma redtbl_read_regs:
  "fst (ioapic_redtbl_read b l d) = redir (io_regs d) b l" "io_regs (snd (ioapic_redtbl_read b l d)) = io_regs d"
  by (simp_all add: ioapic_redtbl_read_def ioapic_read_def redir_def ucast_redtbl_reg)

lemma redtbl_write_regs: "io_regs (ioapic_redtbl_write b l v d) = set_redir b l v (io_regs d)"
  by (simp add: ioapic_redtbl_write_def ioapic_write_def set_redir_def ucast_redtbl_reg)

text \<open>What an operation on the redirection of an interrupt does to the registers.\<close>

definition updates :: "byte_mem \<Rightarrow> apic \<Rightarrow> u32 \<Rightarrow> (u64 \<Rightarrow> u64) \<Rightarrow> io_registers \<Rightarrow> ioapics outcome \<Rightarrow> bool" where
  "updates m a gsi f r out \<longleftrightarrow> (case find (handles m r gsi) (ioapic_list a) of
     None \<Rightarrow> out = Inl Panic
   | Some e \<Rightarrow> \<exists>d'. out = Inr d' \<and>
       io_regs d' = set_redir (ioapic_base m e) (line_of m gsi e) (f (redir r (ioapic_base m e) (line_of m gsi e))) r)"

lemma ioapic_mask_updates: "updates m a gsi (\<lambda>v. v OR APIC_IRQ_MASK) (io_regs d) (ioapic_mask m a gsi d)"
  using gsi_to_ioapic_from_find [of m gsi "ioapic_list a" d]
  by (auto simp: updates_def ioapic_mask_def gsi_to_ioapic_def Let_def line_of_def redtbl_read_regs redtbl_write_regs
      split: option.splits prod.splits) (metis fst_conv snd_conv redtbl_read_regs)+

lemma ioapic_unmask_updates: "updates m a gsi (\<lambda>v. v AND NOT APIC_IRQ_MASK) (io_regs d) (ioapic_unmask m a gsi d)"
  using gsi_to_ioapic_from_find [of m gsi "ioapic_list a" d]
  by (auto simp: updates_def ioapic_unmask_def gsi_to_ioapic_def Let_def line_of_def redtbl_read_regs redtbl_write_regs
      split: option.splits prod.splits) (metis fst_conv snd_conv redtbl_read_regs)+

lemma ioapic_redirect_updates:
  "lapic_id_at a t = Inr i \<Longrightarrow>
     updates m a gsi (\<lambda>v. redirection_entry gsi fl i) (io_regs d) (ioapic_redirect m a gsi src fl t d)"
  using gsi_to_ioapic_from_find [of m gsi "ioapic_list a" d]
  by (auto simp: updates_def ioapic_redirect_def gsi_to_ioapic_def line_of_def redtbl_write_regs split: option.splits)

lemma line_of_less:
  assumes "handles m r gsi e" "max_redirs m r e \<le> 120"
  shows "line_of m gsi e < 120" "unat (line_of m gsi e) = unat gsi - unat (ioapic_gsi_base m e)"
proof -
  let ?b = "ioapic_gsi_base m e" and ?n = "max_redirs m r e"
  have n: "unat ?n \<le> 120" using assms(2) by (simp add: word_le_nat_alt)
  have le: "unat ?b \<le> unat gsi" and lt: "unat gsi < unat (?b + ?n)"
    using assms(1) by (simp_all add: handles_def word_le_nat_alt word_less_nat_alt)
  have "unat (?b + ?n) \<le> unat ?b + unat ?n" by (simp add: unat_word_ariths)
  then have d: "unat gsi - unat ?b < 120" using lt le n by linarith
  have g: "unat (gsi - ?b) = unat gsi - unat ?b" using le by (simp add: unat_sub_if' word_le_nat_alt)
  then show u: "unat (line_of m gsi e) = unat gsi - unat ?b"
    using d by (simp add: line_of_def unsigned_ucast_eq take_bit_eq_mod)
  then show "line_of m gsi e < 120" using d by (simp add: word_less_nat_alt)
qed

lemma handles_set_redir: "l < 120 \<Longrightarrow> handles m (set_redir b l v r) gsi = handles m r gsi"
  by (simp add: handles_def max_redirs_def set_redir_ver fun_eq_iff)

section \<open>Masking\<close>

lemma mask_bit: "bit APIC_IRQ_MASK n \<longleftrightarrow> n = 16"
proof -
  have e: "APIC_IRQ_MASK = 2 ^ 16" by (simp add: APIC_IRQ_MASK_def)
  show ?thesis unfolding e bit_exp_iff by auto
qed

lemma mask_bits:
  "bit (v OR APIC_IRQ_MASK) n \<longleftrightarrow> n = 16 \<or> bit (v :: u64) n"
  "bit (v AND NOT APIC_IRQ_MASK) n \<longleftrightarrow> n \<noteq> 16 \<and> bit (v :: u64) n"
  by (auto simp: bit_simps mask_bit dest: bit_imp_le_length)

text \<open>
  C20. isr_irq_mask and isr_irq_unmask change one bit of one redirection and undo each other.  A
  vector below the first one of the controllers panics, and so does one that no listed
  controller handles; a controller handles the interrupts from its base up to, but without, its
  base plus the number in its version register.  Otherwise, with at most 120 lines, masking
  sets bit 16 of the redirection of the interrupt and leaves its other bits and every other
  redirection of every controller alone; unmasking after that clears the bit and, when it was
  clear before, restores all registers.
\<close>

theorem isr_irq_mask_unmask:
  "if vec < IRQ_APIC_BASE then isr_irq_mask m a vec d = Inl Panic \<and> isr_irq_unmask m a vec d = Inl Panic
   else case find (handles m (io_regs d) (ucast (vec - IRQ_APIC_BASE))) (ioapic_list a) of
     None \<Rightarrow> isr_irq_mask m a vec d = Inl Panic \<and> isr_irq_unmask m a vec d = Inl Panic
   | Some e \<Rightarrow> max_redirs m (io_regs d) e \<le> 120 \<longrightarrow>
       (let b = ioapic_base m e; l = line_of m (ucast (vec - IRQ_APIC_BASE)) e in
        \<exists>d1 d2. isr_irq_mask m a vec d = Inr d1 \<and> isr_irq_unmask m a vec d1 = Inr d2 \<and>
          (\<forall>n. bit (redir (io_regs d1) b l) n \<longleftrightarrow> n = 16 \<or> bit (redir (io_regs d) b l) n) \<and>
          (\<forall>n. bit (redir (io_regs d2) b l) n \<longleftrightarrow> n \<noteq> 16 \<and> bit (redir (io_regs d) b l) n) \<and>
          (\<forall>b' l'. l' < 120 \<longrightarrow> (b', l') \<noteq> (b, l) \<longrightarrow>
             redir (io_regs d1) b' l' = redir (io_regs d) b' l' \<and> redir (io_regs d2) b' l' = redir (io_regs d) b' l') \<and>
          (\<not> bit (redir (io_regs d) b l) 16 \<longrightarrow> io_regs d2 = io_regs d))"
proof (cases "find (handles m (io_regs d) (ucast (vec - IRQ_APIC_BASE))) (ioapic_list a)")
  case None
  then show ?thesis
    using ioapic_mask_updates [of m a "ucast (vec - IRQ_APIC_BASE)" d] ioapic_unmask_updates [of m a "ucast (vec - IRQ_APIC_BASE)" d]
    by (simp add: updates_def isr_irq_mask_def isr_irq_unmask_def)
next
  case (Some e)
  let ?gsi = "ucast (vec - IRQ_APIC_BASE) :: u32" and ?r = "io_regs d"
  define b l v where "b = ioapic_base m e" and "l = line_of m ?gsi e" and "v = redir ?r b l"
  have "\<exists>d1 d2. isr_irq_mask m a vec d = Inr d1 \<and> isr_irq_unmask m a vec d1 = Inr d2 \<and>
      (\<forall>n. bit (redir (io_regs d1) b l) n \<longleftrightarrow> n = 16 \<or> bit v n) \<and>
      (\<forall>n. bit (redir (io_regs d2) b l) n \<longleftrightarrow> n \<noteq> 16 \<and> bit v n) \<and>
      (\<forall>b' l'. l' < 120 \<longrightarrow> (b', l') \<noteq> (b, l) \<longrightarrow>
         redir (io_regs d1) b' l' = redir ?r b' l' \<and> redir (io_regs d2) b' l' = redir ?r b' l') \<and>
      (\<not> bit v 16 \<longrightarrow> io_regs d2 = ?r)"
    if vec: "vec \<ge> IRQ_APIC_BASE" and max: "max_redirs m ?r e \<le> 120"
  proof -
    have "handles m ?r ?gsi e" using Some by (auto simp: find_Some_iff)
    then have l: "l < 120" using line_of_less(1) max by (simp add: l_def)
    obtain d1 where d1: "ioapic_mask m a ?gsi d = Inr d1" "io_regs d1 = set_redir b l (v OR APIC_IRQ_MASK) ?r"
      using ioapic_mask_updates [of m a ?gsi d] Some by (auto simp: updates_def b_def l_def v_def)
    have v1: "redir (io_regs d1) b l = v OR APIC_IRQ_MASK" by (simp add: d1(2) redir_set l)
    have "find (handles m (io_regs d1) ?gsi) (ioapic_list a) = Some e" using Some by (simp add: d1(2) handles_set_redir [OF l])
    then obtain d2 where d2: "ioapic_unmask m a ?gsi d1 = Inr d2"
      "io_regs d2 = set_redir b l ((v OR APIC_IRQ_MASK) AND NOT APIC_IRQ_MASK) (io_regs d1)"
      using ioapic_unmask_updates [of m a ?gsi d1] v1 by (auto simp: updates_def b_def l_def)
    have v2: "redir (io_regs d2) b l = (v OR APIC_IRQ_MASK) AND NOT APIC_IRQ_MASK" by (simp add: d2(2) redir_set l)
    have run: "isr_irq_mask m a vec d = Inr d1" "isr_irq_unmask m a vec d1 = Inr d2"
      using d1(1) d2(1) vec by (simp_all add: isr_irq_mask_def isr_irq_unmask_def)
    have b1: "bit (redir (io_regs d1) b l) n \<longleftrightarrow> n = 16 \<or> bit v n" for n unfolding v1 by (rule mask_bits)
    have b2: "bit (redir (io_regs d2) b l) n \<longleftrightarrow> n \<noteq> 16 \<and> bit v n" for n unfolding v2 mask_bits by blast
    have restore: "io_regs d2 = ?r" if "\<not> bit v 16"
    proof -
      have "(v OR APIC_IRQ_MASK) AND NOT APIC_IRQ_MASK = v" by (rule bit_eqI) (use that mask_bits in blast)
      then have "io_regs d2 = set_redir b l v ?r" unfolding d2(2) d1(2) by (simp add: set_redir_def)
      then show ?thesis by (simp add: v_def set_redir_same)
    qed
    have frame: "redir (io_regs d1) b' l' = redir ?r b' l'" "redir (io_regs d2) b' l' = redir ?r b' l'"
      if "l' < 120" "(b', l') \<noteq> (b, l)" for b' l' using that by (auto simp: d2(2) d1(2) redir_set [OF l])
    show ?thesis
      by (intro exI [of _ d1] exI [of _ d2] conjI allI impI) (rule run b1 b2 | erule restore | erule (1) frame)+
  qed
  then show ?thesis using Some by (auto simp: b_def l_def v_def Let_def not_less isr_irq_mask_def isr_irq_unmask_def)
qed

section \<open>Start\<close>

definition slot :: "byte_mem \<Rightarrow> apic \<Rightarrow> io_registers \<Rightarrow> u32 \<Rightarrow> (u64 \<times> u8) option" where
  "slot m a r gsi = map_option (\<lambda>e. (ioapic_base m e, line_of m gsi e)) (find (handles m r gsi) (ioapic_list a))"

definition few_lines :: "byte_mem \<Rightarrow> apic \<Rightarrow> io_registers \<Rightarrow> bool" where
  "few_lines m a r \<longleftrightarrow> (\<forall>e \<in> set (ioapic_list a). max_redirs m r e \<le> 120)"

lemma slot_cases:
  assumes "slot m a r gsi = Some (b, l)" "few_lines m a r"
  obtains e where "find (handles m r gsi) (ioapic_list a) = Some e" "e \<in> set (ioapic_list a)" "b = ioapic_base m e"
    "l = line_of m gsi e" "l < 120" "unat gsi = unat l + unat (ioapic_gsi_base m e)"
proof -
  obtain e where e: "find (handles m r gsi) (ioapic_list a) = Some e" "b = ioapic_base m e" "l = line_of m gsi e"
    using assms(1) by (auto simp: slot_def)
  have h: "handles m r gsi e" "e \<in> set (ioapic_list a)" using e(1) by (auto simp: find_Some_iff)
  then have "max_redirs m r e \<le> 120" using assms(2) by (simp add: few_lines_def)
  note l = line_of_less [OF h(1) this]
  have "unat (ioapic_gsi_base m e) \<le> unat gsi" using h(1) by (simp add: handles_def word_le_nat_alt)
  then show thesis using that [OF e(1) h(2) e(2,3)] l e(3) by simp
qed

lemma slot_inj:
  assumes "slot m a r gsi = Some s" "slot m a r gsi' = Some s" "few_lines m a r" "inj_on (ioapic_base m) (set (ioapic_list a))"
  shows "gsi = gsi'"
proof -
  obtain b l where s: "s = (b, l)" by (cases s)
  obtain e where e: "e \<in> set (ioapic_list a)" "b = ioapic_base m e" "unat gsi = unat l + unat (ioapic_gsi_base m e)"
    using slot_cases [OF assms(1) [unfolded s] assms(3)] by metis
  obtain e' where e': "e' \<in> set (ioapic_list a)" "b = ioapic_base m e'" "unat gsi' = unat l + unat (ioapic_gsi_base m e')"
    using slot_cases [OF assms(2) [unfolded s] assms(3)] by metis
  have "e = e'" using e(1,2) e'(1,2) assms(4) by (auto dest: inj_onD)
  then show ?thesis using e(3) e'(3) by (metis unsigned_word_eqI)
qed

text \<open>Setting a redirection up and masking it, for a list of interrupts and flags.\<close>

fun setup_all :: "byte_mem \<Rightarrow> apic \<Rightarrow> (u32 \<times> u16) list \<Rightarrow> ioapics \<Rightarrow> ioapics outcome" where
  "setup_all m a [] d = Inr d"
| "setup_all m a ((gsi, fl) # us) d =
     obind (ioapic_redirect m a gsi 0 fl 0 d) (\<lambda>d. obind (ioapic_mask m a gsi d) (setup_all m a us))"

definition setups :: "byte_mem \<Rightarrow> apic \<Rightarrow> (u32 \<times> u16) list" where
  "setups m a = map (\<lambda>i. (of_nat i, 0)) [0..<16] @ map (\<lambda>e. (override_gsi m e, override_flags m e)) (override_list a)"

lemma redirect_source: "ioapic_redirect m a gsi src fl t d = ioapic_redirect m a gsi src' fl t d"
  by (simp add: ioapic_redirect_def)

lemma obind_assoc: "obind (obind x f) g = obind x (\<lambda>y. obind (f y) g)"
  by (cases x) auto

lemma setup_all_append: "setup_all m a (us @ vs) = (\<lambda>d. obind (setup_all m a us d) (setup_all m a vs))"
proof (induction us)
  case (Cons u us)
  then show ?case by (cases u, intro ext) (simp add: obind_assoc)
qed simp

lemma ioapic_init_setups: "ioapic_init m a d = setup_all m a (setups m a) d"
proof -
  have "init_legacy m a is = setup_all m a (map (\<lambda>i. (of_nat i, 0)) is)" for "is"
  proof (induction "is")
    case (Cons i "is")
    then show ?case by (intro ext) (simp add: redirect_source [where src = "of_nat i" and src' = 0])
  qed (simp add: fun_eq_iff)
  moreover have "init_overrides m a es = setup_all m a (map (\<lambda>e. (override_gsi m e, override_flags m e)) es)" for es
  proof (induction es)
    case (Cons e es)
    then show ?case by (intro ext) (simp add: redirect_source [where src = "override_source m e" and src' = 0])
  qed (simp add: fun_eq_iff)
  ultimately show ?thesis unfolding ioapic_init_def setups_def setup_all_append by simp
qed

lemma set_redir_twice: "set_redir b l w (set_redir b l v r) = set_redir b l w r"
  by (auto simp: set_redir_def fun_eq_iff)

lemma setup_one:
  assumes "lapic_id_at a 0 = Inr i" "slot m a (io_regs d) gsi = Some (b, l)" "few_lines m a (io_regs d)"
  shows "\<exists>d'. setup_all m a [(gsi, fl)] d = Inr d' \<and>
    io_regs d' = set_redir b l (redirection_entry gsi fl i OR APIC_IRQ_MASK) (io_regs d)"
proof -
  obtain e where e: "find (handles m (io_regs d) gsi) (ioapic_list a) = Some e" "b = ioapic_base m e" "l = line_of m gsi e" "l < 120"
    using slot_cases [OF assms(2,3)] by metis
  obtain d1 where d1: "ioapic_redirect m a gsi 0 fl 0 d = Inr d1" "io_regs d1 = set_redir b l (redirection_entry gsi fl i) (io_regs d)"
    using ioapic_redirect_updates [OF assms(1), of m gsi fl d 0] e by (auto simp: updates_def)
  have "find (handles m (io_regs d1) gsi) (ioapic_list a) = Some e" using e(1) by (simp add: d1(2) handles_set_redir [OF e(4)])
  then obtain d2 where "ioapic_mask m a gsi d1 = Inr d2"
    "io_regs d2 = set_redir b l (redirection_entry gsi fl i OR APIC_IRQ_MASK) (io_regs d1)"
    using ioapic_mask_updates [of m a gsi d1] e(2-4) by (auto simp: updates_def d1(2) redir_set)
  then show ?thesis using d1 by (simp add: set_redir_twice)
qed

lemma setup_all_ok:
  assumes "lapic_id_at a 0 = Inr i" "few_lines m a r" "inj_on (ioapic_base m) (set (ioapic_list a))" "io_regs d = r"
    and "\<forall>gsi \<in> fst ` set us. slot m a r gsi \<noteq> None"
  shows "\<exists>d'. setup_all m a us d = Inr d' \<and> (\<forall>gsi. handles m (io_regs d') gsi = handles m r gsi) \<and>
    (\<forall>e. max_redirs m (io_regs d') e = max_redirs m r e) \<and>
    (\<forall>gsi fl b l. map_of (rev us) gsi = Some fl \<longrightarrow> slot m a r gsi = Some (b, l) \<longrightarrow>
       redir (io_regs d') b l = redirection_entry gsi fl i OR APIC_IRQ_MASK) \<and>
    (\<forall>b l. l < 120 \<longrightarrow> (\<forall>gsi \<in> fst ` set us. slot m a r gsi \<noteq> Some (b, l)) \<longrightarrow> redir (io_regs d') b l = redir r b l)"
  using assms(5)
proof (induction us rule: rev_induct)
  case Nil
  then show ?case using assms(4) by auto
next
  case (snoc u us)
  obtain gsi fl where u: "u = (gsi, fl)" by (cases u)
  have "\<forall>gsi \<in> fst ` set us. slot m a r gsi \<noteq> None" using snoc.prems by auto
  from snoc.IH [OF this] obtain d1 where d1: "setup_all m a us d = Inr d1" "\<And>gsi. handles m (io_regs d1) gsi = handles m r gsi"
    "\<And>e. max_redirs m (io_regs d1) e = max_redirs m r e"
    "\<And>gsi fl b l. map_of (rev us) gsi = Some fl \<Longrightarrow> slot m a r gsi = Some (b, l) \<Longrightarrow>
       redir (io_regs d1) b l = redirection_entry gsi fl i OR APIC_IRQ_MASK"
    "\<And>b l. l < 120 \<Longrightarrow> \<forall>gsi \<in> fst ` set us. slot m a r gsi \<noteq> Some (b, l) \<Longrightarrow> redir (io_regs d1) b l = redir r b l"
    by blast
  have same: "slot m a (io_regs d1) g = slot m a r g" "few_lines m a (io_regs d1)" for g
    using assms(2) by (simp_all add: slot_def few_lines_def d1(2,3))
  obtain b l where bl: "slot m a r gsi = Some (b, l)" using snoc.prems u by fastforce
  have l: "l < 120" using slot_cases [OF bl assms(2)] by metis
  obtain d2 where d2: "setup_all m a [(gsi, fl)] d1 = Inr d2"
    "io_regs d2 = set_redir b l (redirection_entry gsi fl i OR APIC_IRQ_MASK) (io_regs d1)"
    using setup_one [OF assms(1) _ same(2), of gsi b l fl] bl same(1) by auto
  have h: "handles m (io_regs d2) g = handles m r g" "max_redirs m (io_regs d2) e = max_redirs m r e" for g e
    using d1(2,3) by (simp_all add: d2(2) handles_set_redir [OF l]) (simp add: max_redirs_def set_redir_ver [OF l])
  have set: "redir (io_regs d2) b' l' = redirection_entry g f i OR APIC_IRQ_MASK"
    if "map_of (rev (us @ [u])) g = Some f" "slot m a r g = Some (b', l')" for g f b' l'
  proof (cases "g = gsi")
    case True
    then show ?thesis using that bl u redir_set [OF l l] by (auto simp: d2(2))
  next
    case False
    then have "(b', l') \<noteq> (b, l)" using slot_inj [OF that(2) _ assms(2,3), of gsi] bl by auto
    moreover have "l' < 120" using slot_cases [OF that(2) assms(2)] by metis
    ultimately have "redir (io_regs d2) b' l' = redir (io_regs d1) b' l'" by (auto simp: d2(2) redir_set [OF l])
    then show ?thesis using d1(4) that False u by simp
  qed
  have frame: "redir (io_regs d2) b' l' = redir r b' l'"
    if "l' < 120" "\<forall>g \<in> fst ` set (us @ [u]). slot m a r g \<noteq> Some (b', l')" for b' l'
  proof -
    have "(b', l') \<noteq> (b, l)" using that(2) bl u by auto
    then have "redir (io_regs d2) b' l' = redir (io_regs d1) b' l'" using that(1) by (auto simp: d2(2) redir_set [OF l])
    then show ?thesis using d1(5) [OF that(1)] that(2) by simp
  qed
  have run: "setup_all m a (us @ [u]) d = Inr d2" using d1(1) d2(1) u by (simp add: setup_all_append)
  show ?case by (intro exI [of _ d2] conjI allI impI) (rule run h | erule (1) set | erule (1) frame)+
qed

lemma redirection_vector: "ucast (redirection_entry gsi fl i OR APIC_IRQ_MASK) = (ucast gsi + IRQ_APIC_BASE :: u8)"
proof -
  have "\<not> bit (8192 :: u64) n" "\<not> bit (32768 :: u64) n" if "n < 8" for n
    using that bit_exp_iff [of 13 n, where ?'a = "64 word"] bit_exp_iff [of 15 n, where ?'a = "64 word"] by simp_all
  then have "bit (redirection_entry gsi fl i) n = bit (gsi + ucast IRQ_APIC_BASE) n" if "n < 8" for n
    using that by (auto simp: redirection_entry_def Let_def bit_simps)
  then have "ucast (redirection_entry gsi fl i OR APIC_IRQ_MASK) = (ucast (gsi + ucast IRQ_APIC_BASE) :: u8)"
    by (intro bit_word_eqI) (auto simp: bit_simps mask_bit)
  also have "\<dots> = ucast gsi + IRQ_APIC_BASE"
    by (rule unsigned_word_eqI [where ?'a = nat])
      (simp add: unsigned_ucast_eq IRQ_APIC_BASE_def unat_word_ariths take_bit_eq_mod mod_mod_cancel mod_simps)
  finally show ?thesis .
qed

text \<open>
  C19. ioapic_init programs the redirection of every legacy interrupt and of every override.  When
  each of them is handled by a controller, the controllers have different addresses and at most
  120 lines, the call returns; the redirection of an interrupt that was set up is then the entry
  with the flags of the last override of it (0 when it has none), for the first local
  controller, and masked; its vector is the number of the interrupt plus the first vector of the
  controllers; and every other redirection is as before.
\<close>

theorem ioapic_init_correct:
  assumes "lapic_id_at a 0 = Inr i" and "few_lines m a (io_regs d)" and "inj_on (ioapic_base m) (set (ioapic_list a))"
    and "\<forall>gsi \<in> fst ` set (setups m a). slot m a (io_regs d) gsi \<noteq> None"
  shows "\<exists>d'. ioapic_init m a d = Inr d' \<and>
    (\<forall>gsi fl b l. map_of (rev (setups m a)) gsi = Some fl \<longrightarrow> slot m a (io_regs d) gsi = Some (b, l) \<longrightarrow>
       redir (io_regs d') b l = redirection_entry gsi fl i OR APIC_IRQ_MASK \<and>
       ucast (redir (io_regs d') b l) = (ucast gsi + IRQ_APIC_BASE :: u8)) \<and>
    (\<forall>b l. l < 120 \<longrightarrow> (\<forall>gsi \<in> fst ` set (setups m a). slot m a (io_regs d) gsi \<noteq> Some (b, l)) \<longrightarrow>
       redir (io_regs d') b l = redir (io_regs d) b l)"
proof -
  obtain d' where d': "ioapic_init m a d = Inr d'"
    "\<forall>gsi fl b l. map_of (rev (setups m a)) gsi = Some fl \<longrightarrow> slot m a (io_regs d) gsi = Some (b, l) \<longrightarrow>
       redir (io_regs d') b l = redirection_entry gsi fl i OR APIC_IRQ_MASK"
    "\<forall>b l. l < 120 \<longrightarrow> (\<forall>gsi \<in> fst ` set (setups m a). slot m a (io_regs d) gsi \<noteq> Some (b, l)) \<longrightarrow>
       redir (io_regs d') b l = redir (io_regs d) b l"
    using setup_all_ok [OF assms(1-3) refl assms(4)] unfolding ioapic_init_setups by (elim exE conjE)
  show ?thesis
    using d'(2) by (intro exI [of _ d'] conjI d'(1,3)) (simp add: redirection_vector)
qed

section \<open>Legacy numbers\<close>

lemma isa_to_gsi_from_find:
  "isa_to_gsi_from m isa es = (case find (\<lambda>e. override_source m e = isa) es of None \<Rightarrow> isa | Some e \<Rightarrow> ucast (override_gsi m e))"
  by (induction es) auto

lemma gsi_to_isa_from_find:
  "gsi_to_isa_from m gsi es = (case find (\<lambda>e. override_gsi m e = ucast gsi) es of None \<Rightarrow> gsi | Some e \<Rightarrow> override_source m e)"
  by (induction es) auto

lemma find_distinct:
  assumes "distinct (map f es)" "e \<in> set es"
  shows "find (\<lambda>x. f x = f e) es = Some e"
  using assms by (induction es) (auto simp: rev_image_eqI)

text \<open>
  The translations between legacy interrupts and interrupts of the controllers undo each
  other up to one case.  With overrides that have different sources and different interrupts
  below 256, translating a legacy number (from 0 to 15) and back gives that number exactly when
  the number is overridden itself or no other legacy number is sent to the interrupt of its own
  number.  From 16 on the first translation panics.
\<close>

lemma isa_gsi_roundtrip:
  assumes "distinct (map (override_source m) (override_list a))" and "distinct (map (override_gsi m) (override_list a))"
    and "\<forall>e \<in> set (override_list a). override_gsi m e < 256"
  shows "if isa < 16
    then (\<exists>g. ioapic_isa_to_gsi m a isa = Inr g \<and>
      (ioapic_gsi_to_isa m a g = isa \<longleftrightarrow>
       isa \<in> override_source m ` set (override_list a) \<or> ucast isa \<notin> override_gsi m ` set (override_list a)))
    else ioapic_isa_to_gsi m a isa = Inl Panic"
proof (cases "isa < 16 \<and> isa \<in> override_source m ` set (override_list a)")
  case True
  then obtain e where e: "e \<in> set (override_list a)" "override_source m e = isa" by auto
  have "unat (override_gsi m e) < 256" using assms(3) e(1) by (simp add: word_less_nat_alt)
  then have u: "(ucast (ucast (override_gsi m e) :: u8) :: u32) = override_gsi m e"
    by (intro unsigned_word_eqI [where ?'a = nat]) (simp add: unsigned_ucast_eq take_bit_eq_mod unat_mod)
  have "ioapic_isa_to_gsi m a isa = Inr (ucast (override_gsi m e))"
    using True find_distinct [OF assms(1) e(1)] e(2) by (simp add: ioapic_isa_to_gsi_def isa_to_gsi_from_find)
  moreover have "ioapic_gsi_to_isa m a (ucast (override_gsi m e)) = isa"
    using find_distinct [OF assms(2) e(1)] e(2) by (simp add: ioapic_gsi_to_isa_def gsi_to_isa_from_find u)
  ultimately show ?thesis using True by simp
next
  case False
  have "ioapic_gsi_to_isa m a isa = isa \<longleftrightarrow> ucast isa \<notin> override_gsi m ` set (override_list a)"
    if src: "isa \<notin> override_source m ` set (override_list a)"
  proof (cases "find (\<lambda>e. override_gsi m e = ucast isa) (override_list a)")
    case None
    then have "ucast isa \<notin> override_gsi m ` set (override_list a)" by (auto simp: find_None_iff)
    then show ?thesis using None by (simp add: ioapic_gsi_to_isa_def gsi_to_isa_from_find)
  next
    case (Some e)
    then have "e \<in> set (override_list a)" "override_gsi m e = ucast isa" by (auto simp: find_Some_iff)
    moreover from this have "override_source m e \<noteq> isa" "ucast isa \<in> override_gsi m ` set (override_list a)"
      using src by (metis image_eqI)+
    ultimately show ?thesis using Some by (simp add: ioapic_gsi_to_isa_def gsi_to_isa_from_find)
  qed
  moreover have "find (\<lambda>e. override_source m e = isa) (override_list a) = None"
    if "isa \<notin> override_source m ` set (override_list a)" using that by (auto simp: find_None_iff)
  ultimately show ?thesis using False by (auto simp: ioapic_isa_to_gsi_def isa_to_gsi_from_find)
qed

section \<open>A machine with one controller\<close>

text \<open>A controller of 23 lines at 0x100000; legacy interrupt 0 is wired to its line 2.\<close>

definition ex_io_mem :: byte_mem where
  "ex_io_mem a = (if a = 0x106 then 0x10 else if a = 0x204 then 2 else 0)"

definition ex_apic :: apic where
  "ex_apic = \<lparr>lapic_list = [], ioapic_list = [0x100], override_list = [0x200], nmi_list = [], lapic_base = 0\<rparr>"

definition ex_ioapics :: ioapics where
  "ex_ioapics = \<lparr>io_select = (\<lambda>b. 0), io_regs = (\<lambda>b r. if r = 1 then 0x170011 else 0)\<rparr>"

lemma ex_io_fields:
  "ioapic_base ex_io_mem 0x100 = 0xFFFF800000100000" "ioapic_gsi_base ex_io_mem 0x100 = 0"
  "max_redirs ex_io_mem (io_regs ex_ioapics) 0x100 = 23"
  "override_source ex_io_mem 0x200 = 0" "override_gsi ex_io_mem 0x200 = 2" "override_flags ex_io_mem 0x200 = 0"
proof -
  show b: "ioapic_base ex_io_mem 0x100 = 0xFFFF800000100000"
    by (simp add: ioapic_base_def ioapic_phys_addr_def read_u32_def read_u16_def ex_io_mem_def phys_to_virt_def KERNEL_LOGICAL_BASE_def)
  show "max_redirs ex_io_mem (io_regs ex_ioapics) 0x100 = 23" by (simp add: max_redirs_def b ex_ioapics_def)
qed (simp_all add: ioapic_gsi_base_def override_source_def override_gsi_def override_flags_def read_u32_def read_u16_def ex_io_mem_def)

lemma ex_io_find: "gsi < 23 \<Longrightarrow> find (handles ex_io_mem (io_regs ex_ioapics) gsi) (ioapic_list ex_apic) = Some 0x100"
  by (simp add: ex_apic_def handles_def ex_io_fields)

theorem isr_irq_mask_unmask_witness:
  "\<exists>d1 d2. isr_irq_mask ex_io_mem ex_apic 0x34 ex_ioapics = Inr d1 \<and> isr_irq_unmask ex_io_mem ex_apic 0x34 d1 = Inr d2 \<and>
     bit (redir (io_regs d1) 0xFFFF800000100000 4) 16 \<and> io_regs d2 = io_regs ex_ioapics"
proof -
  have g: "ucast ((0x34 :: u8) - IRQ_APIC_BASE) = (4 :: u32)" "(0x34 :: u8) \<ge> IRQ_APIC_BASE" by (simp_all add: IRQ_APIC_BASE_def)
  have l: "line_of ex_io_mem 4 0x100 = 4" by (simp add: line_of_def ex_io_fields)
  have z: "redir (io_regs ex_ioapics) 0xFFFF800000100000 4 = 0" by (simp add: redir_def ex_ioapics_def low_reg_def)
  show ?thesis
    using isr_irq_mask_unmask [where m = ex_io_mem and a = ex_apic and vec = "0x34" and d = ex_ioapics] g ex_io_find [of 4]
    by (simp add: ex_io_fields l z Let_def not_less [THEN iffD2, OF g(2)]) blast
qed

lemma ex_io_setups: "setups ex_io_mem ex_apic = map (\<lambda>i. (of_nat i, 0)) [0..<16] @ [(2, 0)]"
  by (simp add: setups_def ex_apic_def ex_io_fields del: upt_rec_numeral)

lemma ex_io_slot: "gsi < 23 \<Longrightarrow> slot ex_io_mem ex_apic (io_regs ex_ioapics) gsi = Some (0xFFFF800000100000, ucast gsi)"
  by (simp add: slot_def ex_io_find ex_io_fields line_of_def)

lemma ex_io_ready:
  "lapic_id_at ex_apic 0 = Inr 0" "few_lines ex_io_mem ex_apic (io_regs ex_ioapics)"
  "inj_on (ioapic_base ex_io_mem) (set (ioapic_list ex_apic))"
  "\<forall>gsi \<in> fst ` set (setups ex_io_mem ex_apic). slot ex_io_mem ex_apic (io_regs ex_ioapics) gsi \<noteq> None"
proof -
  show "lapic_id_at ex_apic 0 = Inr 0" by (simp add: lapic_id_at_def ex_apic_def MAX_LAPICS_def MAX_CORES_def)
  show "few_lines ex_io_mem ex_apic (io_regs ex_ioapics)" "inj_on (ioapic_base ex_io_mem) (set (ioapic_list ex_apic))"
    by (simp_all add: few_lines_def ex_apic_def ex_io_fields)
  have "of_nat n < (23 :: u32)" if "n < 16" for n using that by (simp add: word_less_nat_alt unat_of_nat)
  then show "\<forall>gsi \<in> fst ` set (setups ex_io_mem ex_apic). slot ex_io_mem ex_apic (io_regs ex_ioapics) gsi \<noteq> None"
    unfolding ex_io_setups by (auto simp: ex_io_slot simp del: upt_rec_numeral)
qed

theorem ioapic_init_correct_witness:
  "\<exists>d'. ioapic_init ex_io_mem ex_apic ex_ioapics = Inr d' \<and> redir (io_regs d') 0xFFFF800000100000 2 = 0x10032"
proof -
  have "map_of (rev (setups ex_io_mem ex_apic)) 2 = Some 0" by (simp add: ex_io_setups del: upt_rec_numeral)
  moreover have "slot ex_io_mem ex_apic (io_regs ex_ioapics) 2 = Some (0xFFFF800000100000, 2)" using ex_io_slot [of 2] by simp
  moreover have "redirection_entry 2 0 0 OR APIC_IRQ_MASK = 0x10032"
    by (simp add: redirection_entry_def IRQ_APIC_BASE_def APIC_IRQ_MASK_def)
  ultimately show ?thesis using ioapic_init_correct [OF ex_io_ready] by fastforce
qed

lemma isa_gsi_roundtrip_example:
  "\<exists>g. ioapic_isa_to_gsi ex_io_mem ex_apic 2 = Inr g \<and> ioapic_gsi_to_isa ex_io_mem ex_apic g \<noteq> 2"
  using isa_gsi_roundtrip [of ex_io_mem ex_apic 2] by (simp add: ex_apic_def ex_io_fields)

end
