(* ===== verification/Dispatch_Correct.thy ===== *)
theory Dispatch_Correct
  imports Dispatch Ioapic_Correct Sched_Correct
begin

text \<open>
  The end of an interrupt at the local controller, preemption by the timer, and the way of a
  keyboard interrupt from the line of the controller to its handler.
\<close>

section \<open>The end of an interrupt\<close>

text \<open>The bit of a vector in the registers that show the interrupts in service.\<close>

definition in_service :: "lapic_regs \<Rightarrow> u8 \<Rightarrow> bool" where
  "in_service l vec = bit (l_reads l (0x100 + 16 * of_nat (unat vec div 32))) (unat vec mod 32)"

lemma eoi_cases:
  "lapic_eoi vec l =
     (if vec < 48 then Inl Panic
      else if unat vec mod 32 = 31 then Inl Shift_out_of_bounds
      else Inr (if in_service l vec then l\<lparr>l_writes := l_writes l @ [(0xB0, 0)]\<rparr> else l))"
proof -
  have m: "unat (vec mod 32) = unat vec mod 32" "unat (vec div 32) = unat vec div 32" by (simp_all add: unat_mod unat_div)
  have d: "unat vec div 32 < 256" using unsigned_less [where w = vec and ?'a = nat] by simp
  have "unat (ucast (vec div 32) :: u32) = unat vec div 32"
    using d by (simp add: unsigned_ucast_eq take_bit_nat_eq_self_iff m(2))
  then have c: "(ucast (vec div 32) :: u32) = of_nat (unat vec div 32)"
    using d by (intro unsigned_word_eqI [where ?'a = nat]) (simp add: unat_of_nat)
  have "(w AND push_bit n 1 \<noteq> 0) = bit (w :: u32) n" for w n
    unfolding push_bit_of_1 by (simp add: and_exp_eq_0_iff_not_bit)
  then show ?thesis
    by (simp add: lapic_eoi_def Let_def IRQ_APIC_BASE_def m c lapic_read_def lapic_write_def APIC_REG_EOI_def
        APIC_REG_ISR_BASE_def in_service_def)
qed

section \<open>Preemption\<close>

text \<open>A timer interrupt on the running processor.\<close>

definition timer_ready :: "interrupt \<Rightarrow> machine \<Rightarrow> bool" where
  "timer_ready i m \<longleftrightarrow> int_no (i_info i) = IRQ_LINT_TIMER \<and> current (kern m) \<noteq> 0 \<and>
     vectors (kvm (kern m)) IRQ_LINT_TIMER = \<lparr>isr_type = ISR_IRQ, handler = Some Lapic_timer_callback\<rparr>"

definition timer_writes :: "lapic_regs \<Rightarrow> (u32 \<times> u32) list" where
  "timer_writes l = (if in_service l IRQ_LINT_TIMER then [(0xB0, 0)] else [])"

definition with_slices :: "u32 \<Rightarrow> bool \<Rightarrow> machine \<Rightarrow> machine" where
  "with_slices n resched m = (let s = kern m; cpu = this_cpu s in
     m\<lparr>kern := s\<lparr>t_num_slices := (t_num_slices s)(current s := n), reschedule := (reschedule s)(cpu := resched)\<rparr>,
       lregs := (lregs m)\<lparr>l_writes := l_writes (lregs m) @ timer_writes (lregs m)\<rparr>\<rparr>)"

lemma timer_eoi: "lapic_eoi IRQ_LINT_TIMER l = Inr (l\<lparr>l_writes := l_writes l @ timer_writes l\<rparr>)"
proof -
  have "\<not> IRQ_LINT_TIMER < 48" "unat IRQ_LINT_TIMER mod 32 \<noteq> 31"
    by (simp_all add: IRQ_LINT_TIMER_def IRQ_LINT_BASE_def IRQ_APIC_SPURIOUS_def)
  then show ?thesis unfolding eoi_cases by (simp add: timer_writes_def)
qed

lemma timer_interrupt:
  assumes "timer_ready i m" "\<not> reschedule (kern m) (this_cpu (kern m))"
  shows "isr_global_handler i m =
    (let n = t_num_slices (kern m) (current (kern m)) + 1; m' = with_slices n (n \<ge> MAX_SLICES) m in
     if n \<ge> MAX_SLICES \<and> int_depth m (this_cpu (kern m)) = 0
     then rbind (sched_yield_preempt (i_ret i) (kern m')) (\<lambda>s. Some (Inr (m'\<lparr>kern := s\<rparr>)))
     else Some (Inr m'))"
proof -
  define cpu n where "cpu = this_cpu (kern m)" and "n = t_num_slices (kern m) (current (kern m)) + 1"
  define s1 where "s1 = (kern m)\<lparr>t_num_slices := (t_num_slices (kern m))(current (kern m) := n),
      reschedule := (reschedule (kern m))(cpu := (n \<ge> MAX_SLICES))\<rparr>"
  define m1 where "m1 = m\<lparr>int_depth := (int_depth m)(cpu := int_depth m cpu + 1),
      lregs := (lregs m)\<lparr>l_writes := l_writes (lregs m) @ timer_writes (lregs m)\<rparr>\<rparr>"
  have 1: "eoi IRQ_LINT_TIMER (set_depth (\<lambda>n. n + 1) m) = Inr m1"
    by (simp add: eoi_def set_depth_def timer_eoi m1_def cpu_def Let_def)
  have r: "(reschedule (kern m))(cpu := False) = reschedule (kern m)" using assms(2) by (auto simp: cpu_def fun_eq_iff)
  have "lapic_timer_callback (kern m) = Inr s1"
    using assms r by (cases "n \<ge> MAX_SLICES") (auto simp: lapic_timer_callback_def Let_def timer_ready_def s1_def n_def cpu_def)
  then have 2: "run_handler Lapic_timer_callback i m1 = Some (Inr (m1\<lparr>kern := s1\<rparr>))" by (simp add: m1_def)
  have c1: "this_cpu s1 = cpu" "reschedule s1 cpu \<longleftrightarrow> n \<ge> MAX_SLICES" by (simp_all add: s1_def this_cpu_def cpu_def)
  have 3: "set_depth (\<lambda>n. n - 1) (m1\<lparr>kern := s1\<rparr>) = with_slices n (n \<ge> MAX_SLICES) m"
  proof -
    have "with_slices n (n \<ge> MAX_SLICES) m =
        m\<lparr>kern := s1, lregs := (lregs m)\<lparr>l_writes := l_writes (lregs m) @ timer_writes (lregs m)\<rparr>\<rparr>"
      by (simp add: with_slices_def Let_def s1_def cpu_def)
    then show ?thesis using c1(1) by (cases m) (simp add: set_depth_def Let_def m1_def)
  qed
  have 4: "int_depth (with_slices n (n \<ge> MAX_SLICES) m) = int_depth m" "kern (with_slices n (n \<ge> MAX_SLICES) m) = s1"
    by (simp_all add: with_slices_def Let_def s1_def cpu_def)
  have 5: "int_no (i_info i) = IRQ_LINT_TIMER"
    "vectors (kvm (kern m)) IRQ_LINT_TIMER = \<lparr>isr_type = ISR_IRQ, handler = Some Lapic_timer_callback\<rparr>"
    using assms(1) by (simp_all add: timer_ready_def)
  define m' where "m' = with_slices n (n \<ge> MAX_SLICES) m"
  note folded = 3 [folded m'_def] 4 [folded m'_def]
  have "isr_global_handler i m =
      (if int_depth m cpu = 0 \<and> n \<ge> MAX_SLICES
       then rbind (sched_yield_preempt (i_ret i) s1) (\<lambda>s. Some (Inr (m'\<lparr>kern := s\<rparr>))) else Some (Inr m'))"
    unfolding isr_global_handler_def by (simp add: Let_def 5 1 2 folded c1 del: run_handler.simps)
  then show ?thesis
    unfolding Let_def n_def [symmetric] cpu_def [symmetric] m'_def [symmetric] folded by (simp add: conj_commute)
qed

fun timer_ticks :: "interrupt \<Rightarrow> nat \<Rightarrow> machine \<Rightarrow> machine outcome option" where
  "timer_ticks i 0 m = Some (Inr m)"
| "timer_ticks i (Suc k) m = rbind (timer_ticks i k m) (isr_global_handler i)"

definition after_ticks :: "nat \<Rightarrow> machine \<Rightarrow> machine" where
  "after_ticks k m = m\<lparr>kern := (kern m)\<lparr>t_num_slices := (t_num_slices (kern m))(current (kern m) := of_nat k)\<rparr>,
     lregs := (lregs m)\<lparr>l_writes := l_writes (lregs m) @ concat (replicate k (timer_writes (lregs m)))\<rparr>\<rparr>"

lemma after_ticks_simps [simp]:
  "current (kern (after_ticks k m)) = current (kern m)" "this_cpu (kern (after_ticks k m)) = this_cpu (kern m)"
  "reschedule (kern (after_ticks k m)) = reschedule (kern m)" "int_depth (after_ticks k m) = int_depth m"
  "vectors (kvm (kern (after_ticks k m))) = vectors (kvm (kern m))"
  "t_num_slices (kern (after_ticks k m)) (current (kern m)) = of_nat k"
  "timer_writes (lregs (after_ticks k m)) = timer_writes (lregs m)"
  by (simp_all add: after_ticks_def current_def this_cpu_def timer_writes_def in_service_def)

lemma after_ticks_Suc:
  assumes "\<not> reschedule (kern m) (this_cpu (kern m))"
  shows "with_slices (of_nat (Suc k)) False (after_ticks k m) = after_ticks (Suc k) m"
proof -
  have r: "(reschedule (kern m))(this_cpu (kern m) := False) = reschedule (kern m)" using assms by (auto simp: fun_eq_iff)
  have c: "concat (replicate k xs) @ xs = xs @ concat (replicate k xs)" for xs :: "(u32 \<times> u32) list"
    by (induction k) auto
  show ?thesis
    unfolding with_slices_def Let_def after_ticks_simps
    by (simp add: after_ticks_def r c)
qed

text \<open>
  C17. The timer preempts a task at the end of its fifth slice, whatever the preemption count.  A
  task that has used no slice, is not to be rescheduled and is not interrupted in an interrupt
  runs on through four timer interrupts, which count its slices and acknowledge themselves, and
  change nothing else.  The fifth calls the scheduler with the task marked.  The count is not
  reset: every later interrupt of the timer outside of other interrupts calls the scheduler as
  well, as long as the 32-bit count does not wrap around.  The preemption count of the processor, which every lock increments, does not prevent it.
\<close>

theorem timer_preempts:
  assumes "timer_ready i m" and "\<not> reschedule (kern m) (this_cpu (kern m))" and "int_depth m (this_cpu (kern m)) = 0"
  shows "(t_num_slices (kern m) (current (kern m)) = 0 \<longrightarrow>
      (\<forall>k \<le> 4. timer_ticks i k m = Some (Inr (after_ticks k m))) \<and>
      timer_ticks i 5 m = rbind (sched_yield_preempt (i_ret i) (kern (with_slices 5 True (after_ticks 4 m))))
        (\<lambda>s. Some (Inr ((with_slices 5 True (after_ticks 4 m))\<lparr>kern := s\<rparr>)))) \<and>
    (\<forall>n. t_num_slices (kern m) (current (kern m)) = n \<longrightarrow> 5 \<le> n \<longrightarrow> n < 2 ^ 32 - 1 \<longrightarrow>
      isr_global_handler i m = rbind (sched_yield_preempt (i_ret i) (kern (with_slices (n + 1) True m)))
        (\<lambda>s. Some (Inr ((with_slices (n + 1) True m)\<lparr>kern := s\<rparr>))))"
proof (intro conjI impI allI)
  assume z: "t_num_slices (kern m) (current (kern m)) = 0"
  have ready: "timer_ready i (after_ticks k m)" for k using assms(1) by (simp add: timer_ready_def)
  have nr: "\<not> reschedule (kern (after_ticks k m)) (this_cpu (kern (after_ticks k m)))" for k using assms(2) by simp
  have small: "\<not> (of_nat (Suc k) \<ge> MAX_SLICES)" if "k < 4" for k
    using that by (simp add: MAX_SLICES_def word_le_nat_alt unat_word_ariths unat_of_nat)
  have init: "after_ticks 0 m = m" using z by (cases m) (simp add: after_ticks_def fun_upd_idem)
  have run: "timer_ticks i k m = Some (Inr (after_ticks k m))" if "k \<le> 4" for k
    using that
  proof (induction k)
    case (Suc k)
    have "isr_global_handler i (after_ticks k m) = Some (Inr (after_ticks (Suc k) m))"
      using timer_interrupt [OF ready nr] small [of k] Suc.prems after_ticks_Suc [OF assms(2), of k]
      by (simp add: Let_def add.commute)
    then show ?case using Suc by simp
  qed (simp add: init)
  then show "timer_ticks i k m = Some (Inr (after_ticks k m))" if "k \<le> 4" for k using that by blast
  have "timer_ticks i 5 m = rbind (timer_ticks i 4 m) (isr_global_handler i)" by (simp add: numeral_eq_Suc)
  also have "\<dots> = isr_global_handler i (after_ticks 4 m)" using run [of 4] by simp
  also have "\<dots> = rbind (sched_yield_preempt (i_ret i) (kern (with_slices 5 True (after_ticks 4 m))))
      (\<lambda>s. Some (Inr ((with_slices 5 True (after_ticks 4 m))\<lparr>kern := s\<rparr>)))"
    using timer_interrupt [OF ready nr, of 4] assms(3) by (simp add: Let_def MAX_SLICES_def)
  finally show "timer_ticks i 5 m = rbind (sched_yield_preempt (i_ret i) (kern (with_slices 5 True (after_ticks 4 m))))
      (\<lambda>s. Some (Inr ((with_slices 5 True (after_ticks 4 m))\<lparr>kern := s\<rparr>)))" .
next
  fix n
  assume n: "t_num_slices (kern m) (current (kern m)) = n" "5 \<le> n" "n < 2 ^ 32 - 1"
  have "n + 1 \<ge> MAX_SLICES"
    using n(2,3) by (simp add: MAX_SLICES_def word_le_nat_alt word_less_nat_alt unat_word_ariths)
  then show "isr_global_handler i m = rbind (sched_yield_preempt (i_ret i) (kern (with_slices (n + 1) True m)))
      (\<lambda>s. Some (Inr ((with_slices (n + 1) True m)\<lparr>kern := s\<rparr>)))"
    using timer_interrupt [OF assms(1,2)] assms(3) n(1) by (simp add: Let_def)
qed

text \<open>A task without slices that holds a lock.\<close>

definition ex_machine :: machine where
  "ex_machine = \<lparr>kern = (ex_kernel ex_mem ex_rq)
       \<lparr>kvm := answering\<lparr>vectors := (\<lambda>v. \<lparr>isr_type = ISR_IRQ, handler = Some Lapic_timer_callback\<rparr>)\<rparr>,
        reschedule := (\<lambda>c. False), preempt_counts := (\<lambda>c. 1)\<rparr>,
     int_depth = (\<lambda>c. 0), lregs = \<lparr>l_reads = (\<lambda>r. 0xFFFFFFFF), l_writes = []\<rparr>,
     mio = io.make (\<lambda>p. []) []\<rparr>"

definition ex_interrupt :: interrupt where
  "ex_interrupt = \<lparr>i_info = 254, i_cr2 = 0, i_ret = 0xFF, i_tlb_start = 0, i_tlb_end = 0, i_labels = ex_labels,
     i_rflags = 0x202, i_idle_task = 0, i_dummy = 0, i_others = 0\<rparr>"

theorem timer_preempts_witness:
  "timer_ticks ex_interrupt 4 ex_machine = Some (Inr (after_ticks 4 ex_machine)) \<and>
   timer_ticks ex_interrupt 5 ex_machine =
     rbind (sched_yield_preempt 0xFF (kern (with_slices 5 True (after_ticks 4 ex_machine))))
       (\<lambda>s. Some (Inr ((with_slices 5 True (after_ticks 4 ex_machine))\<lparr>kern := s\<rparr>)))"
proof -
  have k: "this_cpu (kern ex_machine) = 0" "current (kern ex_machine) = 128"
    by (simp_all add: ex_machine_def ex_kernel_def this_cpu_def current_def answering_def two_cpus_def ex_vm_def)
  have "timer_ready ex_interrupt ex_machine"
    by (simp add: timer_ready_def k) (simp add: ex_machine_def ex_interrupt_def int_no_def vector_defs ex_kernel_def)
  moreover have "\<not> reschedule (kern ex_machine) (this_cpu (kern ex_machine))" "int_depth ex_machine (this_cpu (kern ex_machine)) = 0"
    "t_num_slices (kern ex_machine) (current (kern ex_machine)) = 0" "i_ret ex_interrupt = 0xFF"
    unfolding k by (simp_all add: ex_machine_def ex_kernel_def ex_interrupt_def)
  ultimately show ?thesis using timer_preempts [of ex_interrupt ex_machine] by simp
qed

section \<open>The keyboard\<close>

text \<open>
  C18. After the start of the controllers and of the keyboard, a keyboard interrupt reaches the
  keyboard's handler.  With controllers that handle every legacy interrupt and every override,
  that have different addresses and at most 120 lines, overrides to interrupts below 208, a listed controller of
  the first processor, and a keyboard whose output buffer can be emptied, both starts return.  The redirection of the
  line of the keyboard is then unmasked and delivers the vector for which the keyboard's handler
  is installed; every other line that was set up stays masked, and no other vector has changed.
\<close>

theorem keyboard_wired:
  assumes "lapic_id_at a 0 = Inr i" and "few_lines m a (io_regs d)" and "inj_on (ioapic_base m) (set (ioapic_list a))"
    and "\<forall>gsi \<in> fst ` set (setups m a). slot m a (io_regs d) gsi \<noteq> None"
    and "\<forall>e \<in> set (override_list a). override_gsi m e < 208"
    and "ps2_flush s = Some s'"
  shows "\<exists>d1 g b l d2. ioapic_init m a d = Inr d1 \<and> ioapic_isa_to_gsi m a 1 = Inr g \<and> slot m a (io_regs d) (ucast g) = Some (b, l) \<and>
    ps2kbd_init m a (tbl, d1, s) =
      Some (Inr (tbl(g + IRQ_APIC_BASE := \<lparr>isr_type = ISR_IRQ, handler = Some Ps2kbd_irq_handler\<rparr>), d2, s')) \<and>
    \<not> bit (redir (io_regs d2) b l) 16 \<and> ucast (redir (io_regs d2) b l) = g + IRQ_APIC_BASE \<and>
    (\<forall>gsi \<in> fst ` set (setups m a). \<forall>b' l'. gsi \<noteq> ucast g \<longrightarrow> slot m a (io_regs d) gsi = Some (b', l') \<longrightarrow>
       bit (redir (io_regs d2) b' l') 16)"
proof -
  let ?us = "setups m a" and ?r = "io_regs d"
  obtain d1 where d1: "setup_all m a ?us d = Inr d1" "\<forall>gsi. handles m (io_regs d1) gsi = handles m ?r gsi"
    "\<forall>gsi fl b l. map_of (rev ?us) gsi = Some fl \<longrightarrow> slot m a ?r gsi = Some (b, l) \<longrightarrow>
       redir (io_regs d1) b l = redirection_entry gsi fl i OR APIC_IRQ_MASK"
    using setup_all_ok [OF assms(1-3) refl assms(4)] by (elim exE conjE)
  define g where "g = isa_to_gsi_from m 1 (override_list a)"
  have g: "ioapic_isa_to_gsi m a 1 = Inr g" by (simp add: ioapic_isa_to_gsi_def g_def)
  have gsi: "ucast g \<in> fst ` set ?us \<and> g < 208"
  proof (cases "find (\<lambda>e. override_source m e = 1) (override_list a)")
    case None
    then have "g = 1" by (simp add: g_def isa_to_gsi_from_find)
    moreover have "(1 :: u32) \<in> (\<lambda>i. of_nat i) ` {0..<16}" by (rule image_eqI [of _ _ 1]) simp_all
    ultimately show ?thesis by (auto simp: setups_def image_Un image_image simp del: upt_rec_numeral)
  next
    case (Some e)
    then have e: "e \<in> set (override_list a)" by (auto simp: find_Some_iff)
    then have lt: "unat (override_gsi m e) < 208" using assms(5) by (simp add: word_less_nat_alt)
    have ge: "g = ucast (override_gsi m e)" using Some by (simp add: g_def isa_to_gsi_from_find)
    then have "unat g = unat (override_gsi m e)" using lt by (simp add: unsigned_ucast_eq take_bit_eq_mod)
    then have "(ucast g :: u32) = override_gsi m e" "g < 208" using lt
      by (auto intro!: unsigned_word_eqI [where ?'a = nat] simp: unsigned_ucast_eq take_bit_eq_mod word_less_nat_alt)
    then show ?thesis using e by (auto simp: setups_def image_Un image_image simp del: upt_rec_numeral)
  qed
  then obtain b l where bl: "slot m a ?r (ucast g) = Some (b, l)" using assms(4) by fastforce
  obtain e where e: "find (handles m ?r (ucast g)) (ioapic_list a) = Some e" "b = ioapic_base m e" "l = line_of m (ucast g) e" "l < 120"
    using slot_cases [OF bl assms(2)] by metis
  have vec: "g + IRQ_APIC_BASE \<ge> IRQ_APIC_BASE" "g + IRQ_APIC_BASE - IRQ_APIC_BASE = g"
    using gsi by (simp_all add: word_le_nat_alt word_less_nat_alt IRQ_APIC_BASE_def unat_word_ariths)
  have set_up: "\<exists>fl. map_of (rev ?us) gsi = Some fl" if "gsi \<in> fst ` set ?us" for gsi
    using that by (metis image_set map_of_eq_None_iff not_None_eq set_rev)
  obtain fl where fl: "redir (io_regs d1) b l = redirection_entry (ucast g) fl i OR APIC_IRQ_MASK"
    using set_up [of "ucast g"] gsi d1(3) bl by blast
  obtain d2 where d2: "ioapic_unmask m a (ucast g) d1 = Inr d2"
    "io_regs d2 = set_redir b l ((redirection_entry (ucast g) fl i OR APIC_IRQ_MASK) AND NOT APIC_IRQ_MASK) (io_regs d1)"
    using ioapic_unmask_updates [of m a "ucast g" d1] e d1(2) fl by (auto simp: updates_def)
  have v: "redir (io_regs d2) b l = (redirection_entry (ucast g) fl i OR APIC_IRQ_MASK) AND NOT APIC_IRQ_MASK"
    using redir_set [OF e(4,4)] by (simp add: d2(2))
  have "bit (redir (io_regs d2) b l) n = bit (redirection_entry (ucast g) fl i OR APIC_IRQ_MASK) n" if "n < 8" for n
    unfolding v mask_bits using that by auto
  then have "(ucast (redir (io_regs d2) b l) :: u8) = ucast (redirection_entry (ucast g) fl i OR APIC_IRQ_MASK)"
    by (intro bit_word_eqI) (auto simp: bit_simps)
  then have vecs: "ucast (redir (io_regs d2) b l) = g + IRQ_APIC_BASE"
    unfolding redirection_vector by (simp add: unsigned_ucast_eq take_bit_word_eq_self)
  have others: "bit (redir (io_regs d2) b' l') 16"
    if "gsi \<in> fst ` set ?us" "gsi \<noteq> ucast g" "slot m a ?r gsi = Some (b', l')" for gsi b' l'
  proof -
    have "(b', l') \<noteq> (b, l)" using slot_inj [OF that(3) _ assms(2,3), of "ucast g"] bl that(2) by auto
    moreover have "l' < 120" using slot_cases [OF that(3) assms(2)] by metis
    ultimately have "redir (io_regs d2) b' l' = redir (io_regs d1) b' l'" by (auto simp: d2(2) redir_set [OF e(4)])
    then show ?thesis using set_up [OF that(1)] d1(3) that(3) mask_bits by auto
  qed
  have "ps2kbd_init m a (tbl, d1, s) =
      Some (Inr (tbl(g + IRQ_APIC_BASE := \<lparr>isr_type = ISR_IRQ, handler = Some Ps2kbd_irq_handler\<rparr>), d2, s'))"
    using g vec d2(1) assms(6) by (simp add: ps2kbd_init_def isr_irq_unmask_def Let_def)
  moreover have "\<not> bit (redir (io_regs d2) b l) 16" unfolding v mask_bits by simp
  ultimately show ?thesis
    using d1(1) g bl vecs others unfolding ioapic_init_setups by blast
qed

theorem keyboard_wired_witness:
  "\<exists>d1 d2. ioapic_init ex_io_mem ex_apic ex_ioapics = Inr d1 \<and>
     ps2kbd_init ex_io_mem ex_apic (\<lambda>v. \<lparr>isr_type = ISR_NOP, handler = None\<rparr>, d1, io.make (\<lambda>p. [0]) []) =
       Some (Inr ((\<lambda>v. \<lparr>isr_type = ISR_NOP, handler = None\<rparr>)(0x31 := \<lparr>isr_type = ISR_IRQ, handler = Some Ps2kbd_irq_handler\<rparr>),
         d2, io.make ((\<lambda>p. [0])(PS2_STATUS := [])) [])) \<and>
     \<not> bit (redir (io_regs d2) 0xFFFF800000100000 1) 16 \<and> bit (redir (io_regs d2) 0xFFFF800000100000 2) 16"
proof -
  have f: "ps2_flush (io.make (\<lambda>p. [0]) []) = Some (io.make ((\<lambda>p. [0])(PS2_STATUS := [])) [])"
    by (subst ps2_flush.simps) (simp add: inb_def io.make_def)
  have o: "\<forall>e \<in> set (override_list ex_apic). override_gsi ex_io_mem e < 208" by (simp add: ex_apic_def ex_io_fields)
  have g: "ioapic_isa_to_gsi ex_io_mem ex_apic 1 = Inr 1" by (simp add: ioapic_isa_to_gsi_def ex_apic_def ex_io_fields)
  have v: "1 + IRQ_APIC_BASE = 0x31" by (simp add: IRQ_APIC_BASE_def)
  have "(2 :: u32) \<in> fst ` set (setups ex_io_mem ex_apic)" unfolding ex_io_setups by force
  then show ?thesis
    using keyboard_wired [OF ex_io_ready o f, of "\<lambda>v. \<lparr>isr_type = ISR_NOP, handler = None\<rparr>"] ex_io_slot [of 1] ex_io_slot [of 2]
    unfolding g by (auto simp: v)
qed

end
