(* ===== verification/Smp.thy ===== *)
theory Smp
  imports Dispatch
begin

text \<open>
  Per-processor data (\<^verbatim>\<open>kernel/cpu/percpu.c\<close>) and the start of the other processors
  (\<^verbatim>\<open>kernel/smp/smp.c\<close>).  The block of a processor and its descriptor table are words of the kernel
  heap, read and written at the offsets of their layout; what the started processors answer
  is a parameter.
\<close>

section \<open>Bytes of the heap\<close>

definition put_byte :: "u64 \<Rightarrow> nat \<Rightarrow> u8 \<Rightarrow> u64" where
  "put_byte w i b = (w AND NOT (push_bit (8 * i) 0xFF)) OR push_bit (8 * i) (ucast b)"

definition get_byte :: "u64 \<Rightarrow> nat \<Rightarrow> u8" where
  "get_byte w i = ucast (drop_bit (8 * i) w)"

definition write_word :: "u64 \<Rightarrow> u64 \<Rightarrow> slob \<Rightarrow> slob" where
  "write_word p v h = h\<lparr>heap_words := (heap_words h)(p := v)\<rparr>"

definition write_byte :: "u64 \<Rightarrow> nat \<Rightarrow> u8 \<Rightarrow> slob \<Rightarrow> slob" where
  "write_byte p i b h = write_word p (put_byte (heap_words h p) i b) h"

text \<open>\<^verbatim>\<open>memcpy\<close> from an array of words, and \<^verbatim>\<open>memset\<close> to zero, of a multiple of eight bytes.\<close>

definition copy_words :: "u64 \<Rightarrow> (nat \<Rightarrow> u64) \<Rightarrow> u64 \<Rightarrow> slob \<Rightarrow> slob" where
  "copy_words p src n h = h\<lparr>heap_words := (\<lambda>a. if a - p < n then src (unat (a - p) div 8) else heap_words h a)\<rparr>"

section \<open>Per-processor data\<close>

text \<open>
  \<^verbatim>\<open>struct percpu\<close> has the words \<^verbatim>\<open>current_task\<close>, \<^verbatim>\<open>rsp_scratch\<close>, \<^verbatim>\<open>tss\<close> and \<^verbatim>\<open>preempt_count\<close>, a word with
  \<^verbatim>\<open>int_depth\<close> in its low half and \<^verbatim>\<open>reschedule\<close>, \<^verbatim>\<open>id\<close> and \<^verbatim>\<open>apic_id\<close> in the bytes 4 to 6, and \<^verbatim>\<open>run_queue\<close>.
\<close>

definition sizeof_percpu :: u64 where "sizeof_percpu = 48"

definition pc_int_depth :: "slob \<Rightarrow> u64 \<Rightarrow> u32" where
  "pc_int_depth h cpu = ucast (heap_words h (cpu + 32))"

definition pc_id :: "slob \<Rightarrow> u64 \<Rightarrow> u8" where
  "pc_id h cpu = get_byte (heap_words h (cpu + 32)) 5"

record percpus =
  pc_heap :: slob
  percpu_table :: "nat \<Rightarrow> u64"
  gs_base :: u64
  gdtr :: "u64 \<times> u16"

definition smp_cpu_id_full :: "lapic_info list \<Rightarrow> lapic_regs \<Rightarrow> u8 outcome" where
  "smp_cpu_id_full ls l =
     (case find_lapic (lapic_id l) ls of Some i \<Rightarrow> Inr (of_nat i) | None \<Rightarrow> Inl Panic)"

definition percpu_set_addr :: "u64 \<Rightarrow> percpus \<Rightarrow> percpus" where
  "percpu_set_addr p s = s\<lparr>gs_base := p\<rparr>"

definition GDT_SIZE :: u64 where "GDT_SIZE = 0x40"
definition TSS_SIZE :: u64 where "TSS_SIZE = 0x68"

text \<open>The bytes of the descriptor that hold the base of the segment, and its type.\<close>

definition write_tss_desc :: "u64 \<Rightarrow> u64 \<Rightarrow> slob \<Rightarrow> slob" where
  "write_tss_desc desc tss h =
     (let h = write_byte desc 2 (get_byte tss 0) h;
          h = write_byte desc 3 (get_byte tss 1) h;
          h = write_byte desc 4 (get_byte tss 2) h;
          h = write_byte desc 5 0x89 h;
          h = write_byte desc 7 (get_byte tss 3) h;
          h = write_byte (desc + 8) 0 (get_byte tss 4) h;
          h = write_byte (desc + 8) 1 (get_byte tss 5) h;
          h = write_byte (desc + 8) 2 (get_byte tss 6) h
      in write_byte (desc + 8) 3 (get_byte tss 7) h)"

text \<open>\<open>gdt64\<close> are the words of the static descriptor table.\<close>

definition load_gdt_tss :: "(nat \<Rightarrow> u64) \<Rightarrow> percpus \<Rightarrow> (u64 \<times> percpus) outcome option" where
  "load_gdt_tss gdt64 s =
     rbind (kmalloc (pc_heap s) GDT_SIZE) (\<lambda>(gdt, h).
     let h = copy_words gdt gdt64 GDT_SIZE h in
     rbind (kmalloc h TSS_SIZE) (\<lambda>(tss, h).
     let h = copy_words tss (\<lambda>_. 0) TSS_SIZE h;
         h = write_tss_desc (gdt + 0x30) tss h
     in Some (Inr (tss, s\<lparr>pc_heap := h, gdtr := (gdt, ucast (GDT_SIZE - 1))\<rparr>))))"

definition init_fields :: "u64 \<Rightarrow> u8 \<Rightarrow> slob \<Rightarrow> slob" where
  "init_fields cpu i h =
     write_word (cpu + 24) 0 (write_word (cpu + 8) 0 (write_word cpu 0 (write_byte (cpu + 32) 5 i h)))"

text \<open>\<open>tmp\<close> is the address of the temporary structure on the stack.\<close>

definition percpu_init_ap ::
  "lapic_info list \<Rightarrow> lapic_regs \<Rightarrow> (nat \<Rightarrow> u64) \<Rightarrow> u64 \<Rightarrow> percpus \<Rightarrow> percpus outcome option"
where
  "percpu_init_ap ls l gdt64 tmp s =
     (let s = percpu_set_addr tmp s in
      rbind (kmalloc (pc_heap s) sizeof_percpu) (\<lambda>(cpu, h).
      rbind (Some (smp_cpu_id_full ls l)) (\<lambda>i.
      rbind (load_gdt_tss gdt64 (s\<lparr>pc_heap := init_fields cpu i h\<rparr>)) (\<lambda>(tss, s).
      let s = s\<lparr>pc_heap := write_word (cpu + 16) tss (pc_heap s)\<rparr>;
          n = unat (pc_id (pc_heap s) cpu)
      in if n \<ge> MAX_CORES then Some (Inl Out_of_bounds)
         else Some (Inr (percpu_set_addr cpu (s\<lparr>percpu_table := (percpu_table s)(n := cpu)\<rparr>)))))))"

definition percpu_init_bsp :: "u64 \<Rightarrow> percpus \<Rightarrow> percpus" where
  "percpu_init_bsp bsp_percpu s = percpu_set_addr bsp_percpu (s\<lparr>percpu_table := (percpu_table s)(0 := bsp_percpu)\<rparr>)"

section \<open>Starting the processors\<close>

text \<open>
  What a processor answers: the flag after the first signal and its waiting time, the values the
  second wait reads, and the flag after it.
\<close>

record ap_answer =
  started_first :: bool
  watched :: "bool list"
  started_second :: bool

record smp =
  smp_vm :: vm
  smp_apic :: apic
  smp_regs :: lapic_regs
  smp_pit :: "u64 \<times> u32 \<times> io"
  smp_ap_stack :: u64
  smp_memory :: byte_mem

definition TRAMPOLINE_START :: u64 where "TRAMPOLINE_START = 0x1000"

text \<open>An interrupt from the first processor; the preemption count is the one the timer's lock uses.\<close>

definition send_ipi :: "u8 \<Rightarrow> u32 \<Rightarrow> smp \<Rightarrow> smp outcome" where
  "send_ipi target flags s =
     (case smp_pit s of (lk, p, ports) \<Rightarrow>
        obind (lapic_send_ipi (lapic_base (smp_apic s)) target flags (smp_regs s, p))
          (\<lambda>(l, p). Inr (s\<lparr>smp_regs := l, smp_pit := (lk, p, ports)\<rparr>)))"

definition sleep_ms :: "u64 \<Rightarrow> smp \<Rightarrow> smp option" where
  "sleep_ms ms s = map_option (\<lambda>t. s\<lparr>smp_pit := t\<rparr>) (pit_sleep_ms ms (smp_pit s))"

definition START_UP :: u32 where
  "START_UP = IPI_START_UP OR ucast (TRAMPOLINE_START div PAGE_SIZE)"

definition ap_stack_ready :: "smp \<Rightarrow> smp outcome" where
  "ap_stack_ready s =
     (if smp_ap_stack s = 0
      then obind (pmm_alloc_order (vm_pmm (smp_vm s)) 2 0) (\<lambda>(pg, st).
        Inr (s\<lparr>smp_vm := set_pmm st (smp_vm s), smp_ap_stack := page_to_virt pg + 4 * PAGE_SIZE\<rparr>))
      else Inr s)"

definition smp_boot_ap :: "ap_answer \<Rightarrow> nat \<Rightarrow> smp \<Rightarrow> smp outcome option" where
  "smp_boot_ap ans index s =
     (let target = li_id (lapic_list (smp_apic s) ! index) in
      rbind (Some (ap_stack_ready s)) (\<lambda>s.
      rbind (Some (send_ipi target IPI_INIT s)) (\<lambda>s.
      rbind (waits (sleep_ms 10 s)) (\<lambda>s.
      rbind (Some (send_ipi target START_UP s)) (\<lambda>s.
      rbind (waits (sleep_ms 5 s)) (\<lambda>s.
      if started_first ans then Some (Inr (s\<lparr>smp_ap_stack := 0\<rparr>))
      else
        rbind (Some (send_ipi target START_UP s)) (\<lambda>s.
        rbind (waits (pit_sleep_watch_flag 10 (watched ans) False (smp_pit s))) (\<lambda>t.
        let s = s\<lparr>smp_pit := t\<rparr> in
        if started_second ans then Some (Inr (s\<lparr>smp_ap_stack := 0\<rparr>))
        else let ls = lapic_list (smp_apic s) in
          Some (Inr (s\<lparr>smp_apic := (smp_apic s)\<lparr>lapic_list := ls[index := (ls ! index)\<lparr>li_present := 0\<rparr>]\<rparr>\<rparr>))))))))))"

fun boot_aps :: "(nat \<Rightarrow> ap_answer) \<Rightarrow> nat list \<Rightarrow> smp \<Rightarrow> smp outcome option" where
  "boot_aps ans [] s = Some (Inr s)"
| "boot_aps ans (i # is) s = rbind (smp_boot_ap (ans i) i s) (boot_aps ans is)"

definition trampoline_page :: "u64 \<Rightarrow> nat \<Rightarrow> smp \<Rightarrow> smp outcome option" where
  "trampoline_page vstart i s =
     (let p = TRAMPOLINE_START + of_nat i in
      rbind (vmm_map_page Kernel_mmu p p (PAGE_WRITABLE OR PAGE_EXECUTABLE) (smp_vm s)) (\<lambda>v.
        Some (Inr (s\<lparr>smp_vm := v, smp_memory := memcpy (smp_memory s) p (vstart + of_nat i) (unat PAGE_SIZE)\<rparr>))))"

definition unmap_trampoline_page :: "nat \<Rightarrow> smp \<Rightarrow> smp outcome option" where
  "unmap_trampoline_page i s =
     rbind (vmm_map_page Kernel_mmu 0 (TRAMPOLINE_START + of_nat i) VMM_UNMAP (smp_vm s)) (\<lambda>v.
       Some (Inr (s\<lparr>smp_vm := v\<rparr>)))"

fun each_page :: "(nat \<Rightarrow> smp \<Rightarrow> smp outcome option) \<Rightarrow> nat list \<Rightarrow> smp \<Rightarrow> smp outcome option" where
  "each_page f [] s = Some (Inr s)"
| "each_page f (i # is) s = rbind (f i s) (each_page f is)"

text \<open>\<open>i = 0; i < size; i += PAGE_SIZE\<close>\<close>

definition page_offsets :: "u64 \<Rightarrow> nat list" where
  "page_offsets len = map (\<lambda>k. k * unat PAGE_SIZE) [0 ..< (unat len + 4095) div 4096]"

definition free_ap_stack :: "smp \<Rightarrow> smp outcome" where
  "free_ap_stack s =
     (if smp_ap_stack s \<noteq> 0
      then obind (pmm_free_order (vm_pmm (smp_vm s)) (virt_to_page (smp_ap_stack s - 4 * PAGE_SIZE)) 2) (\<lambda>st.
        Inr (s\<lparr>smp_vm := set_pmm st (smp_vm s)\<rparr>))
      else Inr s)"

text \<open>
  \<open>counted\<close> is the number of processors that have counted themselves when the trampoline is unmapped,
  \<open>ready\<close> the number of those that do so in the end, the first one included: the final loop waits
  for it to reach the number of controllers.
\<close>

definition set_nr_cpus :: "nat \<Rightarrow> smp \<Rightarrow> smp" where
  "set_nr_cpus n s = s\<lparr>smp_vm := (smp_vm s)\<lparr>nr_cpus := n\<rparr>\<rparr>"

definition smp_init :: "(nat \<Rightarrow> ap_answer) \<Rightarrow> nat \<Rightarrow> nat \<Rightarrow> u64 \<Rightarrow> u64 \<Rightarrow> smp \<Rightarrow> smp outcome option" where
  "smp_init ans counted ready vstart vend s =
     (let s = set_nr_cpus (nr_cpus (smp_vm s) + 1) s; offs = page_offsets (vend - vstart) in
      rbind (each_page (trampoline_page vstart) offs s) (\<lambda>s.
      rbind (boot_aps ans [1 ..< length (lapic_list (smp_apic s))] s) (\<lambda>s.
      rbind (each_page unmap_trampoline_page offs (set_nr_cpus counted s)) (\<lambda>s.
      rbind (Some (free_ap_stack s)) (\<lambda>s.
      if ready < length (lapic_list (smp_apic s)) then None
      else Some (Inr (set_nr_cpus ready s)))))))"

end
