(* ===== verification/Smp_Correct.thy ===== *)
theory Smp_Correct
  imports Smp Dispatch_Correct Slob_Correct
begin

text \<open>
  The block that \<^verbatim>\<open>percpu_init_ap\<close> builds for a processor, what its nesting depth means for
  preemption there, the signals that start a processor, and when \<^verbatim>\<open>smp_init\<close> returns.
\<close>

section \<open>Bytes\<close>

lemma bit_put_byte:
  assumes "i < 8"
  shows "bit (put_byte w i b) k \<longleftrightarrow> (if 8 * i \<le> k \<and> k < 8 * i + 8 then bit b (k - 8 * i) else bit w k)"
proof (cases "k < 64")
  case True
  have m: "(0xFF :: u64) = mask 8" by (simp add: mask_eq_exp_minus_1)
  have "bit b j \<Longrightarrow> j < 8" for j using bit_imp_le_length [of b j] by simp
  then have "bit b (k - 8 * i) \<Longrightarrow> 8 * i \<le> k \<Longrightarrow> k < 8 * i + 8" by fastforce
  then show ?thesis using True assms unfolding put_byte_def m
    by (auto simp: bit_or_iff bit_and_iff bit_not_iff bit_push_bit_iff bit_mask_iff bit_ucast_iff)
next
  case False
  then have "\<not> bit (put_byte w i b) k" "\<not> bit w k" using bit_imp_le_length [of _ k] by fastforce+
  then show ?thesis using False assms by auto
qed

lemma bit_get_byte: "bit (get_byte w i) k \<longleftrightarrow> k < 8 \<and> bit w (8 * i + k)"
  by (auto simp: get_byte_def bit_ucast_iff bit_drop_bit_eq)

lemma get_put_byte [simp]:
  "i < 8 \<Longrightarrow> j < 8 \<Longrightarrow> get_byte (put_byte w i b) j = (if i = j then b else get_byte w j)"
  by (rule bit_word_eqI) (auto simp: bit_get_byte bit_put_byte)

section \<open>The block of a processor\<close>

definition apart :: "u64 \<Rightarrow> u64 \<Rightarrow> u64 \<Rightarrow> u64 \<Rightarrow> bool" where
  "apart p n q k \<longleftrightarrow> (\<forall>a. \<not> (a - p < n \<and> a - q < k))"

definition keeps :: "u64 \<Rightarrow> u64 \<Rightarrow> slob \<Rightarrow> slob \<Rightarrow> bool" where
  "keeps p n h h' \<longleftrightarrow> (\<forall>a. a - p < n \<longrightarrow> heap_words h' a = heap_words h a)"

text \<open>The base address in a descriptor of 16 bytes, least significant byte first.\<close>

definition desc_base :: "u64 \<Rightarrow> u64 \<Rightarrow> u8 list" where
  "desc_base w0 w1 = [get_byte w0 2, get_byte w0 3, get_byte w0 4, get_byte w0 7,
     get_byte w1 0, get_byte w1 1, get_byte w1 2, get_byte w1 3]"

lemma kmalloc_poisons:
  assumes "kmalloc s n = Some (Inr (p, s'))" and "a - p < n" and "8 \<le> unat (n - (a - p))"
  shows "heap_words s' a = 0xBBBBBBBBBBBBBBBB"
proof -
  obtain s1 where s': "s' = poison s1 p n"
    using assms(1) by (auto simp: kmalloc_def bind_eq_Some_conv obind_Inr split: prod.splits)
  have "mask (8 * unat (n - (a - p))) = (- 1 :: u64)"
    using assms(3) by (intro bit_word_eqI) (auto simp: bit_mask_iff)
  then show ?thesis using assms(2) by (simp add: s' poison_def Let_def)
qed

lemma tss_desc_words:
  assumes "w = heap_words (write_tss_desc d tss h)"
  shows "desc_base (w d) (w (d + 8)) = map (get_byte tss) [0, 1, 2, 3, 4, 5, 6, 7]" "get_byte (w d) 5 = 0x89"
    "a \<noteq> d \<Longrightarrow> a \<noteq> d + 8 \<Longrightarrow> w a = heap_words h a"
    "get_byte (w d) 0 = get_byte (heap_words h d) 0" "get_byte (w d) 1 = get_byte (heap_words h d) 1"
    "get_byte (w d) 6 = get_byte (heap_words h d) 6"
  unfolding assms
  by (simp_all add: write_tss_desc_def write_byte_def write_word_def desc_base_def Let_def)

lemma init_ap_words:
  assumes "keeps cpu sizeof_percpu h1 h2" and "keeps cpu sizeof_percpu h2 h3"
    and "keeps gdt GDT_SIZE (copy_words gdt gdt64 GDT_SIZE h2) h3"
    and "apart cpu sizeof_percpu gdt GDT_SIZE" and "apart cpu sizeof_percpu tss TSS_SIZE" and "apart gdt GDT_SIZE tss TSS_SIZE"
    and "w = heap_words (write_word (cpu + 16) tss (write_tss_desc (gdt + 0x30) tss (copy_words tss (\<lambda>_. 0) TSS_SIZE h3)))"
  shows "d < 48 \<Longrightarrow> d \<noteq> 16 \<Longrightarrow> w (cpu + d) = heap_words h1 (cpu + d)" "w (cpu + 16) = tss"
    "desc_base (w (gdt + 0x30)) (w (gdt + 0x38)) = map (get_byte tss) [0, 1, 2, 3, 4, 5, 6, 7]" "get_byte (w (gdt + 0x30)) 5 = 0x89"
    "k < 6 \<Longrightarrow> w (gdt + of_nat (8 * k)) = gdt64 k" "j < 13 \<Longrightarrow> w (tss + of_nat (8 * j)) = 0"
proof -
  define h4 where "h4 = copy_words tss (\<lambda>_. 0) TSS_SIZE h3"
  define h5 where "h5 = write_tss_desc (gdt + 0x30) tss h4"
  note sizes = sizeof_percpu_def GDT_SIZE_def TSS_SIZE_def
  have in_cpu: "cpu + c - cpu < sizeof_percpu" if "c < 48" for c using that by (simp add: sizes)
  have in_gdt: "gdt + c - gdt < GDT_SIZE" if "c < 64" for c using that by (simp add: sizes)
  have in_tss: "tss + c - tss < TSS_SIZE" if "c < 104" for c using that by (simp add: sizes)
  have ne: "gdt + c \<noteq> cpu + d" "tss + e \<noteq> cpu + d" "gdt + c \<noteq> tss + e" if "c < 64" "d < 48" "e < 104" for c d e
    using assms(4-6) in_cpu [OF that(2)] in_gdt [OF that(1)] in_tss [OF that(3)] unfolding apart_def by metis+
  have w6: "w a = (if a = cpu + 16 then tss else heap_words h5 a)" for a by (simp add: assms(7) h5_def h4_def write_word_def)
  note desc = tss_desc_words [OF refl, where d = "gdt + 0x30" and tss = tss and h = h4, folded h5_def]
  have w4: "heap_words h4 a = (if a - tss < TSS_SIZE then 0 else heap_words h3 a)" for a by (simp add: h4_def copy_words_def)
  have cpu_w: "w (cpu + d) = heap_words h1 (cpu + d)" if d: "d < 48" "d \<noteq> 16" for d
  proof -
    have "cpu + d \<noteq> gdt + 0x30" "cpu + d \<noteq> gdt + 0x30 + 8"
      using ne(1) [of "0x30" d 0] ne(1) [of "0x38" d 0] d(1) by (auto simp: add.assoc)
    then have "w (cpu + d) = heap_words h4 (cpu + d)" using d(2) desc(3) by (simp add: w6)
    moreover have "\<not> cpu + d - tss < TSS_SIZE" using assms(5) in_cpu [OF d(1)] unfolding apart_def by blast
    ultimately show ?thesis using assms(1,2) in_cpu [OF d(1)] by (simp add: w4 keeps_def)
  qed
  have gdt_w: "w (gdt + c) = heap_words h5 (gdt + c)" if "c < 64" for c using ne(1) [OF that, of 16 0] by (simp add: w6)
  have copies: "w (gdt + of_nat (8 * k)) = gdt64 k" if k: "k < 6" for k
  proof -
    let ?c = "of_nat (8 * k) :: u64"
    have u: "unat ?c = 8 * k" using k by (intro unat_of_nat_u64) simp
    then have c: "?c < 64" "?c \<noteq> 0x30" "?c \<noteq> 0x38" using k by (auto simp: word_less_nat_alt simp del: of_nat_mult)
    have "w (gdt + ?c) = heap_words h4 (gdt + ?c)" using gdt_w [OF c(1)] desc(3) [of "gdt + ?c"] c(2,3) by (simp add: add.assoc del: of_nat_mult)
    moreover have "\<not> gdt + ?c - tss < TSS_SIZE" using assms(6) in_gdt [OF c(1)] unfolding apart_def by blast
    ultimately have "w (gdt + ?c) = heap_words (copy_words gdt gdt64 GDT_SIZE h2) (gdt + ?c)"
      using assms(3) in_gdt [OF c(1)] by (simp add: w4 keeps_def del: of_nat_mult)
    then show ?thesis using in_gdt [OF c(1)] u by (simp add: copy_words_def del: of_nat_mult)
  qed
  have zeros: "w (tss + of_nat (8 * k)) = 0" if k: "k < 13" for k
  proof -
    let ?c = "of_nat (8 * k) :: u64"
    have "unat ?c = 8 * k" using k by (intro unat_of_nat_u64) simp
    then have c: "?c < 104" using k by (simp add: word_less_nat_alt del: of_nat_mult)
    have "tss + ?c \<noteq> gdt + 0x30" "tss + ?c \<noteq> gdt + 0x30 + 8" "tss + ?c \<noteq> cpu + 16"
      using ne(3) [of "0x30" 0 ?c] ne(3) [of "0x38" 0 ?c] ne(2) [of 0 16 ?c] c by (auto simp: add.assoc simp del: of_nat_mult)
    then show ?thesis using in_tss [OF c] desc(3) by (simp add: w6 w4 del: of_nat_mult)
  qed
  show "d < 48 \<Longrightarrow> d \<noteq> 16 \<Longrightarrow> w (cpu + d) = heap_words h1 (cpu + d)" by (rule cpu_w)
  show "w (cpu + 16) = tss" by (simp add: w6)
  show "desc_base (w (gdt + 0x30)) (w (gdt + 0x38)) = map (get_byte tss) [0, 1, 2, 3, 4, 5, 6, 7]" "get_byte (w (gdt + 0x30)) 5 = 0x89"
    using desc(1,2) gdt_w [of "0x30"] gdt_w [of "0x38"] by (simp_all add: add.assoc)
  show "k < 6 \<Longrightarrow> w (gdt + of_nat (8 * k)) = gdt64 k" "j < 13 \<Longrightarrow> w (tss + of_nat (8 * j)) = 0"
    by (rule copies, assumption) (rule zeros)
qed

lemma init_fields_words:
  "heap_words (init_fields cpu i h) cpu = 0" "heap_words (init_fields cpu i h) (cpu + 8) = 0"
  "heap_words (init_fields cpu i h) (cpu + 24) = 0"
  "heap_words (init_fields cpu i h) (cpu + 32) = put_byte (heap_words h (cpu + 32)) 5 i"
  by (simp_all add: init_fields_def write_word_def write_byte_def)

lemma low_half_put_byte: "(ucast (put_byte w 5 b) :: u32) = ucast w"
  by (rule bit_word_eqI) (auto simp: bit_ucast_iff bit_put_byte)

text \<open>
  C28. percpu_init_ap gives a processor its own block, but leaves the nesting depth of its
  interrupts undefined.  For a processor that is entry i of the list of controllers, when the
  three allocations succeed with blocks that are apart and keep each other's contents, the
  call returns: the block is entry i of the table and the gs base, its task, scratch stack and
  preemption count are zero and its identity is i; the descriptor of the new table holds the
  address of the new task state segment, which is all zeros, and its type, and the other six
  descriptors are copies.  The depth is the fill pattern of the allocator, not zero.
\<close>

theorem percpu_init_ap_correct:
  assumes "find_lapic (lapic_id l) ls = Some i" and "i < MAX_CORES"
    and "kmalloc (pc_heap s) sizeof_percpu = Some (Inr (cpu, h1))"
    and "kmalloc (init_fields cpu (of_nat i) h1) GDT_SIZE = Some (Inr (gdt, h2))"
    and "kmalloc (copy_words gdt gdt64 GDT_SIZE h2) TSS_SIZE = Some (Inr (tss, h3))"
    and "keeps cpu sizeof_percpu (init_fields cpu (of_nat i) h1) h2" and "keeps cpu sizeof_percpu h2 h3"
    and "keeps gdt GDT_SIZE (copy_words gdt gdt64 GDT_SIZE h2) h3"
    and "apart cpu sizeof_percpu gdt GDT_SIZE" and "apart cpu sizeof_percpu tss TSS_SIZE" and "apart gdt GDT_SIZE tss TSS_SIZE"
  shows "\<exists>s'. percpu_init_ap ls l gdt64 tmp s = Some (Inr s') \<and> gs_base s' = cpu \<and> percpu_table s' = (percpu_table s)(i := cpu) \<and>
    gdtr s' = (gdt, 63) \<and>
    (let w = heap_words (pc_heap s') in
     w cpu = 0 \<and> w (cpu + 8) = 0 \<and> w (cpu + 16) = tss \<and> w (cpu + 24) = 0 \<and> pc_id (pc_heap s') cpu = of_nat i \<and>
     pc_int_depth (pc_heap s') cpu = 0xBBBBBBBB \<and>
     desc_base (w (gdt + 0x30)) (w (gdt + 0x38)) = map (get_byte tss) [0, 1, 2, 3, 4, 5, 6, 7] \<and> get_byte (w (gdt + 0x30)) 5 = 0x89 \<and>
     (\<forall>k < 6. w (gdt + of_nat (8 * k)) = gdt64 k) \<and> (\<forall>k < 13. w (tss + of_nat (8 * k)) = 0))"
proof -
  let ?h = "write_word (cpu + 16) tss (write_tss_desc (gdt + 0x30) tss (copy_words tss (\<lambda>_. 0) TSS_SIZE h3))"
  note w = init_ap_words [OF assms(6-11) refl]
  have poison: "heap_words h1 (cpu + 32) = 0xBBBBBBBBBBBBBBBB"
    by (rule kmalloc_poisons [OF assms(3)]) (simp_all add: sizeof_percpu_def)
  have id: "pc_id ?h cpu = of_nat i" using w(1) [of 32] by (simp add: pc_id_def init_fields_words)
  have "pc_int_depth ?h cpu = 0xBBBBBBBB" using w(1) [of 32] poison by (simp add: pc_int_depth_def init_fields_words low_half_put_byte)
  moreover have "unat (of_nat i :: u8) = i" using assms(2) by (simp add: MAX_CORES_def unat_of_nat)
  then have "percpu_init_ap ls l gdt64 tmp s = Some (Inr (s\<lparr>pc_heap := ?h, percpu_table := (percpu_table s)(i := cpu), gs_base := cpu, gdtr := (gdt, 63)\<rparr>))"
    using assms(1-5) id by (simp add: percpu_init_ap_def percpu_set_addr_def smp_cpu_id_full_def load_gdt_tss_def Let_def GDT_SIZE_def)
  ultimately show ?thesis using id w(2-6) w(1) [of 0] w(1) [of 8] w(1) [of 24] by (simp add: init_fields_words Let_def)
qed

lemma apartI: "unat p + unat n \<le> unat q \<Longrightarrow> unat q + unat k \<le> 2 ^ 64 \<Longrightarrow> apart p n q k"
  by (auto simp: apart_def word_less_nat_alt unat_sub_if' split: if_splits)

lemma keeps_front:
  assumes "unat p + unat n \<le> unat b" and "unat b + 16 * (unat u + 2) < 2 ^ 64" and "unat b + 16 + unat k \<le> 2 ^ 64"
  shows "keeps p n s (poison (take_larger s u 0 b) (b + UNIT) k)"
proof -
  have "unat a < unat b" if "a - p < n" for a
  proof -
    have "unat a = unat (a - p) + unat p \<or> unat a + 2 ^ 64 = unat (a - p) + unat p"
      using unat_sub_if' [of a p] by (auto simp: not_le) (use unat_u64_lt [of p] in linarith)
    moreover have "unat (a - p) < unat n" using that by (simp add: word_less_nat_alt)
    ultimately show ?thesis using assms(1) by auto
  qed
  then show ?thesis using kmalloc_front_below [OF _ assms(2,3)] by (simp add: keeps_def)
qed

definition ex_percpus :: percpus where
  "ex_percpus = \<lparr>pc_heap = ex_heap 0x1000 255, percpu_table = (\<lambda>_. 0), gs_base = 0, gdtr = (0, 0)\<rparr>"

theorem percpu_init_ap_correct_witness:
  "\<exists>s'. percpu_init_ap [\<lparr>li_id = 0, li_acpi_id = 0, li_present = 1, li_ticks_per_10ms = 0\<rparr>] \<lparr>l_reads = (\<lambda>_. 0), l_writes = []\<rparr>
     (\<lambda>k. of_nat k) 0x500 ex_percpus = Some (Inr s') \<and> percpu_table s' 0 = 0x1010 \<and> pc_int_depth (pc_heap s') 0x1010 = 0xBBBBBBBB \<and>
     heap_words (pc_heap s') 0x1058 = 1"
proof -
  let ?l = "\<lparr>l_reads = (\<lambda>_. 0), l_writes = []\<rparr>" and ?ls = "[\<lparr>li_id = 0, li_acpi_id = 0, li_present = 1, li_ticks_per_10ms = 0\<rparr>]"
  let ?g = "\<lambda>k. of_nat k :: u64"
  note d = take_larger_def set_blk_units_def set_blk_next_def blk_units_def blk_next_def poison_def UNIT_def Let_def
  define h1 where "h1 = poison (take_larger (ex_heap 0x1000 255) 3 0 0x1000) (0x1000 + UNIT) 48"
  define f1 where "f1 = init_fields 0x1010 0 h1"
  define h2 where "h2 = poison (take_larger f1 4 0 0x1040) (0x1040 + UNIT) 64"
  define f2 where "f2 = copy_words 0x1050 ?g 64 h2"
  define h3 where "h3 = poison (take_larger f2 7 0 0x1090) (0x1090 + UNIT) 104"
  have u: "DIV_ROUND_UP 48 UNIT = 3" "DIV_ROUND_UP 64 UNIT = 4" "DIV_ROUND_UP 104 UNIT = 7" by (simp_all add: DIV_ROUND_UP_def UNIT_def)
  have b: "48 < BIGALLOC" "64 < BIGALLOC" "104 < BIGALLOC" by (simp_all add: BIGALLOC_def PAGE_SIZE_def UNIT_def)
  have "slob_head (ex_heap 0x1000 255) = 0x1000" "3 < blk_units (ex_heap 0x1000 255) 0x1000" by (simp_all add: ex_heap_def blk_units_def)
  then have k1: "kmalloc (ex_heap 0x1000 255) 48 = Some (Inr (0x1010, h1))"
    using kmalloc_front [OF _ _ b(1) u(1), of "ex_heap 0x1000 255" "0x1000"] by (simp add: h1_def UNIT_def)
  have p1: "slob_head f1 = 0x1040" "blk_units f1 0x1040 = 251"
    by (simp_all add: f1_def h1_def init_fields_def write_word_def write_byte_def d ex_heap_def)
  then have k2: "kmalloc f1 64 = Some (Inr (0x1050, h2))"
    using kmalloc_front [OF p1(1) _ b(2) u(2)] by (simp add: h2_def UNIT_def)
  have p2: "slob_head f2 = 0x1090" "blk_units f2 0x1090 = 246" using p1 by (simp_all add: f2_def h2_def copy_words_def d)
  then have k3: "kmalloc f2 104 = Some (Inr (0x10A0, h3))"
    using kmalloc_front [OF p2(1) _ b(3) u(3)] by (simp add: h3_def UNIT_def)
  have f: "keeps 0x1010 48 f1 h2" "keeps 0x1010 48 f2 h3" "keeps 0x1050 64 f2 h3"
    unfolding h2_def h3_def by (rule keeps_front; simp)+
  have "keeps 0x1010 48 h2 f2" "apart 0x1010 48 0x1050 64" "apart 0x1010 48 0x10A0 104" "apart 0x1050 64 0x10A0 104"
    using apartI [of "0x1010" 48 "0x1050" 64] apartI [of "0x1010" 48 "0x10A0" 104] apartI [of "0x1050" 64 "0x10A0" 104]
    by (auto simp: keeps_def f2_def copy_words_def apart_def)
  moreover then have "keeps 0x1010 48 h2 h3" using f(2) by (simp add: keeps_def)
  moreover have "find_lapic (lapic_id ?l) ?ls = Some 0" by (simp add: lapic_id_def lapic_read_def)
  moreover have "kmalloc (pc_heap ex_percpus) 48 = Some (Inr (0x1010, h1))" using k1 by (simp add: ex_percpus_def)
  ultimately show ?thesis
    using percpu_init_ap_correct [of ?l ?ls 0 ex_percpus "0x1010" h1 "0x1050" h2 ?g "0x10A0" h3 "0x500"] k2 k3 f
    by (auto simp: f1_def [symmetric] f2_def [symmetric] sizeof_percpu_def GDT_SIZE_def TSS_SIZE_def MAX_CORES_def Let_def
      dest!: spec [of _ 1])
qed

section \<open>No preemption on the other processors\<close>

lemma timer_nested:
  assumes "timer_ready i m" and "int_depth m (this_cpu (kern m)) \<noteq> 0"
  shows "\<exists>f r l. isr_global_handler i m = Some (Inr (m\<lparr>kern := (kern m)\<lparr>t_num_slices := f, reschedule := r\<rparr>, lregs := l\<rparr>))"
proof (cases "reschedule (kern m) (this_cpu (kern m))")
  case False
  then show ?thesis using timer_interrupt [OF assms(1) False] assms(2) by (auto simp: Let_def with_slices_def)
next
  case True
  define cpu where "cpu = this_cpu (kern m)"
  define m1 where "m1 = m\<lparr>int_depth := (int_depth m)(cpu := int_depth m cpu + 1),
      lregs := (lregs m)\<lparr>l_writes := l_writes (lregs m) @ timer_writes (lregs m)\<rparr>\<rparr>"
  define m2 where "m2 = m\<lparr>lregs := (lregs m)\<lparr>l_writes := l_writes (lregs m) @ timer_writes (lregs m)\<rparr>\<rparr>"
  have 1: "eoi IRQ_LINT_TIMER (set_depth (\<lambda>n. n + 1) m) = Inr m1"
    by (simp add: eoi_def set_depth_def timer_eoi m1_def cpu_def Let_def)
  have 2: "run_handler Lapic_timer_callback i m1 = Some (Inr m1)"
    using True by (simp add: lapic_timer_callback_def m1_def Let_def)
  have 3: "set_depth (\<lambda>n. n - 1) m1 = m2" by (simp add: set_depth_def Let_def m1_def m2_def cpu_def)
  have 4: "int_no (i_info i) = IRQ_LINT_TIMER"
    "vectors (kvm (kern m)) IRQ_LINT_TIMER = \<lparr>isr_type = ISR_IRQ, handler = Some Lapic_timer_callback\<rparr>"
    using assms(1) by (simp_all add: timer_ready_def)
  have 5: "int_depth m2 = int_depth m" "kern m2 = kern m" by (simp_all add: m2_def)
  have "isr_global_handler i m = Some (Inr m2)"
    using assms(2) unfolding isr_global_handler_def by (simp add: Let_def 1 2 3 4 5 del: run_handler.simps)
  moreover have "m2 = m\<lparr>kern := (kern m)\<lparr>t_num_slices := t_num_slices (kern m), reschedule := reschedule (kern m)\<rparr>, lregs := lregs m2\<rparr>"
    by (simp add: m2_def)
  ultimately show ?thesis by metis
qed

text \<open>
  C29. Interrupts of the timer never preempt a task on a processor whose nesting depth starts at the
  fill pattern, as percpu_init_ap leaves it.  However many of them come, each returns to the
  interrupted task: nothing but counts of slices, requests to reschedule and the registers of the local
  controller has changed, so in particular the running task is the same and the depth is back at its value.
\<close>

theorem ap_timer_never_preempts:
  assumes "timer_ready i m" and "int_depth m (this_cpu (kern m)) = pc_int_depth h cpu" and "pc_int_depth h cpu = 0xBBBBBBBB"
  shows "\<exists>f r l. timer_ticks i k m = Some (Inr (m\<lparr>kern := (kern m)\<lparr>t_num_slices := f, reschedule := r\<rparr>, lregs := l\<rparr>))"
proof (induction k)
  case 0
  have "m = m\<lparr>kern := (kern m)\<lparr>t_num_slices := t_num_slices (kern m), reschedule := reschedule (kern m)\<rparr>, lregs := lregs m\<rparr>" by simp
  then show ?case by (metis timer_ticks.simps(1))
next
  case (Suc k)
  then obtain f r l where k: "timer_ticks i k m = Some (Inr (m\<lparr>kern := (kern m)\<lparr>t_num_slices := f, reschedule := r\<rparr>, lregs := l\<rparr>))" by blast
  define m1 where "m1 = m\<lparr>kern := (kern m)\<lparr>t_num_slices := f, reschedule := r\<rparr>, lregs := l\<rparr>"
  have "timer_ready i m1" "int_depth m1 (this_cpu (kern m1)) \<noteq> 0"
    using assms by (simp_all add: timer_ready_def m1_def current_def this_cpu_def)
  from timer_nested [OF this] obtain f' r' l' where
    "isr_global_handler i m1 = Some (Inr (m1\<lparr>kern := (kern m1)\<lparr>t_num_slices := f', reschedule := r'\<rparr>, lregs := l'\<rparr>))" by blast
  moreover have "m1\<lparr>kern := (kern m1)\<lparr>t_num_slices := f', reschedule := r'\<rparr>, lregs := l'\<rparr> =
      m\<lparr>kern := (kern m)\<lparr>t_num_slices := f', reschedule := r'\<rparr>, lregs := l'\<rparr>" by (simp add: m1_def)
  ultimately show ?case using k by (auto simp: m1_def [symmetric])
qed

theorem ap_timer_never_preempts_witness:
  "\<exists>f r l. timer_ticks ex_interrupt 100 (ex_machine\<lparr>int_depth := (\<lambda>c. 0xBBBBBBBB)\<rparr>) =
     Some (Inr (ex_machine\<lparr>int_depth := (\<lambda>c. 0xBBBBBBBB), kern := (kern ex_machine)\<lparr>t_num_slices := f, reschedule := r\<rparr>, lregs := l\<rparr>))"
proof -
  have k: "this_cpu (kern ex_machine) = 0" "current (kern ex_machine) = 128"
    by (simp_all add: ex_machine_def ex_kernel_def this_cpu_def current_def answering_def two_cpus_def ex_vm_def)
  have "timer_ready ex_interrupt (ex_machine\<lparr>int_depth := (\<lambda>c. 0xBBBBBBBB)\<rparr>)"
    by (simp add: timer_ready_def k) (simp add: ex_machine_def ex_interrupt_def int_no_def vector_defs ex_kernel_def)
  moreover have "pc_int_depth ((ex_heap 0 0)\<lparr>heap_words := (\<lambda>_. 0xBBBBBBBBBBBBBBBB)\<rparr>) 0 = 0xBBBBBBBB"
    by (simp add: pc_int_depth_def)
  ultimately show ?thesis using ap_timer_never_preempts [where k = 100] by fastforce
qed

section \<open>Starting the processors\<close>

text \<open>What the first processor writes to its controller to signal another one.\<close>

definition signal :: "u8 \<Rightarrow> u32 \<Rightarrow> (u32 \<times> u32) list" where
  "signal target flags = [(0x310, push_bit 24 (ucast target)), (0x300, flags)]"

definition started :: "ap_answer \<Rightarrow> bool" where
  "started a \<longleftrightarrow> started_first a \<or> started_second a"

definition boot_writes :: "ap_answer \<Rightarrow> u8 \<Rightarrow> (u32 \<times> u32) list" where
  "boot_writes a target = signal target 0x4500 @ signal target 0x4601 @ (if started_first a then [] else signal target 0x4601)"

definition boot_list :: "ap_answer \<Rightarrow> nat \<Rightarrow> lapic_info list \<Rightarrow> lapic_info list" where
  "boot_list a i ls = (if started a then ls else ls[i := (ls ! i)\<lparr>li_present := 0\<rparr>])"

lemma send_ipi_ok:
  assumes "send_ipi target flags s = Inr s'" and "flags AND IPI_BROADCAST = 0"
  shows "l_writes (smp_regs s') = l_writes (smp_regs s) @ signal target flags" "smp_apic s' = smp_apic s" "smp_ap_stack s' = smp_ap_stack s"
  using assms
  by (auto simp: send_ipi_def lapic_send_ipi_def lapic_write_def signal_def APIC_REG_ICR1_def APIC_REG_ICR0_def obind_Inr Let_def
    split: prod.splits if_splits)

lemma sleep_ms_ok:
  assumes "sleep_ms ms s = Some s'"
  shows "smp_regs s' = smp_regs s" "smp_apic s' = smp_apic s" "smp_ap_stack s' = smp_ap_stack s"
  using assms by (auto simp: sleep_ms_def)

lemma ap_stack_ready_ok:
  assumes "ap_stack_ready s = Inr s'"
  shows "smp_regs s' = smp_regs s" "smp_apic s' = smp_apic s"
  using assms by (auto simp: ap_stack_ready_def obind_Inr split: if_splits)

lemma start_flags: "IPI_INIT AND IPI_BROADCAST = 0" "START_UP AND IPI_BROADCAST = 0" "START_UP = 0x4601"
  by (simp_all add: IPI_INIT_def IPI_BROADCAST_def START_UP_def IPI_START_UP_def TRAMPOLINE_START_def PAGE_SIZE_def)

lemma boot_ap_ok:
  assumes "smp_boot_ap ans i s = Some (Inr s')"
  shows "l_writes (smp_regs s') = l_writes (smp_regs s) @ boot_writes ans (li_id (lapic_list (smp_apic s) ! i)) \<and>
    lapic_list (smp_apic s') = boot_list ans i (lapic_list (smp_apic s)) \<and> (started ans \<longrightarrow> smp_ap_stack s' = 0)"
proof -
  let ?t = "li_id (lapic_list (smp_apic s) ! i)"
  obtain s1 s2 s3 s4 s5 where s: "ap_stack_ready s = Inr s1" "send_ipi ?t IPI_INIT s1 = Inr s2" "sleep_ms 10 s2 = Some s3"
      "send_ipi ?t START_UP s3 = Inr s4" "sleep_ms 5 s4 = Some s5"
    and r: "(if started_first ans then Some (Inr (s5\<lparr>smp_ap_stack := 0\<rparr>))
      else rbind (Some (send_ipi ?t START_UP s5)) (\<lambda>s.
        rbind (waits (pit_sleep_watch_flag 10 (watched ans) False (smp_pit s))) (\<lambda>t.
        let s = s\<lparr>smp_pit := t\<rparr> in
        if started_second ans then Some (Inr (s\<lparr>smp_ap_stack := 0\<rparr>))
        else let ls = lapic_list (smp_apic s) in
          Some (Inr (s\<lparr>smp_apic := (smp_apic s)\<lparr>lapic_list := ls[i := (ls ! i)\<lparr>li_present := 0\<rparr>]\<rparr>\<rparr>))))) = Some (Inr s')"
    using assms by (auto simp: smp_boot_ap_def rbind_Inr waits_def Let_def split del: if_split)
  note w = ap_stack_ready_ok [OF s(1)] send_ipi_ok [OF s(2) start_flags(1)] sleep_ms_ok [OF s(3)]
    send_ipi_ok [OF s(4) start_flags(2)] sleep_ms_ok [OF s(5)]
  have five: "l_writes (smp_regs s5) = l_writes (smp_regs s) @ signal ?t 0x4500 @ signal ?t 0x4601" "smp_apic s5 = smp_apic s"
    using w start_flags(3) by (simp_all add: IPI_INIT_def)
  show ?thesis
  proof (cases "started_first ans")
    case True
    then show ?thesis using r five by (auto simp: boot_writes_def boot_list_def started_def)
  next
    case False
    then obtain s6 where s6: "send_ipi ?t START_UP s5 = Inr s6" using r by (auto simp: rbind_Inr)
    note w6 = send_ipi_ok [OF s6 start_flags(2)]
    have six: "l_writes (smp_regs s6) = l_writes (smp_regs s) @ boot_writes ans ?t" "smp_apic s6 = smp_apic s"
      using w6 five False by (simp_all add: boot_writes_def start_flags(3))
    show ?thesis
      by (cases "started_second ans"; insert r False six s6; clarsimp simp: boot_list_def started_def rbind_Inr waits_def Let_def)
  qed
qed

lemma boot_list_same:
  "length (boot_list a i ls) = length ls" "li_id (boot_list a i ls ! j) = li_id (ls ! j)"
  by (simp add: boot_list_def) (cases "i < length ls"; cases "j = i"; simp add: boot_list_def list_update_beyond)

lemma boot_aps_ok:
  assumes "boot_aps ans is s = Some (Inr s')"
  shows "l_writes (smp_regs s') = l_writes (smp_regs s) @ concat (map (\<lambda>i. boot_writes (ans i) (li_id (lapic_list (smp_apic s) ! i))) is) \<and>
    length (lapic_list (smp_apic s')) = length (lapic_list (smp_apic s)) \<and>
    ((\<forall>i \<in> set is. started (ans i)) \<longrightarrow> lapic_list (smp_apic s') = lapic_list (smp_apic s))"
  using assms
proof (induction "is" arbitrary: s)
  case (Cons i "is")
  then obtain s1 where s1: "smp_boot_ap (ans i) i s = Some (Inr s1)" "boot_aps ans is s1 = Some (Inr s')"
    by (auto simp: rbind_Inr)
  note b = boot_ap_ok [OF s1(1)]
  then have "lapic_list (smp_apic s1) = boot_list (ans i) i (lapic_list (smp_apic s))" by blast
  then show ?case using Cons.IH [OF s1(2)] b boot_list_same by (auto simp: boot_list_def)
qed simp

lemma each_page_keeps:
  assumes "each_page f is s = Some (Inr s')"
    and f: "\<And>i s s'. f i s = Some (Inr s') \<Longrightarrow> smp_regs s' = smp_regs s \<and> smp_apic s' = smp_apic s"
  shows "smp_regs s' = smp_regs s \<and> smp_apic s' = smp_apic s"
  using assms(1)
proof (induction "is" arbitrary: s)
  case (Cons i "is")
  then obtain s1 where "f i s = Some (Inr s1)" "each_page f is s1 = Some (Inr s')" by (auto simp: rbind_Inr)
  then show ?case using Cons.IH f by metis
qed simp

lemma trampoline_keeps:
  "trampoline_page v i s = Some (Inr s') \<Longrightarrow> smp_regs s' = smp_regs s \<and> smp_apic s' = smp_apic s"
  "unmap_trampoline_page i s = Some (Inr s') \<Longrightarrow> smp_regs s' = smp_regs s \<and> smp_apic s' = smp_apic s"
  by (auto simp: trampoline_page_def unmap_trampoline_page_def rbind_Inr Let_def)

lemma free_ap_stack_keeps:
  "free_ap_stack s = Inr s' \<Longrightarrow> smp_regs s' = smp_regs s \<and> smp_apic s' = smp_apic s"
  by (auto simp: free_ap_stack_def obind_Inr split: if_splits)

lemma smp_init_ok:
  assumes "smp_init ans counted ready vstart vend s = Some (Inr s')"
  defines "ls \<equiv> lapic_list (smp_apic s)"
  shows "length ls \<le> ready \<and> nr_cpus (smp_vm s') = ready \<and>
    l_writes (smp_regs s') = l_writes (smp_regs s) @ concat (map (\<lambda>i. boot_writes (ans i) (li_id (ls ! i))) [1 ..< length ls]) \<and>
    ((\<forall>i \<in> {1 ..< length ls}. started (ans i)) \<longrightarrow> lapic_list (smp_apic s') = ls)"
proof -
  let ?offs = "page_offsets (vend - vstart)"
  obtain s1 s2 s3 s4 where s: "each_page (trampoline_page vstart) ?offs (set_nr_cpus (nr_cpus (smp_vm s) + 1) s) = Some (Inr s1)"
      "boot_aps ans [1 ..< length (lapic_list (smp_apic s1))] s1 = Some (Inr s2)"
      "each_page unmap_trampoline_page ?offs (set_nr_cpus counted s2) = Some (Inr s3)"
      "free_ap_stack s3 = Inr s4" "length (lapic_list (smp_apic s4)) \<le> ready" "s' = set_nr_cpus ready s4"
    using assms(1) by (auto simp: smp_init_def rbind_Inr Let_def split: if_splits)
  have "smp_regs s1 = smp_regs s" "smp_apic s1 = smp_apic s"
    using each_page_keeps [OF s(1) trampoline_keeps(1)] by (simp_all add: set_nr_cpus_def)
  moreover have "smp_regs s4 = smp_regs s2" "smp_apic s4 = smp_apic s2"
    using each_page_keeps [OF s(3) trampoline_keeps(2)] free_ap_stack_keeps [OF s(4)] by (simp_all add: set_nr_cpus_def)
  ultimately show ?thesis using boot_aps_ok [OF s(2)] s(5,6) by (simp add: set_nr_cpus_def ls_def)
qed

text \<open>
  C27. The start of the other processors.  When \<^verbatim>\<open>smp_init\<close> returns, and a processor counts itself only if it was
  started, then every processor of the list was started and has counted itself, none was marked as
  absent, and what the first processor wrote to its controller is, for one processor after the
  other, the initialisation signal and the start signal for page 1, the latter twice where the
  first one had no effect.  In other words the function waits for ever as soon as one
  processor of the list does not start, although \<^verbatim>\<open>smp_boot_ap\<close> handles that case by marking it as absent.
\<close>

theorem smp_init_waits_for_all:
  assumes "smp_init ans counted ready vstart vend s = Some (Inr s')"
    and "ready \<le> 1 + card {i \<in> {1 ..< length (lapic_list (smp_apic s))}. started (ans i)}"
  shows "let ls = lapic_list (smp_apic s) in
    (\<forall>i \<in> {1 ..< length ls}. started (ans i)) \<and> lapic_list (smp_apic s') = ls \<and>
    length ls \<le> nr_cpus (smp_vm s') \<and>
    l_writes (smp_regs s') = l_writes (smp_regs s) @ concat (map (\<lambda>i. boot_writes (ans i) (li_id (ls ! i))) [1 ..< length ls])"
proof -
  let ?n = "length (lapic_list (smp_apic s))"
  let ?A = "{i \<in> {1 ..< ?n}. started (ans i)}"
  note ok = smp_init_ok [OF assms(1)]
  have "card {1 ..< ?n} \<le> card ?A" using ok assms(2) by auto
  then have "?A = {1 ..< ?n}" by (intro card_seteq) auto
  then have "\<forall>i \<in> {1 ..< ?n}. started (ans i)" by blast
  then show ?thesis using ok by (simp add: Let_def)
qed

definition ex_ports :: "u8 list \<Rightarrow> (u16 \<times> u8) list \<Rightarrow> io" where
  "ex_ports bs ws = \<lparr>io.answers = (\<lambda>p. if p = 0x40 then bs else []), port_log = ws\<rparr>"

definition ex_smp :: smp where
  "ex_smp = \<lparr>smp_vm = \<lparr>frames = (\<lambda>f i. 0), heap = ex_heap 0x1000 255,
       boot_mmap = \<lparr>highest_mapped = 0, available = [], reserved = []\<rparr>,
       mmus = (\<lambda>m. \<lparr>p4 = Some 1, users = 1, cpus = 0, areas = []\<rparr>),
       nr_cpus = 0, self_id = 0, tlb = (\<lambda>c. {}), cr3 = (\<lambda>c. Some 1), tlb_remaining_cpus = 0,
       vectors = (\<lambda>v. \<lparr>isr_type = ISR_IRQ, handler = None\<rparr>)\<rparr>,
     smp_apic = \<lparr>lapic_list = map (\<lambda>i. \<lparr>li_id = i, li_acpi_id = i, li_present = 1, li_ticks_per_10ms = 0\<rparr>) [0, 2],
       ioapic_list = [], override_list = [], nmi_list = [], lapic_base = 0xFEE00000\<rparr>,
     smp_regs = \<lparr>l_reads = (\<lambda>_. 0), l_writes = []\<rparr>,
     smp_pit = (0, 0, ex_ports [0x80, 0x80] []), smp_ap_stack = 0x5000, smp_memory = (\<lambda>_. 0)\<rparr>"

lemma ex_pit_loop:
  assumes "t \<le> 0xFFFF"
  shows "\<exists>ws'. pit_loop t (ex_ports (0x80 # bs) ws) = Some (ex_ports bs ws')"
proof -
  have w: "\<exists>ws'. pit_wait (ex_ports (0x80 # bs) ws) = Some (ex_ports bs ws')" for ws
    by (subst pit_wait.simps) (auto simp: inb_def out_port_def ex_ports_def fun_upd_def intro!: ext)
  have o: "out_ports vs (ex_ports (0x80 # bs) ws) = ex_ports (0x80 # bs) (ws @ vs)" for vs
    by (induction vs rule: rev_induct) (auto simp: out_ports_def out_port_def ex_ports_def)
  have "ucast (ucast t :: u16) = t"
    using assms by (intro unsigned_word_eqI [where ?'a = nat]) (simp add: unsigned_ucast_eq unsigned_take_bit_eq take_bit_nat_eq_self word_le_nat_alt)
  then show ?thesis using w assms by (subst pit_loop.simps) (simp add: o min_def Let_def)
qed

lemma ex_sleep_ms:
  assumes "smp_pit s = (0, p, ex_ports (0x80 # bs) ws)" and "PIT_TICKS_PER_MS * ms \<le> 0xFFFF"
  shows "\<exists>ws'. sleep_ms ms s = Some (s\<lparr>smp_pit := (0, p, ex_ports bs ws')\<rparr>)"
proof -
  have "spin_lock 0 p = Some (1, p + 1)" by (simp add: spin_lock_def spin_run.simps preempt_inc_def)
  then show ?thesis using assms(1) ex_pit_loop [OF assms(2), of bs ws]
    by (auto simp: sleep_ms_def pit_sleep_ms_def spin_unlock_def preempt_dec_def)
qed

theorem smp_init_waits_for_all_witness:
  "\<exists>s'. smp_init (\<lambda>i. \<lparr>started_first = True, watched = [], started_second = False\<rparr>) 1 2 0x8000 0x8000 ex_smp = Some (Inr s') \<and>
     l_writes (smp_regs s') = [(0x310, 0x2000000), (0x300, 0x4500), (0x310, 0x2000000), (0x300, 0x4601)]"
proof -
  let ?a = "\<lambda>i :: nat. \<lparr>started_first = True, watched = [], started_second = False\<rparr>"
  define s0 where "s0 = set_nr_cpus 1 ex_smp"
  have ipi: "send_ipi 2 f s = Inr (s\<lparr>smp_regs := (smp_regs s)\<lparr>l_writes := l_writes (smp_regs s) @ signal 2 f\<rparr>\<rparr>)"
    if "lapic_base (smp_apic s) \<noteq> 0" "f AND IPI_BROADCAST = 0" for f s
    using that by (cases "smp_pit s") (simp add: send_ipi_def lapic_send_ipi_def lapic_write_def signal_def APIC_REG_ICR1_def
      APIC_REG_ICR0_def preempt_inc_def preempt_dec_def Let_def)
  have t: "PIT_TICKS_PER_MS * 10 \<le> 0xFFFF" "PIT_TICKS_PER_MS * 5 \<le> 0xFFFF" by (simp_all add: PIT_TICKS_PER_MS_def)
  define s2 where "s2 = s0\<lparr>smp_regs := (smp_regs s0)\<lparr>l_writes := l_writes (smp_regs s0) @ signal 2 IPI_INIT\<rparr>\<rparr>"
  have "smp_pit s2 = (0, 0, ex_ports [0x80, 0x80] [])" by (simp add: s2_def s0_def set_nr_cpus_def ex_smp_def)
  then obtain ws where s3: "sleep_ms 10 s2 = Some (s2\<lparr>smp_pit := (0, 0, ex_ports [0x80] ws)\<rparr>)" using ex_sleep_ms t(1) by blast
  define s4 where "s4 = s2\<lparr>smp_pit := (0, 0, ex_ports [0x80] ws), smp_regs := (smp_regs s2)\<lparr>l_writes := l_writes (smp_regs s2) @ signal 2 START_UP\<rparr>\<rparr>"
  have "smp_pit s4 = (0, 0, ex_ports [0x80] ws)" by (simp add: s4_def)
  then obtain ws' where s5: "sleep_ms 5 s4 = Some (s4\<lparr>smp_pit := (0, 0, ex_ports [] ws')\<rparr>)" using ex_sleep_ms t(2) by blast
  have "smp_boot_ap (?a 1) 1 s0 = Some (Inr (s4\<lparr>smp_pit := (0, 0, ex_ports [] ws'), smp_ap_stack := 0\<rparr>))"
  proof -
    have a: "ap_stack_ready s0 = Inr s0" "li_id (lapic_list (smp_apic s0) ! 1) = 2"
      by (simp_all add: ap_stack_ready_def s0_def set_nr_cpus_def ex_smp_def)
    have b: "send_ipi 2 IPI_INIT s0 = Inr s2" "send_ipi 2 START_UP (s2\<lparr>smp_pit := (0, 0, ex_ports [0x80] ws)\<rparr>) = Inr s4"
      by (simp_all add: ipi start_flags(1,2) s0_def s2_def s4_def set_nr_cpus_def ex_smp_def)
    show ?thesis using a(2) by (simp add: smp_boot_ap_def Let_def a(1) b s3 s5 waits_def)
  qed
  then have "\<exists>s'. smp_init ?a 1 2 0x8000 0x8000 ex_smp = Some (Inr s')"
    by (simp add: smp_init_def page_offsets_def s0_def s2_def s4_def set_nr_cpus_def ex_smp_def free_ap_stack_def Let_def)
  moreover have "(2 :: nat) \<le> 1 + card {i \<in> {1 ..< length (lapic_list (smp_apic ex_smp))}. started (?a i)}"
    by (simp add: ex_smp_def started_def)
  ultimately show ?thesis
    using smp_init_waits_for_all [of ?a 1 2 "0x8000" "0x8000" ex_smp]
    by (fastforce simp: Let_def ex_smp_def boot_writes_def signal_def)
qed

end
