(* ===== verification/Smbios.thy ===== *)
theory Smbios
  imports Acpi_Correct
begin

text \<open>
  The system management tables of \<^verbatim>\<open>kernel/drivers/smbios/smbios.c\<close>: the search for the entry point
  and, for the verbose build, the walk over the structures and their strings.  As for the ACPI
  tables, memory is bytes by address in the linear map and a structure is its first address;
  what is printed is left out.  The first part holds the definitions, the second what they
  compute.
\<close>

section \<open>Fields\<close>

definition SMBIOS_PHYS_START :: u64 where "SMBIOS_PHYS_START = 0xF0000"
definition SMBIOS_PHYS_END :: u64 where "SMBIOS_PHYS_END = 0xFFFFF"
definition SMBIOS3_ANCHOR :: "u8 list" where "SMBIOS3_ANCHOR = chars ''_SM3_''"
definition SMBIOS2_ANCHOR :: "u8 list" where "SMBIOS2_ANCHOR = chars ''_SM_''"
definition SMBIOS_TYPE_PROCESSOR :: u8 where "SMBIOS_TYPE_PROCESSOR = 4"
definition SMBIOS_TYPE_END :: u8 where "SMBIOS_TYPE_END = 127"

text \<open>\<^verbatim>\<open>struct smbios2_entry\<close>, of 31 bytes\<close>

definition e2_ep_length :: "byte_mem \<Rightarrow> u64 \<Rightarrow> u8" where "e2_ep_length m e = m (e + 5)"
definition e2_ver_major :: "byte_mem \<Rightarrow> u64 \<Rightarrow> u8" where "e2_ver_major m e = m (e + 6)"
definition e2_ver_minor :: "byte_mem \<Rightarrow> u64 \<Rightarrow> u8" where "e2_ver_minor m e = m (e + 7)"
definition e2_ep_revision :: "byte_mem \<Rightarrow> u64 \<Rightarrow> u8" where "e2_ep_revision m e = m (e + 10)"
definition e2_struct_table_addr :: "byte_mem \<Rightarrow> u64 \<Rightarrow> u32" where "e2_struct_table_addr m e = read_u32 m (e + 24)"
definition e2_nstructs :: "byte_mem \<Rightarrow> u64 \<Rightarrow> u16" where "e2_nstructs m e = read_u16 m (e + 28)"

text \<open>\<^verbatim>\<open>struct smbios3_entry\<close>\<close>

definition e3_ep_length :: "byte_mem \<Rightarrow> u64 \<Rightarrow> u8" where "e3_ep_length m e = m (e + 6)"
definition e3_ver_major :: "byte_mem \<Rightarrow> u64 \<Rightarrow> u8" where "e3_ver_major m e = m (e + 7)"
definition e3_ver_minor :: "byte_mem \<Rightarrow> u64 \<Rightarrow> u8" where "e3_ver_minor m e = m (e + 8)"
definition e3_reserved :: "byte_mem \<Rightarrow> u64 \<Rightarrow> u8" where "e3_reserved m e = m (e + 11)"
definition e3_struct_table_addr :: "byte_mem \<Rightarrow> u64 \<Rightarrow> u64" where "e3_struct_table_addr m e = read_u64 m (e + 16)"

text \<open>\<^verbatim>\<open>struct smbios_header\<close> and the one field of \<^verbatim>\<open>struct smbios_processor\<close> that is not only printed\<close>

definition sm_type :: "byte_mem \<Rightarrow> u64 \<Rightarrow> u8" where "sm_type m h = m h"
definition sm_length :: "byte_mem \<Rightarrow> u64 \<Rightarrow> u8" where "sm_length m h = m (h + 1)"
definition processor_manufacturer :: "byte_mem \<Rightarrow> u64 \<Rightarrow> u8" where "processor_manufacturer m h = m (h + 7)"

record smbios_info =
  sm_entry :: u64
  sm_major :: u8
  sm_minor :: u8

section \<open>The entry point\<close>

definition smbios_checksum :: "byte_mem \<Rightarrow> u64 \<Rightarrow> nat \<Rightarrow> bool" where
  "smbios_checksum m p len \<longleftrightarrow> calc_checksum_from m p len 0 = 0"

text \<open>One address of the search: \<open>None\<close> is the step to the next one.\<close>

definition smbios_at :: "byte_mem \<Rightarrow> u64 \<Rightarrow> smbios_info outcome option" where
  "smbios_at m v =
     (if matches m v SMBIOS3_ANCHOR then
        if \<not> smbios_checksum m v (unat (e3_ep_length m v)) then None
        else Some (if e3_reserved m v \<noteq> 0 then Inl Panic
                   else Inr \<lparr>sm_entry = v, sm_major = e3_ver_major m v, sm_minor = e3_ver_minor m v\<rparr>)
      else if matches m v SMBIOS2_ANCHOR then
        if \<not> smbios_checksum m v (unat (e2_ep_length m v)) then None
        else if \<not> smbios_checksum m (v + 16) (31 - 16) then None
        else Some (if e2_ep_revision m v = 0 \<and> \<not> matches m (v + 11) [0, 0, 0, 0, 0] then Inl Panic
                   else Inr \<lparr>sm_entry = v, sm_major = e2_ver_major m v, sm_minor = e2_ver_minor m v\<rparr>)
      else None)"

function find_smbios_from :: "byte_mem \<Rightarrow> u64 \<Rightarrow> smbios_info outcome" where
  "find_smbios_from m addr =
     (if addr < SMBIOS_PHYS_END
      then case smbios_at m (phys_to_virt addr) of Some r \<Rightarrow> r | None \<Rightarrow> find_smbios_from m (addr + 16)
      else Inr \<lparr>sm_entry = 0, sm_major = 0, sm_minor = 0\<rparr>)"
  by pat_completeness auto
termination
  by (relation "measure (\<lambda>(m, addr). 0xFFFFF - unat addr)")
    (auto simp: SMBIOS_PHYS_END_def word_less_nat_alt unat_word_ariths)

declare find_smbios_from.simps [simp del]

definition find_smbios :: "byte_mem \<Rightarrow> smbios_info outcome" where
  "find_smbios m = find_smbios_from m SMBIOS_PHYS_START"

section \<open>The structures\<close>

text \<open>The inner loop of \<^verbatim>\<open>table_get_str\<close>: past the next terminator.\<close>

partial_function (option) skip_str :: "byte_mem \<Rightarrow> u64 \<Rightarrow> u64 option" where
  "skip_str m p = (if m p \<noteq> 0 then skip_str m (p + 1) else Some (p + 1))"

fun skip_strs :: "byte_mem \<Rightarrow> u64 \<Rightarrow> nat \<Rightarrow> u64 option" where
  "skip_strs m p 0 = Some p"
| "skip_strs m p (Suc n) = Option.bind (skip_str m p) (\<lambda>q. skip_strs m q n)"

definition table_get_str :: "byte_mem \<Rightarrow> u64 \<Rightarrow> nat \<Rightarrow> u64 option" where
  "table_get_str m h index =
     (if index = 0 then Some 0 else skip_strs m (h + ucast (sm_length m h)) (index - 1))"

partial_function (option) strtab_end :: "byte_mem \<Rightarrow> u64 \<Rightarrow> nat \<Rightarrow> nat option" where
  "strtab_end m strtab i =
     (if m (strtab + of_nat (i - 1)) \<noteq> 0 \<or> m (strtab + of_nat i) \<noteq> 0 then strtab_end m strtab (Suc i) else Some i)"

partial_function (option) walk_structs :: "byte_mem \<Rightarrow> u64 \<Rightarrow> nat \<Rightarrow> nat option" where
  "walk_structs m cur num =
     (if sm_type m cur = SMBIOS_TYPE_END then Some num
      else Option.bind (if sm_type m cur = SMBIOS_TYPE_PROCESSOR
                        then table_get_str m cur (unat (processor_manufacturer m cur)) else Some 0) (\<lambda>_.
           Option.bind (strtab_end m (cur + ucast (sm_length m cur)) 1) (\<lambda>i.
           walk_structs m (cur + (ucast (sm_length m cur) + of_nat i + 1)) (Suc num))))"

definition dump_smbios_tables :: "bool \<Rightarrow> byte_mem \<Rightarrow> u64 \<Rightarrow> nat \<Rightarrow> unit outcome option" where
  "dump_smbios_tables verbose m start nstructs =
     (if verbose then
        if start = 0 then Some (Inl Null_access)
        else if \<not> (sm_type m start = SMBIOS_TYPE_END \<or> sm_type m start \<le> 32) then Some (Inl Panic)
        else rbind (waits (walk_structs m start 0)) (\<lambda>num.
          Some (if nstructs = 0 \<or> num + 1 = nstructs then Inr () else Inl Panic))
      else Some (Inr ()))"

definition dump_smbios_info :: "bool \<Rightarrow> byte_mem \<Rightarrow> smbios_info \<Rightarrow> unit outcome option" where
  "dump_smbios_info verbose m info =
     (if sm_major info = 3 then dump_smbios_tables verbose m (phys_to_virt (e3_struct_table_addr m (sm_entry info))) 0
      else if sm_major info = 2 then
        dump_smbios_tables verbose m (phys_to_virt (ucast (e2_struct_table_addr m (sm_entry info)))) (unat (e2_nstructs m (sm_entry info)))
      else Some (Inr ()))"

definition smbios_init :: "bool \<Rightarrow> byte_mem \<Rightarrow> smbios_info outcome option" where
  "smbios_init verbose m =
     rbind (Some (find_smbios m)) (\<lambda>info.
       if sm_major info \<noteq> 2 \<and> sm_major info \<noteq> 3 then Some (Inl Panic)
       else rbind (dump_smbios_info verbose m info) (\<lambda>_. Some (Inr info)))"

section \<open>The first valid entry point\<close>

definition smbios_slot :: "nat \<Rightarrow> u64" where
  "smbios_slot k = phys_to_virt (0xF0000 + 16 * of_nat k)"

lemma find_smbios_from_slot:
  assumes "k \<le> 0x1000"
  shows "find_smbios_from m (0xF0000 + 16 * of_nat k) =
    (case find (\<lambda>k. smbios_at m (smbios_slot k) \<noteq> None) [k ..< 0x1000] of
       None \<Rightarrow> Inr \<lparr>sm_entry = 0, sm_major = 0, sm_minor = 0\<rparr> | Some k \<Rightarrow> the (smbios_at m (smbios_slot k)))"
  using assms
proof (induction "0x1000 - k" arbitrary: k)
  case 0
  then have "k = 0x1000" by simp
  then show ?case by (subst find_smbios_from.simps) (simp add: SMBIOS_PHYS_END_def)
next
  case (Suc d)
  then have k: "k < 0x1000" by simp
  have "unat (0xF0000 + 16 * of_nat k :: u64) = 0xF0000 + 16 * k"
    using k by (simp add: unat_word_ariths unat_of_nat)
  then have "(0xF0000 + 16 * of_nat k :: u64) < SMBIOS_PHYS_END"
    using k by (simp add: word_less_nat_alt SMBIOS_PHYS_END_def)
  moreover have "0xF0000 + 16 * of_nat k + 16 = (0xF0000 + 16 * of_nat (Suc k) :: u64)" by simp
  ultimately have "find_smbios_from m (0xF0000 + 16 * of_nat k) =
      (case smbios_at m (smbios_slot k) of Some r \<Rightarrow> r | None \<Rightarrow> find_smbios_from m (0xF0000 + 16 * of_nat (Suc k)))"
    by (subst find_smbios_from.simps) (simp only: smbios_slot_def if_True)
  moreover have "[k ..< 0x1000] = k # [Suc k ..< 0x1000]" using k by (simp only: upt_conv_Cons)
  moreover note Suc.hyps(1) [of "Suc k"]
  ultimately show ?case using Suc.hyps(2) k
    by (cases "smbios_at m (smbios_slot k)") (simp_all del: of_nat_Suc upt_rec_numeral)
qed

text \<open>The two kinds of entry points, by their bytes.\<close>

definition valid3 :: "byte_mem \<Rightarrow> u64 \<Rightarrow> bool" where
  "valid3 m v \<longleftrightarrow> (\<forall>i < 5. m (v + of_nat i) = of_char (''_SM3_'' ! i)) \<and> 256 dvd byte_sum m v (unat (m (v + 6)))"

definition valid2 :: "byte_mem \<Rightarrow> u64 \<Rightarrow> bool" where
  "valid2 m v \<longleftrightarrow> (\<forall>i < 4. m (v + of_nat i) = of_char (''_SM_'' ! i)) \<and> 256 dvd byte_sum m v (unat (m (v + 5))) \<and>
     256 dvd byte_sum m (v + 16) 15"

lemma matches_chars: "matches m v (chars s) \<longleftrightarrow> (\<forall>i < length s. m (v + of_nat i) = of_char (s ! i))"
  by (simp add: matches_nth chars_def)

lemma valid_anchors: "valid3 m v \<Longrightarrow> \<not> valid2 m v"
  unfolding valid3_def valid2_def by (auto dest!: spec [of _ 3])

lemma smbios_at_valid:
  "smbios_at m v =
     (if valid3 m v then Some (if m (v + 11) \<noteq> 0 then Inl Panic
        else Inr \<lparr>sm_entry = v, sm_major = m (v + 7), sm_minor = m (v + 8)\<rparr>)
      else if valid2 m v then Some (if m (v + 10) = 0 \<and> (\<exists>i < 5. m (v + 11 + of_nat i) \<noteq> 0) then Inl Panic
        else Inr \<lparr>sm_entry = v, sm_major = m (v + 6), sm_minor = m (v + 7)\<rparr>)
      else None)"
proof -
  have c: "smbios_checksum m p n \<longleftrightarrow> 256 dvd byte_sum m p n" for p n
    using calc_checksum_zero by (simp add: smbios_checksum_def calc_checksum_def)
  have z: "matches m p [0, 0, 0, 0, 0] \<longleftrightarrow> (\<forall>i < 5. m (p + of_nat i) = 0)" for p
    unfolding matches_nth by (simp add: nth_Cons' numeral_eq_Suc All_less_Suc)
  have d: "\<not> matches m v (chars ''_SM_'')" if "matches m v (chars ''_SM3_'')" using that by (auto simp: chars_def)
  have a: "valid3 m v \<longleftrightarrow> matches m v (chars ''_SM3_'') \<and> smbios_checksum m v (unat (m (v + 6)))"
    "valid2 m v \<longleftrightarrow> matches m v (chars ''_SM_'') \<and> smbios_checksum m v (unat (m (v + 5))) \<and> smbios_checksum m (v + 16) 15"
    unfolding matches_chars c valid3_def valid2_def by (simp_all add: eval_nat_numeral)
  show ?thesis unfolding smbios_at_def SMBIOS3_ANCHOR_def SMBIOS2_ANCHOR_def a z
    using d by (auto simp: e3_ep_length_def e3_reserved_def e3_ver_major_def e3_ver_minor_def
      e2_ep_length_def e2_ep_revision_def e2_ver_major_def e2_ver_minor_def)
qed

text \<open>
  smbios_init finds the firmware's system management entry point or panics.  It looks at the
  4096 addresses from 0xF0000 to 0xFFFF0 that are multiples of 16 and takes the first that
  holds a valid entry point: the 64-bit anchor with a byte sum that is a multiple of 256, or
  the 32-bit anchor with two such sums.  Unless there is one, with major version 2 or 3 and
  zeros where the format demands them, the call panics; otherwise it returns its address and
  version, and in the default build does nothing else.
\<close>

lemma smbios_init_entry:
  "smbios_init False m =
     (case find (\<lambda>k. valid3 m (smbios_slot k) \<or> valid2 m (smbios_slot k)) [0 ..< 0x1000] of
        None \<Rightarrow> Some (Inl Panic)
      | Some k \<Rightarrow>
          let v = smbios_slot k; i = (if valid3 m v then 7 else 6); major = m (v + i); minor = m (v + i + 1) in
          if (major = 2 \<or> major = 3) \<and>
             (if valid3 m v then m (v + 11) = 0 else m (v + 10) \<noteq> 0 \<or> \<not> (\<exists>j < 5. m (v + 11 + of_nat j) \<noteq> 0))
          then Some (Inr \<lparr>sm_entry = v, sm_major = major, sm_minor = minor\<rparr>)
          else Some (Inl Panic))"
proof -
  let ?f = "find (\<lambda>k. valid3 m (smbios_slot k) \<or> valid2 m (smbios_slot k)) [0 ..< 0x1000]"
  have v: "(\<lambda>k. smbios_at m (smbios_slot k) \<noteq> None) = (\<lambda>k. valid3 m (smbios_slot k) \<or> valid2 m (smbios_slot k))"
    by (simp add: smbios_at_valid fun_eq_iff)
  have f: "find_smbios m = (case ?f of
       None \<Rightarrow> Inr \<lparr>sm_entry = 0, sm_major = 0, sm_minor = 0\<rparr> | Some k \<Rightarrow> the (smbios_at m (smbios_slot k)))"
    using find_smbios_from_slot [of 0 m, unfolded v] by (simp add: find_smbios_def SMBIOS_PHYS_START_def del: upt_rec_numeral)
  have dump: "dump_smbios_info False m info = Some (Inr ())" for info by (simp add: dump_smbios_info_def dump_smbios_tables_def)
  show ?thesis
  proof (cases ?f)
    case None
    then show ?thesis using f by (simp add: smbios_init_def del: upt_rec_numeral)
  next
    case (Some k)
    then have k: "valid3 m (smbios_slot k) \<or> valid2 m (smbios_slot k)" by (auto simp: find_Some_iff simp del: upt_rec_numeral)
    show ?thesis using f Some k by (auto simp: smbios_init_def smbios_at_valid dump Let_def add.assoc simp del: upt_rec_numeral)
  qed
qed

section \<open>The walk over the structures\<close>

text \<open>
  The strings behind a structure, by their lengths: each is followed by a null byte and the last
  by one more; without strings there are two null bytes.
\<close>

fun strs_at :: "byte_mem \<Rightarrow> u64 \<Rightarrow> nat list \<Rightarrow> bool" where
  "strs_at m p [] \<longleftrightarrow> m p = 0"
| "strs_at m p (n # ns) \<longleftrightarrow> 0 < n \<and> (\<forall>j < n. m (p + of_nat j) \<noteq> 0) \<and> m (p + of_nat n) = 0 \<and> strs_at m (p + of_nat (n + 1)) ns"

definition strtab_at :: "byte_mem \<Rightarrow> u64 \<Rightarrow> nat list \<Rightarrow> bool" where
  "strtab_at m p ns \<longleftrightarrow> strs_at m p ns \<and> (ns = [] \<longrightarrow> m (p + 1) = 0)"

definition strtab_size :: "nat list \<Rightarrow> nat" where
  "strtab_size ns = (if ns = [] then 2 else sum_list (map Suc ns) + 1)"

fun structs_at :: "byte_mem \<Rightarrow> u64 \<Rightarrow> nat list list \<Rightarrow> bool" where
  "structs_at m p [] \<longleftrightarrow> sm_type m p = SMBIOS_TYPE_END"
| "structs_at m p (ns # ts) \<longleftrightarrow> sm_type m p \<noteq> SMBIOS_TYPE_END \<and> strtab_at m (p + ucast (sm_length m p)) ns \<and>
     (sm_type m p = SMBIOS_TYPE_PROCESSOR \<longrightarrow> unat (processor_manufacturer m p) \<le> Suc (length ns)) \<and>
     structs_at m (p + (ucast (sm_length m p) + of_nat (strtab_size ns))) ts"

lemma skip_str_ok:
  assumes "\<forall>j < n. m (p + of_nat j) \<noteq> 0" and "m (p + of_nat n) = 0"
  shows "skip_str m p = Some (p + of_nat (n + 1))"
  using assms
proof (induction n arbitrary: p)
  case 0
  then show ?case by (simp add: skip_str.simps)
next
  case (Suc n)
  have "\<forall>j < n. m (p + 1 + of_nat j) \<noteq> 0" using Suc.prems(1) by (auto simp: add.assoc dest: spec [of _ "Suc _"])
  then have "skip_str m (p + 1) = Some (p + 1 + of_nat (n + 1))" using Suc.prems(2) by (intro Suc.IH) (simp_all add: add.assoc)
  moreover have "m p \<noteq> 0" using Suc.prems(1) by (auto dest: spec [of _ 0])
  ultimately show ?case by (subst skip_str.simps) (simp add: algebra_simps)
qed

lemma skip_strs_ok: "strs_at m p ns \<Longrightarrow> k \<le> length ns \<Longrightarrow> skip_strs m p k \<noteq> None"
proof (induction ns arbitrary: p k)
  case (Cons n ns)
  then show ?case using skip_str_ok [of n m p] by (cases k) auto
qed simp

lemma strtab_end_skip:
  assumes "\<forall>j < n. m (p + of_nat (i + j)) \<noteq> 0"
  shows "strtab_end m p (Suc i) = strtab_end m p (Suc (i + n))"
  using assms
proof (induction n)
  case (Suc n)
  then have "m (p + of_nat (i + n)) \<noteq> 0" by blast
  then have "strtab_end m p (Suc (i + n)) = strtab_end m p (Suc (Suc (i + n)))" by (subst strtab_end.simps) simp
  then show ?case using Suc by simp
qed simp

lemma strtab_end_strs:
  assumes "strs_at m (p + of_nat i) ns" and "ns \<noteq> []"
  shows "strtab_end m p (Suc i) = Some (i + sum_list (map Suc ns))"
  using assms
proof (induction ns arbitrary: i)
  case (Cons n ns)
  let ?k = "i + n"
  have n: "\<forall>j < n. m (p + of_nat (i + j)) \<noteq> 0" "m (p + of_nat ?k) = 0" "strs_at m (p + of_nat (Suc ?k)) ns"
    using Cons.prems(1) by (simp_all add: add.assoc add.commute add.left_commute)
  note skip = strtab_end_skip [OF n(1)]
  show ?case
  proof (cases "ns = []")
    case True
    then show ?thesis unfolding skip using n(2,3) by (subst strtab_end.simps) simp
  next
    case False
    then have "m (p + of_nat (Suc ?k)) \<noteq> 0" using n(3) by (cases ns) (auto dest: spec [of _ 0])
    then have "strtab_end m p (Suc ?k) = strtab_end m p (Suc (Suc ?k))" by (subst strtab_end.simps) simp
    then show ?thesis unfolding skip using Cons.IH [OF n(3) False] by simp
  qed
qed simp

lemma strtab_end_ok:
  assumes "strtab_at m p ns"
  shows "strtab_end m p 1 = Some (strtab_size ns - 1)"
proof (cases "ns = []")
  case True
  then show ?thesis using assms by (subst strtab_end.simps) (simp add: strtab_at_def strtab_size_def)
next
  case False
  then show ?thesis using strtab_end_strs [of m p 0 ns] assms by (simp add: strtab_at_def strtab_size_def)
qed

lemma walk_structs_ok: "structs_at m p ts \<Longrightarrow> walk_structs m p num = Some (num + length ts)"
proof (induction ts arbitrary: p num)
  case Nil
  then show ?case by (simp add: walk_structs.simps)
next
  case (Cons ns ts)
  let ?q = "p + ucast (sm_length m p)"
  have t: "strtab_at m ?q ns" "structs_at m (p + (ucast (sm_length m p) + of_nat (strtab_size ns))) ts"
    "sm_type m p \<noteq> SMBIOS_TYPE_END" using Cons.prems by simp_all
  have "\<exists>r. (if sm_type m p = SMBIOS_TYPE_PROCESSOR then table_get_str m p (unat (processor_manufacturer m p)) else Some 0) = Some r"
    using Cons.prems skip_strs_ok [of m ?q ns "unat (processor_manufacturer m p) - 1"] t(1)
    by (auto simp: table_get_str_def strtab_at_def)
  moreover have "of_nat (strtab_size ns - 1) + 1 = (of_nat (strtab_size ns) :: u64)" by (simp add: strtab_size_def)
  ultimately show ?case using t(3) strtab_end_ok [OF t(1)] Cons.IH [OF t(2), of "Suc num"]
    by (subst walk_structs.simps) (auto simp: add.assoc)
qed

text \<open>
  In the verbose build the structures of a well-formed table are counted, the one that marks the
  end included, and compared with the number in the entry point, where 0 stands for unknown.
\<close>

lemma dump_smbios_tables_counts:
  assumes "structs_at m start ts" and "start \<noteq> 0" and "sm_type m start = SMBIOS_TYPE_END \<or> sm_type m start \<le> 32"
  shows "dump_smbios_tables True m start n = Some (if n = 0 \<or> n = length ts + 1 then Inr () else Inl Panic)"
  using assms walk_structs_ok [OF assms(1), of 0] by (auto simp: dump_smbios_tables_def)

end
