(* ===== verification/Fs.thy ===== *)
theory Fs
  imports Linked Sync Strings Slob
begin

text \<open>
  The file system of \<^verbatim>\<open>kernel/fs\<close>: the cache of inodes, mounting and lookup, and the initial RAM
  disk with its \<^verbatim>\<open>ustar\<close> archive.  Structures are addressed by the pointers that the heap hands
  out and kept in one map per type, with 0 for \<^verbatim>\<open>NULL\<close>; an inode of the RAM disk is the member
  at offset 8 of its \<^verbatim>\<open>struct initrd_inode\<close>, whose header pointer is a map of its own.  The
  archive and the names are bytes of a memory that is only read.
\<close>

section \<open>Structures\<close>

text \<open>The error numbers of \<^verbatim>\<open>util/err_gen.py\<close>, as values of \<^verbatim>\<open>err_t\<close>.\<close>

definition ENOTDIR :: int where "ENOTDIR = -2"
definition ENOTSUP :: int where "ENOTSUP = -3"
definition EBUSY :: int where "EBUSY = -4"
definition ENOENT :: int where "ENOENT = -5"

definition I_REGULAR :: u32 where "I_REGULAR = 1"
definition I_DIRECTORY :: u32 where "I_DIRECTORY = 2"
definition I_SYMLINK :: u32 where "I_SYMLINK = 3"
definition I_MOUNT :: u32 where "I_MOUNT = 4"

datatype super_operations = Initrd_super_ops
datatype inode_operations = Initrd_inode_dir_ops | Initrd_inode_file_ops

record super_block =
  sb_dev :: u32
  sb_root :: u64
  sb_ops :: "super_operations option"

record inode =
  i_ino :: u64
  i_mode :: u32
  i_rc :: kref
  i_sb :: u64
  i_ops :: "inode_operations option"
  i_mounted :: u64

record initrd_fs =
  fs_super :: super_block
  fs_root_hdr :: u64
  fs_root :: u64

record fs =
  inodes :: "u64 \<Rightarrow> inode"
  inode_nodes :: "u64 dheap"
  inode_hdr :: "u64 \<Rightarrow> u64"
  supers :: "u64 \<Rightarrow> initrd_fs"
  buckets :: "nat \<Rightarrow> u64 option"
  cache_mutex :: mutex
  fs_preempt :: u32
  fs_heap :: slob

definition sizeof_inode :: u64 where "sizeof_inode = 56"
definition sizeof_initrd_inode :: u64 where "sizeof_initrd_inode = 64"
definition sizeof_initrd_fs :: u64 where "sizeof_initrd_fs = 40"

definition zero_inode :: inode where
  "zero_inode = \<lparr>i_ino = 0, i_mode = 0, i_rc = \<lparr>var32 = 0\<rparr>, i_sb = 0, i_ops = None, i_mounted = 0\<rparr>"

definition set_inode :: "u64 \<Rightarrow> inode \<Rightarrow> fs \<Rightarrow> fs" where
  "set_inode p i s = s\<lparr>inodes := (inodes s)(p := i)\<rparr>"

text \<open>\<^verbatim>\<open>memset\<close> of a whole \<^verbatim>\<open>struct inode\<close>.\<close>

definition clear_inode :: "u64 \<Rightarrow> fs \<Rightarrow> fs" where
  "clear_inode p s = (set_inode p zero_inode s)\<lparr>inode_nodes := (inode_nodes s)(p := \<lparr>dnext = None, dprev = None\<rparr>)\<rparr>"

definition dev_of :: "u64 \<Rightarrow> fs \<Rightarrow> u32" where
  "dev_of sb s = sb_dev (fs_super (supers s sb))"

definition ops_of :: "u64 \<Rightarrow> fs \<Rightarrow> super_operations option" where
  "ops_of sb s = sb_ops (fs_super (supers s sb))"

section \<open>The archive\<close>

definition USTAR_BLOCK :: u64 where "USTAR_BLOCK = 512"

fun ustar_oct_to_bin :: "byte_mem \<Rightarrow> u64 \<Rightarrow> nat \<Rightarrow> u32 \<Rightarrow> u32" where
  "ustar_oct_to_bin m c 0 n = n"
| "ustar_oct_to_bin m c (Suc len) n = ustar_oct_to_bin m (c + 1) len (n * 8 + (ucast (m c) - 0x30))"

text \<open>The size field is at offset 124 and has 12 bytes, the type at offset 156.\<close>

definition ustar_size :: "byte_mem \<Rightarrow> u64 \<Rightarrow> u32" where
  "ustar_size m hdr = ustar_oct_to_bin m (hdr + 124) 11 0"

definition ustar_type :: "byte_mem \<Rightarrow> u64 \<Rightarrow> u8" where
  "ustar_type m hdr = m (hdr + 156)"

fun ustar_nth_from_entry :: "byte_mem \<Rightarrow> u64 \<Rightarrow> nat \<Rightarrow> u64 outcome" where
  "ustar_nth_from_entry m cur 0 = Inr cur"
| "ustar_nth_from_entry m cur (Suc n) =
     (if cur = 0 then Inl Null_access
      else if m cur = 0 then Inr 0
      else ustar_nth_from_entry m (ALIGNUP (cur + ucast (ustar_size m cur)) USTAR_BLOCK) n)"

definition ustar_file_start :: "u64 \<Rightarrow> u64" where
  "ustar_file_start hdr = hdr + USTAR_BLOCK"

section \<open>The RAM disk\<close>

definition INITRD_ROOT_INO :: u64 where "INITRD_ROOT_INO = 1"

definition initrd_alloc_inode :: "u64 \<Rightarrow> fs \<Rightarrow> (u64 \<times> fs) outcome option" where
  "initrd_alloc_inode super s =
     rbind (kmalloc (fs_heap s) sizeof_initrd_inode) (\<lambda>(p, h).
       let i = p + 8;
           s = (clear_inode i s)\<lparr>fs_heap := h, inode_hdr := (inode_hdr s)(i := 0)\<rparr>
       in Some (Inr (i, set_inode i ((inodes s i)\<lparr>i_sb := super\<rparr>) s)))"

definition initrd_dealloc_inode :: "u64 \<Rightarrow> fs \<Rightarrow> fs outcome" where
  "initrd_dealloc_inode inode s = obind (kfree (fs_heap s) (inode - 8)) (\<lambda>h. Inr (s\<lparr>fs_heap := h\<rparr>))"

definition mode_table :: "u32 list" where
  "mode_table = [I_REGULAR, 0, I_SYMLINK, 0, 0, I_DIRECTORY, 0]"

definition initrd_read_inode :: "byte_mem \<Rightarrow> u64 \<Rightarrow> u64 \<Rightarrow> fs \<Rightarrow> (int \<times> fs) outcome" where
  "initrd_read_inode m sb inode s =
     (let i = inodes s inode in
      if i_ino i < INITRD_ROOT_INO then Inr (ENOENT, s)
      else if i_ino i = INITRD_ROOT_INO then
        Inr (0, set_inode inode (i\<lparr>i_ops := Some Initrd_inode_dir_ops, i_mode := I_DIRECTORY, i_sb := sb\<rparr>) s)
      else if i_sb i \<noteq> sb then Inl Panic
      else obind (ustar_nth_from_entry m (fs_root_hdr (supers s sb)) (unat (ucast (i_ino i - INITRD_ROOT_INO) :: u32)))
        (\<lambda>hdr. if hdr = 0 then Inr (ENOENT, s)
           else if ustar_type m hdr < 0x30 \<or> 0x36 < ustar_type m hdr then Inl Panic
           else let mode = mode_table ! unat (ustar_type m hdr - 0x30) in
             if mode = 0 then Inl Panic
             else Inr (0, set_inode inode (i\<lparr>i_mode := mode,
                     i_ops := Some (if mode = I_DIRECTORY then Initrd_inode_dir_ops else Initrd_inode_file_ops)\<rparr>) s)))"

text \<open>
  The scan of the headers.  \<open>name\<close> and \<open>dir_name\<close> are strings of the memory, \<open>out\<close> is what the
  caller's \<^verbatim>\<open>*out\<close> holds; the result is the value it has at the return.
\<close>

partial_function (option) scan_headers ::
  "byte_mem \<Rightarrow> u64 \<Rightarrow> u64 \<Rightarrow> u64 \<Rightarrow> u64 \<Rightarrow> u64 \<Rightarrow> u64 \<Rightarrow> u64 outcome option"
where
  "scan_headers m dir_name dir_len name len out cur =
     (if cur = 0 then Some (Inr 0)
      else Option.bind (strlen m cur) (\<lambda>n. let target_len = of_nat n in
        if \<not> (target_len < dir_len \<or> target_len > dir_len + len + 1) \<and>
           memcmp m dir_name cur (unat dir_len) = 0 \<and> memcmp m name (cur + dir_len) (unat len) = 0
        then Some (Inr out)
        else (case ustar_nth_from_entry m cur 1 of
                Inl e \<Rightarrow> Some (Inl e)
              | Inr cur' \<Rightarrow> scan_headers m dir_name dir_len name len out cur')))"

text \<open>\<open>slash\<close> is the address of the literal for the name of the root.\<close>

definition initrd_dir_lookup_inode ::
  "byte_mem \<Rightarrow> u64 \<Rightarrow> u64 \<Rightarrow> u64 \<Rightarrow> u64 \<Rightarrow> u64 \<Rightarrow> fs \<Rightarrow> (int \<times> u64) outcome option"
where
  "initrd_dir_lookup_inode m slash dir_inode name len out s =
     (let d = inodes s dir_inode in
      if dir_inode = 0 \<or> i_mode d \<noteq> I_DIRECTORY \<or> i_sb d = 0 then Some (Inl Panic)
      else let f = supers s (i_sb d);
               dir_name = (if dir_inode = fs_root f then slash else inode_hdr s dir_inode)
           in if dir_name = 0 then Some (Inl Null_access)
              else rbind (waits (strlen m dir_name)) (\<lambda>dir_len.
                rbind (scan_headers m dir_name (of_nat dir_len) name len out (fs_root_hdr f))
                  (\<lambda>out. Some (Inr (0, out)))))"

section \<open>The inode cache\<close>

definition TAB_SHIFT :: nat where "TAB_SHIFT = 8"
definition TAB_SIZE :: u32 where "TAB_SIZE = push_bit TAB_SHIFT 1"

definition hash_inode :: "u64 \<Rightarrow> u32 \<Rightarrow> u64" where
  "hash_inode ino dev =
     (let key = ucast (ino + ucast dev) :: u32; m = TAB_SIZE - 1;
          key = (NOT key + push_bit 21 key) AND m;
          key = key XOR drop_bit 24 key;
          key = ((key + push_bit 3 key) + push_bit 8 key) AND m;
          key = key XOR drop_bit 14 key;
          key = ((key + push_bit 2 key) + push_bit 4 key) AND m;
          key = key XOR drop_bit 28 key;
          key = (key + push_bit 31 key) AND m
      in ucast key)"

partial_function (option) cache_find :: "u64 \<Rightarrow> u32 \<Rightarrow> u64 option \<Rightarrow> fs \<Rightarrow> u64 option outcome option" where
  "cache_find ino dev cur s =
     (case cur of
        None \<Rightarrow> Some (Inr None)
      | Some c \<Rightarrow>
          if i_ino (inodes s c) = ino then
            (if i_sb (inodes s c) = 0 then Some (Inl Null_access)
             else if dev_of (i_sb (inodes s c)) s = dev then Some (Inr (Some c))
             else cache_find ino dev (dlist_get_next (inode_nodes s) c) s)
          else cache_find ino dev (dlist_get_next (inode_nodes s) c) s)"

definition cache_lock :: "fs \<Rightarrow> fs option" where
  "cache_lock s = map_option (\<lambda>(x, p). s\<lparr>cache_mutex := x, fs_preempt := p\<rparr>) (mutex_lock (cache_mutex s) (fs_preempt s))"

definition cache_unlock :: "fs \<Rightarrow> fs" where
  "cache_unlock s = (let (x, p) = mutex_unlock (cache_mutex s) (fs_preempt s) in s\<lparr>cache_mutex := x, fs_preempt := p\<rparr>)"

definition cache_add :: "nat \<Rightarrow> u64 \<Rightarrow> fs \<Rightarrow> fs" where
  "cache_add hash inode s =
     (let (b, h) = hlist_add (buckets s hash) (inode_nodes s) inode in
      s\<lparr>buckets := (buckets s)(hash := b), inode_nodes := h\<rparr>)"

definition cache_remove :: "nat \<Rightarrow> u64 \<Rightarrow> fs \<Rightarrow> fs" where
  "cache_remove hash inode s =
     (let (b, h) = hlist_remove (buckets s hash) (inode_nodes s) inode in
      s\<lparr>buckets := (buckets s)(hash := b), inode_nodes := h\<rparr>)"

text \<open>Allocating and reading an inode that is not in the cache; 0 when it cannot be read.\<close>

definition inode_load :: "byte_mem \<Rightarrow> u64 \<Rightarrow> u64 \<Rightarrow> nat \<Rightarrow> fs \<Rightarrow> (u64 \<times> fs) outcome option" where
  "inode_load m sb ino hash s =
     (if ops_of sb s = None then Some (Inl Panic)
      else rbind (initrd_alloc_inode sb s) (\<lambda>(inode, s).
        if inode = 0 then Some (Inl Panic)
        else let s = set_inode inode ((inodes s inode)\<lparr>i_ino := ino\<rparr>) s in
          rbind (Some (initrd_read_inode m sb inode s)) (\<lambda>(rv, s).
            if rv \<noteq> 0 then rbind (Some (initrd_dealloc_inode inode s)) (\<lambda>s. Some (Inr (0, s)))
            else if kref_read (i_rc (inodes s inode)) \<noteq> 0 then Some (Inl Panic)
            else Some (Inr (inode, cache_add hash inode s)))))"

definition inode_get :: "byte_mem \<Rightarrow> u64 \<Rightarrow> u64 \<Rightarrow> fs \<Rightarrow> (u64 \<times> fs) outcome option" where
  "inode_get m sb ino s =
     (if sb = 0 then Some (Inl Null_access)
      else let dev = dev_of sb s; hash = unat (hash_inode ino dev) in
        rbind (waits (cache_lock s)) (\<lambda>s.
        rbind (cache_find ino dev (buckets s hash) s) (\<lambda>found.
        rbind (case found of Some c \<Rightarrow> Some (Inr (c, s)) | None \<Rightarrow> inode_load m sb ino hash s) (\<lambda>(inode, s).
        if inode = 0 then Some (Inl Null_access)
        else let s = set_inode inode ((inodes s inode)\<lparr>i_rc := kref_inc (i_rc (inodes s inode))\<rparr>) s
             in Some (Inr (inode, cache_unlock s))))))"

definition inode_put :: "u64 \<Rightarrow> fs \<Rightarrow> fs outcome option" where
  "inode_put inode s =
     (if inode = 0 \<or> i_sb (inodes s inode) = 0 then Some (Inl Null_access)
      else let hash = unat (hash_inode (i_ino (inodes s inode)) (dev_of (i_sb (inodes s inode)) s)) in
        rbind (waits (cache_lock s)) (\<lambda>s.
        let (n, rc) = kref_dec_read (i_rc (inodes s inode));
            s = set_inode inode ((inodes s inode)\<lparr>i_rc := rc\<rparr>) s
        in rbind (if n = 0 then
               let s = cache_remove hash inode s in
               if ops_of (i_sb (inodes s inode)) s = None then Some (Inl Panic)
               else Some (initrd_dealloc_inode inode s)
             else Some (Inr s))
           (\<lambda>s. Some (Inr (cache_unlock s)))))"

section \<open>Mounting and lookup\<close>

definition initrd_get_super :: "byte_mem \<Rightarrow> fs \<Rightarrow> (u64 \<times> fs) outcome option" where
  "initrd_get_super m s =
     rbind (kmalloc (fs_heap s) sizeof_initrd_fs) (\<lambda>(f, h).
     rbind (kmalloc h sizeof_inode) (\<lambda>(inode, h).
     let s = (clear_inode inode s)\<lparr>fs_heap := h,
           supers := (supers s)(f := \<lparr>fs_super = \<lparr>sb_dev = 1, sb_root = inode, sb_ops = Some Initrd_super_ops\<rparr>,
                                     fs_root_hdr = 0, fs_root = 0\<rparr>)\<rparr>
     in rbind (inode_get m f INITRD_ROOT_INO s) (\<lambda>(r, s).
        Some (Inr (f, s\<lparr>supers := (supers s)(f := (supers s f)\<lparr>fs_root := r\<rparr>)\<rparr>)))))"

definition vfs_mount :: "byte_mem \<Rightarrow> u64 \<Rightarrow> u32 \<Rightarrow> fs \<Rightarrow> (int \<times> fs) outcome option" where
  "vfs_mount m mount_point dev s =
     (if mount_point = 0 then Some (Inl Null_access)
      else if i_mode (inodes s mount_point) = I_MOUNT then Some (Inr (EBUSY, s))
      else if dev \<noteq> 1 then Some (Inl Panic)
      else rbind (initrd_get_super m s) (\<lambda>(sb, s).
        Some (Inr (0, set_inode mount_point ((inodes s mount_point)\<lparr>i_sb := sb,
          i_mounted := sb_root (fs_super (supers s sb)), i_mode := I_MOUNT\<rparr>) s))))"

text \<open>\<open>vfs_root\<close> is the address of the static inode.\<close>

definition vfs_init :: "byte_mem \<Rightarrow> u64 \<Rightarrow> fs \<Rightarrow> fs outcome option" where
  "vfs_init m vfs_root s =
     rbind (vfs_mount m vfs_root 1 (clear_inode vfs_root s)) (\<lambda>(e, s).
       if e \<noteq> 0 then Some (Inl Panic) else Some (Inr s))"

definition vfs_lookup :: "byte_mem \<Rightarrow> u64 \<Rightarrow> u64 \<Rightarrow> u64 \<Rightarrow> u64 \<Rightarrow> fs \<Rightarrow> (int \<times> u64) outcome option" where
  "vfs_lookup m slash dir path_name len s =
     (if dir = 0 then Some (Inl Null_access)
      else if i_mode (inodes s dir) \<noteq> I_DIRECTORY then Some (Inr (ENOTDIR, 0))
      else case i_ops (inodes s dir) of
        Some Initrd_inode_dir_ops \<Rightarrow> initrd_dir_lookup_inode m slash dir path_name len 0 s
      | _ \<Rightarrow> Some (Inr (ENOTSUP, 0)))"

end
