(* ===== verification/Fs_Correct.thy ===== *)
theory Fs_Correct
  imports Fs Slob_Correct
begin

text \<open>
  The inode cache refines a finite map from inode number and device to an inode and its number
  of references; the hash of a key in closed form; the sizes read from an archive and where the
  walk over its headers goes; what lookup can return.
\<close>

section \<open>The hash\<close>

lemma and_byte: "(x :: u32) AND 255 = ucast (ucast x :: u8)"
proof -
  have "x AND 255 = take_bit 8 x" by (simp add: take_bit_eq_mask mask_eq_exp_minus_1)
  then show ?thesis by (simp add: unsigned_ucast_eq)
qed

lemma drop_byte: "8 \<le> n \<Longrightarrow> drop_bit n (ucast (y :: u8) :: u32) = 0"
  by (rule bit_word_eqI) (auto simp: bit_drop_bit_eq bit_ucast_iff dest: bit_imp_le_length)

lemma byte_hom:
  "(ucast (a + b :: u32) :: u8) = ucast a + ucast b"
  "(ucast (a * b :: u32) :: u8) = ucast a * ucast b"
  "(ucast (NOT a :: u32) :: u8) = NOT (ucast a)"
  "(ucast (ucast (y :: u8) :: u32) :: u8) = y"
  "(ucast (ucast (z :: u64) :: u32) :: u8) = ucast z"
proof -
  show "(ucast (a + b :: u32) :: u8) = ucast a + ucast b"
    by (rule unsigned_word_eqI [where ?'a = nat]) (simp add: unsigned_ucast_eq take_bit_eq_mod unat_word_ariths mod_mod_cancel mod_simps)
  show "(ucast (a * b :: u32) :: u8) = ucast a * ucast b"
    by (rule unsigned_word_eqI [where ?'a = nat]) (simp add: unsigned_ucast_eq take_bit_eq_mod unat_word_ariths mod_mod_cancel mod_simps)
  show "(ucast (NOT a :: u32) :: u8) = NOT (ucast a)"
    by (rule bit_word_eqI) (simp add: bit_ucast_iff bit_not_iff)
  show "(ucast (ucast (y :: u8) :: u32) :: u8) = y" "(ucast (ucast (z :: u64) :: u32) :: u8) = ucast z"
    by (rule bit_word_eqI, auto simp: bit_ucast_iff dest: bit_imp_le_length)+
qed

lemma hash_closed: "hash_inode ino dev = ucast (67 * (ucast (ino + ucast dev) + 1) :: u8)"
proof -
  have m: "TAB_SIZE - 1 = 255" by (simp add: TAB_SIZE_def TAB_SHIFT_def)
  have u: "(ucast (ucast (y :: u8) :: u32) :: u64) = ucast y" for y
    by (rule bit_word_eqI) (auto simp: bit_ucast_iff dest: bit_imp_le_length)
  have c: "21 * (9 * NOT k) = 67 * (k + 1)" for k :: u8
  proof -
    have "21 * (9 * NOT k) = 67 * (k + 1) - 256 * (k + 1)" unfolding not_eq_complement by (simp only: algebra_simps) simp
    moreover have "(256 :: u8) = 0" by simp
    ultimately show ?thesis by (simp only: mult_zero_left diff_zero)
  qed
  have n: "(11950746506685 :: u8) = 189" "(25062531937987461120 :: u8) = 0" by simp_all
  show ?thesis
    unfolding hash_inode_def m and_byte Let_def
    using c by (simp add: drop_byte push_bit_eq_mult byte_hom u n)
qed

lemma byte_up: "unat (y :: u8) < 256" "unat (ucast y :: u64) = unat y"
proof -
  show "unat y < 256" using unsigned_less [of y, where ?'a = nat] by simp
  then show "unat (ucast y :: u64) = unat y" by (simp add: unsigned_ucast_eq take_bit_nat_eq_self)
qed

lemma unat_hash_lt: "unat (hash_inode ino dev) < 256"
  unfolding hash_closed byte_up(2) by (rule byte_up(1))

text \<open>
  hash_inode mixes the low byte of the sum of inode number and device only, but as a
  permutation.  The bucket is below the size of the table, equal to 67 times (low byte + 1)
  modulo 256, and two keys share a bucket exactly when the sums of their inode number and
  device are equal modulo 256.
\<close>

lemma hash_inode_buckets:
  "unat (hash_inode ino dev) < unat TAB_SIZE \<and>
   unat (hash_inode ino dev) = 67 * (unat (ino + ucast dev) + 1) mod 256 \<and>
   (hash_inode ino dev = hash_inode ino' dev' \<longleftrightarrow>
      unat (ino + ucast dev) mod 256 = unat (ino' + ucast dev') mod 256)"
proof (intro conjI)
  show "unat (hash_inode ino dev) < unat TAB_SIZE" using unat_hash_lt by (simp add: TAB_SIZE_def TAB_SHIFT_def)
  have w: "unat (67 * (k + 1) :: u8) = 67 * (unat k + 1) mod 256" for k by (simp add: unat_word_ariths mod_simps del: distrib_left_numeral)
  have ub: "unat (ucast z :: u8) = unat z mod 256" for z :: u64 by (simp add: unsigned_ucast_eq take_bit_eq_mod)
  have r: "67 * (n mod 256 + 1) mod 256 = 67 * (n + 1) mod (256 :: nat)" for n by (metis mod_add_left_eq mod_mult_right_eq)
  show "unat (hash_inode ino dev) = 67 * (unat (ino + ucast dev) + 1) mod 256"
    unfolding hash_closed byte_up(2) w ub by (rule r)
  let ?k = "ucast (ino + ucast dev) :: u8" and ?k' = "ucast (ino' + ucast dev') :: u8"
  have inv: "107 * (67 * (k + 1)) - 1 = k" for k :: u8
  proof -
    have "107 * (67 * (k + 1)) - 1 = 7169 * k + 7168" by (simp add: algebra_simps)
    moreover have "(7169 :: u8) = 1" "(7168 :: u8) = 0" by simp_all
    ultimately show ?thesis by (simp only: mult_1 add_0_right)
  qed
  have up: "(ucast (y :: u8) :: u64) = ucast z \<longleftrightarrow> y = z" for y z
    using byte_up(2) [of y] byte_up(2) [of z] unsigned_word_eqI [where ?'a = nat, of y z] by metis
  have inj: "67 * (k + 1) = 67 * (k' + 1) \<longleftrightarrow> k = k'" for k k' :: u8
  proof
    assume "67 * (k + 1) = 67 * (k' + 1)"
    then have "107 * (67 * (k + 1)) - 1 = 107 * (67 * (k' + 1)) - 1" by (simp only:)
    then show "k = k'" unfolding inv .
  qed simp
  have "hash_inode ino dev = hash_inode ino' dev' \<longleftrightarrow> ?k = ?k'"
    unfolding hash_closed up inj ..
  also have "\<dots> \<longleftrightarrow> unat ?k = unat ?k'" by (rule iffI) (simp, rule unsigned_word_eqI [where ?'a = nat])
  also have "\<dots> \<longleftrightarrow> unat (ino + ucast dev) mod 256 = unat (ino' + ucast dev') mod 256"
    unfolding ub ..
  finally show "hash_inode ino dev = hash_inode ino' dev' \<longleftrightarrow>
    unat (ino + ucast dev) mod 256 = unat (ino' + ucast dev') mod 256" .
qed

section \<open>Buckets\<close>

text \<open>A bucket: a list whose first node has no predecessor.\<close>

definition bucket_list :: "'p dheap \<Rightarrow> 'p option \<Rightarrow> 'p list \<Rightarrow> bool" where
  "bucket_list h b xs \<longleftrightarrow> dseg h b xs \<and> (xs \<noteq> [] \<longrightarrow> dprev (h (hd xs)) = None)"

lemma bucket_frame:
  assumes "\<And>x. x \<in> set xs \<Longrightarrow> h' x = h x"
  shows "bucket_list h' b xs = bucket_list h b xs"
  using dseg_frame [of xs h' h b] assms by (cases xs) (simp_all add: bucket_list_def)

lemma hlist_add_ok:
  assumes "bucket_list h b xs" and "x \<notin> set xs" and "hlist_add b h x = (b', h')"
  shows "bucket_list h' b' (x # xs) \<and> (\<forall>y. y \<noteq> x \<and> y \<notin> set xs \<longrightarrow> h' y = h y)"
proof -
  let ?h = "h(x := (h x)\<lparr>dprev := None\<rparr>)"
  have e: "b' = Some x" "h' = dlist_set_next ?h x b"
    using assms(3) by (auto simp: hlist_add_def dlist_set_next_def Let_def split: option.splits)
  have "dseg ?h b xs" using assms(1,2) by (subst dseg_frame [where h = h]) (auto simp: bucket_list_def)
  then have d: "dseg h' b' (x # xs)" unfolding e using assms(2) by (rule dseg_push)
  have b: "b = None \<and> xs = [] \<or> (\<exists>y ys. b = Some y \<and> xs = y # ys)"
    using assms(1) dseg_head by (cases xs) (fastforce simp: bucket_list_def)+
  then have "dprev (h' x) = None" using assms(2) by (auto simp: e(2) dlist_set_next_def)
  then show ?thesis using d b by (auto simp: bucket_list_def e(2) dlist_set_next_def)
qed

lemma hlist_remove_ok:
  assumes "bucket_list h b (as @ x # cs)" and "hlist_remove b h x = (b', h')"
  shows "bucket_list h' b' (as @ cs) \<and> (\<forall>y. y \<notin> set (as @ x # cs) \<longrightarrow> h' y = h y)"
proof -
  have d: "dseg h b (as @ x # cs)" and p: "dprev (h (hd (as @ x # cs))) = None"
    using assms(1) by (auto simp: bucket_list_def)
  have dist: "distinct (as @ x # cs)" using d by (rule dseg_distinct)
  note nx = dseg_links(2) [OF d]
  show ?thesis
  proof (cases "as = []")
    case True
    then have e: "b' = dnext (h x)" "h' = (case cs of [] \<Rightarrow> h | c # _ \<Rightarrow> h(c := (h c)\<lparr>dprev := None\<rparr>))"
      using assms(2) p nx by (auto simp: hlist_remove_def split: list.splits)
    have "dseg h (dnext (h x)) cs" using d True dseg_tail by fastforce
    moreover have "dseg h' b' cs = dseg h (dnext (h x)) cs"
      using dist unfolding e by (intro dseg_cong) (auto split: list.splits)
    ultimately show ?thesis using True by (auto simp: bucket_list_def e split: list.splits)
  next
    case False
    have pr: "dprev (h x) = Some (last as)" using dseg_links(1) [OF d False] .
    have l: "last as \<in> set as" using False by simp
    have ne: "x \<noteq> last as" "\<And>c ds. cs = c # ds \<Longrightarrow> c \<noteq> last as" "\<And>c ds. cs = c # ds \<Longrightarrow> c \<noteq> x" using dist l by auto
    have "hlist_remove b h x = (b, dlist_unlink h x)"
    proof (cases cs)
      case Nil
      then show ?thesis using nx pr ne(1) by (simp add: hlist_remove_def dlist_unlink_def dlist_defs)
    next
      case (Cons c ds)
      then show ?thesis using nx pr ne(1) ne(2,3) [OF Cons]
        by (simp add: hlist_remove_def dlist_unlink_def dlist_defs fun_upd_twist)
    qed
    then have e: "b' = b" "h' = dlist_unlink h x" using assms(2) by simp_all
    have "dprev (h' (hd as)) = None"
    proof -
      have "hd as \<noteq> x" "cs = [] \<or> hd as \<noteq> hd cs" using dist False by (cases as; cases cs; auto)+
      then show ?thesis using p False pr nx unfolding e dlist_unlink_def
        by (auto simp: dlist_defs Let_def split: list.splits)
    qed
    moreover have "h' y = h y" if "y \<notin> set (as @ x # cs)" for y
      using that l unfolding e by (intro dlist_unlink_other [OF d False]) (cases cs; auto)+
    ultimately show ?thesis using dseg_unlink [OF d False] False unfolding bucket_list_def e by auto
  qed
qed

section \<open>The cache\<close>

definition key_of :: "fs \<Rightarrow> u64 \<Rightarrow> u64 \<times> u32" where
  "key_of s x = (i_ino (inodes s x), dev_of (i_sb (inodes s x)) s)"

definition bucket_of :: "u64 \<times> u32 \<Rightarrow> nat" where
  "bucket_of k = unat (hash_inode (fst k) (snd k))"

definition refs :: "fs \<Rightarrow> u64 \<Rightarrow> nat" where
  "refs s x = unat (var32 (i_rc (inodes s x)))"

definition cache_inv :: "fs \<Rightarrow> (nat \<Rightarrow> u64 list) \<Rightarrow> bool" where
  "cache_inv s L \<longleftrightarrow> (\<forall>h. bucket_list (inode_nodes s) (buckets s h) (L h) \<and> inj_on (key_of s) (set (L h)) \<and>
     (\<forall>x \<in> set (L h). x \<noteq> 0 \<and> i_sb (inodes s x) \<noteq> 0 \<and> ops_of (i_sb (inodes s x)) s \<noteq> None \<and>
        bucket_of (key_of s x) = h \<and> 0 < refs s x))"

text \<open>The map of the cached inodes, with the number of references of each.\<close>

definition rel_lists :: "fs \<Rightarrow> (nat \<Rightarrow> u64 list) \<Rightarrow> (u64 \<times> u32 \<Rightarrow> (u64 \<times> nat) option) \<Rightarrow> bool" where
  "rel_lists s L M \<longleftrightarrow> cache_inv s L \<and>
     (\<forall>k a n. M k = Some (a, n) \<longleftrightarrow> a \<in> set (L (bucket_of k)) \<and> key_of s a = k \<and> refs s a = n)"

definition cache_rel :: "fs \<Rightarrow> (u64 \<times> u32 \<Rightarrow> (u64 \<times> nat) option) \<Rightarrow> bool" where
  "cache_rel s M \<longleftrightarrow> (\<exists>L. rel_lists s L M)"

lemma cache_find_ok:
  assumes "dseg (inode_nodes s) p xs" and "\<forall>x \<in> set xs. i_sb (inodes s x) \<noteq> 0"
  shows "cache_find ino dev p s = Some (Inr (find (\<lambda>x. key_of s x = (ino, dev)) xs))"
  using assms
proof (induction xs arbitrary: p)
  case Nil
  then show ?case by (simp add: cache_find.simps)
next
  case (Cons x xs)
  have p: "p = Some x" using Cons.prems(1) dseg_head by fast
  show ?case using Cons.IH [OF dseg_tail [OF Cons.prems(1)]] Cons.prems(2) unfolding p
    by (subst cache_find.simps) (auto simp: key_of_def dlist_get_next_def)
qed

lemma rel_listsD:
  assumes "rel_lists s L M"
  shows "bucket_list (inode_nodes s) (buckets s h) (L h)" "inj_on (key_of s) (set (L h))"
    "x \<in> set (L h) \<Longrightarrow> x \<noteq> 0 \<and> i_sb (inodes s x) \<noteq> 0 \<and> ops_of (i_sb (inodes s x)) s \<noteq> None \<and>
      bucket_of (key_of s x) = h \<and> 0 < refs s x"
    "M k = Some (a, n) \<longleftrightarrow> a \<in> set (L (bucket_of k)) \<and> key_of s a = k \<and> refs s a = n"
  using assms unfolding rel_lists_def cache_inv_def by blast+

lemma rel_find:
  assumes "rel_lists s L M"
  shows "find (\<lambda>x. key_of s x = k) (L (bucket_of k)) = map_option fst (M k)"
proof (cases "M k")
  case None
  then have "key_of s x \<noteq> k" if "x \<in> set (L (bucket_of k))" for x
    using that rel_listsD(4) [OF assms, of k x "refs s x"] by auto
  then show ?thesis using None by (simp add: find_None_iff)
next
  case (Some r)
  obtain a n where r: "r = (a, n)" by (cases r)
  then have a: "a \<in> set (L (bucket_of k))" "key_of s a = k" using Some rel_listsD(4) [OF assms] by auto
  then have "find (\<lambda>x. key_of s x = k) (L (bucket_of k)) \<noteq> None" unfolding find_None_iff by blast
  then obtain b where b: "find (\<lambda>x. key_of s x = k) (L (bucket_of k)) = Some b" by blast
  then have "b \<in> set (L (bucket_of k))" "key_of s b = k" by (auto simp: find_Some_iff)
  then have "b = a" using a inj_onD [OF rel_listsD(2) [OF assms]] by metis
  then show ?thesis using b Some r by simp
qed

lemma rel_refs:
  assumes "rel_lists s L M" and "M k = Some (a, n)" and "r \<noteq> 0"
    and "inode_nodes s' = inode_nodes s" "buckets s' = buckets s" "supers s' = supers s"
    and "inodes s' = (inodes s)(a := (inodes s a)\<lparr>i_rc := \<lparr>var32 = r\<rparr>\<rparr>)"
  shows "rel_lists s' L (M(k \<mapsto> (a, unat r)))"
proof -
  have k: "key_of s' = key_of s" "\<And>x. i_sb (inodes s' x) = i_sb (inodes s x)" "\<And>x. ops_of x s' = ops_of x s"
    using assms(6,7) by (auto simp: key_of_def dev_of_def ops_of_def fun_eq_iff)
  have r: "refs s' = (refs s)(a := unat r)" using assms(7) by (auto simp: refs_def fun_eq_iff)
  note d = rel_listsD [OF assms(1)]
  have a: "a \<in> set (L (bucket_of k))" "key_of s a = k" using assms(2) d(4) by auto
  have inv: "cache_inv s' L" unfolding cache_inv_def k r assms(4,5)
    using d(1,2,3) assms(3) by (simp add: unat_gt_0)
  have "(M(k \<mapsto> (a, unat r))) j = Some (b, i) \<longleftrightarrow> b \<in> set (L (bucket_of j)) \<and> key_of s' b = j \<and> refs s' b = i" for j b i
  proof (cases "j = k")
    case True
    have "b = a" if "b \<in> set (L (bucket_of k))" "key_of s b = k" using that a inj_onD [OF d(2)] by metis
    then have "b \<in> set (L (bucket_of k)) \<and> key_of s b = k \<longleftrightarrow> b = a" using a by blast
    then show ?thesis unfolding True k r conj_assoc [symmetric] by auto
  next
    case False
    then have "M j = Some (b, i) \<Longrightarrow> b \<noteq> a" using a(2) d(4) by auto
    then show ?thesis using False a(2) d(4) [of j b] unfolding k r by auto
  qed
  then show ?thesis using inv by (simp add: rel_lists_def)
qed

lemma rel_add:
  assumes "rel_lists s L M" and "M k = None" and "x \<noteq> 0" and "\<forall>j n. M j \<noteq> Some (x, n)"
    and "i_sb i \<noteq> 0" "ops_of (i_sb i) s \<noteq> None" "k = (i_ino i, dev_of (i_sb i) s)" "var32 (i_rc i) = 1"
    and "hlist_add (buckets s (bucket_of k)) (h(x := nd)) x = (b', h')" "h = inode_nodes s"
    and "inode_nodes s' = h'" "buckets s' = (buckets s)(bucket_of k := b')" "supers s' = supers s"
    and "inodes s' = (inodes s)(x := i)"
  shows "rel_lists s' (L(bucket_of k := x # L (bucket_of k))) (M(k \<mapsto> (x, 1)))"
proof -
  note d = rel_listsD [OF assms(1)]
  have out: "x \<notin> set (L j)" for j
  proof
    assume "x \<in> set (L j)"
    moreover then have "bucket_of (key_of s x) = j" using d(3) by blast
    ultimately have "M (key_of s x) = Some (x, refs s x)" using d(4) [of "key_of s x" x "refs s x"] by simp
    then show False using assms(4) by blast
  qed
  have k: "key_of s' y = (if y = x then k else key_of s y)" "ops_of z s' = ops_of z s"
    "i_sb (inodes s' y) = (if y = x then i_sb i else i_sb (inodes s y))" "refs s' y = (if y = x then 1 else refs s y)" for y z
    using assms(7,8,13,14) by (auto simp: key_of_def dev_of_def ops_of_def refs_def)
  have bl: "bucket_list (h(x := nd)) (buckets s j) (L j)" for j
    using d(1) [of j] out [of j] unfolding assms(10) by (subst bucket_frame) auto
  note add = hlist_add_ok [OF bl out assms(9)]
  let ?L = "L(bucket_of k := x # L (bucket_of k))"
  have bucket: "bucket_list h' (buckets s' j) (?L j)" for j
  proof (cases "j = bucket_of k")
    case True
    then show ?thesis using add assms(12) by simp
  next
    case False
    then have "y \<notin> set (L (bucket_of k))" if "y \<in> set (L j)" for y using d(3) [OF that] d(3) [of y "bucket_of k"] by auto
    moreover have "y \<noteq> x" if "y \<in> set (L j)" for y using that out by blast
    ultimately have "h' y = inode_nodes s y" if "y \<in> set (L j)" for y using add that assms(10) by auto
    then have "bucket_list h' (buckets s j) (L j)" using d(1) [of j] by (subst bucket_frame)
    then show ?thesis using False assms(12) by simp
  qed
  have key: "key_of s y \<noteq> k" if "y \<in> set (L (bucket_of k))" for y
    using that assms(2) d(4) [of k y "refs s y"] by auto
  have inj: "inj_on (key_of s') (set (?L j))" for j
    using d(2) [of j] out [of j] key by (auto simp: inj_on_def k)
  have ok: "y \<noteq> 0 \<and> i_sb (inodes s' y) \<noteq> 0 \<and> ops_of (i_sb (inodes s' y)) s' \<noteq> None \<and>
      bucket_of (key_of s' y) = j \<and> 0 < refs s' y" if "y \<in> set (?L j)" for y j
  proof (cases "y = x")
    case True
    then have "j = bucket_of k" using that out [of j] by (auto split: if_splits)
    then show ?thesis using True assms(3,5,6) by (simp add: k)
  next
    case False
    then have "y \<in> set (L j)" using that by (auto split: if_splits)
    then show ?thesis using d(3) False by (simp add: k)
  qed
  have inv: "cache_inv s' ?L" unfolding cache_inv_def assms(11) using bucket inj ok by blast
  have "(M(k \<mapsto> (x, 1))) j = Some (b, n) \<longleftrightarrow> b \<in> set (?L (bucket_of j)) \<and> key_of s' b = j \<and> refs s' b = n" for j b n
  proof (cases "b = x")
    case True
    then have "M j \<noteq> Some (b, n)" using assms(4) by blast
    then show ?thesis using True out [of "bucket_of j"] by (auto simp: k)
  next
    case False
    have "b \<in> set (L (bucket_of j)) \<Longrightarrow> key_of s b = j \<Longrightarrow> j \<noteq> k" using key by blast
    then show ?thesis using False d(4) [of j b n] by (auto simp: k)
  qed
  then show ?thesis using inv unfolding rel_lists_def by blast
qed

lemma rel_remove:
  assumes "rel_lists s L M" and "M k = Some (a, n)"
    and "hlist_remove (buckets s (bucket_of k)) (inode_nodes s) a = (b', h')"
    and "inode_nodes s' = h'" "buckets s' = (buckets s)(bucket_of k := b')" "supers s' = supers s"
    and "inodes s' = (inodes s)(a := i)"
  shows "rel_lists s' (L(bucket_of k := remove1 a (L (bucket_of k)))) (M(k := None))"
proof -
  note d = rel_listsD [OF assms(1)]
  have a: "a \<in> set (L (bucket_of k))" "key_of s a = k" using assms(2) d(4) by auto
  obtain as cs where sp: "L (bucket_of k) = as @ a # cs" "a \<notin> set as" using split_list_first [OF a(1)] by blast
  have r: "remove1 a (L (bucket_of k)) = as @ cs" using sp by (simp add: remove1_append)
  note rm = hlist_remove_ok [OF d(1) [of "bucket_of k", unfolded sp(1)] assms(3)]
  have dist: "distinct (as @ a # cs)" using d(1) [of "bucket_of k"] unfolding sp(1) bucket_list_def by (blast dest: dseg_distinct)
  have same: "key_of s' y = key_of s y" "i_sb (inodes s' y) = i_sb (inodes s y)" "refs s' y = refs s y" if "y \<noteq> a" for y
    using that assms(6,7) by (simp_all add: key_of_def dev_of_def refs_def)
  have ops: "ops_of z s' = ops_of z s" for z using assms(6) by (simp add: ops_of_def)
  let ?L = "L(bucket_of k := remove1 a (L (bucket_of k)))"
  have sub: "y \<in> set (L j) \<and> y \<noteq> a" if y: "y \<in> set (?L j)" for y j
  proof (cases "j = bucket_of k")
    case True
    then show ?thesis using y r dist sp(1) by auto
  next
    case False
    then have "y \<in> set (L j)" using y by simp
    then show ?thesis using d(3) [of y j] a(2) False by auto
  qed
  have bucket: "bucket_list h' (buckets s' j) (?L j)" for j
  proof (cases "j = bucket_of k")
    case True
    then show ?thesis using rm assms(5) r by simp
  next
    case False
    then have "y \<notin> set (as @ a # cs)" if "y \<in> set (L j)" for y
      using d(3) [OF that] d(3) [of y "bucket_of k"] sp(1) by auto
    then have "bucket_list h' (buckets s j) (L j)" using d(1) [of j] rm by (subst bucket_frame) auto
    then show ?thesis using False assms(5) by simp
  qed
  have inj: "inj_on (key_of s') (set (?L j))" for j
    using d(2) [of j] sub [of _ j] same(1) unfolding inj_on_def by metis
  have ok: "y \<noteq> 0 \<and> i_sb (inodes s' y) \<noteq> 0 \<and> ops_of (i_sb (inodes s' y)) s' \<noteq> None \<and>
      bucket_of (key_of s' y) = j \<and> 0 < refs s' y" if "y \<in> set (?L j)" for y j
    using d(3) [of y j] sub [OF that] same ops by simp
  have inv: "cache_inv s' ?L" unfolding cache_inv_def assms(4) using bucket inj ok by blast
  have "(M(k := None)) j = Some (b, i) \<longleftrightarrow> b \<in> set (?L (bucket_of j)) \<and> key_of s' b = j \<and> refs s' b = i" for j b i
  proof
    assume m: "(M(k := None)) j = Some (b, i)"
    then have j: "j \<noteq> k" "b \<in> set (L (bucket_of j))" "key_of s b = j" "refs s b = i" using d(4) [of j b i] by (auto split: if_splits)
    then have "b \<noteq> a" using a(2) by blast
    then show "b \<in> set (?L (bucket_of j)) \<and> key_of s' b = j \<and> refs s' b = i" using j same by (auto simp: in_set_remove1)
  next
    assume b: "b \<in> set (?L (bucket_of j)) \<and> key_of s' b = j \<and> refs s' b = i"
    then have b': "b \<in> set (L (bucket_of j))" "b \<noteq> a" using sub by blast+
    then have "j \<noteq> k" using b same a inj_onD [OF d(2)] by metis
    then show "(M(k := None)) j = Some (b, i)" using b b' same d(4) [of j b i] by simp
  qed
  then show ?thesis using inv unfolding rel_lists_def by blast
qed

section \<open>Getting and putting an inode\<close>

text \<open>What the RAM disk has under a number: the mode, or nothing that can be read.\<close>

definition stored :: "byte_mem \<Rightarrow> u64 \<Rightarrow> u64 \<Rightarrow> fs \<Rightarrow> u32 option" where
  "stored m sb ino s =
     (if ino = 0 then None
      else if ino = 1 then Some I_DIRECTORY
      else case ustar_nth_from_entry m (fs_root_hdr (supers s sb)) (unat (ucast (ino - 1) :: u32)) of
        Inl e \<Rightarrow> None
      | Inr hdr \<Rightarrow> if hdr = 0 then None
          else map_of [(0x30, I_REGULAR), (0x32, I_SYMLINK), (0x35, I_DIRECTORY)] (ustar_type m hdr))"

lemma type_cases:
  assumes "\<not> (t < (0x30 :: u8) \<or> 0x36 < t)"
  shows "t \<in> {0x30, 0x31, 0x32, 0x33, 0x34, 0x35, 0x36}"
proof -
  have "unat t \<in> unat ` {0x30 :: u8, 0x31, 0x32, 0x33, 0x34, 0x35, 0x36}"
    using assms by (simp add: word_less_nat_alt) linarith
  then obtain c where c: "unat t = unat c" "c \<in> {0x30 :: u8, 0x31, 0x32, 0x33, 0x34, 0x35, 0x36}" by (rule imageE)
  then show ?thesis using unsigned_word_eqI [OF c(1)] by simp
qed

lemma mode_table_ok:
  assumes "\<not> (t < (0x30 :: u8) \<or> 0x36 < t)"
  shows "map_of [(0x30, I_REGULAR), (0x32, I_SYMLINK), (0x35, I_DIRECTORY)] t =
    (let mode = mode_table ! unat (t - 0x30) in if mode = 0 then None else Some mode)"
  using type_cases [OF assms] by (auto simp: mode_table_def I_REGULAR_def I_SYMLINK_def I_DIRECTORY_def)

lemma read_inode_ok:
  assumes "i_ino (inodes s x) = ino" and "i_sb (inodes s x) = sb"
  shows "case stored m sb ino s of
      None \<Rightarrow> (\<forall>s'. initrd_read_inode m sb x s \<noteq> Inr (0, s'))
    | Some mode \<Rightarrow> \<exists>i. initrd_read_inode m sb x s = Inr (0, set_inode x i s) \<and> i_ino i = ino \<and> i_sb i = sb \<and>
        i_rc i = i_rc (inodes s x) \<and> i_mode i = mode"
proof -
  consider (zero) "ino = 0" | (one) "ino = 1" | (more) "ino \<noteq> 0" "ino \<noteq> 1" by blast
  then show ?thesis
  proof cases
    case zero
    then show ?thesis using assms by (simp add: stored_def initrd_read_inode_def INITRD_ROOT_INO_def ENOENT_def)
  next
    case one
    then show ?thesis using assms
      by (simp add: stored_def initrd_read_inode_def INITRD_ROOT_INO_def) (rule exI, rule conjI, rule refl, simp)
  next
    case more
    then have n: "\<not> ino < 1" by (simp add: word_less_nat_alt unat_eq_0)
    show ?thesis
    proof (cases "ustar_nth_from_entry m (fs_root_hdr (supers s sb)) (unat (ucast (ino - 1) :: u32))")
      case (Inl e)
      then show ?thesis using more n assms by (simp add: stored_def initrd_read_inode_def INITRD_ROOT_INO_def)
    next
      case (Inr hdr)
      show ?thesis
      proof (cases "hdr = 0 \<or> ustar_type m hdr < 0x30 \<or> 0x36 < ustar_type m hdr")
        case True
        then show ?thesis using more n assms Inr by (auto simp: stored_def initrd_read_inode_def INITRD_ROOT_INO_def ENOENT_def)
      next
        case False
        then have t: "\<not> (ustar_type m hdr < 0x30 \<or> 0x36 < ustar_type m hdr)" by simp
        show ?thesis using more n assms Inr False mode_table_ok [OF t]
          by (simp add: stored_def initrd_read_inode_def INITRD_ROOT_INO_def Let_def)
            (intro conjI impI; rule exI, rule conjI, rule refl, simp)
      qed
    qed
  qed
qed

text \<open>Taking and releasing the mutex around a step that leaves it alone.\<close>

lemma cache_lock_free: "lock (cache_mutex s) = 0 \<Longrightarrow> cache_lock s = Some (s\<lparr>cache_mutex := \<lparr>lock = 1\<rparr>, fs_preempt := fs_preempt s + 1\<rparr>)"
  by (cases "cache_mutex s") (simp add: cache_lock_def mutex_lock_def)

lemma cache_unlock_fields [simp]:
  "inodes (cache_unlock s) = inodes s" "inode_nodes (cache_unlock s) = inode_nodes s" "buckets (cache_unlock s) = buckets s"
  "supers (cache_unlock s) = supers s" "fs_heap (cache_unlock s) = fs_heap s" "inode_hdr (cache_unlock s) = inode_hdr s"
  "lock (cache_mutex (cache_unlock s)) = 0" "fs_preempt (cache_unlock s) = fs_preempt s - 1"
  by (simp_all add: cache_unlock_def mutex_unlock_def spin_unlock_def preempt_dec_def Let_def)

lemma get_hit:
  assumes "rel_lists s L M" and "lock (cache_mutex s) = 0" and "sb \<noteq> 0" and "M (ino, dev_of sb s) = Some (a, n)" and "n + 1 < 2 ^ 32"
  shows "\<exists>s'. inode_get m sb ino s = Some (Inr (a, s')) \<and> rel_lists s' L (M((ino, dev_of sb s) \<mapsto> (a, n + 1))) \<and>
    lock (cache_mutex s') = 0 \<and> fs_preempt s' = fs_preempt s \<and> fs_heap s' = fs_heap s \<and> supers s' = supers s"
proof -
  note d = rel_listsD [OF assms(1)]
  let ?k = "(ino, dev_of sb s)"
  define s1 where "s1 = s\<lparr>cache_mutex := \<lparr>lock = 1\<rparr>, fs_preempt := fs_preempt s + 1\<rparr>"
  have s1: "inodes s1 = inodes s" "inode_nodes s1 = inode_nodes s" "buckets s1 = buckets s" "supers s1 = supers s"
    "fs_heap s1 = fs_heap s" "fs_preempt s1 = fs_preempt s + 1" by (simp_all add: s1_def)
  have k1: "key_of s1 = key_of s" by (simp add: key_of_def dev_of_def s1 fun_eq_iff)
  have a: "a \<in> set (L (bucket_of ?k))" "refs s a = n" using assms(4) d(4) by auto
  have "dseg (inode_nodes s1) (buckets s1 (bucket_of ?k)) (L (bucket_of ?k))" using d(1) by (simp add: s1 bucket_list_def)
  then have f: "cache_find ino (dev_of sb s) (buckets s1 (bucket_of ?k)) s1 = Some (Inr (Some a))"
    using cache_find_ok [of s1 "buckets s1 (bucket_of ?k)" "L (bucket_of ?k)" ino "dev_of sb s"] d(3)
      rel_find [OF assms(1), of ?k] assms(4) by (simp add: s1 k1)
  define r where "r = var32 (i_rc (inodes s a)) + 1"
  have r: "unat r = n + 1" using a(2) assms(5) by (simp add: r_def refs_def unat_word_ariths)
  define s' where "s' = cache_unlock (set_inode a ((inodes s a)\<lparr>i_rc := \<lparr>var32 = r\<rparr>\<rparr>) s1)"
  have "kref_inc (i_rc (inodes s a)) = \<lparr>var32 = r\<rparr>"
    by (cases "i_rc (inodes s a)") (simp add: kref_inc_def atomic_inc_read32_def r_def Let_def)
  then have g: "inode_get m sb ino s = Some (Inr (a, s'))"
    using assms(2,3) f d(3) [OF a(1)] cache_lock_free [of s] unfolding s1_def [symmetric]
    by (simp add: inode_get_def s'_def bucket_of_def s1)
  moreover have "r \<noteq> 0" using r by auto
  then have "rel_lists s' L (M(?k \<mapsto> (a, n + 1)))" unfolding r [symmetric]
    by (rule rel_refs [OF assms(1,4)]) (simp_all add: s'_def set_inode_def s1)
  ultimately show ?thesis by (simp add: s'_def set_inode_def s1)
qed

lemma get_miss:
  assumes "rel_lists s L M" and "lock (cache_mutex s) = 0" and "sb \<noteq> 0" and "ops_of sb s \<noteq> None"
    and "M (ino, dev_of sb s) = None" and "kmalloc (fs_heap s) sizeof_initrd_inode = Some (Inr (p, h'))"
    and "p + 8 \<noteq> 0" and "\<forall>j n. M j \<noteq> Some (p + 8, n)"
  shows "case stored m sb ino s of
      None \<Rightarrow> (\<forall>r. inode_get m sb ino s \<noteq> Some (Inr r))
    | Some mode \<Rightarrow> \<exists>s' L'. inode_get m sb ino s = Some (Inr (p + 8, s')) \<and> rel_lists s' L' (M((ino, dev_of sb s) \<mapsto> (p + 8, 1))) \<and>
        i_mode (inodes s' (p + 8)) = mode \<and> lock (cache_mutex s') = 0 \<and> fs_preempt s' = fs_preempt s \<and> fs_heap s' = h' \<and> supers s' = supers s \<and>
        (\<forall>y. y \<noteq> p + 8 \<longrightarrow> inodes s' y = inodes s y)"
proof -
  note d = rel_listsD [OF assms(1)]
  let ?k = "(ino, dev_of sb s)" and ?x = "p + 8"
  define s1 where "s1 = s\<lparr>cache_mutex := \<lparr>lock = 1\<rparr>, fs_preempt := fs_preempt s + 1\<rparr>"
  define s2 where "s2 = s1\<lparr>inodes := (inodes s)(?x := zero_inode\<lparr>i_sb := sb, i_ino := ino\<rparr>),
    inode_nodes := (inode_nodes s)(?x := \<lparr>dnext = None, dprev = None\<rparr>), inode_hdr := (inode_hdr s)(?x := 0), fs_heap := h'\<rparr>"
  have s1: "inodes s1 = inodes s" "inode_nodes s1 = inode_nodes s" "buckets s1 = buckets s" "supers s1 = supers s"
    "fs_heap s1 = fs_heap s" "inode_hdr s1 = inode_hdr s" by (simp_all add: s1_def)
  have k1: "key_of s1 = key_of s" by (simp add: key_of_def dev_of_def s1 fun_eq_iff)
  have "dseg (inode_nodes s1) (buckets s1 (bucket_of ?k)) (L (bucket_of ?k))" using d(1) by (simp add: s1 bucket_list_def)
  then have f: "cache_find ino (dev_of sb s) (buckets s1 (bucket_of ?k)) s1 = Some (Inr None)"
    using cache_find_ok [of s1 "buckets s1 (bucket_of ?k)" "L (bucket_of ?k)" ino "dev_of sb s"] d(3)
      rel_find [OF assms(1), of ?k] assms(5) by (simp add: s1 k1)
  define sa where "sa = s1\<lparr>inodes := (inodes s)(?x := zero_inode\<lparr>i_sb := sb\<rparr>),
    inode_nodes := (inode_nodes s)(?x := \<lparr>dnext = None, dprev = None\<rparr>), inode_hdr := (inode_hdr s)(?x := 0), fs_heap := h'\<rparr>"
  have al: "initrd_alloc_inode sb s1 = Some (Inr (?x, sa))"
    using assms(6) by (simp add: initrd_alloc_inode_def s1 sa_def clear_inode_def set_inode_def Let_def)
  have "set_inode ?x ((inodes sa ?x)\<lparr>i_ino := ino\<rparr>) sa = s2" by (simp add: set_inode_def sa_def s2_def)
  then have alloc: "inode_load m sb ino hash s1 = rbind (Some (initrd_read_inode m sb ?x s2)) (\<lambda>(rv, s).
      if rv \<noteq> 0 then rbind (Some (initrd_dealloc_inode ?x s)) (\<lambda>s. Some (Inr (0, s)))
      else if kref_read (i_rc (inodes s ?x)) \<noteq> 0 then Some (Inl Panic)
      else Some (Inr (?x, cache_add hash ?x s)))" for hash
    using assms(4,7) by (auto simp: inode_load_def al ops_of_def s1)
  have get: "inode_get m sb ino s = rbind (inode_load m sb ino (bucket_of ?k) s1) (\<lambda>(inode, s).
      if inode = 0 then Some (Inl Null_access)
      else let s = set_inode inode ((inodes s inode)\<lparr>i_rc := kref_inc (i_rc (inodes s inode))\<rparr>) s
           in Some (Inr (inode, cache_unlock s)))"
    using assms(2,3) f cache_lock_free [of s] unfolding s1_def [symmetric] by (simp add: inode_get_def bucket_of_def Let_def)
  have st: "stored m sb ino s2 = stored m sb ino s" by (simp add: stored_def s2_def s1_def)
  note read = read_inode_ok [of s2 ?x ino sb m, unfolded st]
  show ?thesis
  proof (cases "stored m sb ino s")
    case None
    then have r: "rv \<noteq> 0" if "initrd_read_inode m sb ?x s2 = Inr (rv, s')" for rv s' using read that by (auto simp: s2_def)
    have "inode_load m sb ino (bucket_of ?k) s1 \<noteq> Some (Inr (x, s'))" if "x \<noteq> 0" for x s'
      using that unfolding alloc by (cases "initrd_read_inode m sb ?x s2") (auto simp: rbind_Inr split: if_splits dest!: r)
    then show ?thesis using None unfolding get by (auto simp: rbind_Inr split: if_splits)
  next
    case (Some mode)
    then obtain i where i: "initrd_read_inode m sb ?x s2 = Inr (0, set_inode ?x i s2)" "i_ino i = ino" "i_sb i = sb"
      "i_rc i = \<lparr>var32 = 0\<rparr>" "i_mode i = mode" using read by (auto simp: s2_def zero_inode_def)
    obtain b n where add: "hlist_add (buckets s (bucket_of ?k)) ((inode_nodes s)(?x := \<lparr>dnext = None, dprev = None\<rparr>)) ?x = (b, n)"
      by fastforce
    define s' where "s' = cache_unlock (set_inode ?x (i\<lparr>i_rc := \<lparr>var32 = 1\<rparr>\<rparr>)
        (s2\<lparr>buckets := (buckets s)(bucket_of ?k := b), inode_nodes := n\<rparr>))"
    have load: "inode_load m sb ino (bucket_of ?k) s1 =
        Some (Inr (?x, (set_inode ?x i s2)\<lparr>buckets := (buckets s)(bucket_of ?k := b), inode_nodes := n\<rparr>))"
      using i(4) add unfolding alloc i(1)
      by (simp add: kref_read_def atomic_read32_def cache_add_def set_inode_def s2_def s1)
    have g: "inode_get m sb ino s = Some (Inr (?x, s'))" unfolding get load
      using assms(7) i(4) by (simp add: s'_def set_inode_def kref_inc_def atomic_inc_read32_def Let_def)
    have f': "inode_nodes s' = n" "buckets s' = (buckets s)(bucket_of ?k := b)" "supers s' = supers s"
      "inodes s' = (inodes s)(?x := i\<lparr>i_rc := \<lparr>var32 = 1\<rparr>\<rparr>)"
      by (simp_all add: s'_def set_inode_def s2_def s1)
    have "rel_lists s' (L(bucket_of ?k := ?x # L (bucket_of ?k))) (M(?k \<mapsto> (?x, 1)))"
      using i(2,3) assms(3,4) by (intro rel_add [OF assms(1,5,7,8) _ _ _ _ add refl f']) simp_all
    then show ?thesis using Some g i(5) by (auto simp: s'_def set_inode_def s2_def s1_def)
  qed
qed

lemma put_ok:
  assumes "rel_lists s L M" and "lock (cache_mutex s) = 0" and "M k = Some (a, n)"
    and "n = 1 \<Longrightarrow> kfree (fs_heap s) (a - 8) = Inr h'"
  shows "\<exists>s' L'. inode_put a s = Some (Inr s') \<and> rel_lists s' L' (M(k := if n = 1 then None else Some (a, n - 1))) \<and>
    lock (cache_mutex s') = 0 \<and> fs_preempt s' = fs_preempt s \<and> fs_heap s' = (if n = 1 then h' else fs_heap s) \<and> supers s' = supers s"
proof -
  note d = rel_listsD [OF assms(1)]
  have a: "a \<in> set (L (bucket_of k))" "key_of s a = k" "refs s a = n" using assms(3) d(4) by auto
  note e = d(3) [OF a(1)]
  define s1 where "s1 = s\<lparr>cache_mutex := \<lparr>lock = 1\<rparr>, fs_preempt := fs_preempt s + 1\<rparr>"
  have s1: "inodes s1 = inodes s" "inode_nodes s1 = inode_nodes s" "buckets s1 = buckets s" "supers s1 = supers s"
    "fs_heap s1 = fs_heap s" by (simp_all add: s1_def)
  define r where "r = var32 (i_rc (inodes s a)) - 1"
  have one: "1 \<le> var32 (i_rc (inodes s a))" using e by (simp add: refs_def word_le_nat_alt unat_gt_0 Suc_le_eq)
  have r: "unat r = n - 1" using a(3) unat_sub [OF one] by (simp add: r_def refs_def)
  have n: "0 < n" using e a(3) by simp
  have dec: "kref_dec_read (i_rc (inodes s a)) = (r, \<lparr>var32 = r\<rparr>)"
    by (cases "i_rc (inodes s a)") (simp add: kref_dec_read_def atomic_dec_read32_def r_def Let_def)
  define s2 where "s2 = set_inode a ((inodes s a)\<lparr>i_rc := \<lparr>var32 = r\<rparr>\<rparr>) s1"
  have h: "unat (hash_inode (i_ino (inodes s a)) (dev_of (i_sb (inodes s a)) s)) = bucket_of k"
    using a(2) by (auto simp: bucket_of_def key_of_def)
  let ?cr = "cache_remove (bucket_of k) a s2"
  have ops: "ops_of (i_sb (inodes ?cr a)) ?cr = ops_of (i_sb (inodes s a)) s"
    by (simp add: cache_remove_def case_prod_unfold Let_def s2_def set_inode_def s1 ops_of_def)
  have put: "inode_put a s = rbind (if r = 0 then
        if ops_of (i_sb (inodes s a)) s = None then Some (Inl Panic) else Some (initrd_dealloc_inode a (cache_remove (bucket_of k) a s2))
      else Some (Inr s2)) (\<lambda>s. Some (Inr (cache_unlock s)))"
    using e dec h assms(2) cache_lock_free [of s] unfolding s1_def [symmetric]
    by (simp add: inode_put_def s1 s2_def [symmetric] ops cong: if_cong)
  show ?thesis
  proof (cases "n = 1")
    case False
    then have "r \<noteq> 0" using r n by auto
    moreover have "rel_lists (cache_unlock s2) L (M(k \<mapsto> (a, n - 1)))" unfolding r [symmetric]
      by (rule rel_refs [OF assms(1,3) calculation]) (simp_all add: s2_def set_inode_def s1)
    ultimately show ?thesis using False unfolding put by (auto simp: s2_def set_inode_def s1 s1_def)
  next
    case True
    then have r0: "r = 0" using r by (simp add: unat_eq_0)
    obtain b w where rm: "hlist_remove (buckets s (bucket_of k)) (inode_nodes s) a = (b, w)" by fastforce
    define s' where "s' = cache_unlock (s2\<lparr>buckets := (buckets s)(bucket_of k := b), inode_nodes := w, fs_heap := h'\<rparr>)"
    have "inode_put a s = Some (Inr s')" using r0 e rm assms(4) [OF True] unfolding put
      by (simp add: initrd_dealloc_inode_def cache_remove_def s'_def s2_def set_inode_def s1)
    moreover have "rel_lists s' (L(bucket_of k := remove1 a (L (bucket_of k)))) (M(k := None))"
      by (rule rel_remove [OF assms(1,3) rm]) (simp_all add: s'_def s2_def set_inode_def s1)
    ultimately show ?thesis using True by (auto simp: s'_def s2_def set_inode_def s1 s1_def)
  qed
qed

text \<open>
  C30. inode_get implements a lookup in the map of cached inodes.  The map has, for an inode number
  and a device, the inode and its number of references.  With the mutex free, an inode in the map
  is returned with one reference more.  Otherwise, when the allocator hands out a block that no
  cached inode occupies, the new inode has the mode that the RAM disk stores under the number
  and enters the map with one reference; with a number under which nothing can be read the
  call does not return normally.  The mutex is free again after a call that returns, and a count of references that
  would wrap around is excluded.
\<close>

theorem inode_get_refines:
  assumes "cache_rel s M" and "lock (cache_mutex s) = 0" and "sb \<noteq> 0" and "ops_of sb s \<noteq> None" and "k = (ino, dev_of sb s)"
  shows "case M k of
      Some (a, n) \<Rightarrow> n + 1 < 2 ^ 32 \<longrightarrow>
        (\<exists>s'. inode_get m sb ino s = Some (Inr (a, s')) \<and> cache_rel s' (M(k \<mapsto> (a, n + 1))) \<and> lock (cache_mutex s') = 0)
    | None \<Rightarrow> \<forall>p h. kmalloc (fs_heap s) sizeof_initrd_inode = Some (Inr (p, h)) \<and> p + 8 \<noteq> 0 \<and> (\<forall>j n. M j \<noteq> Some (p + 8, n)) \<longrightarrow>
        (case stored m sb ino s of
           None \<Rightarrow> \<forall>r. inode_get m sb ino s \<noteq> Some (Inr r)
         | Some mode \<Rightarrow> \<exists>s'. inode_get m sb ino s = Some (Inr (p + 8, s')) \<and> cache_rel s' (M(k \<mapsto> (p + 8, 1))) \<and>
             i_mode (inodes s' (p + 8)) = mode \<and> lock (cache_mutex s') = 0)"
proof -
  obtain L where L: "rel_lists s L M" using assms(1) by (auto simp: cache_rel_def)
  show ?thesis
  proof (cases "M k")
    case None
    show ?thesis unfolding None option.case
    proof (intro allI impI)
      fix p h
      assume *: "kmalloc (fs_heap s) sizeof_initrd_inode = Some (Inr (p, h)) \<and> p + 8 \<noteq> 0 \<and> (\<forall>j n. M j \<noteq> Some (p + 8, n))"
      show "case stored m sb ino s of None \<Rightarrow> \<forall>r. inode_get m sb ino s \<noteq> Some (Inr r)
         | Some mode \<Rightarrow> \<exists>s'. inode_get m sb ino s = Some (Inr (p + 8, s')) \<and> cache_rel s' (M(k \<mapsto> (p + 8, 1))) \<and>
             i_mode (inodes s' (p + 8)) = mode \<and> lock (cache_mutex s') = 0"
        using get_miss [OF L assms(2-4), of ino p h m] None * assms(5)
        by (cases "stored m sb ino s") (auto simp: cache_rel_def)
    qed
  next
    case (Some r)
    then show ?thesis using get_hit [OF L assms(2,3), of ino "fst r" "snd r" m] assms(5)
      by (cases r) (auto simp: cache_rel_def)
  qed
qed

text \<open>
  C31. inode_put gives a reference back.  For a cached inode with more than one reference the number
  drops by one; with the last reference, and a heap that accepts the block, the inode leaves the map and its block is freed.  All
  other inodes stay cached with their references, and the mutex is free afterwards.
\<close>

theorem inode_put_refines:
  assumes "cache_rel s M" and "lock (cache_mutex s) = 0" and "M k = Some (a, n)"
    and "n = 1 \<longrightarrow> kfree (fs_heap s) (a - 8) = Inr h"
  shows "\<exists>s'. inode_put a s = Some (Inr s') \<and> cache_rel s' (M(k := if n = 1 then None else Some (a, n - 1))) \<and>
    fs_heap s' = (if n = 1 then h else fs_heap s) \<and> lock (cache_mutex s') = 0"
  using assms put_ok [of s _ M k a n h] unfolding cache_rel_def by blast

section \<open>Mounting and lookup\<close>

lemma rel_empty: "cache_rel s Map.empty \<longleftrightarrow> (\<forall>h. buckets s h = None)"
proof
  assume "cache_rel s Map.empty"
  then obtain L where L: "rel_lists s L Map.empty" by (auto simp: cache_rel_def)
  note d = rel_listsD [OF L]
  have "L h = []" for h
  proof (rule ccontr)
    assume "L h \<noteq> []"
    then have x: "hd (L h) \<in> set (L h)" by simp
    then show False using d(3) [OF x] d(4) [where k = "key_of s (hd (L h))" and a = "hd (L h)" and n = "refs s (hd (L h))"] by simp
  qed
  then show "\<forall>h. buckets s h = None" using d(1) by (simp add: bucket_list_def)
next
  assume "\<forall>h. buckets s h = None"
  then have "rel_lists s (\<lambda>_. []) Map.empty" by (simp add: rel_lists_def cache_inv_def bucket_list_def)
  then show "cache_rel s Map.empty" by (auto simp: cache_rel_def)
qed

lemma rel_frame:
  assumes "rel_lists s L M" and "inode_nodes s' = inode_nodes s" "buckets s' = buckets s"
    and "\<And>k a n. M k = Some (a, n) \<Longrightarrow> inodes s' a = inodes s a"
    and "\<And>z. dev_of z s' = dev_of z s" "\<And>z. ops_of z s' = ops_of z s"
  shows "rel_lists s' L M"
proof -
  note d = rel_listsD [OF assms(1)]
  have i: "inodes s' x = inodes s x" if "x \<in> set (L h)" for x h
    using d(3) [OF that] that d(4) [of "key_of s x" x "refs s x"] assms(4) by simp
  then have k: "key_of s' x = key_of s x" "refs s' x = refs s x" if "x \<in> set (L h)" for x h
    using that assms(5) by (simp_all add: key_of_def refs_def)
  have "cache_inv s' L" unfolding cache_inv_def assms(2,3,6)
    using d(1-3) i k by (auto simp: inj_on_def)
  moreover have "M j = Some (a, n) \<longleftrightarrow> a \<in> set (L (bucket_of j)) \<and> key_of s' a = j \<and> refs s' a = n" for j a n
    using d(4) [of j a n] k [of a "bucket_of j"] by auto
  ultimately show ?thesis unfolding rel_lists_def by blast
qed

lemma scan_headers_out:
  assumes "scan_headers m dir_name dir_len name len out cur = Some y"
  shows "y = Inr r \<longrightarrow> r = 0 \<or> r = out"
  using assms
proof (induction rule: scan_headers.raw_induct [rotated 1, consumes 1])
  case (1 scan m dir_name dir_len name len out cur y)
  show ?case using 1(2) by (auto simp: Let_def bind_eq_Some_conv split: if_splits sum.splits dest!: 1(1))
qed

lemma vfs_lookup_null:
  assumes "vfs_lookup m slash dir name len s = Some (Inr (e, out))"
  shows "out = 0"
  using assms scan_headers_out [of m _ _ name len 0]
  by (auto simp: vfs_lookup_def initrd_dir_lookup_inode_def Let_def rbind_Inr split: if_splits option.splits inode_operations.splits)

text \<open>
  C32. vfs_init mounts the RAM disk, but nothing can be found on it.  Starting with an empty cache and
  three blocks from the allocator that are distinct from each other and from the static root
  inode, the call returns with the root directory of the RAM disk as the only cached inode,
  with one reference, and the static inode marked as a mount point.  The inode mounted there
  is not that directory but an empty one; a lookup in either of the two, for any name, fails
  with ENOTDIR, and every lookup that returns, in any directory, leaves a null result.
\<close>

theorem vfs_init_mounts:
  assumes "cache_rel s Map.empty" and "lock (cache_mutex s) = 0" and "vfs_root \<noteq> 0"
    and "kmalloc (fs_heap s) sizeof_initrd_fs = Some (Inr (f, h1))" and "kmalloc h1 sizeof_inode = Some (Inr (i, h2))"
    and "kmalloc h2 sizeof_initrd_inode = Some (Inr (p, h3))"
    and "f \<noteq> 0" and "distinct [0, vfs_root, i, p + 8]"
  shows "\<exists>s'. vfs_init m vfs_root s = Some (Inr s') \<and> cache_rel s' [(1, 1) \<mapsto> (p + 8, 1)] \<and>
     i_mode (inodes s' (p + 8)) = I_DIRECTORY \<and> fs_root (supers s' f) = p + 8 \<and>
     i_mode (inodes s' vfs_root) = I_MOUNT \<and> i_mounted (inodes s' vfs_root) = i \<and> inodes s' i = zero_inode \<and>
     (\<forall>slash name len. vfs_lookup m slash vfs_root name len s' = Some (Inr (ENOTDIR, 0)) \<and>
        vfs_lookup m slash i name len s' = Some (Inr (ENOTDIR, 0)) \<and>
        (\<forall>dir e out. vfs_lookup m slash dir name len s' = Some (Inr (e, out)) \<longrightarrow> out = 0))"
proof -
  define s1 where "s1 = (clear_inode i (clear_inode vfs_root s))\<lparr>fs_heap := h2,
    supers := (supers s)(f := \<lparr>fs_super = \<lparr>sb_dev = 1, sb_root = i, sb_ops = Some Initrd_super_ops\<rparr>,
                               fs_root_hdr = 0, fs_root = 0\<rparr>)\<rparr>"
  have s1: "inodes s1 vfs_root = zero_inode" "inodes s1 i = zero_inode" "dev_of f s1 = 1" "ops_of f s1 \<noteq> None"
    "lock (cache_mutex s1) = 0" "fs_heap s1 = h2" "sb_root (fs_super (supers s1 f)) = i"
    using assms(2,8) by (auto simp: s1_def clear_inode_def set_inode_def dev_of_def ops_of_def)
  have e1: "cache_rel s1 Map.empty" using assms(1) by (simp add: rel_empty s1_def clear_inode_def set_inode_def)
  then obtain L where L: "rel_lists s1 L Map.empty" by (auto simp: cache_rel_def)
  have "stored m f 1 s1 = Some I_DIRECTORY" by (simp add: stored_def)
  then obtain s2 L2 where g: "inode_get m f 1 s1 = Some (Inr (p + 8, s2))" "rel_lists s2 L2 [(1, 1) \<mapsto> (p + 8, 1)]"
      "i_mode (inodes s2 (p + 8)) = I_DIRECTORY" "supers s2 = supers s1" "\<forall>y. y \<noteq> p + 8 \<longrightarrow> inodes s2 y = inodes s1 y"
    using get_miss [OF L s1(5) assms(7) s1(4), where ino = 1 and p = p and h' = h3 and m = m] assms(6,8) s1(3,6) by auto
  define s3 where "s3 = s2\<lparr>supers := (supers s2)(f := (supers s2 f)\<lparr>fs_root := p + 8\<rparr>)\<rparr>"
  define s' where "s' = set_inode vfs_root ((inodes s2 vfs_root)\<lparr>i_sb := f, i_mounted := i, i_mode := I_MOUNT\<rparr>) s3"
  have sup: "initrd_get_super m (clear_inode vfs_root s) = Some (Inr (f, s3))"
    using assms(4,5) g(1) by (simp add: initrd_get_super_def clear_inode_def set_inode_def s1_def s3_def INITRD_ROOT_INO_def)
  have init: "vfs_init m vfs_root s = Some (Inr s')"
    using assms(3) sup g(4) s1(7) by (simp add: vfs_init_def vfs_mount_def s'_def clear_inode_def set_inode_def zero_inode_def I_MOUNT_def s3_def)
  have "rel_lists s' L2 [(1, 1) \<mapsto> (p + 8, 1)]"
    using assms(8) by (intro rel_frame [OF g(2)]) (auto simp: s'_def s3_def set_inode_def dev_of_def ops_of_def split: if_splits)
  moreover have "inodes s' i = zero_inode" "i_mode (inodes s' (p + 8)) = I_DIRECTORY" "i_mode (inodes s' vfs_root) = I_MOUNT"
    "i_mounted (inodes s' vfs_root) = i" "fs_root (supers s' f) = p + 8"
    using assms(8) g(3,5) s1 by (auto simp: s'_def s3_def set_inode_def)
  moreover have "vfs_lookup m slash vfs_root name len s' = Some (Inr (ENOTDIR, 0))"
    "vfs_lookup m slash i name len s' = Some (Inr (ENOTDIR, 0))" for slash name len
    using assms(3,8) calculation(2,4) by (auto simp: vfs_lookup_def I_MOUNT_def I_DIRECTORY_def zero_inode_def)
  ultimately show ?thesis using init vfs_lookup_null unfolding cache_rel_def by blast
qed

section \<open>The archive\<close>

fun octal :: "nat \<Rightarrow> nat \<Rightarrow> nat list" where
  "octal 0 n = []"
| "octal (Suc k) n = octal k (n div 8) @ [n mod 8]"

lemma length_octal [simp]: "length (octal k n) = k"
  by (induction k arbitrary: n) auto

lemma oct_append:
  "ustar_oct_to_bin m c (k + l) n = ustar_oct_to_bin m (c + of_nat k) l (ustar_oct_to_bin m c k n)"
  by (induction k arbitrary: c n) (simp_all add: algebra_simps)

lemma oct_octal:
  assumes "\<forall>j < k. m (c + of_nat j) = 0x30 + of_nat (octal k n ! j)"
  shows "ustar_oct_to_bin m c k 0 = of_nat (n mod 8 ^ k)"
  using assms
proof (induction k arbitrary: n)
  case 0
  then show ?case by simp
next
  case (Suc k)
  have "ustar_oct_to_bin m c k 0 = of_nat (n div 8 mod 8 ^ k)"
    using Suc.prems by (intro Suc.IH) (simp add: nth_append)
  moreover have "ucast (m (c + of_nat k)) - 0x30 = (of_nat (n mod 8) :: u32)"
  proof -
    have "m (c + of_nat k) = 0x30 + of_nat (n mod 8)" using Suc.prems by (simp add: nth_append)
    moreover have "n mod 8 < 8" by simp
    ultimately have "unat (m (c + of_nat k)) = 48 + n mod 8" by (simp add: unat_word_ariths unat_of_nat)
    then have "ucast (m (c + of_nat k)) = (of_nat (48 + n mod 8) :: u32)" by (metis of_nat_unat)
    then show ?thesis by simp
  qed
  moreover have "n mod 8 ^ Suc k = n div 8 mod 8 ^ k * 8 + n mod 8" using mod_mult2_eq [of n 8 "8 ^ k"] by (simp add: mult.commute)
  ultimately show ?case using oct_append [of m c k 1 0] by simp
qed

text \<open>
  The walk to the next header: for an aligned header whose size field holds the octal digits of
  the size, the size is read back, but the header itself is not counted.  The address is the
  end of the file rounded up to a block as if its data began where the header does, 512 bytes
  before the next header; for an empty file it is the same header again.
\<close>

lemma ustar_next_header:
  assumes "unat cur mod 512 = 0" and "m cur \<noteq> 0" and "cur \<noteq> 0" and "n < 2 ^ 32" and "unat cur + n + 1024 < 2 ^ 64"
    and "\<forall>j < 11. m (cur + 124 + of_nat j) = 0x30 + of_nat (octal 11 n ! j)"
  shows "ustar_size m cur = of_nat n \<and>
    ustar_nth_from_entry m cur 1 = Inr (ustar_file_start cur + of_nat (512 * ((n + 511) div 512)) - 512)"
proof -
  have sz: "ustar_size m cur = of_nat n"
    using oct_octal [OF assms(6)] assms(4) by (simp add: ustar_size_def)
  have un: "unat (ucast (of_nat n :: u32) :: u64) = n"
    using assms(4) by (simp add: unsigned_ucast_eq unat_of_nat take_bit_nat_eq_self)
  let ?b = "512 * ((n + 511) div 512)"
  have b: "?b < n + 512" by linarith
  have u: "unat (cur + ucast (of_nat n :: u32)) = unat cur + n" using assms(5) un by (simp add: nowrap)
  obtain q where q: "unat cur = 512 * q" using assms(1) by fastforce
  have "unat (ALIGNUP (cur + ucast (of_nat n :: u32)) (2 ^ 9)) = (unat cur + n + 2 ^ 9 - 1) div 2 ^ 9 * 2 ^ 9"
    using assms(5) unfolding u [symmetric] by (intro unat_ALIGNUP) (simp_all add: u)
  also have "\<dots> = unat cur + ?b"
  proof -
    have "(512 * q + n + 2 ^ 9 - 1) div 2 ^ 9 = q + (n + 511) div 512" using div_mult_self2 [of 512 "n + 511" q] by (simp add: add_ac)
    then show ?thesis unfolding q by simp
  qed
  also have "\<dots> = unat (cur + of_nat ?b)"
    using assms(5) b by (subst unat_add_u64) (simp_all add: nowrap)
  finally have "ALIGNUP (cur + ucast (of_nat n :: u32)) USTAR_BLOCK = cur + of_nat ?b"
    by (simp add: USTAR_BLOCK_def unsigned_word_eqI)
  then show ?thesis using assms(2,3) sz by (simp add: ustar_file_start_def USTAR_BLOCK_def)
qed

section \<open>Examples\<close>

lemma ex_kmallocs:
  "\<exists>h1 h2 h3. kmalloc (ex_heap 0x1000 255) sizeof_initrd_fs = Some (Inr (0x1010, h1)) \<and>
     kmalloc h1 sizeof_inode = Some (Inr (0x1050, h2)) \<and> kmalloc h2 sizeof_initrd_inode = Some (Inr (0x10A0, h3))"
proof -
  define h1 where "h1 = poison (take_larger (ex_heap 0x1000 255) 3 0 0x1000) 0x1010 40"
  define h2 where "h2 = poison (take_larger h1 4 0 0x1040) 0x1050 56"
  define h3 where "h3 = poison (take_larger h2 4 0 0x1090) 0x10A0 64"
  have u: "DIV_ROUND_UP 40 UNIT = 3" "DIV_ROUND_UP 56 UNIT = 4" "DIV_ROUND_UP 64 UNIT = 4"
    by (simp_all add: DIV_ROUND_UP_def UNIT_def)
  have l: "40 < BIGALLOC" "56 < BIGALLOC" "64 < BIGALLOC" by (simp_all add: BIGALLOC_def PAGE_SIZE_def UNIT_def)
  note d = take_larger_def set_blk_units_def set_blk_next_def blk_units_def blk_next_def poison_def UNIT_def Let_def
  have f0: "slob_head (ex_heap 0x1000 255) = 0x1000" "blk_units (ex_heap 0x1000 255) 0x1000 = 255"
    by (simp_all add: ex_heap_def blk_units_def)
  have 1: "kmalloc (ex_heap 0x1000 255) 40 = Some (Inr (0x1010, h1))"
    using kmalloc_front [OF f0(1) _ l(1) u(1)] f0(2) by (simp add: UNIT_def h1_def)
  have f1: "slob_head h1 = 0x1040" "blk_units h1 0x1040 = 251" by (simp_all add: h1_def d ex_heap_def)
  have 2: "kmalloc h1 56 = Some (Inr (0x1050, h2))"
    using kmalloc_front [OF f1(1) _ l(2) u(2)] f1(2) by (simp add: UNIT_def h2_def)
  have f2: "slob_head h2 = 0x1090" "blk_units h2 0x1090 = 246" using f1 by (simp_all add: h2_def d)
  have 3: "kmalloc h2 64 = Some (Inr (0x10A0, h3))"
    using kmalloc_front [OF f2(1) _ l(3) u(3)] f2(2) by (simp add: UNIT_def h3_def)
  show ?thesis using 1 2 3 by (simp add: sizeof_initrd_fs_def sizeof_inode_def sizeof_initrd_inode_def)
qed

definition ex_fs :: fs where
  "ex_fs = \<lparr>inodes = (\<lambda>_. zero_inode), inode_nodes = (\<lambda>_. \<lparr>dnext = None, dprev = None\<rparr>), inode_hdr = (\<lambda>_. 0),
     supers = (\<lambda>_. \<lparr>fs_super = \<lparr>sb_dev = 1, sb_root = 0, sb_ops = Some Initrd_super_ops\<rparr>, fs_root_hdr = 0, fs_root = 0\<rparr>),
     buckets = (\<lambda>_. None), cache_mutex = \<lparr>lock = 0\<rparr>, fs_preempt = 0, fs_heap = ex_heap 0x1000 255\<rparr>"

theorem vfs_init_mounts_witness:
  "\<exists>s'. vfs_init (\<lambda>_. 0) 0x800 ex_fs = Some (Inr s') \<and> cache_rel s' [(1, 1) \<mapsto> (0x10A8, 1)] \<and>
     i_mounted (inodes s' 0x800) = 0x1050 \<and> vfs_lookup (\<lambda>_. 0) 0 0x800 0 2 s' = Some (Inr (ENOTDIR, 0))"
proof -
  obtain h1 h2 h3 where k: "kmalloc (ex_heap 0x1000 255) sizeof_initrd_fs = Some (Inr (0x1010, h1))"
     "kmalloc h1 sizeof_inode = Some (Inr (0x1050, h2))" "kmalloc h2 sizeof_initrd_inode = Some (Inr (0x10A0, h3))"
    using ex_kmallocs by blast
  have "cache_rel ex_fs Map.empty" "lock (cache_mutex ex_fs) = 0" "fs_heap ex_fs = ex_heap 0x1000 255"
    by (simp_all add: rel_empty ex_fs_def)
  then show ?thesis using vfs_init_mounts [of ex_fs "0x800" "0x1010" h1 "0x1050" h2 "0x10A0" h3 "\<lambda>_. 0"] k by auto
qed

theorem inode_get_refines_witness:
  "\<exists>s'. inode_get (\<lambda>_. 0) 0x900 1 ex_fs = Some (Inr (0x1018, s')) \<and> cache_rel s' [(1, 1) \<mapsto> (0x1018, 1)] \<and>
     i_mode (inodes s' 0x1018) = I_DIRECTORY"
proof -
  have u: "DIV_ROUND_UP 64 UNIT = 4" and l: "64 < BIGALLOC"
    by (simp_all add: DIV_ROUND_UP_def BIGALLOC_def PAGE_SIZE_def UNIT_def)
  have f: "slob_head (fs_heap ex_fs) = 0x1000" "blk_units (fs_heap ex_fs) 0x1000 = 255"
    by (simp_all add: ex_fs_def ex_heap_def blk_units_def)
  obtain h where k: "kmalloc (fs_heap ex_fs) sizeof_initrd_inode = Some (Inr (0x1010, h))"
    using kmalloc_front [OF f(1) _ l u] f(2) by (simp add: sizeof_initrd_inode_def UNIT_def)
  have e: "cache_rel ex_fs Map.empty" "lock (cache_mutex ex_fs) = 0" "ops_of 0x900 ex_fs \<noteq> None" "dev_of 0x900 ex_fs = 1"
    by (simp_all add: rel_empty ex_fs_def ops_of_def dev_of_def)
  have "stored (\<lambda>_. 0) 0x900 1 ex_fs = Some I_DIRECTORY" by (simp add: stored_def)
  then show ?thesis using inode_get_refines [OF e(1,2) _ e(3) refl, where ino = 1 and m = "\<lambda>_. 0"] k e(4) by auto
qed

theorem inode_put_refines_witness:
  "\<exists>s s'. inode_put 0x1018 s = Some (Inr s') \<and> cache_rel s [(1, 1) \<mapsto> (0x1018, 2)] \<and> cache_rel s' [(1, 1) \<mapsto> (0x1018, 1)]"
proof -
  define s where "s = ex_fs\<lparr>inodes := (inodes ex_fs)(0x1018 := zero_inode\<lparr>i_ino := 1, i_sb := 0x900, i_rc := \<lparr>var32 = 2\<rparr>\<rparr>),
    buckets := (buckets ex_fs)(201 := Some 0x1018)\<rparr>"
  have h: "bucket_of (1, 1) = 201" unfolding bucket_of_def hash_closed byte_up(2) by simp
  have k: "key_of s 0x1018 = (1, 1)" "refs s 0x1018 = 2" by (simp_all add: s_def ex_fs_def key_of_def dev_of_def refs_def)
  have "rel_lists s ((\<lambda>_. [])(201 := [0x1018])) [(1, 1) \<mapsto> (0x1018, 2)]"
    unfolding rel_lists_def cache_inv_def using h k
    by (auto simp: bucket_list_def) (simp_all add: s_def ex_fs_def ops_of_def)
  then have r: "cache_rel s [(1, 1) \<mapsto> (0x1018, 2)]" by (auto simp: cache_rel_def)
  then show ?thesis using inode_put_refines [OF r, of "(1, 1)" "0x1018" 2 "fs_heap s"] by (auto simp: s_def ex_fs_def)
qed

end
