(* ===== verification/Boot_Asm.thy ===== *)
theory Boot_Asm
  imports Smp
begin

text \<open>
  The first instructions of the kernel, \<^verbatim>\<open>kernel/boot.asm\<close>: the checks of the boot loader and of the
  processor, the first page tables, the control registers, and the descriptor table with the
  task state segment.  Physical memory is split into frames of 512 words as in the theory of the page
  tables; what the linker decides is a record of addresses, and what the boot loader passes
  and the processor answers is another one.  The stack of this code is not part of the state.
\<close>

unbundle bit_operations_syntax

section \<open>State\<close>

text \<open>
  The addresses the linker assigns.  \<open>p4_frame\<close> is the frame of \<^verbatim>\<open>p4_table\<close>; the other tables follow it page by page
  in the order of their declarations, up to the first page of the stack, which is \<^verbatim>\<open>p3_table_temp\<close>.
\<close>

record link_addrs =
  text_begin :: u32
  text_end :: u32
  rodata_begin :: u32
  rodata_end :: u32
  kernel_end :: u32
  p4_frame :: nat
  gdt_addr :: u64
  tss_addr :: u64

abbreviation p3_frame :: "link_addrs \<Rightarrow> nat" where "p3_frame k \<equiv> p4_frame k + 1"
abbreviation lower_p3_frame :: "link_addrs \<Rightarrow> nat" where "lower_p3_frame k \<equiv> p4_frame k + 2"
abbreviation p2_frame :: "link_addrs \<Rightarrow> nat" where "p2_frame k \<equiv> p4_frame k + 3"
abbreviation p1_frame :: "link_addrs \<Rightarrow> nat \<Rightarrow> nat" where "p1_frame k n \<equiv> p4_frame k + 4 + n"
abbreviation temp_frame :: "link_addrs \<Rightarrow> nat" where "temp_frame k \<equiv> p4_frame k + 12"

text \<open>
  The registers at the entry, whether the identification flag can be flipped, the
  highest extended function of \<^verbatim>\<open>cpuid\<close>, and the feature bits of function 0x80000001.
\<close>

record boot_machine =
  entry_eax :: u32
  entry_ebx :: u32
  flips_id :: bool
  max_ext :: u32
  ext_features :: u32

record boot_state =
  bt_frames :: "nat \<Rightarrow> nat \<Rightarrow> u64"
  bt_screen :: "nat \<Rightarrow> u16"
  bt_ports :: io
  bt_cr0 :: u32
  bt_cr3 :: u32
  bt_cr4 :: u32
  bt_efer :: u32
  bt_gdt :: "nat \<Rightarrow> u64"
  bt_gdtr :: "u64 \<times> u16"

section \<open>Screen and cursor\<close>

definition clear_screen :: "boot_state \<Rightarrow> boot_state" where
  "clear_screen b = b\<lparr>bt_screen := (\<lambda>i. if i < 2000 then 0x0F20 else bt_screen b i)\<rparr>"

definition set_cursor :: "boot_state \<Rightarrow> boot_state" where
  "set_cursor b = b\<lparr>bt_ports := out_ports [(0x3D4, 0x09), (0x3D5, 0x0F), (0x3D4, 0x0B), (0x3D5, 0x0F), (0x3D4, 0x0A), (0x3D5, 0x0E),
     (0x3D4, 0x0F), (0x3D5, 80), (0x3D4, 0x0E), (0x3D5, 0x00)] (bt_ports b)\<rparr>"

text \<open>Two characters of the message are written at a time; the last one is the code of the error.\<close>

definition boot_error :: "u8 \<Rightarrow> boot_state \<Rightarrow> boot_state" where
  "boot_error al b = b\<lparr>bt_screen := (bt_screen b)(0 := 0x4F45, 1 := 0x4F52, 2 := 0x4F52, 3 := 0x4F4F, 4 := 0x4F52, 5 := 0x4F3A,
     6 := 0x4F20, 7 := 0x4F00 OR ucast al)\<rparr>"

section \<open>Page tables\<close>

text \<open>The macro \<^verbatim>\<open>map_page\<close>: the low half of the entry is written, of the high half only the top bit is cleared.\<close>

definition map_page :: "nat \<Rightarrow> nat \<Rightarrow> nat \<Rightarrow> (nat \<Rightarrow> nat \<Rightarrow> u64) \<Rightarrow> nat \<Rightarrow> nat \<Rightarrow> u64" where
  "map_page table i target fr =
     (let low = (of_nat target * 0x1000 OR 0x3 :: u32);
          high = (ucast (drop_bit 32 (fr table i)) AND NOT 0x80000000 :: u32)
      in fr(table := (fr table)(i := push_bit 32 (ucast high) OR ucast low)))"

definition map_tables :: "link_addrs \<Rightarrow> (nat \<Rightarrow> nat \<Rightarrow> u64) \<Rightarrow> nat \<Rightarrow> nat \<Rightarrow> u64" where
  "map_tables k fr = fold (\<lambda>(table, i, target). map_page table i target)
     ([(p4_frame k, 511, p3_frame k), (p3_frame k, 510, p2_frame k)] @
      map (\<lambda>n. (p2_frame k, n, p1_frame k n)) [0 ..< 8] @
      [(p4_frame k, 256, lower_p3_frame k), (lower_p3_frame k, 0, p2_frame k),
       (p4_frame k, 0, temp_frame k), (temp_frame k, 0, p2_frame k)]) fr"

definition within_labels :: "u32 \<Rightarrow> u32 \<Rightarrow> u32 \<Rightarrow> bool" where
  "within_labels edx first stop \<longleftrightarrow> \<not> edx < first \<and> edx < stop"

definition p1_entry :: "link_addrs \<Rightarrow> nat \<Rightarrow> u64" where
  "p1_entry k ecx =
     (let edi = (0x1000 * of_nat ecx :: u32); esi = (0 :: u32);
          (edi, esi) =
            (if within_labels edi (text_begin k) (text_end k) then (edi AND NOT 0x2, esi AND NOT 0x80000000)
             else if within_labels edi (rodata_begin k) (rodata_end k) then (edi AND NOT 0x2, esi OR 0x80000000)
             else (edi OR 0x2, esi OR 0x80000000));
          edi = (edi OR 0x101) AND NOT 0x4
      in push_bit 32 (ucast esi) OR ucast edi)"

text \<open>The eight tables are written as one array.\<close>

definition map_p1 :: "link_addrs \<Rightarrow> (nat \<Rightarrow> nat \<Rightarrow> u64) \<Rightarrow> nat \<Rightarrow> nat \<Rightarrow> u64" where
  "map_p1 k fr = fold (\<lambda>ecx fr.
     let t = p1_frame k (ecx div 512) in fr(t := (fr t)(ecx mod 512 := p1_entry k ecx))) [0 ..< 512 * 8] fr"

section \<open>Control registers and descriptors\<close>

definition enable_sse :: "boot_state \<Rightarrow> boot_state" where
  "enable_sse b = b\<lparr>bt_cr0 := (bt_cr0 b AND 0xFFFB) OR 2, bt_cr4 := bt_cr4 b OR push_bit 9 3\<rparr>"

definition enable_paging :: "link_addrs \<Rightarrow> boot_state \<Rightarrow> boot_state" where
  "enable_paging k b = b\<lparr>bt_cr3 := of_nat (p4_frame k) * 0x1000, bt_cr4 := bt_cr4 b OR push_bit 5 1 OR push_bit 7 1,
     bt_efer := bt_efer b OR push_bit 8 1 OR push_bit 11 1, bt_cr0 := bt_cr0 b OR push_bit 31 1 OR push_bit 16 1\<rparr>"

text \<open>The words of \<^verbatim>\<open>gdt64\<close>: null, kernel code and data, an empty one, user data and code, and the task state segment.\<close>

definition gdt64 :: "nat \<Rightarrow> u64" where
  "gdt64 i = (if i < 8
     then [0, 0x00209A0000000000, 0x0000920000000000, 0, 0x0000F20000000000, 0x0020FA0000000000, 0x0000890000000067, 0] ! i else 0)"

definition gdt_size :: u16 where "gdt_size = 0x3F"

definition load_tss_base :: "u64 \<Rightarrow> (nat \<Rightarrow> u64) \<Rightarrow> nat \<Rightarrow> u64" where
  "load_tss_base tss g =
     (let low = put_byte (put_byte (put_byte (put_byte (g 6) 2 (get_byte tss 0)) 3 (get_byte tss 1)) 4 (get_byte tss 2)) 7 (get_byte tss 3);
          high = put_byte (put_byte (put_byte (put_byte (g 7) 0 (get_byte tss 4)) 1 (get_byte tss 5)) 2 (get_byte tss 6)) 3 (get_byte tss 7)
      in g(6 := low, 7 := high))"

text \<open>\<^verbatim>\<open>long_mode\<close> and \<^verbatim>\<open>higher_half\<close>\<close>

definition higher_half :: "link_addrs \<Rightarrow> boot_state \<Rightarrow> boot_state" where
  "higher_half k b =
     (let fr = bt_frames b;
          fr = fr(p4_frame k := (fr (p4_frame k))(0 := 0));
          fr = fr(temp_frame k := (fr (temp_frame k))(0 := 0))
      in b\<lparr>bt_gdt := load_tss_base (tss_addr k) (bt_gdt b), bt_gdtr := (gdt_addr k, gdt_size), bt_frames := fr\<rparr>)"

section \<open>The entry point\<close>

definition multiboot_ok :: "boot_machine \<Rightarrow> bool" where
  "multiboot_ok m \<longleftrightarrow> entry_eax m = 0x36D76289 \<and> entry_ebx m AND (8 - 1) = 0"

definition long_mode_ok :: "boot_machine \<Rightarrow> bool" where
  "long_mode_ok m \<longleftrightarrow> \<not> max_ext m < 0x80000001 \<and> ext_features m AND push_bit 29 1 \<noteq> 0"

text \<open>
  An error leaves its message on the screen and stops the processor.  The size of the kernel is
  compared as a signed number.
\<close>

definition start :: "link_addrs \<Rightarrow> boot_machine \<Rightarrow> boot_state \<Rightarrow> boot_state + boot_state" where
  "start k m b =
     (let b = clear_screen b in
      if \<not> multiboot_ok m then Inl (boot_error 0x30 b)
      else let b = set_cursor b in
      if \<not> flips_id m then Inl (boot_error 0x31 b)
      else if \<not> long_mode_ok m then Inl (boot_error 0x32 b)
      else let b = enable_sse b;
               b = b\<lparr>bt_frames := map_p1 k (map_tables k (bt_frames b))\<rparr> in
      if sint (kernel_end k) > 0x1000000 then Inl (boot_error 0x33 b)
      else Inr (higher_half k (enable_paging k b)))"

end
