(* ===== verification/Boot_Correct.thy ===== *)
theory Boot_Correct
  imports Boot_Asm Vmm_Boot Mmu
begin

text \<open>
  What the boot code sets up: the translation of every address through the first page tables, the
  sharing between the map of the kernel and the linear map, and what it means for the array of
  \<^verbatim>\<open>struct page\<close>, which \<^verbatim>\<open>kernel/mm/pmm.c\<close> puts behind the kernel.
\<close>

section \<open>Entries\<close>











section \<open>The tables\<close>











section \<open>Addresses\<close>









section \<open>Translation\<close>













section \<open>The array of pages\<close>












end
