(* ===== verification/Syscall.thy ===== *)
theory Syscall
  imports Sched
begin

text \<open>
  The way into the kernel and back: \<^verbatim>\<open>kernel/syscall/syscall.asm\<close>.  The registers of the user program are a
  record; the callee-saved ones and the stack pointer are those the scheduler switches.  What the
  instructions \<^verbatim>\<open>syscall\<close> and \<^verbatim>\<open>iretq\<close> do is written out.  The table of functions is generated when the
  kernel is built, and is a parameter, as is \<^verbatim>\<open>syscall_fork\<close>: what this code relies on is that a
  function returns as the calling convention says, with the callee-saved registers, the stack
  pointer and the stack above it as they were.  The word \<^verbatim>\<open>rsp_scratch\<close> of a processor is not part of the
  state: only the entry reads it, right after writing it and with interrupts disabled.
\<close>

section \<open>Enabling\<close>



section \<open>Registers\<close>






section \<open>Entry\<close>







section \<open>Correctness\<close>












end
