(* ===== verification/Spec2Isabelle.thy ===== *)
theory Spec2Isabelle
  imports Pmm_Correct Mmap_Correct Runq_Correct Slob_Correct Strings Kprintf Sync_Correct Cpuset Mmu_Correct Sched_Correct Console_Correct Acpi_Correct
    Apic_Correct Dispatch_Correct Smp_Correct Smbios Fs_Correct Boot_Correct Syscall
begin

text \<open>
  Verification of the ByteOS kernel (\<^verbatim>\<open>src/\<close>), a 64-bit kernel for x86 processors in C and assembly.

  \<^bold>\<open>The program.\<close>  The boot code (\<^verbatim>\<open>kernel/boot.asm\<close>) checks the machine, builds the first page tables and enters the
  kernel, which reads the boot loader's memory map (\<^verbatim>\<open>kernel/mm/mmap.c\<close>), maps the firmware's tables with frames from that
  map, builds the page allocator (\<^verbatim>\<open>kernel/mm/pmm.c\<close>) and on it the heap (\<^verbatim>\<open>kernel/mm/slob.c\<close>) and the address spaces
  (\<^verbatim>\<open>kernel/mm/vmm.c\<close>, \<^verbatim>\<open>mmu.c\<close>, \<^verbatim>\<open>cow.c\<close>, \<^verbatim>\<open>area.c\<close>).  Interrupts go from the controllers (\<^verbatim>\<open>kernel/drivers/apic\<close>) through the descriptor
  table and the dispatcher (\<^verbatim>\<open>kernel/cpu\<close>) to handlers, among them the timer, which makes the scheduler
  (\<^verbatim>\<open>kernel/proc/sched.c\<close>) take the next task from a run queue (\<^verbatim>\<open>kernel/proc/runq.c\<close>, over the red-black tree of \<^verbatim>\<open>libk/ds/rbtree.c\<close>).
  Tasks enter the kernel by system calls (\<^verbatim>\<open>kernel/syscall\<close>).  Other processors are started by \<^verbatim>\<open>kernel/smp/smp.c\<close>; locks
  (\<^verbatim>\<open>include/sync.h\<close>) and TLB shootdowns (\<^verbatim>\<open>kernel/mm/tlb.c\<close>) coordinate them.  Output goes through \<^verbatim>\<open>libk/kprintf.c\<close> to the serial
  line and the screen; files come from a RAM disk behind the inode cache of \<^verbatim>\<open>kernel/fs\<close>.

  \<^bold>\<open>Conventions.\<close>  The model is the default debug build: a failed assertion, a panic and an access the sanitizer rejects are
  values of \<^verbatim>\<open>fault\<close>, and an operation returns \<^verbatim>\<open>'a outcome\<close>, which is \<^verbatim>\<open>Inl\<close> of a fault or \<^verbatim>\<open>Inr\<close> of a result (theory \<^verbatim>\<open>Prelude\<close>).  Operations
  that may not end are partial functions into \<^verbatim>\<open>'a outcome option\<close>, where \<^verbatim>\<open>None\<close> means that the call does not return;
  every claim that such a call returns is proved as such.  No definition has fuel: a loop that polls a device consumes the list of the
  answers of the device, which is a parameter, and does not return when there are no more.  Machine integers are words of their width.  Structures are
  records, or functions of the address where pointers to them are shared; \<^verbatim>\<open>NULL\<close> is \<^verbatim>\<open>None\<close> or 0 as each theory says.
  Firmware, boot loader and file data are bytes of a memory that is only read.  What hardware answers, what the linker assigns and what
  the build generates are parameters.

  \<^bold>\<open>The theories.\<close>
  \<^item> \<^verbatim>\<open>Prelude\<close>, \<^verbatim>\<open>Util\<close>, \<^verbatim>\<open>Linked\<close>: word types, outcomes, rounding macros, address conversions and field access; the intrusive lists
    of \<^verbatim>\<open>include/ds/linked.h\<close> and the buckets of \<^verbatim>\<open>include/ds/hash.h\<close> with the sequence a list represents.
  \<^item> \<^verbatim>\<open>Mmap\<close>, \<^verbatim>\<open>Mmap_Correct\<close>: the walk over the Multiboot tags and entries, insertion into the arrays of regions, early allocation.
    The invariant \<^verbatim>\<open>spaced\<close> (sorted, disjoint, coalesced) and the bytes covered; reading the boot loader's map; the inputs
    on which insertion or allocation go wrong.
  \<^item> \<^verbatim>\<open>Pmm\<close>, then \<^verbatim>\<open>Buddy\<close>, \<^verbatim>\<open>Pmm_Lists\<close>, \<^verbatim>\<open>Pmm_Inv\<close>, \<^verbatim>\<open>Pmm_Init\<close>, \<^verbatim>\<open>Pmm_Correct\<close>: the buddy allocator.  The invariant \<^verbatim>\<open>pmm_inv\<close> says that free
    and allocated blocks tile the pages of the zones; allocation, freeing with the merging \<^verbatim>\<open>merge_free\<close> describes, the zones built at boot, and,
    through the locale \<^verbatim>\<open>frame_allocator\<close>, every history of requests.
  \<^item> \<^verbatim>\<open>Slob\<close>, \<^verbatim>\<open>Slob_Correct\<close>: \<^verbatim>\<open>kmalloc\<close> and \<^verbatim>\<open>kfree\<close> over words in pages of the page allocator; disjointness, contents and the cases that panic.
  \<^item> \<^verbatim>\<open>Vmm\<close>, \<^verbatim>\<open>Vmm_Correct\<close>, \<^verbatim>\<open>Vmm_Boot\<close>: page-table walks and mapping as updates of a map from addresses to entries, up to the sharing of tables.
    The locale \<^verbatim>\<open>table_source\<close> is what mapping relies on; its interpretations are the page allocator (\<^verbatim>\<open>pages\<close>) and the boot-time
    memory map (\<^verbatim>\<open>boot\<close>).
  \<^item> \<^verbatim>\<open>Mmu\<close>, \<^verbatim>\<open>Mmu_Correct\<close>: copy on write, cloning and switching of address spaces, areas, page faults, TLB shootdown.
  \<^item> \<^verbatim>\<open>Rbtree\<close>, then \<^verbatim>\<open>Rbtree_Rep\<close>, \<^verbatim>\<open>Rbtree_Insert\<close>, \<^verbatim>\<open>Rbtree_Erase\<close>, \<^verbatim>\<open>Rbtree_Remove\<close>, \<^verbatim>\<open>Rbtree_Correct\<close>: the intrusive red-black tree on a heap of nodes
    against trees with a hole; insertion and removal return, change the sequence by one node and keep the tree balanced.
  \<^item> \<^verbatim>\<open>Runq\<close>, \<^verbatim>\<open>Runq_Correct\<close>: the run queues of all processors as sorted sequences; the locale \<^verbatim>\<open>ready_queue\<close> is what picking tasks relies on.
  \<^item> \<^verbatim>\<open>Sched\<close>, \<^verbatim>\<open>Sched_Correct\<close>, \<^verbatim>\<open>Syscall\<close>: tasks, the scheduler as a step of an abstract one, the context switch and fork
    of the assembly files with the stacks they use, and the entry and return of a system call.
  \<^item> \<^verbatim>\<open>Isr\<close>, \<^verbatim>\<open>Ioapic\<close>, \<^verbatim>\<open>Ioapic_Correct\<close>, \<^verbatim>\<open>Lapic\<close>, \<^verbatim>\<open>Dispatch\<close>, \<^verbatim>\<open>Dispatch_Correct\<close>: the descriptor table, the stubs, the I/O and local controllers, and the
    dispatcher with all its handlers.
  \<^item> \<^verbatim>\<open>Sync\<close>, \<^verbatim>\<open>Sync_Correct\<close>, \<^verbatim>\<open>Cpuset\<close>: spin locks and reader/writer locks as steps of single memory accesses with an invariant over
    all interleavings; sets of processors and bitmaps.
  \<^item> \<^verbatim>\<open>Smp\<close>, \<^verbatim>\<open>Smp_Correct\<close>, \<^verbatim>\<open>Boot_Asm\<close>, \<^verbatim>\<open>Boot_Correct\<close>: per-processor data, the start of the other processors, and the boot code with the
    first address space.
  \<^item> \<^verbatim>\<open>Acpi\<close>, \<^verbatim>\<open>Acpi_Correct\<close>, \<^verbatim>\<open>Apic\<close>, \<^verbatim>\<open>Apic_Correct\<close>, \<^verbatim>\<open>Smbios\<close>: search, mapping and reading of the firmware's tables.
  \<^item> \<^verbatim>\<open>Strings\<close>, \<^verbatim>\<open>Kprintf\<close>, \<^verbatim>\<open>Ports\<close>, \<^verbatim>\<open>Console\<close>, \<^verbatim>\<open>Console_Correct\<close>: byte routines, formatted output, ports, serial line, keyboard, timer, escape sequences and screen.
  \<^item> \<^verbatim>\<open>Fs\<close>, \<^verbatim>\<open>Fs_Correct\<close>: the inode cache as a finite map, mounting, lookup and the archive of the RAM disk.

  \<^bold>\<open>What is shown.\<close>  The claims C1 to C40 stand in these theories, each with the lemmas it needs.  Memory: C1, C2, C9 and C34 for the page allocator, C13 and C38 for
  the heap, C4, C12 and C15 for address spaces, and those on the boot loader's map, the first page tables and \<^verbatim>\<open>page_data\<close>.  Scheduling: the tree and the
  queues (C3, C10, C11, C14), the scheduler, the switch, fork and exit (C6, C7, C8, C40), preemption by the timer, and system calls.
  Concurrency: the reader/writer lock (C5), shootdown and the start of processors.  Devices: interrupts, controllers, firmware tables,
  printing, console.  Files: the inode cache and mounting.  Several claims describe where the code departs from what it is meant to do; their texts say so.

  \<^bold>\<open>Not modelled.\<close>  \<^verbatim>\<open>kernel/kmain.c\<close> and \<^verbatim>\<open>kernel/cpu/entry.asm\<close>, which call the modelled parts in order, and \<^verbatim>\<open>kernel/smp/trampoline.asm\<close>, which brings a processor
  from real mode to the modelled functions; \<^verbatim>\<open>kernel/cpu/simd.asm\<close> and \<^verbatim>\<open>flush.asm\<close>, single privileged instructions; the demonstration
  threads of \<^verbatim>\<open>kernel/proc/init.c\<close> and the idle loop; the handlers of \<^verbatim>\<open>libk/ubsan.c\<close>, which print and stop, for which the faults stand; output of
  logging functions and of the verbose build other than the walk over the SMBIOS structures; tags of the boot loader that no code reads;
  the tests in \<^verbatim>\<open>libk/tests\<close>.  Code is sequential on each processor: only the locks are interleaved step by step, and interrupts are taken between
  the operations of the other theories.  The filling of fresh pages in the debug build and the time devices take are left out.
\<close>

end
